(* ===== verification/Prelude.thy ===== *)
theory Prelude
  imports Main "HOL-Library.Sublist" "HOL-Library.Word"
begin

text \<open>
  Shared vocabulary of the development: C strings as lists of characters, the classification
  functions of \<open>ctype.h\<close> in the C locale, the searches of \<open>string.h\<close>
  (\<open>strstr\<close>, \<open>strchr\<close>, \<open>memchr\<close>) with the position they find, decimal
  printing, and two interface locales used across components: \<open>codec\<close> (an encoder with a
  decoder that inverts it) and \<open>machine\<close> (an invariant kept by every step of a
  deterministic machine).

  A \<open>char *\<close> that the code tests against NULL is a \<open>string option\<close>; a pointer
  that is never NULL is a \<open>string\<close>. A \<open>string\<close> stands for the bytes before the
  terminating NUL.
\<close>

unbundle bit_operations_syntax

section \<open>Types and automation\<close>

type_synonym cptr = "string option"
type_synonym u8 = "8 word"
type_synonym u32 = "32 word"
type_synonym u64 = "64 word"

named_theorems strfun \<open>definitional equations of the C string helpers\<close>
named_theorems inv_intros \<open>preservation of component invariants\<close>

section \<open>Bits of natural numbers\<close>

lemma bit_less_pow: "bit (x::nat) m \<Longrightarrow> x < 2 ^ n \<Longrightarrow> m < n"
  by (metis bit_take_bit_iff take_bit_nat_eq_self)

lemma or_add_disjoint: "x < 2 ^ n \<Longrightarrow> (push_bit n a :: nat) OR x = push_bit n a + x"
  by (rule disjunctive_add_eq_or [symmetric], rule bit_eqI)
     (auto simp: bit_simps dest: bit_less_pow)

lemma or_add_dvd:
  assumes "x < 2 ^ n" and "(2::nat) ^ n dvd a" shows "a OR x = a + x"
proof -
  from assms(2) obtain k where "a = push_bit n k" by (auto simp: push_bit_eq_mult dvd_def)
  with assms(1) show ?thesis by (simp add: or_add_disjoint)
qed

lemma and_mask_mod: "(n::nat) AND mask k = n mod 2 ^ k"
  by (simp flip: take_bit_eq_mask take_bit_eq_mod)

lemma and_63: "(n::nat) AND 63 = n mod 64"
  using and_mask_mod [of n 6] by (simp add: mask_eq_exp_minus_1)

lemma and_192: "(n::nat) AND 192 = 64 * (n div 64 mod 4)"
proof -
  have "n AND push_bit 6 (mask 2) = push_bit 6 (drop_bit 6 n AND mask 2)"
    by (rule bit_eqI) (auto simp: bit_simps)
  then show ?thesis
    by (simp add: push_bit_eq_mult drop_bit_eq_div mask_eq_exp_minus_1 and_mask_mod)
      (simp add: and_mask_mod [of _ 2, unfolded mask_eq_exp_minus_1, simplified])
qed

section \<open>Characters\<close>

abbreviation byte :: "char \<Rightarrow> nat" where
  "byte c \<equiv> of_char c"

abbreviation chr :: "nat \<Rightarrow> char" where
  "chr n \<equiv> char_of n"

abbreviation NUL :: char where "NUL \<equiv> CHR 0x00"
abbreviation TAB :: char where "TAB \<equiv> CHR 0x09"
abbreviation LF :: char where "LF \<equiv> CHR 0x0A"
abbreviation CR :: char where "CR \<equiv> CHR 0x0D"
abbreviation SP :: char where "SP \<equiv> CHR 0x20"
abbreviation DQUOTE :: char where "DQUOTE \<equiv> CHR 0x22"
abbreviation BACKSLASH :: char where "BACKSLASH \<equiv> CHR 0x5C"
abbreviation BACKTICK :: char where "BACKTICK \<equiv> CHR 0x60"
abbreviation CRLF :: string where "CRLF \<equiv> [CHR 0x0D, CHR 0x0A]"

definition is_space :: "char \<Rightarrow> bool" where
  "is_space c \<longleftrightarrow> byte c = 32 \<or> (9 \<le> byte c \<and> byte c \<le> 13)"

definition is_digit :: "char \<Rightarrow> bool" where
  "is_digit c \<longleftrightarrow> 48 \<le> byte c \<and> byte c \<le> 57"

definition is_upper :: "char \<Rightarrow> bool" where
  "is_upper c \<longleftrightarrow> 65 \<le> byte c \<and> byte c \<le> 90"

definition is_lower :: "char \<Rightarrow> bool" where
  "is_lower c \<longleftrightarrow> 97 \<le> byte c \<and> byte c \<le> 122"

definition is_alnum :: "char \<Rightarrow> bool" where
  "is_alnum c \<longleftrightarrow> is_digit c \<or> is_upper c \<or> is_lower c"

definition to_lower :: "char \<Rightarrow> char" where
  "to_lower c = (if is_upper c then char_of (byte c + 32) else c)"

definition lower :: "string \<Rightarrow> string" where
  "lower s = map to_lower s"

lemma byte_less [simp]: "byte c < 256"
  using of_char_mod_256 [of c, where 'a = nat] by (metis mod_less_divisor zero_less_numeral)

lemma byte_inject [simp]: "byte c = byte d \<longleftrightarrow> c = d"
  by (metis char_of_char)

lemma byte_char_of: "n < 256 \<Longrightarrow> byte (chr n) = n"
  by simp

lemma length_lower [simp]: "length (lower s) = length s"
  by (simp add: lower_def)

section \<open>C string primitives\<close>

text \<open>The bytes of a buffer that \<open>strlen\<close> and \<open>strstr\<close> see: those before the first NUL.\<close>

definition cstr :: "string \<Rightarrow> string" where
  "cstr s = takeWhile (\<lambda>c. c \<noteq> NUL) s"

lemma cstr_id: "NUL \<notin> set s \<Longrightarrow> cstr s = s"
  unfolding cstr_def by (subst takeWhile_eq_all_conv) auto

text \<open>Position of the first element that satisfies \<open>p\<close> (\<open>strchr\<close>, \<open>memchr\<close>, \<open>strcspn\<close>).\<close>

fun find_index :: "('a \<Rightarrow> bool) \<Rightarrow> 'a list \<Rightarrow> nat option" where
  "find_index p [] = None"
| "find_index p (x # xs) = (if p x then Some 0 else map_option Suc (find_index p xs))"

definition memchr :: "char \<Rightarrow> string \<Rightarrow> nat option" where
  "memchr c s = find_index (\<lambda>d. d = c) s"

lemma find_index_None: "find_index p xs = None \<longleftrightarrow> (\<forall>x \<in> set xs. \<not> p x)"
  by (induction xs) auto

lemma find_index_Some:
  "find_index p xs = Some i \<Longrightarrow>
     i < length xs \<and> p (xs ! i) \<and> (\<forall>x \<in> set (take i xs). \<not> p x)"
  by (induction xs arbitrary: i) (auto split: if_splits)

lemma find_index_append:
  "find_index p (xs @ ys) =
     (case find_index p xs of Some i \<Rightarrow> Some i
      | None \<Rightarrow> map_option (\<lambda>i. i + length xs) (find_index p ys))"
  by (induction xs)
     (auto simp: option.map_comp comp_def option.map_ident split: option.splits)

lemma find_index_takeWhile:
  "find_index p xs = Some i \<Longrightarrow> take i xs = takeWhile (\<lambda>x. \<not> p x) xs"
  by (induction xs arbitrary: i) (auto split: if_splits)

lemma find_index_Some_length: "find_index p xs = Some i \<Longrightarrow> i < length xs"
  by (simp add: find_index_Some)

text \<open>Offset of the first occurrence of a needle (\<open>strstr\<close>); an empty needle is at offset 0.\<close>

fun strstr_at :: "string \<Rightarrow> string \<Rightarrow> nat option" where
  "strstr_at [] n = (if n = [] then Some 0 else None)"
| "strstr_at (c # cs) n =
     (if prefix n (c # cs) then Some 0 else map_option Suc (strstr_at cs n))"

definition has_sub :: "string \<Rightarrow> string \<Rightarrow> bool" where
  "has_sub h n \<longleftrightarrow> strstr_at h n \<noteq> None"

lemma strstr_at_Some:
  "strstr_at h n = Some i \<Longrightarrow> i + length n \<le> length h \<and> prefix n (drop i h)"
proof (induction h arbitrary: i)
  case Nil
  then show ?case by (simp split: if_splits)
next
  case (Cons c cs)
  show ?case
  proof (cases "prefix n (c # cs)")
    case True
    with Cons.prems show ?thesis using prefix_length_le [OF True] by simp
  next
    case False
    with Cons.prems obtain j where "strstr_at cs n = Some j" "i = Suc j" by auto
    with Cons.IH [of j] show ?thesis by simp
  qed
qed

lemma strstr_at_split:
  assumes "strstr_at h n = Some i"
  shows "h = take i h @ n @ drop (i + length n) h"
proof -
  from assms have "prefix n (drop i h)" by (simp add: strstr_at_Some)
  then obtain r where "drop i h = n @ r" by (auto simp: prefix_def)
  moreover then have "drop (i + length n) h = r"
    by (metis add.commute append_eq_conv_conj drop_drop)
  ultimately show ?thesis by (metis append_take_drop_id)
qed

lemma strstr_at_first:
  "strstr_at h n = Some i \<Longrightarrow> j < i \<Longrightarrow> \<not> prefix n (drop j h)"
proof (induction h arbitrary: i j)
  case Nil
  then show ?case by (simp split: if_splits)
next
  case (Cons c cs)
  then show ?case by (cases j) (auto split: if_splits)
qed

lemma strstr_at_None: "strstr_at h n = None \<Longrightarrow> \<not> prefix n (drop j h)"
proof (induction h arbitrary: j)
  case Nil
  then show ?case by (simp split: if_splits)
next
  case (Cons c cs)
  then show ?case by (cases j) (auto split: if_splits)
qed

lemma has_sub_sublist: "has_sub h n \<longleftrightarrow> sublist n h"
proof
  assume "has_sub h n"
  then obtain i where "strstr_at h n = Some i" by (auto simp: has_sub_def)
  then show "sublist n h" by (metis strstr_at_split sublist_def)
next
  assume "sublist n h"
  then obtain p s where "h = p @ n @ s" by (auto simp: sublist_def)
  then have "prefix n (drop (length p) h)" by simp
  then show "has_sub h n" using strstr_at_None by (auto simp: has_sub_def)
qed

text \<open>A match that is complete in a prefix of the data is the match in the whole data.\<close>

lemma strstr_at_append:
  assumes "strstr_at h n = Some i" shows "strstr_at (h @ t) n = Some i"
  using assms
proof (induction h arbitrary: i)
  case Nil
  then show ?case by (cases t) (auto split: if_splits)
next
  case (Cons c cs)
  show ?case
  proof (cases "prefix n (c # cs)")
    case True
    then have "prefix n ((c # cs) @ t)" by (rule prefix_prefix)
    with True Cons.prems show ?thesis by simp
  next
    case False
    with Cons.prems obtain j where j: "strstr_at cs n = Some j" "i = Suc j" by auto
    from j have "j + length n \<le> length cs" using strstr_at_Some by blast
    then have len: "length n \<le> length (c # cs)" by simp
    have "\<not> prefix n ((c # cs) @ t)"
    proof
      assume "prefix n ((c # cs) @ t)"
      then have "prefix n (c # cs)"
        using len prefix_length_prefix [of n "(c # cs) @ t" "c # cs"] by simp
      with False show False by contradiction
    qed
    with Cons.IH j show ?thesis by simp
  qed
qed

section \<open>Lists updated by index\<close>

lemma nth_list_update_if: "xs[i := x] ! j = (if i = j \<and> i < length xs then x else xs ! j)"
  by (cases "i < length xs") (auto simp: nth_list_update list_update_beyond)

section \<open>Trimming and splitting\<close>

definition ltrim_by :: "(char \<Rightarrow> bool) \<Rightarrow> string \<Rightarrow> string" where
  "ltrim_by p s = dropWhile p s"

definition rtrim_by :: "(char \<Rightarrow> bool) \<Rightarrow> string \<Rightarrow> string" where
  "rtrim_by p s = rev (dropWhile p (rev s))"

definition trim_by :: "(char \<Rightarrow> bool) \<Rightarrow> string \<Rightarrow> string" where
  "trim_by p s = rtrim_by p (ltrim_by p s)"

lemma ltrim_by_suffix: "suffix (ltrim_by p s) s"
  by (simp add: ltrim_by_def suffix_dropWhile)

lemma rtrim_by_prefix: "prefix (rtrim_by p s) s"
  by (metis rtrim_by_def rev_rev_ident suffix_dropWhile suffix_to_prefix)

lemma trim_by_sublist: "sublist (trim_by p s) s"
  by (metis trim_by_def ltrim_by_suffix prefix_imp_sublist rtrim_by_prefix
      sublist_order.dual_order.trans suffix_imp_sublist)

lemma length_trim_by_le: "length (trim_by p s) \<le> length s"
  by (simp add: sublist_length_le trim_by_sublist)

lemma rtrim_by_id: "s = [] \<or> \<not> p (last s) \<Longrightarrow> rtrim_by p s = s"
  by (cases s rule: rev_cases) (auto simp: rtrim_by_def)

lemma trim_by_id:
  "(s = [] \<or> \<not> p (hd s)) \<Longrightarrow> (s = [] \<or> \<not> p (last s)) \<Longrightarrow> trim_by p s = s"
  by (cases s) (simp_all add: trim_by_def ltrim_by_def rtrim_by_id)

lemma rtrim_by_last: "rtrim_by p s \<noteq> [] \<Longrightarrow> \<not> p (last (rtrim_by p s))"
  by (metis hd_dropWhile last_rev rev_is_Nil_conv rtrim_by_def)

lemma trim_by_hd: "trim_by p s \<noteq> [] \<Longrightarrow> \<not> p (hd (trim_by p s))"
proof -
  assume ne: "trim_by p s \<noteq> []"
  then have pre: "prefix (trim_by p s) (ltrim_by p s)"
    by (simp add: trim_by_def rtrim_by_prefix)
  with ne have "hd (trim_by p s) = hd (ltrim_by p s)" and "ltrim_by p s \<noteq> []"
    by (auto simp: prefix_def)
  then show ?thesis by (metis hd_dropWhile ltrim_by_def)
qed

lemma trim_by_last: "trim_by p s \<noteq> [] \<Longrightarrow> \<not> p (last (trim_by p s))"
  by (simp add: trim_by_def rtrim_by_last)

lemma trim_by_idem: "trim_by p (trim_by p s) = trim_by p s"
  by (rule trim_by_id) (auto simp: trim_by_hd trim_by_last)

lemma ltrim_by_append: "list_all p a \<Longrightarrow> ltrim_by p (a @ s) = ltrim_by p s"
  by (induction a) (simp_all add: ltrim_by_def)

lemma rtrim_by_append: "list_all p b \<Longrightarrow> rtrim_by p (s @ b) = rtrim_by p s"
  using ltrim_by_append [of p "rev b" "rev s"] by (simp add: rtrim_by_def ltrim_by_def list_all_iff)

lemma trim_by_pad:
  assumes "list_all p a" and "list_all p b" and "trim_by p s = s"
  shows "trim_by p (a @ s @ b) = s"
proof (cases "s = []")
  case True
  moreover have "ltrim_by p b = []" using assms(2)
    by (simp add: ltrim_by_def dropWhile_eq_Nil_conv list_all_iff)
  ultimately show ?thesis using assms(1) by (simp add: trim_by_def ltrim_by_append rtrim_by_def)
next
  case False
  with assms(3) have "\<not> p (hd s)" by (metis trim_by_hd)
  with False have "ltrim_by p (s @ b) = s @ b" "ltrim_by p s = s" by (cases s; simp add: ltrim_by_def)+
  with assms show ?thesis by (simp add: trim_by_def ltrim_by_append rtrim_by_append)
qed

text \<open>A needle that neither starts nor ends with a trimmed character survives the trimming.\<close>

lemma ltrim_by_keeps:
  "sublist n s \<Longrightarrow> n \<noteq> [] \<Longrightarrow> \<not> p (hd n) \<Longrightarrow> sublist n (ltrim_by p s)"
proof (induction s)
  case Nil
  then show ?case by simp
next
  case (Cons c cs)
  show ?case
  proof (cases "p c")
    case True
    with Cons.prems have "\<not> prefix n (c # cs)" by (cases n) auto
    with Cons True show ?thesis by (simp add: ltrim_by_def sublist_Cons_right)
  next
    case False
    with Cons.prems show ?thesis by (simp add: ltrim_by_def)
  qed
qed

lemma trim_by_keeps:
  assumes "sublist n s" and "n \<noteq> []" and "\<not> p (hd n)" and "\<not> p (last n)"
  shows "sublist n (trim_by p s)"
proof -
  have "sublist n (ltrim_by p s)" using assms by (simp add: ltrim_by_keeps)
  then have "sublist (rev n) (ltrim_by p (rev (ltrim_by p s)))"
    using assms by (intro ltrim_by_keeps) (simp_all add: hd_rev)
  then have "sublist n (rev (ltrim_by p (rev (ltrim_by p s))))"
    by (metis rev_rev_ident sublist_rev)
  then show ?thesis by (simp add: trim_by_def rtrim_by_def ltrim_by_def)
qed

text \<open>The blanks of header lines.\<close>

definition blank :: "char \<Rightarrow> bool" where
  "blank c \<longleftrightarrow> c = SP \<or> c = TAB"

lemma ltrim_split: "\<exists>a. s = a @ ltrim_by p s \<and> list_all p a"
  by (rule exI [of _ "takeWhile p s"]) (auto simp: ltrim_by_def list_all_iff dest: set_takeWhileD)

lemma ltrim_by_all: "ltrim_by p s = [] \<longleftrightarrow> list_all p s"
  by (auto simp: ltrim_by_def list_all_iff)

lemma ltrim_by_stop: "s \<noteq> [] \<Longrightarrow> \<not> p (hd s) \<Longrightarrow> ltrim_by p s = s"
  by (cases s) (simp_all add: ltrim_by_def)

fun split_on :: "char \<Rightarrow> string \<Rightarrow> string list" where
  "split_on d [] = [[]]"
| "split_on d (c # cs) =
     (if c = d then [] # split_on d cs
      else (case split_on d cs of [] \<Rightarrow> [[c]] | w # ws \<Rightarrow> (c # w) # ws))"

fun join_with :: "char \<Rightarrow> string list \<Rightarrow> string" where
  "join_with d [] = []"
| "join_with d [w] = w"
| "join_with d (w # v # ws) = w @ d # join_with d (v # ws)"

lemma split_on_not_Nil [simp]: "split_on d s \<noteq> []"
  by (induction s) (auto split: list.splits)

lemma join_split_on: "join_with d (split_on d s) = s"
proof (induction s)
  case Nil
  then show ?case by simp
next
  case (Cons c cs)
  obtain w ws where ws: "split_on d cs = w # ws" by (cases "split_on d cs") auto
  with Cons.IH show ?case by (cases ws) auto
qed

lemma split_on_no_delim: "w \<in> set (split_on d s) \<Longrightarrow> d \<notin> set w"
proof (induction s arbitrary: w)
  case Nil
  then show ?case by simp
next
  case (Cons c cs)
  obtain v vs where vs: "split_on d cs = v # vs" by (cases "split_on d cs") auto
  with Cons show ?case by (fastforce split: if_splits)
qed

lemma split_on_length: "length (split_on d s) = Suc (length (filter (\<lambda>c. c = d) s))"
proof (induction s)
  case Nil
  then show ?case by simp
next
  case (Cons c cs)
  obtain v vs where "split_on d cs = v # vs" by (cases "split_on d cs") auto
  with Cons show ?case by auto
qed

lemma split_on_single: "d \<notin> set w \<Longrightarrow> split_on d w = [w]"
  by (induction w) auto

lemma split_on_step: "d \<notin> set w \<Longrightarrow> split_on d (w @ d # r) = w # split_on d r"
  by (induction w) (auto split: list.split)

lemma split_join_with:
  "ws \<noteq> [] \<Longrightarrow> \<forall>w \<in> set ws. d \<notin> set w \<Longrightarrow> split_on d (join_with d ws) = ws"
  by (induction d ws rule: join_with.induct) (simp_all add: split_on_single split_on_step)

text \<open>A delimiter-free substring of the text lies inside one of the pieces, and conversely.\<close>

lemma split_on_hd_prefix:
  "prefix n s \<Longrightarrow> d \<notin> set n \<Longrightarrow> prefix n (hd (split_on d s))"
proof (induction s arbitrary: n)
  case Nil
  then show ?case by simp
next
  case (Cons c cs)
  obtain v vs where vs: "split_on d cs = v # vs" by (cases "split_on d cs") auto
  show ?case
  proof (cases n)
    case Nil
    then show ?thesis by simp
  next
    case n: (Cons a n')
    with Cons.prems have "a = c" "prefix n' cs" "d \<notin> set n'" "c \<noteq> d" by auto
    with Cons.IH vs n show ?thesis by (metis hd_conv_nth list.sel(1) list.case(2) prefix_code(3) split_on.simps(2))
  qed
qed

lemma split_on_sublist:
  assumes "sublist n s" and "d \<notin> set n"
  shows "\<exists>w \<in> set (split_on d s). sublist n w"
  using assms(1)
proof (induction s)
  case Nil
  then show ?case by simp
next
  case (Cons c cs)
  obtain v vs where vs: "split_on d cs = v # vs" by (cases "split_on d cs") auto
  from Cons.prems consider "prefix n (c # cs)" | "sublist n cs"
    by (auto simp: sublist_Cons_right)
  then show ?case
  proof cases
    case 1
    with assms(2) have "prefix n (hd (split_on d (c # cs)))" by (rule split_on_hd_prefix [rotated -1])
    then show ?thesis
      by (metis list.set_sel(1) prefix_imp_sublist split_on_not_Nil)
  next
    case 2
    with Cons.IH obtain w where w: "w \<in> set (v # vs)" "sublist n w" using vs by auto
    show ?thesis
    proof (cases "w = v")
      case True
      with w(2) have "sublist n (c # v)" by (simp add: sublist_Cons_right)
      with vs True w show ?thesis by (cases "c = d") auto
    next
      case False
      with w vs show ?thesis by (cases "c = d") auto
    qed
  qed
qed

lemma split_on_piece_sublist: "w \<in> set (split_on d s) \<Longrightarrow> sublist w s"
proof (induction s arbitrary: w)
  case Nil
  then show ?case by simp
next
  case (Cons c cs)
  obtain v vs where vs: "split_on d cs = v # vs" by (cases "split_on d cs") auto
  have "prefix v cs"
    using vs join_split_on [of d cs] by (cases vs) auto
  then have pre: "prefix (c # v) (c # cs)" by simp
  from Cons.prems vs consider "w = []" | "w = c # v" | "w \<in> set (split_on d cs)"
    by (auto split: if_splits)
  then show ?case
  proof cases
    case 2
    with pre show ?thesis by (simp add: prefix_imp_sublist)
  next
    case 3
    with Cons.IH show ?thesis by (simp add: sublist_Cons_right)
  qed simp
qed

section \<open>Decimal numbers\<close>

text \<open>The digits of a natural number as \<open>printf\<close> writes them for \<open>%zu\<close>, \<open>%u\<close> and \<open>%d\<close>.\<close>

fun dec_nat :: "nat \<Rightarrow> string" where
  "dec_nat n = (if n < 10 then [chr (48 + n)]
                else dec_nat (n div 10) @ [chr (48 + n mod 10)])"

declare dec_nat.simps [simp del]

lemma dec_nat_digits: "c \<in> set (dec_nat n) \<Longrightarrow> is_digit c"
proof (induction n rule: dec_nat.induct)
  case (1 n)
  show ?case
  proof (cases "n < 10")
    case True
    with "1.prems" have "c = chr (48 + n)" by (simp add: dec_nat.simps)
    with True show ?thesis by (simp add: is_digit_def byte_char_of)
  next
    case False
    with "1.prems" consider "c \<in> set (dec_nat (n div 10))" | "c = chr (48 + n mod 10)"
      by (auto simp: dec_nat.simps [of n])
    then show ?thesis
    proof cases
      case 1
      with "1.IH" False show ?thesis by simp
    next
      case 2
      have "n mod 10 < 10" by simp
      with 2 show ?thesis by (simp add: is_digit_def byte_char_of)
    qed
  qed
qed

lemma dec_nat_nonempty: "dec_nat n \<noteq> []"
  by (subst dec_nat.simps) simp

lemma dec_nat_length:
  "n < 10 ^ k \<Longrightarrow> 0 < k \<Longrightarrow> length (dec_nat n) \<le> k"
proof (induction k arbitrary: n)
  case 0
  then show ?case by simp
next
  case (Suc k)
  show ?case
  proof (cases "n < 10")
    case True
    then show ?thesis by (simp add: dec_nat.simps)
  next
    case False
    with Suc.prems have "0 < k" by (cases k) auto
    moreover from Suc.prems have "n div 10 < 10 ^ k"
      by (simp add: less_mult_imp_div_less mult.commute)
    ultimately have "length (dec_nat (n div 10)) \<le> k" by (rule Suc.IH [rotated])
    with False show ?thesis by (simp add: dec_nat.simps [of n])
  qed
qed

text \<open>Different slots of a circular buffer.\<close>

lemma ring_slots_differ:
  assumes "i < j" "j < i + cap" shows "(h + i) mod cap \<noteq> (h + j) mod (cap :: nat)"
proof
  assume "(h + i) mod cap = (h + j) mod cap"
  then have "cap dvd (h + j) - (h + i)" using assms(1) by (metis mod_eq_dvd_iff_nat add_le_cancel_left less_imp_le)
  then show False using assms by (auto dest: dvd_imp_le)
qed

lemma ring_next: "((h + 1) mod c + i) mod c = (h + Suc i) mod (c :: nat)"
  using mod_add_left_eq [of "h + 1" c i] by simp

section \<open>Interfaces shared by components\<close>

text \<open>
  An encoder and a decoder that inverts it on the values it is meant for. Every encoding of the
  program (base64url, percent encoding, websocket framing, masking, line endings) is one.
\<close>

locale codec =
  fixes enc :: "'a \<Rightarrow> 'b" and dec :: "'b \<Rightarrow> 'a option" and ok :: "'a \<Rightarrow> bool"
  assumes dec_enc: "ok x \<Longrightarrow> dec (enc x) = Some x"
begin

lemma enc_inject: "ok x \<Longrightarrow> ok y \<Longrightarrow> enc x = enc y \<longleftrightarrow> x = y"
  using dec_enc by (metis option.inject)

lemma enc_accepted: "ok x \<Longrightarrow> dec (enc x) \<noteq> None"
  by (simp add: dec_enc)

lemma dec_of_enc_unique: "ok x \<Longrightarrow> dec (enc x) = Some y \<Longrightarrow> y = x"
  by (simp add: dec_enc)

end

text \<open>
  A deterministic machine: a step per event and the run over a list of events. A guarded machine
  keeps its invariant under the events that satisfy a guard.
\<close>

fun run :: "('s \<Rightarrow> 'e \<Rightarrow> 's) \<Rightarrow> 's \<Rightarrow> 'e list \<Rightarrow> 's" where
  "run step s [] = s"
| "run step s (e # es) = run step (step s e) es"

lemma run_append: "run step s (es @ fs) = run step (run step s es) fs"
  by (induction es arbitrary: s) auto

locale guarded_machine =
  fixes init :: 's and step :: "'s \<Rightarrow> 'e \<Rightarrow> 's" and inv :: "'s \<Rightarrow> bool"
    and ok :: "'e \<Rightarrow> bool"
  assumes inv_init: "inv init"
    and inv_step_ok: "ok e \<Longrightarrow> inv s \<Longrightarrow> inv (step s e)"
begin

lemma inv_run_ok: "list_all ok es \<Longrightarrow> inv s \<Longrightarrow> inv (run step s es)"
  by (induction es arbitrary: s) (auto intro: inv_step_ok)

lemma inv_reachable_ok: "list_all ok es \<Longrightarrow> inv (run step init es)"
  by (rule inv_run_ok [OF _ inv_init])

end

text \<open>A machine whose every event is admissible.\<close>

locale machine =
  fixes init :: 's and step :: "'s \<Rightarrow> 'e \<Rightarrow> 's" and inv :: "'s \<Rightarrow> bool"
  assumes inv_init: "inv init"
    and inv_step: "inv s \<Longrightarrow> inv (step s e)"

sublocale machine \<subseteq> unguarded: guarded_machine init step inv "\<lambda>_. True"
  by unfold_locales (auto intro: inv_init inv_step)

context machine begin

lemma inv_run: "inv s \<Longrightarrow> inv (run step s es)"
  by (rule unguarded.inv_run_ok) (simp_all add: list_all_iff)

lemma inv_reachable: "inv (run step init es)"
  by (rule inv_run [OF inv_init])

lemma reachable_induct:
  assumes "P init" and "\<And>s e. inv s \<Longrightarrow> P s \<Longrightarrow> P (step s e)"
  shows "P (run step init es)"
proof (induction es rule: rev_induct)
  case Nil
  show ?case by (simp add: assms(1))
next
  case (snoc e es)
  have "inv (run step init es)" by (rule inv_reachable)
  with snoc show ?case by (simp add: run_append assms(2))
qed

end

end
