(* ===== verification/CString.thy ===== *)
theory CString
  imports Prelude
begin

text \<open>
  \<open>utils/string_utils.c\<close>: trimming, bounded copies, prefix and suffix tests, splitting,
  ellipsis truncation and the JSON clean-up. Allocations are assumed to succeed here: the
  failing branch of every function of this file returns NULL (or \<open>-1\<close>) and nothing else.
\<close>

section \<open>Operations\<close>

definition SIZE_MAX :: nat where "SIZE_MAX = 2 ^ 64 - 1"

definition str_trim :: "cptr \<Rightarrow> cptr" where
  "str_trim str = (case str of None \<Rightarrow> None | Some s \<Rightarrow> Some (trim_by is_space s))"

definition str_dup :: "cptr \<Rightarrow> cptr" where
  "str_dup str = (case str of None \<Rightarrow> None | Some s \<Rightarrow> Some s)"

text \<open>\<open>p ? p : ""\<close>, the idiom with which NULL strings are read.\<close>

definition or_empty :: "cptr \<Rightarrow> string" where
  "or_empty p = (case p of None \<Rightarrow> [] | Some s \<Rightarrow> s)"

lemma or_empty_simps [simp]: "or_empty None = []" "or_empty (Some x) = x"
  by (simp_all add: or_empty_def)

text \<open>The return code and the new value of \<open>*target\<close>.\<close>

definition str_append :: "cptr \<Rightarrow> cptr \<Rightarrow> int \<times> cptr" where
  "str_append target val =
     (case val of None \<Rightarrow> (-1, target)
      | Some v \<Rightarrow>
          let old = (case target of None \<Rightarrow> '''' | Some t \<Rightarrow> t)
          in if length v > SIZE_MAX - length old - 1 then (-1, target)
             else (0, Some (old @ v)))"

text \<open>The destination's new contents (unchanged when the size leaves no room) and the length tried.\<close>

definition strlcpy :: "string \<Rightarrow> string \<Rightarrow> nat \<Rightarrow> string \<times> nat" where
  "strlcpy dst src sz =
     (if sz = 0 then (dst, length src)
      else let copy = (if length src < sz - 1 then length src else sz - 1)
           in (take copy src, length src))"

definition strlcat :: "string \<Rightarrow> string \<Rightarrow> nat \<Rightarrow> string \<times> nat" where
  "strlcat dst src sz =
     (if length dst \<ge> sz then (dst, sz + length src)
      else let copy = (if length src < sz - length dst - 1 then length src
                       else sz - length dst - 1)
           in (dst @ take copy src, length dst + length src))"

definition str_starts_with :: "cptr \<Rightarrow> cptr \<Rightarrow> bool" where
  "str_starts_with str pre =
     (case (str, pre) of (Some s, Some p) \<Rightarrow> take (length p) s = p | _ \<Rightarrow> False)"

definition str_ends_with :: "cptr \<Rightarrow> cptr \<Rightarrow> bool" where
  "str_ends_with str suf =
     (case (str, suf) of
        (Some s, Some x) \<Rightarrow>
          if length x > length s then False else drop (length s - length x) s = x
      | _ \<Rightarrow> False)"

text \<open>The splitting loop: finished items, the item being read, the text still to scan.\<close>

fun str_split_loop :: "char \<Rightarrow> string list \<Rightarrow> string \<Rightarrow> string \<Rightarrow> string list" where
  "str_split_loop d items cur [] = items @ [cur]"
| "str_split_loop d items cur (c # cs) =
     (if c = d then str_split_loop d (items @ [cur]) [] cs
      else str_split_loop d items (cur @ [c]) cs)"

definition str_split :: "cptr \<Rightarrow> char \<Rightarrow> string list" where
  "str_split str d = (case str of None \<Rightarrow> [] | Some s \<Rightarrow> str_split_loop d [] [] s)"

text \<open>A UTF-8 continuation byte, \<open>(b & 0xC0) == 0x80\<close>.\<close>

definition is_cont :: "char \<Rightarrow> bool" where
  "is_cont c \<longleftrightarrow> byte c AND 0xC0 = 0x80"

text \<open>The byte at an index of a NUL-terminated string: at its length it is the NUL.\<close>

definition char_at :: "string \<Rightarrow> nat \<Rightarrow> char" where
  "char_at s i = (if i < length s then s ! i else NUL)"

fun back_off :: "string \<Rightarrow> nat \<Rightarrow> nat" where
  "back_off s 0 = 0"
| "back_off s (Suc k) = (if is_cont (char_at s (Suc k)) then back_off s k else Suc k)"

definition omit_marker :: "nat \<Rightarrow> string" where
  "omit_marker n = take 63 (''[... truncated, '' @ dec_nat n @ '' chars omitted ...]'')"

definition str_truncate_ellipsis_dup :: "cptr \<Rightarrow> nat \<Rightarrow> cptr" where
  "str_truncate_ellipsis_dup text max_chars =
     (case text of None \<Rightarrow> None
      | Some t \<Rightarrow>
          if length t \<le> max_chars then Some t
          else let mk = omit_marker (length t - max_chars);
                   room = max_chars > length mk + 1;
                   keep = back_off t (if room then max_chars - length mk else max_chars)
               in Some (take keep t @ (if room then mk else [])))"

definition json_ws :: "char \<Rightarrow> bool" where
  "json_ws c \<longleftrightarrow> c \<in> {SP, TAB, LF, CR}"

text \<open>The leading blanks and the opening line of a markdown fence.\<close>

definition skip_fence :: "string \<Rightarrow> string" where
  "skip_fence s =
     (let p = dropWhile json_ws s
      in if take 3 p = [BACKTICK, BACKTICK, BACKTICK]
         then (case dropWhile (\<lambda>c. c \<noteq> LF) (drop 3 p) of [] \<Rightarrow> [] | _ # r \<Rightarrow> r)
         else p)"

text \<open>
  The character loop: \<open>len\<close> is the length of the text, \<open>prev\<close> the character before the
  position, \<open>out\<close> what is written. At a comma that only blanks separate from a closing bracket
  the commas at the end of the output go, the rest is copied as it is and the loop is left.
\<close>

fun sanitize_loop :: "nat \<Rightarrow> char option \<Rightarrow> bool \<Rightarrow> string \<Rightarrow> string \<Rightarrow> string" where
  "sanitize_loop len prev in_string out [] = out"
| "sanitize_loop len prev in_string out (c # cs) =
     (let in_s = (if c = DQUOTE \<and> prev \<noteq> Some BACKSLASH then \<not> in_string else in_string);
          rest = dropWhile json_ws cs
      in if \<not> in_s \<and> c \<in> {LF, CR, TAB} then sanitize_loop len (Some c) in_s out cs
         else if \<not> in_s \<and> c = CHR '','' \<and> rest \<noteq> [] \<and> hd rest \<in> {CHR '']'', CHR ''}''}
         then let w = rtrim_by (\<lambda>d. d = CHR '','') (out @ [c])
              in if w \<noteq> [] \<and> length w + length rest < len then w @ rest else w
         else sanitize_loop len (Some c) in_s (out @ [c]) cs)"

definition sanitize_json_dup :: "cptr \<Rightarrow> cptr" where
  "sanitize_json_dup str =
     (case str of None \<Rightarrow> None
      | Some s \<Rightarrow>
          let p = skip_fence s;
              r = rtrim_by json_ws (sanitize_loop (length p) None False [] p)
          in str_trim (Some r))"

section \<open>Lemmas\<close>

lemma str_starts_with_prefix [strfun]: "str_starts_with (Some s) (Some p) \<longleftrightarrow> prefix p s"
  by (auto simp: str_starts_with_def prefix_def) (metis append_take_drop_id)

lemma str_ends_with_suffix [strfun]: "str_ends_with (Some s) (Some x) \<longleftrightarrow> suffix x s"
proof
  assume "str_ends_with (Some s) (Some x)"
  then have "s = take (length s - length x) s @ x"
    by (auto simp: str_ends_with_def split: if_splits) (metis append_take_drop_id)
  then show "suffix x s" by (metis suffixI)
next
  assume "suffix x s"
  then show "str_ends_with (Some s) (Some x)" by (auto simp: str_ends_with_def suffix_def)
qed

lemma str_trim_Some [strfun]: "str_trim (Some s) = Some (trim_by is_space s)"
  by (simp add: str_trim_def)

lemma str_split_loop_split_on:
  "str_split_loop d items cur s =
     items @ (case split_on d s of [] \<Rightarrow> [cur] | w # ws \<Rightarrow> (cur @ w) # ws)"
proof (induction d items cur s rule: str_split_loop.induct)
  case (1 d items cur)
  then show ?case by simp
next
  case (2 d items cur c cs)
  obtain w ws where "split_on d cs = w # ws" by (cases "split_on d cs") auto
  with 2 show ?case by simp
qed

lemma str_split_split_on [strfun]: "str_split (Some s) d = split_on d s"
  by (simp add: str_split_def str_split_loop_split_on split: list.split)

lemma strlcpy_bound: "0 < sz \<Longrightarrow> length (fst (strlcpy dst src sz)) < sz"
  by (auto simp: strlcpy_def Let_def)

lemma strlcat_bound: "length dst < sz \<Longrightarrow> length (fst (strlcat dst src sz)) < sz"
  by (auto simp: strlcat_def Let_def)

lemma char_at_Cons_Suc [simp]: "char_at (c # cs) (Suc i) = char_at cs i"
  by (simp add: char_at_def)

lemma char_at_drop: "char_at (drop n s) i = char_at s (n + i)"
  by (cases "n \<le> length s") (auto simp: char_at_def)

lemma back_off_le: "back_off s k \<le> k"
  by (induction k) auto

lemma back_off_stop: "back_off s k = 0 \<or> \<not> is_cont (char_at s (back_off s k))"
  by (induction k) auto

lemma back_off_between: "back_off s k < j \<Longrightarrow> j \<le> k \<Longrightarrow> is_cont (char_at s j)"
proof (induction k)
  case 0
  then show ?case by simp
next
  case (Suc k)
  then show ?case by (cases "j = Suc k") (auto split: if_splits)
qed

lemma is_cont_range: "is_cont c \<longleftrightarrow> 128 \<le> byte c \<and> byte c < 192"
proof -
  have "byte c div 64 < 4" by (rule less_mult_imp_div_less) simp
  then have "is_cont c \<longleftrightarrow> byte c div 64 = 2" by (auto simp: is_cont_def and_192)
  then show ?thesis by auto
qed

lemma is_cont_NUL [simp]: "\<not> is_cont NUL"
  by (simp add: is_cont_range)

text \<open>A truncated text is a prefix cut at a character boundary, and the marker if it fits.\<close>

lemma str_truncate_ellipsis_cut:
  assumes "length t > max_chars"
  obtains keep mk where "str_truncate_ellipsis_dup (Some t) max_chars = Some (take keep t @ mk)"
    and "mk = [] \<or> mk = omit_marker (length t - max_chars)"
    and "keep + length mk \<le> max_chars"
    and "keep = 0 \<or> \<not> is_cont (char_at t keep)"
proof -
  define mk where "mk = omit_marker (length t - max_chars)"
  define room where "room \<longleftrightarrow> max_chars > length mk + 1"
  define k0 where "k0 = (if room then max_chars - length mk else max_chars)"
  have res: "str_truncate_ellipsis_dup (Some t) max_chars =
      Some (take (back_off t k0) t @ (if room then mk else []))"
    using assms by (simp add: str_truncate_ellipsis_dup_def mk_def room_def k0_def Let_def)
  have "back_off t k0 \<le> k0" by (rule back_off_le)
  then have le: "back_off t k0 + length (if room then mk else []) \<le> max_chars"
    by (auto simp: k0_def room_def)
  show ?thesis
    by (rule that [OF res _ le back_off_stop]) (simp add: mk_def)
qed

lemma str_truncate_ellipsis_fits:
  "length t \<le> max_chars \<Longrightarrow> str_truncate_ellipsis_dup (Some t) max_chars = Some t"
  by (simp add: str_truncate_ellipsis_dup_def)

lemma omit_marker_length: "length (omit_marker n) \<le> 63"
  by (simp add: omit_marker_def)

section \<open>Properties\<close>

text \<open>
  C44: \<open>str_split\<close> splits a string into the pieces between the delimiters: joining them with
  the delimiter gives the string back, no piece contains the delimiter, and there is one piece
  more than there are delimiters (an empty string gives one empty piece).
\<close>

theorem str_split_spec:
  "join_with d (str_split (Some s) d) = s \<and>
   (\<forall>w \<in> set (str_split (Some s) d). d \<notin> set w) \<and>
   length (str_split (Some s) d) = Suc (length (filter (\<lambda>c. c = d) s))"
  by (simp add: str_split_split_on join_split_on split_on_length)
     (use split_on_no_delim in blast)

theorem str_split_spec_witness:
  "length (str_split (Some ''a,,b'') CHR '','') = 3 \<and>
   join_with CHR '','' (str_split (Some ''a,,b'') CHR '','') = ''a,,b''"
  using str_split_spec [of "CHR '',''" "''a,,b''"] by simp

end
