(* ===== verification/HtmlUnicode.thy ===== *)
theory HtmlUnicode
  imports CString
begin

text \<open>
  \<open>utils/html_unicode.c\<close>: UTF-8 validation, encoding of a code point, the Windows-1252
  table, cutting at a character boundary, and the case-insensitive prefix test. The lemmas say
  which byte strings \<open>utf8_valid\<close> accepts (the concatenations of encoded Unicode scalar
  values) and that every cut the program makes keeps a valid text valid.
\<close>

section \<open>Operations\<close>

text \<open>The bytes written to \<open>out\<close>; the empty list stands for the return value 0.\<close>

definition utf8_encode_cp :: "nat \<Rightarrow> string" where
  "utf8_encode_cp cp =
     (if cp \<le> 0x7F then [chr cp]
      else if cp \<le> 0x7FF then
        [chr (0xC0 OR drop_bit 6 cp), chr (0x80 OR (cp AND 0x3F))]
      else if 0xD800 \<le> cp \<and> cp \<le> 0xDFFF then []
      else if cp \<le> 0xFFFF then
        [chr (0xE0 OR drop_bit 12 cp), chr (0x80 OR (drop_bit 6 cp AND 0x3F)),
         chr (0x80 OR (cp AND 0x3F))]
      else if cp \<le> 0x10FFFF then
        [chr (0xF0 OR drop_bit 18 cp), chr (0x80 OR (drop_bit 12 cp AND 0x3F)),
         chr (0x80 OR (drop_bit 6 cp AND 0x3F)), chr (0x80 OR (cp AND 0x3F))]
      else [])"

definition cp1252_map :: "nat list" where
  "cp1252_map =
     [0x20AC, 0x0081, 0x201A, 0x0192, 0x201E, 0x2026, 0x2020, 0x2021,
      0x02C6, 0x2030, 0x0160, 0x2039, 0x0152, 0x008D, 0x017D, 0x008F,
      0x0090, 0x2018, 0x2019, 0x201C, 0x201D, 0x2022, 0x2013, 0x2014,
      0x02DC, 0x2122, 0x0161, 0x203A, 0x0153, 0x009D, 0x017E, 0x0178]"

definition cp1252_cp :: "nat \<Rightarrow> nat" where
  "cp1252_cp b = (if b < 0x80 then b else if b < 0xA0 then cp1252_map ! (b - 0x80) else b)"

text \<open>Lead bytes: how many continuation bytes follow, and the bounds of the first of them.\<close>

definition lead_class :: "nat \<Rightarrow> (nat \<times> nat \<times> nat) option" where
  "lead_class c =
     (if 0xC2 \<le> c \<and> c \<le> 0xDF then Some (1, 0x80, 0xBF)
      else if c = 0xE0 then Some (2, 0xA0, 0xBF)
      else if 0xE1 \<le> c \<and> c \<le> 0xEC then Some (2, 0x80, 0xBF)
      else if c = 0xED then Some (2, 0x80, 0x9F)
      else if 0xEE \<le> c \<and> c \<le> 0xEF then Some (2, 0x80, 0xBF)
      else if c = 0xF0 then Some (3, 0x90, 0xBF)
      else if 0xF1 \<le> c \<and> c \<le> 0xF3 then Some (3, 0x80, 0xBF)
      else if c = 0xF4 then Some (3, 0x80, 0x8F)
      else None)"

fun utf8_valid :: "string \<Rightarrow> bool" where
  "utf8_valid [] = True"
| "utf8_valid (c # cs) =
     (if byte c < 0x80 then utf8_valid cs
      else case lead_class (byte c) of
             None \<Rightarrow> False
           | Some (need, first_lo, first_hi) \<Rightarrow>
               if need \<ge> Suc (length cs) then False
               else if \<exists>cc \<in> set (take need cs). byte cc < 0x80 \<or> byte cc > 0xBF then False
               else if byte (hd cs) < first_lo \<or> byte (hd cs) > first_hi then False
               else utf8_valid (drop need cs))"

definition utf8_cut_boundary :: "string \<Rightarrow> nat \<Rightarrow> nat" where
  "utf8_cut_boundary dat n = back_off dat n"

definition prefix_ieq :: "string \<Rightarrow> string \<Rightarrow> bool" where
  "prefix_ieq s pat \<longleftrightarrow> (\<forall>i < length pat. to_lower (char_at s i) = to_lower (pat ! i))"

text \<open>Unicode scalar values: code points that are not surrogates.\<close>

definition scalar :: "nat \<Rightarrow> bool" where
  "scalar cp \<longleftrightarrow> cp \<le> 0x10FFFF \<and> \<not> (0xD800 \<le> cp \<and> cp \<le> 0xDFFF)"

section \<open>Encoding\<close>

lemma or_C0: "x < 32 \<Longrightarrow> (192::nat) OR x = 192 + x" by (rule or_add_dvd [of _ 5]) auto
lemma or_80: "x < 64 \<Longrightarrow> (128::nat) OR x = 128 + x" by (rule or_add_dvd [of _ 6]) auto
lemma or_E0: "x < 16 \<Longrightarrow> (224::nat) OR x = 224 + x" by (rule or_add_dvd [of _ 4]) auto
lemma or_F0: "x < 8 \<Longrightarrow> (240::nat) OR x = 240 + x" by (rule or_add_dvd [of _ 3]) auto

lemma utf8_encode_1: "cp < 128 \<Longrightarrow> utf8_encode_cp cp = [chr cp]"
  by (simp add: utf8_encode_cp_def)

lemma utf8_encode_2:
  "128 \<le> cp \<Longrightarrow> cp < 2048 \<Longrightarrow>
     utf8_encode_cp cp = [chr (192 + cp div 64), chr (128 + cp mod 64)]"
  by (simp add: utf8_encode_cp_def drop_bit_eq_div and_63 or_C0 or_80)

lemma utf8_encode_3:
  "2048 \<le> cp \<Longrightarrow> cp < 65536 \<Longrightarrow> \<not> (0xD800 \<le> cp \<and> cp \<le> 0xDFFF) \<Longrightarrow>
     utf8_encode_cp cp =
       [chr (224 + cp div 4096), chr (128 + cp div 64 mod 64), chr (128 + cp mod 64)]"
  by (auto simp add: utf8_encode_cp_def drop_bit_eq_div and_63 or_E0 or_80)

lemma utf8_encode_4:
  "65536 \<le> cp \<Longrightarrow> cp \<le> 0x10FFFF \<Longrightarrow>
     utf8_encode_cp cp =
       [chr (240 + cp div 262144), chr (128 + cp div 4096 mod 64),
        chr (128 + cp div 64 mod 64), chr (128 + cp mod 64)]"
  by (simp add: utf8_encode_cp_def drop_bit_eq_div and_63 or_F0 or_80)

lemma scalar_cases:
  assumes "scalar cp"
  obtains "cp < 128" | "128 \<le> cp" "cp < 2048"
    | "2048 \<le> cp" "cp < 65536" "\<not> (0xD800 \<le> cp \<and> cp \<le> 0xDFFF)"
    | "65536 \<le> cp" "cp \<le> 0x10FFFF"
  using assms by (force simp: scalar_def)

declare utf8_valid.simps(2) [simp del]

lemma utf8_valid_ascii: "byte c < 128 \<Longrightarrow> utf8_valid (c # cs) = utf8_valid cs"
  by (simp add: utf8_valid.simps)

lemma lead_class_2: "0xC2 \<le> c \<Longrightarrow> c < 0xE0 \<Longrightarrow> lead_class c = Some (1, 0x80, 0xBF)"
  by (simp add: lead_class_def)

lemma lead_class_3:
  "0xE0 \<le> c \<Longrightarrow> c < 0xF0 \<Longrightarrow>
     lead_class c = Some (2, if c = 0xE0 then 0xA0 else 0x80, if c = 0xED then 0x9F else 0xBF)"
  by (auto simp add: lead_class_def)

lemma lead_class_4:
  "0xF0 \<le> c \<Longrightarrow> c < 0xF5 \<Longrightarrow>
     lead_class c = Some (3, if c = 0xF0 then 0x90 else 0x80, if c = 0xF4 then 0x8F else 0xBF)"
  by (auto simp add: lead_class_def)

lemma lead_class_eq_Some:
  "lead_class c = Some q \<Longrightarrow>
     (0xC2 \<le> c \<and> c < 0xE0) \<or> (0xE0 \<le> c \<and> c < 0xF0) \<or> (0xF0 \<le> c \<and> c < 0xF5)"
  by (auto simp: lead_class_def split: if_splits)

lemma utf8_valid_multi:
  assumes "128 \<le> byte c" and "lead_class (byte c) = Some (need, lo, hi)"
  shows "utf8_valid (c # cs) \<longleftrightarrow>
     need \<le> length cs \<and> (\<forall>cc \<in> set (take need cs). is_cont cc) \<and>
     lo \<le> byte (hd cs) \<and> byte (hd cs) \<le> hi \<and> utf8_valid (drop need cs)"
proof -
  have "(\<exists>cc \<in> set (take need cs). byte cc < 0x80 \<or> byte cc > 0xBF) \<longleftrightarrow>
    \<not> (\<forall>cc \<in> set (take need cs). is_cont cc)" by (force simp: is_cont_range)
  with assms show ?thesis by (auto simp: utf8_valid.simps not_less Suc_le_eq)
qed

lemma utf8_valid_lead:
  "utf8_valid (c # cs) \<Longrightarrow> 128 \<le> byte c \<Longrightarrow> \<exists>need lo hi. lead_class (byte c) = Some (need, lo, hi)"
  by (cases "lead_class (byte c)") (auto simp: utf8_valid.simps)

lemma byte_char_of_add: "a + b < 256 \<Longrightarrow> byte (chr (a + b)) = a + b"
  by simp

lemma utf8_valid_2:
  assumes "2 \<le> a" "a < 32" "b < 64"
  shows "utf8_valid (chr (192 + a) # chr (128 + b) # s) = utf8_valid s"
proof -
  have "byte (chr (192 + a)) = 192 + a" "byte (chr (128 + b)) = 128 + b"
    using assms by simp_all
  with assms show ?thesis
    by (subst utf8_valid_multi [OF _ lead_class_2]) (simp_all add: is_cont_range)
qed

lemma utf8_valid_3:
  assumes "a < 16" "b < 64" "c < 64" "a = 0 \<Longrightarrow> 32 \<le> b" "a = 13 \<Longrightarrow> b < 32"
  shows "utf8_valid (chr (224 + a) # chr (128 + b) # chr (128 + c) # s) = utf8_valid s"
proof -
  have "byte (chr (224 + a)) = 224 + a" "byte (chr (128 + b)) = 128 + b"
    "byte (chr (128 + c)) = 128 + c"
    using assms by simp_all
  with assms show ?thesis
    by (subst utf8_valid_multi [OF _ lead_class_3]) (auto simp add: is_cont_range numeral_2_eq_2)
qed

lemma utf8_valid_4:
  assumes "a \<le> 4" "b < 64" "c < 64" "d < 64" "a = 0 \<Longrightarrow> 16 \<le> b" "a = 4 \<Longrightarrow> b < 16"
  shows "utf8_valid (chr (240 + a) # chr (128 + b) # chr (128 + c) # chr (128 + d) # s)
           = utf8_valid s"
proof -
  have "byte (chr (240 + a)) = 240 + a" "byte (chr (128 + b)) = 128 + b"
    "byte (chr (128 + c)) = 128 + c" "byte (chr (128 + d)) = 128 + d"
    using assms by simp_all
  with assms show ?thesis
    by (subst utf8_valid_multi [OF _ lead_class_4]) (auto simp add: is_cont_range numeral_3_eq_3)
qed

lemma utf8_valid_encode_append:
  assumes "scalar cp" shows "utf8_valid (utf8_encode_cp cp @ s) = utf8_valid s"
  using assms
proof (cases rule: scalar_cases)
  case 1
  then show ?thesis by (simp add: utf8_encode_1 utf8_valid_ascii)
next
  case 2
  then have "2 \<le> cp div 64" "cp div 64 < 32" by auto
  with 2 show ?thesis by (simp add: utf8_encode_2 utf8_valid_2)
next
  case 3
  define m where "m = cp div 64"
  have m: "32 \<le> m" "m < 1024" "\<not> (864 \<le> m \<and> m < 896)" using 3 by (auto simp: m_def)
  have div: "cp div 4096 = m div 64" by (simp add: m_def div_mult2_eq [symmetric])
  have "m div 64 < 16" using m by simp
  moreover have "m div 64 = 0 \<Longrightarrow> 32 \<le> m mod 64" using m by simp
  moreover have "m div 64 = 13 \<Longrightarrow> m mod 64 < 32" using m mult_div_mod_eq [of 64 m] by auto
  ultimately show ?thesis
    by (simp add: utf8_encode_3 [OF 3] div utf8_valid_3 flip: m_def)
next
  case 4
  define m where "m = cp div 4096"
  have m: "16 \<le> m" "m < 272" using 4 by (auto simp: m_def)
  have div: "cp div 262144 = m div 64" by (simp add: m_def div_mult2_eq [symmetric])
  have "m div 64 \<le> 4" using m by simp
  moreover have "m div 64 = 0 \<Longrightarrow> 16 \<le> m mod 64" using m by simp
  moreover have "m div 64 = 4 \<Longrightarrow> m mod 64 < 16" using m mult_div_mod_eq [of 64 m] by auto
  ultimately show ?thesis
    by (simp add: utf8_encode_4 [OF 4] div utf8_valid_4 flip: m_def)
qed

lemma utf8_encode_nonempty: "scalar cp \<Longrightarrow> utf8_encode_cp cp \<noteq> []"
  by (auto simp: scalar_def utf8_encode_cp_def)

lemma utf8_valid_encode_all: "list_all scalar cps \<Longrightarrow> utf8_valid (concat (map utf8_encode_cp cps))"
  by (induction cps) (auto simp: utf8_valid_encode_append)

section \<open>Decoding\<close>

text \<open>A valid non-empty text starts with one encoded scalar value, followed by a valid text.\<close>

lemma cont_obtain:
  assumes "is_cont c" obtains b where "b < 64" "c = chr (128 + b)"
proof -
  from assms have "128 \<le> byte c" "byte c < 192" by (simp_all add: is_cont_range)
  then have "byte c - 128 < 64" "c = chr (128 + (byte c - 128))" by simp_all
  then show ?thesis by (rule that [of "byte c - 128"])
qed

lemma decode_2:
  assumes "2 \<le> a" "a < 32" "b < 64"
  shows "scalar (64 * a + b) \<and> utf8_encode_cp (64 * a + b) = [chr (192 + a), chr (128 + b)]"
  using assms by (simp add: scalar_def utf8_encode_2)

lemma decode_3:
  assumes "a < 16" "b < 64" "c < 64" "a = 0 \<Longrightarrow> 32 \<le> b" "a = 13 \<Longrightarrow> b < 32"
  shows "scalar (4096 * a + 64 * b + c) \<and>
    utf8_encode_cp (4096 * a + 64 * b + c) = [chr (224 + a), chr (128 + b), chr (128 + c)]"
proof -
  let ?n = "4096 * a + 64 * b + c"
  have n: "?n = 64 * (64 * a + b) + c" by simp
  have d64: "?n div 64 = 64 * a + b" and d: "?n mod 64 = c"
    unfolding n using assms(3) by (simp_all only: div_mult_self4 mod_mult_self4) simp_all
  then have d: "?n div 4096 = a" "?n div 64 mod 64 = b" "?n mod 64 = c"
    using assms(2) div_mult2_eq [of ?n 64 64] by simp_all
  have lo: "2048 \<le> ?n" using assms(4) by (cases "a = 0") auto
  have hi: "?n < 65536" using assms(1-3) by simp
  have ns: "\<not> (0xD800 \<le> ?n \<and> ?n \<le> 0xDFFF)"
    using assms(1-3,5) by (cases a "13::nat" rule: linorder_cases) auto
  show ?thesis using utf8_encode_3 [OF lo hi ns] d ns hi by (simp add: scalar_def)
qed

lemma decode_4:
  assumes "a \<le> 4" "b < 64" "c < 64" "d < 64" "a = 0 \<Longrightarrow> 16 \<le> b" "a = 4 \<Longrightarrow> b < 16"
  shows "scalar (262144 * a + 4096 * b + 64 * c + d) \<and>
    utf8_encode_cp (262144 * a + 4096 * b + 64 * c + d) =
      [chr (240 + a), chr (128 + b), chr (128 + c), chr (128 + d)]"
proof -
  let ?n = "262144 * a + 4096 * b + 64 * c + d"
  have n: "?n = 64 * (64 * (64 * a + b) + c) + d" by simp
  have q: "?n div 64 = 64 * (64 * a + b) + c" and v0: "?n mod 64 = d"
    unfolding n using assms(4) by (simp_all only: div_mult_self4 mod_mult_self4) simp_all
  have v1: "?n div 64 mod 64 = c" and v2: "?n div 64 div 64 = 64 * a + b"
    unfolding q using assms(3) by (simp_all only: div_mult_self4 mod_mult_self4) simp_all
  then have v: "?n div 262144 = a" "?n div 4096 mod 64 = b" "?n div 64 mod 64 = c" "?n mod 64 = d"
    using assms(2) v0 div_mult2_eq [of ?n 64 64] div_mult2_eq [of ?n 4096 64] by simp_all
  have lo: "65536 \<le> ?n" using assms(5) by (cases "a = 0") auto
  have hi: "?n \<le> 0x10FFFF" using assms(1-4,6) by (cases "a = 4") auto
  show ?thesis using utf8_encode_4 [OF lo hi] v lo hi by (simp add: scalar_def)
qed

lemma utf8_valid_decode_1:
  assumes "utf8_valid (c # cs)"
  shows "\<exists>cp r. scalar cp \<and> c # cs = utf8_encode_cp cp @ r \<and> utf8_valid r \<and>
     r = drop (length (utf8_encode_cp cp) - 1) cs"
proof (cases "byte c < 128")
  case True
  then have "scalar (byte c)" "utf8_encode_cp (byte c) = [c]"
    by (simp_all add: scalar_def utf8_encode_1)
  moreover from True assms have "utf8_valid cs" by (simp add: utf8_valid_ascii)
  ultimately show ?thesis by force
next
  case False
  with assms obtain need lo hi where lc: "lead_class (byte c) = Some (need, lo, hi)"
    by (metis not_less utf8_valid_lead)
  from False have "128 \<le> byte c" by simp
  from utf8_valid_multi [OF this lc] assms
  have v: "need \<le> length cs" "\<forall>cc \<in> set (take need cs). is_cont cc"
    "lo \<le> byte (hd cs)" "byte (hd cs) \<le> hi" "utf8_valid (drop need cs)" by auto
  from lead_class_eq_Some [OF lc] consider "0xC2 \<le> byte c" "byte c < 0xE0"
    | "0xE0 \<le> byte c" "byte c < 0xF0" | "0xF0 \<le> byte c" "byte c < 0xF5" by blast
  then show ?thesis
  proof cases
    case 1
    then have n: "need = 1" using lc lead_class_2 by simp
    with v obtain c1 r where cs: "cs = c1 # r" "is_cont c1" by (cases cs) auto
    obtain b where b: "b < 64" "c1 = chr (128 + b)" using cs(2) by (rule cont_obtain)
    have a: "c = chr (192 + (byte c - 192))" using 1 by simp
    with decode_2 [of "byte c - 192" b] 1 b cs v n show ?thesis
      by (intro exI [of _ "64 * (byte c - 192) + b"] exI [of _ r]) auto
  next
    case 2
    then have n: "need = 2" and lo: "byte c = 0xE0 \<Longrightarrow> lo = 0xA0" and hi: "byte c = 0xED \<Longrightarrow> hi = 0x9F"
      using lc lead_class_3 by auto
    with v obtain c1 c2 r where cs: "cs = c1 # c2 # r" "is_cont c1" "is_cont c2"
      by (cases cs; cases "tl cs") (auto simp: numeral_2_eq_2)
    obtain b where b: "b < 64" "c1 = chr (128 + b)" using cs(2) by (rule cont_obtain)
    obtain d where d: "d < 64" "c2 = chr (128 + d)" using cs(3) by (rule cont_obtain)
    have a: "c = chr (224 + (byte c - 224))" using 2 by simp
    from v(3,4) cs(1) b have "lo \<le> 128 + b" "128 + b \<le> hi" by simp_all
    then have "scalar (4096 * (byte c - 224) + 64 * b + d) \<and>
      utf8_encode_cp (4096 * (byte c - 224) + 64 * b + d) =
        [chr (224 + (byte c - 224)), chr (128 + b), chr (128 + d)]"
      using 2 b d lo hi by (intro decode_3) auto
    with a cs b d v n show ?thesis
      by (intro exI [of _ "4096 * (byte c - 224) + 64 * b + d"] exI [of _ r]) auto
  next
    case 3
    then have n: "need = 3" and lo: "byte c = 0xF0 \<Longrightarrow> lo = 0x90" and hi: "byte c = 0xF4 \<Longrightarrow> hi = 0x8F"
      using lc lead_class_4 by auto
    with v obtain c1 c2 c3 r where cs: "cs = c1 # c2 # c3 # r" "is_cont c1" "is_cont c2" "is_cont c3"
      by (cases cs; cases "tl cs"; cases "tl (tl cs)") (auto simp: numeral_3_eq_3)
    obtain b where b: "b < 64" "c1 = chr (128 + b)" using cs(2) by (rule cont_obtain)
    obtain d where d: "d < 64" "c2 = chr (128 + d)" using cs(3) by (rule cont_obtain)
    obtain e where e: "e < 64" "c3 = chr (128 + e)" using cs(4) by (rule cont_obtain)
    have a: "c = chr (240 + (byte c - 240))" using 3 by simp
    from v(3,4) cs(1) b have "lo \<le> 128 + b" "128 + b \<le> hi" by simp_all
    then have "scalar (262144 * (byte c - 240) + 4096 * b + 64 * d + e) \<and>
      utf8_encode_cp (262144 * (byte c - 240) + 4096 * b + 64 * d + e) =
        [chr (240 + (byte c - 240)), chr (128 + b), chr (128 + d), chr (128 + e)]"
      using 3 b d e lo hi by (intro decode_4) auto
    with a cs b d e v n show ?thesis
      by (intro exI [of _ "262144 * (byte c - 240) + 4096 * b + 64 * d + e"] exI [of _ r]) auto
  qed
qed

section \<open>Concatenation and cutting\<close>

lemma utf8_valid_iff_decode:
  "utf8_valid s \<longleftrightarrow> (\<exists>cps. list_all scalar cps \<and> s = concat (map utf8_encode_cp cps))"
proof
  show "utf8_valid s \<Longrightarrow> \<exists>cps. list_all scalar cps \<and> s = concat (map utf8_encode_cp cps)"
  proof (induction s rule: length_induct)
    case (1 s)
    show ?case
    proof (cases s)
      case Nil
      then show ?thesis by (intro exI [of _ "[]"]) simp
    next
      case (Cons c cs)
      with "1.prems" utf8_valid_decode_1 obtain cp r
        where r: "scalar cp" "s = utf8_encode_cp cp @ r" "utf8_valid r" by blast
      moreover from this have "length r < length s"
        using utf8_encode_nonempty by (cases "utf8_encode_cp cp") auto
      ultimately obtain cps where "list_all scalar cps" "r = concat (map utf8_encode_cp cps)"
        using "1.IH" by blast
      with r show ?thesis by (intro exI [of _ "cp # cps"]) simp
    qed
  qed
qed (auto simp: utf8_valid_encode_all)

lemma utf8_valid_append: "utf8_valid s \<Longrightarrow> utf8_valid t \<Longrightarrow> utf8_valid (s @ t)"
  unfolding utf8_valid_iff_decode
  by (metis concat_append list_all_append map_append)

lemma utf8_valid_all_ascii: "\<forall>c \<in> set s. byte c < 128 \<Longrightarrow> utf8_valid s"
  by (induction s) (auto simp: utf8_valid_ascii)

text \<open>A prefix that ends before a byte that is not a continuation byte is valid.\<close>

lemma utf8_valid_take:
  assumes "utf8_valid s" and "k = 0 \<or> \<not> is_cont (char_at s k)"
  shows "utf8_valid (take k s)"
  using assms
proof (induction s arbitrary: k rule: length_induct)
  case (1 s)
  show ?case
  proof (cases s)
    case Nil
    then show ?thesis by simp
  next
    case s: (Cons c cs)
    show ?thesis
    proof (cases k)
      case 0
      then show ?thesis by simp
    next
      case k: (Suc k')
      show ?thesis
      proof (cases "byte c < 128")
        case True
        with "1.prems" s have "utf8_valid cs" by (simp add: utf8_valid_ascii)
        moreover have "k' = 0 \<or> \<not> is_cont (char_at cs k')"
          using "1.prems"(2) s k by (auto simp: char_at_def)
        ultimately have "utf8_valid (take k' cs)" using "1.IH" s by auto
        with True s k show ?thesis by (simp add: utf8_valid_ascii)
      next
        case False
        with "1.prems"(1) s obtain need lo hi where lc: "lead_class (byte c) = Some (need, lo, hi)"
          by (metis not_less utf8_valid_lead)
        from False have ge: "128 \<le> byte c" by simp
        have v: "need \<le> length cs" "\<forall>cc \<in> set (take need cs). is_cont cc"
          "lo \<le> byte (hd cs)" "byte (hd cs) \<le> hi" "utf8_valid (drop need cs)"
          using utf8_valid_multi [OF ge lc] "1.prems"(1) s by auto
        have kn: "need \<le> k'"
        proof (rule ccontr)
          assume "\<not> need \<le> k'"
          then have "k' < length (take need cs)" "take need cs ! k' = cs ! k'" using v(1) by auto
          then have "is_cont (cs ! k')" using v(2) by (metis nth_mem)
          moreover have "k' < length cs" using \<open>\<not> need \<le> k'\<close> v(1) by simp
          ultimately show False using "1.prems"(2) s k by (simp add: char_at_def)
        qed
        have "k' - need = 0 \<or> \<not> is_cont (char_at (drop need cs) (k' - need))"
          using "1.prems"(2) s k kn by (simp add: char_at_drop)
        then have "utf8_valid (take (k' - need) (drop need cs))"
          using v(5) by (intro "1.IH" [rule_format]) (simp_all add: s)
        moreover have "take need cs @ take (k' - need) (drop need cs) = take k' cs"
          using kn by (metis le_add_diff_inverse take_add)
        moreover have "need \<noteq> 0" using lead_class_eq_Some [OF lc] lc
          by (auto simp: lead_class_2 lead_class_3 lead_class_4)
        ultimately have "utf8_valid (c # take k' cs)"
          using utf8_valid_multi [OF ge lc, of "take k' cs"] v kn
          by (cases cs) (auto simp: min_absorb2 drop_take)
        with s k show ?thesis by simp
      qed
    qed
  qed
qed

lemma utf8_valid_cut: "utf8_valid s \<Longrightarrow> utf8_valid (take (utf8_cut_boundary s k) s)"
  by (rule utf8_valid_take) (auto simp: utf8_cut_boundary_def back_off_stop)

lemma omit_marker_ascii: "c \<in> set (omit_marker n) \<Longrightarrow> byte c < 128"
proof -
  assume "c \<in> set (omit_marker n)"
  then consider "c \<in> set ''[... truncated, ''" | "c \<in> set (dec_nat n)"
    | "c \<in> set '' chars omitted ...]''"
    unfolding omit_marker_def by (metis Un_iff in_set_takeD set_append)
  then show ?thesis
  proof cases
    case 2
    then have "is_digit c" by (rule dec_nat_digits)
    then show ?thesis by (simp add: is_digit_def)
  qed auto
qed

lemma cp1252_scalar: "b < 256 \<Longrightarrow> scalar (cp1252_cp b)"
proof -
  assume b: "b < 256"
  have all: "\<forall>n \<in> set cp1252_map. scalar n" by (simp add: cp1252_map_def scalar_def)
  have len: "length cp1252_map = 32" by (simp add: cp1252_map_def)
  have "scalar (cp1252_map ! (b - 0x80))" if "\<not> b < 0x80" "b < 0xA0"
    by (rule bspec [OF all], rule nth_mem) (use that len in simp)
  with b show ?thesis by (auto simp: cp1252_cp_def scalar_def)
qed

section \<open>Properties\<close>

text \<open>
  C36: \<open>utf8_valid\<close> accepts exactly the UTF-8 encodings of sequences of Unicode scalar values:
  a byte string is accepted iff it is the concatenation of what \<open>utf8_encode_cp\<close> writes for
  some code points up to 0x10FFFF that are not surrogates (so overlong forms, surrogates,
  truncated sequences and values beyond 0x10FFFF are all refused, and nothing else is).
\<close>

theorem utf8_valid_exact:
  "utf8_valid s \<longleftrightarrow> (\<exists>cps. list_all scalar cps \<and> s = concat (map utf8_encode_cp cps))"
  by (rule utf8_valid_iff_decode)

text \<open>
  Truncating a valid UTF-8 text with \<open>str_truncate_ellipsis_dup\<close> gives valid UTF-8 of at
  most \<open>max_chars\<close> bytes, and leaves a text that fits unchanged: the cut never splits a
  character, with or without the marker.
\<close>

theorem str_truncate_keeps_utf8:
  assumes "utf8_valid t"
  shows "\<exists>r. str_truncate_ellipsis_dup (Some t) max_chars = Some r \<and> utf8_valid r \<and>
           length r \<le> max_chars \<and> (r = t \<or> length t > max_chars)"
proof (cases "length t \<le> max_chars")
  case True
  with assms show ?thesis by (simp add: str_truncate_ellipsis_fits)
next
  case False
  then obtain keep mk where
    r: "str_truncate_ellipsis_dup (Some t) max_chars = Some (take keep t @ mk)"
    and mk: "mk = [] \<or> mk = omit_marker (length t - max_chars)"
    and len: "keep + length mk \<le> max_chars" and keep: "keep = 0 \<or> \<not> is_cont (char_at t keep)"
    by (metis not_le str_truncate_ellipsis_cut)
  have "utf8_valid mk" using mk omit_marker_ascii by (auto intro: utf8_valid_all_ascii)
  with utf8_valid_take [OF assms keep] have "utf8_valid (take keep t @ mk)"
    by (rule utf8_valid_append)
  with r len False show ?thesis by auto
qed

theorem str_truncate_keeps_utf8_witness:
  "utf8_valid (utf8_encode_cp 233 @ ''t'' @ utf8_encode_cp 233) \<and>
   (\<exists>r. str_truncate_ellipsis_dup (Some (utf8_encode_cp 233 @ ''t'' @ utf8_encode_cp 233)) 4 = Some r \<and>
      utf8_valid r \<and> length r \<le> 4)"
proof -
  have v: "utf8_valid (utf8_encode_cp 233 @ ''t'' @ utf8_encode_cp 233)" by code_simp
  show ?thesis using v str_truncate_keeps_utf8 [OF v, of 4] by blast
qed

end
