(* ===== verification/ContextWindow.thy ===== *)
theory ContextWindow
  imports CString "HOL-Library.Multiset" Complex_Main
begin

text \<open>
  \<open>agent/message.h\<close> (the message record) and \<open>agent/context.c\<close>: which messages of a
  conversation are sent to the model. An array of messages is a list, its length the number of
  entries really allocated; the count the code passes beside it is a separate integer, so a read
  past the end is the outcome \<open>Inl OutOfBounds\<close>. Scores are doubles holding small integers
  in the code and \<open>int\<close> here; a timestamp is a finite double, a rational number.
  \<open>qsort\<close> is a parameter: any function that permutes its input into ascending order of the
  comparison, since the C library leaves the order of equal elements open.
  Allocations are assumed to succeed.
\<close>

section \<open>Messages\<close>

record tool_call =
  tc_id :: cptr
  tc_name :: cptr
  tc_arguments :: cptr
  tc_result_content :: cptr
  tc_result_error :: cptr

record message =
  m_role :: cptr
  m_content :: cptr
  m_id :: cptr
  m_parent_id :: cptr
  m_fork_group_id :: cptr
  m_tool_calls :: "tool_call list"
  m_tool_call_id :: cptr
  m_tool_name :: cptr
  m_error_category :: cptr
  m_timestamp :: rat
  m_thinking :: cptr
  m_phase :: cptr
  m_provider_state :: cptr

text \<open>What a provider answers.\<close>

record llm_response =
  r_content :: cptr
  r_thinking :: cptr
  r_phase :: cptr
  r_provider_state :: cptr
  r_tool_calls :: "tool_call list"

datatype mem_error = OutOfBounds

section \<open>Splitting off the thinking blocks\<close>

text \<open>
  The scan of \<open>split_thinking_content_dup\<close>: \<open>start\<close> is the offset already scanned,
  \<open>think_end\<close> the end of the last closed block.
\<close>

function think_scan :: "string \<Rightarrow> nat \<Rightarrow> nat option \<Rightarrow> nat option" where
  "think_scan raw start think_end =
     (case strstr_at (drop start raw) ''<think>'' of
        None \<Rightarrow> think_end
      | Some op \<Rightarrow>
          (case strstr_at (drop (start + op) raw) ''</think>'' of
             None \<Rightarrow> think_end
           | Some cl \<Rightarrow>
               think_scan raw (start + op + cl + 8) (Some (start + op + cl + 8))))"
  by pat_completeness auto
termination
  by (relation "measure (\<lambda>(raw, start, te). length raw - start)")
     (auto dest!: strstr_at_Some)

declare think_scan.simps [simp del]

definition split_thinking_content_dup :: "cptr \<Rightarrow> cptr" where
  "split_thinking_content_dup raw =
     (case raw of None \<Rightarrow> None
      | Some r \<Rightarrow> (case think_scan r 0 None of None \<Rightarrow> Some r | Some e \<Rightarrow> Some (take e r)))"

section \<open>Priority selection\<close>

record msg_score =
  orig_index :: nat
  priority_group :: int
  score :: int

definition score_cmp :: "msg_score \<Rightarrow> msg_score \<Rightarrow> int" where
  "score_cmp a b =
     (if priority_group a \<noteq> priority_group b then priority_group a - priority_group b
      else if score b > score a then 1 else if score b < score a then -1 else 0)"

definition is_tool_role :: "cptr \<Rightarrow> bool" where
  "is_tool_role role \<longleftrightarrow> role = Some ''tool''"

definition is_assistant_role :: "cptr \<Rightarrow> bool" where
  "is_assistant_role role \<longleftrightarrow> role = Some ''assistant''"

text \<open>\<open>strcmp(role, "system") == 0\<close>; the code relies on the role not being NULL here.\<close>

definition is_system_role :: "cptr \<Rightarrow> bool" where
  "is_system_role role \<longleftrightarrow> role = Some ''system''"

text \<open>
  \<open>(int)(keep_count * 0.4)\<close>, at least 1: for an \<open>int\<close> the rounding error of the product
  stays far below the distance of \<open>2 * keep_count / 5\<close> to the next integer.
\<close>

definition recent_budget :: "int \<Rightarrow> int" where
  "recent_budget keep_count = (let r = 2 * keep_count div 5 in if r < 1 then 1 else r)"

definition score_of :: "message list \<Rightarrow> int \<Rightarrow> nat \<Rightarrow> msg_score" where
  "score_of msgs keep_count i =
     (let role = m_role (msgs ! i);
          recent_start = int (length msgs) - recent_budget keep_count
      in if is_system_role role then \<lparr>orig_index = i, priority_group = 1, score = 0\<rparr>
         else if is_tool_role role then \<lparr>orig_index = i, priority_group = 2, score = int i\<rparr>
         else if int i \<ge> recent_start
         then \<lparr>orig_index = i, priority_group = 3, score = int i - recent_start\<rparr>
         else \<lparr>orig_index = i, priority_group = 4, score = int i\<rparr>)"

text \<open>Pass 1: mark the best scores, each tool message together with the assistant before it.\<close>

fun select_pass1 ::
  "message list \<Rightarrow> int \<Rightarrow> msg_score list \<Rightarrow> bool list \<Rightarrow> int \<Rightarrow> bool list" where
  "select_pass1 msgs keep_count [] flags selected_count = flags"
| "select_pass1 msgs keep_count (s # ss) flags selected_count =
     (if selected_count < keep_count then
        let idx = orig_index s;
            fl = flags[idx := True]
        in if is_tool_role (m_role (msgs ! idx)) \<and> idx > 0 \<and> \<not> fl ! (idx - 1) \<and>
              is_assistant_role (m_role (msgs ! (idx - 1)))
           then select_pass1 msgs keep_count ss (fl[idx - 1 := True]) (selected_count + 2)
           else select_pass1 msgs keep_count ss fl (selected_count + 1)
      else flags)"

text \<open>Pass 2, the body for one index: complete the assistant/tool pairs on both sides.\<close>

definition pair_up :: "message list \<Rightarrow> bool list \<Rightarrow> nat \<Rightarrow> bool list" where
  "pair_up msgs flags i =
     (let f1 = (if is_tool_role (m_role (msgs ! i)) \<and> flags ! i \<and> \<not> flags ! (i - 1) \<and>
                   is_assistant_role (m_role (msgs ! (i - 1)))
                then flags[i - 1 := True] else flags)
      in if i + 1 < length msgs \<and> is_tool_role (m_role (msgs ! (i + 1))) \<and> f1 ! i \<and>
            \<not> f1 ! (i + 1) \<and> is_assistant_role (m_role (msgs ! i))
         then f1[i + 1 := True] else f1)"

definition select_pass2 :: "message list \<Rightarrow> bool list \<Rightarrow> bool list" where
  "select_pass2 msgs flags = fold (\<lambda>i fl. pair_up msgs fl i) [1..<length msgs] flags"

text \<open>The copying loop: the first \<open>n\<close> flagged entries in index order.\<close>

fun pick :: "nat \<Rightarrow> bool list \<Rightarrow> 'a list \<Rightarrow> 'a list" where
  "pick n (b # bs) (x # xs) =
     (if n = 0 then [] else if b then x # pick (n - 1) bs xs else pick n bs xs)"
| "pick n _ _ = []"

definition count_true :: "bool list \<Rightarrow> nat" where
  "count_true bs = length (filter id bs)"

definition smart_select_flags ::
  "(msg_score list \<Rightarrow> msg_score list) \<Rightarrow> message list \<Rightarrow> int \<Rightarrow> bool list" where
  "smart_select_flags qs msgs keep_count =
     (let scores = qs (map (score_of msgs keep_count) [0..<length msgs])
      in select_pass2 msgs
           (select_pass1 msgs keep_count scores (replicate (length msgs) False) 0))"

definition smart_select_alloc ::
  "(msg_score list \<Rightarrow> msg_score list) \<Rightarrow> message list \<Rightarrow> int \<Rightarrow> message list option" where
  "smart_select_alloc qs msgs keep_count =
     (if int (length msgs) \<le> keep_count then Some msgs
      else let flags = smart_select_flags qs msgs keep_count;
               result_count = min (int (count_true flags)) keep_count
           in if result_count \<le> 0 then None else Some (pick (nat result_count) flags msgs))"

section \<open>Trimming to a token budget\<close>

definition estimate_tokens :: "cptr \<Rightarrow> int" where
  "estimate_tokens text = (case text of None \<Rightarrow> 0 | Some t \<Rightarrow> int (length t div 4) + 1)"

text \<open>
  The backward loop that keeps the most recent messages; \<open>k\<close> entries are still to be visited
  (the next index is \<open>k - 1\<close>), and the first message that does not fit ends it.
\<close>

fun keep_recent :: "message list \<Rightarrow> nat \<Rightarrow> bool list \<Rightarrow> int \<Rightarrow> bool list" where
  "keep_recent msgs 0 keep budget = keep"
| "keep_recent msgs (Suc i) keep budget =
     (if keep ! i then keep_recent msgs i keep budget
      else let t = estimate_tokens (m_content (msgs ! i))
           in if budget - t \<ge> 0 then keep_recent msgs i (keep[i := True]) (budget - t) else keep)"

definition trim_flags :: "message list \<Rightarrow> int \<Rightarrow> bool list" where
  "trim_flags msgs max_tokens =
     (let keep = map (\<lambda>m. is_system_role (m_role m)) msgs
      in fold (\<lambda>i fl. pair_up msgs fl i) [1..<length msgs]
           (keep_recent msgs (length msgs) keep max_tokens))"

text \<open>The array really has \<open>length msgs\<close> entries; the loops read those below \<open>count\<close>.\<close>

definition trim_messages_by_tokens_new ::
  "message list \<Rightarrow> int \<Rightarrow> int \<Rightarrow> mem_error + message list \<times> int" where
  "trim_messages_by_tokens_new arr cnt max_tokens =
     (if cnt = 0 then Inr (arr, cnt)
      else if cnt > int (length arr) then Inl OutOfBounds
      else let msgs = take (nat cnt) arr;
               tot = sum_list (map (\<lambda>m. estimate_tokens (m_content m)) msgs)
           in if tot \<le> max_tokens then Inr (arr, cnt)
              else let keep = trim_flags msgs max_tokens;
                       new_count = count_true keep
                   in Inr (pick new_count keep msgs, int new_count))"

section \<open>The window\<close>

text \<open>The overflow-checked sum of the content lengths; \<open>None\<close> is the flag \<open>over\<close>.\<close>

fun window_chars :: "int \<Rightarrow> message list \<Rightarrow> int \<Rightarrow> int option" where
  "window_chars max_chars [] tot = Some tot"
| "window_chars max_chars (m # ms) tot =
     (case m_content m of
        None \<Rightarrow> window_chars max_chars ms tot
      | Some c \<Rightarrow>
          let clen = int (length c)
          in if tot > (max_chars mod 2 ^ 64 - clen) mod 2 ^ 64 then None
             else window_chars max_chars ms ((tot + clen) mod 2 ^ 64))"

definition window_fits :: "message list \<Rightarrow> int \<Rightarrow> int \<Rightarrow> bool" where
  "window_fits msgs max_messages max_chars \<longleftrightarrow>
     int (length msgs) \<le> max_messages \<and>
     (case window_chars max_chars msgs 0 of None \<Rightarrow> False
      | Some tot \<Rightarrow> tot \<le> max_chars mod 2 ^ 64)"

definition apply_context_window ::
  "(msg_score list \<Rightarrow> msg_score list) \<Rightarrow> message list \<Rightarrow> int \<Rightarrow> int
     \<Rightarrow> mem_error + message list \<times> int" where
  "apply_context_window qs msgs max_messages max_chars =
     (let cnt = int (length msgs)
      in if window_fits msgs max_messages max_chars then Inr (msgs, cnt)
         else case smart_select_alloc qs msgs max_messages of
                None \<Rightarrow> Inr (msgs, cnt)
              | Some selected \<Rightarrow>
                  let approx_tokens = (let t = (if max_chars \<ge> 0 then max_chars div 4
                                                else - ((- max_chars) div 4))
                                       in if t < 1 then 1 else t);
                      new_count = (if cnt < max_messages then cnt else max_messages)
                  in trim_messages_by_tokens_new selected new_count approx_tokens)"

section \<open>The sorting interface\<close>

text \<open>What the C standard promises of \<open>qsort\<close>, and an instance on the code's comparison.\<close>

locale qsort_spec =
  fixes cmp :: "'a \<Rightarrow> 'a \<Rightarrow> int" and qs :: "'a list \<Rightarrow> 'a list"
  assumes qs_mset: "mset (qs xs) = mset xs"
    and qs_sorted: "sorted_wrt (\<lambda>a b. cmp a b \<le> 0) (qs xs)"
begin

lemma qs_set: "set (qs xs) = set xs"
  by (metis qs_mset set_mset_mset)

lemma qs_length: "length (qs xs) = length xs"
  by (metis qs_mset size_mset)

end

fun insert_cmp :: "('a \<Rightarrow> 'a \<Rightarrow> int) \<Rightarrow> 'a \<Rightarrow> 'a list \<Rightarrow> 'a list" where
  "insert_cmp cmp x [] = [x]"
| "insert_cmp cmp x (y # ys) = (if cmp x y \<le> 0 then x # y # ys else y # insert_cmp cmp x ys)"

definition sort_cmp :: "('a \<Rightarrow> 'a \<Rightarrow> int) \<Rightarrow> 'a list \<Rightarrow> 'a list" where
  "sort_cmp cmp xs = foldr (insert_cmp cmp) xs []"

lemma insert_cmp_mset: "mset (insert_cmp cmp x ys) = add_mset x (mset ys)"
  by (induction ys) auto

lemma insert_cmp_set: "set (insert_cmp cmp x ys) = insert x (set ys)"
  by (metis insert_cmp_mset set_mset_add_mset_insert set_mset_mset)

lemma score_cmp_total: "0 < score_cmp a b \<Longrightarrow> score_cmp b a \<le> 0"
  by (auto simp: score_cmp_def split: if_splits)

lemma score_cmp_trans: "score_cmp a b \<le> 0 \<Longrightarrow> score_cmp b c \<le> 0 \<Longrightarrow> score_cmp a c \<le> 0"
  by (auto simp: score_cmp_def split: if_splits)

lemma insert_cmp_sorted:
  "sorted_wrt (\<lambda>a b. score_cmp a b \<le> 0) ys \<Longrightarrow>
     sorted_wrt (\<lambda>a b. score_cmp a b \<le> 0) (insert_cmp score_cmp x ys)"
proof (induction ys)
  case Nil
  then show ?case by simp
next
  case (Cons y ys)
  then show ?case
    by (auto simp: insert_cmp_set intro: score_cmp_trans score_cmp_total)
qed

interpretation score_sort: qsort_spec score_cmp "sort_cmp score_cmp"
proof
  show "mset (sort_cmp score_cmp xs) = mset xs" for xs
    by (induction xs) (simp_all add: sort_cmp_def insert_cmp_mset)
  show "sorted_wrt (\<lambda>a b. score_cmp a b \<le> 0) (sort_cmp score_cmp xs)" for xs
    by (induction xs) (simp_all add: sort_cmp_def insert_cmp_sorted)
qed

section \<open>Flags and the copying loop\<close>

lemma count_true_simps [simp]:
  "count_true [] = 0" "count_true (b # bs) = (if b then Suc (count_true bs) else count_true bs)"
  by (simp_all add: count_true_def)

lemma count_true_append [simp]: "count_true (xs @ ys) = count_true xs + count_true ys"
  by (simp add: count_true_def)

lemma count_true_replicate [simp]: "count_true (replicate n False) = 0"
  by (induction n) auto

lemma count_true_le: "count_true bs \<le> length bs"
  by (simp add: count_true_def)

lemma count_true_set:
  "i < length bs \<Longrightarrow> \<not> bs ! i \<Longrightarrow> count_true (bs[i := True]) = Suc (count_true bs)"
  by (induction bs arbitrary: i) (auto simp: nth_Cons' split: nat.splits)

lemma count_true_take_le: "count_true (take i bs) \<le> count_true bs"
  by (metis append_take_drop_id count_true_append le_add1)

lemma count_true_take_less: "i < length bs \<Longrightarrow> bs ! i \<Longrightarrow> count_true (take i bs) < count_true bs"
proof (induction bs arbitrary: i)
  case (Cons b bs)
  then show ?case by (cases i) auto
qed simp

definition kept :: "nat \<Rightarrow> bool list \<Rightarrow> nat set" where
  "kept n bs = {i. i < length bs \<and> bs ! i \<and> count_true (take i bs) < n}"

lemma kept_Cons:
  "kept n (b # bs) = (if b \<and> 0 < n then {0} else {}) \<union> Suc ` kept (if b then n - 1 else n) bs"
proof -
  have "i \<in> kept n (b # bs) \<longleftrightarrow>
      i \<in> (if b \<and> 0 < n then {0} else {}) \<union> Suc ` kept (if b then n - 1 else n) bs" for i
    by (cases i) (auto simp: kept_def image_iff)
  then show ?thesis by blast
qed

lemma pick_nths: "length bs = length xs \<Longrightarrow> pick n bs xs = nths xs (kept n bs)"
proof (induction n bs xs rule: pick.induct)
  case (1 n b bs x xs)
  have shift: "{j. Suc j \<in> kept n (b # bs)} = kept (if b then n - 1 else n) bs"
    by (auto simp: kept_Cons)
  have zero: "0 \<in> kept n (b # bs) \<longleftrightarrow> b \<and> 0 < n" by (auto simp: kept_def)
  have none: "kept 0 cs = {}" for cs by (simp add: kept_def)
  show ?case using 1 by (cases "n = 0") (auto simp: nths_Cons shift zero none)
qed (auto simp: kept_def)

lemma length_pick: "length bs = length xs \<Longrightarrow> length (pick n bs xs) = min n (count_true bs)"
  by (induction n bs xs rule: pick.induct) auto

lemma pick_0 [simp]: "pick 0 bs xs = []"
  by (cases bs; cases xs) auto

lemma nths_subseq: "subseq (nths xs A) xs"
  by (auto simp: subseq_conv_nths)

lemma pick_subseq: "length bs = length xs \<Longrightarrow> subseq (pick n bs xs) xs"
  by (simp add: pick_nths nths_subseq)

lemma kept_all: "kept (count_true bs) bs = {i. i < length bs \<and> bs ! i}"
  by (auto simp: kept_def intro: count_true_take_less)

lemma pick_filter:
  "length bs = length xs \<Longrightarrow> (\<And>i. i < length xs \<Longrightarrow> p (xs ! i) \<Longrightarrow> bs ! i) \<Longrightarrow>
     filter p (pick (count_true bs) bs xs) = filter p xs"
proof (induction xs arbitrary: bs)
  case Nil
  then show ?case by simp
next
  case (Cons x xs)
  then obtain b bs' where bs: "bs = b # bs'" by (cases bs) auto
  with Cons.prems have "filter p (pick (count_true bs') bs' xs) = filter p xs"
    by (intro Cons.IH) force+
  moreover have "p x \<Longrightarrow> b" using Cons.prems(2) [of 0] bs by auto
  ultimately show ?case using bs by (cases "count_true bs' = 0") auto
qed

section \<open>Pairs of assistant and tool messages\<close>

abbreviation tool_at :: "message list \<Rightarrow> nat \<Rightarrow> bool" where
  "tool_at msgs i \<equiv> is_tool_role (m_role (msgs ! i))"

abbreviation assistant_at :: "message list \<Rightarrow> nat \<Rightarrow> bool" where
  "assistant_at msgs i \<equiv> is_assistant_role (m_role (msgs ! i))"

lemma tool_not_assistant: "is_tool_role r \<Longrightarrow> \<not> is_assistant_role r"
  by (auto simp: is_tool_role_def is_assistant_role_def)

lemma length_pair_up [simp]: "length (pair_up msgs fl i) = length fl"
  by (simp add: pair_up_def Let_def)

lemma length_fold_pair_up [simp]: "length (fold (\<lambda>i fl. pair_up msgs fl i) is fl) = length fl"
  by (induction "is" arbitrary: fl) auto

lemma pair_up_mono: "fl ! j \<Longrightarrow> pair_up msgs fl i ! j"
  by (auto simp: pair_up_def Let_def nth_list_update_if)

lemma fold_pair_up_mono: "fl ! j \<Longrightarrow> fold (\<lambda>i fl. pair_up msgs fl i) is fl ! j"
  by (induction "is" arbitrary: fl) (auto intro: pair_up_mono)

text \<open>Below \<open>k\<close>, a marked tool message has the assistant right before it marked.\<close>

definition paired_below :: "message list \<Rightarrow> bool list \<Rightarrow> nat \<Rightarrow> bool" where
  "paired_below msgs fl k \<longleftrightarrow>
     (\<forall>i. Suc i < k \<longrightarrow> tool_at msgs (Suc i) \<longrightarrow> assistant_at msgs i \<longrightarrow> fl ! Suc i \<longrightarrow> fl ! i)"

lemma pair_up_paired:
  assumes "length fl = length msgs" and "0 < k" and "k < length msgs" and "paired_below msgs fl k"
  shows "paired_below msgs (pair_up msgs fl k) (Suc k)"
  unfolding paired_below_def
proof (intro allI impI)
  fix i assume i: "Suc i < Suc k" and t: "tool_at msgs (Suc i)" and a: "assistant_at msgs i"
    and m: "pair_up msgs fl k ! Suc i"
  show "pair_up msgs fl k ! i"
  proof (cases "Suc i = k")
    case True
    then have "fl ! k" using m t a
      by (auto simp: pair_up_def Let_def nth_list_update_if split: if_splits)
    show ?thesis
    proof (cases "fl ! i")
      case True
      then show ?thesis by (rule pair_up_mono)
    next
      case False
      have "i \<noteq> k + 1" "i < length fl" using \<open>Suc i = k\<close> assms by auto
      with False \<open>Suc i = k\<close> \<open>fl ! k\<close> t a assms(1,3) show ?thesis
        by (auto simp: pair_up_def Let_def nth_list_update_if)
    qed
  next
    case False
    with i have "Suc i < k" by simp
    moreover have "Suc i \<noteq> k - 1 \<or> \<not> assistant_at msgs (k - 1)"
      using t tool_not_assistant by auto
    moreover from this have "fl ! Suc i" using m \<open>Suc i < k\<close>
      by (auto simp: pair_up_def Let_def nth_list_update_if split: if_splits)
    ultimately have "fl ! i" using assms(4) t a by (auto simp: paired_below_def)
    then show ?thesis by (rule pair_up_mono)
  qed
qed

lemma fold_pair_up_paired:
  assumes "length fl = length msgs" and "k \<le> length msgs"
  shows "paired_below msgs (fold (\<lambda>i fl. pair_up msgs fl i) [1..<k] fl) k"
  using assms(2)
proof (induction k)
  case 0
  then show ?case by (simp add: paired_below_def)
next
  case (Suc k)
  show ?case
  proof (cases "k = 0")
    case True
    then show ?thesis by (simp add: paired_below_def)
  next
    case False
    with Suc assms(1) show ?thesis by (simp add: pair_up_paired)
  qed
qed

section \<open>Pass 1\<close>

lemma length_select_pass1 [simp]:
  "length (select_pass1 msgs k ss fl n) = length fl"
  by (induction msgs k ss fl n rule: select_pass1.induct) (auto simp: Let_def)

lemma length_smart_select_flags [simp]:
  "length (smart_select_flags qs msgs k) = length msgs"
  by (simp add: smart_select_flags_def select_pass2_def Let_def)

lemma smart_select_flags_paired:
  "paired_below msgs (smart_select_flags qs msgs k) (length msgs)"
  unfolding smart_select_flags_def select_pass2_def Let_def by (rule fold_pair_up_paired) auto

text \<open>Without tool messages each visited score marks one new message, so the count is exact.\<close>

lemma select_pass1_no_tools:
  assumes "\<forall>i < length msgs. \<not> tool_at msgs i"
    and "distinct (map orig_index ss)"
    and "\<forall>s \<in> set ss. orig_index s < length msgs \<and> \<not> fl ! orig_index s"
    and "length fl = length msgs"
  shows "int (count_true (select_pass1 msgs k ss fl n)) =
           int (count_true fl) + min (int (length ss)) (max 0 (k - n))"
  using assms(2-4)
proof (induction ss arbitrary: fl n)
  case Nil
  then show ?case by simp
next
  case (Cons s ss)
  show ?case
  proof (cases "n < k")
    case True
    let ?i = "orig_index s" let ?fl = "fl[orig_index s := True]"
    have nt: "\<not> tool_at msgs ?i" using Cons.prems assms(1) by simp
    have "\<forall>u \<in> set ss. orig_index u < length msgs \<and> \<not> ?fl ! orig_index u"
      using Cons.prems by (auto simp: nth_list_update_if)
    then have "int (count_true (select_pass1 msgs k ss ?fl (n + 1))) =
        int (count_true ?fl) + min (int (length ss)) (max 0 (k - (n + 1)))"
      using Cons.prems by (intro Cons.IH) auto
    moreover have "count_true ?fl = Suc (count_true fl)"
      using Cons.prems by (intro count_true_set) auto
    ultimately show ?thesis using True nt by (simp add: Let_def)
  next
    case False
    then show ?thesis by simp
  qed
qed

lemma orig_index_score_of [simp]: "orig_index (score_of msgs k i) = i"
  by (simp add: score_of_def Let_def)

lemma pair_up_no_tools:
  "\<forall>i < length msgs. \<not> tool_at msgs i \<Longrightarrow> i < length msgs \<Longrightarrow> pair_up msgs fl i = fl"
  by (auto simp: pair_up_def Let_def)

lemma select_pass2_no_tools:
  assumes "\<forall>i < length msgs. \<not> tool_at msgs i"
  shows "select_pass2 msgs fl = fl"
proof -
  have id: "set is \<subseteq> {..<length msgs} \<Longrightarrow> fold (\<lambda>i fl. pair_up msgs fl i) is fl = fl" for "is"
    by (induction "is") (auto simp: pair_up_no_tools [OF assms])
  show ?thesis unfolding select_pass2_def by (rule id) auto
qed

lemma smart_select_flags_no_tools:
  assumes "qsort_spec score_cmp qs" and "\<forall>i < length msgs. \<not> tool_at msgs i"
    and "k < int (length msgs)"
  shows "int (count_true (smart_select_flags qs msgs k)) = max 0 k"
proof -
  let ?ss = "map (score_of msgs k) [0..<length msgs]"
  have mset: "mset (qs ?ss) = mset ?ss" using assms(1) by (rule qsort_spec.qs_mset)
  have "mset (map orig_index (qs ?ss)) = mset (map orig_index ?ss)"
    using mset by (metis mset_map)
  also have "map orig_index ?ss = [0..<length msgs]" by (simp add: comp_def)
  finally have d: "distinct (map orig_index (qs ?ss))"
    by (metis distinct_upt mset_eq_imp_distinct_iff)
  have mem: "\<forall>s \<in> set (qs ?ss). orig_index s < length msgs \<and>
      \<not> replicate (length msgs) False ! orig_index s"
    using qsort_spec.qs_set [OF assms(1), of ?ss] by auto
  have len: "length (qs ?ss) = length msgs"
    using qsort_spec.qs_length [OF assms(1), of ?ss] by simp
  show ?thesis
    using select_pass1_no_tools [OF assms(2) d mem, of k 0] len assms(3)
    by (simp add: smart_select_flags_def Let_def select_pass2_no_tools [OF assms(2)])
qed

section \<open>The character budget\<close>

abbreviation content_length :: "message \<Rightarrow> nat" where
  "content_length m \<equiv> (case m_content m of None \<Rightarrow> 0 | Some c \<Rightarrow> length c)"

lemma window_chars_exact:
  assumes "0 \<le> max_chars" and "max_chars < 2 ^ 31" and "0 \<le> tot"
    and "tot + int (sum_list (map content_length ms)) < 2 ^ 64"
  shows "(case window_chars max_chars ms tot of None \<Rightarrow> False | Some t \<Rightarrow> t \<le> max_chars) \<longleftrightarrow>
           tot + int (sum_list (map content_length ms)) \<le> max_chars"
  using assms(3,4)
proof (induction ms arbitrary: tot)
  case Nil
  then show ?case by simp
next
  case (Cons m ms)
  show ?case
  proof (cases "m_content m")
    case None
    with Cons show ?thesis by simp
  next
    case (Some c)
    define cl where "cl = int (length c)"
    have small: "max_chars mod 2 ^ 64 = max_chars" using assms(1,2) by simp
    have cl: "0 \<le> cl" "tot + cl < 2 ^ 64" using Cons.prems Some by (simp_all add: cl_def)
    show ?thesis
    proof (cases "tot > (max_chars - cl) mod 2 ^ 64")
      case True
      have "tot + cl > max_chars"
      proof (cases "cl \<le> max_chars")
        case True
        with assms(2) cl have "(max_chars - cl) mod 2 ^ 64 = max_chars - cl" by simp
        with \<open>tot > (max_chars - cl) mod 2 ^ 64\<close> show ?thesis by simp
      next
        case False
        with Cons.prems show ?thesis by simp
      qed
      with True Some small show ?thesis by (simp add: cl_def)
    next
      case False
      have "(tot + cl) mod 2 ^ 64 = tot + cl" using cl Cons.prems by simp
      with Cons.IH [of "tot + cl"] Cons.prems False Some small cl show ?thesis
        by (simp add: cl_def add.assoc)
    qed
  qed
qed

lemma window_fits_exact:
  assumes "0 \<le> max_chars" and "max_chars < 2 ^ 31"
    and "int (sum_list (map content_length msgs)) < 2 ^ 64"
  shows "window_fits msgs max_messages max_chars \<longleftrightarrow>
           int (length msgs) \<le> max_messages \<and>
           int (sum_list (map content_length msgs)) \<le> max_chars"
  using window_chars_exact [of max_chars 0 msgs] assms
  by (auto simp: window_fits_def split: option.splits)

section \<open>Selection and trimming results\<close>

lemma smart_select_Some:
  assumes "smart_select_alloc qs msgs k = Some r" and "k < int (length msgs)"
  shows "r = pick (nat k) (smart_select_flags qs msgs k) msgs"
    and "0 < k" and "length r = min (nat k) (count_true (smart_select_flags qs msgs k))"
proof -
  let ?fl = "smart_select_flags qs msgs k"
  from assms have pos: "0 < min (int (count_true ?fl)) k"
    and r: "r = pick (nat (min (int (count_true ?fl)) k)) ?fl msgs"
    by (auto simp: smart_select_alloc_def Let_def split: if_splits)
  then show "0 < k" by simp
  have "kept (min (count_true ?fl) (nat k)) ?fl = kept (nat k) ?fl"
    by (auto simp: kept_def intro: count_true_take_less)
  moreover have "nat (min (int (count_true ?fl)) k) = min (count_true ?fl) (nat k)" by auto
  ultimately show r': "r = pick (nat k) ?fl msgs" using r by (simp add: pick_nths)
  then show "length r = min (nat k) (count_true ?fl)" by (simp add: length_pick)
qed

lemma length_keep_recent [simp]: "length (keep_recent msgs k fl b) = length fl"
  by (induction msgs k fl b rule: keep_recent.induct) (auto simp: Let_def)

lemma keep_recent_mono: "fl ! j \<Longrightarrow> keep_recent msgs k fl b ! j"
  by (induction msgs k fl b rule: keep_recent.induct) (auto simp: Let_def nth_list_update_if)

lemma length_trim_flags [simp]: "length (trim_flags msgs t) = length msgs"
  by (simp add: trim_flags_def Let_def)

lemma trim_flags_system:
  "i < length msgs \<Longrightarrow> is_system_role (m_role (msgs ! i)) \<Longrightarrow> trim_flags msgs t ! i"
  by (simp add: trim_flags_def Let_def fold_pair_up_mono keep_recent_mono)

lemma trim_in_bounds:
  assumes "cnt = int (length arr)"
  obtains r where "trim_messages_by_tokens_new arr cnt t = Inr (r, int (length r))"
    and "subseq r arr"
    and "filter (\<lambda>m. is_system_role (m_role m)) r = filter (\<lambda>m. is_system_role (m_role m)) arr"
proof (cases "cnt = 0 \<or> sum_list (map (\<lambda>m. estimate_tokens (m_content m)) arr) \<le> t")
  case True
  then show ?thesis
    by (intro that [of arr]) (auto simp: trim_messages_by_tokens_new_def Let_def assms)
next
  case False
  let ?fl = "trim_flags arr t"
  have "trim_messages_by_tokens_new arr cnt t =
      Inr (pick (count_true ?fl) ?fl arr, int (length (pick (count_true ?fl) ?fl arr)))"
    using False by (simp add: trim_messages_by_tokens_new_def Let_def assms length_pick)
  then show ?thesis
    by (rule that) (auto simp: pick_subseq intro!: pick_filter trim_flags_system)
qed

lemma trim_out_of_bounds:
  "trim_messages_by_tokens_new arr cnt t = Inl OutOfBounds \<longleftrightarrow> cnt > int (length arr)"
  by (auto simp: trim_messages_by_tokens_new_def Let_def)

section \<open>Concrete conversations\<close>

definition sample_msg :: "string \<Rightarrow> string \<Rightarrow> message" where
  "sample_msg r c =
     \<lparr>m_role = Some r, m_content = Some c, m_id = None, m_parent_id = None,
      m_fork_group_id = None, m_tool_calls = [], m_tool_call_id = None, m_tool_name = None,
      m_error_category = None, m_timestamp = 0, m_thinking = None, m_phase = None,
      m_provider_state = None\<rparr>"

definition tool_chat :: "message list" where
  "tool_chat = [sample_msg ''user'' ''a'', sample_msg ''user'' ''b'',
                sample_msg ''assistant'' ''c'', sample_msg ''tool'' ''d'']"

definition plain_chat :: "message list" where
  "plain_chat = [sample_msg ''system'' ''s'', sample_msg ''user'' ''a'',
                 sample_msg ''assistant'' ''b'', sample_msg ''user'' ''c'']"

section \<open>Properties\<close>

text \<open>
  The overread happens on an ordinary conversation: two user messages, an assistant message
  with its tool result, and room for three messages. The selection has two entries, three are
  read.
\<close>

theorem window_overreads_tool_chat:
  "smart_select_alloc (sort_cmp score_cmp) tool_chat 3 =
     Some [sample_msg ''assistant'' ''c'', sample_msg ''tool'' ''d''] \<and>
   apply_context_window (sort_cmp score_cmp) tool_chat 3 1000 = Inl OutOfBounds"
proof
  show "smart_select_alloc (sort_cmp score_cmp) tool_chat 3 =
      Some [sample_msg ''assistant'' ''c'', sample_msg ''tool'' ''d'']" by code_simp
  show "apply_context_window (sort_cmp score_cmp) tool_chat 3 1000 = Inl OutOfBounds"
    by code_simp
qed

text \<open>
  For a conversation without tool messages the window is safe and respects its limits,
  whatever \<open>qsort\<close> does with equal elements: no read out of bounds, the returned count is the
  length of the returned array, the messages are a subsequence of the conversation in its order,
  and there are at most \<open>max_messages\<close> of them.
\<close>

theorem window_no_tools_safe:
  assumes "qsort_spec score_cmp qs" and "list_all (\<lambda>m. \<not> is_tool_role (m_role m)) msgs"
    and "0 < max_messages"
  shows "\<exists>r. apply_context_window qs msgs max_messages max_chars = Inr (r, int (length r)) \<and>
           subseq r msgs \<and> int (length r) \<le> max_messages"
proof (cases "window_fits msgs max_messages max_chars")
  case True
  then show ?thesis by (auto simp: apply_context_window_def Let_def window_fits_def)
next
  case nofit: False
  have nt: "\<forall>i < length msgs. \<not> tool_at msgs i" using assms(2) by (simp add: list_all_length)
  obtain sel where sel: "smart_select_alloc qs msgs max_messages = Some sel" "subseq sel msgs"
    "int (length sel) = min (int (length msgs)) max_messages"
  proof (cases "int (length msgs) \<le> max_messages")
    case True
    then show thesis by (intro that [of msgs]) (auto simp: smart_select_alloc_def)
  next
    case False
    then have less: "max_messages < int (length msgs)" by simp
    have "int (count_true (smart_select_flags qs msgs max_messages)) = max_messages"
      using smart_select_flags_no_tools [OF assms(1) nt less] assms(3) by simp
    with False assms(3) show thesis
      by (intro that) (auto simp: smart_select_alloc_def Let_def pick_subseq length_pick)
  qed
  let ?new = "if int (length msgs) < max_messages then int (length msgs) else max_messages"
  let ?t = "let t = (if max_chars \<ge> 0 then max_chars div 4 else - ((- max_chars) div 4))
            in if t < 1 then 1 else t"
  have new: "?new = int (length sel)" using sel(3) by auto
  have app: "apply_context_window qs msgs max_messages max_chars =
      trim_messages_by_tokens_new sel ?new ?t"
    using nofit sel(1) by (simp add: apply_context_window_def Let_def)
  obtain r where r: "trim_messages_by_tokens_new sel ?new ?t = Inr (r, int (length r))" "subseq r sel"
    using trim_in_bounds [OF new, of ?t] by blast
  from r(2) have "length r \<le> length sel" by (simp add: list_emb_length)
  with sel(3) have "int (length r) \<le> max_messages" by simp
  moreover have "subseq r msgs" using r(2) sel(2) by (rule subseq_order.trans)
  ultimately show ?thesis using app r(1) by metis
qed

theorem window_no_tools_safe_witness:
  "\<exists>r. apply_context_window (sort_cmp score_cmp) plain_chat 2 1000 = Inr (r, int (length r)) \<and>
     subseq r plain_chat \<and> int (length r) \<le> 2"
  by (rule window_no_tools_safe [OF score_sort.qsort_spec_axioms])
     (simp_all add: plain_chat_def sample_msg_def is_tool_role_def)

text \<open>
  A selected tool message is never orphaned: the selection is the conversation restricted to
  a set of positions that contains, with every tool message directly after an assistant message,
  that assistant message; it has at most \<open>keep_count\<close> entries.
\<close>

theorem smart_select_pairs_tools:
  assumes "smart_select_alloc qs msgs keep_count = Some r" and "keep_count < int (length msgs)"
  shows "\<exists>I. r = nths msgs I \<and> int (length r) \<le> keep_count \<and>
           (\<forall>i. Suc i \<in> I \<and> tool_at msgs (Suc i) \<and> assistant_at msgs i \<longrightarrow> i \<in> I)"
proof -
  let ?fl = "smart_select_flags qs msgs keep_count"
  note sel = smart_select_Some [OF assms]
  have "paired_below msgs ?fl (length msgs)" by (rule smart_select_flags_paired)
  moreover have "count_true (take i ?fl) \<le> count_true (take (Suc i) ?fl)" for i
    by (metis count_true_take_le min.absorb1 le_add2 plus_1_eq_Suc take_take)
  ultimately have "\<forall>i. Suc i \<in> kept (nat keep_count) ?fl \<and> tool_at msgs (Suc i) \<and>
      assistant_at msgs i \<longrightarrow> i \<in> kept (nat keep_count) ?fl"
    unfolding kept_def paired_below_def by (auto intro: order.strict_trans1)
  moreover have "r = nths msgs (kept (nat keep_count) ?fl)" using sel(1) by (simp add: pick_nths)
  moreover have "int (length r) \<le> keep_count" using sel(2,3) by simp
  ultimately show ?thesis by blast
qed

theorem smart_select_pairs_tools_witness:
  "\<exists>I. [sample_msg ''assistant'' ''c'', sample_msg ''tool'' ''d''] = nths tool_chat I \<and>
     (\<forall>i. Suc i \<in> I \<and> tool_at tool_chat (Suc i) \<and> assistant_at tool_chat i \<longrightarrow> i \<in> I)"
proof -
  have a: "smart_select_alloc (sort_cmp score_cmp) tool_chat 3 =
      Some [sample_msg ''assistant'' ''c'', sample_msg ''tool'' ''d'']" by code_simp
  have b: "(3::int) < int (length tool_chat)" by (simp add: tool_chat_def)
  show ?thesis using smart_select_pairs_tools [OF a b] by blast
qed

text \<open>
  While the number of messages is within the limit, the window keeps every system message and
  only drops others: the result is the conversation itself exactly when the contents fit
  \<open>max_chars\<close> (the overflow-guarded sum decides this correctly), and otherwise a subsequence
  with the same system messages.
\<close>

theorem window_keeps_system:
  assumes "int (length msgs) \<le> max_messages" and "0 \<le> max_chars" and "max_chars < 2 ^ 31"
    and "int (sum_list (map content_length msgs)) < 2 ^ 64"
  shows "\<exists>r. apply_context_window qs msgs max_messages max_chars = Inr (r, int (length r)) \<and>
           subseq r msgs \<and>
           filter (\<lambda>m. is_system_role (m_role m)) r = filter (\<lambda>m. is_system_role (m_role m)) msgs \<and>
           (r = msgs \<or> int (sum_list (map content_length msgs)) > max_chars)"
proof (cases "window_fits msgs max_messages max_chars")
  case True
  then show ?thesis by (simp add: apply_context_window_def Let_def)
next
  case False
  then have big: "int (sum_list (map content_length msgs)) > max_chars"
    using assms by (simp add: window_fits_exact)
  have sel: "smart_select_alloc qs msgs max_messages = Some msgs"
    using assms(1) by (simp add: smart_select_alloc_def)
  have "(if int (length msgs) < max_messages then int (length msgs) else max_messages)
      = int (length msgs)" using assms(1) by simp
  then have "apply_context_window qs msgs max_messages max_chars =
      trim_messages_by_tokens_new msgs (int (length msgs))
        (if max_chars div 4 < 1 then 1 else max_chars div 4)"
    using False sel assms(2) by (simp add: apply_context_window_def Let_def)
  with big show ?thesis using trim_in_bounds [of "int (length msgs)" msgs] by metis
qed

theorem window_keeps_system_witness:
  "\<exists>r. apply_context_window (sort_cmp score_cmp) plain_chat 4 3 = Inr (r, int (length r)) \<and>
     subseq r plain_chat \<and>
     filter (\<lambda>m. is_system_role (m_role m)) r =
       filter (\<lambda>m. is_system_role (m_role m)) plain_chat"
proof -
  have "int (length plain_chat) \<le> 4" "int (sum_list (map content_length plain_chat)) < 2 ^ 64"
    by (simp_all add: plain_chat_def sample_msg_def)
  from window_keeps_system [OF this(1) _ _ this(2), of 3 "sort_cmp score_cmp"]
  show ?thesis by auto
qed

text \<open>
  A single message over the budget empties the context: nothing is sent to the model although
  the comment in the code promises the most recent exchange.
\<close>

theorem window_can_be_empty:
  "apply_context_window (sort_cmp score_cmp) [sample_msg ''user'' ''hello, world'']
     10 11 = Inr ([], 0)"
  by code_simp

end
