(* ===== verification/ChangeTracker.thy ===== *)
theory ChangeTracker
  imports Prelude
begin

text \<open>
  \<open>change_tracker/change_tracker.c\<close>: the undo and redo stacks of file contents. A file
  system is a map from paths to contents (byte strings, zero bytes included). The stacks are
  lists with the newest entry last, as in the arrays of the code. What the system decides is an
  argument \<open>ct_env\<close> of every operation: whether the file opens for reading, how the write
  ends, whether copying the path finds memory. The buffers for the contents are assumed to be
  allocated, and the tracker itself is not NULL (the header demands it).
\<close>

section \<open>State and environment\<close>

record ct_entry =
  file_path :: string
  previous_content :: cptr
  content_len :: nat

record change_tracker =
  undo_stack :: "ct_entry list"
  redo_stack :: "ct_entry list"

type_synonym fs = "string \<rightharpoonup> string"

text \<open>
  A write opens the file (which empties it) and then writes everything, or only the first
  \<open>n\<close> bytes before an error.
\<close>

datatype write_outcome = CannotOpen | Short nat | Complete

record ct_env =
  can_read :: bool
  wr :: write_outcome
  dup_ok :: bool

definition CT_MAX_STACK :: nat where "CT_MAX_STACK = 64"

definition ct_create :: change_tracker where
  "ct_create = \<lparr>undo_stack = [], redo_stack = []\<rparr>"

section \<open>Operations\<close>

text \<open>The eviction of the oldest entry: \<open>memmove\<close> of the rest and one entry less.\<close>

definition make_room :: "ct_entry list \<Rightarrow> ct_entry list" where
  "make_room st = (if length st \<ge> CT_MAX_STACK then tl st else st)"

definition int32 :: "nat \<Rightarrow> int" where "int32 n = sint (word_of_nat n :: 32 word)"

definition ct_snapshot ::
  "ct_env \<Rightarrow> cptr \<Rightarrow> change_tracker \<Rightarrow> fs \<Rightarrow> int \<times> change_tracker" where
  "ct_snapshot env path ct fs =
     (case path of None \<Rightarrow> (-1, ct)
      | Some p \<Rightarrow>
          (case (if can_read env then fs p else None) of
             None \<Rightarrow> (-1, ct)
           | Some content \<Rightarrow>
               let st = make_room (undo_stack ct)
               in if dup_ok env
                  then (0, \<lparr>undo_stack = st @ [\<lparr>file_path = p, previous_content = Some content,
                                               content_len = length content\<rparr>],
                            redo_stack = []\<rparr>)
                  else (-1, ct\<lparr>undo_stack := st\<rparr>)))"

text \<open>\<open>fopen(path, "w")\<close>, \<open>fwrite\<close> and \<open>fclose\<close>: \<open>None\<close> if any of them fails.\<close>

definition entry_bytes :: "ct_entry \<Rightarrow> string" where
  "entry_bytes e = (case previous_content e of None \<Rightarrow> [] | Some c \<Rightarrow> take (content_len e) c)"

definition write_entry :: "write_outcome \<Rightarrow> ct_entry \<Rightarrow> fs \<Rightarrow> bool \<times> fs" where
  "write_entry w e fs =
     (case w of CannotOpen \<Rightarrow> (False, fs)
      | Short n \<Rightarrow> (False, fs(file_path e \<mapsto> take n (entry_bytes e)))
      | Complete \<Rightarrow> (True, fs(file_path e \<mapsto> entry_bytes e)))"

text \<open>The current contents, NULL for a missing, unreadable or empty file.\<close>

definition read_current :: "ct_env \<Rightarrow> string \<Rightarrow> fs \<Rightarrow> cptr" where
  "read_current env p fs =
     (if can_read env then (case fs p of Some (c # cs) \<Rightarrow> Some (c # cs) | _ \<Rightarrow> None) else None)"

definition ct_undo :: "ct_env \<Rightarrow> change_tracker \<Rightarrow> fs \<Rightarrow> int \<times> change_tracker \<times> fs" where
  "ct_undo env ct fs =
     (if undo_stack ct = [] then (-1, ct, fs)
      else
        let e = last (undo_stack ct);
            current = read_current env (file_path e) fs;
            (ok, fs') = write_entry (wr env) e fs
        in if \<not> ok then (-1, ct, fs')
           else
             let rst = make_room (redo_stack ct)
             in if dup_ok env
                then (int32 (content_len e),
                      \<lparr>undo_stack = butlast (undo_stack ct),
                       redo_stack = rst @ [\<lparr>file_path = file_path e, previous_content = current,
                         content_len = (case current of None \<Rightarrow> 0 | Some c \<Rightarrow> length (cstr c))\<rparr>]\<rparr>,
                      fs')
                else (-1, ct\<lparr>redo_stack := rst\<rparr>, fs'))"

definition ct_redo :: "ct_env \<Rightarrow> change_tracker \<Rightarrow> fs \<Rightarrow> int \<times> change_tracker \<times> fs" where
  "ct_redo env ct fs =
     (if redo_stack ct = [] then (-1, ct, fs)
      else
        let e = last (redo_stack ct);
            (ok, fs') = write_entry (wr env) e fs
        in if \<not> ok then (-1, ct, fs')
           else (int32 (content_len e),
                 \<lparr>undo_stack = make_room (undo_stack ct) @ [e],
                  redo_stack = butlast (redo_stack ct)\<rparr>,
                 fs'))"

section \<open>The stack interface\<close>

text \<open>
  What the tracker relies on: pushing keeps the newest \<open>cap\<close> entries. \<open>cont\<close> lists the
  contents, newest first.
\<close>

locale bounded_stack =
  fixes cont :: "'s \<Rightarrow> 'e list" and push :: "'e \<Rightarrow> 's \<Rightarrow> 's" and pop :: "'s \<Rightarrow> 's"
    and cap :: nat
  assumes cont_push: "length (cont s) \<le> cap \<Longrightarrow> cont (push e s) = take cap (e # cont s)"
    and cont_pop: "cont (pop s) = tl (cont s)"
    and cap_pos: "0 < cap"
begin

lemma push_bounded: "length (cont s) \<le> cap \<Longrightarrow> length (cont (push e s)) \<le> cap"
  by (simp add: cont_push)

lemma top_push: "length (cont s) \<le> cap \<Longrightarrow> hd (cont (push e s)) = e"
  using cap_pos by (cases cap) (simp_all add: cont_push)

lemma pop_push: "length (cont s) < cap \<Longrightarrow> cont (pop (push e s)) = cont s"
  by (cases cap) (simp_all add: cont_push cont_pop)

lemma pop_bounded: "length (cont s) \<le> cap \<Longrightarrow> length (cont (pop s)) \<le> cap"
  by (simp add: cont_pop)

end

definition ct_push :: "ct_entry \<Rightarrow> ct_entry list \<Rightarrow> ct_entry list" where
  "ct_push e st = make_room st @ [e]"

interpretation ct_stack: bounded_stack rev ct_push butlast CT_MAX_STACK
proof
  fix e :: ct_entry and s :: "ct_entry list"
  assume "length (rev s) \<le> CT_MAX_STACK"
  then show "rev (ct_push e s) = take CT_MAX_STACK (e # rev s)"
    by (cases "length s = CT_MAX_STACK"; cases s)
       (auto simp: ct_push_def make_room_def CT_MAX_STACK_def take_Cons')
next
  show "rev (butlast s) = tl (rev s)" for s :: "ct_entry list" by (simp add: butlast_rev [symmetric] rev_swap)
qed (simp add: CT_MAX_STACK_def)

lemma make_room_push: "make_room st @ [e] = ct_push e st"
  by (simp add: ct_push_def)

section \<open>The tracker as a machine\<close>

text \<open>
  A call of one of the three operations, or anything else that changes the files (the edit a
  snapshot was taken for, another program).
\<close>

datatype ct_op =
    Snapshot ct_env string
  | Undo ct_env
  | Redo ct_env
  | Touch string "string option"

fun ct_step :: "change_tracker \<times> fs \<Rightarrow> ct_op \<Rightarrow> change_tracker \<times> fs" where
  "ct_step (ct, fs) (Snapshot env p) = (snd (ct_snapshot env (Some p) ct fs), fs)"
| "ct_step (ct, fs) (Undo env) = snd (ct_undo env ct fs)"
| "ct_step (ct, fs) (Redo env) = snd (ct_redo env ct fs)"
| "ct_step (ct, fs) (Touch p c) = (ct, fs(p := c))"

definition entry_ok :: "ct_entry \<Rightarrow> bool" where
  "entry_ok e = (case previous_content e of None \<Rightarrow> content_len e = 0
                 | Some c \<Rightarrow> content_len e \<le> length c)"

definition ct_inv :: "change_tracker \<Rightarrow> bool" where
  "ct_inv ct \<longleftrightarrow> length (undo_stack ct) \<le> CT_MAX_STACK \<and> length (redo_stack ct) \<le> CT_MAX_STACK \<and>
     list_all entry_ok (undo_stack ct) \<and> list_all entry_ok (redo_stack ct)"

lemma make_room_ok [inv_intros]:
  "length st \<le> CT_MAX_STACK \<Longrightarrow> length (make_room st) < CT_MAX_STACK"
  "list_all entry_ok st \<Longrightarrow> list_all entry_ok (make_room st)"
  by (cases st; simp add: make_room_def CT_MAX_STACK_def)+

lemma length_make_room_le: "length (make_room st) \<le> length st"
  by (simp add: make_room_def)

lemma butlast_ok: "list_all P st \<Longrightarrow> list_all P (butlast st)"
  by (auto simp: list_all_iff dest: in_set_butlastD)

lemma last_ok: "list_all P st \<Longrightarrow> st \<noteq> [] \<Longrightarrow> P (last st)"
  by (simp add: list_all_iff)

lemma cstr_le: "length (cstr c) \<le> length c"
  by (simp add: cstr_def length_takeWhile_le)

lemma ct_inv_push:
  "length st \<le> CT_MAX_STACK \<Longrightarrow> Suc (length (make_room st)) \<le> CT_MAX_STACK"
  using make_room_ok(1) by (simp add: Suc_leI)

lemma ct_step_inv:
  assumes "ct_inv ct"
  shows "ct_inv (fst (ct_step (ct, fs) e))"
proof (cases e)
  case (Snapshot env p)
  then show ?thesis using assms
    by (auto simp: ct_inv_def ct_snapshot_def Let_def entry_ok_def ct_inv_push make_room_ok(2)
        less_imp_le [OF make_room_ok(1)] split: option.splits)
next
  case (Undo env)
  then show ?thesis using assms
    by (auto simp: ct_inv_def ct_undo_def Let_def entry_ok_def ct_inv_push make_room_ok(2) cstr_le
        less_imp_le [OF make_room_ok(1)] butlast_ok split: option.splits prod.splits)
next
  case (Redo env)
  then show ?thesis using assms
    by (auto simp: ct_inv_def ct_redo_def Let_def ct_inv_push make_room_ok(2) last_ok
        butlast_ok split: option.splits prod.splits)
next
  case (Touch p c)
  then show ?thesis using assms by simp
qed

interpretation ct_machine: machine "(ct_create, fs)" ct_step "\<lambda>(ct, fs). ct_inv ct" for fs
proof
  show "case (ct_create, fs) of (ct, fs) \<Rightarrow> ct_inv ct"
    by (simp add: ct_create_def ct_inv_def)
  show "case ct_step s e of (ct, fs) \<Rightarrow> ct_inv ct" if "case s of (ct, fs) \<Rightarrow> ct_inv ct"
    for s e using that ct_step_inv [where ct = "fst s" and fs = "snd s" and e = e] by (cases s) (auto split: prod.splits)
qed

text \<open>
  Whatever snapshots, undos, redos and outside changes happen, with any mixture of I/O
  failures: both stacks stay within \<open>CT_MAX_STACK\<close> entries and no entry claims more bytes
  than its buffer holds, so that restoring never reads past a buffer.
\<close>

theorem ct_invariant:
  "case run ct_step (ct_create, fs) ops of (ct, fs') \<Rightarrow>
     length (undo_stack ct) \<le> CT_MAX_STACK \<and> length (redo_stack ct) \<le> CT_MAX_STACK \<and>
     list_all entry_ok (undo_stack ct @ redo_stack ct)"
  using ct_machine.inv_reachable [of fs ops] by (auto simp: ct_inv_def split: prod.splits)

section \<open>Restoring\<close>

definition good_env :: ct_env where
  "good_env = \<lparr>can_read = True, wr = Complete, dup_ok = True\<rparr>"

lemmas ct_ops = ct_snapshot_def ct_undo_def ct_redo_def write_entry_def entry_bytes_def
  read_current_def good_env_def Let_def

text \<open>An edit as the tools do it: take a snapshot, then write the new contents.\<close>

definition edit_ops :: "(string \<times> string) list \<Rightarrow> ct_op list" where
  "edit_ops es = concat (map (\<lambda>(p, c). [Snapshot good_env p, Touch p (Some c)]) es)"

lemma ct_undo_good:
  assumes "undo_stack ct = st @ [e]"
  shows "snd (snd (ct_undo good_env ct fs)) = fs(file_path e \<mapsto> entry_bytes e)"
    and "undo_stack (fst (snd (ct_undo good_env ct fs))) = st"
  using assms by (simp_all add: ct_undo_def Let_def write_entry_def good_env_def)

lemma edits_then_undos:
  "list_all (\<lambda>(p, c). p \<in> dom fs) es \<Longrightarrow> length es \<le> CT_MAX_STACK \<Longrightarrow>
   length (undo_stack ct) \<le> CT_MAX_STACK \<Longrightarrow>
   (case run ct_step (ct, fs) (edit_ops es @ replicate (length es) (Undo good_env)) of
      (ct', fs') \<Rightarrow> fs' = fs \<and>
        rev (undo_stack ct') = take (CT_MAX_STACK - length es) (rev (undo_stack ct)))"
proof (induction es arbitrary: ct fs)
  case Nil
  then show ?case by (simp add: edit_ops_def)
next
  case (Cons pc es)
  obtain p c where pc: "pc = (p, c)" by (cases pc)
  with Cons.prems obtain old where old: "fs p = Some old" by auto
  let ?e = "\<lparr>file_path = p, previous_content = Some old, content_len = length old\<rparr>"
  let ?ct = "\<lparr>undo_stack = ct_push ?e (undo_stack ct), redo_stack = []\<rparr>"
  let ?fs = "fs(p \<mapsto> c)"
  have snap: "snd (ct_snapshot good_env (Some p) ct fs) = ?ct"
    using old by (simp add: ct_snapshot_def good_env_def Let_def ct_push_def)
  have rv: "rev (undo_stack ?ct) = take CT_MAX_STACK (?e # rev (undo_stack ct))"
    using Cons.prems(3) by (simp add: ct_stack.cont_push)
  obtain ct' fs' where run: "run ct_step (?ct, ?fs)
      (edit_ops es @ replicate (length es) (Undo good_env)) = (ct', fs')" by fastforce
  have len: "length es \<le> CT_MAX_STACK" "length (undo_stack ?ct) \<le> CT_MAX_STACK"
    using ct_stack.push_bounded [of "undo_stack ct" ?e] Cons.prems(2,3) by simp_all
  have dom: "list_all (\<lambda>(p, c). p \<in> dom ?fs) es"
    using Cons.prems(1) by (auto simp: list_all_iff)
  from Cons.IH [OF dom len] have fs': "fs' = ?fs"
    and st: "rev (undo_stack ct') = take (CT_MAX_STACK - length es) (rev (undo_stack ?ct))"
    unfolding run prod.case by (rule conjunct1, rule conjunct2)
  obtain k where k: "CT_MAX_STACK - length es = Suc k" "CT_MAX_STACK - length (pc # es) = k"
    using Cons.prems(2) by (cases "CT_MAX_STACK - length es") auto
  from st k(1) have top: "rev (undo_stack ct') = ?e # take k (rev (undo_stack ct))"
    unfolding rv by (simp add: min_def)
  then have us: "undo_stack ct' = rev (take k (rev (undo_stack ct))) @ [?e]"
    by (metis rev.simps(2) rev_rev_ident)
  have "run ct_step (ct, fs) (edit_ops (pc # es) @ replicate (length (pc # es)) (Undo good_env))
      = run ct_step (?ct, ?fs) ((edit_ops es @ replicate (length es) (Undo good_env)) @ [Undo good_env])"
    using snap by (simp add: edit_ops_def pc replicate_append_same)
  also have "\<dots> = snd (ct_undo good_env ct' ?fs)"
    using run fs' by (simp add: run_append del: append_assoc)
  finally show ?case
    using ct_undo_good [OF us, of ?fs] k(2) old
    by (auto simp: entry_bytes_def fun_upd_idem split: prod.splits)
qed

text \<open>
  C38: undoing as many times as there were edits restores every file exactly, in any order and
  any repetition of the edited files, up to \<open>CT_MAX_STACK\<close> edits and whatever the tracker
  held before.
\<close>

theorem undo_restores:
  assumes "list_all (\<lambda>(p, c). p \<in> dom fs) es" and "length es \<le> CT_MAX_STACK"
    and "length (undo_stack ct) \<le> CT_MAX_STACK"
  shows "snd (run ct_step (ct, fs) (edit_ops es @ replicate (length es) (Undo good_env))) = fs"
  using edits_then_undos [OF assms] by (auto split: prod.splits)

theorem undo_restores_witness:
  "snd (run ct_step (ct_create, [''a'' \<mapsto> ''one'', ''b'' \<mapsto> ''two''])
     (edit_ops [(''a'', ''x''), (''b'', ''y''), (''a'', ''z'')] @
      [Undo good_env, Undo good_env, Undo good_env]))
   = [''a'' \<mapsto> ''one'', ''b'' \<mapsto> ''two'']"
  using undo_restores [of "[''a'' \<mapsto> ''one'', ''b'' \<mapsto> ''two'']"
      "[(''a'', ''x''), (''b'', ''y''), (''a'', ''z'')]" ct_create]
  by (simp add: ct_create_def CT_MAX_STACK_def)

text \<open>
  An undo that fails to write, at any point, keeps its entry: the same undo tried again
  restores the file, whatever was left of it. Undo followed by redo brings back the contents
  the undo replaced, up to the first zero byte (all of them, for a text file); but the redo
  stores the contents it has just written as the new undo entry, so that a further undo changes
  nothing instead of returning to the snapshot.
\<close>

theorem undo_redo:
  assumes "undo_stack ct = st @ [e]" and "wr env \<noteq> Complete"
    and "ct_undo env ct fs = (r, ct1, fs1)"
    and "ct_undo good_env ct1 fs1 = (r2, ct2, fs2)" and "ct_undo good_env ct fs = (r3, ct3, fs3)"
    and "ct_redo good_env ct3 fs3 = (r4, ct4, fs4)" and "ct_undo good_env ct4 fs4 = (r5, ct5, fs5)"
  shows "r = -1 \<and> ct1 = ct \<and> fs2 = fs(file_path e \<mapsto> entry_bytes e) \<and>
     fs4 = fs(file_path e \<mapsto> (case fs (file_path e) of None \<Rightarrow> [] | Some c \<Rightarrow> cstr c)) \<and>
     fs5 = fs4"
proof -
  have 1: "r = -1 \<and> ct1 = ct \<and> (fs1 = fs \<or> (\<exists>x. fs1 = fs(file_path e \<mapsto> x)))"
    using assms(1-3) by (auto simp: ct_undo_def write_entry_def Let_def split: write_outcome.splits)
  then have 2: "fs2 = fs(file_path e \<mapsto> entry_bytes e)"
    using ct_undo_good(1) [OF assms(1), of fs1] assms(4) by auto
  have 3: "fs3 = fs(file_path e \<mapsto> entry_bytes e)" "undo_stack ct3 = st"
    using ct_undo_good [OF assms(1), of fs] assms(5) by auto
  obtain e' where e': "last (redo_stack ct3) = e'" "redo_stack ct3 \<noteq> []" "file_path e' = file_path e"
    "entry_bytes e' = (case fs (file_path e) of None \<Rightarrow> [] | Some c \<Rightarrow> cstr c)"
  proof (rule that)
    have "cstr (c # cs) = take (length (cstr (c # cs))) (c # cs)" for c cs
      by (metis cstr_def takeWhile_eq_take)
    moreover have "cstr [] = []" by (simp add: cstr_def)
    ultimately show "entry_bytes (last (redo_stack ct3)) =
        (case fs (file_path e) of None \<Rightarrow> [] | Some c \<Rightarrow> cstr c)"
      using assms(1,5) by (auto simp: ct_undo_def write_entry_def Let_def good_env_def
          read_current_def entry_bytes_def split: option.splits list.splits)
  qed (use assms(1,5) in \<open>auto simp: ct_undo_def write_entry_def Let_def good_env_def\<close>)
  then have 4: "fs4 = fs3(file_path e' \<mapsto> entry_bytes e')"
    "undo_stack ct4 = make_room (undo_stack ct3) @ [e']"
    using assms(6) by (auto simp: ct_redo_def write_entry_def Let_def good_env_def)
  have "fs5 = fs4(file_path e' \<mapsto> entry_bytes e')"
    using ct_undo_good(1) [OF 4(2), of fs4] assms(7) by auto
  with 1 2 3 4 e' show ?thesis by simp
qed

definition demo_tracker :: change_tracker where
  "demo_tracker = \<lparr>undo_stack = [\<lparr>file_path = ''a'', previous_content = Some ''old'',
     content_len = 3\<rparr>], redo_stack = []\<rparr>"

theorem undo_redo_witness:
  "case ct_undo good_env demo_tracker [''a'' \<mapsto> ''new''] of (r3, ct3, fs3) \<Rightarrow>
     fs3 ''a'' = Some ''old'' \<and>
     (case ct_redo good_env ct3 fs3 of (r4, ct4, fs4) \<Rightarrow> fs4 ''a'' = Some ''new'' \<and>
       snd (snd (ct_undo good_env ct4 fs4)) ''a'' = Some ''new'')"
proof -
  obtain r3 ct3 fs3 where 3: "ct_undo good_env demo_tracker [''a'' \<mapsto> ''new''] = (r3, ct3, fs3)"
    by (cases "ct_undo good_env demo_tracker [''a'' \<mapsto> ''new'']")
  obtain r4 ct4 fs4 where 4: "ct_redo good_env ct3 fs3 = (r4, ct4, fs4)" by (cases "ct_redo good_env ct3 fs3")
  obtain r5 ct5 fs5 where 5: "ct_undo good_env ct4 fs4 = (r5, ct5, fs5)" by (cases "ct_undo good_env ct4 fs4")
  let ?bad = "\<lparr>can_read = True, wr = CannotOpen, dup_ok = True\<rparr>"
  obtain r ct1 fs1 where 1: "ct_undo ?bad demo_tracker [''a'' \<mapsto> ''new''] = (r, ct1, fs1)"
    by (cases "ct_undo ?bad demo_tracker [''a'' \<mapsto> ''new'']")
  obtain r2 ct2 fs2 where 2: "ct_undo good_env ct1 fs1 = (r2, ct2, fs2)" by (cases "ct_undo good_env ct1 fs1")
  have st: "undo_stack demo_tracker = [] @ [\<lparr>file_path = ''a'', previous_content = Some ''old'', content_len = 3\<rparr>]"
    by (simp add: demo_tracker_def)
  from undo_redo [OF st _ 1 2 3 4 5] have
    "fs4 ''a'' = Some ''new'' \<and> fs5 ''a'' = Some ''new''" by (simp add: cstr_def)
  moreover have "fs3 ''a'' = Some ''old''"
    using ct_undo_good(1) [OF st, of "[''a'' \<mapsto> ''new'']"] 3 by (simp add: entry_bytes_def)
  ultimately show ?thesis using 3 4 5 by simp
qed

end
