(* ===== verification/CircuitBreaker.thy ===== *)
theory CircuitBreaker
  imports Prelude
begin

text \<open>
  \<open>utils/circuit_breaker.c\<close>. The monotonic clock is an argument \<open>now\<close> (milliseconds) of the
  operations that read it. The failure count is an \<open>int\<close> of the code that would need
  \<open>2 ^ 31\<close> failures to overflow; it is an unbounded integer here. A NULL breaker, which every
  operation accepts, is \<open>None\<close>.
\<close>

datatype cb_state = CB_CLOSED | CB_OPEN | CB_HALF_OPEN

record circuit_breaker =
  cb_state :: cb_state
  failure_count :: int
  failure_threshold :: int
  half_open_timeout_ms :: int
  opened_at_ms :: int

definition cb_create :: "int \<Rightarrow> int \<Rightarrow> circuit_breaker" where
  "cb_create threshold timeout =
     \<lparr>cb_state = CB_CLOSED, failure_count = 0,
      failure_threshold = (if threshold > 0 then threshold else 5),
      half_open_timeout_ms = (if timeout > 0 then timeout else 30000),
      opened_at_ms = 0\<rparr>"

definition cb_is_available ::
  "int \<Rightarrow> circuit_breaker option \<Rightarrow> int \<times> circuit_breaker option" where
  "cb_is_available now cbo =
     (case cbo of None \<Rightarrow> (1, None)
      | Some cb \<Rightarrow>
          (case cb_state cb of
             CB_CLOSED \<Rightarrow> (1, Some cb)
           | CB_OPEN \<Rightarrow>
               if now - opened_at_ms cb \<ge> half_open_timeout_ms cb
               then (1, Some (cb\<lparr>cb_state := CB_HALF_OPEN\<rparr>))
               else (0, Some cb)
           | CB_HALF_OPEN \<Rightarrow> (1, Some cb)))"

definition cb_record_success :: "circuit_breaker option \<Rightarrow> circuit_breaker option" where
  "cb_record_success cbo =
     (case cbo of None \<Rightarrow> None
      | Some cb \<Rightarrow>
          let cb' = cb\<lparr>failure_count := 0\<rparr>
          in Some (if cb_state cb' = CB_HALF_OPEN then cb'\<lparr>cb_state := CB_CLOSED\<rparr> else cb'))"

definition cb_record_failure :: "int \<Rightarrow> circuit_breaker option \<Rightarrow> circuit_breaker option" where
  "cb_record_failure now cbo =
     (case cbo of None \<Rightarrow> None
      | Some cb \<Rightarrow>
          let cb' = cb\<lparr>failure_count := failure_count cb + 1\<rparr>
          in Some (if failure_count cb' \<ge> failure_threshold cb'
                   then cb'\<lparr>cb_state := CB_OPEN, opened_at_ms := now\<rparr> else cb'))"

section \<open>The breaker as a machine\<close>

datatype cb_event = Ask int | Succeed | Fail int

fun cb_step :: "circuit_breaker option \<Rightarrow> cb_event \<Rightarrow> circuit_breaker option" where
  "cb_step cb (Ask now) = snd (cb_is_available now cb)"
| "cb_step cb Succeed = cb_record_success cb"
| "cb_step cb (Fail now) = cb_record_failure now cb"

lemmas cb_ops = cb_is_available_def cb_record_success_def cb_record_failure_def Let_def

text \<open>A closed breaker is below its threshold; thresholds and cooldowns are positive.\<close>

definition cb_inv :: "circuit_breaker option \<Rightarrow> bool" where
  "cb_inv cbo = (case cbo of None \<Rightarrow> False
     | Some cb \<Rightarrow> 0 < failure_threshold cb \<and> 0 < half_open_timeout_ms cb \<and> 0 \<le> failure_count cb \<and>
         (cb_state cb = CB_CLOSED \<longrightarrow> failure_count cb < failure_threshold cb))"

interpretation breaker: machine "Some (cb_create threshold timeout)" cb_step cb_inv
  for threshold timeout
proof
  show "cb_inv (Some (cb_create threshold timeout))"
    by (simp add: cb_inv_def cb_create_def)
  show "cb_inv (cb_step s e)" if "cb_inv s" for s e
    using that by (cases e) (auto simp: cb_inv_def cb_ops split: option.splits cb_state.splits)
qed

section \<open>When the breaker trips\<close>

text \<open>The failures since the last success.\<close>

fun streak :: "int \<Rightarrow> cb_event list \<Rightarrow> int" where
  "streak k [] = k"
| "streak k (Fail now # es) = streak (k + 1) es"
| "streak k (Succeed # es) = streak 0 es"
| "streak k (Ask now # es) = streak k es"

definition closed :: "circuit_breaker option \<Rightarrow> bool" where
  "closed cbo = (case cbo of None \<Rightarrow> False | Some cb \<Rightarrow> cb_state cb = CB_CLOSED)"

fun bump :: "int \<Rightarrow> cb_event \<Rightarrow> int" where
  "bump k (Fail now) = k + 1"
| "bump k Succeed = 0"
| "bump k (Ask now) = k"

lemma streak_Cons: "streak k (e # es) = streak (bump k e) es"
  by (cases e) auto

lemma all_prefixes: "(\<forall>k. Q (take k (e # es))) \<longleftrightarrow> Q [] \<and> (\<forall>k. Q (e # take k es))"
proof (intro iffI allI conjI)
  assume *: "\<forall>k. Q (take k (e # es))"
  show "Q []" using *[rule_format, of 0] by simp
  show "Q (e # take k es)" for k using *[rule_format, of "Suc k"] by simp
next
  show "Q (take k (e # es))" if "Q [] \<and> (\<forall>k. Q (e # take k es))" for k
    using that by (cases k) simp_all
qed

lemma closed_run:
  "cb_state cb = CB_CLOSED \<Longrightarrow> failure_count cb < failure_threshold cb \<Longrightarrow>
     0 < failure_threshold cb \<Longrightarrow>
   (\<forall>k. closed (run cb_step (Some cb) (take k es))) \<longleftrightarrow>
   (\<forall>k. streak (failure_count cb) (take k es) < failure_threshold cb)"
proof (induction es arbitrary: cb)
  case Nil
  then show ?case by (simp add: closed_def)
next
  case (Cons e es)
  let ?n = "failure_count cb"
  let ?L = "\<forall>k. closed (run cb_step (cb_step (Some cb) e) (take k es))"
  let ?R = "\<forall>k. streak (bump ?n e) (take k es) < failure_threshold cb"
  have lhs: "(\<forall>k. closed (run cb_step (Some cb) (take k (e # es)))) \<longleftrightarrow> ?L"
    using Cons.prems(1) all_prefixes [of "\<lambda>xs. closed (run cb_step (Some cb) xs)" e es]
    by (simp add: closed_def [of "Some cb"])
  have rhs: "(\<forall>k. streak ?n (take k (e # es)) < failure_threshold cb) \<longleftrightarrow> ?R"
    using Cons.prems(2) all_prefixes [of "\<lambda>xs. streak ?n xs < failure_threshold cb" e es]
    by (simp add: streak_Cons [of ?n e])
  show ?case
  proof (cases "bump ?n e < failure_threshold cb")
    case False
    then have "\<not> closed (cb_step (Some cb) e)"
      using Cons.prems by (cases e) (auto simp: closed_def cb_ops)
    then have "\<not> ?L" by (auto intro!: exI [of _ 0])
    moreover have "\<not> ?R" using False by (auto intro!: exI [of _ 0])
    ultimately show ?thesis unfolding lhs rhs by blast
  next
    case True
    then obtain cb' where cb': "cb_step (Some cb) e = Some cb'" "cb_state cb' = CB_CLOSED"
      "failure_count cb' = bump ?n e" "failure_threshold cb' = failure_threshold cb"
      using Cons.prems by (cases e) (auto simp: cb_ops)
    then show ?thesis unfolding lhs rhs cb'(1)
      using Cons.IH [of cb'] True Cons.prems(3) by simp
  qed
qed

text \<open>
  C39: a fresh breaker lets requests through until \<open>threshold\<close> failures have come in a row,
  and no longer: it has stayed closed exactly when no prefix of the events ends in that many
  failures since the last success. Asking whether a request may proceed changes nothing.
\<close>

theorem breaker_trips_exactly:
  "(\<forall>k. closed (run cb_step (Some (cb_create threshold timeout)) (take k es))) \<longleftrightarrow>
   (\<forall>k. streak 0 (take k es) < (if threshold > 0 then threshold else 5))"
  using closed_run [of "cb_create threshold timeout" es] by (simp add: cb_create_def)

text \<open>
  An open breaker refuses every request before the cooldown has passed, however often it is
  asked, and lets the first one after it through as the probe. A success then closes it with a
  fresh count. A failure re-opens it only when the count has again reached the threshold:
  after a success that arrived late, during the cooldown, the count is zero, the breaker stays
  half open and every later request goes through.
\<close>

theorem breaker_cooldown:
  assumes "cb_state cb = CB_OPEN" and "list_all (\<lambda>now. now < opened_at_ms cb + half_open_timeout_ms cb) ts"
    and "opened_at_ms cb + half_open_timeout_ms cb \<le> t" and "1 < failure_threshold cb"
  shows "list_all (\<lambda>now. fst (cb_is_available now (run cb_step (Some cb) (map Ask ts))) = 0) ts \<and>
     fst (cb_is_available t (run cb_step (Some cb) (map Ask ts))) = 1 \<and>
     run cb_step (Some cb) (map Ask ts @ [Ask t, Succeed]) =
       Some (cb\<lparr>cb_state := CB_CLOSED, failure_count := 0\<rparr>) \<and>
     (failure_threshold cb \<le> failure_count cb + 1 \<longrightarrow>
       run cb_step (Some cb) (map Ask ts @ [Ask t, Fail f]) =
         Some (cb\<lparr>failure_count := failure_count cb + 1, opened_at_ms := f\<rparr>)) \<and>
     (\<exists>cb'. run cb_step (Some cb) (map Ask ts @ [Succeed, Ask t, Fail f]) = Some cb' \<and>
       cb_state cb' = CB_HALF_OPEN \<and> cb_is_available u (Some cb') = (1, Some cb'))"
proof -
  have "run cb_step (Some cb) (map Ask ts) = Some cb"
    using assms(1,2) by (induction ts) (simp_all add: cb_ops)
  with assms show ?thesis by (auto simp: run_append cb_ops list_all_iff)
qed

theorem breaker_cooldown_witness:
  "(\<exists>cb'. run cb_step (Some (cb_create 2 100))
       [Fail 10, Fail 20, Ask 50, Ask 119, Succeed, Ask 120, Fail 130] = Some cb' \<and>
       cb_state cb' = CB_HALF_OPEN) \<and>
   fst (cb_is_available 120
     (run cb_step (Some (cb_create 2 100)) [Fail 10, Fail 20, Ask 50, Ask 119])) = 1"
proof -
  let ?cb = "\<lparr>cb_state = CB_OPEN, failure_count = 2, failure_threshold = 2,
      half_open_timeout_ms = 100, opened_at_ms = 20\<rparr>"
  have start: "run cb_step (Some (cb_create 2 100)) [Fail 10, Fail 20] = Some ?cb"
    by (simp add: cb_create_def cb_ops)
  have "fst (cb_is_available 120 (run cb_step (Some ?cb) (map Ask [50, 119]))) = 1 \<and>
    (\<exists>cb'. run cb_step (Some ?cb) (map Ask [50, 119] @ [Succeed, Ask 120, Fail 130]) = Some cb' \<and>
       cb_state cb' = CB_HALF_OPEN)"
    using breaker_cooldown [of ?cb "[50, 119]" 120 130 0] by auto
  moreover have "run cb_step (Some (cb_create 2 100)) ([Fail 10, Fail 20] @ es) =
      run cb_step (Some ?cb) es" for es by (simp only: run_append start)
  ultimately show ?thesis by (simp add: cb_create_def cb_ops)
qed

end
