(* ===== verification/HttpRequest.thy ===== *)
theory HttpRequest
  imports CString
begin

text \<open>
  \<open>server/http_parse.c\<close> with the connection record of \<open>server/server_internal.h\<close> and the
  read loop of \<open>server/server.c\<close> (\<open>on_read\<close>): a request is parsed from the bytes received so
  far, again after every chunk. The fixed-size arrays of the record are strings here; the bounds
  that keep a copy inside its array are the code's own checks. The return codes are
  \<open>-1\<close> (malformed or too large), \<open>0\<close> (more bytes needed) and \<open>1\<close> (complete). Allocations
  are assumed to succeed.
\<close>

definition MAX_HTTP_HEADER_SIZE :: nat where "MAX_HTTP_HEADER_SIZE = 16384"
definition MAX_HTTP_BODY_SIZE :: nat where "MAX_HTTP_BODY_SIZE = 10485760"

record client =
  buf :: string
  buf_cap :: nat
  header_len :: nat
  req_method :: string
  req_path :: string
  req_query :: string
  req_headers :: string
  body :: cptr
  body_len :: nat
  content_length :: nat
  headers_done :: bool

definition new_client :: client where
  "new_client = \<lparr>buf = [], buf_cap = 0, header_len = 0, req_method = [], req_path = [],
     req_query = [], req_headers = [], body = None, body_len = 0, content_length = 0,
     headers_done = False\<rparr>"

section \<open>Content-Length\<close>

fun cl_digits :: "nat \<Rightarrow> string \<Rightarrow> (nat \<times> string) option" where
  "cl_digits parsed [] = Some (parsed, [])"
| "cl_digits parsed (c # cs) =
     (if is_digit c
      then let digit = byte c - 48
           in if parsed > (SIZE_MAX - digit) div 10 then None
              else cl_digits (parsed * 10 + digit) cs
      else Some (parsed, c # cs))"

text \<open>The value of a Content-Length line, from behind the colon.\<close>

definition cl_value :: "string \<Rightarrow> nat option" where
  "cl_value s =
     (let p = ltrim_by blank s
      in if p = [] then None
         else case cl_digits 0 p of None \<Rightarrow> None
              | Some (parsed, rest) \<Rightarrow>
                  if ltrim_by blank rest \<noteq> [] \<or> parsed > MAX_HTTP_BODY_SIZE then None
                  else Some parsed)"

datatype cl_line = Length "nat option" | Chunked | Other

definition cl_classify :: "string \<Rightarrow> cl_line" where
  "cl_classify line =
     (case memchr (CHR '':'') line of None \<Rightarrow> Other
      | Some name_len \<Rightarrow>
          if name_len = 14 \<and> lower (take name_len line) = lower ''Content-Length''
          then Length (cl_value (drop (name_len + 1) line))
          else if name_len = 17 \<and> lower (take name_len line) = lower ''Transfer-Encoding''
          then Chunked else Other)"

text \<open>
  One line after the other; \<open>rest\<close> is what is left from \<open>line\<close> to \<open>end\<close>. A last line
  without CRLF loses its final byte, as in the code.
\<close>

definition cl_line_end :: "string \<Rightarrow> nat" where
  "cl_line_end rest = (case strstr_at rest CRLF of Some k \<Rightarrow> k | None \<Rightarrow> length rest - 1)"

function cl_lines :: "string \<Rightarrow> bool \<Rightarrow> nat \<Rightarrow> nat option" where
  "cl_lines rest found v =
     (if rest = [] then Some v
      else
        let line_end = cl_line_end rest;
            go_on = (\<lambda>found v. if line_end + 1 \<ge> length rest then Some v
                              else cl_lines (drop (line_end + 2) rest) found v)
        in case cl_classify (take line_end rest) of
             Length r \<Rightarrow>
               if found then None
               else (case r of None \<Rightarrow> None | Some parsed \<Rightarrow> go_on True parsed)
           | Chunked \<Rightarrow> None
           | Other \<Rightarrow> go_on found v)"
  by pat_completeness auto
termination
  by (relation "measure (\<lambda>(rest, found, v). length rest)") auto

declare cl_lines.simps [simp del]

definition parse_content_length :: "string \<Rightarrow> nat option" where
  "parse_content_length headers = cl_lines headers False 0"

section \<open>The request line and the headers\<close>

text \<open>
  The part of \<open>parse_http\<close> that runs until the headers are there. \<open>Inl rc\<close> is an early
  return, with the fields already assigned; \<open>Inr\<close> goes on to the body.
\<close>

definition finish_headers :: "nat \<Rightarrow> client \<Rightarrow> int option \<times> client" where
  "finish_headers hl c =
     (let h = take hl (buf c); c' = c\<lparr>req_headers := h\<rparr>
      in case parse_content_length h of None \<Rightarrow> (Some (-1), c')
         | Some n \<Rightarrow> (None, c'\<lparr>content_length := n, header_len := hl, headers_done := True\<rparr>))"

definition parse_target :: "nat \<Rightarrow> string \<Rightarrow> client \<Rightarrow> int option \<times> client" where
  "parse_target hl target c =
     (case memchr (CHR ''?'') target of
        Some p_len \<Rightarrow>
          if p_len \<ge> 1024 then (Some (-1), c)
          else let c' = c\<lparr>req_path := take p_len target\<rparr>; q = drop (p_len + 1) target
               in if length q \<ge> 512 then (Some (-1), c')
                  else finish_headers hl (c'\<lparr>req_query := q\<rparr>)
      | None \<Rightarrow>
          if length target \<ge> 1024 then (Some (-1), c)
          else finish_headers hl (c\<lparr>req_path := target\<rparr>))"

definition parse_request_line :: "nat \<Rightarrow> nat \<Rightarrow> client \<Rightarrow> int option \<times> client" where
  "parse_request_line hl line_end c =
     (let data = buf c
      in case memchr SP (take line_end data) of None \<Rightarrow> (Some (-1), c)
         | Some method_len \<Rightarrow>
             let path_start = method_len + 1
             in case memchr SP (take (line_end - path_start) (drop path_start data)) of
                  None \<Rightarrow> (Some (-1), c)
                | Some path_len \<Rightarrow>
                    if method_len = 0 \<or> method_len \<ge> 16 then (Some (-1), c)
                    else parse_target hl (take path_len (drop path_start data))
                           (c\<lparr>req_method := take method_len data\<rparr>))"

definition parse_headers :: "client \<Rightarrow> int option \<times> client" where
  "parse_headers c =
     (let data = cstr (buf c)
      in case strstr_at data (CRLF @ CRLF) of
           None \<Rightarrow> (Some (if length (buf c) > MAX_HTTP_HEADER_SIZE then -1 else 0), c)
         | Some header_end \<Rightarrow>
             let hl = header_end + 4
             in if hl > MAX_HTTP_HEADER_SIZE \<or> hl \<ge> 4096 then (Some (-1), c)
                else case strstr_at data CRLF of None \<Rightarrow> (Some (-1), c)
                     | Some line_end \<Rightarrow>
                         if line_end > header_end then (Some (-1), c)
                         else parse_request_line hl line_end c)"

definition parse_body :: "client \<Rightarrow> int \<times> client" where
  "parse_body c =
     (let available = length (buf c) - header_len c
      in if available < content_length c then (0, c)
         else if content_length c > 0 \<and> body c = None
         then (1, c\<lparr>body := Some (take (content_length c) (drop (header_len c) (buf c))),
                    body_len := content_length c\<rparr>)
         else (1, c))"

definition parse_http :: "client \<Rightarrow> int \<times> client" where
  "parse_http c =
     (if headers_done c then parse_body c
      else case parse_headers c of (Some rc, c') \<Rightarrow> (rc, c') | (None, c') \<Rightarrow> parse_body c')"

section \<open>The buffer\<close>

text \<open>Doubling the capacity; it is never 0 here, and \<open>None\<close> is the overflow check.\<close>

function grow_cap :: "nat \<Rightarrow> nat \<Rightarrow> nat option" where
  "grow_cap cap needed =
     (if cap = 0 then None else if needed \<le> cap then Some cap
      else if cap > SIZE_MAX div 2 then None else grow_cap (cap * 2) needed)"
  by pat_completeness auto
termination
  by (relation "measure (\<lambda>(cap, needed). needed - cap)") auto

declare grow_cap.simps [simp del]

definition client_append :: "client \<Rightarrow> string \<Rightarrow> client option" where
  "client_append c data =
     (let len = length data; n = length (buf c)
      in if len > SIZE_MAX - n - 1 then None
         else let needed = n + len + 1
              in if needed > MAX_HTTP_HEADER_SIZE + MAX_HTTP_BODY_SIZE + 1 then None
                 else if needed > buf_cap c
                 then (case grow_cap (if buf_cap c = 0 then 4096 else buf_cap c) needed of
                         None \<Rightarrow> None
                       | Some cap \<Rightarrow> Some (c\<lparr>buf := buf c @ data, buf_cap := cap\<rparr>))
                 else Some (c\<lparr>buf := buf c @ data\<rparr>))"

text \<open>\<open>on_read\<close>: append, parse, and stop reading at an error or at the end of the request.\<close>

fun feed :: "client \<Rightarrow> string list \<Rightarrow> int \<times> client" where
  "feed c [] = (0, c)"
| "feed c (d # ds) =
     (case client_append c d of None \<Rightarrow> (-1, c)
      | Some c' \<Rightarrow>
          (case parse_http c' of (rc, c'') \<Rightarrow> if rc \<noteq> 0 then (rc, c'') else feed c'' ds))"

section \<open>Content-Length: what is accepted\<close>

definition dval :: "nat \<Rightarrow> string \<Rightarrow> nat" where
  "dval acc ds = foldl (\<lambda>a c. a * 10 + (byte c - 48)) acc ds"

lemma dval_simps [simp]: "dval acc [] = acc" "dval acc (c # cs) = dval (acc * 10 + (byte c - 48)) cs"
  by (simp_all add: dval_def)

lemma dval_ge: "acc \<le> dval acc ds"
proof (induction ds arbitrary: acc)
  case (Cons c cs)
  have "acc \<le> acc * 10 + (byte c - 48)" by simp
  also have "\<dots> \<le> dval \<dots> cs" by (rule Cons.IH)
  finally show ?case by simp
qed simp

lemma cl_digits_eq:
  "acc \<le> SIZE_MAX \<Longrightarrow> cl_digits acc s =
     (let v = dval acc (takeWhile is_digit s)
      in if v \<le> SIZE_MAX then Some (v, dropWhile is_digit s) else None)"
proof (induction s arbitrary: acc)
  case Nil
  then show ?case by simp
next
  case (Cons c cs)
  let ?d = "byte c - 48"
  show ?case
  proof (cases "is_digit c")
    case False
    with Cons.prems show ?thesis by simp
  next
    case True
    then have "?d \<le> 9" by (auto simp: is_digit_def)
    then have ov: "acc > (SIZE_MAX - ?d) div 10 \<longleftrightarrow> acc * 10 + ?d > SIZE_MAX"
      by (auto simp: div_less_iff_less_mult SIZE_MAX_def)
    show ?thesis
    proof (cases "acc * 10 + ?d > SIZE_MAX")
      case True
      then have "dval (acc * 10 + ?d) (takeWhile is_digit cs) > SIZE_MAX"
        using dval_ge order.strict_trans2 by blast
      with True ov \<open>is_digit c\<close> show ?thesis by simp
    next
      case False
      with ov \<open>is_digit c\<close> show ?thesis using Cons.IH [of "acc * 10 + ?d"] by (simp add: Let_def)
    qed
  qed
qed

lemma blank_not_digit: "blank c \<Longrightarrow> \<not> is_digit c"
  by (auto simp: blank_def is_digit_def)

lemma cl_value_Some:
  "cl_value s = Some n \<longleftrightarrow>
     (\<exists>a ds b. s = a @ ds @ b \<and> list_all blank a \<and> list_all blank b \<and> ds \<noteq> [] \<and>
        list_all is_digit ds \<and> dval 0 ds = n \<and> n \<le> MAX_HTTP_BODY_SIZE)"
  (is "?L \<longleftrightarrow> ?R")
proof
  assume ?L
  define p where "p = ltrim_by blank s"
  obtain a where a: "s = a @ p" "list_all blank a" using ltrim_split p_def by blast
  from \<open>?L\<close> have p: "p \<noteq> []" and len: "dval 0 (takeWhile is_digit p) = n" "n \<le> MAX_HTTP_BODY_SIZE"
    and rest: "list_all blank (dropWhile is_digit p)"
    by (auto simp: cl_value_def p_def [symmetric] Let_def cl_digits_eq ltrim_by_all split: if_splits)
  have "\<not> blank (hd p)" using p by (metis p_def ltrim_by_def hd_dropWhile)
  with rest p have "takeWhile is_digit p \<noteq> []" by (cases p) (auto split: if_splits)
  moreover have "list_all is_digit (takeWhile is_digit p)"
    by (auto simp: list_all_iff dest: set_takeWhileD)
  ultimately show ?R using a len rest by (metis takeWhile_dropWhile_id)
next
  assume ?R
  then obtain a ds b where s: "s = a @ ds @ b" "list_all blank a" "list_all blank b" "ds \<noteq> []"
    "list_all is_digit ds" "dval 0 ds = n" "n \<le> MAX_HTTP_BODY_SIZE" by blast
  have "\<not> blank (hd (ds @ b))" using s(4,5) blank_not_digit by (cases ds) auto
  then have p: "ltrim_by blank s = ds @ b" using s by (simp add: ltrim_by_append ltrim_by_stop)
  have b: "takeWhile is_digit b = []" "dropWhile is_digit b = b"
    using s(3) blank_not_digit by (cases b; auto)+
  have "takeWhile is_digit (ds @ b) = ds" "dropWhile is_digit (ds @ b) = b"
    using s(5) b by (simp_all add: takeWhile_append2 dropWhile_append2 list_all_iff)
  then show ?L using s p
    by (auto simp: cl_value_def Let_def cl_digits_eq ltrim_by_all MAX_HTTP_BODY_SIZE_def SIZE_MAX_def)
qed

text \<open>The header block as lines, each ended by CRLF.\<close>

definition header_block :: "string list \<Rightarrow> string" where
  "header_block ls = concat (map (\<lambda>l. l @ CRLF) ls)"

lemma cl_line_end_line:
  "CR \<notin> set l \<Longrightarrow> cl_line_end (l @ CRLF @ r) = length l"
proof -
  assume "CR \<notin> set l"
  then have "strstr_at (l @ CRLF @ r) CRLF = Some (length l)"
    by (induction l) auto
  then show ?thesis by (simp add: cl_line_end_def)
qed

fun cl_spec :: "cl_line list \<Rightarrow> bool \<Rightarrow> nat \<Rightarrow> nat option" where
  "cl_spec [] found v = Some v"
| "cl_spec (Length r # ls) found v =
     (if found then None else case r of None \<Rightarrow> None | Some n \<Rightarrow> cl_spec ls True n)"
| "cl_spec (Chunked # ls) found v = None"
| "cl_spec (Other # ls) found v = cl_spec ls found v"

lemma cl_lines_block:
  "list_all (\<lambda>l. CR \<notin> set l) ls \<Longrightarrow>
     cl_lines (header_block ls) found v = cl_spec (map cl_classify ls) found v"
proof (induction ls arbitrary: found v)
  case Nil
  show ?case by (simp add: header_block_def cl_lines.simps)
next
  case (Cons l ls)
  have eq: "header_block (l # ls) = l @ CRLF @ header_block ls" by (simp add: header_block_def)
  have le: "cl_line_end (header_block (l # ls)) = length l"
    using Cons.prems cl_line_end_line [of l "header_block ls"] by (simp add: eq)
  have more: "length l + 1 \<ge> length (header_block (l # ls)) \<longleftrightarrow> False" by (simp add: eq)
  have t: "take (length l) (header_block (l # ls)) = l"
    "drop (length l + 2) (header_block (l # ls)) = header_block ls" "header_block (l # ls) \<noteq> []"
    by (simp_all add: eq)
  show ?case
    using Cons by (subst cl_lines.simps)
      (simp add: Let_def le more t split: cl_line.split option.split del: One_nat_def add_2_eq_Suc')
qed

lemma cl_spec_Some:
  "cl_spec ls found v = Some n \<longleftrightarrow>
     Chunked \<notin> set ls \<and>
     (case filter (\<lambda>l. l \<noteq> Other) ls of [] \<Rightarrow> n = v
      | [l] \<Rightarrow> \<not> found \<and> l = Length (Some n) | _ \<Rightarrow> False)"
  by (induction ls found v rule: cl_spec.induct)
     (auto split: list.splits option.splits cl_line.splits)

text \<open>
  The body length of a header block is decided exactly: the block is accepted with length
  \<open>n\<close> if and only if no line is a Transfer-Encoding, and either no line is a Content-Length
  and \<open>n = 0\<close>, or exactly one is and its value is, between blanks, a non-empty run of digits of
  value \<open>n\<close>, at most the body limit. Two lengths, an overflow or trailing garbage are refused.
\<close>

theorem content_length_exact:
  assumes "list_all (\<lambda>l. CR \<notin> set l) ls"
  shows "(parse_content_length (header_block ls) = Some n \<longleftrightarrow>
     Chunked \<notin> set (map cl_classify ls) \<and>
     (case filter (\<lambda>l. l \<noteq> Other) (map cl_classify ls) of
        [] \<Rightarrow> n = 0 | [l] \<Rightarrow> l = Length (Some n) | _ \<Rightarrow> False)) \<and>
   (cl_value s = Some n \<longleftrightarrow>
     (\<exists>a ds b. s = a @ ds @ b \<and> list_all blank a \<and> list_all blank b \<and> ds \<noteq> [] \<and>
        list_all is_digit ds \<and> dval 0 ds = n \<and> n \<le> MAX_HTTP_BODY_SIZE))"
proof (rule conjI)
  show "parse_content_length (header_block ls) = Some n \<longleftrightarrow>
     Chunked \<notin> set (map cl_classify ls) \<and>
     (case filter (\<lambda>l. l \<noteq> Other) (map cl_classify ls) of
        [] \<Rightarrow> n = 0 | [l] \<Rightarrow> l = Length (Some n) | _ \<Rightarrow> False)"
    unfolding parse_content_length_def cl_lines_block [OF assms] cl_spec_Some
    by (auto split: list.split)
qed (rule cl_value_Some)

theorem content_length_exact_witness:
  "parse_content_length (header_block [''GET / HTTP/1.1'', ''content-length: 12 '', '''']) = Some 12"
proof -
  have "cl_value '' 12 '' = Some 12"
    by (simp add: cl_value_def ltrim_by_def blank_def is_digit_def SIZE_MAX_def
        MAX_HTTP_BODY_SIZE_def)
  moreover have "memchr (CHR '':'') ''content-length: 12 '' = Some 14"
    by (simp add: memchr_def eval_nat_numeral)
  moreover have "lower ''content-length'' = lower ''Content-Length''" by code_simp
  ultimately have "cl_classify ''content-length: 12 '' = Length (Some 12)"
    by (simp add: cl_classify_def)
  moreover have "cl_classify ''GET / HTTP/1.1'' = Other" "cl_classify '''' = Other"
    by (simp_all add: cl_classify_def memchr_def)
  ultimately show ?thesis
    using content_length_exact [of "[''GET / HTTP/1.1'', ''content-length: 12 '', '''']" 12 "'' 12 ''"]
    by simp
qed

section \<open>Parsing more bytes\<close>

definition grow :: "string \<Rightarrow> nat \<Rightarrow> client \<Rightarrow> client" where
  "grow x k c = c\<lparr>buf := buf c @ x, buf_cap := k\<rparr>"

lemma grow_sel [simp]:
  "buf (grow x k c) = buf c @ x" "headers_done (grow x k c) = headers_done c"
  "header_len (grow x k c) = header_len c" "content_length (grow x k c) = content_length c"
  "body (grow x k c) = body c" "req_method (grow x k c) = req_method c"
  "req_path (grow x k c) = req_path c" "req_query (grow x k c) = req_query c"
  "req_headers (grow x k c) = req_headers c"
  by (simp_all add: grow_def)

lemma finish_headers_grow:
  "hl \<le> length (buf c) \<Longrightarrow> finish_headers hl (grow x k c) = apsnd (grow x k) (finish_headers hl c)"
  by (simp add: finish_headers_def Let_def grow_def split: option.split)

lemma parse_target_grow:
  assumes "hl \<le> length (buf c)"
  shows "parse_target hl t (grow x k c) = apsnd (grow x k) (parse_target hl t c)"
proof -
  have a: "(grow x k c)\<lparr>req_path := p\<rparr> = grow x k (c\<lparr>req_path := p\<rparr>)"
    "(grow x k c)\<lparr>req_query := p\<rparr> = grow x k (c\<lparr>req_query := p\<rparr>)" for c p
    by (simp_all add: grow_def)
  from assms show ?thesis
    by (auto simp: parse_target_def Let_def a finish_headers_grow split: option.split)
qed

lemma memchr_take: "memchr x (take n s) = Some m \<Longrightarrow> m < n \<and> m < length s"
  by (auto simp: memchr_def dest: find_index_Some_length)

lemma parse_request_line_grow:
  assumes "hl \<le> length (buf c)" and "le \<le> length (buf c)"
  shows "parse_request_line hl le (grow x k c) = apsnd (grow x k) (parse_request_line hl le c)"
proof (cases "memchr SP (take le (buf c))")
  case None
  with assms(2) show ?thesis by (simp add: parse_request_line_def)
next
  case (Some m)
  then have m: "m + 1 \<le> le" using memchr_take by fastforce
  have t: "take (le - (m + 1)) (drop (m + 1) (buf c @ x)) = take (le - (m + 1)) (drop (m + 1) (buf c))"
    using m assms(2) by simp
  show ?thesis
  proof (cases "memchr SP (take (le - (m + 1)) (drop (m + 1) (buf c)))")
    case None
    with Some assms(2) t show ?thesis by (simp add: parse_request_line_def)
  next
    case (Some l)
    then have l: "l \<le> length (drop (m + 1) (buf c))" using memchr_take by fastforce
    have a: "(grow x k c)\<lparr>req_method := p\<rparr> = grow x k (c\<lparr>req_method := p\<rparr>)" for p
      by (simp add: grow_def)
    have b: "l - (length (buf c) - Suc m) = 0" "m - length (buf c) = 0" "Suc m - length (buf c) = 0"
      using l m assms(2) by simp_all
    show ?thesis
      using \<open>memchr SP (take le (buf c)) = Some m\<close> Some assms t b
      by (simp add: parse_request_line_def Let_def a parse_target_grow)
  qed
qed

lemma cstr_append: "\<exists>y. cstr (a @ b) = cstr a @ y"
  by (induction a) (auto simp: cstr_def)

lemma cstr_length: "length (cstr a) \<le> length a"
  by (simp add: cstr_def length_takeWhile_le)

definition has_headers :: "client \<Rightarrow> bool" where
  "has_headers c \<longleftrightarrow> strstr_at (cstr (buf c)) (CRLF @ CRLF) \<noteq> None"

lemma parse_headers_grow:
  assumes "has_headers c"
  shows "parse_headers (grow x k c) = apsnd (grow x k) (parse_headers c)"
proof -
  from assms obtain he where he: "strstr_at (cstr (buf c)) (CRLF @ CRLF) = Some he"
    by (auto simp: has_headers_def)
  then have hl: "he + 4 \<le> length (buf c)"
    using strstr_at_Some [OF he] cstr_length [of "buf c"] by simp
  have "prefix CRLF (drop he (cstr (buf c)))" using strstr_at_Some [OF he]
    by (metis append_prefixD)
  then obtain le where le: "strstr_at (cstr (buf c)) CRLF = Some le"
    using strstr_at_None [of "cstr (buf c)" CRLF] by fastforce
  then have "le \<le> length (buf c)"
    using strstr_at_Some [OF le] cstr_length [of "buf c"] by simp
  moreover obtain y where "cstr (buf c @ x) = cstr (buf c) @ y" using cstr_append by blast
  ultimately show ?thesis using he le hl
    by (simp add: parse_headers_def Let_def strstr_at_append parse_request_line_grow)
qed

lemma finish_headers_done:
  "finish_headers hl c = (r, d) \<Longrightarrow> headers_done d = (headers_done c \<or> r = None) \<and> buf d = buf c \<and>
     body d = body c \<and> r \<in> {None, Some (-1)} \<and> (r = None \<longrightarrow> header_len d = hl \<and> req_headers d = take hl (buf c)
       \<and> parse_content_length (take hl (buf c)) = Some (content_length d)) \<and>
     req_method d = req_method c \<and> req_path d = req_path c \<and> req_query d = req_query c"
  by (auto simp: finish_headers_def Let_def split: option.splits)

lemma parse_target_done:
  "parse_target hl t c = (r, d) \<Longrightarrow> headers_done d = (headers_done c \<or> r = None) \<and> buf d = buf c \<and>
     body d = body c \<and> r \<in> {None, Some (-1)} \<and> (r = None \<longrightarrow> header_len d = hl \<and> req_headers d = take hl (buf c)
       \<and> parse_content_length (take hl (buf c)) = Some (content_length d) \<and>
       length (req_path d) < 1024 \<and> (length (req_query c) < 512 \<longrightarrow> length (req_query d) < 512)) \<and>
     req_method d = req_method c"
  by (auto simp: parse_target_def Let_def split: option.splits if_splits dest!: finish_headers_done)

lemma parse_request_line_done:
  "parse_request_line hl le c = (r, d) \<Longrightarrow> headers_done d = (headers_done c \<or> r = None) \<and>
     buf d = buf c \<and> body d = body c \<and> r \<in> {None, Some (-1)} \<and>
     (r = None \<longrightarrow> header_len d = hl \<and> req_headers d = take hl (buf c) \<and>
       parse_content_length (take hl (buf c)) = Some (content_length d) \<and>
       length (req_method d) < 16 \<and> length (req_path d) < 1024 \<and>
       (length (req_query c) < 512 \<longrightarrow> length (req_query d) < 512))"
  by (auto simp: parse_request_line_def Let_def split: option.splits if_splits
      dest!: parse_target_done)

lemma parse_headers_done:
  assumes "parse_headers c = (r, d)"
  shows "buf d = buf c" and "body d = body c"
    and "headers_done d = (headers_done c \<or> r = None)"
    and "r \<in> {None, Some 0, Some (-1)}"
    and "r = Some 0 \<Longrightarrow> \<not> has_headers c \<and> length (buf c) \<le> MAX_HTTP_HEADER_SIZE \<and> d = c"
    and "r = None \<Longrightarrow> has_headers c \<and> header_len d \<le> length (buf c) \<and> header_len d < 4096 \<and>
       req_headers d = take (header_len d) (buf c) \<and>
       parse_content_length (take (header_len d) (buf c)) = Some (content_length d) \<and>
       length (req_method d) < 16 \<and> length (req_path d) < 1024 \<and>
       (length (req_query c) < 512 \<longrightarrow> length (req_query d) < 512)"
proof -
  have len: "he + 4 \<le> length (buf c)"
    if "strstr_at (cstr (buf c)) (CRLF @ CRLF) = Some he" for he
    using strstr_at_Some [OF that] cstr_length [of "buf c"] by simp
  note split = assms [unfolded parse_headers_def Let_def]
  show "buf d = buf c" "body d = body c" "headers_done d = (headers_done c \<or> r = None)"
    "r \<in> {None, Some 0, Some (-1)}"
    using split by (auto split: option.splits if_splits dest!: parse_request_line_done)
  show "\<not> has_headers c \<and> length (buf c) \<le> MAX_HTTP_HEADER_SIZE \<and> d = c" if "r = Some 0"
    using split that unfolding has_headers_def
    by (auto split: option.splits if_splits dest!: parse_request_line_done)
  show "has_headers c \<and> header_len d \<le> length (buf c) \<and> header_len d < 4096 \<and>
       req_headers d = take (header_len d) (buf c) \<and>
       parse_content_length (take (header_len d) (buf c)) = Some (content_length d) \<and>
       length (req_method d) < 16 \<and> length (req_path d) < 1024 \<and>
       (length (req_query c) < 512 \<longrightarrow> length (req_query d) < 512)" if "r = None"
    using split that len unfolding has_headers_def
    by (auto split: option.splits if_splits dest!: parse_request_line_done)
qed

section \<open>Any division into chunks\<close>

definition start :: "string \<Rightarrow> nat \<Rightarrow> client" where
  "start p k = new_client\<lparr>buf := p, buf_cap := k\<rparr>"

lemma start_sel [simp]:
  "buf (start p k) = p" "headers_done (start p k) = False" "body (start p k) = None"
  "req_query (start p k) = []"
  by (simp_all add: start_def new_client_def)

lemma grow_start [simp]: "grow x k (start p j) = start (p @ x) k"
  by (simp add: start_def grow_def)

lemma grow_grow [simp]: "grow y j (grow x k c) = grow (x @ y) j c"
  by (simp add: grow_def)

lemma parse_http_resume:
  assumes "parse_http (start p j) = (0, c)"
  shows "parse_http (grow x k c) = parse_http (start (p @ x) k)"
proof (cases "parse_headers (start p j)")
  case (Pair r d)
  note d = parse_headers_done [OF Pair]
  show ?thesis
  proof (cases r)
    case None
    with d(6) have "parse_headers (start (p @ x) k) = (None, grow x k d)"
      using Pair parse_headers_grow [of "start p j" x k] by simp
    moreover have "c = d" "headers_done c"
      using assms Pair None d(3) by (auto simp: parse_http_def parse_body_def Let_def split: if_splits)
    ultimately show ?thesis by (simp add: parse_http_def)
  next
    case (Some rc)
    with assms Pair have "rc = 0" "c = d" by (auto simp: parse_http_def)
    with d(5) Some show ?thesis by simp
  qed
qed

lemma strstr_at_later:
  assumes "strstr_at p n = None" and "strstr_at (p @ y) n = Some i"
  shows "length p < i + length n"
proof (rule ccontr)
  assume "\<not> length p < i + length n"
  then have len: "length n \<le> length (drop i p)" "i \<le> length p" by auto
  have "prefix n (drop i p @ y)" using strstr_at_Some [OF assms(2)] len(2) by simp
  then have "prefix n (drop i p)" using len(1) by (metis prefix_length_prefix prefixI)
  with assms(1) show False using strstr_at_None by blast
qed

lemma cstr_append_eq: "cstr (a @ b) = (if NUL \<in> set a then cstr a else a @ cstr b)"
  by (auto simp: cstr_def takeWhile_append)

lemma oversize_stays:
  assumes "\<not> has_headers (start p j)" and "length p > MAX_HTTP_HEADER_SIZE"
  shows "fst (parse_http (start (p @ x) k)) = -1"
proof (cases "strstr_at (cstr (p @ x)) (CRLF @ CRLF)")
  case None
  with assms(2) show ?thesis by (simp add: parse_http_def parse_headers_def)
next
  case (Some he)
  with assms(1) have "NUL \<notin> set p" by (auto simp: has_headers_def cstr_append_eq split: if_splits)
  with Some assms(1) have "length p < he + 4"
    using strstr_at_later [of p "CRLF @ CRLF" "cstr x" he]
    by (auto simp: has_headers_def cstr_append_eq cstr_id)
  with Some assms(2) show ?thesis by (simp add: parse_http_def parse_headers_def)
qed

lemma parse_http_failed:
  assumes "parse_http (start p j) = (-1, c)"
  shows "fst (parse_http (start (p @ x) k)) = -1"
proof (cases "parse_headers (start p j)")
  case (Pair r d)
  with assms have r: "r = Some (-1)"
    by (auto simp: parse_http_def parse_body_def Let_def split: option.splits if_splits)
  show ?thesis
  proof (cases "has_headers (start p j)")
    case True
    with Pair r show ?thesis
      using parse_headers_grow [of "start p j" x k] by (simp add: parse_http_def)
  next
    case False
    with Pair r have "length p > MAX_HTTP_HEADER_SIZE"
      by (auto simp: parse_headers_def has_headers_def split: if_splits)
    with False show ?thesis by (rule oversize_stays)
  qed
qed

lemma parse_body_grow:
  assumes "header_len d \<le> length (buf d)" and "parse_body d = (1, c)"
  shows "parse_body (grow x k d) = (1, grow x k c)"
proof -
  have av: "\<not> length (buf d) - header_len d < content_length d"
    and c: "c = (if content_length d > 0 \<and> body d = None
      then d\<lparr>body := Some (take (content_length d) (drop (header_len d) (buf d))),
             body_len := content_length d\<rparr> else d)"
    using assms(2) by (auto simp: parse_body_def Let_def split: if_splits)
  have "take (content_length d) (drop (header_len d) (buf d @ x)) =
      take (content_length d) (drop (header_len d) (buf d))"
    using av assms(1) by simp
  moreover have "\<not> length (buf d @ x) - header_len d < content_length d" using av assms(1) by simp
  ultimately show ?thesis unfolding c by (simp add: parse_body_def Let_def grow_def)
qed

lemma parse_http_complete:
  assumes "parse_http (start p j) = (1, c)"
  shows "parse_http (start (p @ x) k) = (1, grow x k c)"
proof (cases "parse_headers (start p j)")
  case (Pair r d)
  note d = parse_headers_done [OF Pair]
  with assms Pair have r: "r = None" and c: "parse_body d = (1, c)"
    by (auto simp: parse_http_def split: option.splits)
  then have "parse_headers (start (p @ x) k) = (None, grow x k d)"
    using Pair parse_headers_grow [of "start p j" x k] d(6) by simp
  moreover have "header_len d \<le> length (buf d)" using d(1,6) r by simp
  then have "parse_body (grow x k d) = (1, grow x k c)"
    using c by (rule parse_body_grow)
  ultimately show ?thesis by (simp add: parse_http_def)
qed

lemma parse_http_buf: "parse_http (start p j) = (r, c) \<Longrightarrow> buf c = p"
  by (auto simp: parse_http_def parse_body_def Let_def split: option.splits if_splits prod.splits
      dest: parse_headers_done(1))

lemma parse_http_rc: "parse_http (start p j) = (r, c) \<Longrightarrow> r \<in> {-1, 0, 1}"
  by (auto simp: parse_http_def parse_body_def Let_def split: option.splits if_splits prod.splits
      dest: parse_headers_done(4))

text \<open>What the request handler sees of a finished parse.\<close>

definition outcome :: "int \<times> client \<Rightarrow> int \<times> (string \<times> string \<times> string \<times> string \<times> cptr) option" where
  "outcome rc = (fst rc, if fst rc = 1
     then Some (req_method (snd rc), req_path (snd rc), req_query (snd rc), req_headers (snd rc),
                body (snd rc)) else None)"

lemma outcome_more:
  "fst (parse_http (start p j)) \<noteq> 0 \<Longrightarrow>
     outcome (parse_http (start (p @ x) k)) = outcome (parse_http (start p j))"
proof (cases "parse_http (start p j)")
  case (Pair r c)
  assume "fst (parse_http (start p j)) \<noteq> 0"
  with Pair parse_http_rc [OF Pair] consider "r = -1" | "r = 1" by auto
  then show ?thesis
  proof cases
    case 1
    with Pair parse_http_failed [of p j c x k] show ?thesis by (simp add: outcome_def)
  next
    case 2
    with Pair parse_http_complete [of p j c x k] show ?thesis by (simp add: outcome_def)
  qed
qed

lemma grow_cap_Some:
  "0 < cap \<Longrightarrow> needed \<le> SIZE_MAX div 2 \<Longrightarrow> \<exists>k. grow_cap cap needed = Some k \<and> needed \<le> k"
proof (induction cap needed rule: grow_cap.induct)
  case (1 cap needed)
  then show ?case by (subst grow_cap.simps) (auto simp: grow_cap.simps)
qed

lemma client_append_grow:
  assumes "length (buf c) + length d \<le> MAX_HTTP_HEADER_SIZE + MAX_HTTP_BODY_SIZE"
  shows "\<exists>k. client_append c d = Some (grow d k c)"
proof -
  have "length (buf c) + length d + 1 \<le> SIZE_MAX div 2" "\<not> length d > SIZE_MAX - length (buf c) - 1"
    using assms by (simp_all add: SIZE_MAX_def MAX_HTTP_HEADER_SIZE_def MAX_HTTP_BODY_SIZE_def)
  moreover have "0 < (if buf_cap c = 0 then 4096 else buf_cap c)" by simp
  with calculation(1) obtain k where
    "grow_cap (if buf_cap c = 0 then 4096 else buf_cap c) (length (buf c) + length d + 1) = Some k"
    using grow_cap_Some by blast
  moreover have "c\<lparr>buf := buf c @ d\<rparr> = grow d (buf_cap c) c" by (simp add: grow_def)
  moreover have "c\<lparr>buf := buf c @ d, buf_cap := k\<rparr> = grow d k c" for k by (simp add: grow_def)
  ultimately have "client_append c d =
      Some (grow d (if length (buf c) + length d + 1 > buf_cap c then k else buf_cap c) c)"
    using assms by (simp add: client_append_def Let_def)
  then show ?thesis by blast
qed

lemma feed_resume:
  "parse_http (start p j) = (0, c) \<Longrightarrow>
     length p + length (concat ds) \<le> MAX_HTTP_HEADER_SIZE + MAX_HTTP_BODY_SIZE \<Longrightarrow>
     outcome (feed c ds) = outcome (parse_http (start (p @ concat ds) 0))"
proof (induction ds arbitrary: p j c)
  case Nil
  have "fst (parse_http (start p 0)) = 0"
    using outcome_more [of p 0 "[]" j] Nil.prems(1) by (auto simp: outcome_def)
  then show ?case by (simp add: outcome_def)
next
  case (Cons d ds)
  obtain k where k: "client_append c d = Some (grow d k c)"
    using client_append_grow [of c d] Cons.prems(2) parse_http_buf [OF Cons.prems(1)] by auto
  obtain rc c' where c': "parse_http (start (p @ d) k) = (rc, c')" by fastforce
  then have step: "parse_http (grow d k c) = (rc, c')"
    using parse_http_resume [OF Cons.prems(1)] by simp
  show ?case
  proof (cases "rc = 0")
    case True
    with c' Cons.IH [of "p @ d" k c'] Cons.prems(2) show ?thesis by (simp add: k step)
  next
    case False
    then have "outcome (parse_http (start ((p @ d) @ concat ds) 0)) = outcome (rc, c')"
      using outcome_more [of "p @ d" k "concat ds" 0] c' by simp
    with False show ?thesis by (simp add: k step)
  qed
qed

text \<open>
  C1: how the network cuts the request into chunks does not matter: up to the size cap, reading
  chunk after chunk gives the outcome of parsing all the bytes at once, whether the request is
  complete (with the same method, path, query, headers and body), refused or still incomplete.
\<close>

theorem feed_chunks:
  assumes "length (concat ds) \<le> MAX_HTTP_HEADER_SIZE + MAX_HTTP_BODY_SIZE"
  shows "outcome (feed new_client ds) = outcome (parse_http (start (concat ds) 0))"
proof -
  have "parse_http (start [] 0) = (0, new_client)"
    by (simp add: parse_http_def parse_headers_def start_def new_client_def cstr_def)
  from feed_resume [OF this] assms show ?thesis by simp
qed

theorem feed_chunks_witness:
  "outcome (feed new_client [''GET /x?q HTTP/1.1'' @ [CR], [LF, CR], [LF] @ ''rest'']) =
     (1, Some (''GET'', ''/x'', ''q'', ''GET /x?q HTTP/1.1'' @ CRLF @ CRLF, None))"
proof -
  let ?ds = "[''GET /x?q HTTP/1.1'' @ [CR], [LF, CR], [LF] @ ''rest'']"
  have len: "length (concat ?ds) \<le> MAX_HTTP_HEADER_SIZE + MAX_HTTP_BODY_SIZE"
    by (simp add: MAX_HTTP_HEADER_SIZE_def)
  have "parse_content_length (''GET /x?q HTTP/1.1'' @ CRLF @ CRLF) = Some 0"
    by (simp add: parse_content_length_def cl_lines.simps cl_line_end_def cl_classify_def memchr_def)
  then have "outcome (parse_http (start (concat ?ds) 0)) =
      (1, Some (''GET'', ''/x'', ''q'', ''GET /x?q HTTP/1.1'' @ CRLF @ CRLF, None))"
    by (simp add: parse_http_def parse_headers_def cstr_def parse_request_line_def memchr_def
        parse_target_def finish_headers_def parse_body_def start_def new_client_def outcome_def
        MAX_HTTP_HEADER_SIZE_def Let_def)
  with feed_chunks [OF len] show ?thesis by simp
qed

text \<open>
  A complete request fits the fixed arrays of the connection record and is exactly what
  was sent: the copied parts are shorter than their arrays, the headers are the first
  \<open>header_len\<close> bytes of the buffer, and the body is the \<open>content_length\<close> bytes after them.
\<close>

theorem parse_http_fits:
  assumes "parse_http (start p j) = (1, c)"
  shows "length (req_method c) < 16 \<and> length (req_path c) < 1024 \<and> length (req_query c) < 512 \<and>
     length (req_headers c) < 4096 \<and> req_headers c = take (header_len c) p \<and>
     parse_content_length (req_headers c) = Some (content_length c) \<and>
     header_len c + content_length c \<le> length p \<and>
     body c = (if content_length c = 0 then None
               else Some (take (content_length c) (drop (header_len c) p)))"
proof (cases "parse_headers (start p j)")
  case (Pair r d)
  note d = parse_headers_done [OF Pair]
  with assms Pair have r: "r = None" and c: "parse_body d = (1, c)"
    by (auto simp: parse_http_def split: option.splits)
  note h = d(6) [OF r]
  from c have av: "\<not> length (buf d) - header_len d < content_length d"
    and c': "c = (if content_length d > 0 \<and> body d = None
      then d\<lparr>body := Some (take (content_length d) (drop (header_len d) (buf d))),
             body_len := content_length d\<rparr> else d)"
    by (auto simp: parse_body_def Let_def split: if_splits)
  from h av d(1,2) show ?thesis unfolding c' by auto
qed

theorem parse_http_fits_witness:
  "\<exists>c. parse_http (start (''A / B'' @ CRLF @ CRLF) 0) = (1, c) \<and> length (req_method c) < 16"
proof -
  have "parse_content_length (''A / B'' @ CRLF @ CRLF) = Some 0"
    by (simp add: parse_content_length_def cl_lines.simps cl_line_end_def cl_classify_def memchr_def)
  then have "fst (parse_http (start (''A / B'' @ CRLF @ CRLF) 0)) = 1"
    by (simp add: parse_http_def parse_headers_def cstr_def parse_request_line_def memchr_def
        parse_target_def finish_headers_def parse_body_def start_def new_client_def
        MAX_HTTP_HEADER_SIZE_def Let_def)
  then obtain c where "parse_http (start (''A / B'' @ CRLF @ CRLF) 0) = (1, c)"
    by (metis prod.collapse)
  with parse_http_fits [OF this] show ?thesis by blast
qed

end
