(* ===== verification/Middleware.thy ===== *)
theory Middleware
  imports HttpRequest
begin

text \<open>
  \<open>server/middleware.c\<close>: who may call an unlock-gated route. The comparison of equally long
  byte strings is \<open>CRYPTO_memcmp\<close> of OpenSSL, a parameter whose documented behaviour (zero
  exactly for equal strings) is the locale \<open>const_time_compare\<close>. Header blocks and queries
  are C strings; a NULL pointer is \<open>None\<close>.
\<close>

section \<open>Comparing tokens\<close>

locale const_time_compare =
  fixes crypto_memcmp :: "string \<Rightarrow> string \<Rightarrow> int"
  assumes memcmp_zero: "length a = length b \<Longrightarrow> crypto_memcmp a b = 0 \<longleftrightarrow> a = b"

definition token_equals :: "(string \<Rightarrow> string \<Rightarrow> int) \<Rightarrow> cptr \<Rightarrow> cptr \<Rightarrow> bool" where
  "token_equals cmp a b =
     (case (a, b) of
        (Some x, Some y) \<Rightarrow> if length x \<noteq> length y then False else cmp x y = 0
      | _ \<Rightarrow> False)"

context const_time_compare begin

lemma token_equals_eq: "token_equals crypto_memcmp a b \<longleftrightarrow> a \<noteq> None \<and> a = b"
  by (auto simp: token_equals_def memcmp_zero split: option.splits)

end

text \<open>The difference of the first unequal bytes is such a comparison.\<close>

fun byte_compare :: "string \<Rightarrow> string \<Rightarrow> int" where
  "byte_compare (c # cs) (d # ds) =
     (if c = d then byte_compare cs ds else int (byte c) - int (byte d))"
| "byte_compare [] [] = 0"
| "byte_compare _ _ = 1"

lemma byte_compare_zero: "byte_compare a b = 0 \<longleftrightarrow> a = b"
  by (induction a b rule: byte_compare.induct) auto

interpretation byte_cmp: const_time_compare byte_compare
  by unfold_locales (rule byte_compare_zero)

section \<open>Header lines\<close>

text \<open>One line, without its newline: the value if the name matches.\<close>

definition field_value :: "string \<Rightarrow> string \<Rightarrow> cptr" where
  "field_value name raw =
     (let line = (if raw \<noteq> [] \<and> last raw = CR then butlast raw else raw)
      in case memchr (CHR '':'') line of None \<Rightarrow> None
         | Some k \<Rightarrow>
             if k = length name \<and> lower (take k line) = lower name
             then Some (trim_by blank (drop (k + 1) line)) else None)"

function header_value :: "string \<Rightarrow> string \<Rightarrow> cptr" where
  "header_value line name =
     (if line = [] then None
      else case find_index (\<lambda>c. c = LF) line of
             None \<Rightarrow> field_value name line
           | Some newline \<Rightarrow>
               (case field_value name (take newline line) of
                  Some v \<Rightarrow> Some v
                | None \<Rightarrow> header_value (drop (newline + 1) line) name))"
  by pat_completeness auto
termination
  by (relation "measure (\<lambda>(line, name). length line)") auto

declare header_value.simps [simp del]

definition middleware_has_valid_token ::
  "(string \<Rightarrow> string \<Rightarrow> int) \<Rightarrow> cptr \<Rightarrow> cptr \<Rightarrow> bool" where
  "middleware_has_valid_token cmp headers token =
     (case (headers, token) of
        (Some h, Some t) \<Rightarrow>
          (case header_value h ''X-Unlock-Token'' of None \<Rightarrow> False
           | Some v \<Rightarrow> token_equals cmp (Some v) (Some t))
      | _ \<Rightarrow> False)"

section \<open>Comma-separated items\<close>

text \<open>
  The loop over the items of a protocol list, shared by \<open>middleware_has_valid_ws_token\<close> and
  \<open>ws_protocol_offered\<close>: skip blanks and commas, take up to the next comma, drop trailing
  blanks. The last item may be empty.
\<close>

function list_items :: "string \<Rightarrow> string list" where
  "list_items rest =
     (if rest = [] then []
      else let item = dropWhile (\<lambda>c. blank c \<or> c = CHR '','') rest
           in rtrim_by blank (takeWhile (\<lambda>c. c \<noteq> CHR '','') item) #
              list_items (dropWhile (\<lambda>c. c \<noteq> CHR '','') item))"
  by pat_completeness auto
termination
proof (relation "measure length", simp)
  fix rest item :: string
  assume "rest \<noteq> []" and item: "item = dropWhile (\<lambda>c. blank c \<or> c = CHR '','') rest"
  have le: "length item \<le> length rest" unfolding item by (rule length_dropWhile_le)
  show "(dropWhile (\<lambda>c. c \<noteq> CHR '','') item, rest) \<in> measure length"
  proof (cases item)
    case Nil
    with \<open>rest \<noteq> []\<close> show ?thesis by simp
  next
    case (Cons c cs)
    then have "c \<noteq> CHR '',''"
      using item hd_dropWhile [of "\<lambda>c. blank c \<or> c = CHR '',''" rest] by auto
    then have "length (dropWhile (\<lambda>c. c \<noteq> CHR '','') item) < length item"
      using Cons length_dropWhile_le [of _ cs] by (simp add: le_imp_less_Suc)
    with le show ?thesis by simp
  qed
qed

declare list_items.simps [simp del]

definition ws_token_prefix :: string where "ws_token_prefix = ''echo-ai-token-''"

definition middleware_has_valid_ws_token ::
  "(string \<Rightarrow> string \<Rightarrow> int) \<Rightarrow> cptr \<Rightarrow> cptr \<Rightarrow> bool" where
  "middleware_has_valid_ws_token cmp headers token =
     (case (headers, token) of
        (Some h, Some t) \<Rightarrow>
          (case header_value h ''Sec-WebSocket-Protocol'' of None \<Rightarrow> False
           | Some v \<Rightarrow>
               list_ex (\<lambda>item. length item \<ge> length ws_token_prefix \<and>
                  take (length ws_token_prefix) item = ws_token_prefix \<and>
                  token_equals cmp (Some (drop (length ws_token_prefix) item)) (Some t))
                 (list_items v))
      | _ \<Rightarrow> False)"

section \<open>The gates\<close>

datatype server_state = STATE_LOCKED | STATE_SETUP | STATE_UNLOCKED

record http_request =
  r_method :: string
  r_path :: string
  r_query :: string
  r_headers :: string
  r_body :: cptr
  r_ip :: string

record server_context =
  server_state :: server_state
  unlock_token :: cptr

definition middleware_check_unlock ::
  "(string \<Rightarrow> string \<Rightarrow> int) \<Rightarrow> http_request \<Rightarrow> server_context \<Rightarrow> bool" where
  "middleware_check_unlock cmp req ctx =
     (if server_state ctx = STATE_UNLOCKED \<and> unlock_token ctx \<noteq> None
      then (if unlock_token ctx = Some ''noop'' then True
            else middleware_has_valid_token cmp (Some (r_headers req)) (unlock_token ctx))
      else False)"

definition middleware_check_unlock_query ::
  "(string \<Rightarrow> string \<Rightarrow> int) \<Rightarrow> http_request option \<Rightarrow> server_context option \<Rightarrow> bool" where
  "middleware_check_unlock_query cmp req ctx =
     (case (req, ctx) of
        (Some r, Some x) \<Rightarrow>
          if server_state x \<noteq> STATE_UNLOCKED \<or> unlock_token x = None then False
          else if unlock_token x = Some ''noop'' then True
          else if r_query r = [] then False
          else (case strstr_at (r_query r) ''token='' of None \<Rightarrow> False
                | Some k \<Rightarrow>
                    let p = takeWhile (\<lambda>c. c \<noteq> CHR ''&'') (drop (k + 6) (r_query r))
                    in if length p = 0 then False
                       else token_equals cmp (Some p) (unlock_token x))
      | _ \<Rightarrow> False)"

section \<open>Which requests get through\<close>

text \<open>Header lines as a client writes them: name, colon, blank, value, CRLF.\<close>

definition field_line :: "string \<times> string \<Rightarrow> string" where
  "field_line f = fst f @ '': '' @ snd f"

definition field_ok :: "string \<times> string \<Rightarrow> bool" where
  "field_ok f \<longleftrightarrow> CHR '':'' \<notin> set (fst f) \<and> LF \<notin> set (fst f) \<and> LF \<notin> set (snd f) \<and> trim_by blank (snd f) = snd f"

definition lookup_field :: "string \<Rightarrow> (string \<times> string) list \<Rightarrow> cptr" where
  "lookup_field name fs = map_option snd (find (\<lambda>f. lower (fst f) = lower name) fs)"

lemma memchr_skip: "c \<notin> set a \<Longrightarrow> memchr c (a @ c # b) = Some (length a)"
  by (induction a) (auto simp: memchr_def)

lemma trim_by_blank_Cons: "trim_by blank (SP # v) = trim_by blank v"
  by (simp add: trim_by_def ltrim_by_def blank_def)

lemma lower_length_eq: "lower a = lower b \<Longrightarrow> length a = length b"
  by (metis length_lower)

lemma field_value_CR:
  "field_value name (line @ [CR]) =
     (case memchr (CHR '':'') line of None \<Rightarrow> None
      | Some k \<Rightarrow> if k = length name \<and> lower (take k line) = lower name
                then Some (trim_by blank (drop (k + 1) line)) else None)"
  by (simp add: field_value_def)

lemma field_value_line:
  assumes "field_ok f"
  shows "field_value name (field_line f @ [CR]) = (if lower (fst f) = lower name then Some (snd f) else None)"
proof -
  have "memchr (CHR '':'') (field_line f) = Some (length (fst f))"
    using assms memchr_skip [of "CHR '':''" "fst f" "SP # snd f"] by (simp add: field_line_def field_ok_def)
  then have "field_value name (field_line f @ [CR]) =
      (if length (fst f) = length name \<and> lower (take (length (fst f)) (field_line f)) = lower name
       then Some (trim_by blank (drop (length (fst f) + 1) (field_line f))) else None)"
    by (simp only: field_value_CR option.case)
  also have "take (length (fst f)) (field_line f) = fst f" by (simp add: field_line_def)
  also have "trim_by blank (drop (length (fst f) + 1) (field_line f)) = snd f"
    using assms by (simp add: field_line_def field_ok_def trim_by_blank_Cons)
  finally show ?thesis by (auto dest: lower_length_eq)
qed

lemma find_LF: "LF \<notin> set l \<Longrightarrow> find_index (\<lambda>c. c = LF) (l @ LF # r) = Some (length l)"
  by (induction l) auto

lemma header_value_step:
  assumes "LF \<notin> set l"
  shows "header_value (l @ CRLF @ r) name =
     (case field_value name (l @ [CR]) of Some v \<Rightarrow> Some v | None \<Rightarrow> header_value r name)"
proof -
  have "find_index (\<lambda>c. c = LF) (l @ CRLF @ r) = Some (length (l @ [CR]))"
    using find_LF [of "l @ [CR]" r] assms by simp
  then show ?thesis by (subst header_value.simps) (simp split: option.split)
qed

lemma header_value_fields:
  assumes "list_all field_ok fs"
  shows "header_value (concat (map (\<lambda>f. field_line f @ CRLF) fs) @ CRLF) name = lookup_field name fs"
  using assms
proof (induction fs)
  case Nil
  have "field_value name [CR] = None" by (simp add: field_value_def memchr_def)
  then show ?case
    using header_value_step [of "[]" "[]" name]
    by (simp add: lookup_field_def header_value.simps [of "[]"])
next
  case (Cons f fs)
  then have "LF \<notin> set (field_line f)" by (auto simp: field_ok_def field_line_def)
  from header_value_step [OF this, of "concat (map (\<lambda>f. field_line f @ CRLF) fs) @ CRLF" name] Cons
  show ?case by (simp add: field_value_line lookup_field_def)
qed

text \<open>The request line has a blank before its first colon, so that it is no header.\<close>

lemma to_lower_SP:
  assumes "to_lower c = SP" shows "c = SP"
proof (cases "is_upper c")
  case True
  then have "byte (to_lower c) = byte c + 32" by (simp add: to_lower_def is_upper_def)
  with assms True show ?thesis by (simp add: is_upper_def)
next
  case False
  with assms show ?thesis by (simp add: to_lower_def)
qed

lemma field_value_request_line:
  assumes "SP \<in> set (takeWhile (\<lambda>c. c \<noteq> CHR '':'') l)" and "SP \<notin> set name"
  shows "field_value name (l @ [CR]) = None"
proof (cases "memchr (CHR '':'') l")
  case None
  then show ?thesis by (simp add: field_value_def)
next
  case (Some k)
  then have "take k l = takeWhile (\<lambda>c. c \<noteq> CHR '':'') l"
    using find_index_takeWhile [of "\<lambda>d. d = CHR '':''" l k] by (simp add: memchr_def)
  then have sp: "SP \<in> set (take k l)" using assms(1) by simp
  have "lower (take k l) \<noteq> lower name"
  proof
    assume eq: "lower (take k l) = lower name"
    have "to_lower SP \<in> to_lower ` set (take k l)" using sp by (rule imageI)
    also have "\<dots> = to_lower ` set name" using eq by (metis lower_def list.set_map)
    finally obtain c where "c \<in> set name" "to_lower c = to_lower SP" by (metis imageE)
    moreover have "to_lower SP = SP" by (simp add: to_lower_def is_upper_def)
    ultimately show False using assms(2) to_lower_SP by metis
  qed
  with Some show ?thesis by (simp add: field_value_def)
qed

definition request_head :: "string \<Rightarrow> (string \<times> string) list \<Rightarrow> string" where
  "request_head l fs = l @ CRLF @ concat (map (\<lambda>f. field_line f @ CRLF) fs) @ CRLF"

lemma header_value_head:
  assumes "LF \<notin> set l" and "SP \<in> set (takeWhile (\<lambda>c. c \<noteq> CHR '':'') l)" and "list_all field_ok fs"
    and "SP \<notin> set name"
  shows "header_value (request_head l fs) name = lookup_field name fs"
  using assms header_value_step [OF assms(1)] field_value_request_line [OF assms(2,4)]
    header_value_fields [OF assms(3)]
  by (simp add: request_head_def)

text \<open>
  What counts as a header of any text whatever: a line, without the one carriage return it may end
  with, whose part before the first colon is the name in any case; the value is the rest without the
  blanks around it.
\<close>

definition is_field :: "string \<Rightarrow> string \<Rightarrow> string \<Rightarrow> bool" where
  "is_field name line v \<longleftrightarrow>
     (\<exists>n x. (line = n @ '':'' @ x @ [CR] \<or> line = n @ '':'' @ x \<and> (x = [] \<or> last x \<noteq> CR)) \<and>
        CHR '':'' \<notin> set n \<and> lower n = lower name \<and> v = trim_by blank x)"

text \<open>The value of the first such line.\<close>

definition first_field :: "string \<Rightarrow> string list \<Rightarrow> string \<Rightarrow> bool" where
  "first_field name ls v \<longleftrightarrow>
     (\<exists>before l rest. ls = before @ l # rest \<and> is_field name l v \<and> (\<forall>b \<in> set before. \<forall>u. \<not> is_field name b u))"

lemma field_value_iff: "field_value name line = Some v \<longleftrightarrow> is_field name line v"
proof -
  define t where "t = (if line \<noteq> [] \<and> last line = CR then butlast line else line)"
  have stripped: "t = n @ '':'' @ x \<longleftrightarrow>
      line = n @ '':'' @ x @ [CR] \<or> line = n @ '':'' @ x \<and> (x = [] \<or> last x \<noteq> CR)" for n x
  proof (cases "line \<noteq> [] \<and> last line = CR")
    case True
    then have l: "line = t @ [CR]" by (simp add: t_def) (metis append_butlast_last_id)
    have "\<not> (line = n @ '':'' @ x \<and> (x = [] \<or> last x \<noteq> CR))"
    proof
      assume a: "line = n @ '':'' @ x \<and> (x = [] \<or> last x \<noteq> CR)"
      then have "last line \<noteq> CR" by (cases "x = []") simp_all
      with True show False by simp
    qed
    with l show ?thesis by auto
  next
    case False
    then have "t = line" by (auto simp: t_def)
    with False show ?thesis by auto
  qed
  have f: "field_value name line = (case memchr (CHR '':'') t of None \<Rightarrow> None
      | Some k \<Rightarrow> if k = length name \<and> lower (take k t) = lower name
                then Some (trim_by blank (drop (k + 1) t)) else None)"
    unfolding field_value_def t_def Let_def ..
  have "field_value name line = Some v \<longleftrightarrow>
      (\<exists>k. memchr (CHR '':'') t = Some k \<and> lower (take k t) = lower name \<and> v = trim_by blank (drop (k + 1) t))"
  proof (cases "memchr (CHR '':'') t")
    case None
    then show ?thesis unfolding f by simp
  next
    case (Some k)
    then have "k < length t" by (auto simp: memchr_def dest: find_index_Some_length)
    then have "lower (take k t) = lower name \<Longrightarrow> k = length name" by (auto dest: lower_length_eq)
    then have "(k = length name \<and> lower (take k t) = lower name) = (lower (take k t) = lower name)" by blast
    then show ?thesis unfolding f using Some by (simp add: eq_commute [of v])
  qed
  also have "\<dots> \<longleftrightarrow> (\<exists>n x. t = n @ '':'' @ x \<and> CHR '':'' \<notin> set n \<and> lower n = lower name \<and> v = trim_by blank x)"
  proof
    assume "\<exists>k. memchr (CHR '':'') t = Some k \<and> lower (take k t) = lower name \<and> v = trim_by blank (drop (k + 1) t)"
    then obtain k where k: "memchr (CHR '':'') t = Some k" "lower (take k t) = lower name"
      "v = trim_by blank (drop (k + 1) t)" by blast
    have f: "k < length t" "t ! k = CHR '':''" "\<forall>c \<in> set (take k t). c \<noteq> CHR '':''"
      using find_index_Some [OF k(1) [unfolded memchr_def]] by auto
    have "t = take k t @ '':'' @ drop (k + 1) t" using id_take_nth_drop [OF f(1)] f(2) by simp
    with k f(3) show "\<exists>n x. t = n @ '':'' @ x \<and> CHR '':'' \<notin> set n \<and> lower n = lower name \<and> v = trim_by blank x"
      by blast
  next
    assume "\<exists>n x. t = n @ '':'' @ x \<and> CHR '':'' \<notin> set n \<and> lower n = lower name \<and> v = trim_by blank x"
    then obtain n x where n: "t = n @ '':'' @ x" "CHR '':'' \<notin> set n" "lower n = lower name" "v = trim_by blank x"
      by blast
    then show "\<exists>k. memchr (CHR '':'') t = Some k \<and> lower (take k t) = lower name \<and> v = trim_by blank (drop (k + 1) t)"
      using memchr_skip [of "CHR '':''" n x] by (intro exI [of _ "length n"]) simp
  qed
  finally show ?thesis unfolding stripped is_field_def .
qed

lemma first_field_Cons:
  "first_field name (l # ls) v \<longleftrightarrow> is_field name l v \<or> (\<forall>u. \<not> is_field name l u) \<and> first_field name ls v"
proof
  assume "first_field name (l # ls) v"
  then obtain before m rest where f: "l # ls = before @ m # rest" "is_field name m v"
    "\<forall>b \<in> set before. \<forall>u. \<not> is_field name b u" unfolding first_field_def by blast
  then show "is_field name l v \<or> (\<forall>u. \<not> is_field name l u) \<and> first_field name ls v"
    unfolding first_field_def by (cases before) auto
next
  assume "is_field name l v \<or> (\<forall>u. \<not> is_field name l u) \<and> first_field name ls v"
  then show "first_field name (l # ls) v"
  proof
    assume "is_field name l v"
    then show ?thesis unfolding first_field_def by (intro exI [of _ "[]"] exI [of _ l] exI [of _ ls]) simp
  next
    assume r: "(\<forall>u. \<not> is_field name l u) \<and> first_field name ls v"
    then obtain before m rest where "ls = before @ m # rest" "is_field name m v"
      "\<forall>b \<in> set before. \<forall>u. \<not> is_field name b u" unfolding first_field_def by blast
    with r show ?thesis unfolding first_field_def by (intro exI [of _ "l # before"]) auto
  qed
qed

lemma field_unique: "is_field name l u \<Longrightarrow> is_field name l v \<Longrightarrow> u = v"
  using field_value_iff [of name l] by (metis option.inject)

lemma header_value_lines: "header_value h name = Some v \<longleftrightarrow> first_field name (split_on LF h) v"
proof (induction h name rule: header_value.induct)
  case (1 line name)
  have no: "\<not> first_field name [] v" by (simp add: first_field_def)
  show ?case
  proof (cases "find_index (\<lambda>c. c = LF) line")
    case None
    then have "LF \<notin> set line" by (auto simp: find_index_None)
    moreover have "\<not> is_field name [] v" by (simp add: is_field_def)
    ultimately show ?thesis
      using None no
      by (cases "line = []")
        (simp_all add: header_value.simps [of line] header_value.simps [of "[]"] split_on_single first_field_Cons field_value_iff)
  next
    case (Some k)
    then have "line \<noteq> []" by auto
    from find_index_Some [OF Some] have f: "k < length line" "line ! k = LF" "LF \<notin> set (take k line)" by auto
    have "line = take k line @ LF # drop (k + 1) line" using id_take_nth_drop [OF f(1)] f(2) by simp
    then have sp: "split_on LF line = take k line # split_on LF (drop (k + 1) line)"
      using split_on_step [OF f(3)] by metis
    show ?thesis
    proof (cases "field_value name (take k line)")
      case None
      then have "\<not> is_field name (take k line) u" for u using field_value_iff [of name "take k line" u] by simp
      then show ?thesis
        using 1 [OF \<open>line \<noteq> []\<close> Some None] Some None \<open>line \<noteq> []\<close>
        by (simp add: header_value.simps [of line] sp first_field_Cons)
    next
      case (Some u)
      then have "is_field name (take k line) u" by (simp add: field_value_iff)
      then show ?thesis
        using Some \<open>find_index (\<lambda>c. c = LF) line = Some k\<close> \<open>line \<noteq> []\<close> field_unique
        by (auto simp: header_value.simps [of line] sp first_field_Cons)
    qed
  qed
qed

text \<open>
  C32: the unlock gate opens for exactly these requests, whatever the text of their headers: the
  server is unlocked and holds a token, and either the token is the marker \<open>noop\<close>, or among the
  lines of the text the first that is an X-Unlock-Token header (the name in any case, with or without
  blanks around the value, with or without a carriage return at the end of the line) has exactly the
  token as its value.
\<close>

theorem unlock_gate:
  assumes "const_time_compare cmp"
  shows "middleware_check_unlock cmp req ctx \<longleftrightarrow>
     server_state ctx = STATE_UNLOCKED \<and>
     (\<exists>t. unlock_token ctx = Some t \<and>
        (t = ''noop'' \<or> first_field ''X-Unlock-Token'' (split_on LF (r_headers req)) t))"
  by (auto simp: middleware_check_unlock_def middleware_has_valid_token_def header_value_lines [symmetric]
      const_time_compare.token_equals_eq [OF assms] split: option.splits)

definition sample_request :: "string \<Rightarrow> string \<Rightarrow> http_request" where
  "sample_request h q = \<lparr>r_method = ''GET'', r_path = ''/x'', r_query = q, r_headers = h,
     r_body = None, r_ip = ''::1''\<rparr>"

theorem unlock_gate_witness:
  "middleware_check_unlock byte_compare
     (sample_request (''GET /x HTTP/1.1'' @ [CR, LF] @ ''Host'' @ [LF] @ ''x-unlock-token:s3cret'' @ [LF]) [])
     \<lparr>server_state = STATE_UNLOCKED, unlock_token = Some ''s3cret''\<rparr>"
proof -
  have "header_value (''GET /x HTTP/1.1'' @ [CR, LF] @ ''Host'' @ [LF] @ ''x-unlock-token:s3cret'' @ [LF]) ''X-Unlock-Token''
      = Some ''s3cret''" by code_simp
  then show ?thesis
    by (subst unlock_gate [OF byte_cmp.const_time_compare_axioms]) (simp add: sample_request_def header_value_lines)
qed

section \<open>Protocol lists and query parameters\<close>

definition item_ok :: "string \<Rightarrow> bool" where
  "item_ok i \<longleftrightarrow> i \<noteq> [] \<and> CHR '','' \<notin> set i \<and> \<not> blank (hd i) \<and> \<not> blank (last i)"

fun comma_list :: "string list \<Rightarrow> string" where
  "comma_list [] = []"
| "comma_list [i] = i"
| "comma_list (i # j # is) = i @ '', '' @ comma_list (j # is)"

lemma list_items_seps:
  "blank c \<or> c = CHR '','' \<Longrightarrow> s \<noteq> [] \<Longrightarrow> list_items (c # s) = list_items s"
  by (subst (1 2) list_items.simps) auto

lemma dropWhile_item: "item_ok i \<Longrightarrow> dropWhile (\<lambda>c. blank c \<or> c = CHR '','') (i @ r) = i @ r"
  by (cases i) (auto simp: item_ok_def)

lemma takeWhile_item:
  assumes "item_ok i"
  shows "takeWhile (\<lambda>c. c \<noteq> CHR '','') (i @ CHR '','' # r) = i"
    and "dropWhile (\<lambda>c. c \<noteq> CHR '','') (i @ CHR '','' # r) = CHR '','' # r"
    and "takeWhile (\<lambda>c. c \<noteq> CHR '','') i = i" and "dropWhile (\<lambda>c. c \<noteq> CHR '','') i = []"
proof -
  have ok: "c \<in> set i \<Longrightarrow> c \<noteq> CHR '',''" for c using assms by (auto simp: item_ok_def)
  show "takeWhile (\<lambda>c. c \<noteq> CHR '','') (i @ CHR '','' # r) = i"
    "dropWhile (\<lambda>c. c \<noteq> CHR '','') (i @ CHR '','' # r) = CHR '','' # r"
    using ok by (simp_all add: takeWhile_append2 dropWhile_append2)
  show "takeWhile (\<lambda>c. c \<noteq> CHR '','') i = i" "dropWhile (\<lambda>c. c \<noteq> CHR '','') i = []"
    using ok by (simp_all add: takeWhile_eq_all_conv dropWhile_eq_Nil_conv)
qed

lemma list_items_single: "item_ok i \<Longrightarrow> list_items i = [i]"
  using dropWhile_item [of i "[]"]
  by (subst list_items.simps)
     (simp add: takeWhile_item list_items.simps [of "[]"] item_ok_def rtrim_by_id)

lemma list_items_comma_list: "list_all item_ok is \<Longrightarrow> list_items (comma_list is) = is"
proof (induction "is" rule: comma_list.induct)
  case 1
  show ?case by (simp add: list_items.simps)
next
  case (2 i)
  then show ?case by (simp add: list_items_single)
next
  case (3 i j "is")
  let ?r = "comma_list (j # is)"
  have i: "item_ok i" and ne: "?r \<noteq> []"
    using 3 by (cases "is"; simp add: item_ok_def)+
  have "list_items (i @ CHR '','' # SP # ?r) = i # list_items (CHR '','' # SP # ?r)"
    using i dropWhile_item [OF i, of "CHR '','' # SP # ?r"]
    by (subst list_items.simps) (simp add: takeWhile_item rtrim_by_id item_ok_def)
  also have "list_items (CHR '','' # SP # ?r) = list_items ?r"
    using ne by (simp add: list_items_seps blank_def)
  finally show ?case using 3 by simp
qed

text \<open>
  A web socket is let in exactly when the protocol list of its first
  Sec-WebSocket-Protocol header offers the item made of the fixed prefix and the token; the
  parts of a longer or shorter item never match.
\<close>

theorem ws_gate:
  assumes "const_time_compare cmp" and "LF \<notin> set l"
    and "SP \<in> set (takeWhile (\<lambda>c. c \<noteq> CHR '':'') l)" and "list_all field_ok fs"
    and "lookup_field ''Sec-WebSocket-Protocol'' fs = Some (comma_list items)"
    and "list_all item_ok items"
  shows "middleware_has_valid_ws_token cmp (Some (request_head l fs)) (Some t) \<longleftrightarrow>
     (ws_token_prefix @ t) \<in> set items"
proof -
  have v: "header_value (request_head l fs) ''Sec-WebSocket-Protocol'' = Some (comma_list items)"
    using header_value_head [OF assms(2-4), of "''Sec-WebSocket-Protocol''"] assms(5) by simp
  have item: "(length i \<ge> n \<and> take n i = p \<and> drop n i = t) \<longleftrightarrow> i = p @ t" if "n = length p"
    for i p :: string and n using that by (metis append_eq_conv_conj le_add1 length_append append_take_drop_id)
  show ?thesis
    by (simp add: middleware_has_valid_ws_token_def v list_items_comma_list [OF assms(6)]
        const_time_compare.token_equals_eq [OF assms(1)] item list_ex_iff)
qed

text \<open>
  The token parameter of a query is found by searching for \<open>token=\<close> anywhere: when the
  text before the first such place does not matter, the gate compares what follows up to the
  next ampersand; it therefore opens for a differently named parameter that ends in
  \<open>token=\<close>, and stays shut when such a parameter comes before the right one.
\<close>

theorem query_gate:
  assumes "const_time_compare cmp" and "strstr_at (a @ ''token='') ''token='' = Some (length a)"
    and "CHR ''&'' \<notin> set v" and "r_query req = a @ ''token='' @ v @ rest"
    and "rest = [] \<or> hd rest = CHR ''&''"
    and "server_state ctx = STATE_UNLOCKED" and "unlock_token ctx = Some t" and "t \<noteq> ''noop''"
    and "t \<noteq> []"
  shows "middleware_check_unlock_query cmp (Some req) (Some ctx) \<longleftrightarrow> v = t"
proof -
  have "strstr_at (r_query req) ''token='' = Some (length a)"
    using strstr_at_append [OF assms(2), of "v @ rest"] assms(4) by simp
  moreover have "takeWhile (\<lambda>c. c \<noteq> CHR ''&'') (v @ rest) = v"
    using assms(3,5) by (cases rest) (auto simp: takeWhile_append)
  moreover have "drop (length a + 6) (r_query req) = v @ rest"
    unfolding assms(4) by simp
  ultimately show ?thesis using assms(4,6-9)
    by (auto simp: middleware_check_unlock_query_def Let_def
        const_time_compare.token_equals_eq [OF assms(1)])
qed

theorem ws_gate_witness:
  "middleware_has_valid_ws_token byte_compare
     (Some (request_head ''GET /ws HTTP/1.1'' [(''Sec-WebSocket-Protocol'', ''echo-ai, echo-ai-token-k'')]))
     (Some ''k'')"
proof -
  let ?fs = "[(''Sec-WebSocket-Protocol'', ''echo-ai, echo-ai-token-k'')]"
  let ?is = "[''echo-ai'', ''echo-ai-token-k'']"
  have "list_all field_ok ?fs" "list_all item_ok ?is"
    by (simp_all add: field_ok_def item_ok_def trim_by_def ltrim_by_def rtrim_by_def blank_def)
  then show ?thesis
    using ws_gate [OF byte_cmp.const_time_compare_axioms, of "''GET /ws HTTP/1.1''" ?fs ?is "''k''"]
    by (simp add: lookup_field_def ws_token_prefix_def)
qed

theorem query_gate_witness:
  "middleware_check_unlock_query byte_compare (Some (sample_request [] ''csrf_token=k&token=x''))
     (Some \<lparr>server_state = STATE_UNLOCKED, unlock_token = Some ''k''\<rparr>) \<and>
   \<not> middleware_check_unlock_query byte_compare (Some (sample_request [] ''csrf_token=x&token=k''))
     (Some \<lparr>server_state = STATE_UNLOCKED, unlock_token = Some ''k''\<rparr>)"
proof -
  have s: "strstr_at (''csrf_'' @ ''token='') ''token='' = Some (length ''csrf_'')" by simp
  show ?thesis
    using query_gate [OF byte_cmp.const_time_compare_axioms s, of "''k''"
        "sample_request [] ''csrf_token=k&token=x''" "''&token=x''" _ "''k''"]
      query_gate [OF byte_cmp.const_time_compare_axioms s, of "''x''"
        "sample_request [] ''csrf_token=x&token=k''" "''&token=k''" _ "''k''"]
    by (simp add: sample_request_def)
qed

end
