(* ===== verification/WebSocket.thy ===== *)
theory WebSocket
  imports Middleware
begin

text \<open>
  \<open>server/websocket.c\<close>: frames of RFC 6455, the read callback, the handshake. Wire bytes are
  \<open>8 word\<close>; header and handshake text are strings. What the layer does to the outside (bytes
  queued on the socket, the message and close callbacks, the timer, the teardown of the
  connection) is the list of events it returns; \<open>write_ok\<close> says whether libuv accepts a
  write. A payload length is built from at most eight bytes, so that the \<open>uint64_t\<close> of the
  code does not wrap and is a natural number here. Allocations are assumed to succeed.
\<close>

section \<open>Connection state and effects\<close>

record ws_client =
  has_handle :: bool
  on_message :: bool
  on_close :: bool
  timer_on :: bool
  last_pong :: int

datatype ws_event =
    Queued "u8 list"
  | Message "u8 list"
  | CloseCallback
  | ClientClose

section \<open>Sending\<close>

definition byte_of :: "nat \<Rightarrow> u8" where "byte_of n = word_of_nat n"

text \<open>\<open>0\<close> or \<open>-1\<close>, with what is queued.\<close>

definition uv_write :: "bool \<Rightarrow> u8 list \<Rightarrow> int \<times> ws_event list" where
  "uv_write write_ok frame = (if write_ok then (0, [Queued frame]) else (-1, []))"

definition ws_send_control ::
  "bool \<Rightarrow> ws_client option \<Rightarrow> u8 \<Rightarrow> u8 list \<Rightarrow> int \<times> ws_event list" where
  "ws_send_control write_ok ws opcode payload =
     (case ws of None \<Rightarrow> (-1, [])
      | Some w \<Rightarrow>
          if \<not> has_handle w \<or> length payload > 125 then (-1, [])
          else uv_write write_ok ((0x80 OR opcode) # byte_of (length payload) # payload))"

text \<open>The length bytes of \<open>ws_send\<close>, most significant first.\<close>

fun be_bytes :: "nat \<Rightarrow> nat \<Rightarrow> u8 list" where
  "be_bytes 0 n = []"
| "be_bytes (Suc k) n = byte_of (n div 256 ^ k) # be_bytes k n"

definition ws_text_frame :: "u8 list \<Rightarrow> u8 list" where
  "ws_text_frame data =
     (let len = length data
      in 0x81 #
         (if len \<le> 125 then [byte_of len]
          else if len \<le> 65535 then 126 # be_bytes 2 len
          else 127 # be_bytes 8 len) @ data)"

definition ws_send :: "bool \<Rightarrow> ws_client option \<Rightarrow> u8 list \<Rightarrow> int \<times> ws_event list" where
  "ws_send write_ok ws data =
     (case ws of None \<Rightarrow> (-1, [])
      | Some w \<Rightarrow>
          if \<not> has_handle w then (-1, [])
          else let header_size = (2 :: nat) + (if length data > 125 then 2 else 0)
                                 + (if length data > 65535 then 8 else 0)
               in if length data > SIZE_MAX - header_size then (-1, [])
                  else uv_write write_ok (ws_text_frame data))"

definition ws_send_close :: "bool \<Rightarrow> ws_client option \<Rightarrow> 16 word \<Rightarrow> int \<times> ws_event list" where
  "ws_send_close write_ok ws code =
     ws_send_control write_ok ws 0x8 [ucast (drop_bit 8 code), ucast (code AND 0xFF)]"

section \<open>The frame header\<close>

record frame_header =
  opcode :: u8
  masked :: bool
  payload_len :: nat
  mask_key :: "u8 list"

text \<open>\<open>*payload_len = (*payload_len << 8) | data[*pos + i]\<close>\<close>

fun be_from :: "nat \<Rightarrow> u8 list \<Rightarrow> nat" where
  "be_from acc [] = acc"
| "be_from acc (b # bs) = be_from (acc * 256 + unat b) bs"

definition be_value :: "u8 list \<Rightarrow> nat" where
  "be_value bs = be_from 0 bs"

text \<open>
  \<open>data\<close> are the bytes from \<open>*pos\<close> on; the result is the header and what follows it, or
  \<open>None\<close> when the buffer ends inside the header.
\<close>

definition ws_extended_len :: "nat \<Rightarrow> u8 list \<Rightarrow> (nat \<times> u8 list) option" where
  "ws_extended_len len7 data =
     (if len7 = 126 then (if length data < 2 then None else Some (be_value (take 2 data), drop 2 data))
      else if len7 = 127
      then (if length data < 8 then None else Some (be_value (take 8 data), drop 8 data))
      else Some (len7, data))"

definition ws_frame_header :: "u8 list \<Rightarrow> (frame_header \<times> u8 list) option" where
  "ws_frame_header data =
     (case data of
        first # second # rest \<Rightarrow>
          let op = first AND 0x0F; m = (second AND 0x80 \<noteq> 0)
          in (case ws_extended_len (unat (second AND 0x7F)) rest of
                None \<Rightarrow> None
              | Some (len, rest') \<Rightarrow>
                  if m then
                    (if length rest' < 4 then None
                     else Some (\<lparr>opcode = op, masked = True, payload_len = len,
                                 mask_key = take 4 rest'\<rparr>, drop 4 rest'))
                  else Some (\<lparr>opcode = op, masked = False, payload_len = len, mask_key = []\<rparr>,
                             rest'))
      | _ \<Rightarrow> None)"

text \<open>\<open>payload[i] ^= mask_key[i % 4]\<close>\<close>

definition xor_mask :: "u8 list \<Rightarrow> u8 list \<Rightarrow> u8 list" where
  "xor_mask key payload = map (\<lambda>i. payload ! i XOR key ! (i mod 4)) [0..<length payload]"

section \<open>Reading\<close>

definition fire_close :: "ws_client \<Rightarrow> ws_event list \<times> ws_client" where
  "fire_close ws =
     (let ws' = ws\<lparr>timer_on := False\<rparr>
      in if on_close ws' then ([CloseCallback], ws'\<lparr>on_close := False\<rparr>) else ([], ws'))"

lemma ws_extended_len_le: "ws_extended_len n data = Some (len, rest) \<Longrightarrow> length rest \<le> length data"
  by (auto simp: ws_extended_len_def split: if_splits)

lemma ws_frame_header_le: "ws_frame_header data = Some (h, rest) \<Longrightarrow> length rest < length data"
  by (auto simp: ws_frame_header_def Let_def split: list.splits option.splits if_splits
      dest!: ws_extended_len_le)

text \<open>The loop over the bytes of one read.\<close>

function ws_read_frames ::
  "bool \<Rightarrow> int \<Rightarrow> ws_client \<Rightarrow> u8 list \<Rightarrow> ws_event list \<times> ws_client" where
  "ws_read_frames write_ok now ws data =
     (if data = [] then ([], ws)
      else case ws_frame_header data of
             None \<Rightarrow> ([], ws)
           | Some (h, rest) \<Rightarrow>
               if length rest < payload_len h then ([], ws)
               else if opcode h = 0x8 then fire_close ws
               else if opcode h = 0x9
               then (snd (ws_send_control write_ok (Some ws) 0xA (take (payload_len h) rest)), ws)
               else if opcode h = 0xA then ([], ws\<lparr>last_pong := now\<rparr>)
               else let after = drop (payload_len h) rest
                    in if opcode h = 0x1 \<or> opcode h = 0x2
                       then let raw = take (payload_len h) rest;
                                payload = (if masked h then xor_mask (mask_key h) raw else raw);
                                (es, ws') = ws_read_frames write_ok now ws after
                            in ((if on_message ws then [Message payload] else []) @ es, ws')
                       else ws_read_frames write_ok now ws after)"
  by pat_completeness auto
termination
  by (relation "measure (\<lambda>(w, now, ws, data). length data)") (auto dest!: ws_frame_header_le)

declare ws_read_frames.simps [simp del]

text \<open>
  The libuv callback: \<open>Inl ()\<close> is a read error or the end of the stream, after which the
  connection is closed.
\<close>

definition ws_read_cb ::
  "bool \<Rightarrow> int \<Rightarrow> ws_client option \<Rightarrow> unit + u8 list \<Rightarrow> ws_event list \<times> ws_client option" where
  "ws_read_cb write_ok now ws nread =
     (case ws of None \<Rightarrow> ([], None)
      | Some w \<Rightarrow>
          (case nread of
             Inl _ \<Rightarrow> (case fire_close w of (es, w') \<Rightarrow> (es @ [ClientClose], Some w'))
           | Inr data \<Rightarrow>
               (case ws_read_frames write_ok now w data of (es, w') \<Rightarrow> (es, Some w'))))"

definition ws_ping_timer_cb :: "bool \<Rightarrow> ws_client option \<Rightarrow> ws_event list" where
  "ws_ping_timer_cb write_ok ws = snd (ws_send_control write_ok ws 0x9 [])"

definition ws_start_ping_timer :: "bool \<Rightarrow> int \<Rightarrow> ws_client \<Rightarrow> int \<times> ws_client" where
  "ws_start_ping_timer init_ok now ws =
     (let ws' = ws\<lparr>last_pong := now\<rparr>
      in if init_ok then (0, ws'\<lparr>timer_on := True\<rparr>) else (-1, ws'))"

section \<open>The handshake\<close>

text \<open>The first Sec-WebSocket-Protocol line decides.\<close>

definition ws_protocol_line :: "string \<Rightarrow> string \<Rightarrow> bool option" where
  "ws_protocol_line line protocol =
     (let name = ''Sec-WebSocket-Protocol:''
      in if length line \<ge> length name \<and> lower (take (length name) line) = lower name
         then Some (protocol \<in> set (list_items (drop (length name) line))) else None)"

function ws_protocol_offered :: "string \<Rightarrow> string \<Rightarrow> bool" where
  "ws_protocol_offered line protocol =
     (if line = [] then False
      else case strstr_at line CRLF of
             None \<Rightarrow> ws_protocol_line line protocol = Some True
           | Some k \<Rightarrow>
               (case ws_protocol_line (take k line) protocol of
                  Some r \<Rightarrow> r
                | None \<Rightarrow> ws_protocol_offered (drop (k + 2) line) protocol))"
  by pat_completeness auto
termination
  by (relation "measure (\<lambda>(line, p). length line)") auto

declare ws_protocol_offered.simps [simp del]

definition WS_MAGIC :: string where "WS_MAGIC = ''258EAFA5-E914-47DA-95CA-C5AB0DC85B11''"

text \<open>The key of the request: what follows the header name, up to the end of the line.\<close>

definition ws_key :: "string \<Rightarrow> string option" where
  "ws_key h =
     (case (case strstr_at h ''Sec-WebSocket-Key:'' of
              None \<Rightarrow> strstr_at h ''sec-websocket-key:'' | Some k \<Rightarrow> Some k) of
        None \<Rightarrow> None
      | Some k \<Rightarrow>
          Some (takeWhile (\<lambda>c. c \<noteq> CR \<and> c \<noteq> LF) (dropWhile (\<lambda>c. c = SP) (drop (k + 18) h))))"

text \<open>
  The response, with the SHA-1 digest and the base64 encoder of OpenSSL as parameters;
  \<open>None\<close> is the return of \<open>-1\<close> before anything is written.
\<close>

definition ws_handshake_response ::
  "(string \<Rightarrow> string) \<Rightarrow> (string \<Rightarrow> string) \<Rightarrow> string \<Rightarrow> string option" where
  "ws_handshake_response sha1 encode_block headers =
     (case ws_key headers of None \<Rightarrow> None
      | Some key \<Rightarrow>
          let combined = key @ WS_MAGIC
          in if length combined \<ge> 256 then None
             else let b64 = encode_block (sha1 combined)
                  in if b64 = [] then None
                     else let accept = rtrim_by (\<lambda>c. c = LF \<or> c = CR) b64;
                              proto = (if ws_protocol_offered headers ''echo-ai''
                                       then ''Sec-WebSocket-Protocol: echo-ai'' @ CRLF else [])
                          in Some (''HTTP/1.1 101 Switching Protocols'' @ CRLF @
                                   ''Upgrade: websocket'' @ CRLF @
                                   ''Connection: Upgrade'' @ CRLF @ proto @
                                   ''Sec-WebSocket-Accept: '' @ accept @ CRLF @ CRLF))"

text \<open>
  The upgrade: the response that was queued, and the new connection with its callbacks set by
  \<open>routes_ws_chat_init\<close>.
\<close>

definition ws_do_handshake ::
  "(string \<Rightarrow> string) \<Rightarrow> (string \<Rightarrow> string) \<Rightarrow> bool \<Rightarrow> bool \<Rightarrow> int \<Rightarrow> string
     \<Rightarrow> int \<times> (string \<times> ws_client) option" where
  "ws_do_handshake sha1 encode_block write_ok init_ok now headers =
     (case ws_handshake_response sha1 encode_block headers of
        None \<Rightarrow> (-1, None)
      | Some resp \<Rightarrow>
          if \<not> write_ok then (-1, None)
          else (0, Some (resp, snd (ws_start_ping_timer init_ok now
                  \<lparr>has_handle = True, on_message = True, on_close = True, timer_on = False,
                   last_pong = 0\<rparr>))))"

section \<open>Frames as the peers write them\<close>

text \<open>The frame of RFC 6455: final, one opcode, the length, the mask key of a client, the payload.\<close>

definition frame_len :: "u8 \<Rightarrow> nat \<Rightarrow> u8 list" where
  "frame_len m len =
     (if len \<le> 125 then [m OR byte_of len]
      else if len \<le> 65535 then (m OR 126) # be_bytes 2 len
      else (m OR 127) # be_bytes 8 len)"

definition client_frame :: "u8 \<Rightarrow> u8 list \<Rightarrow> u8 list \<Rightarrow> u8 list" where
  "client_frame op key payload =
     (0x80 OR op) # frame_len 0x80 (length payload) @ key @ xor_mask key payload"

lemma unat_byte_of [simp]: "unat (byte_of n) = n mod 256"
  by (simp add: byte_of_def unat_of_nat)

lemma length_be_bytes [simp]: "length (be_bytes k n) = k"
  by (induction k) auto

lemma be_from_bytes: "be_from acc (be_bytes k n) = acc * 256 ^ k + n mod 256 ^ k"
proof (induction k arbitrary: acc)
  case 0
  then show ?case by simp
next
  case (Suc k)
  have "n mod 256 ^ Suc k = 256 ^ k * (n div 256 ^ k mod 256) + n mod 256 ^ k"
    using mod_mult2_eq [of n "256 ^ k" 256] by (simp add: mult.commute)
  then show ?case by (simp add: Suc.IH algebra_simps)
qed

lemma be_value_be_bytes: "n < 256 ^ k \<Longrightarrow> be_value (be_bytes k n) = n"
  by (simp add: be_value_def be_from_bytes)

lemma low7: "w < 128 \<Longrightarrow> (w :: u8) AND 0x7F = w"
proof -
  assume "w < 128"
  then have "unat w < 2 ^ 7" by (simp add: word_less_nat_alt)
  then have "unat (take_bit 7 w) = unat w" by (simp add: unsigned_take_bit_eq take_bit_nat_eq_self)
  then have "take_bit 7 w = w" by (simp add: word_unat_eq_iff)
  then show ?thesis by (simp add: take_bit_eq_mask mask_eq_exp_minus_1)
qed

lemma high_bit_clear: "w < 128 \<Longrightarrow> (w :: u8) AND 0x80 = 0"
proof -
  assume "w < 128"
  then have "w AND 0x80 = w AND (0x7F AND 0x80)" by (simp only: low7 and.assoc [symmetric])
  then show ?thesis by simp
qed

lemma masked_len_byte:
  assumes "w < 128"
  shows "((0x80 :: u8) OR w) AND 0x7F = w" and "((0x80 :: u8) OR w) AND 0x80 \<noteq> 0"
proof -
  have "((0x80 :: u8) OR w) AND 0x7F = (0x80 AND 0x7F) OR (w AND 0x7F)"
    by (rule bit.conj_disj_distrib2)
  then show "((0x80 :: u8) OR w) AND 0x7F = w" using assms by (simp add: low7)
  have "((0x80 :: u8) OR w) AND 0x80 = (0x80 AND 0x80) OR (w AND 0x80)"
    by (rule bit.conj_disj_distrib2)
  then show "((0x80 :: u8) OR w) AND 0x80 \<noteq> 0" using assms by (simp add: high_bit_clear)
qed

lemma byte_of_small: "n \<le> 127 \<Longrightarrow> byte_of n < 128"
  by (simp add: word_less_nat_alt)

lemma low4:
  assumes "op < 16" shows "((0x80 :: u8) OR op) AND 0x0F = op"
proof -
  have "unat op < 2 ^ 4" using assms by (simp add: word_less_nat_alt)
  then have "unat (take_bit 4 op) = unat op" by (simp add: unsigned_take_bit_eq take_bit_nat_eq_self)
  then have "op AND 0x0F = op" by (simp add: word_unat_eq_iff take_bit_eq_mask mask_eq_exp_minus_1)
  moreover have "((0x80 :: u8) OR op) AND 0x0F = (0x80 AND 0x0F) OR (op AND 0x0F)"
    by (rule bit.conj_disj_distrib2)
  ultimately show ?thesis by simp
qed

lemma ws_extended_len_frame:
  assumes "m \<in> {0, 0x80}" and "len < 2 ^ 64"
  obtains s ext where "frame_len m len = s # ext"
    and "ws_extended_len (unat (s AND 0x7F)) (ext @ rest) = Some (len, rest)"
    and "(s AND 0x80 \<noteq> 0) = (m = 0x80)"
proof -
  have code: "\<exists>s. s = m OR w \<and> s AND 0x7F = w \<and> (s AND 0x80 \<noteq> 0) = (m = 0x80)" if "w < 128" for w
    using assms(1) that masked_len_byte low7 high_bit_clear by auto
  show thesis
  proof (cases "len \<le> 125")
    case True
    then have "byte_of len < 128" by (simp add: byte_of_small)
    with True code [of "byte_of len"] show thesis
      by (intro that [of "m OR byte_of len" "[]"]) (auto simp: frame_len_def ws_extended_len_def)
  next
    case False
    show thesis
    proof (cases "len \<le> 65535")
      case True
      with False code [of 126] show thesis
        by (intro that [of "m OR 126" "be_bytes 2 len"])
           (auto simp: frame_len_def ws_extended_len_def be_value_be_bytes)
    next
      case large: False
      have "be_value (be_bytes 8 len) = len" using assms(2) by (intro be_value_be_bytes) simp
      with large code [of 127] show thesis
        by (intro that [of "m OR 127" "be_bytes 8 len"]) (auto simp: frame_len_def ws_extended_len_def)
    qed
  qed
qed

lemma length_xor_mask [simp]: "length (xor_mask key p) = length p"
  by (simp add: xor_mask_def)

lemma xor_mask_twice: "xor_mask key (xor_mask key p) = p"
  by (rule nth_equalityI) (simp_all add: xor_mask_def xor.assoc)

lemma ws_header_client:
  assumes "op < 16" and "length key = 4" and "length p < 2 ^ 64"
  shows "ws_frame_header (client_frame op key p @ post) =
     Some (\<lparr>opcode = op, masked = True, payload_len = length p, mask_key = key\<rparr>,
           xor_mask key p @ post)"
proof -
  obtain s ext where s: "frame_len 0x80 (length p) = s # ext"
    "ws_extended_len (unat (s AND 0x7F)) (ext @ key @ xor_mask key p @ post) =
       Some (length p, key @ xor_mask key p @ post)" "s AND 0x80 \<noteq> 0"
    using ws_extended_len_frame [of "0x80" "length p" "key @ xor_mask key p @ post"] assms(3) by auto
  then show ?thesis using assms(1,2) by (simp add: client_frame_def ws_frame_header_def low4)
qed

lemma ws_text_frame_len: "ws_text_frame data = 0x81 # frame_len 0 (length data) @ data"
  by (simp add: ws_text_frame_def frame_len_def Let_def)

lemma ws_header_server:
  assumes "length data < 2 ^ 64"
  shows "ws_frame_header (ws_text_frame data @ post) =
     Some (\<lparr>opcode = 1, masked = False, payload_len = length data, mask_key = []\<rparr>, data @ post)"
proof -
  obtain s ext where s: "frame_len 0 (length data) = s # ext"
    "ws_extended_len (unat (s AND 0x7F)) (ext @ data @ post) = Some (length data, data @ post)"
    "s AND 0x80 = 0"
    using ws_extended_len_frame [of 0 "length data" "data @ post"] assms by auto
  then show ?thesis by (simp add: ws_text_frame_len ws_frame_header_def)
qed

text \<open>The reader of one unmasked text frame, as a client of the server does it.\<close>

definition text_payload :: "u8 list \<Rightarrow> u8 list option" where
  "text_payload frame =
     (case ws_frame_header frame of None \<Rightarrow> None
      | Some (h, rest) \<Rightarrow>
          if opcode h = 1 \<and> \<not> masked h \<and> length rest = payload_len h then Some rest else None)"

interpretation ws_codec: codec ws_text_frame text_payload "\<lambda>data. length data < 2 ^ 64"
proof
  show "text_payload (ws_text_frame data) = Some data" if "length data < 2 ^ 64" for data
    using ws_header_server [OF that, of "[]"] by (simp add: text_payload_def)
qed

text \<open>
  What \<open>ws_send\<close> queues is one final text frame with the payload: a client that reads the
  frame header gets the length of the data and then the data, whatever form of the length was
  needed; different payloads give different frames.
\<close>

theorem ws_send_decodes:
  assumes "has_handle ws" and "length data < 2 ^ 63" and "length data' < 2 ^ 63"
  shows "\<exists>frame. ws_send True (Some ws) data = (0, [Queued frame]) \<and>
     ws_frame_header (frame @ post) =
       Some (\<lparr>opcode = 1, masked = False, payload_len = length data, mask_key = []\<rparr>, data @ post) \<and>
     (ws_send True (Some ws) data' = ws_send True (Some ws) data \<longleftrightarrow> data' = data)"
proof -
  have len: "length d < 2 ^ 64 \<and> \<not> length d > SIZE_MAX - n" if "length d < 2 ^ 63" "n \<le> 12"
    for d :: "u8 list" and n using that by (simp add: SIZE_MAX_def)
  have send: "ws_send True (Some ws) d = (0, [Queued (ws_text_frame d)])" if "length d < 2 ^ 63" for d
    using assms(1) len [OF that] by (simp add: ws_send_def uv_write_def Let_def)
  show ?thesis
    using send [OF assms(2)] send [OF assms(3)] ws_header_server [of data post]
      ws_codec.enc_inject [of data' data] len [OF assms(2), of 0] len [OF assms(3), of 0] by simp
qed

definition open_ws :: ws_client where
  "open_ws = \<lparr>has_handle = True, on_message = True, on_close = True, timer_on = True, last_pong = 0\<rparr>"

theorem ws_send_decodes_witness:
  "\<exists>frame. ws_send True (Some open_ws) [72, 105] = (0, [Queued frame]) \<and>
     ws_frame_header frame =
       Some (\<lparr>opcode = 1, masked = False, payload_len = 2, mask_key = []\<rparr>, [72, 105])"
  using ws_send_decodes [of open_ws "[72, 105]" "[]" "[]"] by (auto simp: open_ws_def)

section \<open>What the read callback delivers\<close>

text \<open>A data frame a client may send: text or binary, a four-byte key.\<close>

definition data_frame_ok :: "u8 \<times> u8 list \<times> u8 list \<Rightarrow> bool" where
  "data_frame_ok f \<longleftrightarrow> (case f of (op, key, p) \<Rightarrow>
     (op = 1 \<or> op = 2) \<and> length key = 4 \<and> length p < 2 ^ 64)"

definition encode_frame :: "u8 \<times> u8 list \<times> u8 list \<Rightarrow> u8 list" where
  "encode_frame f = (case f of (op, key, p) \<Rightarrow> client_frame op key p)"

lemma ws_read_data_frame:
  assumes "data_frame_ok (op, key, p)" and "on_message ws"
  shows "ws_read_frames w now ws (client_frame op key p @ post) =
     apfst (Cons (Message p)) (ws_read_frames w now ws post)"
proof -
  have op: "op < 16" "op \<noteq> 8" "op \<noteq> 9" "op \<noteq> 10" using assms(1) by (auto simp: data_frame_ok_def)
  have ne: "client_frame op key p @ post \<noteq> []" by (simp add: client_frame_def)
  show ?thesis
    using assms op ne ws_header_client [of op key p post]
    by (subst ws_read_frames.simps)
       (auto simp: data_frame_ok_def xor_mask_twice Let_def split: prod.split)
qed

lemma ws_frame_header_more:
  assumes "ws_frame_header d = Some (h, r)"
  shows "ws_frame_header (d @ x) = Some (h, r @ x)"
proof -
  have ext: "ws_extended_len n (e @ x) = Some (l, t @ x)" if "ws_extended_len n e = Some (l, t)"
    for n e l t using that by (auto simp: ws_extended_len_def split: if_splits)
  from assms obtain a b e where d: "d = a # b # e"
    by (auto simp: ws_frame_header_def split: list.splits)
  with assms obtain l t where l: "ws_extended_len (unat (b AND 0x7F)) e = Some (l, t)"
    by (auto simp: ws_frame_header_def Let_def split: option.splits)
  show ?thesis
    using assms ext [OF l] l
    by (auto simp: d ws_frame_header_def Let_def split: if_splits)
qed

lemma ws_read_cut_frame:
  assumes "data_frame_ok (op, key, p)" and "k < length (client_frame op key p)"
  shows "ws_read_frames w now ws (take k (client_frame op key p)) = ([], ws)"
proof (cases "ws_frame_header (take k (client_frame op key p))")
  case None
  then show ?thesis by (subst ws_read_frames.simps) simp
next
  case (Some hr)
  obtain h r where hr: "hr = (h, r)" by (cases hr)
  let ?f = "client_frame op key p"
  have "ws_frame_header (take k ?f @ drop k ?f) = Some (h, r @ drop k ?f)"
    using Some hr ws_frame_header_more by blast
  moreover have "ws_frame_header (?f @ []) = Some (\<lparr>opcode = op, masked = True,
      payload_len = length p, mask_key = key\<rparr>, xor_mask key p @ [])"
    using assms(1) by (intro ws_header_client) (auto simp: data_frame_ok_def)
  ultimately have "payload_len h = length p" "length (r @ drop k ?f) = length p" by auto
  moreover have "0 < length (drop k ?f)" using assms(2) by simp
  ultimately have "length r < payload_len h" unfolding length_append by linarith
  with Some hr show ?thesis by (subst ws_read_frames.simps) simp
qed

text \<open>
  C23: one read delivers exactly the payloads of the data frames that are complete in it, unmasked
  and in order, and leaves the connection as it was. A frame that is cut off at the end of the
  read, anywhere, is dropped silently: no part of it is kept for the next read.
\<close>

theorem ws_read_delivers:
  assumes "list_all data_frame_ok fs" and "on_message ws" and "data_frame_ok f"
    and "k < length (encode_frame f)"
  shows "ws_read_cb w now (Some ws) (Inr (concat (map encode_frame fs) @ take k (encode_frame f))) =
     (map (\<lambda>(op, key, p). Message p) fs, Some ws)"
proof -
  obtain op key p where f: "f = (op, key, p)" by (cases f)
  have "ws_read_frames w now ws (concat (map encode_frame fs) @ take k (encode_frame f)) =
      (map (\<lambda>(op, key, p). Message p) fs, ws)"
    using assms(1)
  proof (induction fs)
    case Nil
    show ?case using ws_read_cut_frame [of op key p k] assms(3,4) by (simp add: f encode_frame_def)
  next
    case (Cons g gs)
    obtain a b c where g: "g = (a, b, c)" by (cases g)
    with Cons ws_read_data_frame [of a b c ws] assms(2) show ?case
      by (simp add: encode_frame_def)
  qed
  then show ?thesis by (simp add: ws_read_cb_def)
qed

theorem ws_read_delivers_witness:
  "ws_read_cb True 0 (Some open_ws)
     (Inr (client_frame 1 [1, 2, 3, 4] [72, 105] @ take 7 (client_frame 2 [9, 9, 9, 9] [1, 2]))) =
   ([Message [72, 105]], Some open_ws)"
  using ws_read_delivers [of "[(1, [1, 2, 3, 4], [72, 105])]" open_ws "(2, [9, 9, 9, 9], [1, 2])" 7]
  by (simp add: data_frame_ok_def encode_frame_def open_ws_def client_frame_def frame_len_def)

text \<open>
  A ping of a client is answered with a pong that carries the payload still masked, not the
  payload that was sent, and everything that came after the ping in the same read is dropped.
\<close>

theorem ws_ping_pong:
  assumes "length key = 4" and "length p \<le> 125" and "has_handle ws"
  shows "ws_read_cb True now (Some ws) (Inr (client_frame 0x9 key p @ post)) =
     ([Queued (0x8A # byte_of (length p) # xor_mask key p)], Some ws)"
proof -
  have "ws_frame_header (client_frame 0x9 key p @ post) =
      Some (\<lparr>opcode = 0x9, masked = True, payload_len = length p, mask_key = key\<rparr>, xor_mask key p @ post)"
    using assms by (intro ws_header_client) simp_all
  moreover have "client_frame 0x9 key p @ post \<noteq> []" by (simp add: client_frame_def)
  ultimately have "ws_read_frames True now ws (client_frame 0x9 key p @ post) =
      ([Queued (0x8A # byte_of (length p) # xor_mask key p)], ws)"
    using assms(2,3) by (subst ws_read_frames.simps) (simp add: ws_send_control_def uv_write_def)
  then show ?thesis by (simp add: ws_read_cb_def)
qed

theorem ws_ping_pong_witness:
  "ws_read_cb True 0 (Some open_ws)
     (Inr (client_frame 0x9 [1, 1, 1, 1] [72] @ client_frame 1 [0, 0, 0, 0] [105])) =
   ([Queued [0x8A, 1, 73]], Some open_ws)"
  using ws_ping_pong [of "[1, 1, 1, 1]" "[72]" open_ws 0 "client_frame 1 [0, 0, 0, 0] [105]"]
  by (simp add: open_ws_def xor_mask_def byte_of_def)

section \<open>The close callback\<close>

fun ws_session ::
  "bool \<Rightarrow> ws_client \<Rightarrow> (int \<times> (unit + u8 list)) list \<Rightarrow> ws_event list \<times> ws_client" where
  "ws_session w ws [] = ([], ws)"
| "ws_session w ws ((now, r) # rs) =
     (case ws_read_cb w now (Some ws) r of
        (es, Some ws') \<Rightarrow> (case ws_session w ws' rs of (es', ws'') \<Rightarrow> (es @ es', ws''))
      | (es, None) \<Rightarrow> (es, ws))"

definition closes :: "ws_event list \<Rightarrow> nat" where
  "closes es = length (filter (\<lambda>e. e = CloseCallback) es)"

lemma closes_simps [simp]:
  "closes [] = 0" "closes (es @ es') = closes es + closes es'"
  "closes (e # es) = (if e = CloseCallback then 1 else 0) + closes es"
  by (simp_all add: closes_def)

lemma fire_close_once:
  "closes (fst (fire_close ws)) + of_bool (on_close (snd (fire_close ws))) = of_bool (on_close ws)"
  by (simp add: fire_close_def Let_def)

lemma ws_control_no_close: "closes (snd (ws_send_control w ws op p)) = 0"
  by (simp add: ws_send_control_def uv_write_def split: option.split)

lemma ws_read_frames_close:
  "closes (fst (ws_read_frames w now ws data)) + of_bool (on_close (snd (ws_read_frames w now ws data)))
     = of_bool (on_close ws)"
proof (induction w now ws data rule: ws_read_frames.induct)
  case (1 w now ws data)
  show ?case
  proof (cases "ws_frame_header data")
    case None
    then show ?thesis by (subst (1 2) ws_read_frames.simps) simp
  next
    case (Some hr)
    obtain h rest where hr: "hr = (h, rest)" by (cases hr)
    let ?after = "drop (payload_len h) rest"
    note unfold = ws_read_frames.simps [of w now ws data] Some hr
    consider "data = [] \<or> length rest < payload_len h" | "data \<noteq> []" "\<not> length rest < payload_len h" by blast
    then show ?thesis
    proof cases
      case 1
      then show ?thesis by (auto simp: unfold)
    next
      case live: 2
      consider "opcode h = 8" | "opcode h = 9" | "opcode h = 10" |
        "opcode h \<noteq> 8" "opcode h \<noteq> 9" "opcode h \<noteq> 10" "opcode h = 1 \<or> opcode h = 2" |
        "opcode h \<noteq> 8" "opcode h \<noteq> 9" "opcode h \<noteq> 10" "\<not> (opcode h = 1 \<or> opcode h = 2)" by blast
      then show ?thesis
      proof cases
        case 1
        with live fire_close_once [of ws] show ?thesis by (simp add: unfold)
      next
        case 2
        with live ws_control_no_close show ?thesis by (simp add: unfold)
      next
        case 3
        with live show ?thesis by (simp add: unfold)
      next
        case 4
        have "closes (fst (ws_read_frames w now ws ?after)) +
            of_bool (on_close (snd (ws_read_frames w now ws ?after))) = of_bool (on_close ws)"
          by (rule "1.IH"(1) [OF live(1) Some hr [symmetric] live(2) 4(1-3) refl 4(4) refl refl])
        with live 4 show ?thesis by (simp add: unfold Let_def split_beta)
      next
        case 5
        have "closes (fst (ws_read_frames w now ws ?after)) +
            of_bool (on_close (snd (ws_read_frames w now ws ?after))) = of_bool (on_close ws)"
          by (rule "1.IH"(2) [OF live(1) Some hr [symmetric] live(2) 5(1-3) refl 5(4)])
        with live 5 show ?thesis by (simp add: unfold Let_def)
      qed
    qed
  qed
qed

text \<open>
  Over the whole life of a connection, with any sequence of reads, frames and errors, the
  close callback runs at most once, and exactly once if it was set and is not set any more.
\<close>

theorem ws_close_once:
  "closes (fst (ws_session w ws rs)) + of_bool (on_close (snd (ws_session w ws rs))) =
     of_bool (on_close ws)"
proof (induction rs arbitrary: ws)
  case Nil
  show ?case by simp
next
  case (Cons r rs)
  obtain now d where r: "r = (now, d)" by (cases r)
  obtain es ws' where step: "ws_read_cb w now (Some ws) d = (es, Some ws')"
    by (cases d) (simp_all add: ws_read_cb_def split_beta)
  have "closes es + of_bool (on_close ws') = of_bool (on_close ws)"
  proof (cases d)
    case (Inl u)
    with step have "es = fst (fire_close ws) @ [ClientClose]" "ws' = snd (fire_close ws)"
      by (simp_all add: ws_read_cb_def split_beta)
    then show ?thesis using fire_close_once [of ws] by simp
  next
    case (Inr b)
    with step have "es = fst (ws_read_frames w now ws b)" "ws' = snd (ws_read_frames w now ws b)"
      by (simp_all add: ws_read_cb_def split_beta)
    then show ?thesis using ws_read_frames_close [of w now ws b] by simp
  qed
  then show ?case using Cons.IH [of ws'] by (simp add: r step split_beta)
qed

end
