(* ===== verification/ConfigFile.thy ===== *)
theory ConfigFile
  imports CString
begin

text \<open>
  \<open>config/config.c\<close>: the INI-style configuration file. The file is the string of its bytes,
  read by \<open>fgets\<close> into a line buffer of 4096 bytes; the table of the code is the list of its
  entries in file order. Memory is assumed to suffice. \<open>strtol\<close> follows the C standard on a
  64-bit \<open>long\<close>: blanks, a sign, digits, a saturated value, and where it stopped.
\<close>

definition MAX_ENTRIES :: nat where "MAX_ENTRIES = 256"

type_synonym conf = "(string \<times> string) list"

record load_state =
  entries :: conf
  section_name :: string
  last_entry_idx :: "nat option"

section \<open>Reading lines\<close>

text \<open>One \<open>fgets(line, sizeof(line), fp)\<close>: at most 4095 bytes, up to and including a newline.\<close>

definition fgets_chunk :: "nat \<Rightarrow> string \<Rightarrow> string" where
  "fgets_chunk lim s =
     (case find_index (\<lambda>c. c = LF) s of
        None \<Rightarrow> take lim s | Some k \<Rightarrow> take (min lim (k + 1)) s)"

function fgets_lines :: "nat \<Rightarrow> string \<Rightarrow> string list" where
  "fgets_lines lim s =
     (if s = [] \<or> lim = 0 then []
      else fgets_chunk lim s # fgets_lines lim (drop (length (fgets_chunk lim s)) s))"
  by pat_completeness auto
termination
proof (relation "measure (\<lambda>(lim, s). length s)", simp)
  fix lim :: nat and s :: string
  assume "\<not> (s = [] \<or> lim = 0)"
  then have "0 < length (fgets_chunk lim s)" by (auto simp: fgets_chunk_def split: option.split)
  with \<open>\<not> (s = [] \<or> lim = 0)\<close>
  show "((lim, drop (length (fgets_chunk lim s)) s), (lim, s)) \<in> measure (\<lambda>(lim, s). length s)"
    by auto
qed

declare fgets_lines.simps [simp del]

definition strip_newline :: "string \<Rightarrow> string" where
  "strip_newline chunk = (let l = cstr chunk in if l \<noteq> [] \<and> last l = LF then butlast l else l)"

section \<open>Loading\<close>

definition trim_line :: "string \<Rightarrow> string" where
  "trim_line line = trim_by is_space line"

text \<open>The body of the reading loop for one line.\<close>

definition conf_line :: "load_state \<Rightarrow> string \<Rightarrow> load_state" where
  "conf_line st chunk =
     (let raw = ltrim_by is_space (strip_newline chunk)
      in if raw = [] \<or> hd raw = CHR ''#'' then st
         else if hd raw = CHR ''['' then
           (case find_index (\<lambda>c. c = CHR '']'') raw of None \<Rightarrow> st
            | Some e \<Rightarrow> st\<lparr>section_name := take 255 (tl (take e raw)), last_entry_idx := None\<rparr>)
         else
           (case find_index (\<lambda>c. c = CHR ''='') raw of
              Some eq \<Rightarrow>
                let key = trim_line (take eq raw);
                    val = trim_line (drop (eq + 1) raw);
                    full_key = (if section_name st \<noteq> [] then section_name st @ ''.'' @ key else key)
                in if length (entries st) < MAX_ENTRIES
                   then st\<lparr>entries := entries st @ [(full_key, val)],
                           last_entry_idx := Some (length (entries st))\<rparr>
                   else st
            | None \<Rightarrow>
                (case last_entry_idx st of None \<Rightarrow> st
                 | Some i \<Rightarrow>
                     st\<lparr>entries := (entries st)[i := (fst (entries st ! i),
                                     snd (entries st ! i) @ [LF] @ raw)]\<rparr>)))"

definition empty_load :: load_state where
  "empty_load = \<lparr>entries = [], section_name = [], last_entry_idx = None\<rparr>"

text \<open>\<open>None\<close> when the file cannot be opened.\<close>

definition conf_load :: "cptr \<Rightarrow> conf option" where
  "conf_load file =
     (case file of None \<Rightarrow> None
      | Some s \<Rightarrow> Some (entries (foldl conf_line empty_load (fgets_lines 4095 s))))"

section \<open>Looking up\<close>

fun conf_get :: "conf \<Rightarrow> string \<Rightarrow> cptr" where
  "conf_get [] key = None"
| "conf_get ((k, v) # es) key = (if k = key then Some v else conf_get es key)"

definition LONG_MAX :: int where "LONG_MAX = 2 ^ 63 - 1"
definition INT_MAX :: int where "INT_MAX = 2 ^ 31 - 1"

fun digits_value :: "int \<Rightarrow> string \<Rightarrow> int \<times> string" where
  "digits_value acc [] = (acc, [])"
| "digits_value acc (c # cs) =
     (if is_digit c then digits_value (acc * 10 + int (byte c - 48)) cs else (acc, c # cs))"

text \<open>The value and the rest of the string; \<open>None\<close> when there are no digits.\<close>

definition strtol :: "string \<Rightarrow> (int \<times> string) option" where
  "strtol s =
     (let p = ltrim_by is_space s;
          neg = (p \<noteq> [] \<and> hd p = CHR ''-'');
          q = (if p \<noteq> [] \<and> (hd p = CHR ''-'' \<or> hd p = CHR ''+'') then tl p else p)
      in if q = [] \<or> \<not> is_digit (hd q) then None
         else let (n, rest) = digits_value 0 q;
                  v = (if neg then - n else n)
              in Some (max (- LONG_MAX - 1) (min LONG_MAX v), rest))"

definition conf_get_int :: "conf \<Rightarrow> string \<Rightarrow> int \<Rightarrow> int" where
  "conf_get_int conf key def =
     (case conf_get conf key of None \<Rightarrow> def
      | Some val \<Rightarrow>
          (case strtol val of None \<Rightarrow> def
           | Some (result, rest) \<Rightarrow>
               if rest \<noteq> [] then def
               else if result > INT_MAX then def
               else if result < - INT_MAX - 1 then def else result))"

definition PROVIDERS_PREFIX :: string where "PROVIDERS_PREFIX = ''providers.''"

text \<open>The pairs of provider name and token.\<close>

definition conf_provider_tokens_alloc :: "conf \<Rightarrow> (string \<times> string) list" where
  "conf_provider_tokens_alloc conf =
     map (\<lambda>(k, v). (drop (length PROVIDERS_PREFIX) k, v))
       (filter (\<lambda>(k, v). prefix PROVIDERS_PREFIX k \<and> drop (length PROVIDERS_PREFIX) k \<noteq> []) conf)"

definition conf_provider_token :: "conf option \<Rightarrow> cptr \<Rightarrow> cptr" where
  "conf_provider_token conf provider =
     (case (conf, provider) of
        (Some c, Some p) \<Rightarrow>
          let key_name = (if p = ''opencode_zen'' \<or> p = ''opencode_go'' then ''opencode'' else p);
              key = PROVIDERS_PREFIX @ key_name
          in if length key \<ge> 96 then None else conf_get c key
      | _ \<Rightarrow> None)"

section \<open>Writing and reading a configuration\<close>

text \<open>An entry to write: the key, the first line of its value, the continuation lines.\<close>

type_synonym entry_src = "string \<times> string \<times> string list"

definition line_ok :: "string \<Rightarrow> bool" where
  "line_ok l \<longleftrightarrow> LF \<notin> set l \<and> NUL \<notin> set l \<and> length l \<le> 4094"

definition start_ok :: "string \<Rightarrow> bool" where
  "start_ok l \<longleftrightarrow> l \<noteq> [] \<and> \<not> is_space (hd l) \<and> hd l \<noteq> CHR ''#'' \<and> hd l \<noteq> CHR ''[''"

definition key_line :: "string \<Rightarrow> string \<Rightarrow> string" where
  "key_line k v = k @ '' = '' @ v"

definition entry_ok :: "entry_src \<Rightarrow> bool" where
  "entry_ok e \<longleftrightarrow> (case e of (k, v, cs) \<Rightarrow>
     start_ok k \<and> CHR ''='' \<notin> set k \<and> trim_by is_space k = k \<and> trim_by is_space v = v \<and>
     line_ok (key_line k v) \<and> list_all (\<lambda>c. start_ok c \<and> CHR ''='' \<notin> set c \<and> line_ok c) cs)"

definition entry_lines :: "entry_src \<Rightarrow> string list" where
  "entry_lines e = (case e of (k, v, cs) \<Rightarrow> key_line k v # cs)"

definition section_ok :: "string \<times> entry_src list \<Rightarrow> bool" where
  "section_ok s \<longleftrightarrow> fst s \<noteq> [] \<and> length (fst s) \<le> 255 \<and> CHR '']'' \<notin> set (fst s) \<and>
     line_ok (fst s) \<and> list_all entry_ok (snd s)"

definition section_lines :: "string \<times> entry_src list \<Rightarrow> string list" where
  "section_lines s = (CHR ''['' # fst s @ '']'') # concat (map entry_lines (snd s))"

definition unlines :: "string list \<Rightarrow> string" where
  "unlines ls = concat (map (\<lambda>l. l @ [LF]) ls)"

definition loaded_entry :: "string \<Rightarrow> entry_src \<Rightarrow> string \<times> string" where
  "loaded_entry sec e = (case e of (k, v, cs) \<Rightarrow> (sec @ ''.'' @ k, join_with LF (v # cs)))"

definition loaded :: "(string \<times> entry_src list) list \<Rightarrow> conf" where
  "loaded ss = concat (map (\<lambda>(sec, es). map (loaded_entry sec) es) ss)"

lemma find_index_first: "\<forall>c \<in> set a. \<not> p c \<Longrightarrow> p x \<Longrightarrow> find_index p (a @ x # b) = Some (length a)"
  by (induction a) auto

lemma fgets_lines_unlines:
  "list_all line_ok ls \<Longrightarrow> fgets_lines 4095 (unlines ls) = map (\<lambda>l. l @ [LF]) ls"
proof (induction ls)
  case Nil
  show ?case by (simp add: unlines_def fgets_lines.simps)
next
  case (Cons l ls)
  have eq: "unlines (l # ls) = l @ LF # unlines ls" by (simp add: unlines_def)
  have "find_index (\<lambda>c. c = LF) (l @ LF # unlines ls) = Some (length l)"
    using Cons.prems by (intro find_index_first) (auto simp: line_ok_def)
  moreover have "min 4095 (length l + 1) = length l + 1" using Cons.prems by (simp add: line_ok_def)
  ultimately have "fgets_chunk 4095 (unlines (l # ls)) = l @ [LF]"
    by (simp add: fgets_chunk_def eq)
  with Cons show ?case by (subst fgets_lines.simps) (simp add: eq)
qed

lemma strip_newline_line: "line_ok l \<Longrightarrow> strip_newline (l @ [LF]) = l"
  by (simp add: strip_newline_def line_ok_def cstr_id)

lemma ltrim_start: "start_ok l \<Longrightarrow> ltrim_by is_space l = l"
  by (cases l) (simp_all add: start_ok_def ltrim_by_def)

lemma is_space_SP: "is_space SP" by (simp add: is_space_def)

lemma conf_line_key:
  assumes "entry_ok (k, v, cs)" and "length (entries st) < MAX_ENTRIES" and "section_name st \<noteq> []"
  shows "conf_line st (key_line k v @ [LF]) =
     st\<lparr>entries := entries st @ [(section_name st @ ''.'' @ k, v)],
        last_entry_idx := Some (length (entries st))\<rparr>"
proof -
  let ?l = "key_line k v"
  have k: "start_ok k" "CHR ''='' \<notin> set k" "trim_by is_space k = k" "trim_by is_space v = v" "line_ok ?l"
    using assms(1) by (simp_all add: entry_ok_def)
  then have l: "start_ok ?l" "hd ?l = hd k" by (simp_all add: start_ok_def key_line_def)
  have "find_index (\<lambda>c. c = CHR ''='') ((k @ [SP]) @ CHR ''='' # SP # v) = Some (length (k @ [SP]))"
    using k(2) by (intro find_index_first) auto
  then have eq: "find_index (\<lambda>c. c = CHR ''='') ?l = Some (length k + 1)" by (simp add: key_line_def)
  have "take (length k + 1) ?l = k @ [SP]" "drop (length k + 1 + 1) ?l = SP # v"
    by (simp_all add: key_line_def)
  moreover have "trim_line (k @ [SP]) = k" "trim_line (SP # v) = v"
    using trim_by_pad [of is_space "[]" "[SP]" k] trim_by_pad [of is_space "[SP]" "[]" v] k is_space_SP
    by (simp_all add: trim_line_def)
  ultimately show ?thesis
    using l assms(2,3) eq
    by (simp add: conf_line_def Let_def strip_newline_line [OF k(5)] ltrim_start start_ok_def)
qed

lemma conf_line_cont:
  assumes "start_ok c" and "CHR ''='' \<notin> set c" and "line_ok c"
    and "entries st = es @ [(k, v)]" and "last_entry_idx st = Some (length es)"
  shows "conf_line st (c @ [LF]) = st\<lparr>entries := es @ [(k, v @ [LF] @ c)]\<rparr>"
proof -
  have "find_index (\<lambda>x. x = CHR ''='') c = None" using assms(2) by (auto simp: find_index_None)
  then show ?thesis using assms
    by (simp add: conf_line_def strip_newline_line ltrim_start start_ok_def)
qed

lemma conf_conts:
  assumes "list_all (\<lambda>c. start_ok c \<and> CHR ''='' \<notin> set c \<and> line_ok c) cs"
    and "entries st = es @ [(k, v)]" and "last_entry_idx st = Some (length es)"
  shows "foldl conf_line st (map (\<lambda>l. l @ [LF]) cs) = st\<lparr>entries := es @ [(k, join_with LF (v # cs))]\<rparr>"
  using assms
proof (induction cs arbitrary: st v)
  case Nil
  then show ?case by simp
next
  case (Cons c cs)
  have step: "conf_line st (c @ [LF]) = st\<lparr>entries := es @ [(k, v @ [LF] @ c)]\<rparr>"
    using Cons.prems by (intro conf_line_cont) auto
  have join: "join_with LF ((v @ [LF] @ c) # cs) = join_with LF (v # c # cs)" by (cases cs) auto
  show ?case
    using Cons.IH [of "st\<lparr>entries := es @ [(k, v @ [LF] @ c)]\<rparr>" "v @ [LF] @ c"] Cons.prems
    by (simp add: step) (use join in simp)
qed

lemma conf_line_section:
  assumes "section_ok (sec, es)"
  shows "conf_line st ((CHR ''['' # sec @ '']'') @ [LF]) = st\<lparr>section_name := sec, last_entry_idx := None\<rparr>"
proof -
  have ok: "line_ok (CHR ''['' # sec @ '']'')" if "length sec \<le> 255" "line_ok sec"
    using that by (simp add: line_ok_def)
  have "find_index (\<lambda>c. c = CHR '']'') ((CHR ''['' # sec) @ CHR '']'' # []) = Some (length (CHR ''['' # sec))"
    using assms by (intro find_index_first) (auto simp: section_ok_def)
  moreover have "strip_newline ((CHR ''['' # sec @ '']'') @ [LF]) = CHR ''['' # sec @ '']''"
    using assms ok by (intro strip_newline_line) (simp add: section_ok_def)
  ultimately show ?thesis
    using assms by (simp add: conf_line_def Let_def ltrim_by_def is_space_def section_ok_def)
qed

lemma conf_entry:
  assumes "entry_ok e" and "length (entries st) < MAX_ENTRIES" and "section_name st \<noteq> []"
  obtains i where "foldl conf_line st (map (\<lambda>l. l @ [LF]) (entry_lines e)) =
     st\<lparr>entries := entries st @ [loaded_entry (section_name st) e], last_entry_idx := i\<rparr>"
proof -
  obtain k v cs where e: "e = (k, v, cs)" by (cases e)
  let ?st = "st\<lparr>entries := entries st @ [(section_name st @ ''.'' @ k, v)],
        last_entry_idx := Some (length (entries st))\<rparr>"
  have "list_all (\<lambda>c. start_ok c \<and> CHR ''='' \<notin> set c \<and> line_ok c) cs"
    using assms(1) by (simp add: e entry_ok_def)
  from conf_conts [OF this, of ?st "entries st" "section_name st @ ''.'' @ k" v] show thesis
    using that [of "Some (length (entries st))"] conf_line_key [of k v cs st] assms
    by (simp add: e entry_lines_def loaded_entry_def)
qed

lemma conf_entries:
  assumes "list_all entry_ok es" and "length (entries st) + length es \<le> MAX_ENTRIES"
    and "section_name st \<noteq> []"
  shows "\<exists>i. foldl conf_line st (map (\<lambda>l. l @ [LF]) (concat (map entry_lines es))) =
     st\<lparr>entries := entries st @ map (loaded_entry (section_name st)) es, last_entry_idx := i\<rparr>"
  using assms
proof (induction es arbitrary: st)
  case Nil
  show ?case by (rule exI [of _ "last_entry_idx st"]) simp
next
  case (Cons e es)
  from Cons.prems obtain i where i: "foldl conf_line st (map (\<lambda>l. l @ [LF]) (entry_lines e)) =
     st\<lparr>entries := entries st @ [loaded_entry (section_name st) e], last_entry_idx := i\<rparr>"
    using conf_entry [of e st] by auto
  then show ?case
    using Cons.IH [of "st\<lparr>entries := entries st @ [loaded_entry (section_name st) e], last_entry_idx := i\<rparr>"]
      Cons.prems by simp
qed

lemma conf_sections:
  assumes "list_all section_ok ss" and "length (entries st) + length (loaded ss) \<le> MAX_ENTRIES"
  shows "entries (foldl conf_line st (map (\<lambda>l. l @ [LF]) (concat (map section_lines ss)))) =
     entries st @ loaded ss"
  using assms
proof (induction ss arbitrary: st)
  case Nil
  show ?case by (simp add: loaded_def)
next
  case (Cons s ss)
  obtain sec es where s: "s = (sec, es)" by (cases s)
  let ?st = "st\<lparr>section_name := sec, last_entry_idx := None\<rparr>"
  have len: "length (loaded (s # ss)) = length es + length (loaded ss)" by (simp add: s loaded_def)
  obtain i where "foldl conf_line ?st (map (\<lambda>l. l @ [LF]) (concat (map entry_lines es))) =
     ?st\<lparr>entries := entries ?st @ map (loaded_entry (section_name ?st)) es, last_entry_idx := i\<rparr>"
    using conf_entries [of es ?st] Cons.prems len by (auto simp: s section_ok_def)
  then show ?case
    using Cons.IH [of "?st\<lparr>entries := entries ?st @ map (loaded_entry (section_name ?st)) es,
        last_entry_idx := i\<rparr>"] Cons.prems len conf_line_section [of sec es st]
    by (simp add: s section_lines_def loaded_def)
qed

lemma entry_lines_ok: "entry_ok e \<Longrightarrow> list_all line_ok (entry_lines e)"
  by (cases e) (simp add: entry_ok_def entry_lines_def list_all_iff)

lemma section_lines_ok: "section_ok s \<Longrightarrow> list_all line_ok (section_lines s)"
  using entry_lines_ok
  by (auto simp: section_ok_def section_lines_def list_all_iff line_ok_def [of "_ # _"] line_ok_def [of "fst s"])

text \<open>
  A configuration that is written section by section, one key per line and longer values on
  continuation lines, is loaded entry for entry in file order, as long as the table holds it:
  the key is prefixed with its section and the lines of the value are joined by newlines.
\<close>

theorem conf_roundtrip:
  assumes "list_all section_ok ss" and "length (loaded ss) \<le> MAX_ENTRIES"
  shows "conf_load (Some (unlines (concat (map section_lines ss)))) = Some (loaded ss)"
proof -
  have "list_all line_ok (concat (map section_lines ss))"
    using assms(1) section_lines_ok by (auto simp: list_all_iff)
  then show ?thesis
    using conf_sections [OF assms(1), of empty_load] assms(2)
    by (simp add: conf_load_def fgets_lines_unlines empty_load_def)
qed

definition sample_conf :: "(string \<times> entry_src list) list" where
  "sample_conf = [(''safety'', [(''mode'', ''restricted'', []), (''note'', ''two'', [''lines''])])]"

theorem conf_roundtrip_witness:
  "conf_load (Some (unlines (concat (map section_lines sample_conf)))) =
     Some [(''safety.mode'', ''restricted''), (''safety.note'', ''two'' @ [LF] @ ''lines'')]"
proof -
  have "list_all section_ok sample_conf"
    by (simp add: sample_conf_def section_ok_def entry_ok_def start_ok_def line_ok_def key_line_def
        trim_by_def ltrim_by_def rtrim_by_def is_space_def)
  from conf_roundtrip [OF this] show ?thesis
    by (simp add: sample_conf_def loaded_def loaded_entry_def MAX_ENTRIES_def)
qed

section \<open>Integers\<close>

lemma digits_value_append:
  "list_all is_digit a \<Longrightarrow> digits_value acc (a @ b) = digits_value (fst (digits_value acc a)) b"
  by (induction a arbitrary: acc) auto

lemma digits_value_dec_nat: "digits_value 0 (dec_nat n) = (int n, [])"
proof (induction n rule: dec_nat.induct)
  case (1 n)
  have digit: "is_digit (chr (48 + d))" "byte (chr (48 + d)) = 48 + d" if "d < 10" for d
    using that by (simp_all add: is_digit_def byte_char_of)
  show ?case
  proof (cases "n < 10")
    case True
    then show ?thesis using digit [of n] by (simp add: dec_nat.simps [of n])
  next
    case False
    have "list_all is_digit (dec_nat (n div 10))" using dec_nat_digits by (auto simp: list_all_iff)
    moreover have "int (n div 10) * 10 + int (n mod 10) = int n"
      by (metis div_mult_mod_eq of_nat_add of_nat_mult of_nat_numeral)
    ultimately show ?thesis using False 1 digit [of "n mod 10"]
      by (simp add: dec_nat.simps [of n] digits_value_append)
  qed
qed

lemma dec_nat_hd: "is_digit (hd (dec_nat n))" "dec_nat n \<noteq> []"
  using dec_nat_digits [of "hd (dec_nat n)" n] dec_nat_nonempty [of n] by simp_all

lemma digit_no_sign: "is_digit c \<Longrightarrow> c \<noteq> CHR ''-'' \<and> c \<noteq> CHR ''+'' \<and> \<not> is_space c"
  by (auto simp: is_digit_def is_space_def)

lemma strtol_dec_nat:
  "strtol (dec_nat n) = Some (min LONG_MAX (int n), [])"
  "strtol (CHR ''-'' # dec_nat n) = Some (max (- LONG_MAX - 1) (- int n), [])"
proof -
  obtain c cs where c: "dec_nat n = c # cs" "is_digit c" using dec_nat_hd [of n] by (cases "dec_nat n") auto
  show "strtol (dec_nat n) = Some (min LONG_MAX (int n), [])"
    using c digit_no_sign [OF c(2)] digits_value_dec_nat [of n]
    by (simp add: strtol_def ltrim_by_def Let_def LONG_MAX_def)
  show "strtol (CHR ''-'' # dec_nat n) = Some (max (- LONG_MAX - 1) (- int n), [])"
    using c digit_no_sign [OF c(2)] digits_value_dec_nat [of n]
    by (simp add: strtol_def ltrim_by_def Let_def LONG_MAX_def is_space_def)
qed

text \<open>
  An integer setting is read back exactly when it fits an \<open>int\<close>, and is the default when
  it does not, whatever the number of digits; the result of any setting is the default or fits
  an \<open>int\<close>.
\<close>

theorem conf_get_int_exact:
  "conf_get_int ((key, dec_nat n) # c) key d = (if int n \<le> INT_MAX then int n else d) \<and>
   conf_get_int ((key, CHR ''-'' # dec_nat n) # c) key d = (if int n \<le> INT_MAX + 1 then - int n else d) \<and>
   (conf_get_int c' key' d = d \<or> - INT_MAX - 1 \<le> conf_get_int c' key' d) \<and>
   (conf_get_int c' key' d = d \<or> conf_get_int c' key' d \<le> INT_MAX)"
  by (auto simp: conf_get_int_def strtol_dec_nat INT_MAX_def LONG_MAX_def split: option.split)

end
