(* ===== verification/Safety.thy ===== *)
theory Safety
  imports ConfigFile
begin

text \<open>
  \<open>safety/safety.c\<close>: the policy in front of the tools. A string array with its count is a
  list. \<open>realpath\<close> of the system is a parameter (the error or the canonical path), socket
  addresses are given by their bytes. The audit log is a file that lines are appended to.
  Allocations are assumed to succeed.
\<close>

section \<open>Configuration\<close>

datatype safety_mode = SAFETY_MODE_RESTRICTED | SAFETY_MODE_APPROVE_ALL | SAFETY_MODE_UNRESTRICTED

record safety_config =
  workspace :: cptr
  safety_mode :: safety_mode
  allowed_commands :: "string list"
  blocked_commands :: "string list"
  allowed_extensions :: "string list"
  blocked_extensions :: "string list"
  blocked_paths :: "string list"
  allow_network :: bool
  allowed_domains :: "string list"
  max_file_size :: nat
  max_execution_time :: int
  require_approval_for :: "string list"
  audit_log_path :: cptr
  read_requires_approval :: int
  read_size_threshold :: nat
  web_fetch_max_chars :: nat

definition safety_config_create :: safety_config where
  "safety_config_create =
     \<lparr>workspace = None, safety_mode = SAFETY_MODE_RESTRICTED, allowed_commands = [],
      blocked_commands = [], allowed_extensions = [], blocked_extensions = [], blocked_paths = [],
      allow_network = True, allowed_domains = [], max_file_size = 10485760,
      max_execution_time = 300, require_approval_for = [], audit_log_path = None,
      read_requires_approval = 0, read_size_threshold = 1048576, web_fetch_max_chars = 25000\<rparr>"

definition trim_item :: "string \<Rightarrow> string" where
  "trim_item s = (case str_trim (Some s) of Some t \<Rightarrow> t | None \<Rightarrow> s)"

definition parse_csv :: "cptr \<Rightarrow> string list" where
  "parse_csv val =
     (case val of None \<Rightarrow> []
      | Some v \<Rightarrow> if v = [] then [] else map trim_item (str_split (Some v) (CHR '','')))"

text \<open>The block repeated for every list: absent keeps, empty clears, otherwise replace.\<close>

definition load_list :: "conf \<Rightarrow> string \<Rightarrow> string list \<Rightarrow> string list" where
  "load_list conf key old =
     (case conf_get conf key of None \<Rightarrow> old
      | Some v \<Rightarrow> if v \<noteq> [] then parse_csv (Some v) else [])"

definition size_of_int :: "int \<Rightarrow> nat" where "size_of_int i = nat (i mod 2 ^ 64)"

definition default_approvals :: "string list" where
  "default_approvals =
     [''bash'', ''write_file'', ''edit'', ''git'', ''python_execute'', ''delegate'']"

definition load_mode :: "conf \<Rightarrow> safety_mode \<Rightarrow> safety_mode" where
  "load_mode conf old =
     (case conf_get conf ''safety.mode'' of None \<Rightarrow> old
      | Some v \<Rightarrow> if v = ''approve_all'' then SAFETY_MODE_APPROVE_ALL
                else if v = ''unrestricted'' then SAFETY_MODE_UNRESTRICTED
                else if v = ''restricted'' then SAFETY_MODE_RESTRICTED else old)"

definition safety_load_from_conf ::
  "safety_config option \<Rightarrow> conf option \<Rightarrow> int \<times> safety_config option" where
  "safety_load_from_conf cfgo confo =
     (case (cfgo, confo) of
        (Some cfg, Some conf) \<Rightarrow>
          let approvals = load_list conf ''safety.require_approval_for'' (require_approval_for cfg)
          in (0, Some
            \<lparr>workspace = (case conf_get conf ''safety.workspace'' of None \<Rightarrow> workspace cfg | Some v \<Rightarrow> Some v),
             safety_mode = load_mode conf (safety_mode cfg),
             allowed_commands = load_list conf ''safety.allowed_commands'' (allowed_commands cfg),
             blocked_commands = load_list conf ''safety.blocked_commands'' (blocked_commands cfg),
             allowed_extensions = load_list conf ''safety.allowed_extensions'' (allowed_extensions cfg),
             blocked_extensions = load_list conf ''safety.blocked_extensions'' (blocked_extensions cfg),
             blocked_paths = load_list conf ''safety.blocked_paths'' (blocked_paths cfg),
             allow_network = (case conf_get conf ''safety.allow_network'' of None \<Rightarrow> True
                              | Some v \<Rightarrow> v = ''true'' \<or> v = ''1''),
             allowed_domains = load_list conf ''safety.allowed_domains'' (allowed_domains cfg),
             max_file_size = size_of_int (conf_get_int conf ''safety.max_file_size'' 10485760),
             max_execution_time = conf_get_int conf ''safety.max_execution_time'' 300,
             require_approval_for = (if approvals = [] then default_approvals else approvals),
             audit_log_path = (case conf_get conf ''safety.audit_log_path'' of
                                 None \<Rightarrow> audit_log_path cfg | Some v \<Rightarrow> Some v),
             read_requires_approval = conf_get_int conf ''safety.read_requires_approval'' 0,
             read_size_threshold =
               size_of_int (conf_get_int conf ''safety.read_size_threshold'' 1048576),
             web_fetch_max_chars =
               size_of_int (conf_get_int conf ''safety.web_fetch_max_chars'' 25000)\<rparr>)
      | _ \<Rightarrow> (-1, cfgo))"

section \<open>Paths and commands\<close>

definition default_blocked_exts :: "string list" where
  "default_blocked_exts = [''.key'', ''.pem'', ''.env'', ''.token'', ''.password'',
     ''.aws'', ''.netrc'', ''.htpasswd'', ''.crt'', ''.p12'']"

definition default_blocked_paths :: "string list" where
  "default_blocked_paths = [''/etc/passwd'', ''/etc/shadow'', ''/etc/sudoers'', ''.git/config'']"

definition safety_check_path :: "safety_config \<Rightarrow> cptr \<Rightarrow> bool" where
  "safety_check_path cfg path =
     (case path of None \<Rightarrow> False
      | Some p \<Rightarrow>
          if safety_mode cfg = SAFETY_MODE_UNRESTRICTED then True
          else if has_sub p ''..'' then False
          else if allowed_extensions cfg \<noteq> [] \<and>
                  \<not> list_ex (\<lambda>e. str_ends_with (Some p) (Some e)) (allowed_extensions cfg) then False
          else if blocked_extensions cfg = [] \<and>
                  list_ex (\<lambda>e. str_ends_with (Some p) (Some e)) default_blocked_exts then False
          else if list_ex (\<lambda>e. str_ends_with (Some p) (Some e)) (blocked_extensions cfg) then False
          else if blocked_paths cfg = [] \<and> list_ex (has_sub p) default_blocked_paths then False
          else if list_ex (has_sub p) (blocked_paths cfg) then False
          else True)"

definition dangerous_patterns :: "string list" where
  "dangerous_patterns =
     [''rm -rf /'', ''rm -rf /*'', '':(){ :|:& };:'', ''fork()'', ''mkfs.'', ''mkswap'',
      ''dd if='', ''dd if=/dev/zero'', ''dd if=/dev/urandom'', ''shred'',
      ''> /dev/sda'', ''> /dev/sdb'', ''> /dev/nvme'', ''pv < /dev/sda'', ''pv < /dev/sdb'',
      ''debugfs'', ''hdparm'', ''mount -o loop'', ''losetup'', ''parted'', ''fdisk'', ''cfdisk'',
      ''sfdisk'', ''chmod 777'', ''chmod -R 777'', ''sudo rm'', ''sudo rm -rf'',
      CHR 0x5C # ''rm'', ''/bin/rm'', ''/usr/bin/rm'', ''unlink('', ''unlink '',
      ''shutil.rmtree'', ''os.remove'', ''os.unlink'']"

text \<open>The trimmed pieces of a string, empty ones skipped.\<close>

definition pieces :: "char \<Rightarrow> string \<Rightarrow> string list" where
  "pieces d s = filter (\<lambda>p. p \<noteq> []) (map trim_item (str_split (Some s) d))"

definition dangerous :: "string \<Rightarrow> bool" where
  "dangerous st \<longleftrightarrow> list_ex (has_sub st) dangerous_patterns"

definition check_segment :: "string \<Rightarrow> bool" where
  "check_segment segment \<longleftrightarrow>
     \<not> list_ex dangerous (pieces (CHR ''|'') segment) \<and>
     \<not> list_ex dangerous (pieces (CHR ''&'') segment)"

definition safety_check_command :: "safety_config \<Rightarrow> cptr \<Rightarrow> bool" where
  "safety_check_command cfg command =
     (case command of None \<Rightarrow> True
      | Some c \<Rightarrow>
          if safety_mode cfg = SAFETY_MODE_UNRESTRICTED then True
          else list_all (\<lambda>sem. list_all check_segment (pieces LF sem)) (pieces (CHR '';'') c))"

definition destructive_keywords :: "string list" where
  "destructive_keywords = [''delete'', ''destroy'', ''format'', ''drop'', ''truncate'',
     ''shred'', ''wipe'', ''erase'', ''purge'', ''reset'']"

definition safety_check_destructive :: "cptr \<Rightarrow> bool" where
  "safety_check_destructive command =
     (case command of None \<Rightarrow> False | Some c \<Rightarrow> list_ex (has_sub c) destructive_keywords)"

section \<open>Addresses\<close>

text \<open>The 32-bit address in host order, after \<open>ntohl\<close>.\<close>

definition ipv4_is_public :: "u32 \<Rightarrow> bool" where
  "ipv4_is_public address =
     (let a = unat (drop_bit 24 address AND 0xFF); b = unat (drop_bit 16 address AND 0xFF)
      in \<not> (a = 0 \<or> a = 10 \<or> a = 127 \<or> a \<ge> 224 \<or>
            (a = 100 \<and> b \<ge> 64 \<and> b \<le> 127) \<or>
            (a = 169 \<and> b = 254) \<or> (a = 172 \<and> b \<ge> 16 \<and> b \<le> 31) \<or>
            (a = 192 \<and> (b = 0 \<or> b = 168)) \<or>
            (a = 198 \<and> (b = 18 \<or> b = 19))))"

text \<open>A socket address: IPv4 in host order, IPv6 by its sixteen bytes, or another family.\<close>

datatype sock_addr = AF_INET u32 | AF_INET6 "u8 list" | AF_OTHER

definition be_word :: "u8 list \<Rightarrow> u32" where
  "be_word bs = foldl (\<lambda>w b. push_bit 8 w OR ucast b) 0 bs"

definition in6_is_v4mapped :: "u8 list \<Rightarrow> bool" where
  "in6_is_v4mapped bytes \<longleftrightarrow> take 10 bytes = replicate 10 0 \<and> take 2 (drop 10 bytes) = [0xFF, 0xFF]"

definition safety_check_socket_address ::
  "safety_config option \<Rightarrow> sock_addr option \<Rightarrow> bool" where
  "safety_check_socket_address cfgo addro =
     (case (cfgo, addro) of
        (Some cfg, Some addr) \<Rightarrow>
          if safety_mode cfg = SAFETY_MODE_UNRESTRICTED then True
          else (case addr of
                  AF_INET a \<Rightarrow> ipv4_is_public a
                | AF_INET6 bytes \<Rightarrow>
                    if bytes = replicate 16 0 \<or>
                       bytes = replicate 15 0 @ [1] \<or>
                       (bytes ! 0 = 0xFE \<and> bytes ! 1 AND 0xC0 = 0x80) \<or>
                       bytes ! 0 = 0xFF \<or>
                       bytes ! 0 AND 0xFE = 0xFC then False
                    else if in6_is_v4mapped bytes then ipv4_is_public (be_word (drop 12 bytes))
                    else True
                | AF_OTHER \<Rightarrow> False)
      | _ \<Rightarrow> False)"

section \<open>URLs\<close>

text \<open>
  \<open>sscanf(host, "%u.%u.%u.%u%c", ...)\<close>: how many items were stored, and the four numbers.
  A number may have blanks and a sign before its digits, and is reduced to 32 bits.
\<close>

definition scan_uint :: "string \<Rightarrow> (nat \<times> string) option" where
  "scan_uint s =
     (let p = ltrim_by is_space s;
          neg = (p \<noteq> [] \<and> hd p = CHR ''-'');
          q = (if p \<noteq> [] \<and> (hd p = CHR ''-'' \<or> hd p = CHR ''+'') then tl p else p)
      in if q = [] \<or> \<not> is_digit (hd q) then None
         else let (n, rest) = digits_value 0 q;
                  u = (if n > 2 ^ 64 - 1 then 2 ^ 64 - 1 else if neg then (- n) mod 2 ^ 64 else n)
              in Some (nat (u mod 2 ^ 32), rest))"

fun scan_dotted :: "nat \<Rightarrow> string \<Rightarrow> nat list \<Rightarrow> nat list \<times> string option" where
  "scan_dotted 0 s acc = (acc, Some s)"
| "scan_dotted (Suc k) s acc =
     (case scan_uint s of None \<Rightarrow> (acc, None)
      | Some (n, rest) \<Rightarrow>
          if k = 0 then (acc @ [n], Some rest)
          else (case rest of
                  c # rest' \<Rightarrow> if c = CHR ''.'' then scan_dotted k rest' (acc @ [n])
                              else (acc @ [n], None)
                | [] \<Rightarrow> (acc @ [n], None)))"

text \<open>Exactly four items: the fifth, one more character, must be missing.\<close>

definition ipv4_literal :: "string \<Rightarrow> (nat \<times> nat \<times> nat \<times> nat) option" where
  "ipv4_literal host =
     (case scan_dotted 4 host [] of
        ([a, b, c, d], Some []) \<Rightarrow> Some (a, b, c, d) | _ \<Rightarrow> None)"

definition strcaseeq :: "string \<Rightarrow> string \<Rightarrow> bool" where
  "strcaseeq a b \<longleftrightarrow> lower a = lower b"

definition host_is_local :: "string \<Rightarrow> bool" where
  "host_is_local host \<longleftrightarrow>
     strcaseeq host ''localhost'' \<or>
     (length host > 10 \<and> strcaseeq (drop (length host - 10) host) ''.localhost'') \<or>
     strcaseeq host ''::1'' \<or> strcaseeq host ''0:0:0:0:0:0:0:1'' \<or>
     strcaseeq (take 2 host) ''fc'' \<or> strcaseeq (take 2 host) ''fd'' \<or>
     strcaseeq (take 5 host) ''fe80:''"

definition host_is_private_literal :: "string \<Rightarrow> bool" where
  "host_is_private_literal host \<longleftrightarrow>
     (case ipv4_literal host of None \<Rightarrow> False
      | Some (a, b, c, d) \<Rightarrow>
          a \<le> 255 \<and> b \<le> 255 \<and> c \<le> 255 \<and> d \<le> 255 \<and>
          (a = 10 \<or> a = 127 \<or> a = 0 \<or> (a = 169 \<and> b = 254) \<or> (a = 192 \<and> b = 168) \<or>
           (a = 172 \<and> b \<ge> 16 \<and> b \<le> 31)))"

definition domain_matches :: "string \<Rightarrow> string \<Rightarrow> bool" where
  "domain_matches host allowed \<longleftrightarrow>
     allowed \<noteq> [] \<and>
     (strcaseeq host allowed \<or>
      (length host > length allowed \<and> host ! (length host - length allowed - 1) = CHR ''.'' \<and>
       strcaseeq (drop (length host - length allowed) host) allowed))"

text \<open>The scheme is stripped; \<open>None\<close> for any other scheme.\<close>

definition url_authority :: "string \<Rightarrow> string option" where
  "url_authority url =
     (let rest = (if strcaseeq (take 8 url) ''https://'' then Some (drop 8 url)
                  else if strcaseeq (take 7 url) ''http://'' then Some (drop 7 url) else None)
      in map_option (takeWhile (\<lambda>c. c \<noteq> CHR ''/'' \<and> c \<noteq> CHR ''?'' \<and> c \<noteq> CHR ''#'')) rest)"

definition authority_host :: "string \<Rightarrow> string option" where
  "authority_host authority =
     (if authority = [] \<or> CHR ''@'' \<in> set authority then None
      else let host =
          (if hd authority = CHR ''[''
           then map_option (\<lambda>k. tl (take k authority)) (memchr (CHR '']'') authority)
           else (case memchr (CHR '':'') authority of None \<Rightarrow> Some authority
                 | Some k \<Rightarrow> Some (take k authority)))
        in case host of None \<Rightarrow> None
           | Some h \<Rightarrow> if h = [] \<or> length h \<ge> 256 then None else Some h)"

definition safety_check_url :: "safety_config option \<Rightarrow> cptr \<Rightarrow> bool" where
  "safety_check_url cfgo urlo =
     (case (cfgo, urlo) of
        (Some cfg, Some url) \<Rightarrow>
          if safety_mode cfg = SAFETY_MODE_UNRESTRICTED then True
          else if \<not> allow_network cfg then False
          else (case url_authority url of None \<Rightarrow> False
                | Some authority \<Rightarrow>
                    (case authority_host authority of None \<Rightarrow> False
                     | Some host \<Rightarrow>
                         if host_is_local host then False
                         else if host_is_private_literal host then False
                         else if allowed_domains cfg \<noteq> []
                         then list_ex (domain_matches host) (allowed_domains cfg)
                         else True))
      | _ \<Rightarrow> False)"

section \<open>Sizes, approval, audit\<close>

definition safety_check_file_size :: "safety_config \<Rightarrow> nat \<Rightarrow> bool" where
  "safety_check_file_size cfg sz =
     (if safety_mode cfg = SAFETY_MODE_UNRESTRICTED then True else sz \<le> max_file_size cfg)"

definition safety_needs_approval :: "safety_config option \<Rightarrow> cptr \<Rightarrow> bool" where
  "safety_needs_approval cfgo tool =
     (case (cfgo, tool) of
        (Some cfg, Some t) \<Rightarrow>
          if safety_mode cfg = SAFETY_MODE_APPROVE_ALL then True
          else if safety_mode cfg = SAFETY_MODE_UNRESTRICTED then False
          else list_ex (\<lambda>n. n = t) (require_approval_for cfg)
      | _ \<Rightarrow> True)"

definition safety_allow_tool_always ::
  "safety_config option \<Rightarrow> cptr \<Rightarrow> int \<times> safety_config option" where
  "safety_allow_tool_always cfgo tool =
     (case (cfgo, tool) of
        (Some cfg, Some t) \<Rightarrow>
          (case find_index (\<lambda>n. n = t) (require_approval_for cfg) of
             None \<Rightarrow> (0, Some cfg)
           | Some i \<Rightarrow>
               (1, Some (cfg\<lparr>require_approval_for :=
                  take i (require_approval_for cfg) @ drop (i + 1) (require_approval_for cfg)\<rparr>)))
      | _ \<Rightarrow> (-1, cfgo))"

text \<open>
  The log file before and after; \<open>ts\<close> is the formatted local time. \<open>None\<close> is a file that
  cannot be opened, and \<open>close_ok\<close> whether the write and the close succeed.
\<close>

definition safety_audit_log ::
  "safety_config option \<Rightarrow> string \<Rightarrow> bool \<Rightarrow> cptr \<Rightarrow> string option \<Rightarrow> int \<times> string option" where
  "safety_audit_log cfgo ts close_ok entry file =
     (case (cfgo, entry) of
        (Some cfg, Some e) \<Rightarrow>
          (case (audit_log_path cfg, file) of
             (Some _, Some f) \<Rightarrow>
               ((if close_ok then 0 else -1),
                Some (f @ ''{'' @ [DQUOTE] @ ''timestamp'' @ [DQUOTE] @ '':'' @ [DQUOTE] @ ts @
                      [DQUOTE] @ '','' @ [DQUOTE] @ ''entry'' @ [DQUOTE] @ '':'' @ e @ ''}'' @ [LF]))
           | _ \<Rightarrow> (-1, file))
      | _ \<Rightarrow> (-1, file))"

section \<open>Workspace confinement\<close>

datatype errno = ENOENT | OtherError

definition PATH_MAX :: nat where "PATH_MAX = 4096"

definition safety_path_is_within_workspace ::
  "(string \<Rightarrow> errno + string) \<Rightarrow> safety_config option \<Rightarrow> cptr \<Rightarrow> bool" where
  "safety_path_is_within_workspace realpath cfgo path =
     (case (cfgo, path) of
        (Some cfg, Some p) \<Rightarrow>
          (case workspace cfg of None \<Rightarrow> False
           | Some w \<Rightarrow>
               if safety_mode cfg = SAFETY_MODE_UNRESTRICTED then True
               else (case (realpath w, realpath p) of
                       (Inr root, Inr canonical) \<Rightarrow>
                         take (length root) canonical = root \<and>
                         (length canonical = length root \<or> canonical ! length root = CHR ''/'')
                     | _ \<Rightarrow> False))
      | _ \<Rightarrow> False)"

text \<open>\<open>strrchr(s, '/')\<close>: the text before and after the last slash.\<close>

definition split_last_slash :: "string \<Rightarrow> (string \<times> string) option" where
  "split_last_slash s =
     (case find_index (\<lambda>c. c = CHR ''/'') (rev s) of None \<Rightarrow> None
      | Some k \<Rightarrow> Some (take (length s - k - 1) s, drop (length s - k) s))"

text \<open>
  The candidate path: canonical if it exists; for a file that does not exist yet the parent is
  resolved and the name attached.
\<close>

definition resolve_candidate ::
  "(string \<Rightarrow> errno + string) \<Rightarrow> safety_config \<Rightarrow> string \<Rightarrow> cptr" where
  "resolve_candidate realpath cfg candidate =
     (if length candidate \<ge> PATH_MAX then None
      else (case realpath candidate of
              Inr canonical \<Rightarrow>
                if safety_path_is_within_workspace realpath (Some cfg) (Some canonical)
                then Some canonical else None
            | Inl OtherError \<Rightarrow> None
            | Inl ENOENT \<Rightarrow>
                (case split_last_slash candidate of None \<Rightarrow> None
                 | Some (parent_buf, basename) \<Rightarrow>
                     if basename = [] then None
                     else (case realpath parent_buf of Inl _ \<Rightarrow> None
                           | Inr parent \<Rightarrow>
                               if safety_path_is_within_workspace realpath (Some cfg) (Some parent)
                               then Some (parent @ ''/'' @ basename) else None))))"

definition safety_resolve_path_alloc ::
  "(string \<Rightarrow> errno + string) \<Rightarrow> safety_config option \<Rightarrow> cptr \<Rightarrow> cptr" where
  "safety_resolve_path_alloc realpath cfgo path =
     (case (cfgo, path) of
        (Some cfg, Some p) \<Rightarrow>
          (case workspace cfg of None \<Rightarrow> None
           | Some w \<Rightarrow>
               if safety_mode cfg = SAFETY_MODE_UNRESTRICTED then Some p
               else if has_sub p ''..'' then None
               else (case realpath w of Inl _ \<Rightarrow> None
                     | Inr root \<Rightarrow>
                         resolve_candidate realpath cfg
                           (if p \<noteq> [] \<and> hd p = CHR ''/'' then p else root @ ''/'' @ p)))
      | _ \<Rightarrow> None)"

section \<open>Loading is fail-safe\<close>

text \<open>
  Whatever the configuration says, loading it into a fresh policy succeeds and is fail-safe:
  the checks are off only if the mode is literally \<open>unrestricted\<close>, and unless the mode is
  that or a list of tools is configured, exactly the six tools that modify files or run code
  need approval (every tool in the mode \<open>approve_all\<close>).
\<close>

theorem load_failsafe:
  "\<exists>cfg. safety_load_from_conf (Some safety_config_create) (Some conf) = (0, Some cfg) \<and>
     (safety_mode cfg = SAFETY_MODE_UNRESTRICTED \<longleftrightarrow>
        conf_get conf ''safety.mode'' = Some ''unrestricted'') \<and>
     (safety_needs_approval (Some cfg) (Some t) \<longleftrightarrow>
        safety_mode cfg = SAFETY_MODE_APPROVE_ALL \<or>
        safety_mode cfg = SAFETY_MODE_RESTRICTED \<and>
          t \<in> set (case conf_get conf ''safety.require_approval_for'' of
                      None \<Rightarrow> default_approvals
                    | Some v \<Rightarrow> if v = [] then default_approvals else parse_csv (Some v)))"
proof -
  have ne: "v \<noteq> [] \<Longrightarrow> parse_csv (Some v) \<noteq> []" for v
    by (simp add: parse_csv_def str_split_split_on)
  show ?thesis
    by (auto simp: safety_load_from_conf_def safety_config_create_def Let_def load_mode_def
        load_list_def safety_needs_approval_def list_ex_iff ne split: option.splits)
qed

section \<open>Commands: the check against a plain search\<close>

lemma set_pieces: "set (pieces d s) = {p. p \<noteq> [] \<and> (\<exists>w \<in> set (split_on d s). p = trim_by is_space w)}"
  by (auto simp: pieces_def trim_item_def str_trim_def str_split_split_on)

definition plain :: "string \<Rightarrow> bool" where
  "plain n \<longleftrightarrow> n \<noteq> [] \<and> \<not> is_space (hd n) \<and> \<not> is_space (last n) \<and>
     CHR '';'' \<notin> set n \<and> LF \<notin> set n \<and> CHR ''|'' \<notin> set n \<and> CHR ''&'' \<notin> set n"

lemma pieces_sublist: "p \<in> set (pieces d s) \<Longrightarrow> sublist p s"
  by (auto simp: set_pieces intro: sublist_order.order.trans trim_by_sublist split_on_piece_sublist)

lemma sublist_pieces:
  assumes "sublist n s" and "plain n" and "d \<notin> set n"
  obtains p where "p \<in> set (pieces d s)" "sublist n p"
proof -
  obtain w where w: "w \<in> set (split_on d s)" "sublist n w" using split_on_sublist assms(1,3) by metis
  have "sublist n (trim_by is_space w)" using w(2) assms(2) by (intro trim_by_keeps) (auto simp: plain_def)
  moreover from this assms(2) have "trim_by is_space w \<noteq> []" by (auto simp: plain_def)
  ultimately show thesis using w(1) that by (auto simp: set_pieces)
qed

lemma safety_check_command_iff:
  assumes "safety_mode cfg \<noteq> SAFETY_MODE_UNRESTRICTED"
  shows "\<not> safety_check_command cfg (Some c) \<longleftrightarrow>
     (\<exists>sem \<in> set (pieces (CHR '';'') c). \<exists>nl \<in> set (pieces LF sem).
        \<exists>st \<in> set (pieces (CHR ''|'') nl) \<union> set (pieces (CHR ''&'') nl).
          \<exists>n \<in> set dangerous_patterns. sublist n st)"
  using assms
  by (simp add: safety_check_command_def check_segment_def dangerous_def list_all_iff list_ex_iff
      has_sub_sublist) blast

lemma command_refused:
  assumes "safety_mode cfg \<noteq> SAFETY_MODE_UNRESTRICTED" and "n \<in> set dangerous_patterns" and "plain n"
    and "sublist n c"
  shows "\<not> safety_check_command cfg (Some c)"
proof -
  obtain sem where sem: "sem \<in> set (pieces (CHR '';'') c)" "sublist n sem"
    using sublist_pieces [OF assms(4,3)] assms(3) by (auto simp: plain_def)
  obtain nl where nl: "nl \<in> set (pieces LF sem)" "sublist n nl"
    using sublist_pieces [OF sem(2) assms(3)] assms(3) by (auto simp: plain_def)
  obtain st where st: "st \<in> set (pieces (CHR ''|'') nl)" "sublist n st"
    using sublist_pieces [OF nl(2) assms(3)] assms(3) by (auto simp: plain_def)
  show ?thesis using assms(1,2) sem(1) nl(1) st by (auto simp: safety_check_command_iff)
qed

definition fork_bomb :: string where "fork_bomb = '':(){ :|:& };:''"

lemma pieces_no_delim: "p \<in> set (pieces d s) \<Longrightarrow> d \<notin> set p"
  using split_on_no_delim trim_by_sublist set_mono_sublist by (fastforce simp: set_pieces)

lemma sublist_set: "sublist a b \<Longrightarrow> c \<in> set a \<Longrightarrow> c \<in> set b"
  using set_mono_sublist by blast

text \<open>
  C35: splitting a command at semicolons, newlines, pipes and ampersands changes nothing for the
  patterns that could occur within a piece: such a command is refused as soon as one of them
  occurs anywhere in it. Conversely a refused command contains a pattern. The fork bomb itself,
  spelled with the characters the command is split at, is in the list in vain: no command is
  refused for it.
\<close>

theorem command_check:
  assumes "safety_mode cfg \<noteq> SAFETY_MODE_UNRESTRICTED"
  shows "(list_ex (\<lambda>n. plain n \<and> sublist n c) dangerous_patterns \<longrightarrow> \<not> safety_check_command cfg (Some c)) \<and>
     (\<not> safety_check_command cfg (Some c) \<longrightarrow>
        list_ex (\<lambda>n. n \<noteq> fork_bomb \<and> sublist n c) dangerous_patterns) \<and>
     filter (\<lambda>n. \<not> plain n) dangerous_patterns = [fork_bomb, ''unlink ''] \<and>
     safety_check_command cfg (Some fork_bomb)"
proof (intro conjI impI)
  show "\<not> safety_check_command cfg (Some c)"
    if "list_ex (\<lambda>n. plain n \<and> sublist n c) dangerous_patterns"
    using that command_refused [OF assms] by (auto simp: list_ex_iff)
  show contains: "list_ex (\<lambda>n. n \<noteq> fork_bomb \<and> sublist n c) dangerous_patterns"
    if "\<not> safety_check_command cfg (Some c)" for c
  proof -
    from that obtain sem nl st n where *: "sem \<in> set (pieces (CHR '';'') c)" "nl \<in> set (pieces LF sem)"
      "st \<in> set (pieces (CHR ''|'') nl) \<union> set (pieces (CHR ''&'') nl)" "n \<in> set dangerous_patterns"
      "sublist n st" unfolding safety_check_command_iff [OF assms] by blast
    have "sublist n c" using * pieces_sublist sublist_order.order.trans by (metis Un_iff)
    moreover have "CHR '';'' \<notin> set n"
      using * pieces_no_delim [OF *(1)] pieces_sublist sublist_set by (metis Un_iff)
    then have "n \<noteq> fork_bomb" by (auto simp: fork_bomb_def)
    ultimately show ?thesis using *(4) by (auto simp: list_ex_iff)
  qed
  show "filter (\<lambda>n. \<not> plain n) dangerous_patterns = [fork_bomb, ''unlink '']"
    by (simp add: dangerous_patterns_def plain_def is_space_def fork_bomb_def)
  have "\<not> list_ex (\<lambda>n. n \<noteq> fork_bomb \<and> has_sub fork_bomb n) dangerous_patterns" by code_simp
  then show "safety_check_command cfg (Some fork_bomb)"
    using contains by (auto simp: has_sub_sublist)
qed

theorem command_check_witness:
  "\<not> safety_check_command safety_config_create (Some ''cd /tmp && sudo rm x'')"
  by (rule command_check [THEN conjunct1, rule_format])
     (simp_all add: safety_config_create_def dangerous_patterns_def plain_def is_space_def
       flip: has_sub_sublist, simp add: has_sub_def)

section \<open>Networks\<close>

text \<open>A network in CIDR notation: the address and the length of its prefix.\<close>

definition in_net :: "u32 \<Rightarrow> u32 \<times> nat \<Rightarrow> bool" where
  "in_net addr net \<longleftrightarrow> drop_bit (32 - snd net) addr = drop_bit (32 - snd net) (fst net)"

text \<open>0/8, 10/8, 127/8, 224/3, 100.64/10, 169.254/16, 172.16/12, 192.0/16, 192.168/16, 198.18/15\<close>

definition non_public_nets :: "(u32 \<times> nat) list" where
  "non_public_nets = [(0x00000000, 8), (0x0A000000, 8), (0x7F000000, 8), (0xE0000000, 3),
     (0x64400000, 10), (0xA9FE0000, 16), (0xAC100000, 12), (0xC0000000, 16), (0xC0A80000, 16),
     (0xC6120000, 15)]"

lemma unat32: "unat (w :: u32) < 2 ^ 32"
proof -
  have "unat w < 2 ^ LENGTH(32)" by (rule unsigned_less)
  then show ?thesis by simp
qed

lemma in_net_div: "in_net addr net \<longleftrightarrow> unat addr div 2 ^ (32 - snd net) = unat (fst net) div 2 ^ (32 - snd net)"
proof -
  have "take_bit 32 (unat (w :: u32)) = unat w" for w by (rule take_bit_nat_eq_self) (rule unat32)
  then show ?thesis
    unfolding in_net_def word_unat_eq_iff by (simp only: unsigned_drop_bit_eq) (simp add: drop_bit_eq_div)
qed

lemma div_as_interval: "0 < (k :: nat) \<Longrightarrow> x div k = q \<longleftrightarrow> q * k \<le> x \<and> x < (q + 1) * k"
  using div_nat_eqI [of k q x] dividend_less_times_div [of k x] times_div_less_eq_dividend [of k x]
  by (auto simp: mult.commute)

lemma block:
  fixes a b :: nat
  assumes "b < 256" and "h < 256"
  shows "256 * n + l \<le> 256 * a + b \<and> 256 * a + b < 256 * n + h + 1 \<longleftrightarrow> a = n \<and> l \<le> b \<and> b \<le> h"
proof
  assume *: "256 * n + l \<le> 256 * a + b \<and> 256 * a + b < 256 * n + h + 1"
  have "256 * n < 256 * (a + 1)" using * assms by simp
  moreover have "256 * a < 256 * (n + 1)" using * assms by simp
  ultimately have "a = n" by simp
  with * show "a = n \<and> l \<le> b \<and> b \<le> h" by simp
qed auto

lemma high_low:
  fixes x :: nat
  assumes "x < 65536" and a: "a = x div 256" and b: "b = x mod 256"
  shows "a \<ge> 224 \<longleftrightarrow> x div 8192 = 7"
    and "a = 100 \<and> 64 \<le> b \<and> b \<le> 127 \<longleftrightarrow> x div 64 = 401"
    and "a = 169 \<and> b = 254 \<longleftrightarrow> x = 43518"
    and "a = 172 \<and> 16 \<le> b \<and> b \<le> 31 \<longleftrightarrow> x div 16 = 2753"
    and "a = 192 \<and> (b = 0 \<or> b = 168) \<longleftrightarrow> x = 49152 \<or> x = 49320"
    and "a = 198 \<and> (b = 18 \<or> b = 19) \<longleftrightarrow> x div 2 = 25353"
proof -
  have x: "x = 256 * a + b" and lt: "b < 256" "a < 256"
    using assms by (simp_all add: less_mult_imp_div_less)
  have point: "x = 256 * n + l \<longleftrightarrow> a = n \<and> b = l" if "l < 256" for n l
    using block [OF lt(1) that, of n l a] unfolding x by linarith
  show "a \<ge> 224 \<longleftrightarrow> x div 8192 = 7" using x lt by (auto simp: div_as_interval)
  show "a = 100 \<and> 64 \<le> b \<and> b \<le> 127 \<longleftrightarrow> x div 64 = 401"
    using block [OF lt(1), of 127 100 64 a] by (simp add: div_as_interval x)
  show "a = 169 \<and> b = 254 \<longleftrightarrow> x = 43518" using point [of 254 169] by simp
  show "a = 172 \<and> 16 \<le> b \<and> b \<le> 31 \<longleftrightarrow> x div 16 = 2753"
    using block [OF lt(1), of 31 172 16 a] by (simp add: div_as_interval x)
  show "a = 192 \<and> (b = 0 \<or> b = 168) \<longleftrightarrow> x = 49152 \<or> x = 49320"
    using point [of 0 192] point [of 168 192] by auto
  have "b = 18 \<or> b = 19 \<longleftrightarrow> 18 \<le> b \<and> b \<le> 19" by auto
  then show "a = 198 \<and> (b = 18 \<or> b = 19) \<longleftrightarrow> x div 2 = 25353"
    using block [OF lt(1), of 19 198 18 a] by (simp add: div_as_interval x)
qed

lemma octet: "unat (drop_bit n (w :: u32) AND 0xFF) = unat w div 2 ^ n mod 256"
proof -
  have "drop_bit n w AND 0xFF = take_bit 8 (drop_bit n w)"
    by (simp add: take_bit_eq_mask mask_eq_exp_minus_1)
  then have "unat (drop_bit n w AND 0xFF) = take_bit 8 (unat (drop_bit n w))"
    by (simp only: unsigned_take_bit_eq)
  then show ?thesis
    by (simp only: unsigned_drop_bit_eq)
       (simp add: drop_bit_eq_div take_bit_eq_mod mod_less [OF unat32, simplified])
qed

lemma ipv4_nets: "ipv4_is_public addr \<longleftrightarrow> \<not> list_ex (in_net addr) non_public_nets"
proof -
  define x where "x = unat addr div 2 ^ 16"
  have x: "x < 65536" using unat32 [of addr] by (simp add: x_def less_mult_imp_div_less)
  have d: "unat addr div 2 ^ (16 + k) = x div 2 ^ k" for k
    by (simp add: x_def power_add div_mult2_eq)
  have a: "unat (drop_bit 24 addr AND 0xFF) = x div 256"
    using d [of 8] x by (simp add: octet less_mult_imp_div_less)
  have b: "unat (drop_bit 16 addr AND 0xFF) = x mod 256" by (simp add: octet x_def)
  have nets: "list_ex (in_net addr) non_public_nets \<longleftrightarrow>
      x div 256 = 0 \<or> x div 256 = 10 \<or> x div 256 = 127 \<or> x div 8192 = 7 \<or> x div 64 = 401 \<or>
      x = 43518 \<or> x div 16 = 2753 \<or> x = 49152 \<or> x = 49320 \<or> x div 2 = 25353"
  proof -
    have n: "in_net addr (net, 16 - k) \<longleftrightarrow> x div 2 ^ k = unat net div 2 ^ (16 + k)" if "k \<le> 16" for net k
    proof -
      have "32 - (16 - k) = 16 + k" using that by simp
      then show ?thesis by (simp only: in_net_div fst_conv snd_conv d)
    qed
    show ?thesis
      using n [of 8 0] n [of 8 "0x0A000000"] n [of 8 "0x7F000000"] n [of 13 "0xE0000000"]
        n [of 6 "0x64400000"] n [of 0 "0xA9FE0000"] n [of 4 "0xAC100000"] n [of 0 "0xC0000000"]
        n [of 0 "0xC0A80000"] n [of 1 "0xC6120000"]
      by (simp add: non_public_nets_def)
  qed
  show ?thesis
    unfolding ipv4_is_public_def a b nets Let_def 
    by (simp only: high_low [OF x refl refl] disj_assoc)
qed

text \<open>
  Outside the unrestricted mode an IPv4 socket address is accepted exactly when it lies in
  none of the ten non-public networks, given in CIDR notation; the same address mapped into
  IPv6 is treated the same, so that the mapping is no way around the check.
\<close>

theorem socket_address_nets:
  assumes "safety_mode cfg \<noteq> SAFETY_MODE_UNRESTRICTED"
  shows "(safety_check_socket_address (Some cfg) (Some (AF_INET addr)) \<longleftrightarrow>
       \<not> list_ex (in_net addr) non_public_nets) \<and>
     safety_check_socket_address (Some cfg)
         (Some (AF_INET6 (replicate 10 0 @ [0xFF, 0xFF, a, b, c, d]))) =
       safety_check_socket_address (Some cfg) (Some (AF_INET (be_word [a, b, c, d])))"
proof -
  have r: "replicate 10 (0 :: u8) = [0, 0, 0, 0, 0, 0, 0, 0, 0, 0]"
    "replicate 15 (0 :: u8) = [0, 0, 0, 0, 0, 0, 0, 0, 0, 0, 0, 0, 0, 0, 0]"
    "replicate 16 (0 :: u8) = [0, 0, 0, 0, 0, 0, 0, 0, 0, 0, 0, 0, 0, 0, 0, 0]"
    by (simp_all add: eval_nat_numeral)
  show ?thesis
    using assms
    by (simp add: safety_check_socket_address_def ipv4_nets [symmetric] in6_is_v4mapped_def r)
qed

theorem socket_address_nets_witness:
  "\<not> safety_check_socket_address (Some safety_config_create) (Some (AF_INET 0xC0A80101)) \<and>
   safety_check_socket_address (Some safety_config_create) (Some (AF_INET 0x08080808))"
proof -
  have "list_ex (in_net 0xC0A80101) non_public_nets" "\<not> list_ex (in_net 0x08080808) non_public_nets"
    by (simp_all add: non_public_nets_def in_net_div)
  then show ?thesis
    using socket_address_nets [of safety_config_create "0xC0A80101" 0 0 0 0]
      socket_address_nets [of safety_config_create "0x08080808" 0 0 0 0]
    by (simp add: safety_config_create_def)
qed

section \<open>Confinement to the workspace\<close>

text \<open>What POSIX promises of \<open>realpath\<close>: a canonical path resolves to itself.\<close>

locale realpath_spec =
  fixes realpath :: "string \<Rightarrow> errno + string"
  assumes canonical: "realpath p = Inr c \<Longrightarrow> realpath c = Inr c"
begin

lemma within_canonical:
  assumes "safety_path_is_within_workspace realpath (Some cfg) (Some p)" and "realpath p = Inr p"
    and "safety_mode cfg \<noteq> SAFETY_MODE_UNRESTRICTED" and "workspace cfg = Some w"
  obtains root where "realpath w = Inr root" and "p = root \<or> prefix (root @ ''/'') p"
proof -
  obtain root where root: "realpath w = Inr root" "take (length root) p = root"
    "length p = length root \<or> p ! length root = CHR ''/''"
    using assms by (auto simp: safety_path_is_within_workspace_def split: sum.splits)
  have "p = root @ drop (length root) p" using root(2) by (metis append_take_drop_id)
  then have "p = root \<or> prefix (root @ ''/'') p"
    using root(3) by (cases "drop (length root) p") (auto simp: prefix_def nth_append)
  with root(1) that show thesis by blast
qed

end

definition inside :: "string \<Rightarrow> string \<Rightarrow> bool" where
  "inside root p \<longleftrightarrow> p = root \<or> prefix (root @ ''/'') p"

lemma split_last_slash_Some:
  assumes "split_last_slash s = Some (a, b)"
  shows "s = a @ ''/'' @ b \<and> CHR ''/'' \<notin> set b"
proof -
  from assms obtain k where k: "find_index (\<lambda>c. c = CHR ''/'') (rev s) = Some k"
    "a = take (length s - k - 1) s" "b = drop (length s - k) s"
    by (auto simp: split_last_slash_def split: option.splits)
  from find_index_Some [OF k(1)] have f: "k < length s" "rev s ! k = CHR ''/''"
    "\<forall>x \<in> set (take k (rev s)). x \<noteq> CHR ''/''" by auto
  have "s ! (length s - k - 1) = CHR ''/''" using f(1,2) by (simp add: rev_nth)
  moreover have "Suc (length s - k - 1) = length s - k" using f(1) by simp
  ultimately have "s = a @ ''/'' @ b"
    using id_take_nth_drop [of "length s - k - 1" s] f(1) k(2,3) by simp
  moreover have "b = rev (take k (rev s))" using k(3) by (simp add: take_rev)
  ultimately show ?thesis using f(3) by auto
qed

lemma suffix_no_slash:
  assumes "x @ ''/'' @ p = a @ ''/'' @ b" and "CHR ''/'' \<notin> set b"
  shows "suffix b p"
proof -
  have "suffix p (x @ ''/'' @ p)" by (intro suffixI [of _ "x @ ''/''"]) simp
  moreover have "suffix b (x @ ''/'' @ p)" unfolding assms(1) by (intro suffixI [of _ "a @ ''/''"]) simp
  ultimately consider "suffix b p" | "suffix p b" "length p < length b"
    by (metis suffix_length_suffix not_le_imp_less nat_le_linear)
  then show ?thesis
  proof cases
    case 2
    have "suffix (''/'' @ p) (x @ ''/'' @ p)" by (auto simp: suffix_def)
    then have "suffix (''/'' @ p) b"
      using 2(2) \<open>suffix b (x @ ''/'' @ p)\<close> by (rule_tac suffix_length_suffix) auto
    then have "CHR ''/'' \<in> set b" by (auto simp: suffix_def)
    with assms(2) show ?thesis by contradiction
  qed simp
qed

text \<open>The path as it is looked up: a relative one starts at the workspace.\<close>

definition candidate :: "string \<Rightarrow> string \<Rightarrow> string" where
  "candidate root p = (if p \<noteq> [] \<and> hd p = CHR ''/'' then p else root @ ''/'' @ p)"

lemma resolved_inside:
  assumes "realpath_spec realpath" and "safety_mode cfg \<noteq> SAFETY_MODE_UNRESTRICTED"
    and "workspace cfg = Some w" and "safety_resolve_path_alloc realpath (Some cfg) (Some p) = Some r"
  shows "\<exists>root. realpath w = Inr root \<and> inside root r \<and>
     (realpath (candidate root p) = Inr r \<and> realpath r = Inr r \<or>
      realpath (candidate root p) = Inl ENOENT \<and>
      (\<exists>dir parent base. candidate root p = dir @ ''/'' @ base \<and> realpath dir = Inr parent \<and>
         realpath parent = Inr parent \<and> inside root parent \<and> r = parent @ ''/'' @ base \<and>
         base \<noteq> [] \<and> CHR ''/'' \<notin> set base \<and> \<not> has_sub base ''..''))"
proof -
  note canonical = realpath_spec.canonical [OF assms(1)]
  have within: "\<exists>root. realpath w = Inr root \<and> inside root c"
    if "safety_path_is_within_workspace realpath (Some cfg) (Some c)" "realpath c = Inr c" for c
    using realpath_spec.within_canonical [OF assms(1) that assms(2,3)] by (metis inside_def)
  have nodots: "\<not> has_sub p ''..''"
    using assms(2-4) by (auto simp: safety_resolve_path_alloc_def split: if_splits)
  define root where "root = (case realpath w of Inr r \<Rightarrow> r | Inl _ \<Rightarrow> [])"
  define cand where "cand = candidate root p"
  have root: "realpath w = Inr root"
    using assms(2-4) by (auto simp: safety_resolve_path_alloc_def root_def split: if_splits sum.splits)
  have step: "resolve_candidate realpath cfg cand = Some r"
    using assms(2-4) nodots root by (simp add: safety_resolve_path_alloc_def cand_def candidate_def)
  show ?thesis
  proof (cases "realpath cand")
    case (Inr c)
    with step have "r = c" "safety_path_is_within_workspace realpath (Some cfg) (Some c)"
      by (auto simp: resolve_candidate_def split: if_splits)
    with within [of c] canonical [OF Inr] Inr root show ?thesis by (auto simp: cand_def)
  next
    case (Inl e)
    with step have e: "e = ENOENT" by (auto simp: resolve_candidate_def split: if_splits errno.splits)
    from step Inl obtain pb base parent where *: "split_last_slash cand = Some (pb, base)"
      "base \<noteq> []" "realpath pb = Inr parent" "r = parent @ ''/'' @ base"
      "safety_path_is_within_workspace realpath (Some cfg) (Some parent)"
      by (auto simp: resolve_candidate_def split: if_splits option.splits sum.splits errno.splits)
    note base = split_last_slash_Some [OF *(1)]
    have "suffix base p"
      using base suffix_no_slash [of root p pb base] by (auto simp: cand_def candidate_def suffix_def split: if_splits)
    then have "\<not> has_sub base ''..''"
      using nodots by (metis has_sub_sublist sublist_order.order.trans suffix_imp_sublist)
    moreover have rt: "inside root parent"
      using within [OF *(5) canonical [OF *(3)]] root by simp
    moreover have "inside root r" using rt *(4) by (auto simp: inside_def prefix_def)
    moreover have "realpath cand = Inl ENOENT" using Inl e by simp
    ultimately show ?thesis using * base canonical [OF *(3)] root unfolding cand_def by blast
  qed
qed

text \<open>
  C12: outside the unrestricted mode every path that is resolved has its name in the workspace: the
  canonical workspace root or below it. If the path exists, the result is its canonical name, so
  absolute paths, \<open>..\<close> and symbolic links to existing files cannot lead out. If it is reported as
  missing, and only then, the result is a name, without slashes or \<open>..\<close>, in a canonical directory
  of the workspace. What is at that name is not looked at: a symbolic link whose target is missing
  also counts as missing.
\<close>

theorem resolve_confined:
  assumes "realpath_spec realpath" and "safety_mode cfg \<noteq> SAFETY_MODE_UNRESTRICTED"
    and "workspace cfg = Some w" and "safety_resolve_path_alloc realpath (Some cfg) (Some p) = Some r"
  shows "\<exists>root. realpath w = Inr root \<and> inside root r \<and>
     (realpath (candidate root p) = Inr r \<and> realpath r = Inr r \<or>
      realpath (candidate root p) = Inl ENOENT \<and>
      (\<exists>dir parent base. candidate root p = dir @ ''/'' @ base \<and> realpath dir = Inr parent \<and>
         realpath parent = Inr parent \<and> inside root parent \<and> r = parent @ ''/'' @ base \<and>
         base \<noteq> [] \<and> CHR ''/'' \<notin> set base \<and> \<not> has_sub base ''..''))"
  by (rule resolved_inside [OF assms])

definition sample_realpath :: "string \<Rightarrow> errno + string" where
  "sample_realpath p =
     (if p \<in> {''/w'', ''/w/a.txt'', ''/etc''} then Inr p
      else if p = ''/w/link'' then Inr ''/etc'' else Inl ENOENT)"

interpretation sample: realpath_spec sample_realpath
  by unfold_locales (auto simp: sample_realpath_def split: if_splits)

definition work_config :: safety_config where
  "work_config = safety_config_create\<lparr>workspace := Some ''/w''\<rparr>"

theorem resolve_confined_witness:
  "safety_resolve_path_alloc sample_realpath (Some work_config) (Some ''new.txt'') = Some ''/w/new.txt'' \<and>
   (\<exists>root. sample_realpath ''/w'' = Inr root \<and> inside root ''/w/new.txt'') \<and>
   safety_resolve_path_alloc sample_realpath (Some work_config) (Some ''link'') = None"
proof -
  have new: "safety_resolve_path_alloc sample_realpath (Some work_config) (Some ''new.txt'') = Some ''/w/new.txt''"
    by (simp add: safety_resolve_path_alloc_def resolve_candidate_def work_config_def
        safety_config_create_def sample_realpath_def has_sub_def split_last_slash_def PATH_MAX_def
        safety_path_is_within_workspace_def)
  moreover have "safety_resolve_path_alloc sample_realpath (Some work_config) (Some ''link'') = None"
    by (simp add: safety_resolve_path_alloc_def resolve_candidate_def work_config_def
        safety_config_create_def sample_realpath_def has_sub_def PATH_MAX_def
        safety_path_is_within_workspace_def)
  moreover have "safety_mode work_config \<noteq> SAFETY_MODE_UNRESTRICTED" "workspace work_config = Some ''/w''"
    by (simp_all add: work_config_def safety_config_create_def)
  ultimately show ?thesis
    using resolve_confined [OF sample.realpath_spec_axioms _ _ new] by blast
qed

end
