(* ===== verification/Keymap.thy ===== *)
theory Keymap
  imports ConfigFile
begin

text \<open>
  \<open>tui/tui_keys.c\<close>: key specifications, the table of bindings and the leader key. A key is
  identified by a number: the small numbers of the enumeration, otherwise the character code.
  \<open>strtok_r\<close> yields the non-empty pieces between the delimiters. Fixed arrays are lists; the
  copies into them are cut to the length of the array. Times are milliseconds modulo \<open>2 ^ 64\<close>.
\<close>

section \<open>Key strokes\<close>

definition KEYID_LEADER :: nat where "KEYID_LEADER = 1"
definition KEYID_F1 :: nat where "KEYID_F1 = 17"
definition KEYID_F12 :: nat where "KEYID_F12 = 28"

record key_stroke =
  key_id :: nat
  ctrl :: bool
  shift :: bool
  alt :: bool
  meta :: bool
  super :: bool

definition no_key :: key_stroke where
  "no_key = \<lparr>key_id = 0, ctrl = False, shift = False, alt = False, meta = False, super = False\<rparr>"

text \<open>The names with their identifiers, as \<open>name_to_keyid\<close> lists them.\<close>

definition key_names :: "(string \<times> nat) list" where
  "key_names =
     [(''enter'', 2), (''return'', 2), (''esc'', 3), (''escape'', 3), (''tab'', 4),
      (''backspace'', 5), (''del'', 6), (''delete'', 6), (''insert'', 7), (''ins'', 7),
      (''home'', 8), (''end'', 9), (''pgup'', 10), (''pageup'', 10), (''pgdown'', 11),
      (''pagedown'', 11), (''up'', 12), (''down'', 13), (''left'', 14), (''right'', 15),
      (''space'', 16), (''scrollup'', 29), (''scrolldown'', 30)]"

definition name_to_keyid :: "string \<Rightarrow> nat option" where
  "name_to_keyid name =
     (case map_of key_names name of Some i \<Rightarrow> Some i
      | None \<Rightarrow>
          if name \<noteq> [] \<and> (hd name = CHR ''f'' \<or> hd name = CHR ''F'')
          then (case strtol (tl name) of
                  Some (n, rest) \<Rightarrow>
                    if rest = [] \<and> n \<ge> 1 \<and> n \<le> 12 then Some (KEYID_F1 + nat (n - 1)) else None
                | None \<Rightarrow> None)
          else None)"

definition parse_key_token :: "string \<Rightarrow> nat option" where
  "parse_key_token tok =
     (let len = length tok
      in if len = 0 then None
         else if tok = ''leader'' \<or> tok = ''<leader>'' then Some KEYID_LEADER
         else if len = 1 \<and> hd tok = CHR ''<'' then None
         else if len \<ge> 24 then None
         else (case name_to_keyid (lower tok) of Some k \<Rightarrow> Some k
               | None \<Rightarrow> if len = 1 then Some (byte (hd tok)) else None))"

definition tui_key_stroke_normalize :: "key_stroke \<Rightarrow> key_stroke" where
  "tui_key_stroke_normalize s =
     (if 65 \<le> key_id s \<and> key_id s \<le> 90
      then let s' = s\<lparr>key_id := key_id s - 65 + 97\<rparr>
           in if \<not> ctrl s' then s'\<lparr>shift := True\<rparr> else s'
      else s)"

definition tui_key_stroke_equal :: "key_stroke \<Rightarrow> key_stroke \<Rightarrow> bool" where
  "tui_key_stroke_equal a b \<longleftrightarrow>
     key_id a = key_id b \<and> ctrl a = ctrl b \<and> shift a = shift b \<and> alt a = alt b \<and>
     meta a = meta b \<and> super a = super b"

section \<open>Parsing a specification\<close>

definition strtok :: "char \<Rightarrow> string \<Rightarrow> string list" where
  "strtok d s = filter (\<lambda>p. p \<noteq> []) (split_on d s)"

text \<open>Modifiers attach to the next key; \<open>out\<close> are the strokes so far.\<close>

fun parse_parts ::
  "nat \<Rightarrow> key_stroke \<Rightarrow> key_stroke list \<Rightarrow> string list \<Rightarrow> key_stroke list option" where
  "parse_parts cap cur out [] = Some out"
| "parse_parts cap cur out (tok # toks) =
     (if length tok \<ge> 24 then None
      else let m = lower tok
           in if m = ''ctrl'' then parse_parts cap (cur\<lparr>ctrl := True\<rparr>) out toks
              else if m = ''shift'' then parse_parts cap (cur\<lparr>shift := True\<rparr>) out toks
              else if m = ''alt'' then parse_parts cap (cur\<lparr>alt := True\<rparr>) out toks
              else if m = ''meta'' then parse_parts cap (cur\<lparr>meta := True\<rparr>) out toks
              else if m = ''super'' then parse_parts cap (cur\<lparr>super := True\<rparr>) out toks
              else (case parse_key_token tok of None \<Rightarrow> None
                    | Some i \<Rightarrow>
                        if length out \<ge> cap then None
                        else parse_parts cap no_key
                               (out @ [tui_key_stroke_normalize (cur\<lparr>key_id := i\<rparr>)]) toks))"

function parse_stroke_run :: "nat \<Rightarrow> string \<Rightarrow> key_stroke list option" where
  "parse_stroke_run cap str =
     (if prefix ''<leader>'' str \<and> length str > 8 then
        (if cap < 2 then None
         else map_option (Cons (no_key\<lparr>key_id := KEYID_LEADER\<rparr>))
                (parse_stroke_run (cap - 1) (drop 8 str)))
      else if length str \<ge> 64 then None
      else let parts = strtok (CHR ''+'') str
           in if length parts > 8 \<or> parts = [] then None
              else (case parse_parts cap no_key [] parts of None \<Rightarrow> None
                    | Some out \<Rightarrow> if out = [] then None else Some out))"
  by pat_completeness auto
termination
  by (relation "measure (\<lambda>(cap, str). length str)") auto

declare parse_stroke_run.simps [simp del]

fun parse_chord :: "key_stroke list \<Rightarrow> string list \<Rightarrow> key_stroke list option" where
  "parse_chord tmp [] = (if tmp = [] then None else Some tmp)"
| "parse_chord tmp (tok # toks) =
     (case parse_stroke_run 4 tok of None \<Rightarrow> None
      | Some r \<Rightarrow> if length tmp + length r > 4 then None else parse_chord (tmp @ r) toks)"

fun parse_alts :: "key_stroke list list \<Rightarrow> string list \<Rightarrow> key_stroke list list option" where
  "parse_alts alts [] = (if alts = [] then None else Some alts)"
| "parse_alts alts (p # ps) =
     (if length alts \<ge> 4 then Some alts
      else let s = trim_by is_space p
           in if s = [] then parse_alts alts ps
              else (case parse_chord [] (strtok SP s) of None \<Rightarrow> None
                    | Some keys \<Rightarrow> parse_alts (alts @ [keys]) ps))"

definition tui_key_parse :: "cptr \<Rightarrow> key_stroke list list option" where
  "tui_key_parse spec =
     (case spec of None \<Rightarrow> None
      | Some s \<Rightarrow> if length s \<ge> 256 then None else parse_alts [] (strtok (CHR '','') s))"

section \<open>Printing a stroke\<close>

definition keyid_to_name :: "nat \<Rightarrow> string option" where
  "keyid_to_name i =
     (case find (\<lambda>(n, j). j = i) key_names of Some (n, j) \<Rightarrow> Some n
      | None \<Rightarrow> if KEYID_F1 \<le> i \<and> i \<le> KEYID_F12 then Some (''f'' @ dec_nat (i - KEYID_F1 + 1)) else None)"

text \<open>With a buffer that is large enough; \<open>%c\<close> prints the low byte.\<close>

definition tui_key_stroke_to_string :: "key_stroke \<Rightarrow> string" where
  "tui_key_stroke_to_string s =
     (if ctrl s then ''ctrl+'' else []) @ (if shift s then ''shift+'' else []) @
     (if alt s then ''alt+'' else []) @ (if meta s then ''meta+'' else []) @
     (if super s then ''super+'' else []) @
     (case keyid_to_name (key_id s) of Some n \<Rightarrow> n
      | None \<Rightarrow>
          if 0x20 \<le> key_id s \<and> key_id s < 0x110000 \<and> key_id s \<noteq> 0x7f then [chr (key_id s mod 256)]
          else ''key'' @ dec_nat (key_id s))"

section \<open>The keymap\<close>

record key_binding =
  name :: string
  category :: string
  desc :: string
  keys :: string
  enabled :: bool
  alts :: "key_stroke list list"

record keymap =
  bindings :: "key_binding list"
  leader :: key_stroke
  leader_spec :: string
  leader_timeout :: nat
  leader_armed :: bool
  leader_deadline :: nat

definition MAX_BINDINGS :: nat where "MAX_BINDINGS = 128"

definition copy_field :: "nat \<Rightarrow> string \<Rightarrow> string" where
  "copy_field cap src = take (cap - 1) src"

definition binding_index :: "keymap \<Rightarrow> string \<Rightarrow> nat option" where
  "binding_index km n = find_index (\<lambda>b. name b = n) (bindings km)"

definition tui_keymap_set_leader :: "keymap \<Rightarrow> cptr \<Rightarrow> int \<times> keymap" where
  "tui_keymap_set_leader km spec =
     (case tui_key_parse spec of
        Some [[s]] \<Rightarrow>
          if key_id s = KEYID_LEADER then (-1, km)
          else (0, km\<lparr>leader := s, leader_spec := copy_field 64 (the spec)\<rparr>)
      | _ \<Rightarrow> (-1, km))"

definition empty_keymap :: keymap where
  "empty_keymap = \<lparr>bindings = [], leader = no_key, leader_spec = [], leader_timeout = 0,
     leader_armed = False, leader_deadline = 0\<rparr>"

definition tui_keymap_create :: "keymap option" where
  "tui_keymap_create =
     (case tui_keymap_set_leader empty_keymap (Some ''ctrl+x'') of
        (rc, km) \<Rightarrow> if rc \<noteq> 0 then None else Some (km\<lparr>leader_timeout := 2000\<rparr>))"

text \<open>Registering a known name replaces the binding as given, but keeps its enabled flag.\<close>

definition tui_keymap_register :: "keymap \<Rightarrow> key_binding \<Rightarrow> int \<times> keymap" where
  "tui_keymap_register km b =
     (case binding_index km (name b) of
        Some i \<Rightarrow> (0, km\<lparr>bindings := (bindings km)[i := b\<lparr>enabled := enabled (bindings km ! i)\<rparr>]\<rparr>)
      | None \<Rightarrow>
          if length (bindings km) \<ge> MAX_BINDINGS then (-1, km)
          else (case tui_key_parse (Some (keys b)) of None \<Rightarrow> (-1, km)
                | Some strokes \<Rightarrow>
                    (0, km\<lparr>bindings := bindings km @
                       [\<lparr>name = copy_field 48 (name b), category = copy_field 24 (category b),
                         desc = copy_field 96 (desc b), keys = copy_field 64 (keys b),
                         enabled = True, alts = strokes\<rparr>]\<rparr>)))"

definition tui_keymap_bind :: "keymap \<Rightarrow> string \<Rightarrow> string \<Rightarrow> int \<times> keymap" where
  "tui_keymap_bind km n spec =
     (case binding_index km n of None \<Rightarrow> (-1, km)
      | Some i \<Rightarrow>
          let b = bindings km ! i
          in if spec = [] \<or> spec = ''none''
             then (0, km\<lparr>bindings := (bindings km)[i := b\<lparr>enabled := False\<rparr>]\<rparr>)
             else (case tui_key_parse (Some spec) of None \<Rightarrow> (-1, km)
                   | Some strokes \<Rightarrow>
                       (0, km\<lparr>bindings := (bindings km)[i := b\<lparr>keys := copy_field 64 spec,
                              alts := strokes, enabled := True\<rparr>]\<rparr>)))"

definition tui_keymap_disable :: "keymap \<Rightarrow> string \<Rightarrow> int \<times> keymap" where
  "tui_keymap_disable km n =
     (case binding_index km n of None \<Rightarrow> (-1, km)
      | Some i \<Rightarrow> (0, km\<lparr>bindings := (bindings km)[i := (bindings km ! i)\<lparr>enabled := False\<rparr>]\<rparr>))"

definition tui_keymap_set_leader_timeout :: "keymap \<Rightarrow> nat \<Rightarrow> keymap" where
  "tui_keymap_set_leader_timeout km ms = km\<lparr>leader_timeout := (if ms > 0 then ms else 1)\<rparr>"

definition tui_keymap_leader_clear :: "keymap \<Rightarrow> keymap" where
  "tui_keymap_leader_clear km = km\<lparr>leader_armed := False\<rparr>"

definition tui_keymap_leader_expired :: "keymap \<Rightarrow> nat \<Rightarrow> bool \<times> keymap" where
  "tui_keymap_leader_expired km now =
     (if \<not> leader_armed km then (False, km)
      else if now \<ge> leader_deadline km then (True, km\<lparr>leader_armed := False\<rparr>)
      else (False, km))"

datatype keymap_result = Cmd string | Leader | NoMatch

text \<open>The two searches of the dispatcher: the first enabled binding with a fitting alternative.\<close>

definition chord_alt :: "key_stroke \<Rightarrow> key_stroke list \<Rightarrow> bool" where
  "chord_alt s a \<longleftrightarrow> length a \<ge> 2 \<and> key_id (a ! 0) = KEYID_LEADER \<and> length a = 2 \<and>
     tui_key_stroke_equal (a ! 1) s"

definition single_alt :: "key_stroke \<Rightarrow> key_stroke list \<Rightarrow> bool" where
  "single_alt s a \<longleftrightarrow> length a = 1 \<and> tui_key_stroke_equal (a ! 0) s"

definition find_binding :: "(key_stroke list \<Rightarrow> bool) \<Rightarrow> keymap \<Rightarrow> string option" where
  "find_binding p km = map_option name (find (\<lambda>b. enabled b \<and> list_ex p (alts b)) (bindings km))"

definition tui_keymap_dispatch :: "keymap \<Rightarrow> key_stroke \<Rightarrow> nat \<Rightarrow> keymap_result \<times> keymap" where
  "tui_keymap_dispatch km stroke now =
     (let norm = tui_key_stroke_normalize stroke;
          km1 = (if leader_armed km then snd (tui_keymap_leader_expired km now) else km);
          chord = (if leader_armed km1 then find_binding (chord_alt norm) km1 else None);
          km2 = (if leader_armed km1 then km1\<lparr>leader_armed := False\<rparr> else km1)
      in case chord of Some n \<Rightarrow> (Cmd n, km2)
         | None \<Rightarrow>
             if tui_key_stroke_equal norm (leader km2)
             then (Leader, km2\<lparr>leader_armed := True,
                               leader_deadline := (now + leader_timeout km2) mod 2 ^ 64\<rparr>)
             else (case find_binding (single_alt norm) km2 of
                     Some n \<Rightarrow> (Cmd n, km2) | None \<Rightarrow> (NoMatch, km2)))"

section \<open>Printing and parsing a stroke\<close>

definition mods :: "key_stroke \<Rightarrow> string list" where
  "mods s = (if ctrl s then [''ctrl''] else []) @ (if shift s then [''shift''] else []) @
     (if alt s then [''alt''] else []) @ (if meta s then [''meta''] else []) @
     (if super s then [''super''] else [])"

definition key_text :: "nat \<Rightarrow> string" where
  "key_text i = (case keyid_to_name i of Some n \<Rightarrow> n
      | None \<Rightarrow> if 0x20 \<le> i \<and> i < 0x110000 \<and> i \<noteq> 0x7f then [chr (i mod 256)] else ''key'' @ dec_nat i)"

text \<open>A key text that the tokenizers leave in one piece and that names the key again.\<close>

definition good_text :: "nat \<Rightarrow> string \<Rightarrow> bool" where
  "good_text i k \<longleftrightarrow> k \<noteq> [] \<and> length k < 24 \<and> \<not> prefix ''<leader>'' k \<and>
     list_all (\<lambda>c. c \<noteq> CHR ''+'' \<and> c \<noteq> CHR '','' \<and> \<not> is_space c) k \<and>
     lower k \<notin> {''ctrl'', ''shift'', ''alt'', ''meta'', ''super''} \<and> parse_key_token k = Some i"

text \<open>Named keys, and characters other than blanks, capitals and the characters of the grammar.\<close>

definition printable_key :: "nat \<Rightarrow> bool" where
  "printable_key i \<longleftrightarrow> (2 \<le> i \<and> i \<le> 30) \<or>
     (32 < i \<and> i < 256 \<and> i \<noteq> 127 \<and> i \<noteq> 43 \<and> i \<noteq> 44 \<and> i \<noteq> 60 \<and> \<not> (65 \<le> i \<and> i \<le> 90))"

lemma good_named: "list_all (\<lambda>i. good_text i (key_text i)) [2..<31]"
  by code_simp

lemma lower_not_mod: "length k = 1 \<Longrightarrow> lower k \<notin> {''ctrl'', ''shift'', ''alt'', ''meta'', ''super''}"
  by (auto dest!: arg_cong [of _ _ length])

lemma name_to_keyid_single: "name_to_keyid [c] = None"
proof -
  have "map_of key_names [c] = None" by (simp add: key_names_def)
  moreover have "strtol [] = None" by (simp add: strtol_def ltrim_by_def)
  ultimately show ?thesis by (simp add: name_to_keyid_def)
qed

lemma lower_single: "lower [c] = [to_lower c]"
  by (simp add: lower_def)

lemma good_char:
  assumes "printable_key i" and "30 < i"
  shows "good_text i (key_text i)"
proof -
  have i: "32 < i" "i < 256" "i \<noteq> 127" "i \<noteq> 43" "i \<noteq> 44" "i \<noteq> 60" using assms by (auto simp: printable_key_def)
  have "keyid_to_name i = None"
    using assms(2) by (simp add: keyid_to_name_def key_names_def KEYID_F12_def)
  then have kt: "key_text i = [chr i]" using i by (simp add: key_text_def)
  have "byte (chr i) = i" using i by simp
  then have code: "chr i = c \<Longrightarrow> i = byte c" for c by simp
  have "chr i \<noteq> CHR ''+''" using code [of "CHR ''+''"] i by auto
  moreover have "chr i \<noteq> CHR '',''" using code [of "CHR '',''"] i by auto
  moreover have "chr i \<noteq> CHR ''<''" using code [of "CHR ''<''"] i by auto
  moreover have "\<not> is_space (chr i)" using i by (simp add: is_space_def)
  ultimately show ?thesis
    using lower_not_mod [of "[chr i]"] \<open>byte (chr i) = i\<close>
    by (simp add: good_text_def kt parse_key_token_def lower_single name_to_keyid_single Let_def)
qed

lemma good_key_text: "printable_key i \<Longrightarrow> good_text i (key_text i)"
proof (cases "i \<le> 30")
  assume "printable_key i"
  case True
  with \<open>printable_key i\<close> have "i \<in> set [2..<31]"
    unfolding set_upt atLeastLessThan_iff by (simp add: printable_key_def)
  then show ?thesis using good_named unfolding list_all_iff by (rule bspec [rotated])
qed (simp add: good_char)

lemma to_string_mods:
  "tui_key_stroke_to_string s = concat (map (\<lambda>m. m @ ''+'') (mods s)) @ key_text (key_id s)"
  by (simp add: tui_key_stroke_to_string_def mods_def key_text_def)

lemma strtok_step: "d \<notin> set w \<Longrightarrow> w \<noteq> [] \<Longrightarrow> strtok d (w @ d # r) = w # strtok d r"
  by (simp add: strtok_def split_on_step)

lemma strtok_single: "d \<notin> set w \<Longrightarrow> w \<noteq> [] \<Longrightarrow> strtok d w = [w]"
  by (simp add: strtok_def split_on_single)

lemma strtok_mods:
  "\<forall>m \<in> set ms. d \<notin> set m \<and> m \<noteq> [] \<Longrightarrow> d \<notin> set k \<Longrightarrow> k \<noteq> [] \<Longrightarrow>
     strtok d (concat (map (\<lambda>m. m @ [d]) ms) @ k) = ms @ [k]"
  by (induction ms) (simp_all add: strtok_step strtok_single)

lemma mods_set: "m \<in> set (mods s) \<Longrightarrow> m \<in> {''ctrl'', ''shift'', ''alt'', ''meta'', ''super''}"
  by (auto simp: mods_def split: if_splits)

lemma lower_mods:
  "lower ''ctrl'' = ''ctrl''" "lower ''shift'' = ''shift''" "lower ''alt'' = ''alt''"
  "lower ''meta'' = ''meta''" "lower ''super'' = ''super''"
  by code_simp+

lemma parse_parts_mods:
  assumes "good_text (key_id s) k" and "\<not> (65 \<le> key_id s \<and> key_id s \<le> 90)"
  shows "parse_parts 4 no_key [] (mods s @ [k]) = Some [s]"
proof -
  have k: "parse_parts 4 cur [] [k] = Some [tui_key_stroke_normalize (cur\<lparr>key_id := key_id s\<rparr>)]" for cur
    using assms(1) by (simp add: good_text_def Let_def)
  have n: "\<not> (65 \<le> key_id c \<and> key_id c \<le> 90) \<Longrightarrow> tui_key_stroke_normalize c = c" for c
    by (auto simp: tui_key_stroke_normalize_def)
  have steps:
    "parse_parts 4 c [] ((if b then [''ctrl''] else []) @ ts) = parse_parts 4 (c\<lparr>ctrl := ctrl c \<or> b\<rparr>) [] ts"
    "parse_parts 4 c [] ((if b then [''shift''] else []) @ ts) = parse_parts 4 (c\<lparr>shift := shift c \<or> b\<rparr>) [] ts"
    "parse_parts 4 c [] ((if b then [''alt''] else []) @ ts) = parse_parts 4 (c\<lparr>alt := alt c \<or> b\<rparr>) [] ts"
    "parse_parts 4 c [] ((if b then [''meta''] else []) @ ts) = parse_parts 4 (c\<lparr>meta := meta c \<or> b\<rparr>) [] ts"
    "parse_parts 4 c [] ((if b then [''super''] else []) @ ts) = parse_parts 4 (c\<lparr>super := super c \<or> b\<rparr>) [] ts"
    for c b ts by (cases b; simp add: lower_mods)+
  have "parse_parts 4 no_key [] (mods s @ [k]) = parse_parts 4
      (no_key\<lparr>ctrl := ctrl s, shift := shift s, alt := alt s, meta := meta s, super := super s\<rparr>) [] [k]"
    unfolding mods_def append_assoc steps by (simp add: no_key_def del: parse_parts.simps)
  also have "\<dots> = Some [s]" using assms(2) by (cases s) (simp add: k n no_key_def del: parse_parts.simps)
  finally show ?thesis .
qed

lemma concat_mods_chars:
  "c \<in> set (concat (map (\<lambda>m. m @ ''+'') (mods s))) \<Longrightarrow> c \<noteq> CHR '','' \<and> \<not> is_space c"
proof -
  have "list_all (\<lambda>m. list_all (\<lambda>c. c \<noteq> CHR '','' \<and> \<not> is_space c) (m @ ''+''))
      [''ctrl'', ''shift'', ''alt'', ''meta'', ''super'']" by (simp add: is_space_def)
  then have ok: "m \<in> {''ctrl'', ''shift'', ''alt'', ''meta'', ''super''} \<Longrightarrow> c \<in> set (m @ ''+'') \<Longrightarrow>
      c \<noteq> CHR '','' \<and> \<not> is_space c" for m c by (auto simp: list_all_iff)
  assume "c \<in> set (concat (map (\<lambda>m. m @ ''+'') (mods s)))"
  then obtain m where "m \<in> set (mods s)" "c \<in> set (m @ ''+'')"
    unfolding set_concat set_map by blast
  with ok [of m c] mods_set [of m s] show ?thesis by blast
qed

lemma length_mods: "length (concat (map (\<lambda>m. m @ ''+'') (mods s))) \<le> 26"
  by (simp add: mods_def)

lemma no_leader_prefix:
  assumes "good_text i k"
  shows "\<not> prefix ''<leader>'' (concat (map (\<lambda>m. m @ ''+'') (mods s)) @ k)"
proof (cases "mods s")
  case Nil
  with assms show ?thesis by (simp add: good_text_def)
next
  case (Cons m ms)
  then have "m \<in> {''ctrl'', ''shift'', ''alt'', ''meta'', ''super''}"
    using mods_set [of m s] by simp
  with Cons show ?thesis by auto
qed

lemma key_parse_printed:
  assumes "printable_key (key_id s)"
  shows "tui_key_parse (Some (tui_key_stroke_to_string s)) = Some [[s]]"
proof -
  let ?k = "key_text (key_id s)"
  define t where "t = tui_key_stroke_to_string s"
  note good = good_key_text [OF assms]
  have t: "t = concat (map (\<lambda>m. m @ ''+'') (mods s)) @ ?k" unfolding t_def by (rule to_string_mods)
  have k: "c \<in> set ?k \<Longrightarrow> c \<noteq> CHR ''+'' \<and> c \<noteq> CHR '','' \<and> \<not> is_space c" for c
    using good by (simp add: good_text_def list_all_iff)
  have chars: "c \<in> set t \<Longrightarrow> c \<noteq> CHR '','' \<and> \<not> is_space c" for c
    using concat_mods_chars [of c s] k [of c] unfolding t by (metis Un_iff set_append)
  have ne: "t \<noteq> []" using good by (simp add: t good_text_def)
  have len: "length t < 64" using length_mods [of s] good by (simp add: t good_text_def)
  have "CHR '','' \<notin> set t" using chars by blast
  then have commas: "strtok (CHR '','') t = [t]" using ne by (rule strtok_single)
  have "\<not> is_space (hd t)" "\<not> is_space (last t)" using ne chars by simp_all
  then have trim: "trim_by is_space t = t" by (intro trim_by_id) simp_all
  have "SP \<notin> set t" using chars is_space_SP by blast
  then have blanks: "strtok SP t = [t]" using ne by (rule strtok_single)
  have "\<forall>m \<in> set (mods s). CHR ''+'' \<notin> set m \<and> m \<noteq> []" by (auto dest!: mods_set)
  moreover have "CHR ''+'' \<notin> set ?k" using k by blast
  moreover have "?k \<noteq> []" using good by (simp add: good_text_def)
  ultimately have parts: "strtok (CHR ''+'') t = mods s @ [?k]" unfolding t by (rule strtok_mods)
  have "length (mods s) \<le> 5" by (simp add: mods_def)
  moreover have "parse_parts 4 no_key [] (mods s @ [?k]) = Some [s]"
    using good assms by (intro parse_parts_mods) (auto simp: printable_key_def)
  moreover have "\<not> prefix ''<leader>'' t" unfolding t using good by (rule no_leader_prefix)
  ultimately have "parse_stroke_run 4 t = Some [s]"
    using len parts by (simp add: parse_stroke_run.simps Let_def)
  then have "parse_chord [] [t] = Some [s]" by simp
  then have "tui_key_parse (Some t) = Some [[s]]"
    using len commas trim blanks ne by (simp add: tui_key_parse_def Let_def del: parse_chord.simps)
  then show ?thesis by (simp add: t_def)
qed

definition parse_single :: "string \<Rightarrow> key_stroke option" where
  "parse_single spec = (case tui_key_parse (Some spec) of Some [[s]] \<Rightarrow> Some s | _ \<Rightarrow> None)"

interpretation key_codec: codec tui_key_stroke_to_string parse_single "\<lambda>s. printable_key (key_id s)"
  by unfold_locales (simp add: parse_single_def key_parse_printed)

text \<open>
  A key stroke that is shown to the user can be typed back into a key specification: for
  every named key and every character other than blanks, capitals and the separators of the
  grammar, with any modifiers, the printed form parses to exactly that stroke; so no two of them
  are printed alike.
\<close>

theorem key_stroke_roundtrip:
  assumes "printable_key (key_id s)" and "printable_key (key_id s')"
  shows "tui_key_parse (Some (tui_key_stroke_to_string s)) = Some [[s]] \<and>
     (tui_key_stroke_to_string s = tui_key_stroke_to_string s' \<longleftrightarrow> s = s')"
  using key_parse_printed [OF assms(1)] key_codec.enc_inject [OF assms] by simp

theorem key_stroke_roundtrip_witness:
  "tui_key_parse (Some ''ctrl+alt+f12'') =
     Some [[\<lparr>key_id = 28, ctrl = True, shift = False, alt = True, meta = False, super = False\<rparr>]]"
proof -
  let ?s = "\<lparr>key_id = 28, ctrl = True, shift = False, alt = True, meta = False, super = False\<rparr>"
  have "dec_nat 12 = ''12''" by code_simp
  then have "tui_key_stroke_to_string ?s = ''ctrl+alt+f12''"
    by (simp add: tui_key_stroke_to_string_def keyid_to_name_def key_names_def KEYID_F1_def KEYID_F12_def)
  with key_stroke_roundtrip [of ?s ?s] show ?thesis by (simp add: printable_key_def)
qed

section \<open>The leader key\<close>

text \<open>What a key does when no chord is pending.\<close>

definition fresh_press :: "keymap \<Rightarrow> key_stroke \<Rightarrow> keymap_result" where
  "fresh_press km s =
     (if tui_key_stroke_equal s (leader km) then Leader
      else case find_binding (single_alt s) km of Some n \<Rightarrow> Cmd n | None \<Rightarrow> NoMatch)"

lemma equal_eq: "tui_key_stroke_equal a b \<longleftrightarrow> a = b"
  by (auto simp: tui_key_stroke_equal_def)

lemma normalize_idem: "tui_key_stroke_normalize (tui_key_stroke_normalize s) = tui_key_stroke_normalize s"
  by (simp add: tui_key_stroke_normalize_def Let_def)

lemma find_binding_sel [simp]:
  "find_binding p (km\<lparr>leader_armed := x\<rparr>) = find_binding p km"
  "find_binding p (km\<lparr>leader_deadline := y\<rparr>) = find_binding p km"
  "find_binding p (km\<lparr>leader_armed := x, leader_deadline := y\<rparr>) = find_binding p km"
  "find_binding p (km\<lparr>leader_deadline := y, leader_armed := x\<rparr>) = find_binding p km"
  by (simp_all add: find_binding_def)

text \<open>
  The leader key and the key after it: the leader arms the keymap for \<open>leader_timeout\<close>
  milliseconds. The next key completes a chord exactly if it comes before that time is over and
  some enabled binding has the two-key chord of the leader and that key; the first such binding
  is the command. Otherwise the key counts as a fresh press. In both cases the keymap is armed
  afterwards only if the key was the leader again.
\<close>

theorem leader_chord:
  assumes "leader_armed km = False" and "tui_key_stroke_normalize l = leader km"
    and "t0 + leader_timeout km < 2 ^ 64" and "tui_keymap_dispatch km l t0 = (r0, km')"
    and "tui_keymap_dispatch km' s t = (r, km'')" and "n = tui_key_stroke_normalize s"
  shows "r0 = Leader \<and> leader_armed km' \<and>
     r = (case (if t < t0 + leader_timeout km then find_binding (chord_alt n) km else None) of
            Some c \<Rightarrow> Cmd c | None \<Rightarrow> fresh_press km n) \<and>
     (leader_armed km'' \<longleftrightarrow> r = Leader) \<and> bindings km'' = bindings km"
proof -
  have km': "km' = km\<lparr>leader_armed := True, leader_deadline := t0 + leader_timeout km\<rparr>" "r0 = Leader"
    using assms(1-4) by (auto simp: tui_keymap_dispatch_def Let_def equal_eq)
  show ?thesis
    using assms(5,6)
    by (auto simp: km' tui_keymap_dispatch_def Let_def equal_eq fresh_press_def
        tui_keymap_leader_expired_def split: option.splits if_splits)
qed

definition demo_keymap :: keymap where
  "demo_keymap = empty_keymap\<lparr>leader := no_key\<lparr>key_id := 120, ctrl := True\<rparr>, leader_timeout := 2000,
     bindings := [\<lparr>name = ''quit'', category = [], desc = [], keys = ''leader+q'', enabled = True,
       alts = [[no_key\<lparr>key_id := 1\<rparr>, no_key\<lparr>key_id := 113\<rparr>]]\<rparr>]\<rparr>"

theorem leader_chord_witness:
  "let (r0, km') = tui_keymap_dispatch demo_keymap (no_key\<lparr>key_id := 88, ctrl := True\<rparr>) 5
   in r0 = Leader \<and> fst (tui_keymap_dispatch km' (no_key\<lparr>key_id := 113\<rparr>) 2004) = Cmd ''quit'' \<and>
      fst (tui_keymap_dispatch km' (no_key\<lparr>key_id := 113\<rparr>) 2005) = NoMatch"
proof -
  let ?km = demo_keymap
  let ?l = "no_key\<lparr>key_id := 88, ctrl := True\<rparr>" and ?q = "no_key\<lparr>key_id := 113\<rparr>"
  obtain r0 km' where 0: "tui_keymap_dispatch ?km ?l 5 = (r0, km')" by fastforce
  obtain r1 km1 where 1: "tui_keymap_dispatch km' ?q 2004 = (r1, km1)" by fastforce
  obtain r2 km2 where 2: "tui_keymap_dispatch km' ?q 2005 = (r2, km2)" by fastforce
  have lead: "leader_armed ?km = False" "tui_key_stroke_normalize ?l = leader ?km"
    "5 + leader_timeout ?km < 2 ^ 64" and q: "?q = tui_key_stroke_normalize ?q"
    by (simp_all add: demo_keymap_def empty_keymap_def tui_key_stroke_normalize_def no_key_def)
  have "find_binding (chord_alt ?q) ?km = Some ''quit''"
    by (simp add: demo_keymap_def find_binding_def chord_alt_def empty_keymap_def KEYID_LEADER_def equal_eq no_key_def)
  moreover have "fresh_press ?km ?q = NoMatch"
    by (simp add: fresh_press_def demo_keymap_def find_binding_def single_alt_def empty_keymap_def equal_eq no_key_def)
  ultimately have "r0 = Leader \<and> r1 = Cmd ''quit'' \<and> r2 = NoMatch"
    using leader_chord [OF lead 0 1 q] leader_chord [OF lead 0 2 q]
    by (simp add: demo_keymap_def empty_keymap_def)
  with 0 1 2 show ?thesis by simp
qed

section \<open>The table as a machine\<close>

text \<open>The calls of the user interface; a name given by a caller fits its array.\<close>

datatype keymap_event =
    Register key_binding
  | Bind string string
  | Disable string
  | SetLeader string
  | SetTimeout nat
  | ClearLeader
  | Press key_stroke nat

fun keymap_step :: "keymap \<Rightarrow> keymap_event \<Rightarrow> keymap" where
  "keymap_step km (Register b) = (if length (name b) < 48 then snd (tui_keymap_register km b) else km)"
| "keymap_step km (Bind n spec) = snd (tui_keymap_bind km n spec)"
| "keymap_step km (Disable n) = snd (tui_keymap_disable km n)"
| "keymap_step km (SetLeader spec) = snd (tui_keymap_set_leader km (Some spec))"
| "keymap_step km (SetTimeout ms) = tui_keymap_set_leader_timeout km ms"
| "keymap_step km ClearLeader = tui_keymap_leader_clear km"
| "keymap_step km (Press s now) = snd (tui_keymap_dispatch km s now)"

definition keymap_inv :: "keymap \<Rightarrow> bool" where
  "keymap_inv km \<longleftrightarrow> length (bindings km) \<le> MAX_BINDINGS \<and> distinct (map name (bindings km)) \<and>
     key_id (leader km) \<noteq> KEYID_LEADER"

lemma names_update: "i < length bs \<Longrightarrow> name b = name (bs ! i) \<Longrightarrow> map name (bs[i := b]) = map name bs"
  by (simp add: map_update list_update_same_conv)

lemma binding_index_Some: "binding_index km n = Some i \<Longrightarrow> i < length (bindings km) \<and> name (bindings km ! i) = n"
  by (auto simp: binding_index_def dest: find_index_Some)

lemma binding_index_None: "binding_index km n = None \<Longrightarrow> n \<notin> name ` set (bindings km)"
  by (auto simp: binding_index_def find_index_None)

lemma dispatch_keeps: "bindings (snd (tui_keymap_dispatch km s now)) = bindings km"
  "leader (snd (tui_keymap_dispatch km s now)) = leader km"
  by (auto simp: tui_keymap_dispatch_def Let_def tui_keymap_leader_expired_def split: option.split)

lemma set_leader_keeps: "bindings (snd (tui_keymap_set_leader km spec)) = bindings km"
  "key_id (leader km) \<noteq> KEYID_LEADER \<Longrightarrow> key_id (leader (snd (tui_keymap_set_leader km spec))) \<noteq> KEYID_LEADER"
  by (auto simp: tui_keymap_set_leader_def split: option.split list.split)

lemma keymap_step_inv:
  assumes "keymap_inv km" shows "keymap_inv (keymap_step km e)"
proof (cases e)
  case (Register b)
  show ?thesis
  proof (cases "binding_index km (name b)")
    case None
    with assms binding_index_None [OF None] Register show ?thesis
      by (auto simp: keymap_inv_def tui_keymap_register_def copy_field_def image_iff split: option.split)
  next
    case (Some i)
    with assms binding_index_Some [OF Some] Register show ?thesis
      by (simp add: keymap_inv_def tui_keymap_register_def names_update)
  qed
next
  case (Bind n spec)
  with assms binding_index_Some [of km n] show ?thesis
    by (auto simp: keymap_inv_def tui_keymap_bind_def Let_def names_update split: option.split)
next
  case (Disable n)
  with assms binding_index_Some [of km n] show ?thesis
    by (auto simp: keymap_inv_def tui_keymap_disable_def names_update split: option.split)
qed (use assms set_leader_keeps dispatch_keeps in
      \<open>simp_all add: keymap_inv_def tui_keymap_set_leader_timeout_def tui_keymap_leader_clear_def\<close>)

interpretation keymap_machine: machine empty_keymap keymap_step keymap_inv
  by unfold_locales (simp_all add: keymap_step_inv, simp add: keymap_inv_def empty_keymap_def
      MAX_BINDINGS_def no_key_def KEYID_LEADER_def)

text \<open>
  Whatever is registered, bound, disabled and pressed, the table never exceeds its size, no
  command name occurs twice in it, and the leader is never the leader token itself.
\<close>

theorem keymap_invariant:
  "length (bindings (run keymap_step empty_keymap es)) \<le> MAX_BINDINGS \<and>
     distinct (map name (bindings (run keymap_step empty_keymap es))) \<and>
     key_id (leader (run keymap_step empty_keymap es)) \<noteq> KEYID_LEADER"
  using keymap_machine.inv_reachable [of es] by (simp add: keymap_inv_def)

end
