(* ===== verification/LineEditor.thy ===== *)
theory LineEditor
  imports HtmlUnicode
begin

text \<open>
  The line editor of the terminal interface (\<open>tui/tui_input.c\<close>): a growable buffer with a
  cursor that moves over whole UTF-8 characters, a ring of submitted lines, and the walk through
  that history which keeps the unsent line as a draft.

  The record \<open>tui_input\<close> has the fields of the C structure; the bytes of the buffer before
  its NUL and their number are the one string \<open>ibuf\<close>. Whether an allocation of a given size
  succeeds is the argument \<open>alloc\<close>; a slot of the ring that holds no string is \<open>None\<close>.
  Comparing such a slot with \<open>strcmp\<close> is undefined, which is the result \<open>None\<close> of
  \<open>history_push\<close>.
\<close>

section \<open>The editor\<close>

record tui_input =
  ibuf :: string
  icap :: nat
  icursor :: nat
  history_cap :: nat
  history_count :: nat
  history_head :: nat
  history :: "cptr list"
  history_walk :: nat
  walking :: bool
  draft :: cptr

text \<open>The doubling loop; its argument is never 0 (the first capacity is 64).\<close>

function input_cap :: "nat \<Rightarrow> nat \<Rightarrow> nat" where
  "input_cap new_cap needed =
     (if new_cap < needed \<and> 0 < new_cap
      then if new_cap > SIZE_MAX div 2 then needed else input_cap (new_cap * 2) needed
      else new_cap)"
  by auto
termination by (relation "measure (\<lambda>(c, n). n - c)") auto

declare input_cap.simps [simp del]

definition grow_buffer :: "(nat \<Rightarrow> bool) \<Rightarrow> tui_input \<Rightarrow> nat \<Rightarrow> int \<times> tui_input" where
  "grow_buffer alloc inp needed =
     (if needed \<le> icap inp then (0, inp)
      else let new_cap = input_cap (if icap inp = 0 then 64 else icap inp) needed
           in if \<not> alloc new_cap then (-1, inp) else (0, inp\<lparr>icap := new_cap\<rparr>))"

definition cursor_left_cp :: "tui_input \<Rightarrow> tui_input" where
  "cursor_left_cp inp =
     (if icursor inp = 0 then inp
      else inp\<lparr>icursor := back_off (ibuf inp) (icursor inp - 1)\<rparr>)"

text \<open>The scan to the right, over the bytes from the given index.\<close>

definition skip_right :: "string \<Rightarrow> nat \<Rightarrow> nat" where
  "skip_right s i = i + length (takeWhile is_cont (drop i s))"

definition cursor_right_cp :: "tui_input \<Rightarrow> tui_input" where
  "cursor_right_cp inp =
     (if icursor inp \<ge> length (ibuf inp) then inp
      else inp\<lparr>icursor := skip_right (ibuf inp) (icursor inp + 1)\<rparr>)"

text \<open>On a 64-bit target the structure takes 88 bytes and a pointer 8.\<close>

definition tui_input_create :: "(nat \<Rightarrow> bool) \<Rightarrow> nat \<Rightarrow> tui_input option" where
  "tui_input_create alloc cap =
     (if \<not> alloc 88 then None
      else if cap > 0 \<and> \<not> alloc (cap * 8) then None
      else let (rc, inp) = grow_buffer alloc
             \<lparr>ibuf = [], icap = 0, icursor = 0, history_cap = cap, history_count = 0,
              history_head = 0, history = replicate cap None, history_walk = 0, walking = False,
              draft = None\<rparr> 1
           in if rc \<noteq> 0 then None else Some inp)"

fun normalize_eols :: "string \<Rightarrow> string" where
  "normalize_eols [] = []"
| "normalize_eols (c # cs) =
     (if c = CR then LF # normalize_eols (if cs \<noteq> [] \<and> hd cs = LF then tl cs else cs)
      else c # normalize_eols cs)"

definition insert_at :: "tui_input \<Rightarrow> string \<Rightarrow> tui_input" where
  "insert_at inp t =
     inp\<lparr>ibuf := take (icursor inp) (ibuf inp) @ t @ drop (icursor inp) (ibuf inp),
         icursor := icursor inp + length t\<rparr>"

definition pasted :: "string \<Rightarrow> string" where
  "pasted t = (if memchr CR t \<noteq> None then normalize_eols t else t)"

definition tui_input_insert :: "(nat \<Rightarrow> bool) \<Rightarrow> tui_input \<Rightarrow> cptr \<Rightarrow> int \<times> tui_input" where
  "tui_input_insert alloc inp tx =
     (case tx of None \<Rightarrow> (-1, inp)
      | Some t \<Rightarrow>
          if t = [] then (0, inp)
          else if memchr CR t \<noteq> None \<and> \<not> alloc (length t + 1) then (-1, inp)
          else let t' = pasted t;
                   (rc, inp1) = grow_buffer alloc inp (length (ibuf inp) + length t' + 1)
               in if rc \<noteq> 0 then (-1, inp1) else (0, insert_at inp1 t'))"

text \<open>Removing the bytes between two positions.\<close>

definition erase :: "nat \<Rightarrow> nat \<Rightarrow> string \<Rightarrow> string" where
  "erase i j s = take i s @ drop j s"

definition tui_input_backspace :: "tui_input \<Rightarrow> nat \<times> tui_input" where
  "tui_input_backspace inp =
     (if icursor inp = 0 then (0, inp)
      else let inp1 = cursor_left_cp inp; n = icursor inp - icursor inp1
           in (n, inp1\<lparr>ibuf := erase (icursor inp1) (icursor inp) (ibuf inp)\<rparr>))"

definition tui_input_delete :: "tui_input \<Rightarrow> nat \<times> tui_input" where
  "tui_input_delete inp =
     (if icursor inp \<ge> length (ibuf inp) then (0, inp)
      else let inp1 = cursor_right_cp inp; n = icursor inp1 - icursor inp
           in (n, inp1\<lparr>ibuf := erase (icursor inp) (icursor inp1) (ibuf inp),
                       icursor := icursor inp\<rparr>))"

definition tui_input_move :: "tui_input \<Rightarrow> int \<Rightarrow> tui_input" where
  "tui_input_move inp steps =
     (if steps > 0 then (cursor_right_cp ^^ nat steps) inp
      else (cursor_left_cp ^^ nat (- steps)) inp)"

definition tui_input_home :: "tui_input \<Rightarrow> tui_input" where
  "tui_input_home inp = inp\<lparr>icursor := 0\<rparr>"

definition tui_input_end :: "tui_input \<Rightarrow> tui_input" where
  "tui_input_end inp = inp\<lparr>icursor := length (ibuf inp)\<rparr>"

definition tui_input_clear :: "tui_input \<Rightarrow> tui_input" where
  "tui_input_clear inp = inp\<lparr>ibuf := [], icursor := 0\<rparr>"

text \<open>The two loops of the word deletion: step back while the byte before satisfies the test.\<close>

fun skip_back :: "(char \<Rightarrow> bool) \<Rightarrow> string \<Rightarrow> nat \<Rightarrow> nat" where
  "skip_back p s 0 = 0"
| "skip_back p s (Suc k) = (if p (char_at s k) then skip_back p s k else Suc k)"

definition tui_input_delete_word :: "tui_input \<Rightarrow> nat \<times> tui_input" where
  "tui_input_delete_word inp =
     (let pos = skip_back (\<lambda>c. \<not> blank c) (ibuf inp) (skip_back blank (ibuf inp) (icursor inp));
          n = icursor inp - pos
      in if n = 0 then (0, inp)
         else (n, inp\<lparr>ibuf := erase pos (icursor inp) (ibuf inp), icursor := pos\<rparr>))"

definition tui_input_set_text :: "(nat \<Rightarrow> bool) \<Rightarrow> tui_input \<Rightarrow> cptr \<Rightarrow> int \<times> tui_input" where
  "tui_input_set_text alloc inp tx =
     (let t = (case tx of None \<Rightarrow> [] | Some t \<Rightarrow> t);
          (rc, inp1) = grow_buffer alloc inp (length t + 1)
      in if rc \<noteq> 0 then (-1, inp1) else (0, inp1\<lparr>ibuf := t, icursor := length t\<rparr>))"

section \<open>History\<close>

definition dup_line :: "(nat \<Rightarrow> bool) \<Rightarrow> string \<Rightarrow> cptr" where
  "dup_line alloc s = (if alloc (length s + 1) then Some s else None)"

text \<open>The index of the entry that is \<open>k\<close> submissions old.\<close>

definition newest_idx :: "tui_input \<Rightarrow> nat \<Rightarrow> nat" where
  "newest_idx inp k = (history_head inp + history_count inp - 1 - k) mod history_cap inp"

definition push_slot :: "(nat \<Rightarrow> bool) \<Rightarrow> string \<Rightarrow> tui_input \<Rightarrow> tui_input" where
  "push_slot alloc line inp =
     (if history_count inp < history_cap inp
      then let slot = (history_head inp + history_count inp) mod history_cap inp
           in inp\<lparr>history_count := history_count inp + 1,
                  history := (history inp)[slot := dup_line alloc line]\<rparr>
      else let slot = history_head inp
           in inp\<lparr>history_head := (history_head inp + 1) mod history_cap inp,
                  history := (history inp)[slot := dup_line alloc line]\<rparr>)"

definition history_push :: "(nat \<Rightarrow> bool) \<Rightarrow> string \<Rightarrow> tui_input \<Rightarrow> tui_input option" where
  "history_push alloc line inp =
     (if history_cap inp = 0 then Some inp
      else if history_count inp > 0
      then (case history inp ! newest_idx inp 0 of
              None \<Rightarrow> None
            | Some prev \<Rightarrow> if prev = line then Some inp else Some (push_slot alloc line inp))
      else Some (push_slot alloc line inp))"

definition end_walk :: "tui_input \<Rightarrow> tui_input" where
  "end_walk inp = inp\<lparr>walking := False, draft := None\<rparr>"

definition tui_input_submit :: "(nat \<Rightarrow> bool) \<Rightarrow> tui_input \<Rightarrow> (cptr \<times> tui_input) option" where
  "tui_input_submit alloc inp =
     (if ibuf inp = [] then Some (None, inp)
      else case dup_line alloc (ibuf inp) of
             None \<Rightarrow> Some (None, inp)
           | Some out \<Rightarrow> map_option (\<lambda>inp1. (Some out, end_walk (tui_input_clear inp1)))
                           (history_push alloc (ibuf inp) inp))"

text \<open>Both walks end by installing the entry they reached.\<close>

definition show_entry :: "(nat \<Rightarrow> bool) \<Rightarrow> tui_input \<Rightarrow> cptr \<times> tui_input" where
  "show_entry alloc inp =
     (let (rc, inp1) = tui_input_set_text alloc inp (history inp ! newest_idx inp (history_walk inp))
      in (if rc \<noteq> 0 then None else Some (ibuf inp1), inp1))"

definition tui_input_history_back :: "(nat \<Rightarrow> bool) \<Rightarrow> tui_input \<Rightarrow> cptr \<times> tui_input" where
  "tui_input_history_back alloc inp =
     (if history_count inp = 0 then (None, inp)
      else if \<not> walking inp
      then show_entry alloc
             (inp\<lparr>draft := dup_line alloc (ibuf inp), walking := True, history_walk := 0\<rparr>)
      else if history_walk inp \<ge> history_count inp - 1 then (None, inp)
      else show_entry alloc (inp\<lparr>history_walk := history_walk inp + 1\<rparr>))"

definition tui_input_history_forward :: "(nat \<Rightarrow> bool) \<Rightarrow> tui_input \<Rightarrow> cptr \<times> tui_input" where
  "tui_input_history_forward alloc inp =
     (if \<not> walking inp then (None, inp)
      else if history_walk inp = 0
      then let (rc, inp1) = tui_input_set_text alloc inp (draft inp)
           in if rc \<noteq> 0 then (None, inp1) else (Some (ibuf inp1), inp1\<lparr>walking := False\<rparr>)
      else show_entry alloc (inp\<lparr>history_walk := history_walk inp - 1\<rparr>))"

definition tui_input_reset_history_walk :: "tui_input \<Rightarrow> tui_input" where
  "tui_input_reset_history_walk inp = end_walk inp"

fun tui_input_seed_history ::
  "(nat \<Rightarrow> bool) \<Rightarrow> tui_input \<Rightarrow> string list \<Rightarrow> tui_input option" where
  "tui_input_seed_history alloc inp [] = Some inp"
| "tui_input_seed_history alloc inp (e # es) =
     (case history_push alloc e inp of None \<Rightarrow> None
      | Some inp1 \<Rightarrow> tui_input_seed_history alloc inp1 es)"

section \<open>Character boundaries\<close>

lemma utf8_valid_suffix:
  assumes "utf8_valid a" shows "utf8_valid (a @ b) \<longleftrightarrow> utf8_valid b"
proof -
  obtain cps where cps: "list_all scalar cps" "a = concat (map utf8_encode_cp cps)"
    using assms by (auto simp: utf8_valid_iff_decode)
  from cps(1) have "utf8_valid (concat (map utf8_encode_cp cps) @ b) \<longleftrightarrow> utf8_valid b"
    by (induction cps) (simp_all add: utf8_valid_encode_append)
  with cps(2) show ?thesis by simp
qed

lemma utf8_valid_drop: "utf8_valid s \<Longrightarrow> utf8_valid (take k s) \<Longrightarrow> utf8_valid (drop k s)"
  using utf8_valid_suffix [of "take k s" "drop k s"] by simp

lemma skip_right_le: "i \<le> length s \<Longrightarrow> skip_right s i \<le> length s"
  using length_takeWhile_le [of is_cont "drop i s"] by (simp add: skip_right_def)

lemma skip_right_ge: "i \<le> skip_right s i"
  by (simp add: skip_right_def)

lemma skip_right_stop: "\<not> is_cont (char_at s (skip_right s i))"
proof (cases "length (takeWhile is_cont (drop i s)) < length (drop i s)")
  case True
  then have "\<not> is_cont (drop i s ! length (takeWhile is_cont (drop i s)))"
    by (rule nth_length_takeWhile)
  with True show ?thesis by (simp add: skip_right_def char_at_def)
qed (auto simp: skip_right_def char_at_def)

lemma take_Suc_char_at: "k < length s \<Longrightarrow> take (Suc k) s = take k s @ [char_at s k]"
  by (simp add: take_Suc_conv_app_nth char_at_def)

lemma skip_back_le: "skip_back p s k \<le> k"
  by (induction k) auto

lemma skip_back_stop: "skip_back p s k = 0 \<or> \<not> p (char_at s (skip_back p s k - 1))"
  by (induction k) auto

lemma utf8_valid_after_blank:
  assumes "utf8_valid s" "k \<le> length s" "k = 0 \<or> blank (char_at s (k - 1))"
  shows "utf8_valid (take k s)"
proof (cases k)
  case (Suc j)
  then have b: "blank (char_at s j)" using assms(3) by simp
  then have lt: "byte (char_at s j) < 128" by (auto simp: blank_def)
  then have "\<not> is_cont (char_at s j)" by (simp add: is_cont_range)
  then have "utf8_valid (take j s)" using assms(1) by (intro utf8_valid_take) simp_all
  moreover have "utf8_valid [char_at s j]" using lt by (simp add: utf8_valid_ascii)
  ultimately show ?thesis using Suc assms(2)
    by (simp only: take_Suc_char_at Suc_le_eq utf8_valid_append)
qed simp

text \<open>Normalising line ends works character by character.\<close>

lemma encode_byte_ge: "scalar cp \<Longrightarrow> 128 \<le> cp \<Longrightarrow> c \<in> set (utf8_encode_cp cp) \<Longrightarrow> 128 \<le> byte c"
  by (cases rule: scalar_cases [of cp])
    (auto simp: utf8_encode_2 utf8_encode_3 utf8_encode_4 scalar_def)

lemma normalize_append: "CR \<notin> set a \<Longrightarrow> normalize_eols (a @ b) = a @ normalize_eols b"
  by (induction a) auto

lemma normalize_id: "CR \<notin> set a \<Longrightarrow> normalize_eols a = a"
  using normalize_append [of a "[]"] by simp

lemma normalize_no_CR: "CR \<notin> set (normalize_eols s)"
  by (induction s rule: normalize_eols.induct) auto

lemma normalize_length: "length (normalize_eols s) \<le> length s"
  by (induction s rule: normalize_eols.induct) auto

lemma utf8_valid_normalize: "utf8_valid s \<Longrightarrow> utf8_valid (normalize_eols s)"
proof (induction s rule: length_induct)
  case (1 s)
  show ?case
  proof (cases s)
    case s: (Cons c cs)
    show ?thesis
    proof (cases "c = CR")
      case True
      then have cs: "utf8_valid cs" using "1.prems" s by (simp add: utf8_valid_ascii)
      define r where "r = (if cs \<noteq> [] \<and> hd cs = LF then tl cs else cs)"
      have "utf8_valid r" using cs by (cases cs) (auto simp: r_def utf8_valid_ascii)
      moreover have "length r < length s" by (cases cs) (auto simp: r_def s)
      ultimately have "utf8_valid (normalize_eols r)" using "1.IH" by blast
      with True s show ?thesis by (simp add: r_def utf8_valid_ascii)
    next
      case False
      obtain cp r where d: "scalar cp" "s = utf8_encode_cp cp @ r" "utf8_valid r"
        using utf8_valid_decode_1 [of c cs] "1.prems" s by auto
      have "length r < length s" using d(2) utf8_encode_nonempty [OF d(1)] by simp
      then have r: "utf8_valid (normalize_eols r)" using "1.IH" d(3) by blast
      have "CR \<notin> set (utf8_encode_cp cp)"
      proof (cases "cp < 128")
        case True
        with d(2) s False show ?thesis by (simp add: utf8_encode_1)
      next
        case ge: False
        show ?thesis
        proof
          assume "CR \<in> set (utf8_encode_cp cp)"
          then have "128 \<le> byte CR" by (rule encode_byte_ge [OF d(1), rotated]) (use ge in simp)
          then show False by simp
        qed
      qed
      then show ?thesis using d r by (simp add: normalize_append utf8_valid_encode_append)
    qed
  qed simp
qed

section \<open>Invariant\<close>

definition layout_ok :: "tui_input \<Rightarrow> bool" where
  "layout_ok inp \<longleftrightarrow>
     icursor inp \<le> length (ibuf inp) \<and> length (ibuf inp) < icap inp \<and>
     length (history inp) = history_cap inp \<and> history_count inp \<le> history_cap inp \<and>
     (0 < history_cap inp \<longrightarrow> history_head inp < history_cap inp) \<and>
     (walking inp \<longrightarrow> history_walk inp < history_count inp)"

definition chars_ok :: "tui_input \<Rightarrow> bool" where
  "chars_ok inp \<longleftrightarrow>
     utf8_valid (ibuf inp) \<and> utf8_valid (take (icursor inp) (ibuf inp)) \<and>
     (\<forall>t. Some t \<in> insert (draft inp) (set (history inp)) \<longrightarrow> utf8_valid t)"

definition editor_inv :: "tui_input \<Rightarrow> bool" where
  "editor_inv inp \<longleftrightarrow> layout_ok inp \<and> chars_ok inp"

lemma input_cap_ge: "0 < c \<Longrightarrow> needed \<le> input_cap c needed"
  by (induction c needed rule: input_cap.induct) (subst input_cap.simps, auto)

lemma grow_buffer_cases:
  obtains "grow_buffer alloc inp n = (-1, inp)" "icap inp < n"
  | c where "grow_buffer alloc inp n = (0, inp\<lparr>icap := c\<rparr>)" "n \<le> c" "icap inp \<le> c"
proof (cases "n \<le> icap inp")
  case True
  then show ?thesis using that(2) [of "icap inp"] by (simp add: grow_buffer_def)
next
  case False
  define c where "c = input_cap (if icap inp = 0 then 64 else icap inp) n"
  have "n \<le> c" unfolding c_def by (rule input_cap_ge) simp
  with False show ?thesis
    using that by (cases "alloc c") (auto simp: grow_buffer_def Let_def c_def)
qed

lemma grow_buffer_ok:
  assumes "\<And>n. alloc n"
  obtains c where "grow_buffer alloc inp n = (0, inp\<lparr>icap := c\<rparr>)" "n \<le> c"
  using assms by (cases rule: grow_buffer_cases [of alloc inp n])
    (auto simp: grow_buffer_def Let_def split: if_splits)

lemma erase_length: "i \<le> j \<Longrightarrow> j \<le> length s \<Longrightarrow> length (erase i j s) = length s - (j - i)"
  by (simp add: erase_def)

lemma erase_inv [inv_intros]:
  assumes "editor_inv inp" "i \<le> j" "j \<le> length (ibuf inp)"
    "utf8_valid (take i (ibuf inp))" "utf8_valid (take j (ibuf inp))"
  shows "editor_inv (inp\<lparr>ibuf := erase i j (ibuf inp), icursor := i\<rparr>)"
proof -
  have "utf8_valid (drop j (ibuf inp))"
    using assms by (intro utf8_valid_drop) (simp_all add: editor_inv_def chars_ok_def)
  with assms show ?thesis
    by (auto simp: editor_inv_def layout_ok_def chars_ok_def erase_length)
      (simp_all add: erase_def utf8_valid_append)
qed

lemma left_facts:
  assumes "editor_inv inp"
  shows "icursor (cursor_left_cp inp) \<le> icursor inp"
    and "utf8_valid (take (icursor (cursor_left_cp inp)) (ibuf inp))"
    and "cursor_left_cp inp = inp\<lparr>icursor := icursor (cursor_left_cp inp)\<rparr>"
proof -
  have v: "utf8_valid (ibuf inp)" using assms by (simp add: editor_inv_def chars_ok_def)
  show "icursor (cursor_left_cp inp) \<le> icursor inp"
    using back_off_le [of "ibuf inp" "icursor inp - 1"] by (auto simp: cursor_left_cp_def)
  show "utf8_valid (take (icursor (cursor_left_cp inp)) (ibuf inp))"
    using utf8_valid_take [OF v] back_off_stop by (simp add: cursor_left_cp_def)
  show "cursor_left_cp inp = inp\<lparr>icursor := icursor (cursor_left_cp inp)\<rparr>"
    by (simp add: cursor_left_cp_def)
qed

lemma right_facts:
  assumes "editor_inv inp"
  shows "icursor inp \<le> icursor (cursor_right_cp inp)"
    and "icursor (cursor_right_cp inp) \<le> length (ibuf inp)"
    and "utf8_valid (take (icursor (cursor_right_cp inp)) (ibuf inp))"
    and "cursor_right_cp inp = inp\<lparr>icursor := icursor (cursor_right_cp inp)\<rparr>"
proof -
  have v: "utf8_valid (ibuf inp)" "icursor inp \<le> length (ibuf inp)"
    using assms by (simp_all add: editor_inv_def chars_ok_def layout_ok_def)
  show "icursor inp \<le> icursor (cursor_right_cp inp)"
    using skip_right_ge [of "icursor inp + 1" "ibuf inp"] by (auto simp: cursor_right_cp_def)
  show "icursor (cursor_right_cp inp) \<le> length (ibuf inp)"
    using v skip_right_le [of "icursor inp + 1" "ibuf inp"] by (auto simp: cursor_right_cp_def)
  show "utf8_valid (take (icursor (cursor_right_cp inp)) (ibuf inp))"
    using utf8_valid_take [OF v(1)] skip_right_stop assms
    by (simp add: cursor_right_cp_def editor_inv_def chars_ok_def)
  show "cursor_right_cp inp = inp\<lparr>icursor := icursor (cursor_right_cp inp)\<rparr>"
    by (simp add: cursor_right_cp_def)
qed

lemma cursor_inv:
  "editor_inv inp \<Longrightarrow> k \<le> length (ibuf inp) \<Longrightarrow> utf8_valid (take k (ibuf inp)) \<Longrightarrow>
     editor_inv (inp\<lparr>icursor := k\<rparr>)"
  by (simp add: editor_inv_def layout_ok_def chars_ok_def)

lemma left_inv [inv_intros]: "editor_inv inp \<Longrightarrow> editor_inv (cursor_left_cp inp)"
  using left_facts [of inp] cursor_inv [of inp "icursor (cursor_left_cp inp)"]
  by (simp add: editor_inv_def layout_ok_def)

lemma right_inv [inv_intros]: "editor_inv inp \<Longrightarrow> editor_inv (cursor_right_cp inp)"
  using right_facts [of inp] cursor_inv [of inp "icursor (cursor_right_cp inp)"] by simp

lemma funpow_inv: "(\<And>x. P x \<Longrightarrow> P (f x)) \<Longrightarrow> P x \<Longrightarrow> P ((f ^^ n) x)"
  by (induction n) auto

lemma move_inv [inv_intros]: "editor_inv inp \<Longrightarrow> editor_inv (tui_input_move inp k)"
  unfolding tui_input_move_def by (auto intro: funpow_inv [where P = editor_inv] inv_intros)

lemma backspace_erase:
  "snd (tui_input_backspace inp) =
     (let k = icursor (cursor_left_cp inp)
      in inp\<lparr>ibuf := erase k (icursor inp) (ibuf inp), icursor := k\<rparr>)"
  by (simp add: tui_input_backspace_def cursor_left_cp_def Let_def erase_def)

lemma delete_erase:
  "icursor inp \<le> length (ibuf inp) \<Longrightarrow> snd (tui_input_delete inp) =
     inp\<lparr>ibuf := erase (icursor inp) (icursor (cursor_right_cp inp)) (ibuf inp),
         icursor := icursor inp\<rparr>"
  by (simp add: tui_input_delete_def cursor_right_cp_def Let_def erase_def)

lemma editor_inv_cursor:
  "editor_inv inp \<Longrightarrow> icursor inp \<le> length (ibuf inp) \<and> utf8_valid (take (icursor inp) (ibuf inp)) \<and>
     utf8_valid (ibuf inp)"
  by (simp add: editor_inv_def layout_ok_def chars_ok_def)

lemma backspace_inv [inv_intros]: "editor_inv inp \<Longrightarrow> editor_inv (snd (tui_input_backspace inp))"
  unfolding backspace_erase Let_def
  using left_facts [of inp] editor_inv_cursor [of inp] by (intro erase_inv) simp_all

lemma delete_inv [inv_intros]: "editor_inv inp \<Longrightarrow> editor_inv (snd (tui_input_delete inp))"
  using right_facts [of inp] editor_inv_cursor [of inp]
  by (simp only: delete_erase) (intro erase_inv; simp)

lemma delete_word_inv [inv_intros]:
  assumes inv: "editor_inv inp" shows "editor_inv (snd (tui_input_delete_word inp))"
proof -
  define k where "k = skip_back blank (ibuf inp) (icursor inp)"
  define pos where "pos = skip_back (\<lambda>c. \<not> blank c) (ibuf inp) k"
  have c: "icursor inp \<le> length (ibuf inp)" "utf8_valid (ibuf inp)"
    "utf8_valid (take (icursor inp) (ibuf inp))"
    using editor_inv_cursor [OF inv] by simp_all
  have le: "pos \<le> icursor inp"
    unfolding pos_def k_def by (meson le_trans skip_back_le)
  have "utf8_valid (take pos (ibuf inp))"
    using skip_back_stop [of "\<lambda>c. \<not> blank c" "ibuf inp" k] c le
    by (intro utf8_valid_after_blank) (simp_all add: pos_def)
  then show ?thesis
    using erase_inv [OF inv le c(1)] c inv
    by (simp add: tui_input_delete_word_def Let_def flip: k_def pos_def)
qed

lemma insert_at_inv [inv_intros]:
  assumes "editor_inv inp" "utf8_valid t" "length (ibuf inp) + length t < icap inp"
  shows "editor_inv (insert_at inp t)"
proof -
  have "utf8_valid (drop (icursor inp) (ibuf inp))"
    using editor_inv_cursor [OF assms(1)] by (intro utf8_valid_drop) simp_all
  with assms show ?thesis
    by (auto simp: editor_inv_def layout_ok_def chars_ok_def insert_at_def utf8_valid_append)
qed

lemma icap_inv: "editor_inv inp \<Longrightarrow> icap inp \<le> c \<Longrightarrow> editor_inv (inp\<lparr>icap := c\<rparr>)"
  by (simp add: editor_inv_def layout_ok_def chars_ok_def)

lemma utf8_valid_pasted: "utf8_valid t \<Longrightarrow> utf8_valid (pasted t)"
  by (simp add: pasted_def utf8_valid_normalize)

lemma insert_inv [inv_intros]:
  assumes inv: "editor_inv inp" and "\<And>t. tx = Some t \<Longrightarrow> utf8_valid t"
  shows "editor_inv (snd (tui_input_insert alloc inp tx))"
proof (cases tx)
  case (Some t)
  have t: "utf8_valid (pasted t)" using assms(2) [OF Some] by (rule utf8_valid_pasted)
  show ?thesis
  proof (cases rule: grow_buffer_cases [of alloc inp "length (ibuf inp) + length (pasted t) + 1"])
    case 1
    then show ?thesis using inv Some by (simp add: tui_input_insert_def)
  next
    case (2 c)
    then have "editor_inv (insert_at (inp\<lparr>icap := c\<rparr>) (pasted t))"
      using icap_inv [OF inv] t by (intro insert_at_inv) simp_all
    with 2 show ?thesis using inv Some by (simp add: tui_input_insert_def)
  qed
qed (simp add: tui_input_insert_def inv)

lemma set_text_inv [inv_intros]:
  assumes inv: "editor_inv inp" and "\<And>t. tx = Some t \<Longrightarrow> utf8_valid t"
  shows "editor_inv (snd (tui_input_set_text alloc inp tx))"
proof -
  define t where "t = (case tx of None \<Rightarrow> [] | Some t \<Rightarrow> t)"
  have "utf8_valid t" using assms(2) by (simp add: t_def split: option.split)
  then show ?thesis using inv
    by (cases rule: grow_buffer_cases [of alloc inp "length t + 1"])
      (simp_all add: tui_input_set_text_def editor_inv_def layout_ok_def chars_ok_def flip: t_def)
qed

lemma home_end_clear_inv [inv_intros]:
  "editor_inv inp \<Longrightarrow> editor_inv (tui_input_home inp)"
  "editor_inv inp \<Longrightarrow> editor_inv (tui_input_end inp)"
  "editor_inv inp \<Longrightarrow> editor_inv (tui_input_clear inp)"
  "editor_inv inp \<Longrightarrow> editor_inv (end_walk inp)"
  by (auto simp: editor_inv_def layout_ok_def chars_ok_def tui_input_home_def tui_input_end_def
      tui_input_clear_def end_walk_def)

section \<open>The ring of lines\<close>

text \<open>The ring read from its oldest entry, and the list it implements.\<close>

definition ring :: "tui_input \<Rightarrow> cptr list" where
  "ring inp = map (\<lambda>i. history inp ! ((history_head inp + i) mod history_cap inp))
     [0..<history_count inp]"

definition remember :: "nat \<Rightarrow> 'a \<Rightarrow> 'a list \<Rightarrow> 'a list" where
  "remember cap x h =
     (if h \<noteq> [] \<and> last h = x then h else drop (length h + 1 - cap) (h @ [x]))"

lemma ring_length [simp]: "length (ring inp) = history_count inp"
  by (simp add: ring_def)

lemma ring_newest:
  "k < history_count inp \<Longrightarrow> history inp ! newest_idx inp k = ring inp ! (history_count inp - 1 - k)"
  by (simp add: ring_def newest_idx_def)

lemma ring_last: "0 < history_count inp \<Longrightarrow> history inp ! newest_idx inp 0 = last (ring inp)"
  using ring_newest [of 0 inp] by (simp add: last_conv_nth flip: length_greater_0_conv)

lemma push_slot_ring:
  assumes ok: "layout_ok inp" and cap: "0 < history_cap inp"
  shows "ring (push_slot alloc line inp) =
     drop (history_count inp + 1 - history_cap inp) (ring inp @ [dup_line alloc line])"
    and "history_head (push_slot alloc line inp) < history_cap inp"
proof -
  have head: "history_head inp < history_cap inp" using ok cap by (simp add: layout_ok_def)
  define h n c where "h = history_head inp" and "n = history_count inp" and "c = history_cap inp"
  have len: "length (history inp) = c" "n \<le> c" using ok by (simp_all add: layout_ok_def c_def n_def)
  show "history_head (push_slot alloc line inp) < history_cap inp"
    using cap head by (simp add: push_slot_def Let_def)
  show "ring (push_slot alloc line inp) =
      drop (history_count inp + 1 - history_cap inp) (ring inp @ [dup_line alloc line])"
  proof (cases "n < c")
    case True
    have "(history inp)[(h + n) mod c := dup_line alloc line] ! ((h + i) mod c) =
        history inp ! ((h + i) mod c)" if "i < n" for i
      using ring_slots_differ [of i n c h] that True by (intro nth_list_update_neq) auto
    then show ?thesis using True cap len
      by (simp add: push_slot_def ring_def flip: h_def n_def c_def)
  next
    case False
    then have n: "n = c" using len by simp
    have other: "(history inp)[h := dup_line alloc line] ! ((h + Suc i) mod c) =
        history inp ! ((h + Suc i) mod c)" if "Suc i < c" for i
      using ring_slots_differ [of 0 "Suc i" c h] that head
      by (intro nth_list_update_neq) (simp add: h_def c_def)
    show ?thesis
    proof (rule nth_equalityI)
      show "length (ring (push_slot alloc line inp)) =
          length (drop (history_count inp + 1 - history_cap inp) (ring inp @ [dup_line alloc line]))"
        using n cap by (simp add: push_slot_def flip: n_def c_def)
    next
      fix i assume "i < length (ring (push_slot alloc line inp))"
      then have i: "i < c" using n by (simp add: push_slot_def flip: n_def c_def)
      have step: "((h + 1) mod c + i) mod c = (h + Suc i) mod c"
        by (simp add: mod_add_left_eq)
      have "ring (push_slot alloc line inp) ! i =
          (history inp)[h := dup_line alloc line] ! ((h + Suc i) mod c)"
        using i n step by (simp add: push_slot_def ring_def flip: h_def n_def c_def)
      also have "\<dots> = (ring inp @ [dup_line alloc line]) ! Suc i"
      proof (cases "Suc i < c")
        case True
        then show ?thesis using other n
          by (simp add: ring_def nth_append flip: h_def n_def c_def)
      next
        case False
        then have "Suc i = c" using i by simp
        then show ?thesis using n len head
          by (simp add: nth_append flip: h_def n_def c_def)
      qed
      finally show "ring (push_slot alloc line inp) ! i =
          drop (history_count inp + 1 - history_cap inp) (ring inp @ [dup_line alloc line]) ! i"
        using n i ring_length [of inp] by (simp del: drop_append flip: n_def c_def)
    qed
  qed
qed

text \<open>Occupied slots: with enough memory none of them is empty.\<close>

definition lines :: "tui_input \<Rightarrow> string list" where
  "lines inp = map the (ring inp)"

definition slots_full :: "tui_input \<Rightarrow> bool" where
  "slots_full inp \<longleftrightarrow> None \<notin> set (ring inp)"

lemma lines_length [simp]: "length (lines inp) = history_count inp"
  by (simp add: lines_def)

lemma slots_full_nth:
  "slots_full inp \<Longrightarrow> i < history_count inp \<Longrightarrow> ring inp ! i = Some (lines inp ! i)"
  by (auto simp: slots_full_def lines_def in_set_conv_nth)

lemma slots_full_last:
  "slots_full inp \<Longrightarrow> 0 < history_count inp \<Longrightarrow> last (ring inp) = Some (last (lines inp))"
  using slots_full_nth [of inp "history_count inp - 1"]
  by (simp add: last_conv_nth flip: length_greater_0_conv)

lemma push_slot_layout: "layout_ok inp \<Longrightarrow> 0 < history_cap inp \<Longrightarrow> layout_ok (push_slot alloc line inp)"
  using push_slot_ring(2) [of inp alloc line]
  by (auto simp: layout_ok_def push_slot_def Let_def)

lemma push_slot_inv [inv_intros]:
  assumes inv: "editor_inv inp" and "0 < history_cap inp" and line: "utf8_valid line"
  shows "editor_inv (push_slot alloc line inp)"
proof -
  have "utf8_valid t" if "Some t \<in> insert (draft inp) (set ((history inp)[i := dup_line alloc line]))"
    for t i
    using that inv line set_update_subset_insert [of "history inp" i "dup_line alloc line"]
    by (auto simp: editor_inv_def chars_ok_def dup_line_def split: if_splits)
  then have "chars_ok (push_slot alloc line inp)"
    using inv by (auto simp: editor_inv_def chars_ok_def push_slot_def Let_def)
  with assms push_slot_layout show ?thesis by (simp add: editor_inv_def)
qed

lemma history_push_inv:
  "editor_inv inp \<Longrightarrow> utf8_valid line \<Longrightarrow> history_push alloc line inp = Some inp1 \<Longrightarrow> editor_inv inp1"
  by (auto simp: history_push_def intro: push_slot_inv split: if_splits option.splits)

lemma history_push_fields:
  "history_push alloc line inp = Some inp1 \<Longrightarrow>
     ibuf inp1 = ibuf inp \<and> icursor inp1 = icursor inp \<and> icap inp1 = icap inp \<and>
     history_cap inp1 = history_cap inp \<and> walking inp1 = walking inp \<and> draft inp1 = draft inp"
  by (auto simp: history_push_def push_slot_def Let_def split: if_splits option.splits)

text \<open>With memory the push is the abstract one, and it is defined.\<close>

lemma history_push_lines:
  assumes ok: "layout_ok inp" and full: "slots_full inp" and mem: "\<And>n. alloc n"
  obtains inp1 where "history_push alloc line inp = Some inp1" "slots_full inp1" "layout_ok inp1"
    "lines inp1 = (if history_cap inp = 0 then lines inp
                   else remember (history_cap inp) line (lines inp))"
proof (cases "history_cap inp = 0 \<or> (0 < history_count inp \<and> last (lines inp) = line)")
  case True
  have "history_push alloc line inp = Some inp"
  proof (cases "history_cap inp = 0")
    case False
    with True have "history inp ! newest_idx inp 0 = Some line"
      using slots_full_last [OF full] by (simp add: ring_last)
    with True False show ?thesis by (simp add: history_push_def)
  qed (simp add: history_push_def)
  moreover have "lines inp \<noteq> [] \<and> last (lines inp) = line" if "history_cap inp \<noteq> 0"
    using that True by (auto simp flip: length_greater_0_conv)
  ultimately show ?thesis using that [of inp] ok full by (simp add: remember_def)
next
  case False
  then have cap: "0 < history_cap inp" by simp
  define inp1 where "inp1 = push_slot alloc line inp"
  have r: "ring inp1 = drop (history_count inp + 1 - history_cap inp) (ring inp @ [Some line])"
    using push_slot_ring(1) [OF ok cap, of alloc line] mem by (simp add: inp1_def dup_line_def)
  have "history_push alloc line inp = Some inp1"
    using False slots_full_last [OF full] by (auto simp: history_push_def inp1_def ring_last)
  moreover have "slots_full inp1"
    using full by (auto simp: slots_full_def r dest: in_set_dropD)
  moreover have "\<not> (lines inp \<noteq> [] \<and> last (lines inp) = line)"
    using False by (auto simp flip: length_greater_0_conv)
  moreover have "lines inp1 = drop (history_count inp + 1 - history_cap inp) (lines inp @ [line])"
    by (simp del: drop_append add: lines_def r flip: drop_map)
  ultimately show ?thesis
    using that [of inp1] cap push_slot_layout [OF ok cap] by (auto simp: remember_def inp1_def)
qed

section \<open>The walk\<close>

lemma newest_idx_bound: "layout_ok inp \<Longrightarrow> 0 < history_count inp \<Longrightarrow> newest_idx inp k < length (history inp)"
  by (simp add: layout_ok_def newest_idx_def)

lemma show_entry_inv [inv_intros]:
  assumes "editor_inv inp" "0 < history_count inp"
  shows "editor_inv (snd (show_entry alloc inp))"
proof -
  have "history inp ! newest_idx inp (history_walk inp) \<in> set (history inp)"
    using assms by (intro nth_mem newest_idx_bound) (simp_all add: editor_inv_def)
  then have "editor_inv (snd (tui_input_set_text alloc inp
      (history inp ! newest_idx inp (history_walk inp))))"
    using assms(1) by (intro set_text_inv) (auto simp: editor_inv_def chars_ok_def)
  then show ?thesis by (simp add: show_entry_def split_beta)
qed

lemma back_inv [inv_intros]:
  assumes inv: "editor_inv inp" shows "editor_inv (snd (tui_input_history_back alloc inp))"
proof -
  have "editor_inv (inp\<lparr>draft := dup_line alloc (ibuf inp), walking := True, history_walk := 0\<rparr>)"
    if "0 < history_count inp"
    using inv that by (auto simp: editor_inv_def layout_ok_def chars_ok_def dup_line_def split: if_splits)
  moreover have "editor_inv (inp\<lparr>history_walk := history_walk inp + 1\<rparr>)"
    if "\<not> history_walk inp \<ge> history_count inp - 1"
    using inv that by (auto simp: editor_inv_def layout_ok_def chars_ok_def)
  ultimately show ?thesis using inv
    by (auto simp: tui_input_history_back_def intro!: show_entry_inv)
qed

lemma forward_inv [inv_intros]:
  assumes inv: "editor_inv inp" shows "editor_inv (snd (tui_input_history_forward alloc inp))"
proof -
  have "editor_inv (inp\<lparr>history_walk := history_walk inp - 1\<rparr>)" if "walking inp"
    using inv that by (auto simp: editor_inv_def layout_ok_def chars_ok_def)
  moreover have "editor_inv (snd (tui_input_set_text alloc inp (draft inp)))"
    using inv by (intro set_text_inv) (auto simp: editor_inv_def chars_ok_def)
  then have "editor_inv ((snd (tui_input_set_text alloc inp (draft inp)))\<lparr>walking := False\<rparr>)"
    by (simp add: editor_inv_def layout_ok_def chars_ok_def)
  moreover have "0 < history_count inp" if "walking inp"
    using inv that by (auto simp: editor_inv_def layout_ok_def)
  ultimately show ?thesis
    using inv \<open>editor_inv (snd (tui_input_set_text alloc inp (draft inp)))\<close>
    by (auto simp: tui_input_history_forward_def split_beta Let_def intro!: show_entry_inv)
qed

lemma submit_inv:
  assumes inv: "editor_inv inp" and "tui_input_submit alloc inp = Some (out, inp1)"
  shows "editor_inv inp1"
proof (cases "ibuf inp = [] \<or> dup_line alloc (ibuf inp) = None")
  case True
  with assms show ?thesis by (auto simp: tui_input_submit_def split: if_splits)
next
  case False
  then obtain inp2 where "history_push alloc (ibuf inp) inp = Some inp2"
    "inp1 = end_walk (tui_input_clear inp2)"
    using assms(2) by (auto simp: tui_input_submit_def split: option.splits)
  moreover have "utf8_valid (ibuf inp)" using editor_inv_cursor [OF inv] by simp
  ultimately show ?thesis using inv by (auto intro!: inv_intros dest: history_push_inv)
qed

lemma seed_inv:
  "editor_inv inp \<Longrightarrow> list_all utf8_valid es \<Longrightarrow> tui_input_seed_history alloc inp es = Some inp1 \<Longrightarrow>
     editor_inv inp1"
  by (induction alloc inp es rule: tui_input_seed_history.induct)
    (auto intro: history_push_inv split: option.splits)

section \<open>Editing sessions\<close>

datatype edit =
    Insert cptr | Backspace | Delete | Move int | Home | End | Clear | DeleteWord | SetText cptr
  | Submit | Back | Forward | ResetWalk | Seed "string list"

text \<open>One call of the interface; \<open>None\<close> is the undefined comparison with an empty slot.\<close>

fun edit_call :: "(nat \<Rightarrow> bool) \<Rightarrow> edit \<Rightarrow> tui_input \<Rightarrow> tui_input option" where
  "edit_call al (Insert t) inp = Some (snd (tui_input_insert al inp t))"
| "edit_call al Backspace inp = Some (snd (tui_input_backspace inp))"
| "edit_call al Delete inp = Some (snd (tui_input_delete inp))"
| "edit_call al (Move k) inp = Some (tui_input_move inp k)"
| "edit_call al Home inp = Some (tui_input_home inp)"
| "edit_call al End inp = Some (tui_input_end inp)"
| "edit_call al Clear inp = Some (tui_input_clear inp)"
| "edit_call al DeleteWord inp = Some (snd (tui_input_delete_word inp))"
| "edit_call al (SetText t) inp = Some (snd (tui_input_set_text al inp t))"
| "edit_call al Submit inp = map_option snd (tui_input_submit al inp)"
| "edit_call al Back inp = Some (snd (tui_input_history_back al inp))"
| "edit_call al Forward inp = Some (snd (tui_input_history_forward al inp))"
| "edit_call al ResetWalk inp = Some (tui_input_reset_history_walk inp)"
| "edit_call al (Seed es) inp = tui_input_seed_history al inp es"

fun edit_step :: "tui_input option \<Rightarrow> (nat \<Rightarrow> bool) \<times> edit \<Rightarrow> tui_input option" where
  "edit_step None e = None"
| "edit_step (Some inp) (al, e) = edit_call al e inp"

fun edit_ok :: "(nat \<Rightarrow> bool) \<times> edit \<Rightarrow> bool" where
  "edit_ok (al, Insert t) = pred_option utf8_valid t"
| "edit_ok (al, SetText t) = pred_option utf8_valid t"
| "edit_ok (al, Seed es) = list_all utf8_valid es"
| "edit_ok _ = True"

definition fresh_editor :: "nat \<Rightarrow> tui_input" where
  "fresh_editor cap =
     \<lparr>ibuf = [], icap = 64, icursor = 0, history_cap = cap, history_count = 0, history_head = 0,
      history = replicate cap None, history_walk = 0, walking = False, draft = None\<rparr>"

lemma create_fresh: "(\<And>n. alloc n) \<Longrightarrow> tui_input_create alloc cap = Some (fresh_editor cap)"
  by (simp add: tui_input_create_def grow_buffer_def fresh_editor_def input_cap.simps [of 64 "Suc 0"])

lemma fresh_inv: "editor_inv (fresh_editor cap)"
  by (auto simp: fresh_editor_def editor_inv_def layout_ok_def chars_ok_def)

lemma edit_call_inv: "edit_ok (al, e) \<Longrightarrow> editor_inv inp \<Longrightarrow> edit_call al e inp = Some inp1 \<Longrightarrow> editor_inv inp1"
  by (cases e) (auto simp: tui_input_reset_history_walk_def option.pred_set
      intro!: inv_intros dest: submit_inv seed_inv)

interpretation editor: guarded_machine "Some (fresh_editor cap)" edit_step
    "pred_option editor_inv" edit_ok for cap
proof unfold_locales
  show "pred_option editor_inv (Some (fresh_editor cap))" by (simp add: fresh_inv)
next
  fix e s assume "edit_ok e" "pred_option editor_inv s"
  then show "pred_option editor_inv (edit_step s e)"
    by (cases e; cases s) (auto simp: option.pred_set dest: edit_call_inv)
qed

text \<open>Only a submission and the seeding touch the ring.\<close>

definition same_ring :: "tui_input \<Rightarrow> tui_input \<Rightarrow> bool" where
  "same_ring a b \<longleftrightarrow> history a = history b \<and> history_head a = history_head b \<and>
     history_count a = history_count b \<and> history_cap a = history_cap b"

lemma same_ring_D: "same_ring a b \<Longrightarrow> ring a = ring b \<and> slots_full a = slots_full b \<and> lines a = lines b"
  by (simp add: same_ring_def slots_full_def lines_def ring_def)

lemma set_text_same_ring: "same_ring (snd (tui_input_set_text al inp t)) inp"
  by (simp add: tui_input_set_text_def grow_buffer_def Let_def same_ring_def)

lemma show_entry_same_ring: "same_ring (snd (show_entry al inp)) inp"
  using set_text_same_ring [of al inp] by (simp add: show_entry_def split_beta Let_def)

lemma back_same_ring: "same_ring (snd (tui_input_history_back al inp)) inp"
  using show_entry_same_ring [of al] by (simp add: tui_input_history_back_def same_ring_def)

lemma forward_same_ring: "same_ring (snd (tui_input_history_forward al inp)) inp"
  using show_entry_same_ring [of al] set_text_same_ring [of al inp]
  by (simp add: tui_input_history_forward_def same_ring_def split_beta Let_def)

lemma insert_same_ring: "same_ring (snd (tui_input_insert al inp t)) inp"
  by (simp add: tui_input_insert_def grow_buffer_def Let_def insert_at_def same_ring_def
      split: option.split)

lemma step_same_ring:
  "same_ring a b \<Longrightarrow> same_ring (cursor_left_cp a) b" "same_ring a b \<Longrightarrow> same_ring (cursor_right_cp a) b"
  by (simp_all add: same_ring_def cursor_left_cp_def cursor_right_cp_def)

lemma same_ring_refl: "same_ring a a"
  by (simp add: same_ring_def)

lemma move_same_ring: "same_ring (tui_input_move inp k) inp"
  unfolding tui_input_move_def
  by (auto intro!: funpow_inv [where P = "\<lambda>x. same_ring x inp"] step_same_ring same_ring_refl)

lemma small_same_ring:
  "same_ring (snd (tui_input_backspace inp)) inp" "same_ring (snd (tui_input_delete inp)) inp"
  "same_ring (tui_input_home inp) inp" "same_ring (tui_input_end inp) inp"
  "same_ring (tui_input_clear inp) inp" "same_ring (snd (tui_input_delete_word inp)) inp"
  "same_ring (tui_input_reset_history_walk inp) inp"
  by (auto simp: backspace_erase Let_def same_ring_def tui_input_home_def tui_input_end_def
      tui_input_clear_def end_walk_def tui_input_reset_history_walk_def tui_input_delete_def
      tui_input_delete_word_def cursor_right_cp_def)

lemmas ring_kept = small_same_ring set_text_same_ring back_same_ring forward_same_ring insert_same_ring
  move_same_ring

lemma edit_call_same_ring:
  assumes "e \<noteq> Submit" "\<And>es. e \<noteq> Seed es"
  obtains inp1 where "edit_call al e inp = Some inp1" "same_ring inp1 inp"
  using assms
  by (cases e) (auto intro: ring_kept)

lemma submit_lines:
  assumes "layout_ok inp" "slots_full inp" "\<And>n. al n" "ibuf inp \<noteq> []"
  obtains inp1 where "tui_input_submit al inp = Some (Some (ibuf inp), inp1)"
    "slots_full inp1" "ibuf inp1 = []" "icursor inp1 = 0" "\<not> walking inp1" "draft inp1 = None"
    "lines inp1 = (if history_cap inp = 0 then lines inp
                   else remember (history_cap inp) (ibuf inp) (lines inp))"
proof -
  obtain inp2 where p: "history_push al (ibuf inp) inp = Some inp2" "slots_full inp2"
    "lines inp2 = (if history_cap inp = 0 then lines inp
                   else remember (history_cap inp) (ibuf inp) (lines inp))"
    using history_push_lines [OF assms(1-3)] .
  have "same_ring (end_walk (tui_input_clear inp2)) inp2"
    by (simp add: same_ring_def end_walk_def tui_input_clear_def)
  note r = same_ring_D [OF this]
  show ?thesis
    by (rule that [of "end_walk (tui_input_clear inp2)"])
      (use p r assms in \<open>auto simp: tui_input_submit_def dup_line_def end_walk_def tui_input_clear_def\<close>)
qed

lemma seed_lines:
  assumes "layout_ok inp" "slots_full inp" "\<And>n. al n"
  shows "\<exists>inp1. tui_input_seed_history al inp es = Some inp1 \<and> slots_full inp1 \<and>
     lines inp1 = (if history_cap inp = 0 then lines inp
                   else fold (remember (history_cap inp)) es (lines inp))"
  using assms(1,2)
proof (induction es arbitrary: inp)
  case (Cons e es)
  obtain inp1 where p: "history_push al e inp = Some inp1" "slots_full inp1" "layout_ok inp1"
    "lines inp1 = (if history_cap inp = 0 then lines inp
                   else remember (history_cap inp) e (lines inp))"
    using history_push_lines [OF Cons.prems assms(3)] .
  moreover have "history_cap inp1 = history_cap inp" using history_push_fields [OF p(1)] by simp
  ultimately show ?case using Cons.IH [OF p(3) p(2)] by (cases "history_cap inp = 0") simp_all
qed simp

fun edit_ok_mem :: "(nat \<Rightarrow> bool) \<times> edit \<Rightarrow> bool" where
  "edit_ok_mem (al, e) \<longleftrightarrow> edit_ok (al, e) \<and> (\<forall>n. al n)"

definition full_inv :: "tui_input option \<Rightarrow> bool" where
  "full_inv s \<longleftrightarrow> (case s of None \<Rightarrow> False | Some inp \<Rightarrow> editor_inv inp \<and> slots_full inp)"

lemma edit_call_full:
  assumes ok: "edit_ok_mem (al, e)" and inv: "editor_inv inp" "slots_full inp"
  shows "full_inv (edit_call al e inp)"
proof -
  have lay: "layout_ok inp" and mem: "\<And>n. al n"
    using ok inv by (simp_all add: editor_inv_def)
  obtain inp1 where r: "edit_call al e inp = Some inp1" "slots_full inp1"
  proof (cases "e = Submit \<or> (\<exists>es. e = Seed es)")
    case True
    then show ?thesis
    proof
      assume e: "e = Submit"
      show ?thesis
      proof (cases "ibuf inp = []")
        case True
        then show ?thesis using e inv that [of inp] by (simp add: tui_input_submit_def)
      next
        case False
        from submit_lines [OF lay inv(2) mem this] obtain inp1
          where "tui_input_submit al inp = Some (Some (ibuf inp), inp1)" "slots_full inp1" .
        then show ?thesis using e that [of inp1] by simp
      qed
    next
      assume "\<exists>es. e = Seed es"
      then obtain es where "e = Seed es" ..
      then show ?thesis using seed_lines [OF lay inv(2), of al es] mem that by auto
    qed
  next
    case False
    then obtain inp1 where "edit_call al e inp = Some inp1" "same_ring inp1 inp"
      using edit_call_same_ring [of e al inp] by blast
    then show ?thesis using same_ring_D inv that by simp
  qed
  moreover have "editor_inv inp1" using edit_call_inv [OF _ inv(1) r(1)] ok by simp
  ultimately show ?thesis by (simp add: full_inv_def)
qed

interpretation editor_mem: guarded_machine "Some (fresh_editor cap)" edit_step full_inv edit_ok_mem
  for cap
proof unfold_locales
  show "full_inv (Some (fresh_editor cap))"
    by (simp add: full_inv_def fresh_inv) (simp add: slots_full_def ring_def fresh_editor_def)
next
  fix e s assume "edit_ok_mem e" "full_inv s"
  then show "full_inv (edit_step s e)"
    by (cases e; cases s) (auto simp: full_inv_def [of "Some _"] full_inv_def [of None]
        simp del: edit_ok_mem.simps intro: edit_call_full)
qed

section \<open>Walking back and forth\<close>

abbreviation go_back :: "tui_input \<Rightarrow> tui_input" where
  "go_back inp \<equiv> snd (tui_input_history_back (\<lambda>_. True) inp)"

abbreviation go_forth :: "tui_input \<Rightarrow> tui_input" where
  "go_forth inp \<equiv> snd (tui_input_history_forward (\<lambda>_. True) inp)"

text \<open>The editor that left the line of \<open>a\<close> and shows the entry \<open>j\<close> steps back.\<close>

definition showing :: "tui_input \<Rightarrow> nat \<Rightarrow> tui_input \<Rightarrow> bool" where
  "showing a j s \<longleftrightarrow> same_ring s a \<and> walking s \<and> history_walk s = j \<and> draft s = Some (ibuf a) \<and>
     ibuf s = lines a ! (history_count a - 1 - j) \<and> icursor s = length (ibuf s)"

lemma set_text_mem:
  "\<exists>c. tui_input_set_text (\<lambda>_. True) inp (Some t) =
     (0, inp\<lparr>icap := c, ibuf := t, icursor := length t\<rparr>)"
  by (cases rule: grow_buffer_ok [of "\<lambda>_. True" inp "length t + 1"])
    (auto simp: tui_input_set_text_def)

lemma show_entry_mem:
  assumes "same_ring s a" "slots_full a" "history_walk s < history_count a" "walking s"
    "draft s = Some (ibuf a)"
  shows "showing a (history_walk s) (snd (show_entry (\<lambda>_. True) s))"
proof -
  have full: "slots_full s" "lines s = lines a" "history_count s = history_count a"
    using assms same_ring_D [OF assms(1)] by (simp_all add: same_ring_def)
  then have e: "history s ! newest_idx s (history_walk s) =
      Some (lines a ! (history_count a - 1 - history_walk s))"
    using assms(3) ring_newest [of "history_walk s" s] slots_full_nth [OF full(1)] by simp
  obtain c where "tui_input_set_text (\<lambda>_. True) s (history s ! newest_idx s (history_walk s)) =
      (0, s\<lparr>icap := c, ibuf := lines a ! (history_count a - 1 - history_walk s),
           icursor := length (lines a ! (history_count a - 1 - history_walk s))\<rparr>)"
    using set_text_mem e by metis
  then show ?thesis using assms by (simp add: show_entry_def showing_def same_ring_def)
qed

lemma back_first:
  assumes "slots_full a" "0 < history_count a" "\<not> walking a"
  shows "showing a 0 (go_back a)"
  using show_entry_mem [of "a\<lparr>draft := Some (ibuf a), walking := True, history_walk := 0\<rparr>" a] assms
  by (simp add: tui_input_history_back_def dup_line_def same_ring_def)

lemma back_next:
  assumes "slots_full a" "showing a j s" "Suc j < history_count a"
  shows "showing a (Suc j) (go_back s)"
  using show_entry_mem [of "s\<lparr>history_walk := Suc j\<rparr>" a] assms
  by (auto simp: tui_input_history_back_def showing_def same_ring_def)

lemma back_at_oldest:
  "showing a j s \<Longrightarrow> Suc j = history_count a \<Longrightarrow> tui_input_history_back al s = (None, s)"
  by (auto simp: tui_input_history_back_def showing_def same_ring_def)

lemma forth_next:
  assumes "slots_full a" "showing a (Suc j) s" "Suc j < history_count a"
  shows "showing a j (go_forth s)"
  using show_entry_mem [of "s\<lparr>history_walk := j\<rparr>" a] assms
  by (auto simp: tui_input_history_forward_def showing_def same_ring_def)

lemma forth_last:
  assumes "showing a 0 s"
  shows "\<not> walking (go_forth s) \<and> ibuf (go_forth s) = ibuf a \<and> icursor (go_forth s) = length (ibuf a) \<and>
     same_ring (go_forth s) a"
  using assms set_text_mem [of s "ibuf a"]
  by (auto simp: tui_input_history_forward_def showing_def same_ring_def)

lemma back_pow:
  assumes "slots_full a" "\<not> walking a" "k < history_count a"
  shows "showing a k ((go_back ^^ Suc k) a)"
  using assms(3)
proof (induction k)
  case 0
  then show ?case using back_first assms by simp
next
  case (Suc k)
  then show ?case using back_next [OF assms(1), of k "(go_back ^^ Suc k) a"] by simp
qed

lemma forth_pow:
  assumes "slots_full a" "showing a k s" "k < history_count a"
  shows "\<not> walking ((go_forth ^^ Suc k) s) \<and> ibuf ((go_forth ^^ Suc k) s) = ibuf a \<and>
     same_ring ((go_forth ^^ Suc k) s) a"
  using assms(2,3)
proof (induction k arbitrary: s)
  case 0
  then show ?case using forth_last by simp
next
  case (Suc k)
  have "showing a k (go_forth s)" using forth_next [OF assms(1) Suc.prems] .
  then show ?case using Suc.IH [of "go_forth s"] Suc.prems(2) by (simp only: funpow_Suc_right comp_def) simp
qed

section \<open>Typing and erasing\<close>

lemma back_off_cont:
  "i \<le> k \<Longrightarrow> (\<And>j. i < j \<Longrightarrow> j \<le> k \<Longrightarrow> is_cont (char_at s j)) \<Longrightarrow> i = 0 \<or> \<not> is_cont (char_at s i) \<Longrightarrow>
     back_off s k = i"
  by (induction k) (auto simp: le_Suc_eq)

text \<open>A character is a byte that starts one, and continuation bytes.\<close>

lemma encode_lead:
  "scalar cp \<Longrightarrow> \<exists>c cs. utf8_encode_cp cp = c # cs \<and> \<not> is_cont c \<and> (\<forall>d \<in> set cs. is_cont d)"
  by (cases rule: scalar_cases [of cp])
    (auto simp: utf8_encode_1 utf8_encode_2 utf8_encode_3 utf8_encode_4 scalar_def is_cont_range
      less_mult_imp_div_less)

definition typed :: "tui_input \<Rightarrow> string \<Rightarrow> tui_input" where
  "typed inp t = snd (tui_input_insert (\<lambda>_. True) inp (Some t))"

abbreviation rubout :: "tui_input \<Rightarrow> tui_input" where
  "rubout inp \<equiv> snd (tui_input_backspace inp)"

text \<open>What the user sees: the text before and after the cursor.\<close>

definition split_text :: "tui_input \<Rightarrow> string \<times> string" where
  "split_text inp = (take (icursor inp) (ibuf inp), drop (icursor inp) (ibuf inp))"

lemma typed_split:
  assumes "icursor inp \<le> length (ibuf inp)" "split_text inp = (a, b)"
  shows "split_text (typed inp t) = (a @ pasted t, b) \<and>
     icursor (typed inp t) \<le> length (ibuf (typed inp t))"
proof -
  obtain c where g: "grow_buffer (\<lambda>_. True) inp (length (ibuf inp) + length (pasted t) + 1) =
      (0, inp\<lparr>icap := c\<rparr>)"
    using grow_buffer_ok [of "\<lambda>_. True"] by blast
  have "pasted [] = []" by (simp add: pasted_def memchr_def)
  with assms g show ?thesis
    by (auto simp: typed_def tui_input_insert_def insert_at_def split_text_def Let_def)
qed

lemma rubout_split:
  assumes "scalar cp" "split_text inp = (a @ utf8_encode_cp cp, b)"
    "icursor inp \<le> length (ibuf inp)"
  shows "split_text (rubout inp) = (a, b) \<and> icursor (rubout inp) \<le> length (ibuf (rubout inp))"
proof -
  obtain c cs where e: "utf8_encode_cp cp = c # cs" "\<not> is_cont c" "\<forall>d \<in> set cs. is_cont d"
    using encode_lead [OF assms(1)] by blast
  have buf: "ibuf inp = a @ c # cs @ b" "icursor inp = Suc (length a + length cs)"
  proof -
    have "ibuf inp = fst (split_text inp) @ snd (split_text inp)" by (simp add: split_text_def)
    then show "ibuf inp = a @ c # cs @ b" using assms(2) e(1) by simp
    have "length (take (icursor inp) (ibuf inp)) = Suc (length a + length cs)"
      using assms(2) e(1) by (simp add: split_text_def)
    then show "icursor inp = Suc (length a + length cs)" using assms(3) by simp
  qed
  have "back_off (ibuf inp) (length a + length cs) = length a"
  proof (rule back_off_cont)
    fix j assume j: "length a < j" "j \<le> length a + length cs"
    define i where "i = j - length a - 1"
    have i: "j = length a + Suc i" "i < length cs" using j by (simp_all add: i_def)
    then have "char_at (ibuf inp) j = cs ! i"
      by (simp add: buf char_at_def nth_append)
    then show "is_cont (char_at (ibuf inp) j)" using e(3) i(2) by simp
  qed (use e(2) in \<open>simp_all add: buf char_at_def nth_append\<close>)
  then have "icursor (cursor_left_cp inp) = length a"
    by (simp add: cursor_left_cp_def buf)
  then show ?thesis by (simp add: backspace_erase Let_def split_text_def buf erase_def)
qed

lemma rubout_pow:
  assumes "list_all scalar cps" "split_text inp = (a @ concat (map utf8_encode_cp cps), b)"
    "icursor inp \<le> length (ibuf inp)"
  shows "split_text ((rubout ^^ length cps) inp) = (a, b)"
  using assms
proof (induction cps arbitrary: inp rule: rev_induct)
  case (snoc cp cps)
  have "split_text (rubout inp) = (a @ concat (map utf8_encode_cp cps), b) \<and>
      icursor (rubout inp) \<le> length (ibuf (rubout inp))"
    using snoc.prems by (intro rubout_split [of cp]) simp_all
  then have "split_text ((rubout ^^ length cps) (rubout inp)) = (a, b)"
    using snoc.IH snoc.prems(1) by simp
  then show ?case by (simp only: length_append_singleton funpow_Suc_right comp_def)
qed simp

section \<open>Properties\<close>

text \<open>
  C24: whatever the user types, pastes, erases, submits and recalls, the cursor stays inside the
  text and the buffer has room for it and its NUL; the text on either side of the cursor is valid
  UTF-8, so no character is ever left half deleted; the history never exceeds its capacity. The
  code can only reach the undefined comparison with an empty history slot when an allocation
  failed.
\<close>

theorem editor_sessions:
  assumes "list_all edit_ok es"
  shows "case run edit_step (Some (fresh_editor cap)) es of
           None \<Rightarrow> \<exists>(al, e) \<in> set es. \<exists>n. \<not> al n
         | Some inp \<Rightarrow>
             icursor inp \<le> length (ibuf inp) \<and> length (ibuf inp) < icap inp \<and>
             utf8_valid (take (icursor inp) (ibuf inp)) \<and>
             utf8_valid (drop (icursor inp) (ibuf inp)) \<and>
             history_count inp \<le> history_cap inp"
proof (cases "run edit_step (Some (fresh_editor cap)) es")
  case None
  have "\<not> list_all edit_ok_mem es"
    using editor_mem.inv_reachable_ok [of es cap] None by (auto simp: full_inv_def)
  with assms show ?thesis using None by (force simp: list_all_iff)
next
  case (Some inp)
  then have inv: "editor_inv inp" using editor.inv_reachable_ok [OF assms, of cap] by simp
  then have "utf8_valid (drop (icursor inp) (ibuf inp))"
    using editor_inv_cursor [OF inv] by (intro utf8_valid_drop) simp_all
  with inv Some show ?thesis
    by (simp add: editor_inv_def layout_ok_def chars_ok_def)
qed

theorem editor_sessions_witness:
  "case run edit_step (Some (fresh_editor 2))
          [(\<lambda>_. True, Insert (Some (utf8_encode_cp 233))), (\<lambda>_. True, Backspace), (\<lambda>_. True, Submit)] of
           None \<Rightarrow> False
         | Some inp \<Rightarrow> icursor inp \<le> length (ibuf inp)"
proof -
  define es :: "((nat \<Rightarrow> bool) \<times> edit) list" where
    "es = [(\<lambda>_. True, Insert (Some (utf8_encode_cp 233))), (\<lambda>_. True, Backspace), (\<lambda>_. True, Submit)]"
  have ok: "list_all edit_ok es"
    using utf8_valid_encode_append [of 233 "[]"] by (simp add: es_def scalar_def)
  have "\<not> (\<exists>(al, e) \<in> set es. \<exists>n. \<not> al n)" by (simp add: es_def)
  then show ?thesis using editor_sessions [OF ok, of 2] unfolding es_def [symmetric]
    by (cases "run edit_step (Some (fresh_editor 2)) es") simp_all
qed

text \<open>
  C40: the ring of slots implements a bounded list of lines: a submission hands out the line,
  empties the editor and appends the line to the history, unless it repeats the newest one, the
  oldest line being dropped when the history is full; seeding does the same for every line, in
  order.
\<close>

theorem history_refines:
  assumes "layout_ok inp" "slots_full inp" "0 < history_cap inp"
  shows "(ibuf inp \<noteq> [] \<longrightarrow>
      (\<exists>inp1. tui_input_submit (\<lambda>_. True) inp = Some (Some (ibuf inp), inp1) \<and> ibuf inp1 = [] \<and>
        \<not> walking inp1 \<and> lines inp1 = remember (history_cap inp) (ibuf inp) (lines inp))) \<and>
    (\<exists>inp1. tui_input_seed_history (\<lambda>_. True) inp es = Some inp1 \<and>
        lines inp1 = fold (remember (history_cap inp)) es (lines inp))"
proof (intro conjI impI)
  assume "ibuf inp \<noteq> []"
  from submit_lines [OF assms(1,2) _ this, of "\<lambda>_. True"] assms(3)
  show "\<exists>inp1. tui_input_submit (\<lambda>_. True) inp = Some (Some (ibuf inp), inp1) \<and> ibuf inp1 = [] \<and>
        \<not> walking inp1 \<and> lines inp1 = remember (history_cap inp) (ibuf inp) (lines inp)"
    by (metis neq0_conv)
next
  show "\<exists>inp1. tui_input_seed_history (\<lambda>_. True) inp es = Some inp1 \<and>
        lines inp1 = fold (remember (history_cap inp)) es (lines inp)"
    using seed_lines [OF assms(1,2), of "\<lambda>_. True" es] assms(3) by auto
qed

theorem history_refines_witness:
  "\<exists>inp1. tui_input_seed_history (\<lambda>_. True) (fresh_editor 2) [''a'', ''a'', ''b'', ''c''] = Some inp1 \<and>
     lines inp1 = [''b'', ''c'']"
proof -
  have "layout_ok (fresh_editor 2)" "slots_full (fresh_editor 2)"
    using fresh_inv [of 2] by (simp_all add: editor_inv_def slots_full_def ring_def fresh_editor_def)
  from history_refines [OF this, of "[''a'', ''a'', ''b'', ''c'']"] show ?thesis
    by (simp add: fresh_editor_def remember_def lines_def ring_def)
qed

text \<open>
  Walking \<open>k + 1\<close> steps back shows the \<open>k\<close>-th newest line of the history, and
  as many steps forward bring back exactly the line that was being edited.
\<close>

theorem walk_restores_draft:
  assumes "slots_full inp" "\<not> walking inp" "k < history_count inp"
  shows "ibuf ((go_back ^^ Suc k) inp) = lines inp ! (history_count inp - 1 - k) \<and>
     ibuf ((go_forth ^^ Suc k) ((go_back ^^ Suc k) inp)) = ibuf inp \<and>
     \<not> walking ((go_forth ^^ Suc k) ((go_back ^^ Suc k) inp)) \<and>
     lines ((go_forth ^^ Suc k) ((go_back ^^ Suc k) inp)) = lines inp"
  using back_pow [OF assms] forth_pow [OF assms(1) back_pow [OF assms] assms(3)] same_ring_D
  unfolding showing_def by blast

definition demo_editor :: tui_input where
  "demo_editor = (fresh_editor 2)\<lparr>ibuf := ''draft'', icursor := 5, history_count := 2,
     history := [Some ''old'', Some ''new'']\<rparr>"

theorem walk_restores_draft_witness:
  "ibuf ((go_back ^^ Suc 1) demo_editor) = ''old'' \<and>
     ibuf ((go_forth ^^ Suc 1) ((go_back ^^ Suc 1) demo_editor)) = ''draft''"
proof -
  have "slots_full demo_editor" "\<not> walking demo_editor" "1 < history_count demo_editor"
    "lines demo_editor = [''old'', ''new'']" "history_count demo_editor = 2"
    "ibuf demo_editor = ''draft''"
    by (simp_all add: demo_editor_def slots_full_def lines_def ring_def fresh_editor_def
        eval_nat_numeral)
  then show ?thesis using walk_restores_draft [of demo_editor 1] by simp
qed

text \<open>
  Typing is undone by erasing: after inserting text of \<open>n\<close> characters, \<open>n\<close>
  presses of backspace leave the text before and after the cursor as it was, however many bytes
  the characters take.
\<close>

theorem rubout_undoes_typing:
  assumes "list_all scalar cps" "13 \<notin> set cps" "icursor inp \<le> length (ibuf inp)"
  shows "split_text ((rubout ^^ length cps) (typed inp (concat (map utf8_encode_cp cps))))
           = split_text inp"
proof -
  have "CR \<notin> set (utf8_encode_cp cp)" if "scalar cp" "cp \<noteq> 13" for cp
  proof (cases "cp < 128")
    case True
    then have "byte CR \<noteq> byte (chr cp)" using that by simp
    then have "CR \<noteq> chr cp" by metis
    then show ?thesis using True by (simp add: utf8_encode_1)
  next
    case False
    then show ?thesis using encode_byte_ge [OF that(1), of CR] by auto
  qed
  then have "CR \<notin> set (concat (map utf8_encode_cp cps))"
    using assms by (auto simp: list_all_iff)
  then have p: "pasted (concat (map utf8_encode_cp cps)) = concat (map utf8_encode_cp cps)"
    by (simp add: pasted_def normalize_id)
  obtain a b where s: "split_text inp = (a, b)" by (cases "split_text inp")
  from typed_split [OF assms(3) s, of "concat (map utf8_encode_cp cps)"] p
  show ?thesis unfolding s by (intro rubout_pow [OF assms(1)]) simp_all
qed

theorem rubout_undoes_typing_witness:
  "split_text ((rubout ^^ 2) (typed demo_editor (utf8_encode_cp 233 @ utf8_encode_cp 0x1F600)))
     = (''draft'', [])"
proof -
  have "split_text demo_editor = (''draft'', [])" "icursor demo_editor \<le> length (ibuf demo_editor)"
    by (simp_all add: demo_editor_def split_text_def)
  moreover have "list_all scalar [233, 0x1F600]" "13 \<notin> set [233, 0x1F600 :: nat]"
    by (simp_all add: scalar_def)
  moreover have "length [233, 0x1F600 :: nat] = 2"
    "concat (map utf8_encode_cp [233, 0x1F600]) = utf8_encode_cp 233 @ utf8_encode_cp 0x1F600"
    by simp_all
  ultimately show ?thesis
    using rubout_undoes_typing [of "[233, 0x1F600]" demo_editor] by metis
qed

text \<open>The editor with a slot left empty by a failed copy: the next submission compares with it.\<close>

lemma failed_copy_then_undefined:
  "run edit_step (Some (fresh_editor 2))
     [(\<lambda>_. False, Seed [''a'']), (\<lambda>_. True, Seed [''b''])] = None"
  by (simp add: history_push_def fresh_editor_def push_slot_def dup_line_def newest_idx_def)

end
