(* ===== verification/OauthCodec.thy ===== *)
theory OauthCodec
  imports CString
begin

text \<open>
  The encodings of the sign-in flow (\<open>llm/oauth_codec.c\<close>): percent encoding and decoding of
  query values, base64url without padding, the PKCE verifier and challenge, and the address of
  the authorization page.

  Bytes are characters; a byte array with its length is a \<open>string\<close>. The random source and
  the hash of OpenSSL are arguments: \<open>rand n\<close> is the \<open>n\<close> bytes drawn or a failure,
  \<open>sha256\<close> the digest.
\<close>

section \<open>Percent encoding\<close>

definition is_url_char :: "char \<Rightarrow> bool" where
  "is_url_char c \<longleftrightarrow> is_alnum c \<or> c = CHR ''-'' \<or> c = CHR ''.'' \<or> c = CHR ''_'' \<or> c = CHR ''~''"

definition hex_table :: string where "hex_table = ''0123456789ABCDEF''"

definition url_encode_char :: "char \<Rightarrow> string" where
  "url_encode_char c =
     (if is_url_char c then [c]
      else [CHR ''%'', hex_table ! drop_bit 4 (byte c), hex_table ! (byte c AND 0x0F)])"

definition url_encode :: "cptr \<Rightarrow> cptr" where
  "url_encode val =
     (case val of None \<Rightarrow> None
      | Some s \<Rightarrow> if length s > (SIZE_MAX - 1) div 3 then None
                  else Some (concat (map url_encode_char s)))"

definition hex_value :: "char \<Rightarrow> int" where
  "hex_value c =
     (if 48 \<le> byte c \<and> byte c \<le> 57 then int (byte c - 48)
      else if 97 \<le> byte c \<and> byte c \<le> 102 then int (byte c - 97 + 10)
      else if 65 \<le> byte c \<and> byte c \<le> 70 then int (byte c - 65 + 10)
      else -1)"

text \<open>Appending one decoded byte; control characters end the decoding.\<close>

definition put_byte :: "char \<Rightarrow> cptr \<Rightarrow> cptr" where
  "put_byte b rest = (if byte b < 0x20 \<or> byte b = 0x7F then None else map_option ((#) b) rest)"

fun url_decode_bytes :: "string \<Rightarrow> cptr" where
  "url_decode_bytes [] = Some []"
| "url_decode_bytes (c # cs) =
     (if c = CHR ''%''
      then (case cs of
              h # l # rest \<Rightarrow>
                if hex_value h < 0 \<or> hex_value l < 0 then None
                else put_byte (chr (push_bit 4 (nat (hex_value h)) OR nat (hex_value l)))
                       (url_decode_bytes rest)
            | _ \<Rightarrow> None)
      else put_byte (if c = CHR ''+'' then SP else c) (url_decode_bytes cs))"

definition url_decode_exact :: "cptr \<Rightarrow> cptr" where
  "url_decode_exact val =
     (case val of None \<Rightarrow> None
      | Some s \<Rightarrow> if s = [] \<or> length s = SIZE_MAX then None else url_decode_bytes s)"

section \<open>Base64url\<close>

definition base64url_table :: string where
  "base64url_table = ''ABCDEFGHIJKLMNOPQRSTUVWXYZabcdefghijklmnopqrstuvwxyz0123456789-_''"

text \<open>One character: six bits of the group from the given position.\<close>

definition sextet :: "nat \<Rightarrow> nat \<Rightarrow> char" where
  "sextet v k = base64url_table ! (drop_bit k v AND 63)"

fun base64url_groups :: "string \<Rightarrow> string" where
  "base64url_groups [] = []"
| "base64url_groups [x] = (let v = push_bit 16 (byte x) in [sextet v 18, sextet v 12])"
| "base64url_groups [x, y] =
     (let v = push_bit 16 (byte x) OR push_bit 8 (byte y)
      in [sextet v 18, sextet v 12, sextet v 6])"
| "base64url_groups (x # y # z # rest) =
     (let v = push_bit 16 (byte x) OR push_bit 8 (byte y) OR byte z
      in sextet v 18 # sextet v 12 # sextet v 6 # sextet v 0 # base64url_groups rest)"

definition base64url_encode :: "cptr \<Rightarrow> cptr" where
  "base64url_encode data =
     (case data of None \<Rightarrow> None
      | Some s \<Rightarrow> if length s > (SIZE_MAX - 2) div 4 * 3 then None else Some (base64url_groups s))"

definition base64url_value :: "char \<Rightarrow> int" where
  "base64url_value c =
     (if 65 \<le> byte c \<and> byte c \<le> 90 then int (byte c - 65)
      else if 97 \<le> byte c \<and> byte c \<le> 122 then int (byte c - 97 + 26)
      else if 48 \<le> byte c \<and> byte c \<le> 57 then int (byte c - 48 + 52)
      else if c = CHR ''-'' then 62
      else if c = CHR ''_'' then 63
      else -1)"

definition group_value :: "int \<Rightarrow> int \<Rightarrow> int \<Rightarrow> int \<Rightarrow> nat" where
  "group_value a b c d =
     ((push_bit 18 (nat a) OR push_bit 12 (nat b)) OR push_bit 6 (nat c)) OR nat d"

fun base64url_bytes :: "string \<Rightarrow> cptr" where
  "base64url_bytes [] = Some []"
| "base64url_bytes [p] = None"
| "base64url_bytes [p, q] =
     (let a = base64url_value p; b = base64url_value q
      in if a < 0 \<or> b < 0 then None
         else Some [chr (drop_bit 16 (group_value a b 0 0) mod 256)])"
| "base64url_bytes [p, q, r] =
     (let a = base64url_value p; b = base64url_value q; c = base64url_value r
      in if a < 0 \<or> b < 0 \<or> c < 0 then None
         else Some [chr (drop_bit 16 (group_value a b c 0) mod 256),
                    chr (drop_bit 8 (group_value a b c 0) mod 256)])"
| "base64url_bytes (p # q # r # s # rest) =
     (let a = base64url_value p; b = base64url_value q; c = base64url_value r;
          d = base64url_value s; v = group_value a b c d
      in if a < 0 \<or> b < 0 \<or> c < 0 \<or> d < 0 then None
         else map_option (\<lambda>out. chr (drop_bit 16 v mod 256) # chr (drop_bit 8 v mod 256) #
                                chr (v mod 256) # out)
                (base64url_bytes rest))"

definition OAUTH_VALUE_MAX :: nat where "OAUTH_VALUE_MAX = 256 * 1024"

definition base64url_decode :: "cptr \<Rightarrow> cptr" where
  "base64url_decode input =
     (case input of None \<Rightarrow> None
      | Some s \<Rightarrow> if length s = 0 \<or> length s mod 4 = 1 \<or> length s > OAUTH_VALUE_MAX then None
                  else base64url_bytes s)"

section \<open>PKCE and the authorization address\<close>

definition pkce_challenge :: "(string \<Rightarrow> string) \<Rightarrow> cptr \<Rightarrow> cptr" where
  "pkce_challenge sha256 verifier =
     (case verifier of None \<Rightarrow> None | Some v \<Rightarrow> base64url_encode (Some (sha256 v)))"

definition random_string :: "(nat \<Rightarrow> cptr) \<Rightarrow> int \<times> cptr" where
  "random_string rand =
     (case rand 32 of None \<Rightarrow> (-1, None)
      | Some bytes \<Rightarrow> let out = base64url_encode (Some bytes)
                      in (if out \<noteq> None then 0 else -1, out))"

definition make_pkce :: "(string \<Rightarrow> string) \<Rightarrow> (nat \<Rightarrow> cptr) \<Rightarrow> int \<times> cptr \<times> cptr" where
  "make_pkce sha256 rand =
     (let (rc, verifier) = random_string rand
      in if rc \<noteq> 0 then (-1, verifier, None)
         else let challenge = pkce_challenge sha256 verifier
              in if challenge = None then (-1, None, None) else (0, verifier, challenge))"

definition OPENAI_ISSUER :: string where "OPENAI_ISSUER = ''https://auth.openai.com''"
definition OPENAI_CLIENT_ID :: string where "OPENAI_CLIENT_ID = ''app_EMoamEEZ73f0CkXaXp7hrann''"
definition OPENAI_REDIRECT_URI :: string where
  "OPENAI_REDIRECT_URI = ''http://localhost:1455/auth/callback''"

definition build_authorize_url_values :: "cptr \<Rightarrow> cptr \<Rightarrow> cptr" where
  "build_authorize_url_values state challenge =
     (case (url_encode (Some OPENAI_REDIRECT_URI),
            url_encode (Some ''openid profile email offline_access''),
            url_encode (Some ''echo-ai''), url_encode state, url_encode challenge) of
        (Some redirect, Some scope, Some originator, Some encoded_state, Some encoded_challenge) \<Rightarrow>
          Some (OPENAI_ISSUER @ ''/oauth/authorize?response_type=code&client_id='' @
                OPENAI_CLIENT_ID @ ''&redirect_uri='' @ redirect @ ''&scope='' @ scope @
                ''&code_challenge='' @ encoded_challenge @
                ''&code_challenge_method=S256&id_token_add_organizations=true'' @
                ''&codex_cli_simplified_flow=true&originator='' @ originator @
                ''&state='' @ encoded_state)
      | _ \<Rightarrow> None)"

section \<open>Percent encoding and back\<close>

lemma hex_value_table: "n < 16 \<Longrightarrow> hex_value (hex_table ! n) = int n"
proof -
  have "\<forall>n \<in> set [0..<16]. hex_value (hex_table ! n) = int n" by code_simp
  then show "n < 16 \<Longrightarrow> hex_value (hex_table ! n) = int n" by simp
qed

lemma and_15: "(n::nat) AND 15 = n mod 16"
  using and_mask_mod [of n 4] by (simp add: mask_eq_exp_minus_1)

lemma nibbles: "push_bit 4 (n div 16) OR (n mod 16) = (n::nat)"
  by (subst or_add_dvd [of _ 4]) (simp_all add: push_bit_eq_mult)

lemma put_byte_map: "put_byte b (map_option f r) = (if byte b < 0x20 \<or> byte b = 0x7F then None
    else map_option (\<lambda>x. b # f x) r)"
  by (simp add: put_byte_def option.map_comp comp_def)

lemma url_char_plain: "is_url_char c \<Longrightarrow> c \<noteq> CHR ''%'' \<and> c \<noteq> CHR ''+'' \<and> c \<noteq> CHR ''&'' \<and> c \<noteq> CHR ''=''"
  by (auto simp: is_url_char_def is_alnum_def is_digit_def is_upper_def is_lower_def)

lemma url_decode_encode_char: "url_decode_bytes (url_encode_char c @ r) = put_byte c (url_decode_bytes r)"
proof (cases "is_url_char c")
  case True
  then show ?thesis using url_char_plain [OF True] by (simp add: url_encode_char_def)
next
  case False
  have lt: "byte c div 16 < 16" by (rule less_mult_imp_div_less) simp
  have "chr (push_bit 4 (byte c div 16) OR byte c mod 16) = c" by (simp add: nibbles)
  with False lt show ?thesis
    by (simp add: url_encode_char_def drop_bit_eq_div and_15 hex_value_table)
qed

definition control_byte :: "char \<Rightarrow> bool" where
  "control_byte c \<longleftrightarrow> byte c < 0x20 \<or> byte c = 0x7F"

lemma url_decode_encode_bytes:
  "url_decode_bytes (concat (map url_encode_char s)) = (if list_ex control_byte s then None else Some s)"
  by (induction s) (simp_all add: url_decode_encode_char put_byte_def control_byte_def)

lemma url_encode_char_length: "1 \<le> length (url_encode_char c)" "length (url_encode_char c) \<le> 3"
  by (simp_all add: url_encode_char_def)

lemma url_encode_length:
  "length s \<le> length (concat (map url_encode_char s))"
  "length (concat (map url_encode_char s)) \<le> 3 * length s"
proof (induction s)
  case (Cons c s)
  { case 1 show ?case using Cons.IH(1) url_encode_char_length(1) [of c] by simp }
  { case 2 show ?case using Cons.IH(2) url_encode_char_length(2) [of c] by simp }
qed simp_all

lemma hex_table_nth: "n < 16 \<Longrightarrow> is_alnum (hex_table ! n)"
proof -
  have "\<forall>n \<in> set [0..<16]. is_alnum (hex_table ! n)" by code_simp
  then show "n < 16 \<Longrightarrow> is_alnum (hex_table ! n)" by simp
qed

lemma url_encoded_chars:
  "c \<in> set (concat (map url_encode_char s)) \<Longrightarrow> is_url_char c \<or> c = CHR ''%''"
proof -
  have "is_url_char c \<or> c = CHR ''%''" if "c \<in> set (url_encode_char d)" for c d
  proof -
    have "byte d div 16 < 16" by (rule less_mult_imp_div_less) simp
    then have "is_alnum (hex_table ! (byte d div 16))" "is_alnum (hex_table ! (byte d mod 16))"
      by (auto intro: hex_table_nth)
    with that show ?thesis
      by (auto simp: url_encode_char_def drop_bit_eq_div and_15 is_url_char_def split: if_splits)
  qed
  then show "c \<in> set (concat (map url_encode_char s)) \<Longrightarrow> ?thesis" by auto
qed

interpretation url_codec: codec "\<lambda>s. concat (map url_encode_char s)" url_decode_bytes
    "\<lambda>s. \<not> list_ex control_byte s"
  by unfold_locales (simp add: url_decode_encode_bytes)

section \<open>Base64url and back\<close>

lemma base64url_value_table: "n < 64 \<Longrightarrow> base64url_value (base64url_table ! n) = int n"
proof -
  have all: "map base64url_value base64url_table = map int [0..<64]"
    by (simp add: base64url_table_def base64url_value_def upt_rec)
  have len: "length base64url_table = 64" by (simp add: base64url_table_def)
  assume "n < 64"
  then show "base64url_value (base64url_table ! n) = int n"
    using arg_cong [OF all, of "\<lambda>xs. xs ! n"] len by simp
qed

lemma sextet_value: "base64url_value (sextet v k) = int (drop_bit k v mod 64)"
  by (simp add: sextet_def and_63 base64url_value_table)

lemma group_value_sum:
  assumes "b < 64" "c < 64" "d < 64"
  shows "group_value (int a) (int b) (int c) (int d) = 262144 * a + 4096 * b + 64 * c + d"
proof -
  have 1: "push_bit 18 a OR push_bit 12 b = 262144 * a + 4096 * b"
    using assms by (subst or_add_dvd [of _ 18]) (simp_all add: push_bit_eq_mult)
  have 2: "(262144 * a + 4096 * b) OR push_bit 6 c = 262144 * a + 4096 * b + 64 * c"
  proof -
    have "(2::nat) ^ 12 dvd 262144 * a + 4096 * b"
      by (intro dvd_add dvd_mult2) simp_all
    moreover have "push_bit 6 c < 2 ^ 12" using assms by (simp add: push_bit_eq_mult)
    ultimately show ?thesis by (simp only: or_add_dvd) (simp add: push_bit_eq_mult)
  qed
  have 3: "(262144 * a + 4096 * b + 64 * c) OR d = 262144 * a + 4096 * b + 64 * c + d"
  proof -
    have "(2::nat) ^ 6 dvd 262144 * a + 4096 * b + 64 * c"
      by (intro dvd_add dvd_mult2) simp_all
    moreover have "d < 2 ^ 6" using assms by simp
    ultimately show ?thesis by (simp only: or_add_dvd)
  qed
  show ?thesis unfolding group_value_def nat_int 1 2 3 ..
qed

lemma group_of_sextets:
  assumes "v < 2 ^ 24"
  shows "group_value (int (drop_bit 18 v mod 64)) (int (drop_bit 12 v mod 64))
     (int (drop_bit 6 v mod 64)) (int (v mod 64)) = v"
proof -
  have "v div 262144 < 64" using assms by (simp add: less_mult_imp_div_less)
  moreover have "262144 * (v div 262144) + 4096 * (v div 4096 mod 64) + 64 * (v div 64 mod 64) +
      v mod 64 = v"
  proof -
    have "v = 64 * (v div 64) + v mod 64" by simp
    moreover have "v div 64 = 64 * (v div 4096) + v div 64 mod 64"
      using div_mult2_eq [of v 64 64] by simp
    moreover have "v div 4096 = 64 * (v div 262144) + v div 4096 mod 64"
      using div_mult2_eq [of v 4096 64] by simp
    ultimately show ?thesis by linarith
  qed
  ultimately show ?thesis by (simp add: group_value_sum drop_bit_eq_div)
qed

lemma byte_lt: "byte c < 256"
  by simp

lemma bytes_sum:
  "(push_bit 16 (byte x) OR push_bit 8 (byte y)) OR byte z = 65536 * byte x + 256 * byte y + byte z"
  "push_bit 16 (byte x) OR push_bit 8 (byte y) = 65536 * byte x + 256 * byte y"
proof -
  have 1: "push_bit 16 (byte x) OR push_bit 8 (byte y) = 65536 * byte x + 256 * byte y"
    using byte_lt [of y] by (subst or_add_dvd [of _ 16]) (simp_all add: push_bit_eq_mult)
  have 2: "(65536 * byte x + 256 * byte y) OR byte z = 65536 * byte x + 256 * byte y + byte z"
    using byte_lt [of z] by (subst or_add_dvd [of _ 8]) simp_all
  show "push_bit 16 (byte x) OR push_bit 8 (byte y) = 65536 * byte x + 256 * byte y" by (rule 1)
  show "(push_bit 16 (byte x) OR push_bit 8 (byte y)) OR byte z =
      65536 * byte x + 256 * byte y + byte z" by (simp only: 1 2)
qed

lemma three_bytes:
  fixes x y z :: nat
  assumes "y < 256" "z < 256"
  shows "(65536 * x + 256 * y + z) mod 256 = z"
    and "(65536 * x + 256 * y + z) div 256 mod 256 = y"
    and "(65536 * x + 256 * y + z) div 65536 = x"
proof -
  have e: "65536 * x + 256 * y + z = z + (256 * x + y) * 256" by simp
  show "(65536 * x + 256 * y + z) mod 256 = z" unfolding e using assms by (simp only: mod_mult_self1 mod_less)
  have q: "(65536 * x + 256 * y + z) div 256 = 256 * x + y" unfolding e using assms by (simp only: div_mult_self1)
  show "(65536 * x + 256 * y + z) div 256 mod 256 = y" unfolding q using assms by simp
  have "(65536 * x + 256 * y + z) div 65536 = (65536 * x + 256 * y + z) div 256 div 256"
    by (simp flip: div_mult2_eq)
  then show "(65536 * x + 256 * y + z) div 65536 = x" unfolding q using assms by simp
qed

lemma base64url_bytes_groups: "base64url_bytes (base64url_groups s) = Some s"
proof (induction s rule: base64url_groups.induct)
  case (2 x)
  define v where "v = 65536 * byte x"
  have v: "push_bit 16 (byte x) = v" "v < 2 ^ 24" "v div 64 mod 64 = 0" "v mod 64 = 0"
    "v div 65536 = byte x" "(65536 * byte x) div 64 = 1024 * byte x"
    using byte_lt [of x] by (simp_all add: v_def push_bit_eq_mult)
  from group_of_sextets [OF v(2)] v show ?case
    by (simp add: Let_def sextet_value drop_bit_eq_div)
next
  case (3 x y)
  define v where "v = 65536 * byte x + 256 * byte y"
  have "v < 16777216" unfolding v_def using byte_lt [of x] byte_lt [of y] by linarith
  then have v24: "v < 2 ^ 24" by simp
  have v: "push_bit 16 (byte x) OR push_bit 8 (byte y) = v" "v mod 64 = 0"
    "v div 65536 = byte x" "v div 256 mod 256 = byte y"
    using byte_lt [of x] byte_lt [of y] by (simp_all add: v_def bytes_sum mod_add_eq)
  from group_of_sextets [OF v24] v show ?case
    by (simp add: Let_def sextet_value drop_bit_eq_div)
next
  case (4 x y z rest)
  define v where "v = 65536 * byte x + 256 * byte y + byte z"
  have "v < 16777216" unfolding v_def
    using byte_lt [of x] byte_lt [of y] byte_lt [of z] by linarith
  then have v24: "v < 2 ^ 24" by simp
  have v: "push_bit 16 (byte x) OR push_bit 8 (byte y) OR byte z = v"
    unfolding v_def by (metis bytes_sum(1) or.assoc)
  note d = three_bytes [OF byte_lt [of y] byte_lt [of z], of "byte x", folded v_def]
  from group_of_sextets [OF v24] v d 4 show ?case
    by (simp add: Let_def sextet_value drop_bit_eq_div)
qed simp


lemma base64url_groups_length: "length (base64url_groups s) = (4 * length s + 2) div 3"
  by (induction s rule: base64url_groups.induct) (simp_all add: Let_def)

lemma base64url_groups_mod: "length (base64url_groups s) mod 4 \<noteq> 1"
  by (induction s rule: base64url_groups.induct) (simp_all add: Let_def mod_Suc)

lemma base64url_table_chars: "n < 64 \<Longrightarrow> is_url_char (base64url_table ! n)"
proof -
  have "\<forall>n \<in> set [0..<64]. is_url_char (base64url_table ! n)" by code_simp
  then show "n < 64 \<Longrightarrow> is_url_char (base64url_table ! n)" by simp
qed

lemma sextet_url_char: "is_url_char (sextet v k)"
  by (simp add: sextet_def and_63 base64url_table_chars)

lemma base64url_groups_chars: "list_all is_url_char (base64url_groups s)"
  by (induction s rule: base64url_groups.induct) (simp_all add: Let_def sextet_url_char)

lemma base64url_bytes_iff:
  "base64url_bytes s \<noteq> None \<longleftrightarrow> length s mod 4 \<noteq> 1 \<and> (\<forall>c \<in> set s. 0 \<le> base64url_value c)"
proof (induction s rule: base64url_bytes.induct)
  case (5 p q r s rest)
  have "length (p # q # r # s # rest) = length rest + 4" by simp
  then have "length (p # q # r # s # rest) mod 4 = length rest mod 4" by (simp only: mod_add_self2)
  with 5 show ?case by (auto simp: Let_def not_less)
qed (auto simp: Let_def)

interpretation base64_codec: codec base64url_groups base64url_bytes "\<lambda>_. True"
  by unfold_locales (rule base64url_bytes_groups)

lemma base64url_encode_Some:
  "length s \<le> 2 ^ 60 \<Longrightarrow> base64url_encode (Some s) = Some (base64url_groups s)"
  by (simp add: base64url_encode_def SIZE_MAX_def)

lemma base64url_decode_groups:
  assumes "s \<noteq> []" "length (base64url_groups s) \<le> OAUTH_VALUE_MAX"
  shows "base64url_decode (Some (base64url_groups s)) = Some s"
proof -
  have "base64url_groups s \<noteq> []" using assms(1) by (cases s rule: base64url_groups.cases) (simp_all add: Let_def)
  with assms base64url_groups_mod [of s] show ?thesis
    by (simp add: base64url_decode_def base64_codec.dec_enc)
qed

lemma url_encode_plain: "list_all is_url_char s \<Longrightarrow> concat (map url_encode_char s) = s"
  by (induction s) (simp_all add: url_encode_char_def)

section \<open>Properties\<close>

text \<open>
  Percent encoding loses nothing: decoding the encoded form of a value gives back exactly
  that value, except that empty values and values with control characters are refused; and the
  encoded form has no character that separates the parts of a query.
\<close>

theorem url_codec_exact:
  assumes "url_encode (Some s) = Some e"
  shows "url_decode_exact (Some e) = (if s = [] \<or> list_ex control_byte s then None else Some s) \<and>
     list_all (\<lambda>c. is_url_char c \<or> c = CHR ''%'') e"
proof -
  have e: "e = concat (map url_encode_char s)" "length s \<le> (SIZE_MAX - 1) div 3"
    using assms by (auto simp: url_encode_def split: if_splits)
  have "length e \<le> 3 * ((SIZE_MAX - 1) div 3)"
    unfolding e(1) by (rule le_trans [OF url_encode_length(2) mult_le_mono2 [OF e(2), of 3]])
  also have "\<dots> < SIZE_MAX" by (simp add: SIZE_MAX_def)
  finally have "length e < SIZE_MAX" .
  moreover have "e = [] \<longleftrightarrow> s = []"
    using url_encode_length(1) [of s] by (auto simp: e(1) simp flip: length_0_conv)
  moreover have "list_all (\<lambda>c. is_url_char c \<or> c = CHR ''%'') e"
    unfolding e(1) list_all_iff using url_encoded_chars by blast
  ultimately show ?thesis
    using url_decode_encode_bytes [of s] by (simp add: url_decode_exact_def flip: e(1))
qed

theorem url_codec_exact_witness:
  "url_encode (Some ''a b&c'') = Some ''a%20b%26c'' \<and> url_decode_exact (Some ''a%20b%26c'') = Some ''a b&c''"
proof -
  have e: "url_encode (Some ''a b&c'') = Some ''a%20b%26c''"
    by (simp add: url_encode_def SIZE_MAX_def url_encode_char_def is_url_char_def is_alnum_def
        is_digit_def is_upper_def is_lower_def hex_table_def drop_bit_eq_div and_15)
  with url_codec_exact [OF e] show ?thesis by (simp add: control_byte_def)
qed

text \<open>
  Base64url decoding inverts the encoding of every value that is neither empty nor over the
  length limit, and it accepts a text exactly when its length is possible and within the limit
  and every character is in the alphabet; padding and the standard alphabet are refused.
\<close>

theorem base64url_exact:
  assumes "base64url_encode (Some d) = Some e" "d \<noteq> []" "length e \<le> OAUTH_VALUE_MAX"
  shows "base64url_decode (Some e) = Some d \<and>
     (base64url_decode (Some t) \<noteq> None \<longleftrightarrow>
        t \<noteq> [] \<and> length t \<le> OAUTH_VALUE_MAX \<and> length t mod 4 \<noteq> 1 \<and>
        (\<forall>c \<in> set t. 0 \<le> base64url_value c))"
proof -
  have e: "e = base64url_groups d" using assms(1) by (auto simp: base64url_encode_def split: if_splits)
  have "base64url_decode (Some t) \<noteq> None \<longleftrightarrow>
      t \<noteq> [] \<and> length t \<le> OAUTH_VALUE_MAX \<and> length t mod 4 \<noteq> 1 \<and> base64url_bytes t \<noteq> None"
    by (simp add: base64url_decode_def not_less)
  then show ?thesis
    using base64url_decode_groups [OF assms(2)] assms(3) base64url_bytes_iff [of t] by (auto simp: e)
qed

theorem base64url_exact_witness:
  "base64url_decode (Some ''aGk'') = Some ''hi'' \<and> base64url_decode (Some ''aGk='') = None"
proof -
  have e: "base64url_encode (Some ''hi'') = Some ''aGk''"
    by (simp add: base64url_encode_def SIZE_MAX_def sextet_def base64url_table_def drop_bit_eq_div
        and_63 bytes_sum)
  from base64url_exact [OF e, of "''aGk=''"] show ?thesis
    by (simp add: OAUTH_VALUE_MAX_def base64url_value_def)
qed

text \<open>
  The PKCE pair is what the protocol asks for: a verifier of 43 unreserved characters that
  carries the 32 random bytes, and a challenge that carries the SHA-256 digest of the verifier.
\<close>

theorem make_pkce_pair:
  assumes "\<And>s. length (sha256 s) = 32" "rand 32 = Some bytes" "length bytes = 32"
  shows "\<exists>v c. make_pkce sha256 rand = (0, Some v, Some c) \<and> length v = 43 \<and>
     list_all is_url_char v \<and> base64url_decode (Some v) = Some bytes \<and>
     base64url_decode (Some c) = Some (sha256 v)"
proof -
  have enc: "base64url_encode (Some s) = Some (base64url_groups s) \<and>
      base64url_decode (Some (base64url_groups s)) = Some s" if "length s = 32" for s
    using that by (auto intro!: base64url_encode_Some base64url_decode_groups
        simp: base64url_groups_length OAUTH_VALUE_MAX_def)
  show ?thesis
    using enc [OF assms(3)] enc [OF assms(1)] assms(2,3) base64url_groups_chars [of bytes]
    by (simp add: make_pkce_def random_string_def pkce_challenge_def base64url_groups_length)
qed

theorem make_pkce_pair_witness:
  "\<exists>v c. make_pkce (\<lambda>s. take 32 (s @ replicate 32 NUL)) (\<lambda>n. Some (replicate n NUL))
     = (0, Some v, Some c) \<and> length v = 43"
  using make_pkce_pair [of "\<lambda>s. take 32 (s @ replicate 32 NUL)" "\<lambda>n. Some (replicate n NUL)"
      "replicate 32 NUL"] by force

text \<open>
  No state or challenge can change the other parameters of the authorization address: split
  at its separators, the query always has the same ten fields, and the state and the challenge
  decode to the values given.
\<close>

theorem authorize_url_fields:
  assumes "length state \<le> 2 ^ 60" "length challenge \<le> 2 ^ 60"
    and "build_authorize_url_values (Some state) (Some challenge) = Some url"
  shows "\<exists>q es ec. url = OPENAI_ISSUER @ ''/oauth/authorize?'' @ q \<and>
     split_on (CHR ''&'') q =
       [''response_type=code'', ''client_id='' @ OPENAI_CLIENT_ID,
        ''redirect_uri=http%3A%2F%2Flocalhost%3A1455%2Fauth%2Fcallback'',
        ''scope=openid%20profile%20email%20offline_access'', ''code_challenge='' @ ec,
        ''code_challenge_method=S256'', ''id_token_add_organizations=true'',
        ''codex_cli_simplified_flow=true'', ''originator=echo-ai'', ''state='' @ es] \<and>
     url_decode_bytes es = (if list_ex control_byte state then None else Some state) \<and>
     url_decode_bytes ec = (if list_ex control_byte challenge then None else Some challenge)"
proof -
  define es ec where "es = concat (map url_encode_char state)"
    and "ec = concat (map url_encode_char challenge)"
  have enc: "url_encode (Some s) = Some (concat (map url_encode_char s))" if "length s \<le> 2 ^ 60" for s
    using that by (simp add: url_encode_def SIZE_MAX_def)
  have fixed_parts: "url_encode (Some OPENAI_REDIRECT_URI) =
      Some ''http%3A%2F%2Flocalhost%3A1455%2Fauth%2Fcallback''"
    "url_encode (Some ''openid profile email offline_access'') =
      Some ''openid%20profile%20email%20offline_access''"
    "url_encode (Some ''echo-ai'') = Some ''echo-ai''"
    by (simp_all add: url_encode_def SIZE_MAX_def url_encode_char_def is_url_char_def is_alnum_def
        is_digit_def is_upper_def is_lower_def hex_table_def drop_bit_eq_div and_15
        OPENAI_REDIRECT_URI_def)
  let ?ws = "[''response_type=code'', ''client_id='' @ OPENAI_CLIENT_ID,
        ''redirect_uri=http%3A%2F%2Flocalhost%3A1455%2Fauth%2Fcallback'',
        ''scope=openid%20profile%20email%20offline_access'', ''code_challenge='' @ ec,
        ''code_challenge_method=S256'', ''id_token_add_organizations=true'',
        ''codex_cli_simplified_flow=true'', ''originator=echo-ai'', ''state='' @ es]"
  have amp: "CHR ''&'' \<notin> set (concat (map url_encode_char s))" for s
    using url_encoded_chars [of "CHR ''&''" s] url_char_plain by blast
  have url: "url = OPENAI_ISSUER @ ''/oauth/authorize?'' @ join_with (CHR ''&'') ?ws"
    using assms(3) enc [OF assms(1)] enc [OF assms(2)] fixed_parts
    by (simp add: build_authorize_url_values_def es_def ec_def)
  have "split_on (CHR ''&'') (join_with (CHR ''&'') ?ws) = ?ws"
    by (rule split_join_with) (use amp in \<open>simp_all add: es_def ec_def OPENAI_CLIENT_ID_def\<close>)
  then show ?thesis
    using url url_decode_encode_bytes [of state] url_decode_encode_bytes [of challenge]
    unfolding es_def [symmetric] ec_def [symmetric] by blast
qed

theorem authorize_url_fields_witness:
  "\<exists>url q es. build_authorize_url_values (Some ''x&scope=all'') (Some ''abc'') = Some url \<and>
     url = OPENAI_ISSUER @ ''/oauth/authorize?'' @ q \<and> url_decode_bytes es = Some ''x&scope=all''"
proof -
  obtain url where u: "build_authorize_url_values (Some ''x&scope=all'') (Some ''abc'') = Some url"
    by (simp add: build_authorize_url_values_def url_encode_def SIZE_MAX_def OPENAI_REDIRECT_URI_def)
  from authorize_url_fields [OF _ _ u] obtain q es where
    q: "url = OPENAI_ISSUER @ ''/oauth/authorize?'' @ q"
    "url_decode_bytes es = (if list_ex control_byte ''x&scope=all'' then None else Some ''x&scope=all'')"
    by force
  have "\<not> list_ex control_byte ''x&scope=all''" by (simp add: control_byte_def)
  then show ?thesis using u q by metis
qed

end
