(* ===== verification/EditDiff.thy ===== *)
theory EditDiff
  imports CString
begin

text \<open>
  The line diff shown with the result of the edit tool (\<open>tools/edit.c\<close>): the texts split
  into lines, the map from offsets in the text with normalised line ends to lines, the runs of
  changed lines of the matches, and the rendering of the runs with their context.

  A line array with its lengths is the list of its lines; the lines hold neither newlines nor
  NULs. Lines are shorter than 2 GiB, so their length fits the precision argument of the format.
\<close>

definition EDIT_DIFF_CONTEXT :: nat where "EDIT_DIFF_CONTEXT = 3"

text \<open>A match of an edit in the normalised content.\<close>

record edit_match =
  m_index :: nat
  m_length :: nat
  m_new_len :: nat
  m_edit_idx :: nat

section \<open>Lines and offsets\<close>

fun edit_normalize_lf :: "string \<Rightarrow> string" where
  "edit_normalize_lf [] = []"
| "edit_normalize_lf (c # cs) =
     (if c = CR then LF # edit_normalize_lf (if cs \<noteq> [] \<and> hd cs = LF then tl cs else cs)
      else c # edit_normalize_lf cs)"

definition edit_lines_build :: "string \<Rightarrow> string list" where
  "edit_lines_build t = split_on LF t"

fun edit_line_norm_len :: "string \<Rightarrow> nat" where
  "edit_line_norm_len [] = 0"
| "edit_line_norm_len (c # cs) =
     Suc (edit_line_norm_len (if c = CR \<and> cs \<noteq> [] \<and> hd cs = LF then tl cs else cs))"

text \<open>The normalised start of every line and the total length.\<close>

fun norm_starts :: "nat \<Rightarrow> string list \<Rightarrow> nat list" where
  "norm_starts acc [] = [acc]"
| "norm_starts acc (l # ls) =
     acc # norm_starts (acc + edit_line_norm_len l +
                        (if ls \<noteq> [] \<and> (l = [] \<or> last l \<noteq> CR) then 1 else 0)) ls"

definition edit_norm_map_build :: "string list \<Rightarrow> nat list" where
  "edit_norm_map_build el = norm_starts 0 el"

text \<open>The binary search over the starts, between two line numbers.\<close>

function norm_search :: "nat list \<Rightarrow> nat \<Rightarrow> nat \<Rightarrow> nat \<Rightarrow> nat" where
  "norm_search starts p lo hi =
     (if lo + 1 < hi
      then let mid = lo + (hi - lo) div 2
           in if starts ! mid \<le> p then norm_search starts p mid hi
              else norm_search starts p lo mid
      else lo)"
  by auto
termination by (relation "measure (\<lambda>(_, _, lo, hi). hi - lo)") auto

declare norm_search.simps [simp del]

text \<open>The number of lines is one less than that of the starts.\<close>

definition edit_norm_line_of :: "nat list \<Rightarrow> nat \<Rightarrow> nat" where
  "edit_norm_line_of starts p = norm_search starts p 0 (length starts - 1)"

section \<open>Runs\<close>

record edit_run =
  old_start :: nat
  old_end :: nat
  new_start :: nat
  new_end :: nat

text \<open>The lines that one match covers, given the shift of the edits before it.\<close>

definition match_run :: "nat list \<Rightarrow> nat list \<Rightarrow> int \<Rightarrow> edit_match \<Rightarrow> edit_run" where
  "match_run om nm shift m =
     (let p = m_index m;
          p_new = int (m_index m) + shift;
          pn = (if p_new \<ge> 0 then nat p_new else 0);
          n_start = edit_norm_line_of nm pn
      in \<lparr>old_start = edit_norm_line_of om p,
          old_end = edit_norm_line_of om (p + m_length m - 1) + 1,
          new_start = n_start,
          new_end = (if m_new_len m > 0 then edit_norm_line_of nm (pn + m_new_len m - 1) + 1
                     else n_start)\<rparr>)"

text \<open>The runs so far are in reverse order: a run that is near the last one extends it.\<close>

definition add_run :: "edit_run list \<Rightarrow> edit_run \<Rightarrow> edit_run list" where
  "add_run runs r =
     (case runs of
        q # qs \<Rightarrow>
          if old_start r \<le> old_end q + EDIT_DIFF_CONTEXT * 2 \<and>
             new_start r \<le> new_end q + EDIT_DIFF_CONTEXT * 2
          then q\<lparr>old_end := old_end r, new_end := new_end r\<rparr> # qs
          else r # q # qs
      | [] \<Rightarrow> [r])"

fun runs_loop ::
  "nat list \<Rightarrow> nat list \<Rightarrow> int \<Rightarrow> edit_run list \<Rightarrow> edit_match list \<Rightarrow> edit_run list" where
  "runs_loop om nm shift runs [] = rev runs"
| "runs_loop om nm shift runs (m # ms) =
     runs_loop om nm (shift + int (m_new_len m) - int (m_length m))
       (add_run runs (match_run om nm shift m)) ms"

definition edit_matches_to_runs ::
  "edit_match list \<Rightarrow> nat list \<Rightarrow> nat list \<Rightarrow> edit_run list" where
  "edit_matches_to_runs ms om nm = runs_loop om nm 0 [] ms"

section \<open>Rendering\<close>

definition edit_append_diff_line :: "char \<Rightarrow> nat \<Rightarrow> string \<Rightarrow> string" where
  "edit_append_diff_line pre num line =
     (let l = (if line \<noteq> [] \<and> last line = CR then butlast line else line)
      in pre # dec_nat num @ SP # l @ [LF])"

text \<open>The lines of the indices \<open>i .. j - 1\<close>, each with its prefix and number.\<close>

definition diff_lines :: "char \<Rightarrow> string list \<Rightarrow> nat \<Rightarrow> nat \<Rightarrow> string" where
  "diff_lines pre ls i j = concat (map (\<lambda>k. edit_append_diff_line pre (k + 1) (ls ! k)) [i..<j])"

text \<open>The unchanged lines before a run: all of a small gap, else the context at its ends.\<close>

definition diff_gap :: "bool \<Rightarrow> string list \<Rightarrow> nat \<Rightarrow> nat \<Rightarrow> string" where
  "diff_gap later old old_i start =
     (if start > old_i
      then let gap = start - old_i
           in if gap \<le> EDIT_DIFF_CONTEXT * 2 then diff_lines SP old old_i (old_i + gap)
              else (if later then diff_lines SP old old_i (old_i + EDIT_DIFF_CONTEXT) else []) @
                   diff_lines SP old (start - EDIT_DIFF_CONTEXT) start
      else [])"

fun diff_runs :: "bool \<Rightarrow> string list \<Rightarrow> string list \<Rightarrow> nat \<Rightarrow> edit_run list \<Rightarrow> string" where
  "diff_runs later old neu old_i [] =
     (if old_i < length old
      then let rest = length old - old_i;
               shown = (if rest > EDIT_DIFF_CONTEXT then EDIT_DIFF_CONTEXT else rest)
           in diff_lines SP old old_i (old_i + shown)
      else [])"
| "diff_runs later old neu old_i (r # rs) =
     diff_gap later old old_i (old_start r) @
     diff_lines (CHR ''-'') old (old_start r) (old_end r) @
     diff_lines (CHR ''+'') neu (new_start r) (new_end r) @
     diff_runs True old neu (old_end r) rs"

definition edit_build_diff :: "string \<Rightarrow> string \<Rightarrow> edit_match list \<Rightarrow> string" where
  "edit_build_diff old_text new_text ms =
     (let old = edit_lines_build old_text; neu = edit_lines_build new_text;
          runs = edit_matches_to_runs ms (edit_norm_map_build old) (edit_norm_map_build neu);
          diff = diff_runs False old neu 0 runs
      in if diff \<noteq> [] \<and> last diff = LF then butlast diff else diff)"

section \<open>Normalisation, line by line\<close>

lemma line_norm_len: "LF \<notin> set l \<Longrightarrow> edit_line_norm_len l = length l"
  by (induction l rule: edit_line_norm_len.induct) (auto simp: neq_Nil_conv)

lemma normalize_line: "LF \<notin> set l \<Longrightarrow> length (edit_normalize_lf l) = length l"
  by (induction l rule: edit_normalize_lf.induct) (auto simp: neq_Nil_conv)

lemma normalize_line_end:
  "LF \<notin> set l \<Longrightarrow> edit_normalize_lf (l @ LF # r) = edit_normalize_lf (l @ [LF]) @ edit_normalize_lf r"
proof (induction l)
  case (Cons c l)
  then show ?case by (cases l) auto
qed simp

lemma normalize_line_end_length:
  "LF \<notin> set l \<Longrightarrow> length (edit_normalize_lf (l @ [LF])) =
     length l + (if l = [] \<or> last l \<noteq> CR then 1 else 0)"
proof (induction l)
  case (Cons c l)
  then show ?case by (cases l) auto
qed simp

text \<open>The part of a text before one of its lines.\<close>

definition before_line :: "string list \<Rightarrow> nat \<Rightarrow> string" where
  "before_line ls k = concat (map (\<lambda>l. l @ [LF]) (take k ls))"

lemma before_line_Suc: "before_line (l # ls) (Suc k) = (l @ [LF]) @ before_line ls k"
  by (simp add: before_line_def)

lemma before_line_0 [simp]: "before_line ls 0 = []"
  by (simp add: before_line_def)

lemma norm_starts_length [simp]: "length (norm_starts acc ls) = Suc (length ls)"
  by (induction acc ls rule: norm_starts.induct) auto

lemma norm_starts_nth:
  "\<forall>l \<in> set ls. LF \<notin> set l \<Longrightarrow> i < length ls \<Longrightarrow>
     norm_starts acc ls ! i = acc + length (edit_normalize_lf (before_line ls i))"
proof (induction acc ls arbitrary: i rule: norm_starts.induct)
  case (2 acc l ls)
  show ?case
  proof (cases i)
    case (Suc j)
    then have "ls \<noteq> []" using 2 by auto
    with 2 Suc show ?thesis
      using normalize_line_end [of l "before_line ls j"]
      by (simp add: before_line_Suc line_norm_len normalize_line_end_length)
  qed simp
qed simp

lemma norm_starts_last:
  "\<forall>l \<in> set ls. LF \<notin> set l \<Longrightarrow> ls \<noteq> [] \<Longrightarrow>
     norm_starts acc ls ! length ls = acc + length (edit_normalize_lf (join_with LF ls))"
proof (induction acc ls rule: norm_starts.induct)
  case (2 acc l ls)
  show ?case
  proof (cases ls)
    case Nil
    with 2 show ?thesis by (simp add: line_norm_len normalize_line)
  next
    case (Cons v vs)
    with 2 show ?thesis
      using normalize_line_end [of l "join_with LF ls"]
      by (simp add: line_norm_len normalize_line_end_length)
  qed
qed simp

lemma lines_no_LF: "\<forall>l \<in> set (edit_lines_build t). LF \<notin> set l"
  using split_on_no_delim by (auto simp: edit_lines_build_def)

lemma lines_join: "join_with LF (edit_lines_build t) = t"
  by (simp add: edit_lines_build_def join_split_on)

lemma lines_not_Nil [simp]: "edit_lines_build t \<noteq> []"
  by (simp add: edit_lines_build_def)

section \<open>The search\<close>

lemma norm_search_spec:
  assumes "lo < hi" "hi \<le> n" "starts ! lo \<le> p" "hi = n \<or> p < starts ! hi"
  shows "norm_search starts p lo hi < n \<and> starts ! norm_search starts p lo hi \<le> p \<and>
     (Suc (norm_search starts p lo hi) = n \<or> p < starts ! Suc (norm_search starts p lo hi))"
  using assms
proof (induction starts p lo hi rule: norm_search.induct)
  case (1 starts p lo hi)
  define mid where "mid = lo + (hi - lo) div 2"
  show ?case
  proof (cases "lo + 1 < hi")
    case True
    then have mid: "lo < mid" "mid < hi" by (auto simp: mid_def)
    have eq: "norm_search starts p lo hi =
        (if starts ! mid \<le> p then norm_search starts p mid hi else norm_search starts p lo mid)"
      using True by (subst norm_search.simps) (simp add: mid_def Let_def)
    show ?thesis
    proof (cases "starts ! mid \<le> p")
      case le: True
      have "norm_search starts p mid hi < n \<and> starts ! norm_search starts p mid hi \<le> p \<and>
          (Suc (norm_search starts p mid hi) = n \<or> p < starts ! Suc (norm_search starts p mid hi))"
        using "1.IH"(1) [OF True mid_def] le mid "1.prems" by simp
      then show ?thesis using eq le by simp
    next
      case gt: False
      have "norm_search starts p lo mid < n \<and> starts ! norm_search starts p lo mid \<le> p \<and>
          (Suc (norm_search starts p lo mid) = n \<or> p < starts ! Suc (norm_search starts p lo mid))"
        using "1.IH"(2) [OF True mid_def gt] gt mid "1.prems" by simp
      then show ?thesis using eq gt by simp
    qed
  next
    case False
    then have "norm_search starts p lo hi = lo" by (subst norm_search.simps) simp
    moreover have "hi = Suc lo" using False "1.prems" by simp
    ultimately show ?thesis using "1.prems" by auto
  qed
qed

lemma norm_search_done: "hi \<le> lo + 1 \<Longrightarrow> norm_search starts p lo hi = lo"
  by (subst norm_search.simps) simp

lemma line_of_spec:
  fixes t p
  defines "ls \<equiv> edit_lines_build t"
  defines "starts \<equiv> edit_norm_map_build ls"
  defines "k \<equiv> edit_norm_line_of starts p"
  shows "k < length ls" and "starts ! k \<le> p" and "Suc k = length ls \<or> p < starts ! Suc k"
proof -
  have n: "0 < length ls" "length starts - 1 = length ls"
    by (simp_all add: ls_def starts_def edit_norm_map_build_def)
  have "starts ! 0 = 0" using n(1)
    by (cases ls) (simp_all add: starts_def edit_norm_map_build_def)
  then have "k < length ls \<and> starts ! k \<le> p \<and> (Suc k = length ls \<or> p < starts ! Suc k)"
    unfolding k_def edit_norm_line_of_def n(2) using n(1) by (intro norm_search_spec) simp_all
  then show "k < length ls" "starts ! k \<le> p" "Suc k = length ls \<or> p < starts ! Suc k" by simp_all
qed

section \<open>What the diff shows\<close>

text \<open>A displayed line: its mark, its number counted from 0 and its text.\<close>

definition shown_ok :: "string list \<Rightarrow> string list \<Rightarrow> char \<times> nat \<times> string \<Rightarrow> bool" where
  "shown_ok old neu e \<longleftrightarrow>
     (case e of (pre, k, l) \<Rightarrow>
        (if pre = CHR ''+'' then k < length neu \<and> l = neu ! k
         else (pre = SP \<or> pre = CHR ''-'') \<and> k < length old \<and> l = old ! k))"

definition shows_real :: "string list \<Rightarrow> string list \<Rightarrow> string \<Rightarrow> bool" where
  "shows_real old neu d \<longleftrightarrow>
     (\<exists>es. list_all (shown_ok old neu) es \<and>
           d = concat (map (\<lambda>(pre, k, l). edit_append_diff_line pre (k + 1) l) es))"

lemma shows_real_Nil [intro]: "shows_real old neu []"
  unfolding shows_real_def by (rule exI [of _ "[]"]) simp

lemma shows_real_append [intro]:
  assumes "shows_real old neu a" "shows_real old neu b" shows "shows_real old neu (a @ b)"
proof -
  obtain es fs where "list_all (shown_ok old neu) es" "list_all (shown_ok old neu) fs"
    "a = concat (map (\<lambda>(pre, k, l). edit_append_diff_line pre (k + 1) l) es)"
    "b = concat (map (\<lambda>(pre, k, l). edit_append_diff_line pre (k + 1) l) fs)"
    using assms unfolding shows_real_def by blast
  then show ?thesis unfolding shows_real_def by (intro exI [of _ "es @ fs"]) simp
qed

lemma shows_real_old:
  "j \<le> length old \<Longrightarrow> pre = SP \<or> pre = CHR ''-'' \<Longrightarrow> shows_real old neu (diff_lines pre old i j)"
  unfolding shows_real_def diff_lines_def
  by (rule exI [of _ "map (\<lambda>k. (pre, k, old ! k)) [i..<j]"])
    (auto simp: list_all_iff shown_ok_def comp_def)

lemma shows_real_new: "j \<le> length neu \<Longrightarrow> shows_real old neu (diff_lines (CHR ''+'') neu i j)"
  unfolding shows_real_def diff_lines_def
  by (rule exI [of _ "map (\<lambda>k. (CHR ''+'', k, neu ! k)) [i..<j]"])
    (auto simp: list_all_iff shown_ok_def comp_def)

definition run_ok :: "string list \<Rightarrow> string list \<Rightarrow> edit_run \<Rightarrow> bool" where
  "run_ok old neu r \<longleftrightarrow> old_start r < length old \<and> old_end r \<le> length old \<and> new_end r \<le> length neu"

lemma shows_real_gap: "start \<le> length old \<Longrightarrow> shows_real old neu (diff_gap later old old_i start)"
  unfolding diff_gap_def Let_def
  by (auto intro!: shows_real_old simp: EDIT_DIFF_CONTEXT_def)

lemma shows_real_runs:
  "list_all (run_ok old neu) rs \<Longrightarrow> shows_real old neu (diff_runs later old neu old_i rs)"
proof (induction later old neu old_i rs rule: diff_runs.induct)
  case (1 later old neu old_i)
  show ?case by (auto intro!: shows_real_old simp: EDIT_DIFF_CONTEXT_def Let_def)
next
  case (2 later old neu old_i r rs)
  then show ?case
    by (auto simp: run_ok_def intro!: shows_real_append shows_real_gap shows_real_old shows_real_new)
qed

lemma match_run_ok:
  "run_ok (edit_lines_build t) (edit_lines_build t')
     (match_run (edit_norm_map_build (edit_lines_build t)) (edit_norm_map_build (edit_lines_build t'))
        shift m)"
  using line_of_spec(1) [of t] line_of_spec(1) [of t']
  by (auto simp: run_ok_def match_run_def Let_def Suc_le_eq intro: less_imp_le)

lemma add_run_ok:
  "list_all (run_ok old neu) runs \<Longrightarrow> run_ok old neu r \<Longrightarrow> list_all (run_ok old neu) (add_run runs r)"
  by (auto simp: add_run_def run_ok_def split: list.split)

lemma runs_ok:
  "list_all (run_ok (edit_lines_build t) (edit_lines_build t')) runs \<Longrightarrow>
   list_all (run_ok (edit_lines_build t) (edit_lines_build t'))
     (runs_loop (edit_norm_map_build (edit_lines_build t)) (edit_norm_map_build (edit_lines_build t'))
        shift runs ms)"
proof (induction ms arbitrary: shift runs)
  case Nil
  then show ?case by (simp add: list_all_iff)
next
  case (Cons m ms)
  then show ?case by (simp add: add_run_ok match_run_ok)
qed

lemma build_diff_real:
  fixes t t' ms
  defines "old \<equiv> edit_lines_build t" and "neu \<equiv> edit_lines_build t'"
  shows "\<exists>d. shows_real old neu d \<and>
     edit_build_diff t t' ms = (if d \<noteq> [] \<and> last d = LF then butlast d else d)"
proof -
  have "list_all (run_ok old neu)
      (edit_matches_to_runs ms (edit_norm_map_build old) (edit_norm_map_build neu))"
    unfolding old_def neu_def edit_matches_to_runs_def by (rule runs_ok) simp
  from shows_real_runs [OF this, of False 0] show ?thesis
    unfolding edit_build_diff_def Let_def old_def neu_def by blast
qed

section \<open>Properties\<close>

text \<open>
  An offset in the text with normalised line ends is mapped to the line of the original text
  that holds it, whatever mixture of line ends the text has: the normalised text before that line
  is no longer than the offset, and unless it is the last line, the text up to its end is longer.
\<close>

theorem line_of_offset:
  "\<exists>k < length (edit_lines_build t).
     edit_norm_line_of (edit_norm_map_build (edit_lines_build t)) p = k \<and>
     length (edit_normalize_lf (before_line (edit_lines_build t) k)) \<le> p \<and>
     (Suc k = length (edit_lines_build t) \<or>
        p < length (edit_normalize_lf (before_line (edit_lines_build t) (Suc k))))"
proof -
  define ls k where "ls = edit_lines_build t" and "k = edit_norm_line_of (edit_norm_map_build ls) p"
  note spec = line_of_spec [of t p, folded ls_def, folded k_def]
  have nth: "edit_norm_map_build ls ! i = length (edit_normalize_lf (before_line ls i))"
    if "i < length ls" for i
    using norm_starts_nth [of ls i 0] lines_no_LF [of t] that
    by (simp add: edit_norm_map_build_def ls_def)
  have "Suc k = length ls \<or> p < length (edit_normalize_lf (before_line ls (Suc k)))"
    using spec(1,3) nth [of "Suc k"] by fastforce
  with spec nth [of k] show ?thesis
    unfolding ls_def [symmetric] k_def [symmetric] by (intro exI [of _ k]) simp
qed

text \<open>
  The diff of an edit only shows lines that exist: it never reads beyond the lines of either
  text, every removed or context line is the line of that number in the old text and every added
  line that of the new text.
\<close>

theorem diff_shows_real_lines:
  "\<exists>d. shows_real (edit_lines_build t) (edit_lines_build t') d \<and>
     edit_build_diff t t' ms = (if d \<noteq> [] \<and> last d = LF then butlast d else d)"
  by (rule build_diff_real)

text \<open>
  Removing a part of a line without putting anything in its place shows the old line as removed
  and does not show what is left of it.
\<close>

lemma partial_removal_not_shown:
  "edit_build_diff ''a b'' ''a'' [\<lparr>m_index = 1, m_length = 2, m_new_len = 0, m_edit_idx = 0\<rparr>]
     = ''-1 a b''"
  by (simp add: edit_build_diff_def edit_lines_build_def edit_norm_map_build_def
      edit_matches_to_runs_def match_run_def edit_norm_line_of_def norm_search_done add_run_def
      diff_gap_def diff_lines_def edit_append_diff_line_def dec_nat.simps [of 1, simplified]
      butlast_append char_of_def bit_0)

end
