(* ===== verification/Tools.thy ===== *)
theory Tools
  imports CString
begin

text \<open>
  What every tool returns (\<open>tools/tool.c\<close>): a success carries the output text, a failure a
  message and a machine readable category.
\<close>

record tool_result =
  content :: cptr
  error :: cptr
  error_category :: cptr

definition tool_result_create :: "cptr \<Rightarrow> tool_result" where
  "tool_result_create c =
     \<lparr>content = Some (case c of None \<Rightarrow> [] | Some s \<Rightarrow> s), error = None, error_category = None\<rparr>"

definition tool_result_error :: "cptr \<Rightarrow> cptr \<Rightarrow> tool_result" where
  "tool_result_error msg category =
     \<lparr>content = None,
      error = Some (case msg of None \<Rightarrow> ''unknown error'' | Some s \<Rightarrow> s),
      error_category = Some (case category of None \<Rightarrow> ''execution_error'' | Some s \<Rightarrow> s)\<rparr>"

abbreviation failed :: "tool_result \<Rightarrow> bool" where
  "failed r \<equiv> error r \<noteq> None"

lemma result_errors [simp]:
  "error (tool_result_create c) = None" "error (tool_result_error m c) \<noteq> None"
  by (simp_all add: tool_result_create_def tool_result_error_def)

end
