(* ===== verification/EditTool.thy ===== *)
theory EditTool
  imports EditDiff Safety Tools "HOL-Library.Multiset"
begin

text \<open>
  The edit tool (\<open>tools/edit.c\<close>): exact text replacements in one file. All edits are
  matched against the original content with normalised line ends, each old text has to occur once,
  the matched regions must not overlap, and the replacements are applied from the last to the
  first. The result keeps the byte order mark and the line ends of the file and is written to a
  temporary file that is then renamed.

  What cJSON reports about the arguments is the record \<open>edit_args\<close>. The files are a map
  from paths to their bytes, and what the calls of the C library report during one execution is
  the record \<open>edit_io\<close>. Memory does not run out.
\<close>

type_synonym files = "string \<Rightarrow> string option"
type_synonym edit_item = "string \<times> string"

section \<open>Matching\<close>

text \<open>Non-overlapping occurrences; the caller has rejected empty needles.\<close>

function count_from :: "string \<Rightarrow> string \<Rightarrow> nat" where
  "count_from h n =
     (if n = [] then 0
      else case strstr_at h n of None \<Rightarrow> 0
           | Some k \<Rightarrow> Suc (count_from (drop (k + length n) h) n))"
  by auto
termination
  by (relation "measure (\<lambda>(h, n). length h)") (auto dest!: strstr_at_Some simp flip: length_greater_0_conv)

declare count_from.simps [simp del]

definition edit_count_occurrences :: "string \<Rightarrow> string \<Rightarrow> nat option" where
  "edit_count_occurrences h n = (if n = [] then None else Some (count_from h n))"

definition edit_detect_ending :: "string \<Rightarrow> bool" where
  "edit_detect_ending t =
     (case memchr LF t of None \<Rightarrow> False
      | Some lf \<Rightarrow> (case strstr_at t CRLF of None \<Rightarrow> False | Some crlf \<Rightarrow> crlf < lf))"

definition edit_restore_endings :: "string \<Rightarrow> bool \<Rightarrow> string" where
  "edit_restore_endings t crlf =
     (if \<not> crlf then t else concat (map (\<lambda>c. if c = LF then [CR, LF] else [c]) t))"

definition not_found_msg :: "nat \<Rightarrow> nat \<Rightarrow> string \<Rightarrow> string" where
  "not_found_msg n i path =
     (if n = 1 then ''Could not find the exact text in '' @ path
      else ''Could not find edits['' @ dec_nat i @ ''] in '' @ path) @
     ''. The old_string must match exactly including all whitespace and newlines.''"

definition ambiguous_msg :: "nat \<Rightarrow> nat \<Rightarrow> nat \<Rightarrow> string \<Rightarrow> string" where
  "ambiguous_msg cnt n i path =
     (if n = 1
      then ''Found '' @ dec_nat cnt @ '' occurrences of the text in '' @ path @
           ''. The old_string must be unique; provide more context to make it unique.''
      else ''Found '' @ dec_nat cnt @ '' occurrences of edits['' @ dec_nat i @ ''] in '' @ path @
           ''. Each old_string must be unique; provide more context to make it unique.'')"

text \<open>The edits from number \<open>i\<close> on; a message stops the tool with a validation error.\<close>

fun match_edits ::
  "string \<Rightarrow> nat \<Rightarrow> string \<Rightarrow> nat \<Rightarrow> edit_item list \<Rightarrow> string + edit_match list" where
  "match_edits norm n path i [] = Inr []"
| "match_edits norm n path i ((old, new) # items) =
     (let norm_old = edit_normalize_lf old
      in case edit_count_occurrences norm norm_old of
           None \<Rightarrow> Inl ''oom''
         | Some cnt \<Rightarrow>
             if cnt = 0 then Inl (not_found_msg n i path)
             else if cnt > 1 then Inl (ambiguous_msg cnt n i path)
             else case match_edits norm n path (i + 1) items of
                    Inl e \<Rightarrow> Inl e
                  | Inr ms \<Rightarrow>
                      Inr (\<lparr>m_index = (case strstr_at norm norm_old of Some k \<Rightarrow> k | None \<Rightarrow> 0),
                            m_length = length norm_old, m_new_len = edit_line_norm_len new,
                            m_edit_idx = i\<rparr> # ms))"

text \<open>The insertion sort; the sorted part of the array is kept in reverse.\<close>

fun shift_match :: "edit_match \<Rightarrow> edit_match list \<Rightarrow> edit_match list" where
  "shift_match m [] = [m]"
| "shift_match m (x # xs) = (if m_index x > m_index m then x # shift_match m xs else m # x # xs)"

definition sort_matches :: "edit_match list \<Rightarrow> edit_match list" where
  "sort_matches ms = rev (fold shift_match ms [])"

definition overlap_msg :: "nat \<Rightarrow> nat \<Rightarrow> string \<Rightarrow> string" where
  "overlap_msg a b path =
     ''edits['' @ dec_nat a @ ''] and edits['' @ dec_nat b @ ''] overlap in '' @ path @
     ''. Merge them into one edit or target disjoint regions.''"

fun check_overlap :: "string \<Rightarrow> edit_match list \<Rightarrow> string option" where
  "check_overlap path (a # b # ms) =
     (if m_index a + m_length a > m_index b
      then Some (overlap_msg (m_edit_idx a) (m_edit_idx b) path)
      else check_overlap path (b # ms))"
| "check_overlap path _ = None"

definition apply_edit :: "edit_item list \<Rightarrow> edit_match \<Rightarrow> string \<Rightarrow> string" where
  "apply_edit items m s =
     take (m_index m) s @ edit_normalize_lf (snd (items ! m_edit_idx m)) @
     drop (m_index m + m_length m) s"

text \<open>From the last match to the first.\<close>

definition apply_edits :: "edit_item list \<Rightarrow> edit_match list \<Rightarrow> string \<Rightarrow> string" where
  "apply_edits items ms norm = fold (apply_edit items) (rev ms) norm"

definition BOM :: string where "BOM = [CHR 0xEF, CHR 0xBB, CHR 0xBF]"

text \<open>
  The byte order mark and the text after it; the text ends at the first NUL of the content.
\<close>

definition split_bom :: "string \<Rightarrow> string \<times> string" where
  "split_bom data =
     (if length data \<ge> 3 \<and> take 3 data = BOM then (BOM, cstr (drop 3 data)) else ([], cstr data))"

text \<open>What the tool would write for the bytes of the file, and the diff it shows.\<close>

definition edit_plan :: "string \<Rightarrow> string \<Rightarrow> edit_item list \<Rightarrow> string + string \<times> string" where
  "edit_plan path data items =
     (let (bom, t) = split_bom data;
          crlf = edit_detect_ending t;
          norm = edit_normalize_lf t
      in case match_edits norm (length items) path 0 items of
           Inl e \<Rightarrow> Inl e
         | Inr found \<Rightarrow>
             let ms = sort_matches found
             in case check_overlap path ms of
                  Some e \<Rightarrow> Inl e
                | None \<Rightarrow>
                    let restored = edit_restore_endings (apply_edits items ms norm) crlf;
                        final = bom @ restored
                    in if final = data
                       then Inl ''No changes made: the replacement produced identical content.''
                       else Inr (final, edit_build_diff t restored ms))"

section \<open>Writing\<close>

record edit_io =
  io_read :: nat
  io_open :: bool
  io_written :: nat
  io_close :: bool
  io_rename :: bool

definition tmp_path :: "string \<Rightarrow> nat \<Rightarrow> string" where
  "tmp_path resolved pid = resolved @ ''.tmp.'' @ dec_nat pid"

text \<open>
  The states of the file system during the write, the last one first, and the result: the opened
  temporary file, the file written as far as it went, then either the file removed or renamed.
\<close>

definition edit_write_atomic ::
  "edit_io \<Rightarrow> nat \<Rightarrow> string \<Rightarrow> string \<Rightarrow> files \<Rightarrow> int \<times> nat \<times> files list" where
  "edit_write_atomic io pid resolved data fs =
     (let tmp = tmp_path resolved pid
      in if \<not> io_open io then (-2, 0, [fs])
         else let written = min (io_written io) (length data);
                  opened = fs(tmp \<mapsto> []);
                  filled = fs(tmp \<mapsto> take written data);
                  removed = fs(tmp := None)
              in if written \<noteq> length data then (-1, 0, [removed, filled, opened, fs])
                 else if \<not> io_close io then (-1, 0, [removed, filled, opened, fs])
                 else if \<not> io_rename io then (-1, 0, [removed, filled, opened, fs])
                 else (0, written, [fs(tmp := None, resolved \<mapsto> data), filled, opened, fs]))"

section \<open>The tool\<close>

text \<open>
  The arguments: the string \<open>path\<close>, the array \<open>edits\<close> with the two strings of each
  element if it is an object that has them, and the strings of the older form.
\<close>

record edit_args =
  path_arg :: cptr
  edits_arg :: "edit_item option list option"
  old_arg :: cptr
  new_arg :: cptr

definition validation_error :: "string \<Rightarrow> tool_result" where
  "validation_error msg = tool_result_error (Some msg) (Some ''validation_error'')"

text \<open>The path and the edits, or the first complaint about the arguments.\<close>

definition edit_items :: "edit_args \<Rightarrow> string + string \<times> edit_item list" where
  "edit_items args =
     (case path_arg args of None \<Rightarrow> Inl ''missing required argument: path''
      | Some path \<Rightarrow>
          let given = (case edits_arg args of Some es \<Rightarrow> es
                       | None \<Rightarrow> (case (old_arg args, new_arg args) of
                                    (Some old, Some new) \<Rightarrow> [Some (old, new)]
                                  | _ \<Rightarrow> []))
          in if given = []
             then Inl (''missing required arguments: a non-empty edits array, or '' @
                       ''old_string and new_string'')
             else case find_index (\<lambda>e. e = None) given of
                    Some i \<Rightarrow> Inl (''edits['' @ dec_nat i @ ''] must be an object with string '' @
                                    ''old_string and new_string'')
                  | None \<Rightarrow>
                      let items = map the given
                      in case find_index (\<lambda>it. fst it = []) items of
                           Some i \<Rightarrow> Inl (''edits['' @ dec_nat i @
                                           ''].old_string must not be empty'')
                         | None \<Rightarrow> Inr (path, items))"

definition success_msg :: "nat \<Rightarrow> nat \<Rightarrow> string \<Rightarrow> string" where
  "success_msg n written diff =
     (if n = 1 then ''Replaced 1 occurrence ('' @ dec_nat written @ '' bytes written).''
      else ''Replaced '' @ dec_nat n @ '' occurrences ('' @ dec_nat written @ '' bytes written).'') @
     [LF, LF] @ diff"

text \<open>The file part: from the resolved path on.\<close>

definition edit_file ::
  "edit_io \<Rightarrow> nat \<Rightarrow> safety_config \<Rightarrow> string \<Rightarrow> string \<Rightarrow> edit_item list \<Rightarrow> files \<Rightarrow>
     tool_result \<times> files list" where
  "edit_file io pid cfg path resolved items fs =
     (case fs resolved of
        None \<Rightarrow> (tool_result_error (Some ''file not found'') (Some ''file_not_found''), [fs])
      | Some data \<Rightarrow>
          if length data = 0 \<or> length data > max_file_size cfg
          then (tool_result_error (Some ''file empty or too large'') (Some ''policy_denied''), [fs])
          else if min (io_read io) (length data) \<noteq> length data
          then (tool_result_error (Some ''read failed: file incomplete'')
                  (Some ''execution_error''), [fs])
          else case edit_plan path data items of
                 Inl e \<Rightarrow> (validation_error e, [fs])
               | Inr (final, diff) \<Rightarrow>
                   (case edit_write_atomic io pid resolved final fs of
                      (wr, written, states) \<Rightarrow>
                        if wr \<noteq> 0
                        then (tool_result_error
                                (Some (if wr = -2 then ''cannot write file''
                                       else ''write failed: file may be incomplete''))
                                (Some ''execution_error''), states)
                        else (tool_result_create (Some (success_msg (length items) written diff)),
                              states)))"

definition edit_execute ::
  "(string \<Rightarrow> edit_args option) \<Rightarrow> (string \<Rightarrow> errno + string) \<Rightarrow> edit_io \<Rightarrow> nat \<Rightarrow> safety_config \<Rightarrow>
     string \<Rightarrow> files \<Rightarrow> tool_result \<times> files list" where
  "edit_execute cjson realpath io pid cfg args_json fs =
     (case cjson args_json of
        None \<Rightarrow> (validation_error ''invalid arguments JSON'', [fs])
      | Some args \<Rightarrow>
          (case edit_items args of
             Inl e \<Rightarrow> (validation_error e, [fs])
           | Inr (path, items) \<Rightarrow>
               if \<not> safety_check_path cfg (Some path)
               then (tool_result_error (Some ''path rejected by safety check'')
                       (Some ''policy_denied''), [fs])
               else (case safety_resolve_path_alloc realpath (Some cfg) (Some path) of
                       None \<Rightarrow> (tool_result_error (Some ''path resolution failed'')
                                  (Some ''policy_denied''), [fs])
                     | Some resolved \<Rightarrow> edit_file io pid cfg path resolved items fs)))"

section \<open>What the edits replace\<close>

text \<open>Gaps and pieces in turn: the text with the pieces put between the gaps.\<close>

fun weave :: "string list \<Rightarrow> string list \<Rightarrow> string" where
  "weave [] xs = []"
| "weave (g # gs) [] = g"
| "weave (g # gs) (x # xs) = g @ x @ weave gs xs"

definition norm_old :: "edit_item list \<Rightarrow> nat \<Rightarrow> string" where
  "norm_old items i = edit_normalize_lf (fst (items ! i))"

definition norm_new :: "edit_item list \<Rightarrow> nat \<Rightarrow> string" where
  "norm_new items i = edit_normalize_lf (snd (items ! i))"

text \<open>A match is where its edit says, and the only one.\<close>

definition found :: "string \<Rightarrow> edit_item list \<Rightarrow> edit_match \<Rightarrow> bool" where
  "found norm items m \<longleftrightarrow>
     (let old = norm_old items (m_edit_idx m)
      in old \<noteq> [] \<and> m_length m = length old \<and> prefix old (drop (m_index m) norm) \<and>
         m_index m + m_length m \<le> length norm \<and> count_from norm old = 1)"

lemma count_from_None: "strstr_at h n = None \<Longrightarrow> count_from h n = 0"
  by (subst count_from.simps) simp

lemma match_edits_found:
  assumes "match_edits norm n path i items = Inr ms" "items = drop i all" "i \<le> length all"
  shows "map m_edit_idx ms = [i..<length all] \<and> list_all (found norm all) ms"
  using assms
proof (induction norm n path i items arbitrary: ms rule: match_edits.induct)
  case (2 norm n path i old new items)
  have i: "i < length all" "all ! i = (old, new)" "items = drop (Suc i) all"
    using "2.prems" by (metis drop_all list.distinct(1) not_le, metis hd_drop_conv_nth drop_all list.distinct(1) list.sel(1) not_le,
      metis drop_Suc list.sel(3) tl_drop)
  define o1 where "o1 = edit_normalize_lf old"
  have o1: "norm_old all i = o1" using i by (simp add: norm_old_def o1_def)
  from "2.prems"(1) have ne: "o1 \<noteq> []"
    by (auto simp: Let_def edit_count_occurrences_def o1_def split: if_splits)
  with "2.prems"(1) obtain ms' where c: "count_from norm o1 = 1"
    and ms': "match_edits norm n path (i + 1) items = Inr ms'"
    and ms: "ms = \<lparr>m_index = (case strstr_at norm o1 of Some k \<Rightarrow> k | None \<Rightarrow> 0),
      m_length = length o1, m_new_len = edit_line_norm_len new, m_edit_idx = i\<rparr> # ms'"
    by (auto simp: Let_def edit_count_occurrences_def o1_def split: if_splits sum.splits)
  obtain k where k: "strstr_at norm o1 = Some k"
    using c count_from_None [of norm o1] by (cases "strstr_at norm o1") auto
  have "map m_edit_idx ms' = [i + 1..<length all] \<and> list_all (found norm all) ms'"
    using "2.IH" [OF o1_def, of 1 ms'] ms' ne c i by (simp add: edit_count_occurrences_def)
  moreover have "[i..<length all] = i # [i + 1..<length all]" using i by (simp add: upt_rec)
  moreover have "found norm all (\<lparr>m_index = k, m_length = length o1,
      m_new_len = edit_line_norm_len new, m_edit_idx = i\<rparr>)"
    using strstr_at_Some [OF k] ne c o1 by (simp add: found_def add.commute)
  ultimately show ?case by (simp add: ms k)
qed simp

lemma shift_match_mset: "mset (shift_match m xs) = add_mset m (mset xs)"
  by (induction xs) auto

lemma sort_matches_mset: "mset (sort_matches ms) = mset ms"
proof -
  have "mset (fold shift_match ms acc) = mset ms + mset acc" for acc
    by (induction ms arbitrary: acc) (simp_all add: shift_match_mset)
  from this [of "[]"] show ?thesis by (simp add: sort_matches_def)
qed

text \<open>Matches in order from a position on, and the gaps between them.\<close>

fun ordered :: "nat \<Rightarrow> nat \<Rightarrow> edit_match list \<Rightarrow> bool" where
  "ordered n pos [] \<longleftrightarrow> pos \<le> n"
| "ordered n pos (m # ms) \<longleftrightarrow> pos \<le> m_index m \<and> ordered n (m_index m + m_length m) ms"

fun gaps :: "string \<Rightarrow> nat \<Rightarrow> edit_match list \<Rightarrow> string list" where
  "gaps norm pos [] = [drop pos norm]"
| "gaps norm pos (m # ms) =
     take (m_index m - pos) (drop pos norm) # gaps norm (m_index m + m_length m) ms"

lemma gaps_length [simp]: "length (gaps norm pos ms) = Suc (length ms)"
  by (induction norm pos ms rule: gaps.induct) auto

lemma ordered_bound: "ordered n pos ms \<Longrightarrow> pos \<le> n"
  by (induction n pos ms rule: ordered.induct) auto

lemma check_overlap_ordered:
  "check_overlap path ms = None \<Longrightarrow> \<forall>m \<in> set ms. m_index m + m_length m \<le> n \<Longrightarrow>
     ms \<noteq> [] \<longrightarrow> ordered n (m_index (hd ms)) ms"
  by (induction path ms rule: check_overlap.induct) (auto split: if_splits)

lemma ordered_from: "ordered n (m_index (hd ms)) ms \<Longrightarrow> ms \<noteq> [] \<Longrightarrow> pos \<le> m_index (hd ms) \<Longrightarrow> ordered n pos ms"
  by (cases ms) auto

lemma weave_gaps_old:
  "ordered (length norm) pos ms \<Longrightarrow> list_all (found norm items) ms \<Longrightarrow>
     drop pos norm = weave (gaps norm pos ms) (map (\<lambda>m. norm_old items (m_edit_idx m)) ms)"
proof (induction norm pos ms rule: gaps.induct)
  case (2 norm pos m ms)
  define old where "old = norm_old items (m_edit_idx m)"
  have f: "m_length m = length old" "prefix old (drop (m_index m) norm)" "pos \<le> m_index m"
    using "2.prems" by (simp_all add: found_def Let_def old_def)
  then obtain r where r: "drop (m_index m) norm = old @ r" by (auto simp: prefix_def)
  then have r2: "drop (m_index m + m_length m) norm = r"
    using f(1) by (metis add.commute append_eq_conv_conj drop_drop)
  have "drop pos norm = take (m_index m - pos) (drop pos norm) @ drop (m_index m) norm"
    using f(3) by (metis append_take_drop_id drop_drop le_add_diff_inverse2)
  also have "drop (m_index m) norm =
      old @ weave (gaps norm (m_index m + m_length m) ms) (map (\<lambda>m. norm_old items (m_edit_idx m)) ms)"
    using "2.IH" "2.prems" r r2 by simp
  finally show ?case by (simp add: old_def)
qed simp

lemma apply_edits_weave:
  "ordered (length norm) pos ms \<Longrightarrow>
     foldr (apply_edit items) ms norm =
       take pos norm @ weave (gaps norm pos ms) (map (\<lambda>m. norm_new items (m_edit_idx m)) ms)"
proof (induction norm pos ms rule: gaps.induct)
  case (2 norm pos m ms)
  define q where "q = m_index m + m_length m"
  have o: "pos \<le> m_index m" "ordered (length norm) q ms" using "2.prems" by (simp_all add: q_def)
  have q: "q \<le> length norm" using ordered_bound [OF o(2)] .
  have IH: "foldr (apply_edit items) ms norm =
      take q norm @ weave (gaps norm q ms) (map (\<lambda>m. norm_new items (m_edit_idx m)) ms)"
    using "2.IH" o(2) by (simp add: q_def)
  have "take (m_index m) (foldr (apply_edit items) ms norm) = take (m_index m) norm"
    using q by (simp add: IH q_def min_def)
  moreover have "drop q (foldr (apply_edit items) ms norm) =
      weave (gaps norm q ms) (map (\<lambda>m. norm_new items (m_edit_idx m)) ms)"
    using q by (simp add: IH)
  moreover have "take (m_index m) norm = take pos norm @ take (m_index m - pos) (drop pos norm)"
    using o(1) by (metis le_add_diff_inverse take_add)
  ultimately show ?case
    by (simp add: apply_edit_def [of items m] norm_new_def [of items "m_edit_idx m"] q_def)
qed simp

lemma apply_edits_foldr: "apply_edits items ms norm = foldr (apply_edit items) ms norm"
  by (simp add: apply_edits_def foldr_conv_fold)

lemma edit_plan_weave:
  assumes plan: "edit_plan path data items = Inr (final, diff)"
    and bom: "split_bom data = (bom, t)"
  obtains \<sigma> gs where "distinct \<sigma>" "set \<sigma> = {..<length items}" "length gs = Suc (length \<sigma>)"
    "edit_normalize_lf t = weave gs (map (norm_old items) \<sigma>)"
    "final = bom @ edit_restore_endings (weave gs (map (norm_new items) \<sigma>)) (edit_detect_ending t)"
    "\<forall>i < length items. norm_old items i \<noteq> [] \<and> count_from (edit_normalize_lf t) (norm_old items i) = 1"
    "final \<noteq> data"
proof -
  define norm where "norm = edit_normalize_lf t"
  obtain fd ms where fd: "match_edits norm (length items) path 0 items = Inr fd"
    and ms: "ms = sort_matches fd" "check_overlap path ms = None"
    and final: "final = bom @ edit_restore_endings (apply_edits items ms norm) (edit_detect_ending t)"
      "final \<noteq> data"
  proof (cases "match_edits norm (length items) path 0 items")
    case (Inl e)
    then show ?thesis using plan bom by (simp add: edit_plan_def norm_def)
  next
    case (Inr fd)
    show ?thesis
    proof (cases "check_overlap path (sort_matches fd)")
      case None
      define fin where "fin = bom @
        edit_restore_endings (apply_edits items (sort_matches fd) norm) (edit_detect_ending t)"
      have "final = fin \<and> fin \<noteq> data"
        using plan bom Inr None by (simp add: edit_plan_def fin_def norm_def Let_def split: if_splits)
      then show ?thesis using that [OF Inr refl None] by (simp add: fin_def)
    next
      case (Some e)
      then show ?thesis using plan bom Inr by (simp add: edit_plan_def norm_def Let_def)
    qed
  qed
  have f: "map m_edit_idx fd = [0..<length items]" "list_all (found norm items) fd"
    using match_edits_found [OF fd, of items] by simp_all
  have perm: "mset ms = mset fd" using sort_matches_mset ms(1) by simp
  then have set: "set ms = set fd" by (rule mset_eq_setD)
  define \<sigma> where "\<sigma> = map m_edit_idx ms"
  have ms_idx: "mset \<sigma> = mset [0..<length items]"
    unfolding \<sigma>_def f(1) [symmetric] using perm by simp
  have s: "distinct \<sigma>" "set \<sigma> = {..<length items}"
    using mset_eq_imp_distinct_iff [OF ms_idx] mset_eq_setD [OF ms_idx]
    by (simp_all add: atLeast0LessThan)
  have fm: "list_all (found norm items) ms" using f(2) set by (simp add: list_all_iff)
  then have "\<forall>m \<in> set ms. m_index m + m_length m \<le> length norm"
    by (auto simp: list_all_iff found_def Let_def)
  then have ord: "ordered (length norm) 0 ms"
    using check_overlap_ordered [OF ms(2)] ordered_from [of "length norm" ms 0]
    by (cases "ms = []") auto
  have old: "norm = weave (gaps norm 0 ms) (map (norm_old items) \<sigma>)"
    using weave_gaps_old [OF ord fm] by (simp add: \<sigma>_def comp_def)
  have new: "apply_edits items ms norm = weave (gaps norm 0 ms) (map (norm_new items) \<sigma>)"
    using apply_edits_weave [OF ord, of items] by (simp add: apply_edits_foldr \<sigma>_def comp_def)
  have once: "\<forall>i < length items. norm_old items i \<noteq> [] \<and> count_from norm (norm_old items i) = 1"
  proof (intro allI impI)
    fix i assume "i < length items"
    then have "i \<in> set (map m_edit_idx fd)" unfolding f(1) by simp
    then show "norm_old items i \<noteq> [] \<and> count_from norm (norm_old items i) = 1"
      using f(2) by (auto simp: list_all_iff found_def Let_def)
  qed
  show ?thesis
  proof (rule that [OF s])
    show "length (gaps norm 0 ms) = Suc (length \<sigma>)" by (simp add: \<sigma>_def)
  qed (use old new once final in \<open>simp_all only: norm_def not_False_eq_True\<close>)
qed

section \<open>Line ends\<close>

lemma edit_normalize_append: "CR \<notin> set a \<Longrightarrow> edit_normalize_lf (a @ b) = a @ edit_normalize_lf b"
  by (induction a) auto

lemma normalize_restore: "CR \<notin> set u \<Longrightarrow> edit_normalize_lf (edit_restore_endings u crlf) = u"
proof (cases crlf)
  case False
  then show "CR \<notin> set u \<Longrightarrow> ?thesis" using edit_normalize_append [of u "[]"]
    by (simp add: edit_restore_endings_def)
next
  case True
  have "CR \<notin> set u \<Longrightarrow>
      edit_normalize_lf (concat (map (\<lambda>c. if c = LF then [CR, LF] else [c]) u)) = u"
    by (induction u) auto
  with True show "CR \<notin> set u \<Longrightarrow> ?thesis" by (simp add: edit_restore_endings_def)
qed

lemma strstr_CRLF: "CR \<notin> set a \<Longrightarrow> strstr_at (a @ CR # LF # r) CRLF = Some (length a)"
  by (induction a) auto

lemma strstr_no_CR: "CR \<notin> set a \<Longrightarrow> strstr_at a CRLF = None"
  by (induction a) auto

lemma detect_restore:
  assumes "CR \<notin> set u" "LF \<in> set u"
  shows "edit_detect_ending (edit_restore_endings u crlf) = crlf"
proof (cases crlf)
  case False
  then show ?thesis using assms
    by (auto simp: edit_detect_ending_def edit_restore_endings_def strstr_no_CR split: option.splits)
next
  case True
  obtain a r where u: "u = a @ LF # r" "LF \<notin> set a" using split_list_first [OF assms(2)] by blast
  have a: "concat (map (\<lambda>c. if c = LF then [CR, LF] else [c]) a) = a" using u(2) by (induction a) auto
  have "find_index (\<lambda>d. d = LF) a = None" using u(2) by (simp add: find_index_None) metis
  then have "memchr LF (a @ CR # LF # s) = Some (Suc (length a))" for s
    by (simp add: memchr_def find_index_append)
  moreover have "CR \<notin> set a" using assms(1) u(1) by simp
  ultimately show ?thesis using True a
    by (simp add: edit_detect_ending_def edit_restore_endings_def u(1) strstr_CRLF)
qed

lemma detect_no_LF: "LF \<notin> set t \<Longrightarrow> \<not> edit_detect_ending t"
proof -
  assume "LF \<notin> set t"
  then have "find_index (\<lambda>d. d = LF) t = None" by (simp add: find_index_None) metis
  then show ?thesis by (simp add: edit_detect_ending_def memchr_def)
qed

interpretation line_ends: codec "\<lambda>u. edit_restore_endings u True" "\<lambda>t. Some (edit_normalize_lf t)"
    "\<lambda>u. CR \<notin> set u"
  by unfold_locales (simp add: normalize_restore)

section \<open>Properties\<close>

text \<open>
  C17: an accepted edit replaces exactly the old texts by the new ones: the normalised content
  splits into gaps with the old texts between them, each edit used once, and the written file is
  the same gaps with the new texts between them, in the line ends and with the byte order mark of
  the original; every old text is non-empty and was found once, and something changes.
\<close>

theorem edit_replaces_exactly:
  assumes "edit_plan path data items = Inr (final, diff)" and "split_bom data = (bom, t)"
  shows "\<exists>\<sigma> gs. distinct \<sigma> \<and> set \<sigma> = {..<length items} \<and> length gs = Suc (length \<sigma>) \<and>
     edit_normalize_lf t = weave gs (map (norm_old items) \<sigma>) \<and>
     final = bom @ edit_restore_endings (weave gs (map (norm_new items) \<sigma>)) (edit_detect_ending t) \<and>
     (\<forall>i < length items. norm_old items i \<noteq> [] \<and>
        count_from (edit_normalize_lf t) (norm_old items i) = 1) \<and>
     final \<noteq> data"
  by (rule edit_plan_weave [OF assms]) blast

lemma count_from_step:
  "n \<noteq> [] \<Longrightarrow> strstr_at h n = Some k \<Longrightarrow> count_from h n = Suc (count_from (drop (k + length n) h) n)"
  by (subst count_from.simps) simp

lemma demo_plan:
  "\<exists>d. edit_plan ''f'' ''a b a'' [(''b'', ''xy'')] = Inr (''a xy a'', d)"
proof -
  have "count_from ''a b a'' ''b'' = 1"
    by (simp add: count_from_step [of _ _ 2] count_from_None)
  moreover have "edit_normalize_lf ''a b a'' = ''a b a''" "edit_normalize_lf ''b'' = ''b''"
    "edit_normalize_lf ''xy'' = ''xy''" "split_bom ''a b a'' = ([], ''a b a'')"
    "edit_detect_ending ''a b a'' = False" "strstr_at ''a b a'' ''b'' = Some 2"
    by (simp_all add: split_bom_def cstr_def BOM_def edit_detect_ending_def memchr_def)
  ultimately show ?thesis
    by (simp add: edit_plan_def edit_count_occurrences_def sort_matches_def apply_edits_def
        apply_edit_def edit_restore_endings_def Let_def)
qed

theorem edit_replaces_exactly_witness:
  "\<exists>d \<sigma> gs. edit_plan ''f'' ''a b a'' [(''b'', ''xy'')] = Inr (''a xy a'', d) \<and> set \<sigma> = {..<1} \<and>
     edit_normalize_lf ''a b a'' = weave gs (map (norm_old [(''b'', ''xy'')]) \<sigma>)"
proof -
  obtain d where d: "edit_plan ''f'' ''a b a'' [(''b'', ''xy'')] = Inr (''a xy a'', d)"
    using demo_plan by blast
  have "split_bom ''a b a'' = ([], ''a b a'')" by (simp add: split_bom_def cstr_def BOM_def)
  from edit_replaces_exactly [OF d this] d show ?thesis by auto
qed

text \<open>
  The line ends of a file that uses one kind survive: for a text without carriage returns,
  written with either kind, normalising gives the text back, the kind is recognised from the file,
  and restoring gives the file back.
\<close>

theorem line_ends_kept:
  assumes "CR \<notin> set u"
  shows "edit_normalize_lf (edit_restore_endings u crlf) = u \<and>
     edit_restore_endings (edit_normalize_lf (edit_restore_endings u crlf))
       (edit_detect_ending (edit_restore_endings u crlf)) = edit_restore_endings u crlf"
proof (cases "LF \<in> set u")
  case True
  then show ?thesis using normalize_restore [OF assms] detect_restore [OF assms] by simp
next
  case False
  then have "edit_restore_endings u b = u" for b
    by (cases b) (simp_all add: edit_restore_endings_def, induction u, auto)
  then show ?thesis using normalize_restore [OF assms, of False] by simp
qed

theorem line_ends_kept_witness:
  "edit_normalize_lf (''a'' @ CRLF @ ''b'') = ''a'' @ LF # ''b'' \<and>
     edit_restore_endings (''a'' @ LF # ''b'') True = ''a'' @ CRLF @ ''b''"
proof -
  have r: "edit_restore_endings (''a'' @ LF # ''b'') True = ''a'' @ CRLF @ ''b''"
    by (simp add: edit_restore_endings_def)
  from line_ends_kept [of "''a'' @ LF # ''b''" True] show ?thesis unfolding r by simp
qed

text \<open>
  C18: an edit is all or nothing: only a path that the safety policy accepts and resolves is
  written; at every moment of the write every file but the temporary one has its old content,
  except that after a success, and only then, the file has the complete new content, and no
  temporary file remains once the write has begun. A failed call changes no other file.
\<close>

theorem edit_atomic:
  assumes "edit_execute cjson realpath io pid cfg args fs = (r, states)"
  shows "(failed r \<and> states = [fs]) \<or>
     (\<exists>a path items resolved. cjson args = Some a \<and> edit_items a = Inr (path, items) \<and>
        safety_check_path cfg (Some path) \<and>
        safety_resolve_path_alloc realpath (Some cfg) (Some path) = Some resolved \<and>
        hd states (tmp_path resolved pid) = None \<and>
        (\<not> failed r \<longrightarrow> (\<exists>data final diff. fs resolved = Some data \<and>
           edit_plan path data items = Inr (final, diff) \<and> hd states resolved = Some final)) \<and>
        (\<forall>s \<in> set states. \<forall>p. p = tmp_path resolved pid \<or> s p = fs p \<or>
           (\<not> failed r \<and> s = hd states \<and> p = resolved)))"
proof (cases "failed r \<and> states = [fs]")
  case False
  obtain a path items resolved where a: "cjson args = Some a" "edit_items a = Inr (path, items)"
    "safety_check_path cfg (Some path)"
    "safety_resolve_path_alloc realpath (Some cfg) (Some path) = Some resolved"
    and run: "edit_file io pid cfg path resolved items fs = (r, states)"
    using assms False
    by (auto simp: edit_execute_def validation_error_def split: option.splits sum.splits if_splits)
  obtain data final diff where d: "fs resolved = Some data" "edit_plan path data items = Inr (final, diff)"
    and w: "(case edit_write_atomic io pid resolved final fs of
                      (wr, written, states) \<Rightarrow>
                        if wr \<noteq> 0
                        then (tool_result_error
                                (Some (if wr = -2 then ''cannot write file''
                                       else ''write failed: file may be incomplete''))
                                (Some ''execution_error''), states)
                        else (tool_result_create (Some (success_msg (length items) written diff)),
                              states)) = (r, states)"
    using run False
    by (auto simp: edit_file_def validation_error_def split: option.splits sum.splits if_splits)
  have "hd states (tmp_path resolved pid) = None \<and>
        (\<forall>s \<in> set states. \<forall>p. p = tmp_path resolved pid \<or> s p = fs p \<or>
           (\<not> failed r \<and> s = hd states \<and> p = resolved))"
    using w False by (auto simp: edit_write_atomic_def Let_def tmp_path_def split: if_splits)
  moreover have "hd states resolved = Some final" if "\<not> failed r"
    using w that by (auto simp: edit_write_atomic_def Let_def tmp_path_def split: if_splits)
  ultimately show ?thesis using a d by blast
qed simp

definition demo_args :: edit_args where
  "demo_args = \<lparr>path_arg = Some ''f'', edits_arg = Some [Some (''b'', ''xy'')], old_arg = None,
     new_arg = None\<rparr>"

definition demo_config :: safety_config where
  "demo_config = safety_config_create\<lparr>safety_mode := SAFETY_MODE_UNRESTRICTED, workspace := Some ''w''\<rparr>"

definition demo_io :: edit_io where
  "demo_io = \<lparr>io_read = 5, io_open = True, io_written = 6, io_close = True, io_rename = True\<rparr>"

theorem edit_atomic_witness:
  "\<exists>r states s. edit_execute (\<lambda>_. Some demo_args) (\<lambda>_. Inl ENOENT) demo_io 7 demo_config []
       [''f'' \<mapsto> ''a b a''] = (r, states) \<and> \<not> failed r \<and> hd states = s \<and> s ''f'' = Some ''a xy a''"
proof -
  obtain d where d: "edit_plan ''f'' ''a b a'' [(''b'', ''xy'')] = Inr (''a xy a'', d)"
    using demo_plan by blast
  obtain r states where e: "edit_execute (\<lambda>_. Some demo_args) (\<lambda>_. Inl ENOENT) demo_io 7 demo_config []
      [''f'' \<mapsto> ''a b a''] = (r, states)" by fastforce
  have items: "edit_items demo_args = Inr (''f'', [(''b'', ''xy'')])"
    by (simp add: edit_items_def demo_args_def)
  have ok: "safety_check_path demo_config (Some ''f'')"
    "safety_resolve_path_alloc (\<lambda>_. Inl ENOENT) (Some demo_config) (Some ''f'') = Some ''f''"
    "max_file_size demo_config = 10485760"
    by (simp_all add: safety_check_path_def safety_resolve_path_alloc_def demo_config_def
        safety_config_create_def)
  have nf: "\<not> failed r"
    using e by (simp add: edit_execute_def items ok edit_file_def d edit_write_atomic_def demo_io_def
        Let_def split: if_splits) auto
  with edit_atomic [OF e] ok items d have "hd states ''f'' = Some ''a xy a''" by auto
  with e nf show ?thesis by blast
qed

text \<open>
  A file with a NUL byte loses everything after it: the content is handled as a C string, and the
  shorter text is written back.
\<close>

lemma edit_drops_after_NUL:
  "\<exists>d. edit_plan ''f'' [CHR ''a'', NUL, CHR ''b''] [(''a'', ''c'')] = Inr (''c'', d)"
proof -
  have "count_from ''a'' ''a'' = 1"
    by (simp add: count_from_step [of _ _ 0] count_from_None)
  moreover have "split_bom [CHR ''a'', NUL, CHR ''b''] = ([], ''a'')"
    "edit_detect_ending ''a'' = False" "strstr_at ''a'' ''a'' = Some 0"
    by (simp_all add: split_bom_def cstr_def BOM_def edit_detect_ending_def memchr_def)
  ultimately show ?thesis
    by (simp add: edit_plan_def edit_count_occurrences_def sort_matches_def apply_edits_def
        apply_edit_def edit_restore_endings_def Let_def)
qed

text \<open>Overlapping occurrences count once, so an old text that occurs twice can be accepted.\<close>

lemma edit_accepts_overlapping: "count_from ''aaa'' ''aa'' = 1"
  by (simp add: count_from_step [of _ _ 0] count_from_None)

end
