(* ===== verification/HtmlText.thy ===== *)
theory HtmlText
  imports HtmlUnicode
begin

text \<open>
  From the text of a page to clean UTF-8: entities (\<open>utils/html_entities.c\<close>), the output
  buffer (\<open>utils/html_outbuf.c\<close>), the writer that collapses white space and the title
  (\<open>utils/html_writer.c\<close>), and the runs of text of \<open>utils/html_extract.c\<close>.

  The bytes of a buffer are a \<open>string\<close>; memory does not run out. The last character that the
  writer remembers, with the flag that says whether there is one, is the option \<open>w_last\<close>.
\<close>

section \<open>Entities\<close>

definition ENTITY_TABLE :: "(string \<times> nat) list" where
  "ENTITY_TABLE =
    [(''amp'', 38),       (''lt'', 60),       (''gt'', 62),
     (''quot'', 34),      (''apos'', 39),     (''nbsp'', 0xA0),
     (''copy'', 0xA9),    (''reg'', 0xAE),    (''trade'', 0x99),
     (''hellip'', 0x85),  (''mdash'', 0x97),  (''ndash'', 0x96),
     (''lsquo'', 0x91),   (''rsquo'', 0x92),  (''ldquo'', 0x93),
     (''rdquo'', 0x94),   (''middot'', 0xB7), (''bull'', 0x95),
     (''deg'', 0xB0),     (''plusmn'', 0xB1), (''times'', 0xD7),
     (''divide'', 0xF7),  (''frac12'', 0xBD), (''frac14'', 0xBC),
     (''frac34'', 0xBE),  (''sup2'', 0xB2),   (''sup3'', 0xB3),
     (''para'', 0xB6),    (''sect'', 0xA7),   (''permil'', 0x89),
     (''euro'', 0x80),    (''pound'', 0xA3),  (''cent'', 0xA2),
     (''yen'', 0xA5),     (''micro'', 0xB5),
     (''eacute'', 0xE9),  (''agrave'', 0xE0), (''ntilde'', 0xF1),
     (''ccedil'', 0xE7),  (''szlig'', 0xDF),  (''uuml'', 0xFC),
     (''aacute'', 0xE1),  (''iacute'', 0xED), (''oacute'', 0xF3),
     (''uacute'', 0xFA),  (''auml'', 0xE4),   (''igrave'', 0xEC),
     (''ograve'', 0xF2),  (''ugrave'', 0xF9), (''acirc'', 0xE2),
     (''ecirc'', 0xEA),   (''icirc'', 0xEE),  (''ocirc'', 0xF4),
     (''ucirc'', 0xFB),   (''atilde'', 0xE3), (''otilde'', 0xF5)]"

definition entity_lookup :: "string \<Rightarrow> int" where
  "entity_lookup name =
     (case find (\<lambda>e. fst e = name) ENTITY_TABLE of None \<Rightarrow> -1 | Some e \<Rightarrow> int (snd e))"

definition entity_digit :: "bool \<Rightarrow> char \<Rightarrow> nat option" where
  "entity_digit is_hex c =
     (if 48 \<le> byte c \<and> byte c \<le> 57 then Some (byte c - 48)
      else if is_hex \<and> 97 \<le> byte c \<and> byte c \<le> 102 then Some (byte c - 97 + 10)
      else if is_hex \<and> 65 \<le> byte c \<and> byte c \<le> 70 then Some (byte c - 65 + 10)
      else None)"

text \<open>At most eight digits: the value and their number, or nothing if the value is too large.\<close>

fun entity_digits :: "bool \<Rightarrow> nat \<Rightarrow> nat \<Rightarrow> string \<Rightarrow> (nat \<times> nat) option" where
  "entity_digits is_hex v digits [] = Some (v, digits)"
| "entity_digits is_hex v digits (c # cs) =
     (if digits \<ge> 8 then Some (v, digits)
      else case entity_digit is_hex c of
             None \<Rightarrow> Some (v, digits)
           | Some d \<Rightarrow>
               let base = (if is_hex then 16 else 10)
               in if v > (0x10FFFF - d) div base then None
                  else entity_digits is_hex (v * base + d) (digits + 1) cs)"

text \<open>The decoded bytes and the number of bytes consumed, of the text from the ampersand on.\<close>

definition decode_entity :: "string \<Rightarrow> (string \<times> nat) option" where
  "decode_entity s =
     (let semi = (\<lambda>j. if j < length s \<and> s ! j = CHR '';'' then j + 1 else j)
      in if length s < 2 \<or> s ! 0 \<noteq> CHR ''&'' then None
         else if s ! 1 = CHR ''#''
         then let is_hex = 2 < length s \<and> (s ! 2 = CHR ''x'' \<or> s ! 2 = CHR ''X'');
                  j = (if is_hex then 3 else 2)
              in case entity_digits is_hex 0 0 (drop j s) of
                   None \<Rightarrow> None
                 | Some (v, digits) \<Rightarrow>
                     if digits = 0 then None
                     else let out = utf8_encode_cp v
                          in if out = [] then None else Some (out, semi (j + digits))
         else let name = takeWhile is_alnum (take 11 (drop 1 s))
              in if name = [] then None
                 else let ch = entity_lookup name
                      in if ch < 0 then None
                         else Some (utf8_encode_cp (cp1252_cp (nat ch)), semi (1 + length name)))"

section \<open>The output buffer\<close>

definition outbuf_append :: "string \<Rightarrow> string \<Rightarrow> string" where
  "outbuf_append b s = b @ s"

definition outbuf_append_chr :: "string \<Rightarrow> char \<Rightarrow> string" where
  "outbuf_append_chr b c = b @ [c]"

definition outbuf_truncate :: "string \<Rightarrow> nat \<Rightarrow> string" where
  "outbuf_truncate b n = (if n \<ge> length b then b else take n b)"

section \<open>The writer\<close>

record writer =
  w_out :: string
  need_newline :: bool
  ws_pending :: bool
  w_last :: "char option"

definition new_writer :: writer where
  "new_writer = \<lparr>w_out = [], need_newline = False, ws_pending = False, w_last = None\<rparr>"

definition writer_newline :: "writer \<Rightarrow> writer" where
  "writer_newline w = w\<lparr>need_newline := True\<rparr>"

text \<open>A newline that is due: written unless the output is empty.\<close>

definition flush_newline :: "writer \<Rightarrow> writer" where
  "flush_newline w =
     w\<lparr>w_out := (if w_out w \<noteq> [] then outbuf_append_chr (w_out w) LF else w_out w),
       need_newline := False, ws_pending := False, w_last := Some LF\<rparr>"

definition space_due :: "writer \<Rightarrow> bool" where
  "space_due w \<longleftrightarrow> ws_pending w \<and> w_last w \<noteq> None \<and> w_last w \<noteq> Some LF"

definition writer_preflush :: "writer \<Rightarrow> writer" where
  "writer_preflush w =
     (if need_newline w then flush_newline w
      else if space_due w
      then w\<lparr>w_out := outbuf_append_chr (w_out w) SP, ws_pending := False, w_last := Some SP\<rparr>
      else w)"

definition writer_char :: "writer \<Rightarrow> char \<Rightarrow> writer" where
  "writer_char w c =
     (if is_space c then (if \<not> need_newline w then w\<lparr>ws_pending := True\<rparr> else w)
      else let w1 = (if need_newline w then flush_newline w
                     else if space_due w
                     then w\<lparr>w_out := outbuf_append_chr (w_out w) SP, w_last := Some SP\<rparr>
                     else w)
           in w1\<lparr>ws_pending := False, w_out := outbuf_append_chr (w_out w1) c, w_last := Some c\<rparr>)"

definition writer_text :: "writer \<Rightarrow> string \<Rightarrow> writer" where
  "writer_text w s = fold (\<lambda>c w. writer_char w c) s w"

definition writer_sync_state :: "writer \<Rightarrow> writer" where
  "writer_sync_state w =
     w\<lparr>w_last := (if w_out w \<noteq> [] then Some (last (w_out w)) else None), ws_pending := False\<rparr>"

fun count_words_from :: "bool \<Rightarrow> string \<Rightarrow> nat" where
  "count_words_from in_word [] = 0"
| "count_words_from in_word (c # cs) =
     (if is_space c then count_words_from False cs
      else if \<not> in_word then Suc (count_words_from True cs)
      else count_words_from True cs)"

definition count_words :: "string \<Rightarrow> nat" where
  "count_words s = count_words_from False s"

definition run_has_nonws :: "string \<Rightarrow> bool" where
  "run_has_nonws s = list_ex (\<lambda>c. \<not> is_space c) s"

section \<open>Runs of text\<close>

text \<open>A byte of text that is not UTF-8, taken as Windows-1252.\<close>

definition transcode_byte :: "char \<Rightarrow> string" where
  "transcode_byte c =
     (let enc = (if byte c < 0x80 then [c] else utf8_encode_cp (cp1252_cp (byte c)))
      in if enc = [] then [CHR 0xEF, CHR 0xBF, CHR 0xBD] else enc)"

definition emit_piece :: "bool \<Rightarrow> writer \<Rightarrow> string \<Rightarrow> writer" where
  "emit_piece is_pre w s =
     (if is_pre then w\<lparr>w_out := outbuf_append (w_out w) s, w_last := Some (last s)\<rparr>
      else writer_text w s)"

definition emit_text_run :: "writer \<Rightarrow> string \<Rightarrow> bool \<Rightarrow> writer" where
  "emit_text_run w s is_pre =
     (if s = [] then w
      else if utf8_valid s then emit_piece is_pre w s
      else fold (\<lambda>c w. emit_piece is_pre w (transcode_byte c)) s w)"

section \<open>The title\<close>

text \<open>The buffer of the title and whether white space is pending.\<close>

fun title_append_byte :: "string \<times> bool \<Rightarrow> char \<Rightarrow> string \<times> bool" where
  "title_append_byte (b, pending) c =
     (if is_space c then (b, True)
      else let b1 = (if pending \<and> b \<noteq> [] then outbuf_append_chr b SP else b)
           in (outbuf_append_chr b1 c, False))"

definition title_append_bytes :: "string \<times> bool \<Rightarrow> string \<Rightarrow> string \<times> bool" where
  "title_append_bytes st s = fold (\<lambda>c st. title_append_byte st c) s st"

definition title_append_run :: "string \<times> bool \<Rightarrow> string \<Rightarrow> string \<times> bool" where
  "title_append_run st rn =
     (if utf8_valid rn then title_append_bytes st rn
      else fold (\<lambda>c st. title_append_bytes st (transcode_byte c)) rn st)"

lemma decode_entity_consumed: "decode_entity s = Some (e, k) \<Longrightarrow> 0 < k"
  by (auto simp: decode_entity_def Let_def split: if_splits option.splits)

lemma after_entity:
  assumes "decode_entity (dropWhile P s) = Some (e, k)" "dropWhile P s \<noteq> []"
  shows "length (dropWhile P s) - k < length s"
  using decode_entity_consumed [OF assms(1)] assms(2) length_dropWhile_le [of P s]
  by (cases "dropWhile P s") auto

lemma after_amp: "dropWhile P s \<noteq> [] \<Longrightarrow> length (dropWhile P s) - Suc 0 < length s"
  using length_dropWhile_le [of P s] by (cases "dropWhile P s") auto

function title_loop :: "string \<times> bool \<Rightarrow> string \<Rightarrow> string \<times> bool" where
  "title_loop st s =
     (if s = [] then st
      else let rn = takeWhile (\<lambda>c. c \<noteq> CHR ''&'') s;
               rest = dropWhile (\<lambda>c. c \<noteq> CHR ''&'') s;
               st1 = (if rn \<noteq> [] then title_append_run st rn else st)
           in if rest = [] then st1
              else case decode_entity rest of
                     Some (e, consumed) \<Rightarrow>
                       title_loop (title_append_bytes st1 e) (drop consumed rest)
                   | None \<Rightarrow> title_loop (title_append_byte st1 (CHR ''&'')) (tl rest))"
  by auto
termination
  by (relation "measure (\<lambda>(st, s). length s)") (auto intro: after_entity after_amp simp del: dropWhile_eq_Nil_conv)

declare title_loop.simps [simp del]

definition append_title_text :: "string \<Rightarrow> string \<Rightarrow> string" where
  "append_title_text b s = fst (title_loop (b, False) s)"

section \<open>What is decoded is UTF-8\<close>

lemma utf8_valid_encode: "scalar cp \<Longrightarrow> utf8_valid (utf8_encode_cp cp)"
  using utf8_valid_encode_append [of cp "[]"] by simp

lemma encode_scalar: "utf8_encode_cp cp \<noteq> [] \<Longrightarrow> scalar cp"
  by (auto simp: utf8_encode_cp_def scalar_def split: if_splits)

lemma find_Some_mem: "find P xs = Some x \<Longrightarrow> x \<in> set xs"
  by (induction xs) (auto split: if_splits)

lemma entity_lookup_byte: "0 \<le> entity_lookup name \<Longrightarrow> nat (entity_lookup name) < 256"
proof -
  have "\<forall>e \<in> set ENTITY_TABLE. snd e < 256" by (simp add: ENTITY_TABLE_def)
  then show ?thesis
    by (auto simp: entity_lookup_def split: option.splits dest!: find_Some_mem)
qed

lemma decode_entity_valid:
  assumes "decode_entity s = Some (e, k)"
  shows "utf8_valid e \<and> e \<noteq> []"
proof -
  from assms consider v where "e = utf8_encode_cp v" "e \<noteq> []"
    | name where "e = utf8_encode_cp (cp1252_cp (nat (entity_lookup name)))" "0 \<le> entity_lookup name"
    by (auto simp: decode_entity_def Let_def split: if_splits option.splits)
  then show ?thesis
  proof cases
    case 1
    then show ?thesis using encode_scalar utf8_valid_encode by metis
  next
    case 2
    then show ?thesis
      using cp1252_scalar [OF entity_lookup_byte] utf8_valid_encode utf8_encode_nonempty by metis
  qed
qed

lemma transcode_valid: "utf8_valid (transcode_byte c) \<and> transcode_byte c \<noteq> []"
proof (cases "byte c < 0x80")
  case True
  then show ?thesis by (simp add: transcode_byte_def utf8_valid_ascii)
next
  case False
  have s: "scalar (cp1252_cp (byte c))" by (rule cp1252_scalar) simp
  then show ?thesis using False utf8_valid_encode [OF s] utf8_encode_nonempty [OF s]
    by (simp add: transcode_byte_def)
qed

section \<open>The writer writes UTF-8\<close>

lemma encode_bytes_ge: "scalar cp \<Longrightarrow> 128 \<le> cp \<Longrightarrow> c \<in> set (utf8_encode_cp cp) \<Longrightarrow> 128 \<le> byte c"
  by (cases rule: scalar_cases [of cp])
    (auto simp: utf8_encode_2 utf8_encode_3 utf8_encode_4 scalar_def)

text \<open>Every valid text is built from single ASCII bytes and blocks of bytes that are no spaces.\<close>

lemma utf8_valid_induct [consumes 1, case_names Nil ascii block]:
  assumes "utf8_valid s" "P []"
    and "\<And>c r. byte c < 128 \<Longrightarrow> utf8_valid r \<Longrightarrow> P r \<Longrightarrow> P (c # r)"
    and "\<And>b r. utf8_valid b \<Longrightarrow> b \<noteq> [] \<Longrightarrow> \<forall>c \<in> set b. \<not> is_space c \<and> 128 \<le> byte c \<Longrightarrow>
          utf8_valid r \<Longrightarrow> P r \<Longrightarrow> P (b @ r)"
  shows "P s"
proof -
  obtain cps where cps: "list_all scalar cps" "s = concat (map utf8_encode_cp cps)"
    using assms(1) by (auto simp: utf8_valid_iff_decode)
  have "P (concat (map utf8_encode_cp cps))" using cps(1)
  proof (induction cps)
    case (Cons cp cps)
    have r: "utf8_valid (concat (map utf8_encode_cp cps))" using Cons.prems by (simp add: utf8_valid_encode_all)
    have IH: "P (concat (map utf8_encode_cp cps))" using Cons by simp
    have cp: "scalar cp" using Cons.prems by simp
    show ?case
    proof (cases "cp < 128")
      case True
      then show ?thesis using assms(3) [OF _ r IH, of "chr cp"] by (simp add: utf8_encode_1)
    next
      case False
      have "\<forall>c \<in> set (utf8_encode_cp cp). \<not> is_space c \<and> 128 \<le> byte c"
      proof
        fix c assume "c \<in> set (utf8_encode_cp cp)"
        then have "128 \<le> byte c" by (rule encode_bytes_ge [OF cp, rotated]) (use False in simp)
        then show "\<not> is_space c \<and> 128 \<le> byte c" by (simp add: is_space_def)
      qed
      then show ?thesis
        using assms(4) [OF utf8_valid_encode [OF cp] utf8_encode_nonempty [OF cp] _ r IH] by simp
    qed
  qed (simp add: assms(2))
  with cps(2) show ?thesis by simp
qed

lemma writer_text_append: "writer_text w (a @ b) = writer_text (writer_text w a) b"
  by (simp add: writer_text_def)

lemma writer_text_Nil [simp]: "writer_text w [] = w"
  by (simp add: writer_text_def)

lemma writer_text_Cons: "writer_text w (c # s) = writer_text (writer_char w c) s"
  by (simp add: writer_text_def)

lemma append_ascii: "utf8_valid s \<Longrightarrow> byte c < 128 \<Longrightarrow> utf8_valid (s @ [c])"
  by (rule utf8_valid_append) (simp_all add: utf8_valid_ascii)

lemma byte_LF_SP [simp]: "byte LF < 128" "byte SP < 128"
  by simp_all

lemma writer_char_ascii:
  "utf8_valid (w_out w) \<Longrightarrow> byte c < 128 \<Longrightarrow> utf8_valid (w_out (writer_char w c))"
  by (simp add: writer_char_def flush_newline_def outbuf_append_chr_def utf8_valid_append utf8_valid_ascii)

lemma writer_char_first:
  assumes "\<not> is_space c" "utf8_valid (w_out w)"
  obtains p where "utf8_valid p" "w_out (writer_char w c) = p @ [c]"
    "\<not> need_newline (writer_char w c)" "\<not> ws_pending (writer_char w c)"
proof -
  have "\<not> need_newline (writer_char w c)" "\<not> ws_pending (writer_char w c)"
    using assms(1) by (simp_all add: writer_char_def flush_newline_def)
  moreover have "\<exists>p. utf8_valid p \<and> w_out (writer_char w c) = p @ [c]"
    using assms by (auto simp: writer_char_def flush_newline_def outbuf_append_chr_def utf8_valid_append utf8_valid_ascii)
  ultimately show ?thesis using that by blast
qed

lemma writer_text_ready:
  "\<not> need_newline w \<Longrightarrow> \<not> ws_pending w \<Longrightarrow> \<forall>c \<in> set b. \<not> is_space c \<Longrightarrow>
     w_out (writer_text w b) = w_out w @ b"
proof (induction b arbitrary: w)
  case (Cons c b)
  have "writer_char w c = w\<lparr>ws_pending := False, w_out := w_out w @ [c], w_last := Some c\<rparr>"
    using Cons.prems by (simp add: writer_char_def space_due_def outbuf_append_chr_def)
  then show ?case using Cons by (simp add: writer_text_Cons)
qed simp

lemma writer_block:
  assumes "b \<noteq> []" "\<forall>c \<in> set b. \<not> is_space c" "utf8_valid b" "utf8_valid (w_out w)"
  shows "utf8_valid (w_out (writer_text w b))"
proof -
  obtain c cs where b: "b = c # cs" using assms(1) by (cases b) auto
  have nc: "\<not> is_space c" using assms(2) b by simp
  obtain p where p: "utf8_valid p" "w_out (writer_char w c) = p @ [c]"
    "\<not> need_newline (writer_char w c)" "\<not> ws_pending (writer_char w c)"
    using writer_char_first [OF nc assms(4)] .
  have "w_out (writer_text w b) = p @ b"
    using writer_text_ready [OF p(3,4), of cs] assms(2) p(2) by (simp add: b writer_text_Cons)
  with p(1) assms(3) show ?thesis by (simp add: utf8_valid_append)
qed

lemma writer_text_valid: "utf8_valid s \<Longrightarrow> utf8_valid (w_out w) \<Longrightarrow> utf8_valid (w_out (writer_text w s))"
proof (induction s arbitrary: w rule: utf8_valid_induct)
  case (ascii c r)
  then show ?case using writer_char_ascii by (simp add: writer_text_Cons)
next
  case (block b r)
  then show ?case using writer_block [of b w] by (simp add: writer_text_append)
qed simp

text \<open>The writer only appends.\<close>

lemma writer_char_prefix: "prefix (w_out w) (w_out (writer_char w c))"
  by (simp add: writer_char_def flush_newline_def outbuf_append_chr_def)

lemma writer_text_prefix: "prefix (w_out w) (w_out (writer_text w s))"
proof (induction s arbitrary: w)
  case (Cons c s)
  then show ?case using writer_char_prefix [of w c] prefix_order.trans
    by (simp add: writer_text_Cons) blast
qed simp

lemma preflush_facts:
  "prefix (w_out w) (w_out (writer_preflush w))"
  "utf8_valid (w_out w) \<Longrightarrow> utf8_valid (w_out (writer_preflush w))"
  by (simp_all add: writer_preflush_def flush_newline_def outbuf_append_chr_def utf8_valid_append utf8_valid_ascii)

lemma emit_piece_facts:
  "prefix (w_out w) (w_out (emit_piece is_pre w s))"
  "utf8_valid (w_out w) \<Longrightarrow> utf8_valid s \<Longrightarrow> utf8_valid (w_out (emit_piece is_pre w s))"
  by (simp_all add: emit_piece_def outbuf_append_def writer_text_prefix writer_text_valid utf8_valid_append)

lemma emit_bytes_facts:
  "prefix (w_out w) (w_out (fold (\<lambda>c w. emit_piece is_pre w (transcode_byte c)) s w)) \<and>
   (utf8_valid (w_out w) \<longrightarrow>
     utf8_valid (w_out (fold (\<lambda>c w. emit_piece is_pre w (transcode_byte c)) s w)))"
proof (induction s arbitrary: w)
  case (Cons c s)
  have "prefix (w_out w) (w_out (emit_piece is_pre w (transcode_byte c)))"
    by (rule emit_piece_facts(1))
  moreover have "utf8_valid (w_out w) \<Longrightarrow> utf8_valid (w_out (emit_piece is_pre w (transcode_byte c)))"
    using transcode_valid by (intro emit_piece_facts(2)) simp_all
  ultimately show ?case using Cons [of "emit_piece is_pre w (transcode_byte c)"] prefix_order.trans
    by (simp del: prefix_order.trans) blast
qed simp

lemma emit_run_facts:
  "prefix (w_out w) (w_out (emit_text_run w s is_pre))"
  "utf8_valid (w_out w) \<Longrightarrow> utf8_valid (w_out (emit_text_run w s is_pre))"
  using emit_piece_facts [where w = w and is_pre = is_pre and s = s] emit_bytes_facts [where w = w and is_pre = is_pre and s = s]
  by (simp_all add: emit_text_run_def)

section \<open>The title is UTF-8\<close>

lemma title_append_bytes_append:
  "title_append_bytes st (a @ b) = title_append_bytes (title_append_bytes st a) b"
  by (simp add: title_append_bytes_def)

lemma title_byte_ascii:
  "utf8_valid (fst st) \<Longrightarrow> byte c < 128 \<Longrightarrow> utf8_valid (fst (title_append_byte st c))"
  by (cases st) (simp add: outbuf_append_chr_def utf8_valid_append utf8_valid_ascii)

lemma title_bytes_ready:
  "\<forall>c \<in> set b. \<not> is_space c \<Longrightarrow> fst (title_append_bytes (t, False) b) = t @ b"
  by (induction b arbitrary: t) (simp_all add: title_append_bytes_def outbuf_append_chr_def)

lemma title_block:
  assumes "b \<noteq> []" "\<forall>c \<in> set b. \<not> is_space c" "utf8_valid b" "utf8_valid (fst st)"
  shows "utf8_valid (fst (title_append_bytes st b))"
proof -
  obtain c cs where b: "b = c # cs" using assms(1) by (cases b) auto
  obtain t pending where st: "st = (t, pending)" by (cases st)
  define t1 where "t1 = (if pending \<and> t \<noteq> [] then t @ [SP] else t)"
  have "title_append_byte st c = (t1 @ [c], False)"
    using assms(2) by (simp add: st b t1_def outbuf_append_chr_def)
  then have "fst (title_append_bytes st b) = t1 @ b"
    using title_bytes_ready [of cs "t1 @ [c]"] assms(2) by (simp add: b title_append_bytes_def)
  moreover have "utf8_valid t1" using assms(4) by (simp add: st t1_def append_ascii)
  ultimately show ?thesis using assms(3) by (simp add: utf8_valid_append)
qed

lemma title_bytes_valid:
  "utf8_valid s \<Longrightarrow> utf8_valid (fst st) \<Longrightarrow> utf8_valid (fst (title_append_bytes st s))"
proof (induction s arbitrary: st rule: utf8_valid_induct)
  case Nil
  then show ?case by (simp add: title_append_bytes_def)
next
  case (ascii c r)
  then show ?case using title_byte_ascii [of st c] by (simp add: title_append_bytes_def)
next
  case (block b r)
  then show ?case using title_block [of b st] by (simp add: title_append_bytes_append)
qed

lemma title_run_valid: "utf8_valid (fst st) \<Longrightarrow> utf8_valid (fst (title_append_run st s))"
proof -
  assume v: "utf8_valid (fst st)"
  have "utf8_valid (fst (fold (\<lambda>c st. title_append_bytes st (transcode_byte c)) s st))"
    using v by (induction s arbitrary: st) (simp_all add: title_bytes_valid transcode_valid)
  with v show ?thesis by (simp add: title_append_run_def title_bytes_valid)
qed

lemma title_loop_valid: "utf8_valid (fst st) \<Longrightarrow> utf8_valid (fst (title_loop st s))"
proof (induction st s rule: title_loop.induct)
  case (1 st s)
  define rn rest where "rn = takeWhile (\<lambda>c. c \<noteq> CHR ''&'') s"
    and "rest = dropWhile (\<lambda>c. c \<noteq> CHR ''&'') s"
  define st1 where "st1 = (if rn \<noteq> [] then title_append_run st rn else st)"
  have v: "utf8_valid (fst st1)" using "1.prems" by (simp add: st1_def title_run_valid)
  have IH1: "utf8_valid (fst (title_loop (title_append_bytes st1 e) (drop k rest)))"
    if "s \<noteq> []" "rest \<noteq> []" "decode_entity rest = Some (e, k)" for e k
    using "1.IH"(2) [OF that(1) rn_def rest_def st1_def that(2,3) refl]
      title_bytes_valid [of e st1] decode_entity_valid [OF that(3)] v by simp
  have IH2: "utf8_valid (fst (title_loop (title_append_byte st1 (CHR ''&'')) (tl rest)))"
    if "s \<noteq> []" "rest \<noteq> []" "decode_entity rest = None"
    using "1.IH"(1) [OF that(1) rn_def rest_def st1_def that(2,3)]
      title_byte_ascii [of st1 "CHR ''&''"] v by simp
  have "title_loop st s = (if s = [] then st else if rest = [] then st1
      else case decode_entity rest of
             Some (e, k) \<Rightarrow> title_loop (title_append_bytes st1 e) (drop k rest)
           | None \<Rightarrow> title_loop (title_append_byte st1 (CHR ''&'')) (tl rest))"
    by (subst title_loop.simps) (simp only: Let_def rn_def rest_def st1_def)
  then show ?case using v IH1 IH2 "1.prems" by (auto split: option.split)
qed

lemma append_title_valid: "utf8_valid b \<Longrightarrow> utf8_valid (append_title_text b s)"
  by (simp add: append_title_text_def title_loop_valid)

section \<open>White space collapses\<close>

text \<open>The words of a text: its longest runs without white space.\<close>

function words :: "string \<Rightarrow> string list" where
  "words [] = []"
| "words (c # s) =
     (if is_space c then words s
      else (c # takeWhile (\<lambda>d. \<not> is_space d) s) # words (dropWhile (\<lambda>d. \<not> is_space d) s))"
  by pat_completeness auto
termination
  by (relation "measure length") (auto simp: le_imp_less_Suc length_dropWhile_le)

lemma writer_word_all:
  "\<forall>d \<in> set b. \<not> is_space d \<Longrightarrow> \<not> need_newline w \<Longrightarrow> \<not> ws_pending w \<Longrightarrow>
     w_out (writer_text w b) = w_out w @ b \<and> \<not> need_newline (writer_text w b) \<and>
     \<not> ws_pending (writer_text w b) \<and>
     w_last (writer_text w b) = (if b = [] then w_last w else Some (last b))"
proof (induction b arbitrary: w)
  case (Cons c b)
  have w: "writer_char w c = w\<lparr>ws_pending := False, w_out := w_out w @ [c], w_last := Some c\<rparr>"
    using Cons.prems by (simp add: writer_char_def space_due_def outbuf_append_chr_def)
  then show ?case using Cons.IH [of "writer_char w c"] Cons.prems by (simp add: writer_text_Cons)
qed simp

text \<open>A word that a space must separate from what is there.\<close>

lemma writer_next_word:
  assumes "\<forall>d \<in> set b. \<not> is_space d" "\<not> is_space c" "\<not> need_newline w" "ws_pending w"
    and "w_last w = Some l" "l \<noteq> LF"
  shows "w_out (writer_text w (c # b)) = w_out w @ SP # c # b" "\<not> need_newline (writer_text w (c # b))"
    "\<not> ws_pending (writer_text w (c # b))" "w_last (writer_text w (c # b)) = Some (last (c # b))"
proof -
  have w: "writer_char w c =
      w\<lparr>ws_pending := False, w_out := w_out w @ [SP, c], w_last := Some c\<rparr>"
    using assms by (simp add: writer_char_def space_due_def outbuf_append_chr_def)
  show "w_out (writer_text w (c # b)) = w_out w @ SP # c # b" "\<not> need_newline (writer_text w (c # b))"
    "\<not> ws_pending (writer_text w (c # b))" "w_last (writer_text w (c # b)) = Some (last (c # b))"
    using writer_word_all [of b "writer_char w c"] assms(1,3) w
    by (simp_all add: writer_text_Cons)
qed

lemma space_not_LF: "\<not> is_space c \<Longrightarrow> c \<noteq> LF"
  by (auto simp: is_space_def)

lemma writer_words_after:
  assumes "\<not> need_newline w" "w_last w = Some l" "l \<noteq> LF" "ws_pending w \<or> s = [] \<or> is_space (hd s)"
  shows "w_out (writer_text w s) = w_out w @ concat (map ((#) SP) (words s))"
  using assms
proof (induction s arbitrary: w l rule: words.induct)
  case (2 c s)
  show ?case
  proof (cases "is_space c")
    case True
    then have "writer_char w c = w\<lparr>ws_pending := True\<rparr>" using "2.prems" by (simp add: writer_char_def)
    then show ?thesis using 2 True by (simp add: writer_text_Cons)
  next
    case False
    define b r where "b = takeWhile (\<lambda>d. \<not> is_space d) s" and "r = dropWhile (\<lambda>d. \<not> is_space d) s"
    have b: "\<forall>d \<in> set b. \<not> is_space d" by (auto simp: b_def dest: set_takeWhileD)
    have p: "ws_pending w" using "2.prems"(4) False by simp
    note nw = writer_next_word [OF b False "2.prems"(1) p "2.prems"(2,3)]
    have "last (c # b) \<noteq> LF" using b False space_not_LF by (simp add: last_in_set)
    moreover have "r = [] \<or> is_space (hd r)" using hd_dropWhile [of "\<lambda>d. \<not> is_space d" s] by (auto simp: r_def)
    ultimately have "w_out (writer_text (writer_text w (c # b)) r) =
        (w_out w @ SP # c # b) @ concat (map ((#) SP) (words r))"
      using "2.IH"(2) [OF False, of "writer_text w (c # b)" "last (c # b)"] nw
      by (simp add: r_def [symmetric])
    moreover have "writer_text w (c # s) = writer_text (writer_text w (c # b)) r"
      unfolding writer_text_append [symmetric] by (simp add: b_def r_def)
    moreover have "words (c # s) = (c # b) # words r" using False by (simp add: b_def r_def)
    ultimately show ?thesis by simp
  qed
qed simp

lemma join_with_Cons: "join_with d (v # vs) = v @ concat (map ((#) d) vs)"
  by (induction vs arbitrary: v) auto

lemma count_words_dropWhile:
  "count_words_from True s = count_words_from False (dropWhile (\<lambda>d. \<not> is_space d) s)"
  by (induction s) auto

text \<open>
  The writer collapses white space: whatever text is written into a fresh writer, at once or
  piece by piece, the output is its words, separated by single spaces, with no space before the
  first or behind the last one; and the word count that decides whether an element is kept is
  the number of these words.
\<close>

theorem writer_collapses:
  "w_out (fold (\<lambda>s w. writer_text w s) pieces new_writer) = join_with SP (words (concat pieces)) \<and>
   count_words s = length (words s)"
proof
  have chunks: "fold (\<lambda>s w. writer_text w s) pieces w = writer_text w (concat pieces)" for w
    by (induction pieces arbitrary: w) (simp_all add: writer_text_append)
  have "w_out (writer_text w s) = join_with SP (words s)"
    if "w_out w = []" "\<not> need_newline w" "w_last w = None" for w s using that
  proof (induction s arbitrary: w rule: words.induct)
    case (2 c s)
    show ?case
    proof (cases "is_space c")
      case True
      then have "writer_char w c = w\<lparr>ws_pending := True\<rparr>" using "2.prems" by (simp add: writer_char_def)
      then show ?thesis using 2 True by (simp add: writer_text_Cons)
    next
      case False
      define b r where "b = takeWhile (\<lambda>d. \<not> is_space d) s" and "r = dropWhile (\<lambda>d. \<not> is_space d) s"
      define w1 where "w1 = writer_char w c"
      have w1: "w_out w1 = [c]" "\<not> need_newline w1" "\<not> ws_pending w1" "w_last w1 = Some c"
        using "2.prems" False by (simp_all add: w1_def writer_char_def space_due_def outbuf_append_chr_def)
      have b: "\<forall>d \<in> set b. \<not> is_space d" by (auto simp: b_def dest: set_takeWhileD)
      have w2: "w_out (writer_text w1 b) = c # b" "\<not> need_newline (writer_text w1 b)"
        "w_last (writer_text w1 b) = Some (last (c # b))"
        using writer_word_all [OF b w1(2,3)] w1 by simp_all
      have "last (c # b) \<noteq> LF" using b False space_not_LF by (simp add: last_in_set)
      moreover have "r = [] \<or> is_space (hd r)" using hd_dropWhile [of "\<lambda>d. \<not> is_space d" s] by (auto simp: r_def)
      ultimately have "w_out (writer_text (writer_text w1 b) r) = (c # b) @ concat (map ((#) SP) (words r))"
        using writer_words_after [of "writer_text w1 b" "last (c # b)" r] w2 by simp
      moreover have "writer_text w (c # s) = writer_text (writer_text w1 b) r"
        unfolding writer_text_append [symmetric] by (simp add: writer_text_Cons w1_def b_def r_def)
      moreover have "words (c # s) = (c # b) # words r" using False by (simp add: b_def r_def)
      ultimately show ?thesis by (simp add: join_with_Cons)
    qed
  qed simp
  from this [of new_writer] show "w_out (fold (\<lambda>s w. writer_text w s) pieces new_writer) =
      join_with SP (words (concat pieces))"
    by (simp add: chunks new_writer_def)
  have "count_words_from False s = length (words s)" for s
    by (induction s rule: words.induct) (simp_all add: count_words_dropWhile)
  then show "count_words s = length (words s)" by (simp add: count_words_def)
qed

end
