(* ===== verification/HtmlTags.thy ===== *)
theory HtmlTags
  imports CString
begin

text \<open>
  Tags of a page: their classes (\<open>utils/html_tags.c\<close> with the table of
  \<open>utils/html_internal.h\<close>) and the scan of their attributes (\<open>utils/html_extract.c\<close>).

  A tag is the number of its constant in the enumeration, from 0; the code compares these
  numbers to find the class of a tag. The weights of the tags are used in floating point scores,
  which are not modelled.
\<close>

section \<open>Classes of tags\<close>

definition TAG_FRAME_ARTICLE :: int where "TAG_FRAME_ARTICLE = 0"
definition TAG_FRAME_PRE :: int where "TAG_FRAME_PRE = 12"
definition TAG_FRAME_H1 :: int where "TAG_FRAME_H1 = 25"
definition TAG_FRAME_H6 :: int where "TAG_FRAME_H6 = 30"
definition TAG_EXCL_NAV :: int where "TAG_EXCL_NAV = 31"
definition TAG_EXCL_SCRIPT :: int where "TAG_EXCL_SCRIPT = 35"
definition TAG_EXCL_STYLE :: int where "TAG_EXCL_STYLE = 36"
definition TAG_EXCL_SVG :: int where "TAG_EXCL_SVG = 41"
definition TAG_SPECIAL_A :: int where "TAG_SPECIAL_A = 42"
definition TAG_SPECIAL_TITLE :: int where "TAG_SPECIAL_TITLE = 43"
definition TAG_VOID_NL_BR :: int where "TAG_VOID_NL_BR = 47"
definition TAG_VOID_NL_HR :: int where "TAG_VOID_NL_HR = 48"
definition TAG_UNKNOWN :: int where "TAG_UNKNOWN = 60"

definition TAG_TABLE :: "(string \<times> int) list" where
  "TAG_TABLE =
    [(''a'', TAG_SPECIAL_A), (''address'', 24), (''area'', 53), (''article'', TAG_FRAME_ARTICLE),
     (''aside'', 34), (''base'', 54), (''blockquote'', 11), (''body'', 45),
     (''br'', TAG_VOID_NL_BR), (''col'', 55), (''dd'', 10), (''details'', 22), (''div'', 3),
     (''dl'', 8), (''dt'', 9), (''embed'', 56), (''figcaption'', 21), (''figure'', 20),
     (''footer'', 32), (''form'', 37), (''h1'', TAG_FRAME_H1), (''h2'', 26), (''h3'', 27),
     (''h4'', 28), (''h5'', 29), (''h6'', TAG_FRAME_H6), (''head'', 46), (''header'', 33),
     (''hr'', TAG_VOID_NL_HR), (''html'', 44), (''iframe'', 38), (''img'', 49), (''input'', 52),
     (''li'', 7), (''link'', 51), (''main'', 2), (''meta'', 50), (''nav'', TAG_EXCL_NAV),
     (''noscript'', 39), (''ol'', 6), (''p'', 4), (''pre'', TAG_FRAME_PRE),
     (''script'', TAG_EXCL_SCRIPT), (''section'', 1), (''source'', 57), (''span'', TAG_UNKNOWN),
     (''style'', TAG_EXCL_STYLE), (''summary'', 23), (''svg'', TAG_EXCL_SVG), (''table'', 13),
     (''tbody'', 15), (''td'', 18), (''template'', 40), (''tfoot'', 16), (''th'', 19),
     (''thead'', 14), (''title'', TAG_SPECIAL_TITLE), (''tr'', 17), (''track'', 58), (''ul'', 5),
     (''wbr'', 59)]"

definition tag_lookup :: "string \<Rightarrow> int" where
  "tag_lookup name =
     (if length name = 0 \<or> length name \<ge> 32 then TAG_UNKNOWN
      else case find (\<lambda>e. fst e = cstr (lower name)) TAG_TABLE of
             None \<Rightarrow> TAG_UNKNOWN | Some e \<Rightarrow> snd e)"

definition is_frame_tag :: "int \<Rightarrow> bool" where
  "is_frame_tag tid \<longleftrightarrow> tid \<ge> TAG_FRAME_ARTICLE \<and> tid \<le> TAG_FRAME_H6"

definition is_excluded_tag :: "int \<Rightarrow> bool" where
  "is_excluded_tag tid \<longleftrightarrow> tid \<ge> TAG_EXCL_NAV \<and> tid \<le> TAG_EXCL_SVG"

definition is_header_tag :: "int \<Rightarrow> bool" where
  "is_header_tag tid \<longleftrightarrow> tid \<ge> TAG_FRAME_H1 \<and> tid \<le> TAG_FRAME_H6"

definition NEG_PATTERNS :: "string list" where
  "NEG_PATTERNS = [''nav'', ''footer'', ''header'', ''sidebar'', ''ads'', ''comment'',
     ''promo'', ''advert'', ''social'', ''share'']"

definition has_neg_pattern :: "string \<Rightarrow> bool" where
  "has_neg_pattern s = list_ex (has_sub (lower s)) NEG_PATTERNS"

section \<open>Attributes\<close>

definition ieq :: "string \<Rightarrow> string \<Rightarrow> bool" where
  "ieq a b \<longleftrightarrow> length a = length b \<and> lower a = lower b"

definition name_end :: "char \<Rightarrow> bool" where
  "name_end c \<longleftrightarrow> is_space c \<or> c = CHR ''/''"

text \<open>The value after the equals sign and what follows it.\<close>

definition attr_val :: "string \<Rightarrow> string \<times> string" where
  "attr_val t =
     (case t of
        q # r \<Rightarrow>
          if q = DQUOTE \<or> q = CHR 0x27
          then (takeWhile (\<lambda>c. c \<noteq> q) r, tl (dropWhile (\<lambda>c. c \<noteq> q) r))
          else (takeWhile (\<lambda>c. \<not> name_end c) t, dropWhile (\<lambda>c. \<not> name_end c) t)
      | [] \<Rightarrow> ([], []))"

lemma attr_val_rest: "length (snd (attr_val t)) \<le> length t"
proof (cases t)
  case (Cons q r)
  have "length (tl (dropWhile (\<lambda>c. c \<noteq> q) r)) \<le> length r"
    using length_dropWhile_le [of "\<lambda>c. c \<noteq> q" r] by simp
  then show ?thesis
    using length_dropWhile_le [of "\<lambda>c. \<not> name_end c" t] Cons by (auto simp: attr_val_def)
qed (simp add: attr_val_def)

text \<open>Every round consumes something: the name, or the equals sign when there is no name.\<close>

lemma attr_progress:
  assumes "s1 = dropWhile name_end s" "s1 \<noteq> []"
    and "s2 = dropWhile is_space (dropWhile (\<lambda>c. \<not> name_end c \<and> c \<noteq> CHR ''='') s1)"
  shows "length s2 \<le> length s \<and> (s2 = [] \<or> hd s2 \<noteq> CHR ''='' \<longrightarrow> length s2 < length s)"
proof -
  define s3 where "s3 = dropWhile (\<lambda>c. \<not> name_end c \<and> c \<noteq> CHR ''='') s1"
  have le: "length s2 \<le> length s3" "length s3 \<le> length s1" "length s1 \<le> length s"
    unfolding assms(1,3) s3_def by (simp_all add: length_dropWhile_le)
  obtain c cs where c: "s1 = c # cs" using assms(2) by (cases s1) auto
  have "\<not> name_end (hd s1)" using hd_dropWhile [of name_end s] assms(1,2) by simp
  then have "\<not> name_end c" using c by simp
  show ?thesis
  proof (cases "c = CHR ''=''")
    case True
    then have "s2 = s1" using c by (simp add: assms(3) is_space_def)
    with True c le show ?thesis by simp
  next
    case False
    then have "s3 = dropWhile (\<lambda>c. \<not> name_end c \<and> c \<noteq> CHR ''='') cs"
      using c \<open>\<not> name_end c\<close> by (simp add: s3_def)
    then have "length s3 < length s1" using c length_dropWhile_le
      by (metis le_imp_less_Suc length_Cons)
    with le show ?thesis by simp
  qed
qed

text \<open>The attributes that have a value, in order, of the text after the name of the tag.\<close>

function attr_list :: "string \<Rightarrow> (string \<times> string) list" where
  "attr_list s =
     (let s1 = dropWhile name_end s
      in if s1 = [] then []
         else let aname = takeWhile (\<lambda>c. \<not> name_end c \<and> c \<noteq> CHR ''='') s1;
                  s2 = dropWhile is_space (dropWhile (\<lambda>c. \<not> name_end c \<and> c \<noteq> CHR ''='') s1)
              in if s2 \<noteq> [] \<and> hd s2 = CHR ''=''
                 then (aname, fst (attr_val (dropWhile is_space (tl s2)))) #
                      attr_list (snd (attr_val (dropWhile is_space (tl s2))))
                 else attr_list s2)"
  by auto
termination
proof (relation "measure length", goal_cases)
  case (2 s s1 aname s2)
  define t where "t = dropWhile is_space (tl s2)"
  have "length t \<le> length (tl s2)" unfolding t_def by (rule length_dropWhile_le)
  moreover have "length (tl s2) < length s2" using 2 by (cases s2) auto
  moreover have "length s2 \<le> length s" using attr_progress [of s1 s s2] 2 by simp
  ultimately show ?case using attr_val_rest [of t] by (simp add: t_def)
next
  case (3 s s1 aname s2)
  then show ?case using attr_progress [of s1 s s2] by auto
qed simp

declare attr_list.simps [simp del]

text \<open>The last value of an attribute, cut to the size of its buffer; empty if there is none.\<close>

definition scan_attrs :: "string \<Rightarrow> string \<Rightarrow> nat \<Rightarrow> string" where
  "scan_attrs s wanted cap =
     (case filter (\<lambda>(a, v). ieq a wanted) (attr_list (dropWhile (\<lambda>c. \<not> name_end c) s)) of
        [] \<Rightarrow> []
      | avs \<Rightarrow> take (cap - 1) (snd (last avs)))"

lemma scan_attrs_length: "0 < cap \<Longrightarrow> length (scan_attrs s wanted cap) < cap"
  by (auto simp: scan_attrs_def split: list.split)

end
