(* ===== verification/HtmlExtract.thy ===== *)
theory HtmlExtract
  imports HtmlText HtmlTags
begin

text \<open>
  The parse loop of the page extraction (\<open>utils/html_extract.c\<close>): text runs, frames that are
  kept or rolled back when they close, links, and the markup that is skipped.

  The stack of frames is a list with the innermost frame first; its last element is the root, so
  \<open>depth\<close> is its length. The links are the list of their addresses. A position is an index
  into the raw bytes, and a slice is the text between two positions. Whether the floating point
  score of a closed frame is under the threshold is the argument \<open>low_score\<close>.
\<close>

definition MAX_FRAME_DEPTH :: nat where "MAX_FRAME_DEPTH = 64"
definition MAX_LINKS :: nat where "MAX_LINKS = 20"
definition MAX_HREF_LEN :: nat where "MAX_HREF_LEN = 2048"
definition MAX_ATTR_LEN :: nat where "MAX_ATTR_LEN = 256"
definition MIN_CONTENT_WORDS :: nat where "MIN_CONTENT_WORDS = 4"

record frame =
  tag_id :: int
  start_pos :: nat
  end_pos :: nat
  text_len :: nat
  link_text_len :: nat
  word_count :: nat
  out_start :: nat
  link_at_open :: nat
  class_neg :: bool
  is_pre :: bool
  is_header :: bool

record extraction =
  x_w :: writer
  x_frames :: "frame list"
  skip_depth :: nat
  raw_tag :: string
  x_title :: string
  title_active :: bool
  link_url :: string
  link_active :: bool
  link_has_text :: bool
  x_links :: "string list"

definition new_frame :: "int \<Rightarrow> frame" where
  "new_frame tid =
     \<lparr>tag_id = tid, start_pos = 0, end_pos = 0, text_len = 0, link_text_len = 0, word_count = 0,
      out_start = 0, link_at_open = 0, class_neg = False, is_pre = False, is_header = False\<rparr>"

definition new_extraction :: extraction where
  "new_extraction =
     \<lparr>x_w = new_writer, x_frames = [new_frame (-1)], skip_depth = 0, raw_tag = [], x_title = [],
      title_active = False, link_url = [], link_active = False, link_has_text = False,
      x_links = []\<rparr>"

definition slice :: "string \<Rightarrow> nat \<Rightarrow> nat \<Rightarrow> string" where
  "slice raw i j = take (j - i) (drop i raw)"

section \<open>Text\<close>

text \<open>The writer, the two lengths of the frame, and whether the link has text.\<close>

type_synonym emit_state = "writer \<times> nat \<times> nat \<times> bool"

definition emit_counted ::
  "bool \<Rightarrow> bool \<Rightarrow> nat \<Rightarrow> bool \<Rightarrow> string \<Rightarrow> emit_state \<Rightarrow> emit_state" where
  "emit_counted pre in_link n visible s st =
     (case st of (w, tlen, llen, has) \<Rightarrow>
        (emit_text_run w s pre, tlen + n, if in_link then llen + n else llen,
         has \<or> (in_link \<and> visible)))"

definition plain :: "char \<Rightarrow> bool" where
  "plain c \<longleftrightarrow> c \<noteq> CHR ''&'' \<and> c \<noteq> CHR ''<''"

lemma after_entity_plain:
  "decode_entity (dropWhile plain s) = Some (e, k) \<Longrightarrow> dropWhile plain s \<noteq> [] \<Longrightarrow>
     length (dropWhile plain s) - k < length s"
  by (rule after_entity)

function emit_loop :: "bool \<Rightarrow> bool \<Rightarrow> emit_state \<Rightarrow> string \<Rightarrow> emit_state" where
  "emit_loop pre in_link st s =
     (if s = [] then st
      else let rn = takeWhile plain s;
               rest = dropWhile plain s;
               st1 = (if rn \<noteq> [] then emit_counted pre in_link (length rn) (run_has_nonws rn) rn st
                      else st)
           in if rest = [] then st1
              else if hd rest = CHR ''&''
              then (case decode_entity rest of
                      Some (e, consumed) \<Rightarrow>
                        emit_loop pre in_link (emit_counted pre in_link 1 (run_has_nonws e) e st1)
                          (drop consumed rest)
                    | None \<Rightarrow>
                        emit_loop pre in_link (emit_counted pre in_link 1 True ''&'' st1) (tl rest))
              else emit_loop pre in_link st1 (tl rest))"
  by auto
termination
  by (relation "measure (\<lambda>(pre, in_link, st, s). length s)")
    (auto intro: after_entity after_amp simp del: dropWhile_eq_Nil_conv)

declare emit_loop.simps [simp del]

definition emit_text :: "extraction \<Rightarrow> string \<Rightarrow> extraction" where
  "emit_text x s =
     (if s = [] then x
      else if title_active x then x\<lparr>x_title := append_title_text (x_title x) s\<rparr>
      else let top = hd (x_frames x);
               w = (if is_pre top then writer_preflush (x_w x) else x_w x);
               (w', tlen, llen, has) =
                 emit_loop (is_pre top) (link_active x)
                   (w, text_len top, link_text_len top, link_has_text x) s
           in x\<lparr>x_w := w', link_has_text := has,
                x_frames := top\<lparr>word_count := word_count top + count_words s,
                                text_len := tlen, link_text_len := llen\<rparr> # tl (x_frames x)\<rparr>)"

section \<open>Frames and links\<close>

definition frame_close :: "(frame \<Rightarrow> bool) \<Rightarrow> extraction \<Rightarrow> nat \<Rightarrow> extraction" where
  "frame_close low_score x pos =
     (case x_frames x of
        f0 # p # rest \<Rightarrow>
          let f = f0\<lparr>end_pos := pos\<rparr>;
              parent = p\<lparr>text_len := text_len p + text_len f,
                         link_text_len := link_text_len p + link_text_len f,
                         word_count := word_count p + word_count f\<rparr>;
              min_words = (if is_header f then 0 else MIN_CONTENT_WORDS);
              x1 = x\<lparr>x_frames := parent # rest\<rparr>
          in if low_score f \<or> word_count f < min_words
             then x1\<lparr>x_w := writer_sync_state
                               ((x_w x1)\<lparr>w_out := outbuf_truncate (w_out (x_w x1)) (out_start f)\<rparr>),
                     x_links := take (link_at_open f) (x_links x1)\<rparr>
             else x1
      | _ \<Rightarrow> x)"

definition link_resolve_index :: "extraction \<Rightarrow> string \<Rightarrow> int \<times> extraction" where
  "link_resolve_index x url =
     (if url = [] then (-1, x)
      else if hd url = CHR ''#'' then (-1, x)
      else if length url \<ge> 11 \<and> take 11 url = ''javascript:'' then (-1, x)
      else case find_index (\<lambda>l. cstr l = url) (x_links x) of
             Some i \<Rightarrow> (int i, x)
           | None \<Rightarrow> if length (x_links x) \<ge> MAX_LINKS then (-1, x)
                     else (int (length (x_links x)), x\<lparr>x_links := x_links x @ [url]\<rparr>))"

text \<open>The end of a tag from a position on, outside quotes.\<close>

fun tag_end_from :: "char option \<Rightarrow> string \<Rightarrow> nat option" where
  "tag_end_from quote [] = None"
| "tag_end_from quote (c # cs) =
     (case quote of
        Some q \<Rightarrow> map_option Suc (tag_end_from (if c = q then None else Some q) cs)
      | None \<Rightarrow>
          if c = DQUOTE \<or> c = CHR 0x27 then map_option Suc (tag_end_from (Some c) cs)
          else if c = CHR ''>'' then Some 0
          else map_option Suc (tag_end_from None cs))"

definition find_tag_end :: "string \<Rightarrow> nat \<Rightarrow> nat" where
  "find_tag_end raw start =
     (case tag_end_from None (drop start raw) of None \<Rightarrow> length raw | Some k \<Rightarrow> start + k)"

definition find_seq :: "string \<Rightarrow> nat \<Rightarrow> string \<Rightarrow> nat" where
  "find_seq raw start pat =
     (if length pat > length raw \<or> start > length raw then length raw
      else case strstr_at (drop start raw) pat of None \<Rightarrow> length raw | Some k \<Rightarrow> start + k)"

section \<open>Tags\<close>

text \<open>The text of the tag after its opening angle bracket, and the position of its end.\<close>

definition handle_open_tag :: "extraction \<Rightarrow> string \<Rightarrow> nat \<Rightarrow> extraction" where
  "handle_open_tag x s tag_end =
     (let name = takeWhile (\<lambda>c. \<not> is_space c \<and> c \<noteq> CHR ''/'' \<and> c \<noteq> CHR ''>'') s;
          tid = tag_lookup name;
          self_closing = s \<noteq> [] \<and> last s = CHR ''/''
      in if is_excluded_tag tid
         then x\<lparr>skip_depth := skip_depth x + 1,
                raw_tag := (if tid = TAG_EXCL_SCRIPT \<or> tid = TAG_EXCL_STYLE then name
                            else raw_tag x)\<rparr>
         else if tid = TAG_SPECIAL_TITLE
         then (if skip_depth x = 0 then x\<lparr>title_active := True\<rparr> else x)
         else if skip_depth x > 0 then x
         else if tid = TAG_VOID_NL_BR \<or> tid = TAG_VOID_NL_HR
         then x\<lparr>x_w := writer_newline (x_w x)\<rparr>
         else if tid = TAG_SPECIAL_A
         then (if self_closing then x
               else x\<lparr>link_url := scan_attrs s ''href'' MAX_HREF_LEN, link_active := True,
                      link_has_text := False\<rparr>)
         else if is_frame_tag tid
         then (if self_closing \<or> length (x_frames x) \<ge> MAX_FRAME_DEPTH then x
               else let f = (new_frame tid)
                          \<lparr>start_pos := tag_end + 1, out_start := length (w_out (x_w x)),
                           link_at_open := length (x_links x), is_pre := (tid = TAG_FRAME_PRE),
                           is_header := is_header_tag tid,
                           class_neg := has_neg_pattern (scan_attrs s ''class'' MAX_ATTR_LEN) \<or>
                                        has_neg_pattern (scan_attrs s ''id'' MAX_ATTR_LEN)\<rparr>
                    in x\<lparr>x_frames := f # x_frames x, x_w := writer_newline (x_w x)\<rparr>)
         else x)"

text \<open>Closing the frames above and including the matching one, innermost first.\<close>

fun close_frames :: "(frame \<Rightarrow> bool) \<Rightarrow> nat \<Rightarrow> nat \<Rightarrow> extraction \<Rightarrow> extraction" where
  "close_frames low_score pos 0 x = x"
| "close_frames low_score pos (Suc n) x = close_frames low_score pos n (frame_close low_score x pos)"

definition handle_close_tag ::
  "(frame \<Rightarrow> bool) \<Rightarrow> extraction \<Rightarrow> string \<Rightarrow> nat \<Rightarrow> extraction" where
  "handle_close_tag low_score x s tag_start =
     (let tid = tag_lookup (takeWhile (\<lambda>c. \<not> is_space c \<and> c \<noteq> CHR ''>'') s)
      in if tid = TAG_SPECIAL_A
         then (if \<not> link_active x then x
               else let x1 = x\<lparr>link_active := False\<rparr>
                    in if \<not> link_has_text x1 then x1
                       else let (idx, x2) = link_resolve_index x1 (link_url x1)
                            in if idx < 0 then x2
                               else x2\<lparr>x_w := writer_text (x_w x2)
                                        ('' ['' @ dec_nat (nat idx + 1) @ '']'')\<rparr>)
         else if tid = TAG_SPECIAL_TITLE then x\<lparr>title_active := False\<rparr>
         else if is_excluded_tag tid
         then (if skip_depth x > 0 then x\<lparr>skip_depth := skip_depth x - 1\<rparr> else x)
         else if is_frame_tag tid
         then (case find_index (\<lambda>f. tag_id f = tid) (butlast (x_frames x)) of
                 None \<Rightarrow> x
               | Some k \<Rightarrow> close_frames low_score tag_start (k + 1) x)
         else x)"

section \<open>The parse loop\<close>

text \<open>After a search that found \<open>k\<close>: behind the match, or at the end.\<close>

definition skip_to :: "string \<Rightarrow> nat \<Rightarrow> nat \<Rightarrow> nat" where
  "skip_to raw k n = (if k \<noteq> length raw then k + n else length raw)"

definition parse_step :: "(frame \<Rightarrow> bool) \<Rightarrow> string \<Rightarrow> extraction \<Rightarrow> nat \<Rightarrow> extraction \<times> nat" where
  "parse_step low_score raw x i =
     (if raw ! i = CHR ''<'' \<and> skip_depth x > 0 \<and> raw_tag x \<noteq> []
      then (case strstr_at (drop i raw) (''</'' @ raw_tag x) of
              None \<Rightarrow> (x\<lparr>skip_depth := 0, raw_tag := []\<rparr>, length raw)
            | Some k \<Rightarrow>
                let te = find_tag_end raw (i + k + 1)
                in (x\<lparr>skip_depth := skip_depth x - 1, raw_tag := []\<rparr>,
                    if te = length raw then length raw else te + 1))
      else if raw ! i \<noteq> CHR ''<''
      then let j = i + length (takeWhile (\<lambda>c. c \<noteq> CHR ''<'') (drop i raw))
           in (if skip_depth x = 0 then emit_text x (slice raw i j) else x, j)
      else if i + 1 < length raw \<and> raw ! (i + 1) = CHR ''!''
      then (x, if i + 3 < length raw \<and> raw ! (i + 2) = CHR ''-'' \<and> raw ! (i + 3) = CHR ''-''
               then skip_to raw (find_seq raw (i + 4) ''-->'') 3
               else if i + 8 < length raw \<and> take 7 (drop (i + 2) raw) = ''[CDATA[''
               then skip_to raw (find_seq raw (i + 9) '']]>'') 3
               else skip_to raw (find_seq raw (i + 2) ''>'') 1)
      else if i + 1 < length raw \<and> raw ! (i + 1) = CHR ''?''
      then (x, skip_to raw (find_seq raw (i + 2) ''>'') 1)
      else let te = find_tag_end raw (i + 1)
           in if te = length raw
              then (if skip_depth x = 0 then emit_text x (slice raw i (i + 1)) else x, i + 1)
              else (if te > i + 1 \<and> raw ! (i + 1) = CHR ''/''
                    then handle_close_tag low_score x (slice raw (i + 2) te) i
                    else handle_open_tag x (slice raw (i + 1) te) te, te + 1))"

text \<open>Every step makes progress, so the loop ends.\<close>

lemma find_tag_end_ge: "start \<le> length raw \<Longrightarrow> start \<le> find_tag_end raw start"
  by (simp add: find_tag_end_def split: option.split)

lemma find_seq_ge: "find_seq raw start pat = length raw \<or> start \<le> find_seq raw start pat"
  by (simp add: find_seq_def split: option.split)

lemma skip_to_gt:
  assumes "i < length raw" "i < start" "0 < n"
  shows "i < skip_to raw (find_seq raw start pat) n"
  using assms find_seq_ge [of raw start pat] by (auto simp: skip_to_def)

lemma parse_step_progress: "i < length raw \<Longrightarrow> i < snd (parse_step low_score raw x i)"
proof -
  assume i: "i < length raw"
  have run: "i < i + length (takeWhile (\<lambda>c. c \<noteq> CHR ''<'') (drop i raw))" if "raw ! i \<noteq> CHR ''<''"
    using that i by (simp add: Cons_nth_drop_Suc [symmetric])
  have te: "i < find_tag_end raw (i + k + 1) + 1" if "strstr_at (drop i raw) p = Some k" for p k
  proof -
    have "k + length p \<le> length (drop i raw)" using strstr_at_Some [OF that] by simp
    then show ?thesis using i by (simp add: find_tag_end_def split: option.split)
  qed
  have te1: "i < find_tag_end raw (i + 1) + 1"
    using find_tag_end_ge [of "i + 1" raw] i by simp
  show ?thesis
    using i run te te1 skip_to_gt [OF i]
    by (simp add: parse_step_def Let_def split: option.split)
qed

function parse_loop :: "(frame \<Rightarrow> bool) \<Rightarrow> string \<Rightarrow> extraction \<Rightarrow> nat \<Rightarrow> extraction" where
  "parse_loop low_score raw x i =
     (if i < length raw
      then case parse_step low_score raw x i of (x1, i1) \<Rightarrow> parse_loop low_score raw x1 i1
      else x)"
  by auto
termination
proof (relation "measure (\<lambda>(ls, raw, x, i). length raw - i)", goal_cases)
  case (2 low_score raw x i x1 i1)
  then have "i < i1" using parse_step_progress [of i raw low_score x] by (metis snd_conv)
  then show ?case using 2(1) by (simp add: 2(2) [symmetric])
qed simp

declare parse_loop.simps [simp del]

text \<open>The frames that are still open are closed at the end.\<close>

definition parse :: "(frame \<Rightarrow> bool) \<Rightarrow> string \<Rightarrow> extraction" where
  "parse low_score raw =
     (let x = parse_loop low_score raw new_extraction 0
      in close_frames low_score (length raw) (length (x_frames x) - 1) x)"

section \<open>Writing only appends\<close>

text \<open>The output only grows, and stays UTF-8 if it was.\<close>

definition grows :: "writer \<Rightarrow> writer \<Rightarrow> bool" where
  "grows w w' \<longleftrightarrow> prefix (w_out w) (w_out w') \<and> (utf8_valid (w_out w) \<longrightarrow> utf8_valid (w_out w'))"

lemma grows_refl [simp]: "grows w w"
  by (simp add: grows_def)

lemma grows_trans [trans]: "grows a b \<Longrightarrow> grows b c \<Longrightarrow> grows a c"
  unfolding grows_def using prefix_order.trans by blast

lemma grows_newline [simp]: "grows w (writer_newline w)"
  by (simp add: grows_def writer_newline_def)

lemma grows_preflush [simp]: "grows w (writer_preflush w)"
  by (simp add: grows_def preflush_facts)

lemma grows_run [simp]: "grows w (emit_text_run w s pre)"
  by (simp add: grows_def emit_run_facts)

lemma grows_text: "utf8_valid s \<Longrightarrow> grows w (writer_text w s)"
  by (simp add: grows_def writer_text_prefix writer_text_valid)

lemma grows_counted: "grows (fst st) (fst (emit_counted pre in_link n visible s st))"
  by (simp add: emit_counted_def split: prod.split)

lemma emit_loop_grows: "grows (fst st) (fst (emit_loop pre in_link st s))"
proof (induction pre in_link st s rule: emit_loop.induct)
  case (1 pre in_link st s)
  define rn rest where "rn = takeWhile plain s" and "rest = dropWhile plain s"
  define st1 where "st1 = (if rn \<noteq> [] then emit_counted pre in_link (length rn) (run_has_nonws rn) rn st
    else st)"
  have g: "grows (fst st) (fst st1)" by (simp add: st1_def grows_counted)
  have IH1: "grows (fst st1) (fst (emit_loop pre in_link
      (emit_counted pre in_link 1 (run_has_nonws e) e st1) (drop k rest)))"
    if "s \<noteq> []" "rest \<noteq> []" "hd rest = CHR ''&''" "decode_entity rest = Some (e, k)" for e k
    using "1.IH"(2) [OF that(1) rn_def rest_def st1_def that(2,3,4) refl] grows_counted grows_trans by blast
  have IH2: "grows (fst st1) (fst (emit_loop pre in_link
      (emit_counted pre in_link 1 True ''&'' st1) (tl rest)))"
    if "s \<noteq> []" "rest \<noteq> []" "hd rest = CHR ''&''" "decode_entity rest = None"
    using "1.IH"(1) [OF that(1) rn_def rest_def st1_def that(2,3,4)] grows_counted grows_trans by blast
  have IH3: "grows (fst st1) (fst (emit_loop pre in_link st1 (tl rest)))"
    if "s \<noteq> []" "rest \<noteq> []" "hd rest \<noteq> CHR ''&''"
    using "1.IH"(3) [OF that(1) rn_def rest_def st1_def that(2,3)] .
  have eq: "emit_loop pre in_link st s = (if s = [] then st else if rest = [] then st1
      else if hd rest = CHR ''&''
      then (case decode_entity rest of
              Some (e, k) \<Rightarrow> emit_loop pre in_link
                (emit_counted pre in_link 1 (run_has_nonws e) e st1) (drop k rest)
            | None \<Rightarrow> emit_loop pre in_link (emit_counted pre in_link 1 True ''&'' st1) (tl rest))
      else emit_loop pre in_link st1 (tl rest))"
    by (subst emit_loop.simps) (simp only: Let_def rn_def rest_def st1_def)
  show ?case unfolding eq using grows_trans [OF g IH1] grows_trans [OF g IH2] grows_trans [OF g IH3] g
    by (auto split: option.split)
qed

section \<open>The invariant\<close>

text \<open>The marks of a frame: the lengths of the output and of the links when it was opened.\<close>

definition marks :: "frame list \<Rightarrow> (nat \<times> nat) list" where
  "marks fs = map (\<lambda>f. (out_start f, link_at_open f)) fs"

definition marks_ok :: "string \<Rightarrow> nat \<Rightarrow> (nat \<times> nat) list \<Rightarrow> bool" where
  "marks_ok out n ms \<longleftrightarrow>
     (\<forall>(p, k) \<in> set ms. p \<le> length out \<and> k \<le> n \<and> utf8_valid (take p out)) \<and>
     sorted_wrt (\<lambda>m m'. fst m' \<le> fst m \<and> snd m' \<le> snd m) ms"

text \<open>
  The arrays of the code are within their bounds, the marks are nested, and output and title
  are UTF-8, also when the output is cut back to a mark.
\<close>

definition extraction_inv :: "extraction \<Rightarrow> bool" where
  "extraction_inv x \<longleftrightarrow>
     x_frames x \<noteq> [] \<and> length (x_frames x) \<le> MAX_FRAME_DEPTH \<and>
     length (x_links x) \<le> MAX_LINKS \<and> length (link_url x) < MAX_HREF_LEN \<and>
     (\<forall>l \<in> set (x_links x). length l < MAX_HREF_LEN) \<and>
     marks_ok (w_out (x_w x)) (length (x_links x)) (marks (x_frames x)) \<and>
     utf8_valid (w_out (x_w x)) \<and> utf8_valid (x_title x)"

lemma marks_simps [simp]:
  "marks [] = []"
  "marks (f # fs) = (out_start f, link_at_open f) # marks fs"
  by (simp_all add: marks_def)

lemma marks_ok_grow:
  assumes "marks_ok out n ms" "prefix out out'" "n \<le> n'"
  shows "marks_ok out' n' ms"
proof -
  obtain z where "out' = out @ z" using assms(2) by (auto simp: prefix_def)
  then show ?thesis using assms(1,3) by (fastforce simp: marks_ok_def)
qed

lemma marks_ok_tl: "marks_ok out n (m # ms) \<Longrightarrow> marks_ok out n ms"
  by (simp add: marks_ok_def)

lemma marks_ok_cut:
  assumes "marks_ok out n ((p, k) # ms)"
  shows "marks_ok (take p out) k ms" "p \<le> length out" "k \<le> n" "utf8_valid (take p out)"
  using assms by (fastforce simp: marks_ok_def min_def)+

lemma marks_ok_open:
  "marks_ok out n ms \<Longrightarrow> utf8_valid out \<Longrightarrow> marks_ok out n ((length out, n) # ms)"
  by (fastforce simp: marks_ok_def)

lemma extraction_inv_new: "extraction_inv new_extraction"
  by (simp add: extraction_inv_def new_extraction_def new_frame_def new_writer_def marks_ok_def
      MAX_FRAME_DEPTH_def MAX_LINKS_def MAX_HREF_LEN_def)

text \<open>Steps that only write, and leave the frames' marks alone, keep the invariant.\<close>

lemma inv_write:
  assumes "extraction_inv x" "grows (x_w x) (x_w y)" "marks (x_frames y) = marks (x_frames x)"
    and "x_links y = x_links x" "length (link_url y) < MAX_HREF_LEN" "utf8_valid (x_title y)"
  shows "extraction_inv y"
proof -
  have "length (x_frames y) = length (x_frames x)"
    using arg_cong [OF assms(3), of length] by (simp add: marks_def)
  then have "x_frames y \<noteq> []" "length (x_frames y) \<le> MAX_FRAME_DEPTH"
    using assms(1) by (auto simp: extraction_inv_def)
  moreover have "marks_ok (w_out (x_w y)) (length (x_links y)) (marks (x_frames y))"
    using marks_ok_grow [of "w_out (x_w x)" "length (x_links x)" "marks (x_frames x)" "w_out (x_w y)"] assms
    by (simp add: extraction_inv_def grows_def)
  ultimately show ?thesis using assms by (simp add: extraction_inv_def grows_def)
qed

lemma inv_link_url: "extraction_inv x \<Longrightarrow> length (link_url x) < MAX_HREF_LEN"
  by (simp add: extraction_inv_def)

lemma inv_title: "extraction_inv x \<Longrightarrow> utf8_valid (x_title x)"
  by (simp add: extraction_inv_def)

text \<open>What a text run can change.\<close>

lemma emit_text_facts:
  assumes "x_frames x \<noteq> []"
  shows "grows (x_w x) (x_w (emit_text x s))"
    and "marks (x_frames (emit_text x s)) = marks (x_frames x)"
    and "x_links (emit_text x s) = x_links x" "link_url (emit_text x s) = link_url x"
    and "utf8_valid (x_title x) \<Longrightarrow> utf8_valid (x_title (emit_text x s))"
proof -
  obtain f fs where fs: "x_frames x = f # fs" using assms by (cases "x_frames x") auto
  define w where "w = (if is_pre f then writer_preflush (x_w x) else x_w x)"
  obtain w' t l h where e: "emit_loop (is_pre f) (link_active x)
      (w, text_len f, link_text_len f, link_has_text x) s = (w', t, l, h)"
    by (cases "emit_loop (is_pre f) (link_active x)
      (w, text_len f, link_text_len f, link_has_text x) s")
  have "grows (x_w x) w" by (simp add: w_def)
  also have "grows w w'" using emit_loop_grows [of "(w, text_len f, link_text_len f, link_has_text x)"
    "is_pre f" "link_active x" s] by (simp add: e)
  finally have g: "grows (x_w x) w'" .
  show "grows (x_w x) (x_w (emit_text x s))"
    and "marks (x_frames (emit_text x s)) = marks (x_frames x)"
    and "x_links (emit_text x s) = x_links x" "link_url (emit_text x s) = link_url x"
    and "utf8_valid (x_title x) \<Longrightarrow> utf8_valid (x_title (emit_text x s))"
    using g by (simp_all add: emit_text_def fs Let_def w_def [symmetric] e append_title_valid)
qed

lemma inv_frames: "extraction_inv x \<Longrightarrow> x_frames x \<noteq> []"
  by (simp add: extraction_inv_def)

lemma emit_text_inv: "extraction_inv x \<Longrightarrow> extraction_inv (emit_text x s)"
  by (rule inv_write) (simp_all add: emit_text_facts inv_frames inv_link_url inv_title)

lemma sync_grows: "w_out (writer_sync_state w) = w_out w"
  by (simp add: writer_sync_state_def)

lemma truncate_take: "outbuf_truncate b n = take n b"
  by (simp add: outbuf_truncate_def)

lemma frame_close_inv:
  assumes "extraction_inv x"
  shows "extraction_inv (frame_close ls x pos)"
proof (cases "x_frames x" rule: remdups_adj.cases)
  case (3 f p rest)
  have m: "marks_ok (w_out (x_w x)) (length (x_links x)) ((out_start f, link_at_open f) # marks (p # rest))"
    using assms by (simp add: extraction_inv_def 3)
  note cut = marks_ok_cut [OF m]
  show ?thesis
    using assms cut marks_ok_tl [OF m] set_take_subset [of "link_at_open f" "x_links x"]
    by (auto simp: frame_close_def 3 Let_def extraction_inv_def sync_grows truncate_take min_def)
qed (simp_all add: frame_close_def assms)

lemma close_frames_inv: "extraction_inv x \<Longrightarrow> extraction_inv (close_frames ls pos n x)"
  by (induction n arbitrary: x) (simp_all add: frame_close_inv)

lemma link_resolve_facts:
  assumes "link_resolve_index x url = (i, y)"
  shows "x_w y = x_w x" "x_frames y = x_frames x" "link_url y = link_url x" "x_title y = x_title x"
    and "prefix (x_links x) (x_links y)"
    and "length (x_links x) \<le> MAX_LINKS \<Longrightarrow> length (x_links y) \<le> MAX_LINKS"
    and "set (x_links y) \<subseteq> insert url (set (x_links x))"
  using assms by (auto simp: link_resolve_index_def split: if_splits option.splits)

lemma inv_links:
  assumes "extraction_inv x" "link_resolve_index x url = (i, y)" "length url < MAX_HREF_LEN"
  shows "extraction_inv y"
  using assms(1,3) link_resolve_facts [OF assms(2)]
    marks_ok_grow [OF _ _ prefix_length_le, of "w_out (x_w x)" "x_links x" _ "w_out (x_w x)" "x_links y"]
  by (auto simp: extraction_inv_def)

lemma ascii_valid: "(\<And>c. c \<in> set s \<Longrightarrow> byte c < 128) \<Longrightarrow> utf8_valid s"
  by (induction s) (simp_all add: utf8_valid_ascii)

lemma dec_marker_valid: "utf8_valid ('' ['' @ dec_nat n @ '']'')"
proof -
  have "\<And>c. c \<in> set (dec_nat n) \<Longrightarrow> byte c < 128"
    using dec_nat_digits by (fastforce simp: is_digit_def)
  then have "utf8_valid (dec_nat n)" by (rule ascii_valid)
  then show ?thesis by (simp add: utf8_valid_append utf8_valid_ascii)
qed

lemma handle_open_tag_inv:
  assumes "extraction_inv x"
  shows "extraction_inv (handle_open_tag x s te)"
proof -
  have "length (scan_attrs s ''href'' MAX_HREF_LEN) < MAX_HREF_LEN"
    by (rule scan_attrs_length) (simp add: MAX_HREF_LEN_def)
  moreover have "marks_ok (w_out (x_w x)) (length (x_links x))
      ((length (w_out (x_w x)), length (x_links x)) # marks (x_frames x))"
    using assms by (intro marks_ok_open) (simp_all add: extraction_inv_def)
  ultimately show ?thesis
    using assms by (auto simp: handle_open_tag_def Let_def extraction_inv_def writer_newline_def)
qed

lemma close_link_inv:
  assumes "extraction_inv x"
  shows "extraction_inv (case link_resolve_index x (link_url x) of (idx, x2) \<Rightarrow>
     if idx < 0 then x2 else x2\<lparr>x_w := writer_text (x_w x2) ('' ['' @ dec_nat (nat idx + 1) @ '']'')\<rparr>)"
proof -
  obtain i y where r: "link_resolve_index x (link_url x) = (i, y)"
    by (cases "link_resolve_index x (link_url x)")
  have y: "extraction_inv y" using inv_links [OF assms r inv_link_url [OF assms]] .
  have "extraction_inv (y\<lparr>x_w := writer_text (x_w y) ('' ['' @ dec_nat (nat i + 1) @ '']'')\<rparr>)"
    by (rule inv_write [OF y])
      (simp_all add: grows_text [OF dec_marker_valid [of "nat i + 1", simplified], simplified] inv_link_url [OF y] inv_title [OF y])
  with y show ?thesis by (simp add: r)
qed

lemma inv_flags [simp]:
  "extraction_inv (x\<lparr>link_active := a\<rparr>) = extraction_inv x"
  "extraction_inv (x\<lparr>title_active := a\<rparr>) = extraction_inv x"
  "extraction_inv (x\<lparr>skip_depth := d\<rparr>) = extraction_inv x"
  "extraction_inv (x\<lparr>skip_depth := d, raw_tag := t\<rparr>) = extraction_inv x"
  by (simp_all add: extraction_inv_def)

lemma handle_close_tag_inv:
  assumes "extraction_inv x"
  shows "extraction_inv (handle_close_tag ls x s ts)"
  using assms close_link_inv [of "x\<lparr>link_active := False\<rparr>"] close_frames_inv [OF frame_close_inv [OF assms]]
  by (simp add: handle_close_tag_def Let_def split: option.split)

lemma parse_step_inv:
  "extraction_inv x \<Longrightarrow> extraction_inv (fst (parse_step ls raw x i))"
  by (simp add: parse_step_def Let_def emit_text_inv handle_open_tag_inv handle_close_tag_inv
      split: option.split)

lemma parse_loop_inv: "extraction_inv x \<Longrightarrow> extraction_inv (parse_loop ls raw x i)"
proof (induction ls raw x i rule: parse_loop.induct)
  case (1 ls raw x i)
  obtain x1 i1 where s: "parse_step ls raw x i = (x1, i1)" by (cases "parse_step ls raw x i")
  have "extraction_inv x1" using parse_step_inv [OF "1.prems", of ls raw i] by (simp add: s)
  then show ?case using 1 s by (subst parse_loop.simps) simp
qed

lemma frame_close_length:
  "length (x_frames (frame_close ls x pos)) =
     (if 1 < length (x_frames x) then length (x_frames x) - 1 else length (x_frames x))"
  by (cases "x_frames x" rule: remdups_adj.cases) (simp_all add: frame_close_def Let_def)

lemma close_frames_length:
  "n < length (x_frames x) \<Longrightarrow> length (x_frames (close_frames ls pos n x)) = length (x_frames x) - n"
  by (induction n arbitrary: x) (auto simp: frame_close_length)

lemma parse_ok:
  "extraction_inv (parse low_score raw) \<and> length (x_frames (parse low_score raw)) = 1 \<and>
   extraction_inv (parse_loop low_score raw new_extraction 0)"
proof -
  have l: "extraction_inv (parse_loop low_score raw new_extraction 0)"
    by (rule parse_loop_inv [OF extraction_inv_new])
  then have "x_frames (parse_loop low_score raw new_extraction 0) \<noteq> []" by (rule inv_frames)
  then have "length (x_frames (parse low_score raw)) = 1"
    by (cases "x_frames (parse_loop low_score raw new_extraction 0)")
      (simp_all add: parse_def Let_def close_frames_length)
  with l show ?thesis by (simp add: parse_def Let_def close_frames_inv)
qed

text \<open>
  C20: Parsing any page, whatever the scores of its frames, ends with the root frame alone, and
  with all arrays of the parser within their bounds: at most 20 links, each shorter than the
  buffer of 2048 bytes it was read into, and at most 64 frames on the way; and the text and the
  title are valid UTF-8, whatever bytes the page has.
\<close>

theorem parse_well_formed:
  "extraction_inv (parse low_score raw) \<and> length (x_frames (parse low_score raw)) = 1 \<and>
   extraction_inv (parse_loop low_score raw new_extraction 0)"
  by (rule parse_ok)

section \<open>The loop ends\<close>

lemma find_tag_end_le: "start \<le> length raw \<Longrightarrow> find_tag_end raw start \<le> length raw"
proof -
  have "tag_end_from q s = Some k \<Longrightarrow> k < length s" for q s k
    by (induction q s arbitrary: k rule: tag_end_from.induct) (auto split: if_splits option.splits)
  then show "start \<le> length raw \<Longrightarrow> ?thesis" by (fastforce simp: find_tag_end_def split: option.split)
qed

lemma find_seq_le: "find_seq raw start pat \<noteq> length raw \<Longrightarrow> find_seq raw start pat + length pat \<le> length raw"
  by (auto simp: find_seq_def dest: strstr_at_Some split: if_splits option.splits)

lemma skip_to_le: "n = length pat \<Longrightarrow> skip_to raw (find_seq raw start pat) n \<le> length raw"
  using find_seq_le by (simp add: skip_to_def)

lemma parse_step_bound: "i < length raw \<Longrightarrow> snd (parse_step ls raw x i) \<le> length raw"
proof -
  assume i: "i < length raw"
  have run: "i + length (takeWhile (\<lambda>c. c \<noteq> CHR ''<'') (drop i raw)) \<le> length raw"
    using length_takeWhile_le [of "\<lambda>c. c \<noteq> CHR ''<''" "drop i raw"] i by simp
  have te: "Suc (find_tag_end raw j) \<le> length raw" if "find_tag_end raw j \<noteq> length raw" "j \<le> length raw" for j
    using find_tag_end_le [OF that(2)] that(1) by simp
  have k: "Suc (i + k) \<le> length raw" if "strstr_at (drop i raw) (''</'' @ p) = Some k" for p k
  proof -
    have "k + length (''</'' @ p) \<le> length raw - i" using strstr_at_Some [OF that] by simp
    then show ?thesis using i by simp
  qed
  show ?thesis using i run te k by (simp add: parse_step_def Let_def skip_to_le split: option.split)
qed

text \<open>One round of the loop on the state and the position.\<close>

definition parse_round :: "(frame \<Rightarrow> bool) \<Rightarrow> string \<Rightarrow> extraction \<times> nat \<Rightarrow> extraction \<times> nat" where
  "parse_round ls raw = (\<lambda>(x, i). if i < length raw then parse_step ls raw x i else (x, i))"

lemma parse_rounds:
  "i \<le> length raw \<Longrightarrow> length raw - i \<le> n \<Longrightarrow>
     (parse_round ls raw ^^ n) (x, i) = (parse_loop ls raw x i, length raw)"
proof (induction n arbitrary: x i)
  case 0
  then show ?case by (subst parse_loop.simps) simp
next
  case (Suc n)
  obtain x1 i1 where s: "parse_step ls raw x i = (x1, i1)" by (cases "parse_step ls raw x i")
  show ?case
  proof (cases "i < length raw")
    case True
    then have "i < i1" "i1 \<le> length raw"
      using parse_step_progress [OF True, of ls x] parse_step_bound [OF True, of ls x] by (simp_all add: s)
    then have "(parse_round ls raw ^^ n) (x1, i1) = (parse_loop ls raw x1 i1, length raw)"
      using Suc by simp
    then show ?thesis using True s
      by (subst parse_loop.simps) (simp add: funpow_swap1 [symmetric] parse_round_def del: funpow.simps add: funpow_Suc_right)
  next
    case False
    then have "parse_round ls raw (x, i) = (x, i)" by (simp add: parse_round_def)
    then have "(parse_round ls raw ^^ Suc n) (x, i) = (parse_round ls raw ^^ n) (x, i)"
      by (simp add: funpow_Suc_right del: funpow.simps)
    then show ?thesis using Suc False by simp
  qed
qed

text \<open>
  The parse loop ends on every page: each round moves the position forward and never past
  the end, so as many rounds as the page has bytes always reach the end, and more change nothing.
\<close>

theorem parse_terminates:
  "(parse_round low_score raw ^^ (length raw + k)) (x, 0) = (parse_loop low_score raw x 0, length raw)"
  by (simp add: parse_rounds)

section \<open>Rollback\<close>

text \<open>
  What may stand between the opening of a frame and its close: text, tags that open no frame,
  closing tags of no frame, and nested frames that are closed again.
\<close>

definition opens_frame :: "extraction \<Rightarrow> string \<Rightarrow> nat \<Rightarrow> bool" where
  "opens_frame x s te \<longleftrightarrow> length (x_frames x) < length (x_frames (handle_open_tag x s te))"

definition closes_frame :: "string \<Rightarrow> bool" where
  "closes_frame s \<longleftrightarrow> is_frame_tag (tag_lookup (takeWhile (\<lambda>c. \<not> is_space c \<and> c \<noteq> CHR ''>'') s))"

inductive balanced :: "(frame \<Rightarrow> bool) \<Rightarrow> extraction \<Rightarrow> extraction \<Rightarrow> bool" for ls where
  nothing: "balanced ls x x"
| content: "balanced ls x y \<Longrightarrow> balanced ls x (emit_text y s)"
| open_tag: "balanced ls x y \<Longrightarrow> \<not> opens_frame y s te \<Longrightarrow> balanced ls x (handle_open_tag y s te)"
| close_tag: "balanced ls x y \<Longrightarrow> \<not> closes_frame s \<Longrightarrow> balanced ls x (handle_close_tag ls y s ts)"
| nested: "balanced ls x y \<Longrightarrow> opens_frame y s te \<Longrightarrow> balanced ls (handle_open_tag y s te) z \<Longrightarrow>
           balanced ls x (frame_close ls z pos)"

text \<open>Later in the same frame: more output, more links, the same marks.\<close>

definition extends :: "extraction \<Rightarrow> extraction \<Rightarrow> bool" where
  "extends x y \<longleftrightarrow> prefix (w_out (x_w x)) (w_out (x_w y)) \<and> prefix (x_links x) (x_links y) \<and>
                 marks (x_frames y) = marks (x_frames x)"

lemma extends_refl: "extends x x"
  by (simp add: extends_def)

lemma extends_trans: "extends x y \<Longrightarrow> extends y z \<Longrightarrow> extends x z"
  unfolding extends_def using prefix_order.trans by metis

lemma extends_frames: "extends x y \<Longrightarrow> x_frames x \<noteq> [] \<Longrightarrow> x_frames y \<noteq> []"
  by (auto simp: extends_def marks_def)

lemma emit_text_extends: "x_frames x \<noteq> [] \<Longrightarrow> extends x (emit_text x s)"
  using emit_text_facts [of x s] by (simp add: extends_def grows_def)

lemma open_extends: "\<not> opens_frame x s te \<Longrightarrow> extends x (handle_open_tag x s te)"
  by (auto simp: opens_frame_def handle_open_tag_def extends_def Let_def writer_newline_def
      split: if_splits)

text \<open>A tag that opens a frame puts its marks on top.\<close>

lemma opened_frame:
  assumes "opens_frame x s te"
  shows "marks (x_frames (handle_open_tag x s te)) =
           (length (w_out (x_w x)), length (x_links x)) # marks (x_frames x)"
    and "w_out (x_w (handle_open_tag x s te)) = w_out (x_w x)"
    and "x_links (handle_open_tag x s te) = x_links x"
  using assms by (auto simp: opens_frame_def handle_open_tag_def Let_def writer_newline_def split: if_splits)

lemma close_extends:
  assumes "\<not> closes_frame s"
  shows "extends x (handle_close_tag ls x s ts)"
proof -
  have link: "extends x (case link_resolve_index (x\<lparr>link_active := False\<rparr>) url of (idx, x2) \<Rightarrow>
      if idx < 0 then x2 else x2\<lparr>x_w := writer_text (x_w x2) (t idx)\<rparr>)" for url t
  proof -
    obtain i y where r: "link_resolve_index (x\<lparr>link_active := False\<rparr>) url = (i, y)"
      by (cases "link_resolve_index (x\<lparr>link_active := False\<rparr>) url")
    show ?thesis using link_resolve_facts [OF r] writer_text_prefix [of "x_w x" "t i"]
      by (simp add: r extends_def)
  qed
  have flags: "extends x (x\<lparr>link_active := False\<rparr>)" "extends x (x\<lparr>title_active := False\<rparr>)"
    "extends x (x\<lparr>skip_depth := d\<rparr>)" for d by (simp_all add: extends_def)
  have not_frame: "\<not> is_frame_tag (tag_lookup (takeWhile (\<lambda>c. \<not> is_space c \<and> c \<noteq> CHR ''>'') s))"
    using assms by (simp add: closes_frame_def)
  show ?thesis
    unfolding handle_close_tag_def Let_def
    using not_frame flags extends_refl [of x] link [where url = "link_url x"]
    by (simp del: append.simps)
qed

text \<open>Closing a frame after balanced content: it is gone, and nothing before it has changed.\<close>

lemma close_after:
  assumes "marks (x_frames z) = (length (w_out (x_w y)), length (x_links y)) # ms" "ms \<noteq> []"
    and "prefix (w_out (x_w y)) (w_out (x_w z))" "prefix (x_links y) (x_links z)"
  shows "marks (x_frames (frame_close ls z pos)) = ms"
    and "prefix (w_out (x_w y)) (w_out (x_w (frame_close ls z pos)))"
    and "prefix (x_links y) (x_links (frame_close ls z pos))"
    and "ls ((hd (x_frames z))\<lparr>end_pos := pos\<rparr>) \<or>
         word_count (hd (x_frames z)) < (if is_header (hd (x_frames z)) then 0 else MIN_CONTENT_WORDS) \<Longrightarrow>
         w_out (x_w (frame_close ls z pos)) = w_out (x_w y) \<and> x_links (frame_close ls z pos) = x_links y"
proof -
  obtain f p rest where fs: "x_frames z = f # p # rest"
    using assms(1,2) by (cases "x_frames z" rule: remdups_adj.cases) auto
  have f: "out_start f = length (w_out (x_w y))" "link_at_open f = length (x_links y)"
    and ms: "marks (p # rest) = ms" using assms(1) by (simp_all add: fs)
  have cut: "take (out_start f) (w_out (x_w z)) = w_out (x_w y)"
    "take (link_at_open f) (x_links z) = x_links y"
    using assms(3,4) by (auto simp: f prefix_def)
  show "marks (x_frames (frame_close ls z pos)) = ms"
    "prefix (w_out (x_w y)) (w_out (x_w (frame_close ls z pos)))"
    "prefix (x_links y) (x_links (frame_close ls z pos))"
    using ms assms(3,4) by (simp_all add: frame_close_def fs Let_def sync_grows truncate_take cut)
  show "ls ((hd (x_frames z))\<lparr>end_pos := pos\<rparr>) \<or>
         word_count (hd (x_frames z)) < (if is_header (hd (x_frames z)) then 0 else MIN_CONTENT_WORDS) \<Longrightarrow>
         w_out (x_w (frame_close ls z pos)) = w_out (x_w y) \<and> x_links (frame_close ls z pos) = x_links y"
    by (auto simp: frame_close_def fs Let_def sync_grows truncate_take cut)
qed

lemma balanced_extends: "balanced ls x y \<Longrightarrow> x_frames x \<noteq> [] \<Longrightarrow> extends x y"
proof (induction rule: balanced.induct)
  case (nested x y s te z pos)
  have y: "extends x y" using nested by simp
  note o = opened_frame [OF nested.hyps(2)]
  have "x_frames (handle_open_tag y s te) \<noteq> []" using o(1) by (auto simp: marks_def)
  then have z: "extends (handle_open_tag y s te) z" using nested by simp
  have ne: "marks (x_frames y) \<noteq> []" using extends_frames [OF y nested.prems] by (simp add: marks_def)
  have m: "marks (x_frames z) = (length (w_out (x_w y)), length (x_links y)) # marks (x_frames y)"
    using z o by (simp add: extends_def)
  have "extends y (frame_close ls z pos)"
    using close_after [OF m ne, of ls pos] z o by (simp add: extends_def)
  with y show ?case by (rule extends_trans)
next
  case (content x y s)
  then show ?case using emit_text_extends extends_frames extends_trans by blast
qed (blast intro: extends_refl extends_trans open_extends close_extends)+

text \<open>
  A frame that is dropped leaves no trace: whatever text, links and nested elements stand
  between the tag that opens a frame and the close of the frame, if the frame is then found too
  poor, or has fewer than four words and is no heading, the output and the list of links are
  exactly what they were before the opening tag, and the frames are those that were open then.
\<close>

theorem dropped_frame_leaves_no_trace:
  assumes "opens_frame x s te" "x_frames x \<noteq> []"
    and "balanced low_score (handle_open_tag x s te) y"
    and "low_score ((hd (x_frames y))\<lparr>end_pos := pos\<rparr>) \<or>
         word_count (hd (x_frames y)) < (if is_header (hd (x_frames y)) then 0 else MIN_CONTENT_WORDS)"
  shows "w_out (x_w (frame_close low_score y pos)) = w_out (x_w x) \<and>
         x_links (frame_close low_score y pos) = x_links x \<and>
         marks (x_frames (frame_close low_score y pos)) = marks (x_frames x)"
proof -
  note o = opened_frame [OF assms(1)]
  have "x_frames (handle_open_tag x s te) \<noteq> []" using o(1) by (auto simp: marks_def)
  then have y: "extends (handle_open_tag x s te) y" using assms(3) balanced_extends by blast
  have m: "marks (x_frames y) = (length (w_out (x_w x)), length (x_links x)) # marks (x_frames x)"
    using y o by (simp add: extends_def)
  show ?thesis using close_after [OF m, of low_score pos] y o assms(2,4) by (simp add: extends_def marks_def)
qed

lemma dropped_frame_leaves_no_trace_witness:
  "w_out (x_w (frame_close (\<lambda>f. False)
     (emit_text (handle_open_tag new_extraction ''p'' 2) ''ad'') 5)) = ''''"
proof -
  have o: "opens_frame new_extraction ''p'' 2" by code_simp
  have b: "balanced (\<lambda>f. False) (handle_open_tag new_extraction ''p'' 2)
     (emit_text (handle_open_tag new_extraction ''p'' 2) ''ad'')"
    by (intro balanced.intros)
  have w: "word_count (hd (x_frames (emit_text (handle_open_tag new_extraction ''p'' 2) ''ad'')))
     < (if is_header (hd (x_frames (emit_text (handle_open_tag new_extraction ''p'' 2) ''ad'')))
        then 0 else MIN_CONTENT_WORDS)"
    by code_simp
  show ?thesis
    using dropped_frame_leaves_no_trace [OF o _ b disjI2 [OF w], of 5]
    by (simp add: new_extraction_def new_writer_def)
qed

section \<open>Concrete pages\<close>

text \<open>A self-closing \<open>svg\<close> starts a skip that nothing ends: the page after it is lost.\<close>

lemma self_closing_svg_skips_rest:
  "w_out (x_w (parse (\<lambda>f. False) ''<svg/>one two three four'')) = [] \<and>
   w_out (x_w (parse (\<lambda>f. False) ''<svg></svg>one two three four'')) = ''one two three four''"
  by code_simp

text \<open>The close tag of a script is searched as the open tag is spelled.\<close>

lemma script_case_skips_rest:
  "w_out (x_w (parse (\<lambda>f. False) ''<SCRIPT>1</script>one two'')) = [] \<and>
   w_out (x_w (parse (\<lambda>f. False) ''<script>1</script>one two'')) = ''one two''"
  by code_simp

text \<open>A lone angle bracket is not kept as text.\<close>

lemma stray_bracket_dropped: "w_out (x_w (parse (\<lambda>f. False) ''1 < 2'')) = ''1 2''"
  by code_simp

text \<open>Only the lower case spelling of a script address is refused as a link.\<close>

lemma script_links:
  "x_links (parse (\<lambda>f. False) ''<a href=javascript:f()>x</a>'') = [] \<and>
   x_links (parse (\<lambda>f. False) ''<a href=JavaScript:f()>x</a>'') = [''JavaScript:f()'']"
  by code_simp

end
