(* ===== verification/HtmlAssembly.thy ===== *)
theory HtmlAssembly
  imports HtmlExtract
begin

text \<open>
  The final text of a page (\<open>utils/html_assembly.c\<close>): title, body, truncation marker and the
  footer with the links; and the functions that the program calls
  (\<open>html_extract_text_alloc\<close>, \<open>content_extract_for_llm_alloc\<close> of
  \<open>utils/html_extract.c\<close>).

  A result is the bytes before the NUL that ends it. Where the code writes past a buffer, the
  result is None.
\<close>

section \<open>Assembly\<close>

definition MARKER_ROOM :: nat where "MARKER_ROOM = 46"

text \<open>One line of the footer; the numbers start at one.\<close>

definition footer_line :: "nat \<Rightarrow> string \<Rightarrow> string" where
  "footer_line i url = dec_nat (i + 1) @ ''. '' @ cstr url @ [LF]"

definition build_footer :: "string list \<Rightarrow> string" where
  "build_footer links =
     (if links = [] then []
      else [LF, LF] @ ''Links:'' @ [LF] @
           concat (map (\<lambda>(i, url). footer_line i url) (enumerate 0 links)))"

definition assemble_copy_parts :: "string option \<Rightarrow> string \<Rightarrow> string \<Rightarrow> string \<Rightarrow> string" where
  "assemble_copy_parts ttl body marker footer =
     (case ttl of None \<Rightarrow> [] | Some t \<Rightarrow> ''Title: '' @ t @ [LF, LF]) @ body @ marker @ footer"

text \<open>The position behind the last occurrence of a character before a position, or 0.\<close>

fun back_to :: "char \<Rightarrow> string \<Rightarrow> nat \<Rightarrow> nat" where
  "back_to c s 0 = 0"
| "back_to c s (Suc k) = (if s ! k \<noteq> c then back_to c s k else Suc k)"

text \<open>Where the body is cut, and how many bytes that omits.\<close>

definition assemble_cut :: "string \<Rightarrow> nat \<Rightarrow> nat \<times> nat" where
  "assemble_cut out budget =
     (if length out \<le> budget then (length out, 0)
      else let k = back_to LF out budget;
               cut0 = (if k > 0 \<and> k \<noteq> budget then k
                       else if k = 0
                       then (let k' = back_to SP out budget in if k' > 0 then k' else budget)
                       else budget);
               cpos = utf8_cut_boundary out cut0
           in (cpos, length out - cpos))"

definition trunc_marker :: "nat \<Rightarrow> string" where
  "trunc_marker omitted = take 63 (LF # ''[... truncated, '' @ dec_nat omitted @ '' chars omitted ...]'')"

definition title_room :: "string option \<Rightarrow> nat" where
  "title_room ttl = (case ttl of None \<Rightarrow> 0 | Some t \<Rightarrow> length t + 7 + 2)"

definition assemble :: "extraction \<Rightarrow> nat \<Rightarrow> string" where
  "assemble x max_chars =
     (let ttl = (if x_title x \<noteq> [] then Some (x_title x) else None);
          body = w_out (x_w x);
          footer = build_footer (x_links x)
      in if length body + title_room ttl + length footer \<le> max_chars
         then assemble_copy_parts ttl body [] footer
         else let footer1 = (if title_room ttl + length footer + MARKER_ROOM > max_chars then []
                             else footer);
                  ttl1 = (if title_room ttl + length footer1 + MARKER_ROOM > max_chars then None
                          else ttl);
                  overhead = (if title_room ttl + length footer1 + MARKER_ROOM > max_chars then 0
                              else title_room ttl + length footer1);
                  (budget, marker_ok) =
                    (if max_chars > overhead + MARKER_ROOM
                     then (max_chars - overhead - MARKER_ROOM, True)
                     else if max_chars > overhead then (max_chars - overhead, False)
                     else (0, False));
                  (cpos, omitted) = assemble_cut body budget;
                  marker_ok1 = (marker_ok \<and> \<not> length body \<le> budget);
                  marker = trunc_marker omitted;
                  marker1 = (if marker_ok1 \<and> omitted > 0 \<and>
                                title_room ttl1 + cpos + length marker + length footer1 \<le> max_chars
                             then marker else [])
              in assemble_copy_parts ttl1 (take cpos body) marker1 footer1)"

section \<open>Content\<close>

definition html_extract_text_alloc :: "(frame \<Rightarrow> bool) \<Rightarrow> cptr \<Rightarrow> nat \<Rightarrow> string" where
  "html_extract_text_alloc low_score raw max_chars =
     (case raw of None \<Rightarrow> []
      | Some r \<Rightarrow> if max_chars = 0 then [] else assemble (parse low_score r) max_chars)"

text \<open>The transcoded bytes and their NUL go into a buffer of twice the length and one.\<close>

definition text_for_llm :: "string \<Rightarrow> nat \<Rightarrow> cptr option" where
  "text_for_llm dat max_chars =
     (if utf8_valid dat then Some (str_truncate_ellipsis_dup (Some (cstr dat)) max_chars)
      else let fixed = concat (map transcode_byte dat)
           in if length fixed + 1 > length dat * 2 + 1 then None
              else Some (str_truncate_ellipsis_dup (Some (cstr fixed)) max_chars))"

definition binary_note :: "string \<Rightarrow> nat \<Rightarrow> string" where
  "binary_note content_type len =
     ''Binary content ('' @ take 512 content_type @ '', '' @ dec_nat len @
     '' bytes). Not shown; use a file tool to download it if needed.''"

definition content_extract_for_llm_alloc ::
  "(frame \<Rightarrow> bool) \<Rightarrow> cptr \<Rightarrow> cptr \<Rightarrow> nat \<Rightarrow> cptr option" where
  "content_extract_for_llm_alloc low_score content_type dat max_chars =
     (case dat of None \<Rightarrow> Some (Some ''(empty response)'')
      | Some d \<Rightarrow>
          if d = [] then Some (Some ''(empty response)'')
          else if max_chars = 0 then Some (Some [])
          else if content_type = None \<or> content_type = Some []
          then (let rest = dropWhile is_space d
                in if rest \<noteq> [] \<and> hd rest = CHR ''<''
                   then Some (Some (html_extract_text_alloc low_score (Some d) max_chars))
                   else text_for_llm d max_chars)
          else let ct = the content_type
               in if prefix_ieq ct ''text/html'' \<or> prefix_ieq ct ''application/xhtml+xml''
                  then Some (Some (html_extract_text_alloc low_score (Some d) max_chars))
                  else if prefix_ieq ct ''text/'' \<or> prefix_ieq ct ''application/json'' \<or>
                          prefix_ieq ct ''application/xml'' \<or> prefix_ieq ct ''application/javascript''
                  then text_for_llm d max_chars
                  else let cap = 160 + min 512 (length ct) + 32;
                           note = binary_note ct (length d)
                       in Some (Some (if length note \<ge> cap then ''Binary content (unrecognized type).''
                                      else note)))"

section \<open>Size\<close>

lemma back_to_le: "back_to c s k \<le> k"
  by (induction k) auto

lemma assemble_cut_le:
  "assemble_cut out budget = (cpos, d) \<Longrightarrow> cpos \<le> budget \<and> cpos \<le> length out"
  using back_to_le [of LF out budget] back_to_le [of SP out budget]
  by (auto simp: assemble_cut_def Let_def utf8_cut_boundary_def intro: order_trans [OF back_off_le]
      split: if_splits)

lemma copy_parts_length:
  "length (assemble_copy_parts ttl body marker footer) =
     title_room ttl + length body + length marker + length footer"
  by (simp add: assemble_copy_parts_def title_room_def split: option.split)

text \<open>The two ways an assembly can end: everything, or a cut body in what the rest leaves.\<close>

lemma assemble_cases:
  obtains (all) ttl footer where "assemble x m = assemble_copy_parts ttl (w_out (x_w x)) [] footer"
      "length (w_out (x_w x)) + title_room ttl + length footer \<le> m"
      "ttl = (if x_title x \<noteq> [] then Some (x_title x) else None)" "footer = build_footer (x_links x)"
  | (cutoff) ttl1 cpos d marker footer1 budget where
      "assemble x m = assemble_copy_parts ttl1 (take cpos (w_out (x_w x))) marker footer1"
      "assemble_cut (w_out (x_w x)) budget = (cpos, d)"
      "ttl1 \<in> {None, Some (x_title x)}" "footer1 \<in> {[], build_footer (x_links x)}"
      "marker \<in> {[], trunc_marker d}"
      "title_room ttl1 + length footer1 + budget \<le> m"
      "marker \<noteq> [] \<Longrightarrow> title_room ttl1 + cpos + length marker + length footer1 \<le> m"
proof -
  define ttl where "ttl = (if x_title x \<noteq> [] then Some (x_title x) else None)"
  define body where "body = w_out (x_w x)"
  define footer where "footer = build_footer (x_links x)"
  show thesis
  proof (cases "length body + title_room ttl + length footer \<le> m")
    case True
    then show thesis using all [of ttl footer] by (simp add: assemble_def Let_def ttl_def body_def footer_def)
  next
    case False
    define footer1 where "footer1 = (if title_room ttl + length footer + MARKER_ROOM > m then [] else footer)"
    define drop_title where "drop_title = (title_room ttl + length footer1 + MARKER_ROOM > m)"
    define ttl1 where "ttl1 = (if drop_title then None else ttl)"
    define overhead where "overhead = (if drop_title then 0 else title_room ttl + length footer1)"
    obtain budget ok where b: "(if m > overhead + MARKER_ROOM then (m - overhead - MARKER_ROOM, True)
        else if m > overhead then (m - overhead, False) else (0, False)) = (budget, ok)" by fastforce
    obtain cpos d where c: "assemble_cut body budget = (cpos, d)" by fastforce
    define marker where "marker = (if (ok \<and> \<not> length body \<le> budget) \<and> d > 0 \<and>
        title_room ttl1 + cpos + length (trunc_marker d) + length footer1 \<le> m
        then trunc_marker d else [])"
    have eq: "assemble x m = assemble_copy_parts ttl1 (take cpos body) marker footer1"
      unfolding assemble_def Let_def
      unfolding ttl_def [symmetric] body_def [symmetric] footer_def [symmetric]
      unfolding footer1_def [symmetric]
      unfolding drop_title_def [symmetric]
      unfolding overhead_def [symmetric] ttl1_def [symmetric]
      unfolding b prod.case c marker_def
      using False by (simp only: if_False if_True)
    have "drop_title \<Longrightarrow> footer1 = []"
      by (auto simp: drop_title_def footer1_def split: if_splits)
    then have "title_room ttl1 + length footer1 \<le> overhead"
      by (auto simp: ttl1_def overhead_def title_room_def)
    moreover have "overhead \<le> m" by (auto simp: overhead_def drop_title_def MARKER_ROOM_def)
    moreover have "overhead + budget \<le> m" using b \<open>overhead \<le> m\<close> by (auto split: if_splits)
    ultimately have "title_room ttl1 + length footer1 + budget \<le> m" by simp
    then show thesis
      by (intro cutoff [OF eq [unfolded body_def] c [unfolded body_def]])
        (auto simp: ttl1_def ttl_def footer1_def footer_def marker_def)
  qed
qed

text \<open>
  C21: The text of a page fits the budget: for any bytes, any scores of the frames and any budget,
  title, body, truncation marker and footer together are at most \<open>max_chars\<close> bytes.
\<close>

theorem extract_fits_budget: "length (html_extract_text_alloc low_score raw max_chars) \<le> max_chars"
proof -
  have "length (assemble x max_chars) \<le> max_chars" for x
  proof (cases rule: assemble_cases [of x max_chars])
    case (all ttl footer)
    then show ?thesis by (simp add: copy_parts_length)
  next
    case (cutoff ttl1 cpos d marker footer1 budget)
    have "cpos \<le> budget" "cpos \<le> length (w_out (x_w x))" using assemble_cut_le [OF cutoff(2)] by simp_all
    then show ?thesis using cutoff by (cases "marker = []") (simp_all add: copy_parts_length)
  qed
  then show ?thesis by (simp add: html_extract_text_alloc_def split: option.split)
qed

section \<open>Encoding\<close>

lemma trunc_marker_valid: "utf8_valid (trunc_marker d)"
proof (rule ascii_valid)
  fix c assume "c \<in> set (trunc_marker d)"
  then have "c \<in> set (LF # ''[... truncated, '' @ dec_nat d @ '' chars omitted ...]'')"
    unfolding trunc_marker_def by (rule in_set_takeD)
  then show "byte c < 128" using dec_nat_digits [of c d] by (auto simp: is_digit_def)
qed

lemma dec_nat_valid: "utf8_valid (dec_nat n)"
  by (rule ascii_valid) (use dec_nat_digits in \<open>fastforce simp: is_digit_def\<close>)

lemma valid_concat: "(\<And>s. s \<in> set ss \<Longrightarrow> utf8_valid s) \<Longrightarrow> utf8_valid (concat ss)"
  by (induction ss) (simp_all add: utf8_valid_append)

lemma footer_valid:
  assumes "\<forall>l \<in> set links. utf8_valid (cstr l)"
  shows "utf8_valid (build_footer links)"
proof -
  have "utf8_valid (concat (map (\<lambda>(i, url). footer_line i url) (enumerate 0 links)))"
  proof (rule valid_concat)
    fix s assume "s \<in> set (map (\<lambda>(i, url). footer_line i url) (enumerate 0 links))"
    then obtain i url where s: "s = footer_line i url" "url \<in> set links"
      by (auto simp: in_set_enumerate_eq)
    then show "utf8_valid s" using assms
      by (simp add: footer_line_def utf8_valid_append dec_nat_valid utf8_valid_ascii)
  qed
  then show ?thesis by (simp add: build_footer_def utf8_valid_ascii)
qed

lemma copy_parts_valid:
  assumes "ttl \<noteq> None \<Longrightarrow> utf8_valid (the ttl)" "utf8_valid body" "utf8_valid marker" "utf8_valid footer"
  shows "utf8_valid (assemble_copy_parts ttl body marker footer)"
proof (cases ttl)
  case (Some t)
  have "utf8_valid (t @ [LF, LF] @ body @ marker @ footer)"
    using assms Some by (intro utf8_valid_append) (simp_all add: utf8_valid_ascii)
  then show ?thesis by (simp add: assemble_copy_parts_def Some utf8_valid_ascii)
qed (use assms in \<open>simp add: assemble_copy_parts_def utf8_valid_append\<close>)

lemma assemble_cut_valid:
  assumes "assemble_cut out budget = (cpos, d)" "utf8_valid out"
  shows "utf8_valid (take cpos out)"
  using assms utf8_valid_cut [OF assms(2)]
  by (auto simp: assemble_cut_def Let_def split: if_splits)

text \<open>
  C22: The text of a page is valid UTF-8, whatever bytes the page has and wherever the text is cut,
  provided the addresses of its links are; they alone are passed on as they are.
\<close>

theorem extract_is_utf8:
  assumes "\<forall>l \<in> set (x_links (parse low_score raw)). utf8_valid (cstr l)"
  shows "utf8_valid (html_extract_text_alloc low_score (Some raw) max_chars)"
proof -
  define x where "x = parse low_score raw"
  have x: "utf8_valid (w_out (x_w x))" "utf8_valid (x_title x)"
    using parse_ok [of low_score raw] by (simp_all add: x_def extraction_inv_def)
  have f: "utf8_valid (build_footer (x_links x))" using assms by (simp add: x_def footer_valid)
  have "utf8_valid (assemble x max_chars)"
  proof (cases rule: assemble_cases [of x max_chars])
    case (all ttl footer)
    show ?thesis unfolding all(1) using x f all(3,4) by (intro copy_parts_valid) (auto split: if_splits)
  next
    case (cutoff ttl1 cpos d marker footer1 budget)
    show ?thesis unfolding cutoff(1)
      using x f cutoff(3-5) assemble_cut_valid [OF cutoff(2)] trunc_marker_valid
      by (intro copy_parts_valid) auto
  qed
  then show ?thesis by (simp add: html_extract_text_alloc_def x_def)
qed

lemma extract_is_utf8_witness:
  "utf8_valid (html_extract_text_alloc (\<lambda>f. False) (Some (CHR 0xE9 # ''<a href=u>v</a>'')) 100)"
proof (rule extract_is_utf8)
  show "\<forall>l \<in> set (x_links (parse (\<lambda>f. False) (CHR 0xE9 # ''<a href=u>v</a>''))). utf8_valid (cstr l)"
    by code_simp
qed

text \<open>A link address with a byte that is not UTF-8 makes the whole text invalid.\<close>

lemma raw_link_is_not_utf8:
  "\<not> utf8_valid (html_extract_text_alloc (\<lambda>f. False) (Some (''<a href='' @ CHR 0xE9 # ''>v</a>'')) 100)"
  by code_simp

section \<open>Plain text\<close>

lemma encode_length:
  "length (utf8_encode_cp cp) \<le> 3" if "cp < 0x10000"
  using that by (simp add: utf8_encode_cp_def)

lemma cp1252_small: "b < 256 \<Longrightarrow> cp1252_cp b < 0x10000"
proof -
  assume b: "b < 256"
  have all: "\<forall>n \<in> set cp1252_map. n < 0x10000" by (simp add: cp1252_map_def)
  have len: "length cp1252_map = 32" by (simp add: cp1252_map_def)
  have "cp1252_map ! (b - 0x80) < 0x10000" if "\<not> b < 0x80" "b < 0xA0"
    using all nth_mem [of "b - 0x80" cp1252_map] that len by auto
  with b show ?thesis by (auto simp: cp1252_cp_def)
qed

lemma cp1252_ge: "128 \<le> b \<Longrightarrow> b < 256 \<Longrightarrow> 128 \<le> cp1252_cp b"
proof -
  assume b: "128 \<le> b" "b < 256"
  have all: "\<forall>n \<in> set cp1252_map. 128 \<le> n" by (simp add: cp1252_map_def)
  have len: "length cp1252_map = 32" by (simp add: cp1252_map_def)
  have "128 \<le> cp1252_map ! (b - 0x80)" if "b < 0xA0"
    using all nth_mem [of "b - 0x80" cp1252_map] that b len by auto
  with b show ?thesis by (auto simp: cp1252_cp_def)
qed

text \<open>A byte becomes one, two or three bytes; one exactly if it is ASCII.\<close>

lemma transcode_length:
  "length (transcode_byte c) \<in> {1, 2, 3}" "length (transcode_byte c) = 1 \<longleftrightarrow> byte c < 128"
proof -
  have "length (utf8_encode_cp (cp1252_cp (byte c))) \<in> {2, 3}" if "\<not> byte c < 128"
  proof -
    have s: "scalar (cp1252_cp (byte c))" by (rule cp1252_scalar) simp
    have "128 \<le> cp1252_cp (byte c)" "cp1252_cp (byte c) < 0x10000"
      using cp1252_ge [of "byte c"] cp1252_small [of "byte c"] that by simp_all
    with s show ?thesis
      by (cases rule: scalar_cases [of "cp1252_cp (byte c)"]) (simp_all add: utf8_encode_2 utf8_encode_3)
  qed
  then show "length (transcode_byte c) \<in> {1, 2, 3}" "length (transcode_byte c) = 1 \<longleftrightarrow> byte c < 128"
    by (auto simp: transcode_byte_def Let_def)
qed

definition three_bytes :: "char \<Rightarrow> bool" where
  "three_bytes c \<longleftrightarrow> length (transcode_byte c) = 3"

lemma transcoded_length:
  "length (concat (map transcode_byte s)) + length (filter (\<lambda>c. byte c < 128) s) =
     2 * length s + length (filter three_bytes s)"
proof (induction s)
  case (Cons c s)
  have "length (transcode_byte c) + (if byte c < 128 then 1 else 0) = 2 + (if three_bytes c then 1 else 0)"
    using transcode_length [of c] by (auto simp: three_bytes_def)
  with Cons show ?case by (auto split: if_splits)
qed simp

text \<open>
  C19: When plain text is not UTF-8, the transcoded bytes overrun their buffer exactly if it has
  more bytes that become three bytes (most of the Windows-1252 range from 0x80 to 0x9F, such as
  the euro sign and the curly quotes) than ASCII bytes: the buffer of twice the length is not
  the worst case. Otherwise, and for all UTF-8, a text comes back.
\<close>

theorem text_for_llm_overrun_iff:
  "(text_for_llm dat max_chars = None \<longleftrightarrow>
      \<not> utf8_valid dat \<and>
      length (filter (\<lambda>c. byte c < 128) dat) < length (filter three_bytes dat)) \<and>
   (text_for_llm dat max_chars \<noteq> None \<longrightarrow> (\<exists>t. text_for_llm dat max_chars = Some (Some t)))"
proof -
  have "length dat * 2 + 1 < length (concat (map transcode_byte dat)) + 1 \<longleftrightarrow>
      length (filter (\<lambda>c. byte c < 128) dat) < length (filter three_bytes dat)"
    using transcoded_length [of dat] by linarith
  then show ?thesis
    by (simp add: text_for_llm_def Let_def str_truncate_ellipsis_dup_def)
qed

lemma text_for_llm_overrun_iff_witness:
  "text_for_llm [CHR 0x80] 10 = None \<and> text_for_llm (CHR 0xE9 # ''t'' @ [CHR 0xE9]) 10 \<noteq> None"
proof -
  have "\<not> utf8_valid [CHR 0x80]" by (simp add: utf8_valid.simps lead_class_def)
  moreover have "three_bytes (CHR 0x80)" "\<not> three_bytes (CHR 0xE9)" "\<not> three_bytes (CHR ''t'')"
    by (simp_all add: three_bytes_def transcode_byte_def utf8_encode_cp_def cp1252_cp_def cp1252_map_def)
  ultimately show ?thesis
    using text_for_llm_overrun_iff [of "[CHR 0x80]" 10]
      text_for_llm_overrun_iff [of "CHR 0xE9 # ''t'' @ [CHR 0xE9]" 10] by simp
qed

text \<open>
  Bytes of a type that is neither HTML nor text are never shown: whatever they are, only their
  number and the declared type enter the note that takes their place.
\<close>

theorem binary_is_not_shown:
  assumes "ct \<noteq> []"
    and "\<forall>pat \<in> {''text/'', ''application/xhtml+xml'', ''application/json'', ''application/xml'',
                  ''application/javascript''}. \<not> prefix_ieq ct pat"
    and "length d = length d'"
  shows "content_extract_for_llm_alloc ls (Some ct) (Some d) max_chars =
         content_extract_for_llm_alloc ls' (Some ct) (Some d') max_chars"
proof -
  have "\<not> prefix_ieq ct ''text/html''"
  proof
    assume "prefix_ieq ct ''text/html''"
    then have "prefix_ieq ct ''text/''" by (simp add: prefix_ieq_def numeral_eq_Suc All_less_Suc)
    with assms(2) show False by simp
  qed
  moreover have "d = [] \<longleftrightarrow> d' = []" using assms(3) by auto
  ultimately show ?thesis using assms by (simp add: content_extract_for_llm_alloc_def Let_def)
qed

lemma binary_is_not_shown_witness:
  "content_extract_for_llm_alloc (\<lambda>f. False) (Some ''image/png'') (Some ''abc'') 9 =
   content_extract_for_llm_alloc (\<lambda>f. True) (Some ''image/png'') (Some ''xyz'') 9"
proof (rule binary_is_not_shown)
  show "\<forall>pat \<in> {''text/'', ''application/xhtml+xml'', ''application/json'', ''application/xml'',
                  ''application/javascript''}. \<not> prefix_ieq ''image/png'' pat"
  proof -
    have "\<not> prefix_ieq ''image/png'' (c # cs)" if "c \<in> {CHR ''t'', CHR ''a''}" for c cs
      using that by (auto simp: prefix_ieq_def char_at_def to_lower_def is_upper_def intro!: exI [of _ 0])
    then show ?thesis by simp
  qed
qed simp_all

end
