(* ===== verification/RateLimiter.thy ===== *)
theory RateLimiter
  imports Prelude
begin

text \<open>
  \<open>utils/rate_limiter.c\<close>: requests per address in a fixed window, and failed unlock attempts
  in a rolling window of 60 seconds.

  The two tables of the SQLite database are the state: \<open>rate_buckets\<close> has \<open>ip\<close> as its
  primary key, so it is a map; \<open>unlock_failures\<close> is the list of its rows. Each SQL statement
  of the code is its effect on the tables. Which statements SQLite cannot prepare or step is the
  argument \<open>fails\<close>. The clock \<open>time(NULL)\<close> is the argument \<open>now\<close>, in seconds;
  counts stay below \<open>2 ^ 31\<close>.
\<close>

datatype sql_call =
  OpenDb | CreateRate | CreateUnlock | SelectPrep | SelectStep | ResetPrep | ResetStep | IncPrep
| IncStep | InsertPrep | InsertStep | FailurePrep | FailureStep | PerIpPrep | PerIpStep
| GlobalPrep | GlobalStep

type_synonym sql_faults = "sql_call \<Rightarrow> bool"

definition no_faults :: sql_faults where "no_faults = (\<lambda>_. False)"

record rate_limiter =
  max_requests :: int
  window_secs :: int
  rate_buckets :: "string \<rightharpoonup> int \<times> int"
  unlock_failures :: "(cptr \<times> int) list"

text \<open>The tables that are already in the database are the last two arguments.\<close>

definition rate_limiter_create ::
  "sql_faults \<Rightarrow> int \<Rightarrow> int \<Rightarrow> (string \<rightharpoonup> int \<times> int) \<Rightarrow> (cptr \<times> int) list \<Rightarrow> rate_limiter option" where
  "rate_limiter_create fails max_req window buckets failures =
     (if fails OpenDb \<or> fails CreateRate then None
      else Some \<lparr>max_requests = max_req, window_secs = window, rate_buckets = buckets,
                 unlock_failures = failures\<rparr>)"

definition rate_limiter_allow ::
  "sql_faults \<Rightarrow> rate_limiter option \<Rightarrow> cptr \<Rightarrow> int \<Rightarrow> bool \<times> rate_limiter option" where
  "rate_limiter_allow fails rl ip now =
     (case (rl, ip) of
        (Some l, Some a) \<Rightarrow>
          if fails SelectPrep then (True, rl)
          else (case (if fails SelectStep then None else rate_buckets l a) of
                  Some (window_start, cnt) \<Rightarrow>
                    if now - window_start \<ge> window_secs l
                    then (True, if fails ResetPrep \<or> fails ResetStep then rl
                                else Some (l\<lparr>rate_buckets := (rate_buckets l)(a \<mapsto> (now, 1))\<rparr>))
                    else if cnt \<ge> max_requests l then (False, rl)
                    else (True, if fails IncPrep \<or> fails IncStep then rl
                                else Some (l\<lparr>rate_buckets := (rate_buckets l)(a \<mapsto> (window_start, cnt + 1))\<rparr>))
                | None \<Rightarrow>
                    (True, if fails InsertPrep \<or> fails InsertStep \<or> rate_buckets l a \<noteq> None then rl
                           else Some (l\<lparr>rate_buckets := (rate_buckets l)(a \<mapsto> (now, 1))\<rparr>)))
      | _ \<Rightarrow> (True, rl))"

definition rate_limiter_record_unlock_failure ::
  "sql_faults \<Rightarrow> rate_limiter option \<Rightarrow> cptr \<Rightarrow> int \<Rightarrow> rate_limiter option" where
  "rate_limiter_record_unlock_failure fails rl ip now =
     (case rl of None \<Rightarrow> None
      | Some l \<Rightarrow> if fails FailurePrep \<or> fails FailureStep then rl
                  else Some (l\<lparr>unlock_failures := unlock_failures l @ [(ip, now)]\<rparr>))"

definition failures_since :: "(cptr \<times> int) list \<Rightarrow> (cptr \<Rightarrow> bool) \<Rightarrow> int \<Rightarrow> nat" where
  "failures_since rows p cutoff = length (filter (\<lambda>(a, t). p a \<and> t > cutoff) rows)"

definition rate_limiter_unlock_allowed ::
  "sql_faults \<Rightarrow> rate_limiter option \<Rightarrow> cptr \<Rightarrow> int \<Rightarrow> int \<Rightarrow> int \<Rightarrow> bool" where
  "rate_limiter_unlock_allowed fails rl ip max_per_ip max_global now =
     (case (rl, ip) of
        (Some l, Some a) \<Rightarrow>
          let cutoff = now - 60;
              per_ip = (if fails PerIpStep then 0
                        else int (failures_since (unlock_failures l) (\<lambda>r. r = Some a) cutoff));
              all_ips = (if fails GlobalStep then 0
                        else int (failures_since (unlock_failures l) (\<lambda>_. True) cutoff))
          in fails PerIpPrep \<or> (per_ip < max_per_ip \<and> (fails GlobalPrep \<or> all_ips < max_global))
      | _ \<Rightarrow> True)"

text \<open>
  One attempt at \<open>/api/unlock\<close> (\<open>server/routes/routes_auth.c\<close>): the gate with the limits
  5 and 20, then the password, and a wrong one is recorded. The result says whether the password
  was tried.
\<close>

definition unlock_attempt ::
  "sql_faults \<Rightarrow> rate_limiter option \<Rightarrow> cptr \<Rightarrow> bool \<Rightarrow> int \<Rightarrow> bool \<times> rate_limiter option" where
  "unlock_attempt fails rl ip password_ok now =
     (if rl \<noteq> None \<and> \<not> rate_limiter_unlock_allowed fails rl ip 5 20 now then (False, rl)
      else (True, if password_ok then rl else rate_limiter_record_unlock_failure fails rl ip now))"

section \<open>Requests: a reference\<close>

text \<open>One address alone: the start of its window and the count.\<close>

fun fixed_window :: "int \<Rightarrow> int \<Rightarrow> (int \<times> int) option \<Rightarrow> int list \<Rightarrow> bool list" where
  "fixed_window m w b [] = []"
| "fixed_window m w None (t # ts) = True # fixed_window m w (Some (t, 1)) ts"
| "fixed_window m w (Some (s, c)) (t # ts) =
     (if t - s \<ge> w then True # fixed_window m w (Some (t, 1)) ts
      else if c \<ge> m then False # fixed_window m w (Some (s, c)) ts
      else True # fixed_window m w (Some (s, c + 1)) ts)"

text \<open>The decisions for a list of requests, with their addresses.\<close>

fun allow_all :: "rate_limiter \<Rightarrow> (string \<times> int) list \<Rightarrow> (string \<times> bool) list" where
  "allow_all l [] = []"
| "allow_all l ((a, t) # rs) =
     (case rate_limiter_allow no_faults (Some l) (Some a) t of
        (d, Some l') \<Rightarrow> (a, d) # allow_all l' rs
      | (d, None) \<Rightarrow> [(a, d)])"

lemma allow_step:
  "\<exists>l' d. rate_limiter_allow no_faults (Some l) (Some a) t = (d, Some l') \<and>
     max_requests l' = max_requests l \<and> window_secs l' = window_secs l \<and>
     (\<forall>b. b \<noteq> a \<longrightarrow> rate_buckets l' b = rate_buckets l b) \<and>
     (\<forall>ts. fixed_window (max_requests l) (window_secs l) (rate_buckets l a) (t # ts) =
           d # fixed_window (max_requests l) (window_secs l) (rate_buckets l' a) ts)"
  by (auto simp: rate_limiter_allow_def no_faults_def split: option.split)

text \<open>
  Addresses do not affect each other: however the requests of many addresses are interleaved,
  the decisions for one address are those of a limiter that sees the requests of this address
  alone, with the window and count that the table holds for it.
\<close>

lemma requests_isolated:
  "map snd (filter (\<lambda>(b, d). b = a) (allow_all l rs)) =
     fixed_window (max_requests l) (window_secs l) (rate_buckets l a)
       (map snd (filter (\<lambda>(b, t). b = a) rs))"
proof (induction rs arbitrary: l)
  case (Cons r rs)
  obtain b t where r: "r = (b, t)" by (cases r)
  obtain l' d where s: "rate_limiter_allow no_faults (Some l) (Some b) t = (d, Some l')"
    "max_requests l' = max_requests l" "window_secs l' = window_secs l"
    "\<And>c. c \<noteq> b \<Longrightarrow> rate_buckets l' c = rate_buckets l c"
    "\<And>ts. fixed_window (max_requests l) (window_secs l) (rate_buckets l b) (t # ts) =
           d # fixed_window (max_requests l) (window_secs l) (rate_buckets l' b) ts"
    using allow_step [of l b t] by metis
  have "allow_all l (r # rs) = (b, d) # allow_all l' rs" by (simp add: r s(1))
  then show ?case using Cons [of l'] s(2-5) by (cases "b = a") (simp_all add: r)
qed simp

section \<open>Requests: the rate\<close>

text \<open>The times of the requests that were allowed.\<close>

definition granted :: "bool list \<Rightarrow> int list \<Rightarrow> int list" where
  "granted ds ts = map snd (filter fst (zip ds ts))"

definition within :: "int \<Rightarrow> int \<Rightarrow> int list \<Rightarrow> nat" where
  "within lo hi ts = length (filter (\<lambda>t. lo \<le> t \<and> t < hi) ts)"

lemma granted_simps [simp]:
  "granted [] ts = []"
  "granted (d # ds) (t # ts) = (if d then t # granted ds ts else granted ds ts)"
  by (simp_all add: granted_def)

lemma within_simps [simp]:
  "within lo hi [] = 0"
  "within lo hi (t # ts) = (if lo \<le> t \<and> t < hi then Suc (within lo hi ts) else within lo hi ts)"
  by (simp_all add: within_def)

lemma granted_subset: "set (granted ds ts) \<subseteq> set ts"
  by (auto simp: granted_def dest: set_zip_rightD)

lemma within_late: "\<forall>t \<in> set ts. hi \<le> t \<Longrightarrow> within lo hi (granted ds ts) = 0"
  using granted_subset [of ds ts] by (force simp: within_def filter_empty_conv)

text \<open>A bucket that started in the interval: no further window starts in it.\<close>

lemma within_one:
  assumes "lo \<le> s" "hi = lo + w" "sorted ts" "1 \<le> c" "0 \<le> m"
  shows "int (within lo hi (granted (fixed_window m w (Some (s, c)) ts) ts)) \<le> max 0 (m - c)"
  using assms(3,4)
proof (induction ts arbitrary: c)
  case (Cons t ts)
  show ?case
  proof (cases "t - s \<ge> w")
    case True
    then have "\<forall>u \<in> set (t # ts). hi \<le> u" using Cons.prems(1) assms(1,2) by auto
    then show ?thesis by (simp add: within_late del: fixed_window.simps)
  next
    case False
    then show ?thesis using Cons.IH [of c] Cons.IH [of "c + 1"] Cons.prems by auto
  qed
qed simp

text \<open>A bucket from before the interval, and all requests in it or later.\<close>

lemma within_two:
  assumes "hi = lo + w" "sorted ts" "\<forall>t \<in> set ts. lo \<le> t" "1 \<le> c" "1 \<le> m"
  shows "int (within lo hi (granted (fixed_window m w (Some (s, c)) ts) ts)) \<le> max 0 (m - c) + m"
  using assms(2-4)
proof (induction ts arbitrary: c)
  case (Cons t ts)
  show ?case
  proof (cases "t - s \<ge> w")
    case True
    have "int (within lo hi (granted (fixed_window m w (Some (t, 1)) ts) ts)) \<le> max 0 (m - 1)"
      using Cons.prems assms by (intro within_one) auto
    then show ?thesis using True assms(5) Cons.prems(3) by auto
  next
    case False
    then show ?thesis using Cons.IH [of c] Cons.IH [of "c + 1"] Cons.prems by auto
  qed
qed (use assms(5) in simp)

lemma within_any:
  assumes "hi = lo + w" "sorted ts" "\<And>s c. b = Some (s, c) \<Longrightarrow> 1 \<le> c" "1 \<le> m"
  shows "int (within lo hi (granted (fixed_window m w b ts) ts)) \<le> 2 * m"
  using assms(2,3)
proof (induction ts arbitrary: b)
  case (Cons t ts)
  have srt: "sorted ts" using Cons.prems(1) by simp
  have IH: "int (within lo hi (granted (fixed_window m w (Some (s, c)) ts) ts)) \<le> 2 * m" if "1 \<le> c" for s c
    using Cons.IH [OF srt, of "Some (s, c)"] that by simp
  show ?case
  proof (cases "lo \<le> t")
    case True
    then have lo: "\<forall>u \<in> set (t # ts). lo \<le> u" using Cons.prems(1) by auto
    show ?thesis
    proof (cases b)
      case None
      have "int (within lo hi (granted (fixed_window m w (Some (t, 1)) ts) ts)) \<le> max 0 (m - 1)"
        using True assms(1,4) srt by (intro within_one) auto
      then show ?thesis using assms(4) by (simp add: None)
    next
      case (Some p)
      obtain s c where p: "p = (s, c)" by (cases p)
      then have c: "1 \<le> c" using Cons.prems(2) Some by simp
      have "int (within lo hi (granted (fixed_window m w (Some (s, c)) (t # ts)) (t # ts))) \<le> max 0 (m - c) + m"
        by (rule within_two [OF assms(1) Cons.prems(1) lo c assms(4)])
      also have "\<dots> \<le> 2 * m" using c assms(4) by auto
      finally show ?thesis by (simp add: Some p)
    qed
  next
    case False
    then show ?thesis
    proof (cases b)
      case (Some p)
      obtain s c where p: "p = (s, c)" by (cases p)
      then have "1 \<le> c" using Cons.prems(2) Some by simp
      then show ?thesis using False IH [of c s] IH [of "c + 1" s] IH [of 1 t] by (simp add: Some p)
    qed (use IH [of 1 t] in simp)
  qed
qed (use assms(4) in simp)

text \<open>
  The rate of a client is bounded: with an empty table and a clock that does not go back,
  however the requests of many addresses are interleaved, an address gets at most twice
  \<open>max_requests\<close> requests through in any interval as long as the window. (Twice, because the
  interval can meet the end of one fixed window and the start of the next.)
\<close>

theorem request_rate_bounded:
  assumes "rate_buckets l = Map.empty" "1 \<le> max_requests l" "sorted (map snd rs)"
  shows "int (length (filter (\<lambda>((b, d), t). b = a \<and> d \<and> lo \<le> t \<and> t < lo + window_secs l)
           (zip (allow_all l rs) (map snd rs)))) \<le> 2 * max_requests l"
proof -
  have len: "length (allow_all k rs) = length rs \<and> map fst (allow_all k rs) = map fst rs" for k
  proof (induction rs arbitrary: k)
    case (Cons r rs)
    obtain b t where r: "r = (b, t)" by (cases r)
    obtain l' d where "rate_limiter_allow no_faults (Some k) (Some b) t = (d, Some l')"
      using allow_step by blast
    then show ?case using Cons by (simp add: r)
  qed simp
  have pick: "length (filter (\<lambda>((b, d), t). b = a \<and> d \<and> lo \<le> t \<and> t < hi) (zip ds ts)) =
      within lo hi (granted (map snd (filter (\<lambda>(b, d). b = a) ds))
        (map snd (filter (\<lambda>(b, t). b = a) (zip (map fst ds) ts))))" if "length ds = length ts" for ds ts hi
    using that by (induction ds ts rule: list_induct2) auto
  have "sorted (map snd (filter (\<lambda>(b, t). b = a) rs))"
    using assms(3) by (rule sorted_filter)
  then show ?thesis
    using len [of l] assms(1,2) within_any [of "lo + window_secs l" lo "window_secs l"
      "map snd (filter (\<lambda>(b, t). b = a) rs)" None "max_requests l"]
    by (simp add: pick requests_isolated zip_map_fst_snd)
qed

definition sample_limiter :: rate_limiter where
  "sample_limiter = \<lparr>max_requests = 1, window_secs = 10, rate_buckets = Map.empty, unlock_failures = []\<rparr>"

lemma request_rate_bounded_witness:
  "int (length (filter (\<lambda>((b, d), t). b = ''x'' \<and> d \<and> 0 \<le> t \<and> t < 0 + window_secs sample_limiter)
     (zip (allow_all sample_limiter [(''x'', 1), (''y'', 2), (''x'', 3)])
          (map snd [(''x'', 1), (''y'', 2), (''x'', 3)])))) \<le> 2 * max_requests sample_limiter"
  by (rule request_rate_bounded) (simp_all add: sample_limiter_def)

lemma polite_window:
  assumes "0 < w" "sorted ts" "c + int (within s (s + w) ts) \<le> m" "\<forall>t \<in> set ts. s \<le> t"
    and "\<And>lo. int (within lo (lo + w) ts) \<le> m"
  shows "list_all id (fixed_window m w (Some (s, c)) ts)"
  using assms(2-)
proof (induction ts arbitrary: s c)
  case (Cons t ts)
  have all: "int (within lo (lo + w) ts) \<le> m" for lo
    using Cons.prems(4) [of lo] by (auto split: if_splits)
  have ge: "\<forall>u \<in> set ts. t \<le> u" using Cons.prems(1) by simp
  show ?case
  proof (cases "t - s \<ge> w")
    case True
    have "1 + int (within t (t + w) ts) \<le> m"
      using Cons.prems(4) [of t] assms(1) by simp
    then show ?thesis using True Cons.IH [of 1 t] Cons.prems(1) ge all by simp
  next
    case False
    then have "c + 1 + int (within s (s + w) ts) \<le> m" using Cons.prems(2,3) by simp
    then show ?thesis using False Cons.IH [of "c + 1" s] Cons.prems(1,3) all by simp
  qed
qed simp

text \<open>
  C34: A client that keeps to the rate is never refused: if an address makes at most
  \<open>max_requests\<close> requests in any interval as long as the window, then every one of them is
  allowed, whatever the others do.
\<close>

theorem polite_client_served:
  assumes "rate_buckets l = Map.empty" "sorted (map snd rs)" "0 < window_secs l"
    and "\<And>lo. int (within lo (lo + window_secs l) (map snd (filter (\<lambda>(b, t). b = a) rs))) \<le> max_requests l"
  shows "(a, False) \<notin> set (allow_all l rs)"
proof -
  define ts where "ts = map snd (filter (\<lambda>(b, t). b = a) rs)"
  have "sorted ts" unfolding ts_def using assms(2) by (rule sorted_filter)
  then have "list_all id (fixed_window (max_requests l) (window_secs l) None ts)"
  proof (cases ts)
    case (Cons t us)
    have "1 + int (within t (t + window_secs l) us) \<le> max_requests l"
      using assms(4) [of t] assms(3) by (simp add: ts_def [symmetric] Cons)
    moreover have "int (within lo (lo + window_secs l) us) \<le> max_requests l" for lo
      using assms(4) [of lo] by (auto simp: ts_def [symmetric] Cons split: if_splits)
    ultimately show ?thesis using \<open>sorted ts\<close> assms(3) polite_window [of "window_secs l" us 1 t] by (simp add: Cons)
  qed simp
  then have "list_all id (map snd (filter (\<lambda>(b, d). b = a) (allow_all l rs)))"
    by (simp add: requests_isolated assms(1) ts_def)
  then show ?thesis by (force simp: list_all_iff)
qed

lemma polite_client_served_witness:
  "(''x'', False) \<notin> set (allow_all sample_limiter [(''x'', 1), (''y'', 2), (''y'', 3), (''x'', 11)])"
  by (rule polite_client_served) (auto simp: sample_limiter_def)

section \<open>Unlock attempts\<close>

text \<open>Attempts with the time since the one before; the clock is part of the state.\<close>

definition unlock_step :: "rate_limiter \<times> int \<Rightarrow> string \<times> bool \<times> nat \<Rightarrow> rate_limiter \<times> int" where
  "unlock_step = (\<lambda>(l, now) (ip, pw, dt).
     (the (snd (unlock_attempt no_faults (Some l) (Some ip) pw (now + int dt))), now + int dt))"

definition failures_in :: "(cptr \<times> int) list \<Rightarrow> (cptr \<Rightarrow> bool) \<Rightarrow> int \<Rightarrow> int \<Rightarrow> nat" where
  "failures_in rows p lo hi = length (filter (\<lambda>(a, t). p a \<and> lo < t \<and> t \<le> hi) rows)"

definition unlock_inv :: "rate_limiter \<times> int \<Rightarrow> bool" where
  "unlock_inv = (\<lambda>(l, now).
     (\<forall>(a, t) \<in> set (unlock_failures l). t \<le> now) \<and>
     (\<forall>ip hi. failures_in (unlock_failures l) (\<lambda>a. a = Some ip) (hi - 60) hi \<le> 5) \<and>
     (\<forall>hi. failures_in (unlock_failures l) (\<lambda>_. True) (hi - 60) hi \<le> 20))"

lemma failures_in_append [simp]:
  "failures_in (rows @ [(a, t)]) p lo hi =
     (if p a \<and> lo < t \<and> t \<le> hi then Suc (failures_in rows p lo hi) else failures_in rows p lo hi)"
  by (simp add: failures_in_def)

lemma failures_in_since:
  "c \<le> lo \<Longrightarrow> failures_in rows p lo hi \<le> failures_since rows p c"
  unfolding failures_in_def failures_since_def by (induction rows) auto

lemma unlock_step_inv:
  assumes "unlock_inv (l, now)"
  shows "unlock_inv (unlock_step (l, now) (ip, pw, dt))"
proof -
  define t where "t = now + int dt"
  define rows where "rows = unlock_failures l"
  have old: "\<forall>(a, u) \<in> set rows. u \<le> t" using assms by (auto simp: unlock_inv_def t_def rows_def)
  show ?thesis
  proof (cases "rate_limiter_unlock_allowed no_faults (Some l) (Some ip) 5 20 t \<and> \<not> pw")
    case True
    then have few: "failures_since rows (\<lambda>a. a = Some ip) (t - 60) < 5" "failures_since rows (\<lambda>_. True) (t - 60) < 20"
      by (simp_all add: rate_limiter_unlock_allowed_def no_faults_def Let_def rows_def)
    have "failures_in (rows @ [(Some ip, t)]) (\<lambda>a. a = Some b) (hi - 60) hi \<le> 5" for b hi
      using assms few(1) failures_in_since [of "t - 60" "hi - 60" rows "\<lambda>a. a = Some b" hi]
      by (cases "t \<le> hi") (auto simp: unlock_inv_def rows_def)
    moreover have "failures_in (rows @ [(Some ip, t)]) (\<lambda>_. True) (hi - 60) hi \<le> 20" for hi
      using assms few(2) failures_in_since [of "t - 60" "hi - 60" rows "\<lambda>_. True" hi]
      by (cases "t \<le> hi") (auto simp: unlock_inv_def rows_def)
    ultimately show ?thesis using True old
      by (auto simp: unlock_inv_def unlock_step_def unlock_attempt_def t_def [symmetric]
          rate_limiter_record_unlock_failure_def no_faults_def rows_def)
  next
    case False
    then show ?thesis using assms
      by (auto simp: unlock_inv_def unlock_step_def unlock_attempt_def t_def)
  qed
qed

lemma unlock_inv_fresh: "unlock_failures l = [] \<Longrightarrow> unlock_inv (l, now)"
  by (simp add: unlock_inv_def failures_in_def)

lemma limiter_create_fresh:
  "rate_limiter_create no_faults m w Map.empty [] =
     Some \<lparr>max_requests = m, window_secs = w, rate_buckets = Map.empty, unlock_failures = []\<rparr>"
  by (simp add: rate_limiter_create_def no_faults_def)

interpretation unlock_machine:
  machine "(the (rate_limiter_create no_faults m w Map.empty []), now)" unlock_step unlock_inv for m w now
  by unfold_locales (auto simp: unlock_step_inv unlock_inv_fresh limiter_create_fresh)

text \<open>
  C33: Guessing the password is slowed down: whatever attempts are made at \<open>/api/unlock\<close>, from
  whatever addresses and at whatever times, in no 60 seconds are more than 5 wrong passwords of
  one address tried and recorded, nor more than 20 of all addresses together.
\<close>

theorem unlock_guesses_bounded:
  assumes "unlock_failures l = []"
  shows "failures_in (unlock_failures (fst (run unlock_step (l, now) es))) (\<lambda>a. a = Some ip) (hi - 60) hi \<le> 5 \<and>
         failures_in (unlock_failures (fst (run unlock_step (l, now) es))) (\<lambda>_. True) (hi - 60) hi \<le> 20"
proof -
  have "unlock_inv (run unlock_step (l, now) es)"
    by (rule unlock_machine.inv_run [OF unlock_inv_fresh [OF assms]])
  then show ?thesis by (cases "run unlock_step (l, now) es") (simp add: unlock_inv_def)
qed

lemma unlock_guesses_bounded_witness:
  "failures_in (unlock_failures (fst (run unlock_step (sample_limiter, 0) [(''x'', False, 1), (''x'', False, 1)])))
     (\<lambda>a. a = Some ''x'') (10 - 60) 10 \<le> 5"
  using unlock_guesses_bounded [of sample_limiter 0 "[(''x'', False, 1), (''x'', False, 1)]" "''x''" 10]
  by (simp add: sample_limiter_def)

text \<open>The limiter fails open: only a full bucket that could be read is a reason to refuse.\<close>

lemma allow_refuses_iff:
  "fst (rate_limiter_allow fails rl ip now) = False \<longleftrightarrow>
     (\<exists>l a s c. rl = Some l \<and> ip = Some a \<and> \<not> fails SelectPrep \<and> \<not> fails SelectStep \<and>
        rate_buckets l a = Some (s, c) \<and> now - s < window_secs l \<and> max_requests l \<le> c)"
  by (auto simp: rate_limiter_allow_def split: option.split if_splits)

text \<open>With a limit of zero or less a request still passes whenever its window is over.\<close>

lemma no_limit_still_allows:
  "rate_buckets l a = Some (s, c) \<Longrightarrow> window_secs l \<le> now - s \<Longrightarrow>
     fst (rate_limiter_allow fails (Some l) (Some a) now)"
  by (simp add: rate_limiter_allow_def)

end
