(* ===== verification/TuiText.thy ===== *)
theory TuiText
  imports Prelude
begin

text \<open>
  Columns and line breaks of the terminal interface (\<open>tui/tui_chat.c\<close>): the display width of
  code points and byte ranges, truncation to a width, and greedy word wrap.

  A text is the bytes before its NUL; offsets are \<open>nat\<close>. The code points of a byte string are
  read by a walker that never stalls, also on bytes that are not UTF-8.
\<close>

section \<open>Widths\<close>

text \<open>The ranges of code points of width zero and of width two.\<close>

definition zero_ranges :: "(nat \<times> nat) list" where
  "zero_ranges = [(0x0300, 0x036f), (0x1ab0, 0x1aff), (0x1dc0, 0x1dff), (0x20d0, 0x20ff),
     (0xfe00, 0xfe0f), (0xfe20, 0xfe2f)]"

definition wide_ranges :: "(nat \<times> nat) list" where
  "wide_ranges = [(0x1100, 0x115f), (0x2e80, 0x303e), (0x3041, 0x33ff), (0x3400, 0x4dbf),
     (0x4e00, 0x9fff), (0xa000, 0xa4cf), (0xac00, 0xd7a3), (0xf900, 0xfaff), (0xfe30, 0xfe4f),
     (0xff00, 0xff60), (0xffe0, 0xffe6), (0x1f300, 0x1f64f), (0x1f680, 0x1f6ff),
     (0x1f900, 0x1f9ff), (0x20000, 0x2fffd), (0x30000, 0x3fffd)]"

definition in_ranges :: "(nat \<times> nat) list \<Rightarrow> nat \<Rightarrow> bool" where
  "in_ranges rs cp = list_ex (\<lambda>(lo, hi). lo \<le> cp \<and> cp \<le> hi) rs"

definition cp_display_width :: "nat \<Rightarrow> nat" where
  "cp_display_width cp =
     (if cp = 0 then 0
      else if cp < 0x20 \<or> (cp \<ge> 0x7f \<and> cp < 0xa0) then 0
      else if in_ranges zero_ranges cp then 0
      else if in_ranges wide_ranges cp then 2
      else 1)"

text \<open>
  One code point at the start of a text that is not empty: its number of bytes and its value. The
  six low bits of every following byte are appended.
\<close>

definition utf8_decode_cp :: "string \<Rightarrow> nat \<times> nat" where
  "utf8_decode_cp s =
     (let c = byte (hd s)
      in if c < 0x80 then (1, c)
         else let (n, top) = (if c div 32 = 6 then (2, c mod 32)
                              else if c div 16 = 14 then (3, c mod 16)
                              else (4, c mod 8))
              in if length s < n then (1, c)
                 else (n, foldl (\<lambda>cp d. cp * 64 + byte d mod 64) top (take (n - 1) (tl s))))"

lemma utf8_decode_cp_bounds:
  "0 < fst (utf8_decode_cp s)" "s \<noteq> [] \<Longrightarrow> fst (utf8_decode_cp s) \<le> length s"
  by (auto simp: utf8_decode_cp_def Let_def Suc_le_eq)

lemma drop_decoded_less: "s \<noteq> [] \<Longrightarrow> length (drop (fst (utf8_decode_cp s)) s) < length s"
  using utf8_decode_cp_bounds [of s] by (cases s) auto

function tui_chat_display_width :: "string \<Rightarrow> nat" where
  "tui_chat_display_width s =
     (if s = [] then 0
      else case utf8_decode_cp s of
             (n, cp) \<Rightarrow> cp_display_width cp + tui_chat_display_width (drop n s))"
  by auto
termination
proof (relation "measure length", goal_cases)
  case (2 s n cp)
  then show ?case using drop_decoded_less [of s] by (metis fst_conv in_measure)
qed simp

declare tui_chat_display_width.simps [simp del]

text \<open>
  How much of a text fits into \<open>max_w\<close> columns and a buffer of \<open>out_cap\<close> bytes: the
  offset at which the loop ends, from the offset, the columns used and the rest of the text.
\<close>

function truncate_loop :: "nat \<Rightarrow> nat \<Rightarrow> nat \<Rightarrow> nat \<Rightarrow> string \<Rightarrow> nat" where
  "truncate_loop max_w out_cap i w s =
     (if s = [] then i
      else case utf8_decode_cp s of
             (n, cp) \<Rightarrow>
               let cw = cp_display_width cp
               in if w + cw > max_w then i
                  else if i + n + 1 > out_cap then i
                  else if w + cw \<ge> max_w then i + n
                  else truncate_loop max_w out_cap (i + n) (w + cw) (drop n s))"
  by auto
termination
proof (relation "measure (\<lambda>(max_w, out_cap, i, w, s). length s)", goal_cases)
  case (2 max_w out_cap i w s n cp cw)
  then show ?case using drop_decoded_less [of s] by (metis case_prod_conv fst_conv in_measure)
qed simp

declare truncate_loop.simps [simp del]

definition ellipsis :: string where
  "ellipsis = [CHR 0xE2, CHR 0x80, CHR 0xA6]"

text \<open>The bytes put into the buffer, before their NUL; None if the buffer is left alone.\<close>

definition tui_chat_truncate_width :: "cptr \<Rightarrow> nat \<Rightarrow> nat \<Rightarrow> string option" where
  "tui_chat_truncate_width text max_w out_cap =
     (if out_cap < 1 then None
      else case text of
             None \<Rightarrow> Some []
           | Some t \<Rightarrow>
               if max_w < 1 then Some []
               else let i = truncate_loop max_w out_cap 0 0 t
                    in if i < length t
                       then Some (take i t @ (if out_cap - i \<ge> 4 then ellipsis else []))
                       else Some (take i t))"

section \<open>Word wrap\<close>

text \<open>
  The starts of the lines after the first: from the offset, the columns of the finished words of
  the line, the offset and the columns of the current word, and the rest of the text.
\<close>

function wrap_loop :: "nat \<Rightarrow> nat \<Rightarrow> nat \<Rightarrow> nat \<Rightarrow> nat \<Rightarrow> string \<Rightarrow> nat list" where
  "wrap_loop width i col word_start word_len s =
     (if s = [] then []
      else if hd s = LF then (i + 1) # wrap_loop width (i + 1) 0 (i + 1) 0 (tl s)
      else if hd s = SP
      then (if col + word_len + 1 > width \<and> col > 0
            then (i + 1) # wrap_loop width (i + 1) 0 (i + 1) 0 (tl s)
            else wrap_loop width (i + 1) (col + word_len + 1) (i + 1) 0 (tl s))
      else case utf8_decode_cp s of
             (n, cp) \<Rightarrow>
               let cw = cp_display_width cp; len = word_len + cw
               in if col + len > width
                  then if col > 0 \<and> len \<le> width
                       then word_start # wrap_loop width (i + n) 0 word_start len (drop n s)
                       else if len > width \<and> \<not> (col = 0 \<and> cw > width)
                       then i # wrap_loop width (i + n) 0 i cw (drop n s)
                       else wrap_loop width (i + n) (if col = 0 then len else col) word_start len (drop n s)
                  else wrap_loop width (i + n) col word_start len (drop n s))"
  by auto
termination
proof (relation "measure (\<lambda>(width, i, col, ws, wl, s). length s)", goal_cases)
  case 1 show ?case by simp
next
  case (2 width i col ws wl s) then show ?case by (cases s) auto
next
  case (3 width i col ws wl s) then show ?case by (cases s) auto
next
  case (4 width i col ws wl s) then show ?case by (cases s) auto
qed (use drop_decoded_less in \<open>fastforce simp: prod_eq_iff\<close>)+

declare wrap_loop.simps [simp del]

text \<open>All line starts; the code returns their number and writes the first \<open>cap\<close> of them.\<close>

definition wrap_starts :: "string \<Rightarrow> nat \<Rightarrow> nat list" where
  "wrap_starts text width = 0 # wrap_loop (if width < 1 then 1 else width) 0 0 0 0 text"

definition tui_chat_wrap :: "string \<Rightarrow> nat \<Rightarrow> nat \<Rightarrow> nat \<times> nat list" where
  "tui_chat_wrap text width cap =
     (length (wrap_starts text width), take cap (wrap_starts text width))"

section \<open>Walking over code points\<close>

text \<open>The offsets that the walker visits.\<close>

inductive boundary :: "string \<Rightarrow> nat \<Rightarrow> bool" where
  boundary_0: "boundary s 0"
| boundary_step: "s \<noteq> [] \<Longrightarrow> utf8_decode_cp s = (n, cp) \<Longrightarrow> boundary (drop n s) k \<Longrightarrow> boundary s (n + k)"

lemma decode_prefix:
  assumes "utf8_decode_cp (x @ y) = (n, cp)" "n \<le> length x" "x \<noteq> []"
  shows "utf8_decode_cp x = (n, cp)"
  using assms by (auto simp: utf8_decode_cp_def Let_def split: if_splits)

lemma decode_bounds:
  "utf8_decode_cp s = (n, cp) \<Longrightarrow> 0 < n" "utf8_decode_cp s = (n, cp) \<Longrightarrow> s \<noteq> [] \<Longrightarrow> n \<le> length s"
  using utf8_decode_cp_bounds [of s] by auto

lemma boundary_le: "boundary s k \<Longrightarrow> k \<le> length s"
proof (induction rule: boundary.induct)
  case (boundary_step s n cp k)
  then show ?case using decode_bounds(2) [of s n cp] by simp
qed simp

lemma boundary_prefix: "boundary (x @ y) k \<Longrightarrow> k \<le> length x \<Longrightarrow> boundary x k"
proof (induction "x @ y" k arbitrary: x rule: boundary.induct)
  case (boundary_step n cp k)
  have n: "n \<le> length x" "0 < n" using boundary_step.prems decode_bounds(1) [OF boundary_step.hyps(2)] by simp_all
  then have x: "x \<noteq> []" by auto
  have "boundary (drop n x) k" using boundary_step.hyps(4) [of "drop n x"] boundary_step.prems n by simp
  with decode_prefix [OF boundary_step.hyps(2) n(1) x] x show ?case by (intro boundary.boundary_step)
qed (rule boundary_0)

lemma boundary_trans: "boundary s k \<Longrightarrow> boundary (drop k s) j \<Longrightarrow> boundary s (k + j)"
proof (induction rule: boundary.induct)
  case (boundary_step s n cp k)
  then have "boundary (drop n s) (k + j)" by (simp add: add.commute)
  then show ?case using boundary.boundary_step [OF boundary_step.hyps(1,2)] by (simp add: add.assoc)
qed simp

lemma display_width_Nil [simp]: "tui_chat_display_width [] = 0"
  by (simp add: tui_chat_display_width.simps)

lemma display_width_step:
  "s \<noteq> [] \<Longrightarrow> utf8_decode_cp s = (n, cp) \<Longrightarrow>
     tui_chat_display_width s = cp_display_width cp + tui_chat_display_width (drop n s)"
  by (subst tui_chat_display_width.simps) simp

text \<open>At a boundary the width of a text is the sum of the widths of its parts.\<close>

lemma display_width_split:
  "boundary (x @ y) (length x) \<Longrightarrow>
     tui_chat_display_width (x @ y) = tui_chat_display_width x + tui_chat_display_width y"
proof (induction "x @ y" "length x" arbitrary: x rule: boundary.induct)
  case (boundary_step n cp k)
  have n: "n \<le> length x" "0 < n" using boundary_step.hyps(5) decode_bounds(1) [OF boundary_step.hyps(2)] by simp_all
  then have x: "x \<noteq> []" by auto
  have "tui_chat_display_width (drop n x @ y) = tui_chat_display_width (drop n x) + tui_chat_display_width y"
    using boundary_step.hyps(4) [of "drop n x"] boundary_step.hyps(5) n by simp
  then show ?case
    using display_width_step [OF boundary_step.hyps(1,2)]
      display_width_step [OF x decode_prefix [OF boundary_step.hyps(2) n(1) x]] n by simp
qed simp

lemma decode_ascii: "byte (hd s) < 128 \<Longrightarrow> utf8_decode_cp s = (1, byte (hd s))"
  by (simp add: utf8_decode_cp_def Let_def)

lemma cp_width_le: "cp_display_width cp \<le> 2"
  by (simp add: cp_display_width_def)

lemma space_width [simp]: "cp_display_width 32 = 1"
  by (simp add: cp_display_width_def in_ranges_def zero_ranges_def wide_ranges_def)

lemma newline_width [simp]: "cp_display_width 10 = 0"
  by (simp add: cp_display_width_def)

lemma chunk_width:
  assumes "s \<noteq> []" "utf8_decode_cp s = (n, cp)"
  shows "tui_chat_display_width (take n s) = cp_display_width cp" "take n s \<noteq> []"
proof -
  have n: "0 < n" "n \<le> length s" using decode_bounds [OF assms(2)] assms(1) by simp_all
  then show t: "take n s \<noteq> []" using assms(1) by simp
  have "utf8_decode_cp (take n s) = (n, cp)"
    using decode_prefix [of "take n s" "drop n s" n cp] assms(2) n t by simp
  then show "tui_chat_display_width (take n s) = cp_display_width cp"
    using display_width_step [OF t] by simp
qed

section \<open>The lines of a wrapped text\<close>

text \<open>
  The same loop with the text of the line instead of offsets: the finished words and the current
  word.
\<close>

function ref_lines :: "nat \<Rightarrow> nat \<Rightarrow> nat \<Rightarrow> string \<Rightarrow> string \<Rightarrow> string \<Rightarrow> string list" where
  "ref_lines width col len a b s =
     (if s = [] then [a @ b]
      else if hd s = LF then (a @ b @ [LF]) # ref_lines width 0 0 [] [] (tl s)
      else if hd s = SP
      then (if col + len + 1 > width \<and> col > 0
            then (a @ b @ [SP]) # ref_lines width 0 0 [] [] (tl s)
            else ref_lines width (col + len + 1) 0 (a @ b @ [SP]) [] (tl s))
      else case utf8_decode_cp s of
             (n, cp) \<Rightarrow>
               let cw = cp_display_width cp; l = len + cw
               in if col + l > width
                  then if col > 0 \<and> l \<le> width
                       then a # ref_lines width 0 l [] (b @ take n s) (drop n s)
                       else if l > width \<and> \<not> (col = 0 \<and> cw > width)
                       then (a @ b) # ref_lines width 0 cw [] (take n s) (drop n s)
                       else ref_lines width (if col = 0 then l else col) l a (b @ take n s) (drop n s)
                  else ref_lines width col l a (b @ take n s) (drop n s))"
  by auto
termination
proof (relation "measure (\<lambda>(width, col, len, a, b, s). length s)", goal_cases)
  case 1 show ?case by simp
next
  case (2 width col len a b s) then show ?case by (cases s) auto
next
  case (3 width col len a b s) then show ?case by (cases s) auto
next
  case (4 width col len a b s) then show ?case by (cases s) auto
qed (use drop_decoded_less in \<open>fastforce simp: prod_eq_iff\<close>)+

declare ref_lines.simps [simp del]

text \<open>The starts of all lines but the first, when the first starts at an offset.\<close>

fun line_offsets :: "nat \<Rightarrow> string list \<Rightarrow> nat list" where
  "line_offsets i [] = []"
| "line_offsets i [l] = []"
| "line_offsets i (l # m # ls) = (i + length l) # line_offsets (i + length l) (m # ls)"

text \<open>Induction along the walk, and the loops by the kind of the next character.\<close>

lemma walk_induct [case_names Nil LF SP cp]:
  assumes "P []" "\<And>s. P s \<Longrightarrow> P (LF # s)" "\<And>s. P s \<Longrightarrow> P (SP # s)"
    and "\<And>s n cp. s \<noteq> [] \<Longrightarrow> hd s \<noteq> LF \<Longrightarrow> hd s \<noteq> SP \<Longrightarrow> utf8_decode_cp s = (n, cp) \<Longrightarrow>
           P (drop n s) \<Longrightarrow> P s"
  shows "P s"
proof (induction s rule: length_induct)
  case (1 s)
  obtain n cp where d: "utf8_decode_cp s = (n, cp)" by fastforce
  show ?case
  proof (cases s)
    case Nil
    then show ?thesis using assms(1) by simp
  next
    case (Cons c cs)
    have "P cs" using 1 Cons by simp
    moreover have "P (drop n s)" using 1 drop_decoded_less [of s] Cons d by simp
    ultimately show ?thesis using assms(2-3) [of cs] assms(4) [OF _ _ _ d] Cons by (cases "c = LF"; cases "c = SP") auto
  qed
qed

lemma wrap_loop_eqs:
  "wrap_loop width i col ws len [] = []"
  "wrap_loop width i col ws len (LF # s) = (i + 1) # wrap_loop width (i + 1) 0 (i + 1) 0 s"
  "wrap_loop width i col ws len (SP # s) =
     (if col + len + 1 > width \<and> col > 0 then (i + 1) # wrap_loop width (i + 1) 0 (i + 1) 0 s
      else wrap_loop width (i + 1) (col + len + 1) (i + 1) 0 s)"
  by (subst wrap_loop.simps, simp)+

lemma wrap_loop_cp:
  "s \<noteq> [] \<Longrightarrow> hd s \<noteq> LF \<Longrightarrow> hd s \<noteq> SP \<Longrightarrow> utf8_decode_cp s = (n, cp) \<Longrightarrow>
   wrap_loop width i col ws len s =
     (let cw = cp_display_width cp; l = len + cw
      in if col + l > width
         then if col > 0 \<and> l \<le> width then ws # wrap_loop width (i + n) 0 ws l (drop n s)
              else if l > width \<and> \<not> (col = 0 \<and> cw > width)
              then i # wrap_loop width (i + n) 0 i cw (drop n s)
              else wrap_loop width (i + n) (if col = 0 then l else col) ws l (drop n s)
         else wrap_loop width (i + n) col ws l (drop n s))"
  by (subst wrap_loop.simps) simp

lemma ref_lines_eqs:
  "ref_lines width col len a b [] = [a @ b]"
  "ref_lines width col len a b (LF # s) = (a @ b @ [LF]) # ref_lines width 0 0 [] [] s"
  "ref_lines width col len a b (SP # s) =
     (if col + len + 1 > width \<and> col > 0 then (a @ b @ [SP]) # ref_lines width 0 0 [] [] s
      else ref_lines width (col + len + 1) 0 (a @ b @ [SP]) [] s)"
  by (subst ref_lines.simps, simp)+

lemma ref_lines_cp:
  "s \<noteq> [] \<Longrightarrow> hd s \<noteq> LF \<Longrightarrow> hd s \<noteq> SP \<Longrightarrow> utf8_decode_cp s = (n, cp) \<Longrightarrow>
   ref_lines width col len a b s =
     (let cw = cp_display_width cp; l = len + cw
      in if col + l > width
         then if col > 0 \<and> l \<le> width then a # ref_lines width 0 l [] (b @ take n s) (drop n s)
              else if l > width \<and> \<not> (col = 0 \<and> cw > width)
              then (a @ b) # ref_lines width 0 cw [] (take n s) (drop n s)
              else ref_lines width (if col = 0 then l else col) l a (b @ take n s) (drop n s)
         else ref_lines width col l a (b @ take n s) (drop n s))"
  by (subst ref_lines.simps) simp

lemma ref_lines_not_Nil: "ref_lines width col len a b s \<noteq> []"
  by (induction s arbitrary: col len a b rule: walk_induct)
    (simp_all add: ref_lines_eqs ref_lines_cp Let_def)

lemma line_offsets_Cons:
  "ls \<noteq> [] \<Longrightarrow> line_offsets i (l # ls) = (i + length l) # line_offsets (i + length l) ls"
  by (cases ls) simp_all

lemma concat_ref_lines: "concat (ref_lines width col len a b s) = a @ b @ s"
  by (induction s arbitrary: col len a b rule: walk_induct)
    (simp_all add: ref_lines_eqs ref_lines_cp Let_def)

text \<open>The loop of the code computes the starts of these lines.\<close>

lemma wrap_loop_offsets:
  "wrap_loop width (i + length a + length b) col (i + length a) len s =
     line_offsets i (ref_lines width col len a b s)"
proof (induction s arbitrary: i col len a b rule: walk_induct)
  case Nil
  show ?case by (simp add: wrap_loop_eqs ref_lines_eqs)
next
  case (LF s)
  show ?case using LF [of "i + length a + length b + 1" "[]" "[]"]
    by (simp add: wrap_loop_eqs ref_lines_eqs line_offsets_Cons ref_lines_not_Nil add.assoc)
next
  case (SP s)
  show ?case
    using SP [of "i + length a + length b + 1" "[]" "[]"] SP [of i "a @ b @ [SP]" "[]"]
    by (simp add: wrap_loop_eqs ref_lines_eqs line_offsets_Cons ref_lines_not_Nil add.assoc)
next
  case (cp s n cp)
  have n: "n \<le> length s" using decode_bounds(2) [OF cp.hyps(4,1)] .
  show ?case
    using cp.IH [of i a "b @ take n s"] cp.IH [of "i + length a" "[]" "b @ take n s"]
      cp.IH [of "i + length a + length b" "[]" "take n s"] n
    by (simp add: wrap_loop_cp [OF cp.hyps(1-4)] ref_lines_cp [OF cp.hyps(1-4)] Let_def
        line_offsets_Cons ref_lines_not_Nil add.assoc)
qed

section \<open>Every line fits\<close>

text \<open>A line fits if it does without spaces and a newline at its end, which are not visible.\<close>

definition body_fits :: "nat \<Rightarrow> string \<Rightarrow> bool" where
  "body_fits w l \<longleftrightarrow> (\<exists>x sp. l = x @ sp \<and> set sp \<subseteq> {SP, LF} \<and> tui_chat_display_width x \<le> w)"

definition line_state :: "nat \<Rightarrow> nat \<Rightarrow> nat \<Rightarrow> string \<Rightarrow> string \<Rightarrow> string \<Rightarrow> bool" where
  "line_state w col len a b s \<longleftrightarrow>
     boundary (a @ b @ s) (length a) \<and> boundary (b @ s) (length b) \<and>
     tui_chat_display_width a = col \<and> tui_chat_display_width b = len \<and>
     (col + len \<le> w \<or> b = [] \<and> body_fits w a)"

lemma body_fits_blank:
  assumes "body_fits w l" "set sp \<subseteq> {SP, LF}"
  shows "body_fits w (l @ sp)"
proof -
  obtain x sp' where "l = x @ sp'" "set sp' \<subseteq> {SP, LF}" "tui_chat_display_width x \<le> w"
    using assms(1) by (auto simp: body_fits_def)
  with assms(2) show ?thesis unfolding body_fits_def by (intro exI [of _ x] exI [of _ "sp' @ sp"]) simp
qed

lemma body_fits_narrow: "tui_chat_display_width l \<le> w \<Longrightarrow> body_fits w l"
  unfolding body_fits_def by (metis append_Nil2 empty_subsetI list.set(1))

lemma boundary_chunk: "s \<noteq> [] \<Longrightarrow> utf8_decode_cp s = (n, cp) \<Longrightarrow> boundary s n"
  using boundary_step [of s n cp 0] boundary_0 by simp

lemma line_state_fresh: "line_state w 0 0 [] [] s"
  by (simp add: line_state_def boundary_0)

lemma line_state_word:
  "boundary (b @ s) (length b) \<Longrightarrow> tui_chat_display_width b = len \<Longrightarrow> len \<le> w \<Longrightarrow> line_state w 0 len [] b s"
  by (simp add: line_state_def boundary_0)

lemma line_state_width:
  assumes "line_state w col len a b s"
  shows "tui_chat_display_width (a @ b) = col + len"
proof -
  have "boundary (a @ b) (length a)" using assms boundary_prefix [of "a @ b" s "length a"] by (simp add: line_state_def)
  then show ?thesis using display_width_split assms by (simp add: line_state_def)
qed

lemma line_state_fits:
  assumes "line_state w col len a b s"
  shows "body_fits w (a @ b)"
  using assms line_state_width [OF assms] body_fits_narrow by (auto simp: line_state_def)

text \<open>The current word grows by a code point.\<close>

lemma word_grows:
  assumes "line_state w col len a b s" "s \<noteq> []" "utf8_decode_cp s = (n, cp)"
  shows "boundary ((b @ take n s) @ drop n s) (length (b @ take n s))"
    and "tui_chat_display_width (b @ take n s) = len + cp_display_width cp"
proof -
  have n: "n \<le> length s" using decode_bounds(2) [OF assms(3,2)] .
  have b: "boundary (b @ s) (length b)" using assms(1) by (simp add: line_state_def)
  have "boundary (drop (length b) (b @ s)) n" using boundary_chunk [OF assms(2,3)] by simp
  from boundary_trans [OF b this]
  show "boundary ((b @ take n s) @ drop n s) (length (b @ take n s))" using n by simp
  have "boundary (b @ take n s) (length b)"
    using boundary_prefix [of "b @ take n s" "drop n s" "length b"] b by simp
  then show "tui_chat_display_width (b @ take n s) = len + cp_display_width cp"
    using display_width_split chunk_width [OF assms(2,3)] assms(1) by (simp add: line_state_def)
qed

text \<open>A space ends the current word.\<close>

lemma line_state_space:
  assumes "line_state w col len a b (SP # s)" "col + len + 1 \<le> w \<or> col = 0"
  shows "line_state w (col + len + 1) 0 (a @ b @ [SP]) [] s"
proof -
  have d: "utf8_decode_cp (SP # s) = (1, 32)" by (simp add: decode_ascii)
  note g = word_grows [OF assms(1) _ d]
  have a: "boundary (a @ b @ SP # s) (length a)" using assms(1) by (simp add: line_state_def)
  have bd: "boundary (a @ b @ SP # s) (length a + length (b @ [SP]))"
    using boundary_trans [OF a, of "length (b @ [SP])"] g(1) by simp
  have "boundary (a @ b @ [SP]) (length a)"
    using boundary_prefix [of "a @ b @ [SP]" s "length a"] a by simp
  then have w: "tui_chat_display_width (a @ b @ [SP]) = col + len + 1"
    using display_width_split [of a "b @ [SP]"] g(2) assms(1) by (simp add: line_state_def)
  have "col + len \<le> w \<or> col \<noteq> 0 \<or> col + len + 1 \<le> w" using assms(1)
    by (auto simp: line_state_def)
  then have "col + len + 1 \<le> w \<or> body_fits w (a @ b @ [SP])"
    using assms(2) body_fits_blank [OF line_state_fits [OF assms(1)], of "[SP]"] by auto
  with bd w show ?thesis by (simp add: line_state_def boundary_0)
qed

lemma ref_lines_fit:
  assumes "2 \<le> w" "line_state w col len a b s" "l \<in> set (ref_lines w col len a b s)"
  shows "body_fits w l"
  using assms(2,3)
proof (induction s arbitrary: col len a b rule: walk_induct)
  case Nil
  then show ?case using line_state_fits [OF Nil.prems(1)] by (simp add: ref_lines_eqs)
next
  case (LF s)
  then show ?case
    using body_fits_blank [OF line_state_fits [OF LF.prems(1)], of "[LF]"] LF.IH [OF line_state_fresh]
    by (auto simp: ref_lines_eqs)
next
  case (SP s)
  then show ?case
    using body_fits_blank [OF line_state_fits [OF SP.prems(1)], of "[SP]"] SP.IH [OF line_state_fresh]
      SP.IH [OF line_state_space [OF SP.prems(1)]]
    by (auto simp: ref_lines_eqs split: if_splits)
next
  case (cp s n cp)
  define cw where "cw = cp_display_width cp"
  have cw: "cw \<le> w" using cp_width_le [of cp] assms(1) by (simp add: cw_def)
  note g = word_grows [OF cp.prems(1) cp.hyps(1,4)]
  have st: "(col + len \<le> w \<or> b = [] \<and> len = 0 \<and> body_fits w a) \<and> tui_chat_display_width a = col"
    "boundary (a @ b @ s) (length a)"
    using cp.prems(1) by (auto simp: line_state_def)
  consider (grow) "col + (len + cw) \<le> w" | (move) "col + (len + cw) > w" "col > 0" "len + cw \<le> w"
    | (split) "col + (len + cw) > w" "len + cw > w"
    using cw by linarith
  then show ?case
  proof cases
    case grow
    then have "line_state w col (len + cw) a (b @ take n s) (drop n s)"
      using g st by (simp add: line_state_def cw_def)
    then show ?thesis using cp.IH cp.prems(2) grow
      by (simp add: ref_lines_cp [OF cp.hyps(1-4)] Let_def cw_def)
  next
    case move
    have "line_state w 0 (len + cw) [] (b @ take n s) (drop n s)"
      using line_state_word [OF g] move by (simp add: cw_def)
    moreover have "body_fits w a" using st move body_fits_narrow by auto
    ultimately show ?thesis using cp.IH cp.prems(2) move
      by (auto simp: ref_lines_cp [OF cp.hyps(1-4)] Let_def cw_def)
  next
    case split
    have "line_state w 0 cw [] (take n s) (drop n s)"
      using line_state_word [of "take n s" "drop n s" cw w] chunk_width [OF cp.hyps(1,4)]
        boundary_chunk [OF cp.hyps(1,4)] decode_bounds(2) [OF cp.hyps(4,1)] cw
      by (simp add: cw_def)
    moreover have "body_fits w (a @ b)" using line_state_fits [OF cp.prems(1)] .
    ultimately show ?thesis using cp.IH cp.prems(2) split cw
      by (auto simp: ref_lines_cp [OF cp.hyps(1-4)] Let_def cw_def)
  qed
qed

text \<open>The lines between the starts, as the renderer takes them from the text.\<close>

definition lines_between :: "string \<Rightarrow> nat list \<Rightarrow> string list" where
  "lines_between text starts =
     map (\<lambda>(i, j). take (j - i) (drop i text)) (zip starts (tl starts @ [length text]))"

lemma lines_between_offsets:
  "ls \<noteq> [] \<Longrightarrow> length pre = i \<Longrightarrow>
     lines_between (pre @ concat ls) (i # line_offsets i ls) = ls"
proof (induction i ls arbitrary: pre rule: line_offsets.induct)
  case (3 i l m ls)
  have "lines_between ((pre @ l) @ concat (m # ls)) ((i + length l) # line_offsets (i + length l) (m # ls)) = m # ls"
    using 3(1) [of "pre @ l"] 3(3) by simp
  then show ?case using 3(3) by (simp add: lines_between_def line_offsets_Cons)
qed (auto simp: lines_between_def)

text \<open>
  C25: Word wrap loses nothing and keeps to the width: the lines between the offsets that it
  returns, taken together, are the text, byte for byte; and for any width of at least two columns,
  on any bytes, each line fits without the spaces and the newline at its end.
\<close>

theorem wrap_partitions_and_fits:
  "concat (lines_between text (wrap_starts text width)) = text \<and>
   (2 \<le> width \<longrightarrow> (\<forall>l \<in> set (lines_between text (wrap_starts text width)). body_fits width l))"
proof -
  define w where "w = (if width < 1 then 1 else width)"
  define ls where "ls = ref_lines w 0 0 [] [] text"
  have cat: "concat ls = text" by (simp add: ls_def concat_ref_lines)
  have "wrap_starts text width = 0 # line_offsets 0 ls"
    using wrap_loop_offsets [of w 0 "[]" "[]" 0 0 "text"] by (simp add: wrap_starts_def w_def ls_def)
  then have "lines_between text (wrap_starts text width) = ls"
    using lines_between_offsets [of ls "[]" 0] ref_lines_not_Nil cat by (simp add: ls_def)
  moreover have "\<forall>l \<in> set ls. body_fits width l" if "2 \<le> width"
    using ref_lines_fit [OF that line_state_fresh] that by (simp add: ls_def w_def)
  ultimately show ?thesis using cat by simp
qed

lemma wrap_partitions_and_fits_witness:
  "list_all (body_fits 5) (lines_between ''hello  x'' (wrap_starts ''hello  x'' 5))"
  using wrap_partitions_and_fits [of "''hello  x''" 5] by (simp add: list_all_iff)

text \<open>In one column a wide character stays behind a narrow one: the line is three columns wide.\<close>

lemma wrap_one_column:
  "tui_chat_wrap (''a'' @ [CHR 0xE4, CHR 0xB8, CHR 0xAD]) 1 9 = (1, [0]) \<and>
   tui_chat_display_width (''a'' @ [CHR 0xE4, CHR 0xB8, CHR 0xAD]) = 3"
proof -
  have a: "utf8_decode_cp (CHR ''a'' # s) = (1, 97)" for s by (simp add: decode_ascii)
  have z: "utf8_decode_cp [CHR 0xE4, CHR 0xB8, CHR 0xAD] = (3, 0x4e2d)"
    by (simp add: utf8_decode_cp_def Let_def)
  have "cp_display_width 97 = 1" "cp_display_width 0x4e2d = 2"
    by (simp_all add: cp_display_width_def in_ranges_def zero_ranges_def wide_ranges_def)
  with a z show ?thesis
    by (simp add: tui_chat_wrap_def wrap_starts_def wrap_loop_cp [OF _ _ _ a] wrap_loop_cp [OF _ _ _ z]
        wrap_loop_eqs display_width_step [OF _ a] display_width_step [OF _ z])
qed

section \<open>Truncation\<close>

lemma truncate_loop_facts:
  "w \<le> max_w \<Longrightarrow> i + 1 \<le> out_cap \<Longrightarrow>
     (\<exists>k. truncate_loop max_w out_cap i w s = i + k \<and> boundary s k \<and> i + k + 1 \<le> out_cap \<and>
          w + tui_chat_display_width (take k s) \<le> max_w)"
proof (induction max_w out_cap i w s rule: truncate_loop.induct)
  case (1 max_w out_cap i w s)
  obtain n cp where d: "utf8_decode_cp s = (n, cp)" by fastforce
  define cw where "cw = cp_display_width cp"
  show ?case
  proof (cases "s = [] \<or> w + cw > max_w \<or> i + n + 1 > out_cap")
    case True
    then have "truncate_loop max_w out_cap i w s = i"
      by (subst truncate_loop.simps) (auto simp: d cw_def Let_def)
    then show ?thesis using "1.prems" by (intro exI [of _ 0]) (simp add: boundary_0)
  next
    case False
    then have s: "s \<noteq> []" and fit: "w + cw \<le> max_w" "i + n + 1 \<le> out_cap" by simp_all
    have n: "n \<le> length s" using decode_bounds(2) [OF d s] .
    show ?thesis
    proof (cases "w + cw \<ge> max_w")
      case True
      then have "truncate_loop max_w out_cap i w s = i + n" using s fit
        by (subst truncate_loop.simps) (simp add: d cw_def)
      then show ?thesis using boundary_chunk [OF s d] chunk_width [OF s d] fit
        by (intro exI [of _ n]) (simp add: cw_def)
    next
      case less: False
      then have eq: "truncate_loop max_w out_cap i w s = truncate_loop max_w out_cap (i + n) (w + cw) (drop n s)"
        using s fit by (subst truncate_loop.simps) (simp add: d cw_def)
      obtain k where k: "truncate_loop max_w out_cap (i + n) (w + cw) (drop n s) = i + n + k"
        "boundary (drop n s) k" "i + n + k + 1 \<le> out_cap"
        "w + cw + tui_chat_display_width (take k (drop n s)) \<le> max_w"
        using "1.IH" [OF s d [symmetric] cw_def] less fit by force
      have b: "boundary s (n + k)" using boundary_step [OF s d k(2)] .
      have "boundary (take (n + k) s) n"
        using boundary_prefix [of "take (n + k) s" "drop (n + k) s" n] boundary_chunk [OF s d]
          boundary_le [OF b] by simp
      then have "tui_chat_display_width (take (n + k) s) = cw + tui_chat_display_width (take k (drop n s))"
        using display_width_split [of "take n s" "take k (drop n s)"] chunk_width [OF s d]
        by (simp add: take_add cw_def min.absorb2 [OF n])
      then show ?thesis using k b eq by (intro exI [of _ "n + k"]) simp
    qed
  qed
qed

text \<open>
  A truncated text is a part of the text up to a code point, not wider than asked, with or without
  the ellipsis, and it fits the buffer with its NUL.
\<close>

lemma truncate_width_spec:
  assumes "0 < out_cap" "tui_chat_truncate_width (Some t) max_w out_cap = Some r"
  shows "length r < out_cap \<and>
    (\<exists>k. boundary t k \<and> tui_chat_display_width (take k t) \<le> max_w \<and>
       (r = take k t \<or> r = take k t @ ellipsis \<and> k < length t))"
proof (cases "max_w < 1")
  case True
  then show ?thesis using assms by (auto simp: tui_chat_truncate_width_def intro!: exI [of _ 0] boundary_0)
next
  case False
  obtain k where k: "truncate_loop max_w out_cap 0 0 t = k" "boundary t k" "k + 1 \<le> out_cap"
    "tui_chat_display_width (take k t) \<le> max_w"
    using truncate_loop_facts [of 0 max_w 0 out_cap t] assms(1) by auto
  have r: "r = take k t @ (if k < length t \<and> out_cap - k \<ge> 4 then ellipsis else [])"
    using False assms k(1) by (auto simp: tui_chat_truncate_width_def Let_def split: if_splits)
  have "length ellipsis = 3" by (simp add: ellipsis_def)
  then have "length r < out_cap" using k(3) boundary_le [OF k(2)] by (simp add: r, arith)
  moreover have "r = take k t \<or> r = take k t @ ellipsis \<and> k < length t" by (simp add: r)
  ultimately show ?thesis using k(2,4) by blast
qed

text \<open>The ellipsis is not counted: a text cut to two columns takes three.\<close>

lemma truncated_too_wide:
  "tui_chat_truncate_width (Some ''abc'') 2 10 = Some (''ab'' @ ellipsis) \<and>
   tui_chat_display_width (''ab'' @ ellipsis) = 3"
proof -
  have a: "utf8_decode_cp (CHR ''a'' # s) = (1, 97)" "utf8_decode_cp (CHR ''b'' # s) = (1, 98)" for s
    by (simp_all add: decode_ascii)
  have z: "utf8_decode_cp ellipsis = (3, 0x2026)" by (simp add: utf8_decode_cp_def Let_def ellipsis_def)
  have "cp_display_width 97 = 1" "cp_display_width 98 = 1" "cp_display_width 0x2026 = 1"
    by (simp_all add: cp_display_width_def in_ranges_def zero_ranges_def wide_ranges_def)
  moreover have "ellipsis \<noteq> []" "drop 3 ellipsis = []" by (simp_all add: ellipsis_def)
  ultimately show ?thesis using a z
    by (simp add: tui_chat_truncate_width_def truncate_loop.simps Let_def
        display_width_step [OF _ a(1)] display_width_step [OF _ a(2)] display_width_step [OF _ z])
qed

end
