(* ===== verification/TuiChat.thy ===== *)
theory TuiChat
  imports TuiText CString
begin

text \<open>
  The scrollback of the terminal interface (\<open>tui/tui_chat.c\<close>): blocks of messages, the open
  streaming block, pending tool blocks, collapsing, the cache of line breaks and the scroll
  arithmetic; and the events of a reply that write to it (\<open>tui/tui.c\<close>).

  \<open>blocks\<close> are all slots of the array, \<open>chat_count\<close> how many are in use. Which allocations
  fail is the argument \<open>fails\<close>. The result of an operation is the code's return value with
  the new scrollback. A scrollback is never NULL here.
\<close>

datatype block_kind = USER | ASSISTANT | THINK | TOOL | ERROR
datatype collapse_state = COLLAPSE_AUTO | COLLAPSE_ON | COLLAPSE_OFF

record chat_block =
  b_kind :: block_kind
  b_text :: cptr
  b_title :: cptr
  b_args :: cptr
  b_collapse :: collapse_state
  wrap_width :: nat
  wrap_lines :: nat
  wrap_cache :: "nat list option"

record tui_chat =
  blocks :: "chat_block list"
  chat_count :: nat
  streaming_open :: bool
  streaming_kind :: block_kind

text \<open>A slot as \<open>calloc\<close> makes it.\<close>

definition zero_block :: chat_block where
  "zero_block = \<lparr>b_kind = USER, b_text = None, b_title = None, b_args = None,
     b_collapse = COLLAPSE_AUTO, wrap_width = 0, wrap_lines = 0, wrap_cache = None\<rparr>"

definition tui_chat_create :: tui_chat where
  "tui_chat_create = \<lparr>blocks = [], chat_count = 0, streaming_open = False, streaming_kind = USER\<rparr>"

datatype chat_alloc = GrowBlocks | TextCopy | TitleCopy | ArgsCopy | DeltaBuf | LineBuf | StartsBuf

type_synonym chat_faults = "chat_alloc \<Rightarrow> bool"

definition invalidate_wrap :: "chat_block \<Rightarrow> chat_block" where
  "invalidate_wrap b = b\<lparr>wrap_cache := None, wrap_width := 0, wrap_lines := 0\<rparr>"

definition block_free_contents :: "chat_block \<Rightarrow> chat_block" where
  "block_free_contents b =
     b\<lparr>b_text := None, b_title := None, b_args := None, wrap_cache := None, wrap_width := 0,
       wrap_lines := 0\<rparr>"

definition update_block :: "nat \<Rightarrow> (chat_block \<Rightarrow> chat_block) \<Rightarrow> tui_chat \<Rightarrow> tui_chat" where
  "update_block i f chat = chat\<lparr>blocks := (blocks chat)[i := f (blocks chat ! i)]\<rparr>"

definition tui_chat_truncate_after :: "tui_chat \<Rightarrow> nat \<Rightarrow> int \<times> tui_chat" where
  "tui_chat_truncate_after chat idx =
     (if idx \<ge> chat_count chat then (-1, chat)
      else (0, chat\<lparr>blocks := take idx (blocks chat) @
                      map block_free_contents (take (chat_count chat - idx) (drop idx (blocks chat))) @
                      drop (chat_count chat) (blocks chat),
                    chat_count := idx, streaming_open := False\<rparr>))"

section \<open>Blank lines at the edges\<close>

definition line_blank :: "char \<Rightarrow> bool" where
  "line_blank c \<longleftrightarrow> c = SP \<or> c = TAB"

lemma rtrim_by_length: "length (rtrim_by p s) \<le> length s"
  using rtrim_by_prefix [of p s] prefix_length_le by blast

lemma ltrim_by_length: "length (ltrim_by p s) \<le> length s"
  using ltrim_by_suffix [of p s] suffix_length_le by blast

function drop_blank_tail :: "string \<Rightarrow> string" where
  "drop_blank_tail s =
     (let r = rtrim_by line_blank s
      in if r \<noteq> [] \<and> last r = LF then drop_blank_tail (butlast r) else s)"
  by auto
termination
proof (relation "measure length", goal_cases)
  case (2 s r)
  then have "length (butlast r) < length r" by (cases r) auto
  also have "length r \<le> length s" using 2 rtrim_by_length by simp
  finally show ?case by simp
qed simp

function drop_blank_head :: "string \<Rightarrow> string" where
  "drop_blank_head s =
     (let r = ltrim_by line_blank s
      in if r \<noteq> [] \<and> hd r = LF then drop_blank_head (tl r) else s)"
  by auto
termination
proof (relation "measure length", goal_cases)
  case (2 s r)
  then have "length (tl r) < length r" by (cases r) auto
  also have "length r \<le> length s" using 2 ltrim_by_length by simp
  finally show ?case by simp
qed simp

declare drop_blank_tail.simps [simp del] drop_blank_head.simps [simp del]

definition trimmed :: "string \<Rightarrow> string" where
  "trimmed t =
     (let s = drop_blank_head (drop_blank_tail t)
      in if list_all (\<lambda>c. line_blank c \<or> c = LF) s then [] else s)"

definition trim_blank_lines :: "chat_block \<Rightarrow> chat_block" where
  "trim_blank_lines b =
     (case b_text b of None \<Rightarrow> b
      | Some t \<Rightarrow> if trimmed t \<noteq> t then invalidate_wrap (b\<lparr>b_text := Some (trimmed t)\<rparr>) else b)"

definition seal_streaming :: "tui_chat \<Rightarrow> tui_chat" where
  "seal_streaming chat =
     (if streaming_open chat \<and> chat_count chat > 0
      then update_block (chat_count chat - 1) trim_blank_lines chat else chat)
     \<lparr>streaming_open := False\<rparr>"

section \<open>Appending blocks\<close>

definition grow_blocks :: "chat_faults \<Rightarrow> tui_chat \<Rightarrow> tui_chat option" where
  "grow_blocks fails chat =
     (if chat_count chat = length (blocks chat)
      then if fails GrowBlocks then None
           else let cap = length (blocks chat); new_cap = (if cap = 0 then 8 else cap * 2)
                in Some (chat\<lparr>blocks := blocks chat @ replicate (new_cap - cap) zero_block\<rparr>)
      else Some chat)"

definition block_append3 ::
  "chat_faults \<Rightarrow> tui_chat \<Rightarrow> block_kind \<Rightarrow> cptr \<Rightarrow> cptr \<Rightarrow> cptr \<Rightarrow> int \<times> tui_chat" where
  "block_append3 fails chat kind text ttl args =
     (case grow_blocks fails chat of
        None \<Rightarrow> (-1, chat)
      | Some c \<Rightarrow>
          if fails TextCopy \<or> (ttl \<noteq> None \<and> fails TitleCopy) \<or> (args \<noteq> None \<and> fails ArgsCopy)
          then (-1, c)
          else (0, (update_block (chat_count c)
                     (\<lambda>b. b\<lparr>b_kind := kind, b_text := Some (case text of None \<Rightarrow> [] | Some t \<Rightarrow> t),
                             b_title := ttl, b_args := args\<rparr>) c)
                   \<lparr>chat_count := chat_count c + 1\<rparr>))"

definition block_append :: "chat_faults \<Rightarrow> tui_chat \<Rightarrow> block_kind \<Rightarrow> cptr \<Rightarrow> int \<times> tui_chat" where
  "block_append fails chat kind text = block_append3 fails chat kind text None None"

definition trim_last :: "tui_chat \<Rightarrow> tui_chat" where
  "trim_last chat = update_block (chat_count chat - 1) trim_blank_lines chat"

definition tui_chat_begin_user :: "chat_faults \<Rightarrow> tui_chat \<Rightarrow> cptr \<Rightarrow> int \<times> tui_chat" where
  "tui_chat_begin_user fails chat text =
     (case block_append fails (seal_streaming chat) USER text of (rc, c) \<Rightarrow>
        if rc \<noteq> 0 then (-1, c\<lparr>streaming_open := streaming_open chat\<rparr>) else (0, trim_last c))"

definition tui_chat_begin_stream :: "chat_faults \<Rightarrow> tui_chat \<Rightarrow> block_kind \<Rightarrow> int \<times> tui_chat" where
  "tui_chat_begin_stream fails chat kind =
     (if kind \<noteq> ASSISTANT \<and> kind \<noteq> THINK then (-1, chat)
      else case block_append fails (seal_streaming chat) kind (Some []) of (rc, c) \<Rightarrow>
             if rc \<noteq> 0 then (-1, c\<lparr>streaming_open := streaming_open chat\<rparr>)
             else (0, c\<lparr>streaming_open := True, streaming_kind := kind\<rparr>))"

definition text_of :: "chat_block \<Rightarrow> string" where
  "text_of b = (case b_text b of None \<Rightarrow> [] | Some t \<Rightarrow> t)"

definition tui_chat_stream_append :: "chat_faults \<Rightarrow> tui_chat \<Rightarrow> cptr \<Rightarrow> int \<times> tui_chat" where
  "tui_chat_stream_append fails chat delta =
     (case delta of None \<Rightarrow> (-1, chat)
      | Some d \<Rightarrow>
          if \<not> streaming_open chat then (0, chat)
          else if d = [] then (0, chat)
          else let idx = chat_count chat - 1; cur = text_of (blocks chat ! idx)
               in if length cur + length d > SIZE_MAX - 1 \<or> fails DeltaBuf then (-1, chat)
                  else (0, update_block idx (\<lambda>b. invalidate_wrap (b\<lparr>b_text := Some (cur @ d)\<rparr>)) chat))"

definition tui_chat_end_stream :: "tui_chat \<Rightarrow> tui_chat" where
  "tui_chat_end_stream chat = seal_streaming chat"

definition or_text :: "string \<Rightarrow> cptr \<Rightarrow> string" where
  "or_text d p = (case p of None \<Rightarrow> d | Some s \<Rightarrow> s)"

definition tui_chat_append_tool :: "chat_faults \<Rightarrow> tui_chat \<Rightarrow> cptr \<Rightarrow> cptr \<Rightarrow> int \<times> tui_chat" where
  "tui_chat_append_tool fails chat nm result =
     (if fails LineBuf then (-1, chat)
      else case block_append fails chat TOOL (Some (or_text ''(tool)'' nm @ '': '' @ or_text [] result)) of
             (rc, c) \<Rightarrow> (rc, if rc = 0 then trim_last c else c))"

definition tui_chat_begin_tool :: "chat_faults \<Rightarrow> tui_chat \<Rightarrow> cptr \<Rightarrow> cptr \<Rightarrow> int \<times> tui_chat" where
  "tui_chat_begin_tool fails chat nm args = block_append3 fails chat TOOL (Some []) nm args"

text \<open>A pending tool block gets its result.\<close>

definition fill_block :: "chat_faults \<Rightarrow> tui_chat \<Rightarrow> nat \<Rightarrow> cptr \<Rightarrow> int \<times> tui_chat" where
  "fill_block fails chat i result =
     (if fails TextCopy then (-1, chat)
      else (0, update_block i
                 (\<lambda>b. trim_blank_lines (invalidate_wrap (b\<lparr>b_text := Some (or_text [] result)\<rparr>))) chat))"

definition tui_chat_tool_finish :: "chat_faults \<Rightarrow> tui_chat \<Rightarrow> cptr \<Rightarrow> cptr \<Rightarrow> int \<times> tui_chat" where
  "tui_chat_tool_finish fails chat nm result =
     (let b = blocks chat ! (chat_count chat - 1)
      in if chat_count chat > 0 \<and> b_kind b = TOOL \<and> text_of b = []
         then fill_block fails chat (chat_count chat - 1) result
         else tui_chat_append_tool fails chat nm result)"

definition pending_named :: "cptr \<Rightarrow> chat_block \<Rightarrow> bool" where
  "pending_named nm b \<longleftrightarrow> b_kind b = TOOL \<and> text_of b = [] \<and>
     \<not> (nm \<noteq> None \<and> b_title b \<noteq> None \<and> b_title b \<noteq> nm)"

definition tui_chat_tool_finish_named :: "chat_faults \<Rightarrow> tui_chat \<Rightarrow> cptr \<Rightarrow> cptr \<Rightarrow> int \<times> tui_chat" where
  "tui_chat_tool_finish_named fails chat nm result =
     (case find_index (pending_named nm) (rev (take (chat_count chat) (blocks chat))) of
        Some k \<Rightarrow> fill_block fails chat (chat_count chat - 1 - k) result
      | None \<Rightarrow> tui_chat_append_tool fails chat nm result)"

definition tui_chat_append_error :: "chat_faults \<Rightarrow> tui_chat \<Rightarrow> cptr \<Rightarrow> int \<times> tui_chat" where
  "tui_chat_append_error fails chat text =
     (case block_append fails chat ERROR text of (rc, c) \<Rightarrow> (rc, if rc = 0 then trim_last c else c))"

section \<open>Reading blocks\<close>

definition tui_chat_block_count :: "tui_chat \<Rightarrow> nat" where
  "tui_chat_block_count chat = chat_count chat"

definition tui_chat_block_kind :: "tui_chat \<Rightarrow> nat \<Rightarrow> block_kind" where
  "tui_chat_block_kind chat idx = (if idx \<ge> chat_count chat then ERROR else b_kind (blocks chat ! idx))"

definition tui_chat_block_text :: "tui_chat \<Rightarrow> nat \<Rightarrow> cptr" where
  "tui_chat_block_text chat idx = (if idx \<ge> chat_count chat then Some [] else b_text (blocks chat ! idx))"

definition tui_chat_block_title :: "tui_chat \<Rightarrow> nat \<Rightarrow> cptr" where
  "tui_chat_block_title chat idx = (if idx \<ge> chat_count chat then None else b_title (blocks chat ! idx))"

definition tui_chat_block_args :: "tui_chat \<Rightarrow> nat \<Rightarrow> string" where
  "tui_chat_block_args chat idx =
     (if idx \<ge> chat_count chat then [] else or_text [] (b_args (blocks chat ! idx)))"

section \<open>Lines on the screen\<close>

definition COLLAPSE_THRESHOLD :: nat where "COLLAPSE_THRESHOLD = 8"

text \<open>The line starts with the end of the text, the number of lines, and the filled cache.\<close>

definition tui_chat_block_line_starts ::
  "chat_faults \<Rightarrow> tui_chat \<Rightarrow> nat \<Rightarrow> nat \<Rightarrow> (nat list option \<times> nat) \<times> tui_chat" where
  "tui_chat_block_line_starts fails chat idx width =
     (if idx \<ge> chat_count chat then ((None, 0), chat)
      else let b = blocks chat ! idx; t = text_of b; n = fst (tui_chat_wrap t width 0);
               chat1 = (if wrap_cache b = None \<or> wrap_width b \<noteq> width
                        then if fails StartsBuf then chat
                             else update_block idx
                                    (\<lambda>b. (invalidate_wrap b)
                                       \<lparr>wrap_cache := Some (snd (tui_chat_wrap t width (n + 1)) @ [length t]),
                                        wrap_width := width, wrap_lines := n\<rparr>) chat
                        else chat);
               b1 = blocks chat1 ! idx
           in ((wrap_cache b1, if wrap_cache b1 \<noteq> None then wrap_lines b1 else n), chat1))"

definition tui_chat_block_effective_collapsed ::
  "chat_faults \<Rightarrow> tui_chat \<Rightarrow> nat \<Rightarrow> nat \<Rightarrow> bool \<times> tui_chat" where
  "tui_chat_block_effective_collapsed fails chat idx width =
     (if idx \<ge> chat_count chat then (False, chat)
      else if b_kind (blocks chat ! idx) \<noteq> TOOL then (False, chat)
      else case tui_chat_block_line_starts fails chat idx width of
             ((starts, ls), c) \<Rightarrow>
               (if ls \<le> COLLAPSE_THRESHOLD then False else b_collapse (blocks c ! idx) \<noteq> COLLAPSE_OFF, c))"

definition tui_chat_block_render_lines :: "chat_faults \<Rightarrow> tui_chat \<Rightarrow> nat \<Rightarrow> nat \<Rightarrow> nat \<times> tui_chat" where
  "tui_chat_block_render_lines fails chat idx width =
     (if idx \<ge> chat_count chat then (0, chat)
      else case tui_chat_block_line_starts fails chat idx width of
             ((starts, ls), c) \<Rightarrow>
               if b_kind (blocks c ! idx) = TOOL \<and> ls > COLLAPSE_THRESHOLD
               then (case tui_chat_block_effective_collapsed fails c idx width of
                       (coll, c2) \<Rightarrow> (if coll then 1 + COLLAPSE_THRESHOLD + 1 else 1 + ls + 1, c2))
               else (1 + ls, c))"

definition tui_chat_toggle_collapse ::
  "chat_faults \<Rightarrow> tui_chat \<Rightarrow> nat \<Rightarrow> nat \<Rightarrow> collapse_state \<times> tui_chat" where
  "tui_chat_toggle_collapse fails chat idx width =
     (if idx \<ge> chat_count chat then (COLLAPSE_AUTO, chat)
      else if b_kind (blocks chat ! idx) \<noteq> TOOL then (COLLAPSE_AUTO, chat)
      else case tui_chat_block_line_starts fails chat idx width of
             ((starts, ls), c) \<Rightarrow>
               if ls \<le> COLLAPSE_THRESHOLD then (b_collapse (blocks c ! idx), c)
               else case tui_chat_block_effective_collapsed fails c idx width of
                      (coll, c2) \<Rightarrow>
                        let s = (if coll then COLLAPSE_OFF else COLLAPSE_ON)
                        in (s, update_block idx (\<lambda>b. b\<lparr>b_collapse := s\<rparr>) c2))"

definition tui_chat_total_lines :: "chat_faults \<Rightarrow> tui_chat \<Rightarrow> nat \<Rightarrow> nat \<times> tui_chat" where
  "tui_chat_total_lines fails chat width =
     (if width < 1 then (1, chat)
      else case fold (\<lambda>b (tot, c). case tui_chat_block_render_lines fails c b width of
                                       (r, c1) \<Rightarrow> (tot + r + 1, c1))
                  [0..<chat_count chat] (0, chat) of
             (tot, c) \<Rightarrow> (if tot = 0 then 1 else tot, c))"

definition tui_chat_view_clamp ::
  "chat_faults \<Rightarrow> tui_chat \<Rightarrow> nat \<Rightarrow> nat \<Rightarrow> nat \<Rightarrow> nat \<times> tui_chat" where
  "tui_chat_view_clamp fails chat width visible top_line =
     (case tui_chat_total_lines fails chat width of
        (tot, c) \<Rightarrow>
          let vis = (if visible < 1 then 1 else visible);
              max_top = (if tot > vis then tot - vis else 0)
          in (if top_line > max_top then max_top else top_line, c))"

section \<open>The events of a reply\<close>

text \<open>
  What the event handler of \<open>tui/tui.c\<close> does to the scrollback: a chunk of the answer or of the
  reasoning, the start and the end of a tool, the end of the reply with an error or without.
\<close>

datatype chat_event =
  Chunk cptr | Thinking cptr | ToolStart cptr cptr | ToolEnd cptr cptr | ReplyDone | ReplyError cptr

definition stream_event :: "chat_faults \<Rightarrow> tui_chat \<Rightarrow> block_kind \<Rightarrow> cptr \<Rightarrow> tui_chat" where
  "stream_event fails chat kind text =
     (let c = (if tui_chat_block_count chat = 0 \<or>
                  tui_chat_block_kind chat (tui_chat_block_count chat - 1) \<noteq> kind
               then snd (tui_chat_begin_stream fails chat kind) else chat)
      in snd (tui_chat_stream_append fails c text))"

definition handle_event :: "chat_faults \<Rightarrow> tui_chat \<Rightarrow> chat_event \<Rightarrow> tui_chat" where
  "handle_event fails chat ev =
     (case ev of
        Chunk t \<Rightarrow> stream_event fails chat ASSISTANT t
      | Thinking t \<Rightarrow> stream_event fails chat THINK t
      | ToolStart nm args \<Rightarrow> snd (tui_chat_begin_tool fails chat nm args)
      | ToolEnd nm result \<Rightarrow> snd (tui_chat_tool_finish_named fails chat nm result)
      | ReplyDone \<Rightarrow> tui_chat_end_stream chat
      | ReplyError t \<Rightarrow> snd (tui_chat_append_error fails (tui_chat_end_stream chat) t))"

section \<open>The cache of line breaks\<close>

text \<open>A filled cache holds the line breaks of the present text at its width.\<close>

definition coherent :: "chat_block \<Rightarrow> bool" where
  "coherent b \<longleftrightarrow> b_text b \<noteq> None \<and>
     (\<forall>st. wrap_cache b = Some st \<longrightarrow>
        st = wrap_starts (text_of b) (wrap_width b) @ [length (text_of b)] \<and>
        wrap_lines b = length (wrap_starts (text_of b) (wrap_width b)))"

text \<open>Slots that are not in use have no cache, so that a block can be put into them.\<close>

definition chat_inv :: "tui_chat \<Rightarrow> bool" where
  "chat_inv c \<longleftrightarrow> chat_count c \<le> length (blocks c) \<and>
     (\<forall>i < chat_count c. coherent (blocks c ! i)) \<and>
     (\<forall>i. chat_count c \<le> i \<and> i < length (blocks c) \<longrightarrow> wrap_cache (blocks c ! i) = None) \<and>
     (streaming_open c \<longrightarrow> 0 < chat_count c)"

lemma update_block_sel [simp]:
  "chat_count (update_block i f c) = chat_count c"
  "streaming_open (update_block i f c) = streaming_open c"
  "length (blocks (update_block i f c)) = length (blocks c)"
  "i < length (blocks c) \<Longrightarrow> blocks (update_block i f c) ! j = (if j = i then f (blocks c ! i) else blocks c ! j)"
  by (auto simp: update_block_def)

lemma coherent_text: "b_text b \<noteq> None \<Longrightarrow> wrap_cache b = None \<Longrightarrow> coherent b"
  by (simp add: coherent_def)

lemma coherent_invalidate: "b_text b \<noteq> None \<Longrightarrow> coherent (invalidate_wrap b)"
  by (simp add: coherent_def invalidate_wrap_def)

lemma coherent_trim: "coherent b \<Longrightarrow> coherent (trim_blank_lines b)"
  by (auto simp: trim_blank_lines_def coherent_invalidate split: option.split)

lemma inv_update:
  "chat_inv c \<Longrightarrow> i < chat_count c \<Longrightarrow> (coherent (blocks c ! i) \<Longrightarrow> coherent (f (blocks c ! i))) \<Longrightarrow>
     chat_inv (update_block i f c)"
  by (auto simp: chat_inv_def)

lemma inv_streaming_off: "chat_inv c \<Longrightarrow> chat_inv (c\<lparr>streaming_open := False\<rparr>)"
  by (simp add: chat_inv_def)

lemma seal_inv: "chat_inv c \<Longrightarrow> chat_inv (seal_streaming c)"
  by (auto simp: seal_streaming_def inv_streaming_off intro!: inv_streaming_off inv_update coherent_trim)

lemma seal_sel [simp]:
  "chat_count (seal_streaming c) = chat_count c" "\<not> streaming_open (seal_streaming c)"
  by (simp_all add: seal_streaming_def)

lemma grow_facts:
  assumes "grow_blocks fails c = Some d" "chat_inv c"
  shows "chat_inv d" "chat_count d = chat_count c" "chat_count d < length (blocks d)"
    "take (chat_count c) (blocks d) = take (chat_count c) (blocks c)"
    "streaming_open d = streaming_open c"
proof -
  have "d = c \<and> chat_count c \<noteq> length (blocks c) \<or>
      chat_count c = length (blocks c) \<and> (\<exists>k > 0. d = c\<lparr>blocks := blocks c @ replicate k zero_block\<rparr>)"
    using assms(1) by (auto simp: grow_blocks_def Let_def split: if_splits intro: exI [of _ "8 :: nat"])
  then have "chat_inv d \<and> chat_count d = chat_count c \<and> chat_count d < length (blocks d) \<and>
      take (chat_count c) (blocks d) = take (chat_count c) (blocks c) \<and> streaming_open d = streaming_open c"
    using assms(2) by (auto simp: chat_inv_def nth_append zero_block_def)
  then show "chat_inv d" "chat_count d = chat_count c" "chat_count d < length (blocks d)"
    "take (chat_count c) (blocks d) = take (chat_count c) (blocks c)"
    "streaming_open d = streaming_open c" by simp_all
qed

text \<open>What the user sees of a block, and of the scrollback.\<close>

definition entry :: "chat_block \<Rightarrow> block_kind \<times> string \<times> cptr \<times> cptr" where
  "entry b = (b_kind b, text_of b, b_title b, b_args b)"

definition transcript :: "tui_chat \<Rightarrow> (block_kind \<times> string \<times> cptr \<times> cptr) list" where
  "transcript c = map entry (take (chat_count c) (blocks c))"

lemma append_facts:
  assumes "block_append3 fails c kind t ttl args = (rc, d)" "chat_inv c"
  shows "chat_inv d" "rc \<noteq> 0 \<Longrightarrow> transcript d = transcript c \<and> streaming_open d = streaming_open c"
    "rc = 0 \<Longrightarrow> transcript d = transcript c @ [(kind, or_text [] t, ttl, args)] \<and> chat_count d = Suc (chat_count c)
       \<and> streaming_open d = streaming_open c"
proof -
  have "chat_inv d \<and> (rc \<noteq> 0 \<longrightarrow> transcript d = transcript c \<and> streaming_open d = streaming_open c) \<and>
      (rc = 0 \<longrightarrow> transcript d = transcript c @ [(kind, or_text [] t, ttl, args)] \<and>
         chat_count d = Suc (chat_count c) \<and> streaming_open d = streaming_open c)"
  proof (cases "grow_blocks fails c")
    case None
    then show ?thesis using assms by (simp add: block_append3_def)
  next
    case (Some e)
    note g = grow_facts [OF Some assms(2)]
    consider "rc = -1" "d = e" | "rc = 0"
      "d = (update_block (chat_count e) (\<lambda>b. b\<lparr>b_kind := kind, b_text := Some (or_text [] t),
             b_title := ttl, b_args := args\<rparr>) e)\<lparr>chat_count := chat_count e + 1\<rparr>"
      using assms(1) Some by (auto simp: block_append3_def or_text_def split: if_splits)
    then show ?thesis
    proof cases
      case 1
      then show ?thesis using g by (simp add: transcript_def)
    next
      case 2
      have "wrap_cache (blocks e ! chat_count e) = None" using g(1,3) by (simp add: chat_inv_def)
      then have "chat_inv d" using g(1,3)
        by (auto simp: 2(2) chat_inv_def less_Suc_eq intro: coherent_text)
      moreover have "transcript d = transcript c @ [(kind, or_text [] t, ttl, args)]"
        using g by (simp add: 2(2) transcript_def take_Suc_conv_app_nth update_block_def entry_def text_of_def)
      ultimately show ?thesis using g(2,5) by (simp add: 2)
    qed
  qed
  then show "chat_inv d" "rc \<noteq> 0 \<Longrightarrow> transcript d = transcript c \<and> streaming_open d = streaming_open c"
    "rc = 0 \<Longrightarrow> transcript d = transcript c @ [(kind, or_text [] t, ttl, args)] \<and> chat_count d = Suc (chat_count c)
       \<and> streaming_open d = streaming_open c" by simp_all
qed

lemma trim_last_inv: "chat_inv c \<Longrightarrow> 0 < chat_count c \<Longrightarrow> chat_inv (trim_last c)"
  by (auto simp: trim_last_def intro!: inv_update coherent_trim)

lemma inv_streaming: "chat_inv c \<Longrightarrow> 0 < chat_count c \<Longrightarrow> chat_inv (c\<lparr>streaming_open := s, streaming_kind := k\<rparr>)"
  "chat_inv c \<Longrightarrow> 0 < chat_count c \<or> \<not> s \<Longrightarrow> chat_inv (c\<lparr>streaming_open := s\<rparr>)"
  by (auto simp: chat_inv_def)

lemma append_count:
  assumes "block_append3 fails c kind t ttl args = (rc, d)"
  shows "chat_count c \<le> chat_count d" "rc = 0 \<Longrightarrow> 0 < chat_count d"
  using assms
  by (auto simp: block_append3_def grow_blocks_def Let_def split: option.splits if_splits)

lemma begin_user_inv: "chat_inv c \<Longrightarrow> chat_inv (snd (tui_chat_begin_user fails c t))"
proof -
  assume c: "chat_inv c"
  obtain rc d where a: "block_append3 fails (seal_streaming c) USER t None None = (rc, d)" by fastforce
  have "chat_inv d" by (rule append_facts(1) [OF a seal_inv [OF c]])
  moreover have "streaming_open c \<Longrightarrow> 0 < chat_count d"
    using append_count(1) [OF a] c by (auto simp: chat_inv_def)
  ultimately show ?thesis using append_count(2) [OF a]
    by (auto simp: tui_chat_begin_user_def block_append_def a intro!: trim_last_inv inv_streaming)
qed

lemma begin_stream_inv: "chat_inv c \<Longrightarrow> chat_inv (snd (tui_chat_begin_stream fails c k))"
proof -
  assume c: "chat_inv c"
  obtain rc d where a: "block_append3 fails (seal_streaming c) k (Some []) None None = (rc, d)" by fastforce
  have "chat_inv d" by (rule append_facts(1) [OF a seal_inv [OF c]])
  moreover have "streaming_open c \<Longrightarrow> 0 < chat_count d"
    using append_count(1) [OF a] c by (auto simp: chat_inv_def)
  ultimately show ?thesis using append_count(2) [OF a] c
    by (auto simp: tui_chat_begin_stream_def block_append_def a intro!: inv_streaming)
qed

lemma stream_append_inv: "chat_inv c \<Longrightarrow> chat_inv (snd (tui_chat_stream_append fails c t))"
  by (auto simp: tui_chat_stream_append_def Let_def chat_inv_def intro!: coherent_invalidate split: option.split)

lemma append_last_inv:
  assumes "chat_inv c"
  shows "chat_inv (snd (case block_append fails c k t of (rc, d) \<Rightarrow> (rc, if rc = 0 then trim_last d else d)))"
proof -
  obtain rc d where a: "block_append3 fails c k t None None = (rc, d)" by fastforce
  show ?thesis using append_facts(1) [OF a assms] append_count(2) [OF a] trim_last_inv
    by (simp add: block_append_def a)
qed

lemma append_tool_inv: "chat_inv c \<Longrightarrow> chat_inv (snd (tui_chat_append_tool fails c nm r))"
  using append_last_inv by (simp add: tui_chat_append_tool_def)

lemma append_error_inv: "chat_inv c \<Longrightarrow> chat_inv (snd (tui_chat_append_error fails c t))"
  using append_last_inv by (simp add: tui_chat_append_error_def)

lemma begin_tool_inv: "chat_inv c \<Longrightarrow> chat_inv (snd (tui_chat_begin_tool fails c nm args))"
  using append_facts(1) [of fails c TOOL "Some []" nm args]
  by (cases "block_append3 fails c TOOL (Some []) nm args") (simp add: tui_chat_begin_tool_def)

lemma fill_block_inv: "chat_inv c \<Longrightarrow> i < chat_count c \<Longrightarrow> chat_inv (snd (fill_block fails c i r))"
  by (auto simp: fill_block_def intro!: inv_update coherent_trim coherent_invalidate)

lemma pending_index:
  assumes "find_index (pending_named nm) (rev (take (chat_count c) (blocks c))) = Some k" "chat_inv c"
  shows "chat_count c - Suc k < chat_count c"
  using find_index_Some_length [OF assms(1)] by auto

lemma finish_named_inv: "chat_inv c \<Longrightarrow> chat_inv (snd (tui_chat_tool_finish_named fails c nm r))"
  using pending_index [of nm c] by (simp add: tui_chat_tool_finish_named_def append_tool_inv fill_block_inv split: option.split)

lemma tool_finish_inv: "chat_inv c \<Longrightarrow> chat_inv (snd (tui_chat_tool_finish fails c nm r))"
  by (auto simp: tui_chat_tool_finish_def Let_def append_tool_inv intro!: fill_block_inv)

lemma truncate_after_inv: "chat_inv c \<Longrightarrow> chat_inv (snd (tui_chat_truncate_after c idx))"
  by (auto simp: tui_chat_truncate_after_def chat_inv_def nth_append block_free_contents_def)

text \<open>Asking for line starts fills the cache with what a fresh computation gives.\<close>

definition fill_cache :: "nat \<Rightarrow> chat_block \<Rightarrow> chat_block" where
  "fill_cache width b = (invalidate_wrap b)
     \<lparr>wrap_cache := Some (wrap_starts (text_of b) width @ [length (text_of b)]),
      wrap_width := width, wrap_lines := length (wrap_starts (text_of b) width)\<rparr>"

lemma fill_cache_facts:
  "b_text b \<noteq> None \<Longrightarrow> coherent (fill_cache width b)" "entry (fill_cache width b) = entry b"
  "b_collapse (fill_cache width b) = b_collapse b"
  by (simp_all add: fill_cache_def coherent_def invalidate_wrap_def entry_def text_of_def)

lemma line_starts_eq:
  assumes "idx < chat_count c" "idx < length (blocks c)"
  shows "tui_chat_block_line_starts fails c idx width =
    (let b = blocks c ! idx
     in if (wrap_cache b = None \<or> wrap_width b \<noteq> width) \<and> \<not> fails StartsBuf
        then ((Some (wrap_starts (text_of b) width @ [length (text_of b)]),
               length (wrap_starts (text_of b) width)), update_block idx (fill_cache width) c)
        else ((wrap_cache b, if wrap_cache b \<noteq> None then wrap_lines b
                             else length (wrap_starts (text_of b) width)), c))"
  using assms by (auto simp: tui_chat_block_line_starts_def Let_def tui_chat_wrap_def fill_cache_def update_block_def)

text \<open>Scrollbacks that differ in their caches only.\<close>

definition same_blocks :: "tui_chat \<Rightarrow> tui_chat \<Rightarrow> bool" where
  "same_blocks c d \<longleftrightarrow> chat_count d = chat_count c \<and> streaming_open d = streaming_open c \<and>
     map entry (blocks d) = map entry (blocks c) \<and> map b_collapse (blocks d) = map b_collapse (blocks c)"

lemma same_blocks_refl: "same_blocks c c"
  by (simp add: same_blocks_def)

lemma same_blocks_trans: "same_blocks c d \<Longrightarrow> same_blocks d e \<Longrightarrow> same_blocks c e"
  by (simp add: same_blocks_def)

lemma same_blocks_nth:
  assumes "same_blocks c d" "i < length (blocks c)"
  shows "text_of (blocks d ! i) = text_of (blocks c ! i)" "b_kind (blocks d ! i) = b_kind (blocks c ! i)"
    "b_collapse (blocks d ! i) = b_collapse (blocks c ! i)"
proof -
  have len: "length (blocks d) = length (blocks c)"
    using assms(1) map_eq_imp_length_eq unfolding same_blocks_def by blast
  have "map entry (blocks d) ! i = map entry (blocks c) ! i"
    "map b_collapse (blocks d) ! i = map b_collapse (blocks c) ! i"
    using assms(1) unfolding same_blocks_def by simp_all
  then have "entry (blocks d ! i) = entry (blocks c ! i)" "b_collapse (blocks d ! i) = b_collapse (blocks c ! i)"
    using assms(2) len by simp_all
  then show "text_of (blocks d ! i) = text_of (blocks c ! i)" "b_kind (blocks d ! i) = b_kind (blocks c ! i)"
    "b_collapse (blocks d ! i) = b_collapse (blocks c ! i)" by (simp_all add: entry_def)
qed

lemma inv_in_use: "chat_inv c \<Longrightarrow> i < chat_count c \<Longrightarrow> i < length (blocks c) \<and> coherent (blocks c ! i)"
  by (auto simp: chat_inv_def)

lemma map_same_update: "f x = f (xs ! i) \<Longrightarrow> map f (xs[i := x]) = map f xs"
  by (metis list_update_id map_update)

lemma line_starts_state:
  assumes "tui_chat_block_line_starts fails c idx width = (r, d)" "chat_inv c"
  shows "chat_inv d" "same_blocks c d"
proof -
  have "chat_inv d \<and> same_blocks c d"
  proof (cases "idx < chat_count c")
    case True
    note u = inv_in_use [OF assms(2) True]
    have "d = c \<or> d = update_block idx (fill_cache width) c"
      using assms(1) line_starts_eq [OF True, of fails width] u by (auto simp: Let_def split: if_splits)
    moreover have "chat_inv (update_block idx (fill_cache width) c)"
      using assms(2) True by (auto intro!: inv_update fill_cache_facts simp: coherent_def)
    moreover have "same_blocks c (update_block idx (fill_cache width) c)"
      by (simp add: same_blocks_def update_block_def map_same_update fill_cache_facts)
    ultimately show ?thesis using assms(2) same_blocks_refl by auto
  qed (use assms in \<open>simp add: tui_chat_block_line_starts_def same_blocks_refl\<close>)
  then show "chat_inv d" "same_blocks c d" by simp_all
qed

lemma line_starts_value:
  assumes "chat_inv c" "idx < chat_count c" "\<not> fails StartsBuf"
  shows "fst (tui_chat_block_line_starts fails c idx width) =
    (Some (wrap_starts (text_of (blocks c ! idx)) width @ [length (text_of (blocks c ! idx))]),
     length (wrap_starts (text_of (blocks c ! idx)) width))"
  using assms inv_in_use [OF assms(1,2)]
  by (auto simp: line_starts_eq Let_def coherent_def)

text \<open>The rows of a block, from its text, kind and collapse state alone.\<close>

definition block_rows :: "nat \<Rightarrow> chat_block \<Rightarrow> nat" where
  "block_rows width b =
     (let n = length (wrap_starts (text_of b) width)
      in if b_kind b = TOOL \<and> n > COLLAPSE_THRESHOLD
         then (if b_collapse b \<noteq> COLLAPSE_OFF then COLLAPSE_THRESHOLD + 2 else n + 2)
         else n + 1)"

lemma collapsed_facts:
  assumes "tui_chat_block_effective_collapsed fails c idx width = (r, d)" "chat_inv c"
    "idx < chat_count c" "\<not> fails StartsBuf"
  shows "chat_inv d" "same_blocks c d"
    "b_kind (blocks c ! idx) = TOOL \<Longrightarrow> length (wrap_starts (text_of (blocks c ! idx)) width) > COLLAPSE_THRESHOLD \<Longrightarrow>
       r = (b_collapse (blocks c ! idx) \<noteq> COLLAPSE_OFF)"
proof -
  obtain st n e where s: "tui_chat_block_line_starts fails c idx width = ((st, n), e)" by (metis prod.exhaust)
  note l = line_starts_state [OF s assms(2)]
  have n: "n = length (wrap_starts (text_of (blocks c ! idx)) width)"
    using line_starts_value [where fails = fails and width = width, OF assms(2,3,4)] by (simp add: s)
  have nth: "b_collapse (blocks e ! idx) = b_collapse (blocks c ! idx)"
    using same_blocks_nth(3) [OF l(2)] inv_in_use [OF assms(2,3)] by simp
  show "chat_inv d" "same_blocks c d"
    "b_kind (blocks c ! idx) = TOOL \<Longrightarrow> length (wrap_starts (text_of (blocks c ! idx)) width) > COLLAPSE_THRESHOLD \<Longrightarrow>
       r = (b_collapse (blocks c ! idx) \<noteq> COLLAPSE_OFF)"
    using assms(1,2,3) l n nth same_blocks_refl
    by (auto simp: tui_chat_block_effective_collapsed_def s split: if_splits)
qed

lemma render_lines_facts:
  assumes "tui_chat_block_render_lines fails c idx width = (r, d)" "chat_inv c"
    "idx < chat_count c" "\<not> fails StartsBuf"
  shows "chat_inv d \<and> same_blocks c d \<and> r = block_rows width (blocks c ! idx)"
proof -
  obtain st n e where s: "tui_chat_block_line_starts fails c idx width = ((st, n), e)" by (metis prod.exhaust)
  note l = line_starts_state [OF s assms(2)]
  have n: "n = length (wrap_starts (text_of (blocks c ! idx)) width)"
    using line_starts_value [where fails = fails and width = width, OF assms(2,3,4)] by (simp add: s)
  have nth: "b_kind (blocks e ! idx) = b_kind (blocks c ! idx)" "text_of (blocks e ! idx) = text_of (blocks c ! idx)"
    "b_collapse (blocks e ! idx) = b_collapse (blocks c ! idx)"
    using same_blocks_nth [OF l(2)] inv_in_use [OF assms(2,3)] by simp_all
  have idx: "idx < chat_count e" using l(2) assms(3) by (simp add: same_blocks_def)
  show ?thesis
  proof (cases "b_kind (blocks c ! idx) = TOOL \<and> n > COLLAPSE_THRESHOLD")
    case True
    obtain coll f where k: "tui_chat_block_effective_collapsed fails e idx width = (coll, f)" by fastforce
    note kf = collapsed_facts [OF k l(1) idx assms(4)]
    show ?thesis using assms(1,3) True s k nth n kf(1) same_blocks_trans [OF l(2) kf(2)] kf(3)
      by (auto simp: tui_chat_block_render_lines_def block_rows_def Let_def split: if_splits)
  next
    case False
    then show ?thesis using assms(1,3) s nth n l
      by (auto simp: tui_chat_block_render_lines_def block_rows_def Let_def split: if_splits)
  qed
qed

lemma block_rows_same:
  "same_blocks c d \<Longrightarrow> i < length (blocks c) \<Longrightarrow> block_rows width (blocks d ! i) = block_rows width (blocks c ! i)"
  by (simp add: block_rows_def same_blocks_nth Let_def)

definition total_rows :: "nat \<Rightarrow> tui_chat \<Rightarrow> nat" where
  "total_rows width c = (\<Sum>b \<leftarrow> take (chat_count c) (blocks c). block_rows width b + 1)"

lemma total_fold:
  assumes "chat_inv c" "\<not> fails StartsBuf" "\<forall>i \<in> set js. i < chat_count c"
  shows "\<exists>d. fold (\<lambda>b (tot, c). case tui_chat_block_render_lines fails c b width of (r, c1) \<Rightarrow> (tot + r + 1, c1))
           js (k, c) = (k + (\<Sum>i \<leftarrow> js. block_rows width (blocks c ! i) + 1), d) \<and> chat_inv d \<and> same_blocks c d"
  using assms(1,3)
proof (induction js arbitrary: k c)
  case Nil
  then show ?case by (simp add: same_blocks_refl)
next
  case (Cons i js)
  obtain r e where r: "tui_chat_block_render_lines fails c i width = (r, e)" by fastforce
  have f: "chat_inv e \<and> same_blocks c e \<and> r = block_rows width (blocks c ! i)"
    using render_lines_facts [OF r Cons.prems(1) _ assms(2)] Cons.prems(2) by simp
  then have cnt: "chat_count e = chat_count c" by (simp add: same_blocks_def)
  obtain d where d: "fold (\<lambda>b (tot, c). case tui_chat_block_render_lines fails c b width of (r, c1) \<Rightarrow> (tot + r + 1, c1))
      js (k + r + 1, e) = (k + r + 1 + (\<Sum>j \<leftarrow> js. block_rows width (blocks e ! j) + 1), d)"
    "chat_inv d" "same_blocks e d"
    using Cons.IH [of e "k + r + 1"] f Cons.prems(2) cnt by auto
  have "(\<Sum>j \<leftarrow> js. block_rows width (blocks e ! j) + 1) = (\<Sum>j \<leftarrow> js. block_rows width (blocks c ! j) + 1)"
    using Cons.prems f block_rows_same [of c e] inv_in_use [OF Cons.prems(1)]
    by (intro arg_cong [where f = sum_list] map_cong) auto
  then show ?case using d r f same_blocks_trans by auto
qed

text \<open>
  Scrolling is exact: with blocks in any state of their caches, the scroll offset is cut to
  the number of rows of all blocks, computed from their texts, kinds and collapse states alone,
  less the rows that are visible.
\<close>

theorem view_clamp_exact:
  assumes "chat_inv c" "\<not> fails StartsBuf" "1 \<le> width"
  shows "fst (tui_chat_view_clamp fails c width visible top_line) =
           min top_line (max 1 (total_rows width c) - max 1 visible)"
proof -
  obtain d where d: "fold (\<lambda>b (tot, c). case tui_chat_block_render_lines fails c b width of (r, c1) \<Rightarrow> (tot + r + 1, c1))
      [0..<chat_count c] (0, c) = (0 + (\<Sum>i \<leftarrow> [0..<chat_count c]. block_rows width (blocks c ! i) + 1), d)"
    using total_fold [where fails = fails and width = width and k = 0 and c = c and js = "[0..<chat_count c]", OF assms(1,2)] by auto
  have "map (\<lambda>i. block_rows width (blocks c ! i) + 1) [0..<chat_count c] =
      map (\<lambda>b. block_rows width b + 1) (take (chat_count c) (blocks c))"
    using assms(1) by (intro nth_equalityI) (simp_all add: chat_inv_def)
  then have "(\<Sum>i \<leftarrow> [0..<chat_count c]. block_rows width (blocks c ! i) + 1) = total_rows width c"
    by (simp add: total_rows_def)
  with d assms(3) show ?thesis
    by (auto simp: tui_chat_view_clamp_def tui_chat_total_lines_def Let_def min_def max_def)
qed

lemma view_clamp_exact_witness:
  "fst (tui_chat_view_clamp (\<lambda>_. False) tui_chat_create 80 24 5) =
     min 5 (max 1 (total_rows 80 tui_chat_create) - max 1 24)"
  by (rule view_clamp_exact) (simp_all add: chat_inv_def tui_chat_create_def)

section \<open>A reply streams in\<close>

definition no_chat_faults :: chat_faults where "no_chat_faults = (\<lambda>_. False)"

lemma transcript_length: "chat_inv c \<Longrightarrow> length (transcript c) = chat_count c"
  by (simp add: transcript_def chat_inv_def)

lemma transcript_nth: "chat_inv c \<Longrightarrow> i < chat_count c \<Longrightarrow> transcript c ! i = entry (blocks c ! i)"
  by (simp add: transcript_def chat_inv_def)

lemma transcript_last:
  "chat_inv c \<Longrightarrow> 0 < chat_count c \<Longrightarrow> last (transcript c) = entry (blocks c ! (chat_count c - 1))"
  by (metis diff_less last_conv_nth length_0_conv less_irrefl transcript_length transcript_nth zero_less_one)

lemma transcript_update_last:
  assumes "chat_inv c" "0 < chat_count c"
  shows "transcript (update_block (chat_count c - 1) f c) =
           butlast (transcript c) @ [entry (f (blocks c ! (chat_count c - 1)))]"
proof -
  obtain n where n: "chat_count c = Suc n" using assms(2) gr0_conv_Suc by blast
  have less: "n < length (blocks c)" using assms(1) n by (simp add: chat_inv_def)
  then have "(take n (blocks c) @ [blocks c ! n])[n := y] = take n (blocks c) @ [y]" for y
    using list_update_length [of "take n (blocks c)" "blocks c ! n" "[]" y] by simp
  with less show ?thesis
    by (simp add: transcript_def n update_block_def take_Suc_conv_app_nth take_update_swap butlast_append)
qed

lemma append_succeeds:
  assumes "block_append3 no_chat_faults c kind t ttl args = (rc, d)"
  shows "rc = 0"
  using assms by (auto simp: block_append3_def grow_blocks_def no_chat_faults_def Let_def split: if_splits)

lemma begin_stream_transcript:
  assumes "chat_inv c" "k = ASSISTANT \<or> k = THINK"
  shows "transcript (snd (tui_chat_begin_stream no_chat_faults c k)) =
           transcript (seal_streaming c) @ [(k, [], None, None)]"
    "streaming_open (snd (tui_chat_begin_stream no_chat_faults c k))"
    "0 < chat_count (snd (tui_chat_begin_stream no_chat_faults c k))"
proof -
  obtain rc d where a: "block_append3 no_chat_faults (seal_streaming c) k (Some []) None None = (rc, d)"
    by fastforce
  have rc: "rc = 0" by (rule append_succeeds [OF a])
  note f = append_facts(3) [OF a seal_inv [OF assms(1)] rc]
  show "transcript (snd (tui_chat_begin_stream no_chat_faults c k)) =
           transcript (seal_streaming c) @ [(k, [], None, None)]"
    "streaming_open (snd (tui_chat_begin_stream no_chat_faults c k))"
    "0 < chat_count (snd (tui_chat_begin_stream no_chat_faults c k))"
    using f assms(2) by (auto simp: tui_chat_begin_stream_def block_append_def a rc transcript_def or_text_def)
qed

lemma stream_append_transcript:
  assumes "chat_inv c" "streaming_open c" "transcript c = pre @ [(k, t, ttl, args)]"
    and "length t + length d < SIZE_MAX"
  shows "transcript (snd (tui_chat_stream_append no_chat_faults c (Some d))) = pre @ [(k, t @ d, ttl, args)]"
    "streaming_open (snd (tui_chat_stream_append no_chat_faults c (Some d)))"
proof -
  have n: "0 < chat_count c" using assms(1,2) by (simp add: chat_inv_def)
  have e: "entry (blocks c ! (chat_count c - 1)) = (k, t, ttl, args)"
    using transcript_last [OF assms(1) n] assms(3) by simp
  then have t: "text_of (blocks c ! (chat_count c - 1)) = t" by (simp add: entry_def)
  have "entry (invalidate_wrap ((blocks c ! (chat_count c - 1))\<lparr>b_text := Some (t @ d)\<rparr>)) = (k, t @ d, ttl, args)"
    using e by (simp add: entry_def invalidate_wrap_def text_of_def)
  then show "transcript (snd (tui_chat_stream_append no_chat_faults c (Some d))) = pre @ [(k, t @ d, ttl, args)]"
    "streaming_open (snd (tui_chat_stream_append no_chat_faults c (Some d)))"
    using assms(2-4) t transcript_update_last [OF assms(1) n]
    by (auto simp: tui_chat_stream_append_def no_chat_faults_def Let_def)
qed

lemma seal_transcript:
  assumes "chat_inv c" "streaming_open c" "transcript c = pre @ [(k, t, ttl, args)]"
  shows "transcript (seal_streaming c) = pre @ [(k, trimmed t, ttl, args)]"
proof -
  have n: "0 < chat_count c" using assms(1,2) by (simp add: chat_inv_def)
  define b where "b = blocks c ! (chat_count c - 1)"
  have e: "entry b = (k, t, ttl, args)" using transcript_last [OF assms(1) n] assms(3) by (simp add: b_def)
  have "coherent b" using inv_in_use [OF assms(1)] n by (simp add: b_def)
  then have "b_text b = Some t" using e by (auto simp: entry_def text_of_def coherent_def)
  then have "entry (trim_blank_lines b) = (k, trimmed t, ttl, args)"
    using e by (auto simp: trim_blank_lines_def entry_def invalidate_wrap_def text_of_def)
  then have "transcript (update_block (chat_count c - 1) trim_blank_lines c) = pre @ [(k, trimmed t, ttl, args)]"
    using transcript_update_last [OF assms(1) n] assms(3) by (simp add: b_def)
  then show ?thesis using assms(2) n by (simp add: seal_streaming_def transcript_def)
qed

definition last_kind :: "tui_chat \<Rightarrow> block_kind option" where
  "last_kind c = (if transcript c = [] then None else Some (fst (last (transcript c))))"

lemma chunks_join:
  assumes "chat_inv c" "streaming_open c" "transcript c = pre @ [(ASSISTANT, t, None, None)]"
    and "length t + length (concat ds) < SIZE_MAX"
  shows "transcript (fold (\<lambda>d c. handle_event no_chat_faults c (Chunk (Some d))) ds c) =
           pre @ [(ASSISTANT, t @ concat ds, None, None)] \<and>
         streaming_open (fold (\<lambda>d c. handle_event no_chat_faults c (Chunk (Some d))) ds c) \<and>
         chat_inv (fold (\<lambda>d c. handle_event no_chat_faults c (Chunk (Some d))) ds c)"
  using assms
proof (induction ds arbitrary: c t)
  case (Cons d ds)
  have n: "0 < chat_count c" using Cons.prems(1,2) by (simp add: chat_inv_def)
  have "b_kind (blocks c ! (chat_count c - 1)) = ASSISTANT"
    using transcript_last [OF Cons.prems(1) n] Cons.prems(3) by (simp add: entry_def)
  then have h: "handle_event no_chat_faults c (Chunk (Some d)) = snd (tui_chat_stream_append no_chat_faults c (Some d))"
    using n by (simp add: handle_event_def stream_event_def tui_chat_block_count_def tui_chat_block_kind_def Let_def)
  have len: "length t + length d < SIZE_MAX" using Cons.prems(4) by simp
  note a = stream_append_transcript [OF Cons.prems(1-3) len]
  show ?case
    using Cons.IH [OF stream_append_inv [OF Cons.prems(1)] a(2,1)] Cons.prems(4) by (simp add: h)
qed simp

text \<open>
  C28: A reply arrives whole: however the answer is cut into chunks, when the reply is done the
  scrollback is what it was before, with the block that was open before sealed, and one new
  block of the assistant with the chunks joined and blank lines at its edges dropped.
\<close>

theorem reply_streams_in:
  assumes "chat_inv c" "last_kind c \<noteq> Some ASSISTANT" "ds \<noteq> []" "length (concat ds) < SIZE_MAX"
  shows "transcript (handle_event no_chat_faults
             (fold (\<lambda>d c. handle_event no_chat_faults c (Chunk (Some d))) ds c) ReplyDone) =
           transcript (seal_streaming c) @ [(ASSISTANT, trimmed (concat ds), None, None)]"
proof -
  obtain d rest where ds: "ds = d # rest" using assms(3) by (cases ds) auto
  define b where "b = snd (tui_chat_begin_stream no_chat_faults c ASSISTANT)"
  have b: "chat_inv b" "streaming_open b" "transcript b = transcript (seal_streaming c) @ [(ASSISTANT, [], None, None)]"
    using begin_stream_transcript [OF assms(1)] begin_stream_inv [OF assms(1)] by (simp_all add: b_def)
  have "chat_count c = 0 \<or> b_kind (blocks c ! (chat_count c - 1)) \<noteq> ASSISTANT"
  proof (cases "chat_count c = 0")
    case False
    then have "transcript c \<noteq> []" using transcript_length [OF assms(1)] by auto
    then have "fst (last (transcript c)) \<noteq> ASSISTANT" using assms(2) by (simp add: last_kind_def)
    then show ?thesis using transcript_last [OF assms(1)] False by (simp add: entry_def)
  qed simp
  then have "handle_event no_chat_faults c (Chunk (Some d)) = snd (tui_chat_stream_append no_chat_faults b (Some d))"
    by (auto simp: handle_event_def stream_event_def tui_chat_block_count_def tui_chat_block_kind_def Let_def b_def)
  moreover have "length ([] :: string) + length d < SIZE_MAX" using assms(4) ds by simp
  note a = stream_append_transcript [OF b this]
  ultimately have "transcript (fold (\<lambda>d c. handle_event no_chat_faults c (Chunk (Some d))) ds c) =
      transcript (seal_streaming c) @ [(ASSISTANT, concat ds, None, None)] \<and>
      streaming_open (fold (\<lambda>d c. handle_event no_chat_faults c (Chunk (Some d))) ds c) \<and>
      chat_inv (fold (\<lambda>d c. handle_event no_chat_faults c (Chunk (Some d))) ds c)"
    using chunks_join [OF stream_append_inv [OF b(1)] a(2,1), of rest] assms(4) by (simp add: ds)
  then show ?thesis using seal_transcript by (simp add: handle_event_def tui_chat_end_stream_def)
qed

lemma reply_streams_in_witness:
  "transcript (handle_event no_chat_faults
     (fold (\<lambda>d c. handle_event no_chat_faults c (Chunk (Some d))) [''a'', ''b''] tui_chat_create) ReplyDone) =
   transcript (seal_streaming tui_chat_create) @ [(ASSISTANT, trimmed (concat [''a'', ''b'']), None, None)]"
  by (rule reply_streams_in)
    (simp_all add: chat_inv_def tui_chat_create_def last_kind_def transcript_def SIZE_MAX_def)

section \<open>Everything that happens to a scrollback\<close>

datatype chat_call =
  CallUser cptr | CallEvent chat_event | CallFinish cptr cptr | CallTool cptr cptr
| CallTruncate nat | CallToggle nat nat | CallScroll nat nat nat

text \<open>A call with the allocations that fail during it.\<close>

fun chat_step :: "tui_chat \<Rightarrow> chat_faults \<times> chat_call \<Rightarrow> tui_chat" where
  "chat_step c (fails, CallUser t) = snd (tui_chat_begin_user fails c t)"
| "chat_step c (fails, CallEvent ev) = handle_event fails c ev"
| "chat_step c (fails, CallFinish nm r) = snd (tui_chat_tool_finish fails c nm r)"
| "chat_step c (fails, CallTool nm r) = snd (tui_chat_append_tool fails c nm r)"
| "chat_step c (fails, CallTruncate i) = snd (tui_chat_truncate_after c i)"
| "chat_step c (fails, CallToggle i w) = snd (tui_chat_toggle_collapse fails c i w)"
| "chat_step c (fails, CallScroll w v t) = snd (tui_chat_view_clamp fails c w v t)"

lemma handle_event_inv: "chat_inv c \<Longrightarrow> chat_inv (handle_event fails c ev)"
  by (auto simp: handle_event_def stream_event_def tui_chat_end_stream_def Let_def stream_append_inv
      begin_stream_inv begin_tool_inv finish_named_inv seal_inv append_error_inv split: chat_event.split)

lemma collapsed_inv: "chat_inv c \<Longrightarrow> chat_inv (snd (tui_chat_block_effective_collapsed fails c i w))"
  using line_starts_state(1) [of fails c i w]
  by (auto simp: tui_chat_block_effective_collapsed_def split: prod.split)

lemma render_inv: "chat_inv c \<Longrightarrow> chat_inv (snd (tui_chat_block_render_lines fails c i w))"
proof -
  assume c: "chat_inv c"
  obtain st n e where s: "tui_chat_block_line_starts fails c i w = ((st, n), e)" by (metis prod.exhaust)
  obtain coll f where k: "tui_chat_block_effective_collapsed fails e i w = (coll, f)" by fastforce
  have e: "chat_inv e" using line_starts_state(1) [OF s c] .
  have "chat_inv f" using collapsed_inv [OF e, of fails i w] by (simp add: k)
  with c e show ?thesis by (simp add: tui_chat_block_render_lines_def s k)
qed

lemma fold_render_inv:
  "chat_inv c \<Longrightarrow> chat_inv (snd (fold (\<lambda>b (tot, c). case tui_chat_block_render_lines fails c b w of
     (r, c1) \<Rightarrow> (tot + r + 1, c1)) js (k, c)))"
proof (induction js arbitrary: k c)
  case (Cons j js)
  obtain r e where r: "tui_chat_block_render_lines fails c j w = (r, e)" by fastforce
  then show ?case using Cons render_inv [OF Cons.prems, of fails j w] by simp
qed simp

lemma scroll_inv: "chat_inv c \<Longrightarrow> chat_inv (snd (tui_chat_view_clamp fails c w v t))"
  using fold_render_inv [of c fails w "[0..<chat_count c]" 0]
  by (auto simp: tui_chat_view_clamp_def tui_chat_total_lines_def Let_def split: prod.split)

lemma toggle_inv: "chat_inv c \<Longrightarrow> chat_inv (snd (tui_chat_toggle_collapse fails c i w))"
proof -
  assume c: "chat_inv c"
  obtain st n e where s: "tui_chat_block_line_starts fails c i w = ((st, n), e)" by (metis prod.exhaust)
  obtain coll f where k: "tui_chat_block_effective_collapsed fails e i w = (coll, f)" by fastforce
  have e: "chat_inv e" "chat_count e = chat_count c"
    using line_starts_state [OF s c] by (simp_all add: same_blocks_def)
  have f: "chat_inv f" using collapsed_inv [OF e(1), of fails i w] by (simp add: k)
  have "chat_count f = chat_count e"
  proof -
    obtain st' n' e' where s': "tui_chat_block_line_starts fails e i w = ((st', n'), e')" by (metis prod.exhaust)
    show ?thesis using k line_starts_state(2) [OF s' e(1)]
      by (auto simp: tui_chat_block_effective_collapsed_def s' same_blocks_def split: if_splits)
  qed
  then have "chat_inv (update_block i (\<lambda>b. b\<lparr>b_collapse := x\<rparr>) f)" if "i < chat_count c" for x
    using f e(2) that by (auto intro!: inv_update simp: coherent_def text_of_def)
  then show ?thesis using c e(1) by (auto simp: tui_chat_toggle_collapse_def s k Let_def)
qed

lemma chat_step_inv: "chat_inv c \<Longrightarrow> chat_inv (chat_step c e)"
  by (cases "(c, e)" rule: chat_step.cases)
    (auto simp: begin_user_inv handle_event_inv tool_finish_inv append_tool_inv truncate_after_inv toggle_inv scroll_inv)

interpretation chat_machine: machine tui_chat_create chat_step chat_inv
  by unfold_locales (simp_all add: chat_step_inv, simp add: chat_inv_def tui_chat_create_def)

text \<open>
  C27: The line breaks are never stale: after any calls, in any order and with any allocations
  failing on the way, the line starts of a block at a width are those of its present text, as
  long as the array for them can be allocated.
\<close>

theorem line_breaks_current:
  assumes "idx < chat_count (run chat_step tui_chat_create es)" "\<not> fails StartsBuf"
  shows "fst (tui_chat_block_line_starts fails (run chat_step tui_chat_create es) idx width) =
    (let t = text_of (blocks (run chat_step tui_chat_create es) ! idx)
     in (Some (wrap_starts t width @ [length t]), length (wrap_starts t width)))"
  unfolding Let_def using chat_machine.inv_reachable assms by (intro line_starts_value)

lemma line_breaks_current_witness:
  "fst (tui_chat_block_line_starts no_chat_faults
     (run chat_step tui_chat_create [(no_chat_faults, CallUser (Some ''hi''))]) 0 80) =
   (let t = text_of (blocks (run chat_step tui_chat_create [(no_chat_faults, CallUser (Some ''hi''))]) ! 0)
    in (Some (wrap_starts t 80 @ [length t]), length (wrap_starts t 80)))"
proof (rule line_breaks_current)
  show "0 < chat_count (run chat_step tui_chat_create [(no_chat_faults, CallUser (Some ''hi''))])"
    by (simp add: tui_chat_begin_user_def block_append_def block_append3_def grow_blocks_def
        no_chat_faults_def tui_chat_create_def seal_streaming_def trim_last_def Let_def)
qed (simp add: no_chat_faults_def)

section \<open>Failed calls\<close>

lemma fill_block_fails: "fst (fill_block fails c i r) \<noteq> 0 \<Longrightarrow> snd (fill_block fails c i r) = c"
  by (simp add: fill_block_def split: if_splits)

lemma append_last_fails:
  assumes "chat_inv c" "fst (case block_append fails c k t of (rc, d) \<Rightarrow> (rc, if rc = 0 then trim_last d else d)) \<noteq> 0"
  shows "transcript (snd (case block_append fails c k t of (rc, d) \<Rightarrow> (rc, if rc = 0 then trim_last d else d))) = transcript c"
proof -
  obtain rc d where a: "block_append3 fails c k t None None = (rc, d)" by fastforce
  then show ?thesis using append_facts(2) [OF a assms(1)] assms(2) by (simp add: block_append_def a)
qed

text \<open>
  A call that reports a failure leaves the scrollback as it was: starting a tool, finishing
  one, appending to the open block, appending a tool or an error line.
\<close>

theorem failed_call_keeps_scrollback:
  assumes "chat_inv c"
  shows "(fst (tui_chat_begin_tool fails c nm args) \<noteq> 0 \<longrightarrow>
            transcript (snd (tui_chat_begin_tool fails c nm args)) = transcript c) \<and>
         (fst (tui_chat_tool_finish_named fails c nm r) \<noteq> 0 \<longrightarrow>
            transcript (snd (tui_chat_tool_finish_named fails c nm r)) = transcript c) \<and>
         (fst (tui_chat_stream_append fails c t) \<noteq> 0 \<longrightarrow>
            transcript (snd (tui_chat_stream_append fails c t)) = transcript c) \<and>
         (fst (tui_chat_append_tool fails c nm r) \<noteq> 0 \<longrightarrow>
            transcript (snd (tui_chat_append_tool fails c nm r)) = transcript c) \<and>
         (fst (tui_chat_append_error fails c t) \<noteq> 0 \<longrightarrow>
            transcript (snd (tui_chat_append_error fails c t)) = transcript c)"
proof -
  have "fst (tui_chat_begin_tool fails c nm args) \<noteq> 0 \<longrightarrow>
      transcript (snd (tui_chat_begin_tool fails c nm args)) = transcript c"
    using append_facts(2) [of fails c TOOL "Some []" nm args] assms
    by (cases "block_append3 fails c TOOL (Some []) nm args") (simp add: tui_chat_begin_tool_def)
  moreover have tool: "fst (tui_chat_append_tool fails c nm r) \<noteq> 0 \<longrightarrow>
      transcript (snd (tui_chat_append_tool fails c nm r)) = transcript c"
    using append_last_fails [OF assms] by (simp add: tui_chat_append_tool_def)
  moreover have "fst (tui_chat_tool_finish_named fails c nm r) \<noteq> 0 \<longrightarrow>
      transcript (snd (tui_chat_tool_finish_named fails c nm r)) = transcript c"
    using tool fill_block_fails by (auto simp: tui_chat_tool_finish_named_def split: option.split)
  moreover have "fst (tui_chat_stream_append fails c t) \<noteq> 0 \<longrightarrow>
      transcript (snd (tui_chat_stream_append fails c t)) = transcript c"
    by (simp add: tui_chat_stream_append_def Let_def split: option.split)
  moreover have "fst (tui_chat_append_error fails c t) \<noteq> 0 \<longrightarrow>
      transcript (snd (tui_chat_append_error fails c t)) = transcript c"
    using append_last_fails [OF assms] by (simp add: tui_chat_append_error_def)
  ultimately show ?thesis by blast
qed

lemma failed_call_keeps_scrollback_witness:
  "transcript (snd (tui_chat_append_error (\<lambda>_. True) tui_chat_create (Some ''x''))) = transcript tui_chat_create"
  using failed_call_keeps_scrollback [of tui_chat_create "\<lambda>_. True" None None None "Some ''x''"]
  by (simp add: chat_inv_def tui_chat_create_def tui_chat_append_error_def block_append_def block_append3_def
      grow_blocks_def)

text \<open>
  A user message that cannot be appended is not without effect: the open block has lost its blank
  lines by then, so that the stream goes on without them.
\<close>

lemma begin_user_failure_trims:
  assumes "chat_inv c" "streaming_open c" "transcript c = pre @ [(k, t, ttl, args)]" "fails TextCopy"
  shows "fst (tui_chat_begin_user fails c m) = -1"
    "transcript (snd (tui_chat_begin_user fails c m)) = pre @ [(k, trimmed t, ttl, args)]"
    "streaming_open (snd (tui_chat_begin_user fails c m))"
proof -
  obtain rc d where a: "block_append3 fails (seal_streaming c) USER m None None = (rc, d)" by fastforce
  have rc: "rc = -1" using a assms(4) by (auto simp: block_append3_def split: option.splits)
  have "transcript d = pre @ [(k, trimmed t, ttl, args)]"
    using append_facts(2) [OF a seal_inv [OF assms(1)]] seal_transcript [OF assms(1-3)] rc by simp
  then show "fst (tui_chat_begin_user fails c m) = -1"
    "transcript (snd (tui_chat_begin_user fails c m)) = pre @ [(k, trimmed t, ttl, args)]"
    "streaming_open (snd (tui_chat_begin_user fails c m))"
    using assms(2) by (simp_all add: tui_chat_begin_user_def block_append_def a rc transcript_def)
qed

text \<open>The help text is sent as a stream of a tool block, which is refused, so that nothing is shown.\<close>

lemma help_not_shown:
  "\<not> streaming_open c \<Longrightarrow>
     tui_chat_end_stream (snd (tui_chat_stream_append fails (snd (tui_chat_begin_stream fails c TOOL)) (Some help))) = c"
  by (simp add: tui_chat_begin_stream_def tui_chat_stream_append_def tui_chat_end_stream_def seal_streaming_def)

text \<open>A block put into a slot that was cut off takes over the collapse state of the block before.\<close>

lemma collapse_state_left:
  assumes "chat_inv c" "i < chat_count c"
  shows "b_collapse (blocks (snd (tui_chat_begin_tool no_chat_faults (snd (tui_chat_truncate_after c i)) nm args)) ! i) =
         b_collapse (blocks c ! i)"
proof -
  have "i < length (blocks c)" "chat_count c \<le> length (blocks c)" using assms by (auto simp: chat_inv_def)
  moreover from this have "length (take i (blocks c)) = i" by simp
  ultimately show ?thesis using assms(2)
    by (auto simp: tui_chat_begin_tool_def block_append3_def grow_blocks_def tui_chat_truncate_after_def
        no_chat_faults_def nth_append block_free_contents_def update_block_def Let_def)
qed

text \<open>When the array cannot be allocated, the breaks of another width are handed out.\<close>

lemma stale_breaks_on_failure:
  assumes "chat_inv c" "idx < chat_count c" "wrap_cache (blocks c ! idx) = Some st"
    "wrap_width (blocks c ! idx) \<noteq> width" "fails StartsBuf"
  shows "fst (tui_chat_block_line_starts fails c idx width) = (Some st, wrap_lines (blocks c ! idx))"
  using assms inv_in_use [OF assms(1,2)] by (simp add: line_starts_eq Let_def)

end
