(* ===== verification/TuiEvents.thy ===== *)
theory TuiEvents
  imports CString
begin

text \<open>
  The event ring between the worker thread and the thread of the user interface
  (\<open>tui/tui_events.c\<close>), the loop that empties it (\<open>drain_events\<close> of \<open>tui/tui.c\<close>) and
  their interleaving.

  The ring's operations hold its lock, so each is one step; a push that finds the ring full, and
  a blocking pop that finds it empty, wait, which is the result None. Of the wake-up pipe only
  matters whether there is something to read.
\<close>

datatype event_type =
  EV_CHUNK | EV_THINK | EV_TOOL_START | EV_TOOL_END | EV_TITLE | EV_ASK_USER | EV_APPROVAL
| EV_RUN_DONE | EV_SESSION | EV_STATUS | EV_PROVIDER | EV_MODEL | EV_MODELS | EV_FORK | EV_HISTORY
| EV_JOB | EV_QUIT

record tui_event =
  ev_type :: event_type
  ev_text :: cptr
  ev_extra :: cptr
  ev_result :: int
  ev_answer :: cptr
  answered :: bool
  round_trip :: bool

record tui_events =
  ring :: "tui_event option list"
  head :: nat
  ev_count :: nat
  wake :: bool

text \<open>The capacity is the length of the ring.\<close>

definition tui_events_init :: "nat \<Rightarrow> tui_events option" where
  "tui_events_init capacity =
     (if capacity < 1 then None
      else Some \<lparr>ring = replicate capacity None, head = 0, ev_count = 0, wake = False\<rparr>)"

text \<open>Both payload strings are copied; \<open>alloc\<close> says which copies succeed.\<close>

definition ev_fill :: "bool \<Rightarrow> bool \<Rightarrow> cptr \<Rightarrow> cptr \<Rightarrow> (cptr \<times> cptr) option" where
  "ev_fill text_ok extra_ok text extra =
     (if \<not> text_ok then None
      else if extra \<noteq> None \<and> \<not> extra_ok then None
      else Some (Some (case text of None \<Rightarrow> [] | Some t \<Rightarrow> t), extra))"

definition new_event :: "event_type \<Rightarrow> cptr \<Rightarrow> cptr \<Rightarrow> tui_event" where
  "new_event ty text extra =
     \<lparr>ev_type = ty, ev_text = text, ev_extra = extra, ev_result = 0, ev_answer = None,
      answered = False, round_trip = (ty = EV_ASK_USER \<or> ty = EV_APPROVAL)\<rparr>"

text \<open>Into the ring, under its lock, and the byte written to the pipe afterwards.\<close>

definition enqueue :: "tui_events \<Rightarrow> tui_event \<Rightarrow> tui_events option" where
  "enqueue evs ev =
     (if ev_count evs = length (ring evs) then None
      else Some (evs\<lparr>ring := (ring evs)[(head evs + ev_count evs) mod length (ring evs) := Some ev],
                     ev_count := ev_count evs + 1\<rparr>))"

definition write_wake :: "tui_events \<Rightarrow> tui_events" where
  "write_wake evs = evs\<lparr>wake := True\<rparr>"

definition tui_events_push ::
  "bool \<Rightarrow> bool \<Rightarrow> tui_events \<Rightarrow> event_type \<Rightarrow> cptr \<Rightarrow> cptr \<Rightarrow> (tui_event option \<times> tui_events) option" where
  "tui_events_push text_ok extra_ok evs ty text extra =
     (case ev_fill text_ok extra_ok text extra of
        None \<Rightarrow> Some (None, evs)
      | Some (t, e) \<Rightarrow>
          (case enqueue evs (new_event ty t e) of
             None \<Rightarrow> None
           | Some evs1 \<Rightarrow> Some (Some (new_event ty t e), write_wake evs1)))"

definition tui_events_pop :: "tui_events \<Rightarrow> tui_event option \<times> tui_events" where
  "tui_events_pop evs =
     (if ev_count evs = 0 then (None, evs)
      else (ring evs ! head evs,
            evs\<lparr>head := (head evs + 1) mod length (ring evs), ev_count := ev_count evs - 1\<rparr>))"

definition tui_events_pop_blocking :: "tui_events \<Rightarrow> (tui_event option \<times> tui_events) option" where
  "tui_events_pop_blocking evs = (if ev_count evs = 0 then None else Some (tui_events_pop evs))"

definition tui_events_drain_wake :: "tui_events \<Rightarrow> tui_events" where
  "tui_events_drain_wake evs = evs\<lparr>wake := False\<rparr>"

definition tui_events_empty :: "tui_events option \<Rightarrow> bool" where
  "tui_events_empty evs = (case evs of None \<Rightarrow> True | Some e \<Rightarrow> ev_count e = 0)"

text \<open>Waiting for an answer: None while there is none.\<close>

definition tui_event_wait_for_answer :: "tui_event \<Rightarrow> (int \<times> cptr \<times> int) option" where
  "tui_event_wait_for_answer ev =
     (if \<not> round_trip ev then Some (-1, None, 0)
      else if \<not> answered ev then None
      else Some (0, ev_answer ev, ev_result ev))"

definition tui_event_answer :: "tui_event \<Rightarrow> cptr \<Rightarrow> int \<Rightarrow> int \<times> tui_event" where
  "tui_event_answer ev answer result =
     (if \<not> round_trip ev then (-1, ev)
      else (0, ev\<lparr>ev_answer := answer, ev_result := result, answered := True\<rparr>))"

section \<open>A queue\<close>

text \<open>The interface: what a put adds and a get takes, seen through the contents.\<close>

datatype 'e queue_op = Put 'e | Get

locale fifo_queue =
  fixes put :: "'q \<Rightarrow> 'e \<Rightarrow> 'q option" and get :: "'q \<Rightarrow> 'e option \<times> 'q"
    and contents :: "'q \<Rightarrow> 'e list" and inv :: "'q \<Rightarrow> bool"
  assumes put_contents: "inv q \<Longrightarrow> put q e = Some q' \<Longrightarrow> inv q' \<and> contents q' = contents q @ [e]"
    and get_empty: "inv q \<Longrightarrow> contents q = [] \<Longrightarrow> get q = (None, q)"
    and get_head: "inv q \<Longrightarrow> contents q = e # es \<Longrightarrow>
                     fst (get q) = Some e \<and> inv (snd (get q)) \<and> contents (snd (get q)) = es"
begin

text \<open>A put that has to wait does not happen. The events that were put and got.\<close>

fun run_queue :: "'q \<Rightarrow> 'e queue_op list \<Rightarrow> 'e list \<times> 'e list \<times> 'q" where
  "run_queue q [] = ([], [], q)"
| "run_queue q (Put e # ops) =
     (case put q e of
        None \<Rightarrow> run_queue q ops
      | Some q' \<Rightarrow> (case run_queue q' ops of (i, out, r) \<Rightarrow> (e # i, out, r)))"
| "run_queue q (Get # ops) =
     (case get q of
        (None, q') \<Rightarrow> run_queue q' ops
      | (Some e, q') \<Rightarrow> (case run_queue q' ops of (i, out, r) \<Rightarrow> (i, e # out, r)))"

lemma in_order:
  "inv q \<Longrightarrow> run_queue q ops = (i, out, r) \<Longrightarrow> contents q @ i = out @ contents r \<and> inv r"
proof (induction q ops arbitrary: i out r rule: run_queue.induct)
  case (2 q e ops)
  then show ?case
    using put_contents by (fastforce split: option.splits prod.splits)
next
  case (3 q ops)
  show ?case
  proof (cases "contents q")
    case Nil
    then show ?thesis using 3 get_empty [OF 3(3) Nil] by auto
  next
    case (Cons e es)
    note g = get_head [OF 3(3) Cons]
    then obtain q' where q': "get q = (Some e, q')" by (metis prod.collapse)
    then show ?thesis using 3 g Cons by (auto split: prod.splits)
  qed
qed simp

end

section \<open>The ring is a queue\<close>

definition queued :: "tui_events \<Rightarrow> tui_event list" where
  "queued evs = map (\<lambda>i. the (ring evs ! ((head evs + i) mod length (ring evs)))) [0..<ev_count evs]"

definition ring_inv :: "tui_events \<Rightarrow> bool" where
  "ring_inv evs \<longleftrightarrow> 0 < length (ring evs) \<and> head evs < length (ring evs) \<and>
     ev_count evs \<le> length (ring evs) \<and>
     (\<forall>i < ev_count evs. ring evs ! ((head evs + i) mod length (ring evs)) \<noteq> None)"

lemma enqueue_facts:
  assumes "ring_inv evs" "enqueue evs ev = Some evs'"
  shows "ring_inv evs' \<and> queued evs' = queued evs @ [ev]"
proof -
  define c h n where "c = length (ring evs)" and "h = head evs" and "n = ev_count evs"
  have n: "n < c" "0 < c" using assms by (auto simp: ring_inv_def enqueue_def c_def n_def split: if_splits)
  have e: "evs' = evs\<lparr>ring := (ring evs)[(h + n) mod c := Some ev], ev_count := n + 1\<rparr>"
    using assms(2) by (simp add: enqueue_def c_def h_def n_def split: if_splits)
  have slot: "(ring evs)[(h + n) mod c := Some ev] ! ((h + i) mod c) =
      (if i = n then Some ev else ring evs ! ((h + i) mod c))" if "i \<le> n" for i
    using that n ring_slots_differ [of i n c h] by (auto simp: c_def nth_list_update)
  have "ring_inv evs'" using assms(1) n slot
    by (auto simp: ring_inv_def e c_def [symmetric] h_def [symmetric] n_def [symmetric] less_Suc_eq)
  moreover have "queued evs' = queued evs @ [ev]" using slot
    by (simp add: queued_def e c_def [symmetric] h_def [symmetric] n_def [symmetric])
  ultimately show ?thesis by simp
qed

lemma pop_facts:
  assumes "ring_inv evs" "queued evs = e # es"
  shows "fst (tui_events_pop evs) = Some e \<and> ring_inv (snd (tui_events_pop evs)) \<and>
         queued (snd (tui_events_pop evs)) = es"
proof -
  define c h n where "c = length (ring evs)" and "h = head evs" and "n = ev_count evs"
  obtain m where m: "n = Suc m" using assms(2) by (cases n) (simp_all add: queued_def n_def)
  have c: "h < c" "n \<le> c" using assms(1) by (simp_all add: ring_inv_def c_def h_def n_def)
  have q: "queued evs = the (ring evs ! h) # map (\<lambda>i. the (ring evs ! ((h + Suc i) mod c))) [0..<m]"
    unfolding queued_def c_def [symmetric] h_def [symmetric] n_def [symmetric] m
    using c by (simp add: upt_conv_Cons map_Suc_upt [symmetric] del: upt_Suc map_Suc_upt) 
  have "\<forall>i < n. ring evs ! ((h + i) mod c) \<noteq> None"
    using assms(1) by (simp add: ring_inv_def c_def h_def n_def)
  then have "ring evs ! ((h + 0) mod c) \<noteq> None" using m by blast
  then have "fst (tui_events_pop evs) = Some e" using q assms(2) c m
    by (auto simp: tui_events_pop_def n_def h_def)
  moreover have "ring_inv (snd (tui_events_pop evs))" using assms(1) m ring_next c
    by (auto simp: ring_inv_def tui_events_pop_def c_def [symmetric] h_def [symmetric] n_def [symmetric])
  moreover have "queued (snd (tui_events_pop evs)) = es" using q assms(2) m ring_next
    by (simp add: queued_def tui_events_pop_def c_def [symmetric] h_def [symmetric] n_def [symmetric])
  ultimately show ?thesis by simp
qed

lemma pop_empty: "queued evs = [] \<Longrightarrow> tui_events_pop evs = (None, evs)"
  by (simp add: queued_def tui_events_pop_def)

lemma queued_wake [simp]: "queued (evs\<lparr>wake := b\<rparr>) = queued evs" "ring_inv (evs\<lparr>wake := b\<rparr>) = ring_inv evs"
  by (simp_all add: queued_def ring_inv_def)

text \<open>A put is the whole push of an event that could be copied.\<close>

definition push_event :: "tui_events \<Rightarrow> tui_event \<Rightarrow> tui_events option" where
  "push_event evs ev = map_option write_wake (enqueue evs ev)"

lemma push_event_push:
  "tui_events_push True True evs ty t e =
     map_option (\<lambda>q. (Some (new_event ty (Some (case t of None \<Rightarrow> [] | Some s \<Rightarrow> s)) e), q))
       (push_event evs (new_event ty (Some (case t of None \<Rightarrow> [] | Some s \<Rightarrow> s)) e))"
  by (simp add: tui_events_push_def ev_fill_def push_event_def option.map_comp comp_def split: option.split)

interpretation event_ring: fifo_queue push_event tui_events_pop queued ring_inv
proof
  show "ring_inv q \<Longrightarrow> push_event q e = Some q' \<Longrightarrow> ring_inv q' \<and> queued q' = queued q @ [e]" for q q' e
    using enqueue_facts by (auto simp: push_event_def write_wake_def)
qed (simp_all add: pop_empty pop_facts)

lemma init_facts: "tui_events_init cap = Some evs \<Longrightarrow> ring_inv evs \<and> queued evs = []"
  by (auto simp: tui_events_init_def ring_inv_def queued_def split: if_splits)

section \<open>The two threads\<close>

text \<open>
  Where the loop of the user interface is: waiting in \<open>poll\<close>, popping events, or about to drain
  the pipe. The worker may be between its enqueue and the write to the pipe. The pipe or input
  from the terminal ends the waiting.
\<close>

datatype ui_pc = AtPoll | AtPop | AtDrain

record threads =
  evs :: tui_events
  ui :: ui_pc
  worker_owes :: bool
  sent :: "tui_event list"
  handled :: "tui_event list"

inductive thread_step :: "threads \<Rightarrow> threads \<Rightarrow> bool" where
  worker_enqueue: "\<not> worker_owes s \<Longrightarrow> enqueue (evs s) ev = Some q \<Longrightarrow>
     thread_step s (s\<lparr>evs := q, worker_owes := True, sent := sent s @ [ev]\<rparr>)"
| worker_write: "worker_owes s \<Longrightarrow>
     thread_step s (s\<lparr>evs := write_wake (evs s), worker_owes := False\<rparr>)"
| ui_woken: "ui s = AtPoll \<Longrightarrow> wake (evs s) \<Longrightarrow> thread_step s (s\<lparr>ui := AtPop\<rparr>)"
| ui_input: "ui s = AtPoll \<Longrightarrow> thread_step s (s\<lparr>ui := AtPop\<rparr>)"
| ui_pop: "ui s = AtPop \<Longrightarrow> tui_events_pop (evs s) = (Some ev, q) \<Longrightarrow>
     thread_step s (s\<lparr>evs := q, handled := handled s @ [ev]\<rparr>)"
| ui_none: "ui s = AtPop \<Longrightarrow> tui_events_pop (evs s) = (None, q) \<Longrightarrow>
     thread_step s (s\<lparr>evs := q, ui := AtDrain\<rparr>)"
| ui_drain: "ui s = AtDrain \<Longrightarrow>
     thread_step s (s\<lparr>evs := tui_events_drain_wake (evs s), ui := AtPoll\<rparr>)"

inductive reaches :: "threads \<Rightarrow> threads \<Rightarrow> bool" where
  start: "reaches s s"
| further: "reaches s t \<Longrightarrow> thread_step t u \<Longrightarrow> reaches s u"

inductive_cases thread_stepE: "thread_step s t"

definition threads_start :: "tui_events \<Rightarrow> threads" where
  "threads_start q = \<lparr>evs = q, ui = AtPoll, worker_owes = False, sent = [], handled = []\<rparr>"

lemma thread_step_fifo:
  assumes "thread_step s t" "ring_inv (evs s)" "handled s @ queued (evs s) = sent s"
  shows "ring_inv (evs t) \<and> handled t @ queued (evs t) = sent t"
  using assms
proof cases
  case (worker_enqueue ev q)
  then show ?thesis using enqueue_facts [OF assms(2) worker_enqueue(3)] assms(3) by simp
next
  case (ui_pop ev q)
  then obtain e es where "queued (evs s) = e # es" using pop_empty [of "evs s"] by (cases "queued (evs s)") auto
  then show ?thesis using pop_facts [OF assms(2)] ui_pop assms(3) by auto
next
  case (ui_none q)
  then have "queued (evs s) = []" using pop_facts [OF assms(2)] by (cases "queued (evs s)") auto
  then show ?thesis using ui_none pop_empty [of "evs s"] assms by simp
qed (simp_all add: write_wake_def tui_events_drain_wake_def assms)

text \<open>
  C29: No event is lost, doubled or overtaken: in every interleaving of the worker and the user
  interface, the events that were handled, followed by those in the ring, are the events that
  were sent, in their order.
\<close>

theorem events_in_order:
  assumes "tui_events_init capacity = Some q" "reaches (threads_start q) s"
  shows "handled s @ queued (evs s) = sent s"
proof -
  have "ring_inv (evs s) \<and> handled s @ queued (evs s) = sent s"
    using assms(2)
  proof (induction "threads_start q" s rule: reaches.induct)
    case start
    then show ?case using init_facts [OF assms(1)] by (simp add: threads_start_def)
  next
    case (further t u)
    then show ?case using thread_step_fifo by blast
  qed
  then show ?thesis by simp
qed

definition sample_ring :: tui_events where
  "sample_ring = \<lparr>ring = [None, None], head = 0, ev_count = 0, wake = False\<rparr>"

lemma sample_init: "tui_events_init 2 = Some sample_ring"
  by (simp add: tui_events_init_def sample_ring_def numeral_2_eq_2)

lemma events_in_order_witness:
  "\<exists>s. reaches (threads_start sample_ring) s \<and> handled s @ queued (evs s) = sent s \<and> sent s \<noteq> []"
proof -
  define ev where "ev = new_event EV_CHUNK (Some ''a'') None"
  obtain q where q: "enqueue sample_ring ev = Some q" by (simp add: enqueue_def sample_ring_def)
  define s where "s = (threads_start sample_ring)\<lparr>evs := q, worker_owes := True, sent := [ev]\<rparr>"
  have "thread_step (threads_start sample_ring) s"
    using thread_step.worker_enqueue [of "threads_start sample_ring" ev q] q
    by (simp add: s_def threads_start_def)
  then have r: "reaches (threads_start sample_ring) s" by (rule reaches.further [OF reaches.start])
  then have "handled s @ queued (evs s) = sent s" by (rule events_in_order [OF sample_init])
  with r show ?thesis by (intro exI [of _ s]) (simp add: s_def)
qed

text \<open>Whatever is pushed and popped by one side alone comes out in order as well.\<close>

lemma ring_delivers:
  "tui_events_init capacity = Some q \<Longrightarrow> event_ring.run_queue q ops = (i, out, r) \<Longrightarrow> i = out @ queued r"
  using event_ring.in_order [of q ops i out r] init_facts [of capacity q] by simp

text \<open>
  A wake-up can be lost: \<open>drain_events\<close> empties the ring first and the pipe afterwards. An event
  that the worker sends in between stays in the ring while the user interface waits at a pipe
  with nothing to read; only input from the terminal or a further event makes it look again.
\<close>

lemma wakeup_lost:
  "\<exists>s. reaches (threads_start sample_ring) s \<and> queued (evs s) \<noteq> [] \<and> ui s = AtPoll \<and>
       \<not> wake (evs s) \<and> \<not> worker_owes s"
proof -
  define a b where "a = new_event EV_CHUNK (Some ''a'') None" and "b = new_event EV_ASK_USER (Some ''b'') None"
  define q1 where "q1 = sample_ring\<lparr>ring := [Some a, None], ev_count := 1, wake := True\<rparr>"
  define q2 where "q2 = q1\<lparr>head := 1, ev_count := 0\<rparr>"
  define q3 where "q3 = q2\<lparr>ring := [Some a, Some b], ev_count := 1\<rparr>"
  define st where "st = (\<lambda>q u w snt h. \<lparr>evs = q, ui = u, worker_owes = w, sent = snt, handled = h\<rparr>)"
  have s0: "threads_start sample_ring = st sample_ring AtPoll False [] []" by (simp add: threads_start_def st_def)
  have 1: "thread_step (st sample_ring AtPoll False [] []) (st (q1\<lparr>wake := False\<rparr>) AtPoll True [a] [])"
    using thread_step.worker_enqueue [of "st sample_ring AtPoll False [] []" a "q1\<lparr>wake := False\<rparr>"]
    by (simp add: st_def enqueue_def sample_ring_def q1_def)
  have 2: "thread_step (st (q1\<lparr>wake := False\<rparr>) AtPoll True [a] []) (st q1 AtPoll False [a] [])"
    using thread_step.worker_write [of "st (q1\<lparr>wake := False\<rparr>) AtPoll True [a] []"]
    by (simp add: st_def write_wake_def q1_def sample_ring_def)
  have 3: "thread_step (st q1 AtPoll False [a] []) (st q1 AtPop False [a] [])"
    using thread_step.ui_woken [of "st q1 AtPoll False [a] []"] by (simp add: st_def q1_def)
  have 4: "thread_step (st q1 AtPop False [a] []) (st q2 AtPop False [a] [a])"
    using thread_step.ui_pop [of "st q1 AtPop False [a] []" a q2]
    by (simp add: st_def tui_events_pop_def q1_def q2_def sample_ring_def)
  have 5: "thread_step (st q2 AtPop False [a] [a]) (st q2 AtDrain False [a] [a])"
    using thread_step.ui_none [of "st q2 AtPop False [a] [a]" q2]
    by (simp add: st_def tui_events_pop_def q2_def)
  have 6: "thread_step (st q2 AtDrain False [a] [a]) (st q3 AtDrain True [a, b] [a])"
    using thread_step.worker_enqueue [of "st q2 AtDrain False [a] [a]" b q3]
    by (simp add: st_def enqueue_def q3_def q2_def q1_def sample_ring_def)
  have 7: "thread_step (st q3 AtDrain True [a, b] [a]) (st q3 AtDrain False [a, b] [a])"
    using thread_step.worker_write [of "st q3 AtDrain True [a, b] [a]"]
    by (simp add: st_def write_wake_def q3_def q2_def q1_def sample_ring_def)
  have 8: "thread_step (st q3 AtDrain False [a, b] [a]) (st (q3\<lparr>wake := False\<rparr>) AtPoll False [a, b] [a])"
    using thread_step.ui_drain [of "st q3 AtDrain False [a, b] [a]"]
    by (simp add: st_def tui_events_drain_wake_def)
  have "reaches (st sample_ring AtPoll False [] []) (st (q3\<lparr>wake := False\<rparr>) AtPoll False [a, b] [a])"
    using reaches.further [OF reaches.further [OF reaches.further [OF reaches.further [OF reaches.further
      [OF reaches.further [OF reaches.further [OF reaches.further [OF reaches.start 1] 2] 3] 4] 5] 6] 7] 8] .
  then show ?thesis unfolding s0
    by (intro exI [of _ "st (q3\<lparr>wake := False\<rparr>) AtPoll False [a, b] [a]"])
      (simp add: st_def queued_def q3_def q2_def q1_def sample_ring_def)
qed

text \<open>An answer is what the waiting side receives; of several answers the last.\<close>

lemma answer_received:
  "round_trip ev \<Longrightarrow> tui_event_wait_for_answer (snd (tui_event_answer ev a r)) = Some (0, a, r)"
  "round_trip ev \<Longrightarrow>
     tui_event_wait_for_answer (snd (tui_event_answer (snd (tui_event_answer ev a r)) b k)) = Some (0, b, k)"
  by (simp_all add: tui_event_answer_def tui_event_wait_for_answer_def)

end
