(* ===== verification/MdInline.thy ===== *)
theory MdInline
  imports Prelude
begin

text \<open>
  Inline markdown of the chat pane (\<open>tui/markdown.c\<close>): one line is cut into styled runs.

  A line is the list of its bytes, so its length is the code's \<open>len\<close>; offsets are \<open>nat\<close>. The
  style bits are a 32-bit word as in the code. The stack of open delimiters has the innermost one
  first.
\<close>

section \<open>Styles, runs and delimiters\<close>

definition MD_STYLE_BOLD :: u32 where "MD_STYLE_BOLD = 1"
definition MD_STYLE_ITALIC :: u32 where "MD_STYLE_ITALIC = 2"
definition MD_STYLE_CODE :: u32 where "MD_STYLE_CODE = 4"
definition MD_STYLE_STRIKE :: u32 where "MD_STYLE_STRIKE = 8"
definition MD_STYLE_LINK :: u32 where "MD_STYLE_LINK = 16"

definition MD_MAX_DEPTH :: nat where "MD_MAX_DEPTH = 8"

record md_run =
  r_start :: nat
  r_len :: nat
  r_style :: u32

type_synonym md_delim = "char \<times> u32"

definition md_isalnum :: "char \<Rightarrow> bool" where
  "md_isalnum c \<longleftrightarrow> is_lower c \<or> is_upper c \<or> is_digit c"

definition md_ispunct :: "char \<Rightarrow> bool" where
  "md_ispunct c \<longleftrightarrow> 0x21 \<le> byte c \<and> byte c \<le> 0x7e \<and>
     c \<in> set (''!'' @ [DQUOTE] @ ''#$%&'' @ [CHR 0x27] @ ''()*+,-./:;<=>?@['' @ [BACKSLASH] @ '']^_'' @
             [BACKTICK] @ ''{|}~'')"

definition run_bits :: "nat \<Rightarrow> u32" where
  "run_bits n = (if 3 \<le> n then MD_STYLE_BOLD OR MD_STYLE_ITALIC
                 else if n = 2 then MD_STYLE_BOLD else MD_STYLE_ITALIC)"

definition delim_bits :: "char \<Rightarrow> nat \<Rightarrow> u32" where
  "delim_bits c n = (if c = CHR ''~'' then MD_STYLE_STRIKE else run_bits n)"

text \<open>How often the byte at an offset is repeated from there on.\<close>

definition run_len :: "char \<Rightarrow> string \<Rightarrow> nat \<Rightarrow> nat" where
  "run_len c s i = length (takeWhile (\<lambda>d. d = c) (drop i s))"

definition flank_ok :: "string \<Rightarrow> nat \<Rightarrow> nat \<Rightarrow> char \<Rightarrow> bool \<Rightarrow> bool" where
  "flank_ok s j n ch closer =
     (if closer
      then \<not> (j = 0 \<or> s ! (j - 1) = SP) \<and>
           \<not> (ch = CHR ''_'' \<and> j + n < length s \<and> md_isalnum (s ! (j + n)))
      else \<not> (j + n \<ge> length s \<or> s ! (j + n) = SP) \<and>
           \<not> (ch = CHR ''_'' \<and> j > 0 \<and> md_isalnum (s ! (j - 1))))"

lemma run_len_pos: "i < length s \<Longrightarrow> s ! i = c \<Longrightarrow> 0 < run_len c s i"
  by (simp add: run_len_def Cons_nth_drop_Suc [symmetric])

lemma run_len_le: "i \<le> length s \<Longrightarrow> i + run_len c s i \<le> length s"
  using length_takeWhile_le [of "\<lambda>d. d = c" "drop i s"] by (simp add: run_len_def)

lemma min_run: 
  assumes "i < length s" "s ! i = c" "0 < m"
  shows "0 < min m (run_len c s i)" "i + min m (run_len c s i) \<le> length s"
  using run_len_pos [of i s c] run_len_le [of i s c] assms by auto

text \<open>The end of the code span whose backticks, \<open>m\<close> of them, end at \<open>q\<close>.\<close>

function code_close :: "string \<Rightarrow> nat \<Rightarrow> nat \<Rightarrow> nat option" where
  "code_close s m q =
     (if length s \<le> q then None
      else if s ! q = BACKTICK
      then let mm = min 2 (run_len BACKTICK s q)
           in if mm = m then Some (q + mm) else code_close s m (q + mm)
      else code_close s m (q + 1))"
  by auto
termination
proof (relation "measure (\<lambda>(s, m, q). length s - q)", goal_cases)
  case (2 s m q)
  then show ?case using min_run [of q s BACKTICK 2] by simp
qed auto

declare code_close.simps [simp del]

lemma code_close_eqs:
  "length s \<le> q \<Longrightarrow> code_close s m q = None"
  "q < length s \<Longrightarrow> s ! q = BACKTICK \<Longrightarrow>
     code_close s m q =
       (if min 2 (run_len BACKTICK s q) = m then Some (q + m)
        else code_close s m (q + min 2 (run_len BACKTICK s q)))"
  "q < length s \<Longrightarrow> s ! q \<noteq> BACKTICK \<Longrightarrow> code_close s m q = code_close s m (q + 1)"
  by (subst code_close.simps; simp add: Let_def)+

lemma code_close_bounds: "code_close s m q = Some r \<Longrightarrow> q \<le> r \<and> r \<le> length s"
proof (induction s m q rule: code_close.induct)
  case (1 s m q)
  from 1(3) have q: "q < length s" by (cases "q < length s") (simp_all add: code_close_eqs)
  show ?case
  proof (cases "s ! q = BACKTICK")
    case True
    then show ?thesis using 1(1) [OF _ True refl] 1(3) q min_run [OF q True]
      by (auto simp: code_close_eqs split: if_splits)
  next
    case False
    then show ?thesis using 1(2) 1(3) q by (auto simp: code_close_eqs)
  qed
qed

function find_closer :: "string \<Rightarrow> char \<Rightarrow> u32 \<Rightarrow> nat \<Rightarrow> bool" where
  "find_closer s ch bits j =
     (if length s \<le> j then False
      else if s ! j = BACKTICK
      then let m = min 2 (run_len BACKTICK s j)
           in case code_close s m (j + m) of None \<Rightarrow> False | Some q \<Rightarrow> find_closer s ch bits q
      else if s ! j = ch
      then let n = min 3 (run_len ch s j)
           in if delim_bits ch n = bits \<and> flank_ok s j n ch True then True
              else find_closer s ch bits (j + n)
      else find_closer s ch bits (j + 1))"
  by auto
termination
proof (relation "measure (\<lambda>(s, ch, bits, j). length s - j)", goal_cases)
  case (2 s ch bits j m q)
  then have "j + m \<le> q" "q \<le> length s" "0 < m"
    using code_close_bounds [of s m "j + m" q] min_run [of j s BACKTICK 2] by auto
  then show ?case using 2 by simp
next
  case (3 s ch bits j n)
  then show ?case using min_run [of j s ch 3] by simp
qed auto

declare find_closer.simps [simp del]

section \<open>The tokenizer\<close>

definition md_emit :: "nat \<Rightarrow> md_run list \<Rightarrow> nat \<Rightarrow> nat \<Rightarrow> u32 \<Rightarrow> md_run list" where
  "md_emit cap rs start len style =
     (if len = 0 \<or> cap \<le> length rs then rs
      else rs @ [\<lparr>r_start = start, r_len = len, r_style = style\<rparr>])"

record md_state =
  m_runs :: "md_run list"
  m_start :: nat
  m_cur :: u32
  m_stack :: "md_delim list"
  m_in_code :: bool
  m_code_len :: nat

text \<open>The run that ends at \<open>i\<close> is emitted and the next one starts at \<open>j\<close>.\<close>

definition md_flush :: "nat \<Rightarrow> nat \<Rightarrow> nat \<Rightarrow> md_state \<Rightarrow> md_state" where
  "md_flush cap i j st =
     st\<lparr>m_runs := md_emit cap (m_runs st) (m_start st) (i - m_start st) (m_cur st), m_start := j\<rparr>"

definition step_escape :: "nat \<Rightarrow> nat \<Rightarrow> md_state \<Rightarrow> nat \<times> md_state" where
  "step_escape cap i st =
     (let st1 = md_flush cap i (i + 2) st
      in (i + 2, st1\<lparr>m_runs := md_emit cap (m_runs st1) (i + 1) 1 (m_cur st)\<rparr>))"

definition step_backtick :: "string \<Rightarrow> nat \<Rightarrow> nat \<Rightarrow> md_state \<Rightarrow> nat \<times> md_state" where
  "step_backtick s cap i st =
     (let n = min 2 (run_len BACKTICK s i)
      in if m_in_code st
         then if n = m_code_len st
              then (i + n, (md_flush cap i (i + n) st)\<lparr>m_in_code := False, m_cur := m_cur st AND NOT MD_STYLE_CODE\<rparr>)
              else (i + n, st)
         else (i + n, (md_flush cap i (i + n) st)
                 \<lparr>m_in_code := True, m_code_len := n, m_cur := m_cur st OR MD_STYLE_CODE\<rparr>))"

text \<open>The offsets of the byte that ends the text of a link and of the parenthesis that ends its target.\<close>

definition link_ends :: "string \<Rightarrow> nat \<Rightarrow> (nat \<times> nat) option" where
  "link_ends s i =
     (let j = i + 1 + length (takeWhile (\<lambda>d. d \<noteq> CHR '']'' \<and> d \<noteq> LF) (drop (i + 1) s))
      in if j < length s \<and> j + 1 < length s \<and> s ! (j + 1) = CHR ''(''
         then let k = j + 2 + length (takeWhile (\<lambda>d. d \<noteq> CHR '')'' \<and> d \<noteq> LF) (drop (j + 2) s))
              in if k < length s \<and> s ! k = CHR '')'' then Some (j, k) else None
         else None)"

definition step_link :: "string \<Rightarrow> nat \<Rightarrow> nat \<Rightarrow> md_state \<Rightarrow> nat \<times> md_state" where
  "step_link s cap i st =
     (case link_ends s i of
        None \<Rightarrow> (i + 1, st)
      | Some (j, k) \<Rightarrow>
          let st1 = md_flush cap i (k + 1) st
          in (k + 1, st1\<lparr>m_runs := md_emit cap (m_runs st1) (i + 1) (j - i - 1) (m_cur st OR MD_STYLE_LINK)\<rparr>))"

text \<open>What is left of the stack when the nearest entry for a closing delimiter is popped.\<close>

definition pop_delim :: "md_delim \<Rightarrow> md_delim list \<Rightarrow> md_delim list option" where
  "pop_delim d stack = (case dropWhile (\<lambda>e. e \<noteq> d) stack of [] \<Rightarrow> None | _ # rest \<Rightarrow> Some rest)"

definition stack_style :: "md_delim list \<Rightarrow> u32" where
  "stack_style stack = foldr (\<lambda>d bits. bits OR snd d) stack 0"

definition step_delim :: "string \<Rightarrow> nat \<Rightarrow> nat \<Rightarrow> md_state \<Rightarrow> nat \<times> md_state" where
  "step_delim s cap i st =
     (let c = s ! i; n = min 3 (run_len c s i); bits = delim_bits c n
      in case (if flank_ok s i n c True then pop_delim (c, bits) (m_stack st) else None) of
           Some rest \<Rightarrow>
             (i + n, (md_flush cap i (i + n) st)\<lparr>m_stack := rest, m_cur := stack_style rest\<rparr>)
         | None \<Rightarrow>
             if flank_ok s i n c False \<and> length (m_stack st) < MD_MAX_DEPTH \<and> find_closer s c bits (i + n)
             then (i + n, (md_flush cap i (i + n) st)
                      \<lparr>m_stack := (c, bits) # m_stack st, m_cur := m_cur st OR bits\<rparr>)
             else (i + n, st))"

definition md_step :: "string \<Rightarrow> nat \<Rightarrow> nat \<Rightarrow> md_state \<Rightarrow> nat \<times> md_state" where
  "md_step s cap i st =
     (if s ! i = BACKSLASH \<and> i + 1 < length s \<and> md_ispunct (s ! (i + 1)) then step_escape cap i st
      else if s ! i = BACKTICK then step_backtick s cap i st
      else if m_in_code st then (i + 1, st)
      else if s ! i = CHR ''['' then step_link s cap i st
      else if s ! i = CHR ''*'' \<or> s ! i = CHR ''_'' \<or> s ! i = CHR ''~'' then step_delim s cap i st
      else (i + 1, st))"

lemma link_ends_bounds: "link_ends s i = Some (j, k) \<Longrightarrow> i < j \<and> j + 1 < k \<and> k < length s"
  by (auto simp: link_ends_def Let_def split: if_splits)

lemma md_step_cases:
  obtains
    (escape) "s ! i = BACKSLASH" "i + 1 < length s" "md_ispunct (s ! (i + 1))"
      "md_step s cap i st = step_escape cap i st"
  | (backtick) "s ! i = BACKTICK" "md_step s cap i st = step_backtick s cap i st"
  | (code) "s ! i \<noteq> BACKTICK" "m_in_code st" "md_step s cap i st = (i + 1, st)"
  | (link) "s ! i = CHR ''[''" "\<not> m_in_code st" "md_step s cap i st = step_link s cap i st"
  | (delim) "s ! i \<in> {CHR ''*'', CHR ''_'', CHR ''~''}" "\<not> m_in_code st"
      "md_step s cap i st = step_delim s cap i st"
  | (byte) "s ! i \<notin> {BACKTICK, CHR ''['', CHR ''*'', CHR ''_'', CHR ''~''}" "\<not> m_in_code st"
      "md_step s cap i st = (i + 1, st)"
  by (cases "s ! i = BACKSLASH \<and> i + 1 < length s \<and> md_ispunct (s ! (i + 1))"; cases "s ! i = BACKTICK";
      cases "m_in_code st"; cases "s ! i = CHR ''[''"; cases "s ! i \<in> {CHR ''*'', CHR ''_'', CHR ''~''}")
    (auto simp: md_step_def simp del: One_nat_def)

lemma md_step_bounds:
  assumes "i < length s" "md_step s cap i st = (j, st')"
  shows "i < j \<and> j \<le> length s"
proof (cases rule: md_step_cases [of s i cap st])
  case escape
  then show ?thesis using assms by (simp add: step_escape_def Let_def)
next
  case backtick
  then show ?thesis using assms min_run [of i s BACKTICK 2]
    by (auto simp: step_backtick_def Let_def split: if_splits)
next
  case link
  then show ?thesis using assms link_ends_bounds [of s i]
    by (auto simp: step_link_def Let_def split: option.splits)
next
  case delim
  then show ?thesis using assms min_run [of i s "s ! i" 3]
    by (auto simp: step_delim_def Let_def split: option.splits if_splits)
qed (use assms in simp_all)

function md_loop :: "string \<Rightarrow> nat \<Rightarrow> nat \<Rightarrow> md_state \<Rightarrow> md_run list" where
  "md_loop s cap i st =
     (if length s \<le> i then m_runs (md_flush cap (length s) (length s) st)
      else case md_step s cap i st of (j, st') \<Rightarrow> md_loop s cap j st')"
  by auto
termination
proof (relation "measure (\<lambda>(s, cap, i, st). length s - i)", goal_cases)
  case (2 s cap i st j st')
  from 2(2) have "md_step s cap i st = (j, st')" by simp
  with 2(1) show ?case using md_step_bounds [of i s cap st j st'] by auto
qed simp

declare md_loop.simps [simp del]

definition md_start :: md_state where
  "md_start = \<lparr>m_runs = [], m_start = 0, m_cur = 0, m_stack = [], m_in_code = False, m_code_len = 0\<rparr>"

definition md_parse_inline :: "string \<Rightarrow> nat \<Rightarrow> md_run list" where
  "md_parse_inline s cap = md_loop s cap 0 md_start"

section \<open>What the runs cover\<close>

text \<open>Runs that are not empty and follow each other between two offsets.\<close>

fun runs_in :: "nat \<Rightarrow> md_run list \<Rightarrow> nat \<Rightarrow> bool" where
  "runs_in a [] b = (a \<le> b)"
| "runs_in a (r # rs) b = (a \<le> r_start r \<and> 0 < r_len r \<and> runs_in (r_start r + r_len r) rs b)"

text \<open>The text that they show.\<close>

definition shown :: "string \<Rightarrow> md_run list \<Rightarrow> string" where
  "shown s rs = concat (map (\<lambda>r. take (r_len r) (drop (r_start r) s)) rs)"

definition ordinary :: "char \<Rightarrow> bool" where
  "ordinary c \<longleftrightarrow> c \<notin> {CHR ''*'', CHR ''_'', CHR ''~'', BACKTICK, BACKSLASH}"

definition covers :: "string \<Rightarrow> nat \<Rightarrow> md_run list \<Rightarrow> nat \<Rightarrow> bool" where
  "covers s cap rs a \<longleftrightarrow> runs_in 0 rs a \<and> length rs \<le> cap \<and> a \<le> length s \<and>
     (length s \<le> cap \<longrightarrow> CHR ''['' \<notin> set s \<longrightarrow> filter ordinary (shown s rs) = filter ordinary (take a s))"

lemma runs_in_snoc: "runs_in a (rs @ [r]) b \<longleftrightarrow>
    (\<exists>m. runs_in a rs m \<and> m \<le> r_start r) \<and> 0 < r_len r \<and> r_start r + r_len r \<le> b"
  by (induction rs arbitrary: a) auto

lemma runs_in_mono: "runs_in a rs b \<Longrightarrow> b \<le> c \<Longrightarrow> runs_in a rs c"
  by (induction rs arbitrary: a) auto

lemma runs_in_length: "runs_in a rs b \<Longrightarrow> a + length rs \<le> b"
proof (induction rs arbitrary: a)
  case (Cons r rs)
  then have "r_start r + r_len r + length rs \<le> b" by simp
  with Cons.prems show ?case by simp
qed simp

lemma take_extend: "a + n \<le> length s \<Longrightarrow> take (a + n) s = take a s @ take n (drop a s)"
  by (simp add: take_add)

lemma covers_emit:
  assumes "covers s cap rs a" "a + n \<le> length s"
  shows "covers s cap (md_emit cap rs a n style) (a + n)"
proof (cases "n = 0 \<or> cap \<le> length rs")
  case True
  moreover have "n = 0" if "length s \<le> cap" "cap \<le> length rs"
    using that assms runs_in_length [of 0 rs a] by (simp add: covers_def)
  ultimately show ?thesis using assms runs_in_mono [of 0 rs a "a + n"]
    by (auto simp: covers_def md_emit_def)
next
  case False
  then show ?thesis using assms take_extend [of a n s]
    by (auto simp: covers_def md_emit_def runs_in_snoc shown_def)
qed

lemma covers_skip:
  assumes "covers s cap rs a" "a \<le> b" "b \<le> length s"
    and "CHR ''['' \<in> set s \<or> (\<forall>k. a \<le> k \<longrightarrow> k < b \<longrightarrow> \<not> ordinary (s ! k))"
  shows "covers s cap rs b"
proof -
  have "filter ordinary (take (b - a) (drop a s)) = []" if "CHR ''['' \<notin> set s"
    using assms that by (auto simp: filter_empty_conv in_set_conv_nth)
  moreover have "take b s = take a s @ take (b - a) (drop a s)"
    using take_extend [of a "b - a" s] assms by simp
  ultimately show ?thesis using assms runs_in_mono by (auto simp: covers_def)
qed

lemma covers_flush:
  assumes "covers s cap (m_runs st) (m_start st)" "m_start st \<le> i" "i \<le> j" "j \<le> length s"
    and "CHR ''['' \<in> set s \<or> (\<forall>k. i \<le> k \<longrightarrow> k < j \<longrightarrow> \<not> ordinary (s ! k))"
  shows "covers s cap (m_runs (md_flush cap i j st)) j"
  using covers_skip [OF covers_emit [of s cap "m_runs st" "m_start st" "i - m_start st" "m_cur st"]] assms
  by (simp add: md_flush_def)

lemma run_bytes: "i \<le> k \<Longrightarrow> k < i + min m (run_len c s i) \<Longrightarrow> s ! k = c"
proof -
  assume a: "i \<le> k" "k < i + min m (run_len c s i)"
  then have k: "k - i < length (takeWhile (\<lambda>d. d = c) (drop i s))" by (simp add: run_len_def)
  then have "drop i s ! (k - i) = c"
    using nth_mem [OF k] takeWhile_nth [OF k] by (metis (full_types) set_takeWhileD)
  moreover have "k < length s" using k length_takeWhile_le [of "\<lambda>d. d = c" "drop i s"] by (auto simp del: length_takeWhile_le)
  ultimately show ?thesis using a by simp
qed

lemma step_delim_shape:
  assumes "step_delim s cap i st = (j, st')"
  shows "j = i + min 3 (run_len (s ! i) s i) \<and>
    (m_runs st' = m_runs st \<and> m_start st' = m_start st \<or>
     m_runs st' = m_runs (md_flush cap i j st) \<and> m_start st' = j)"
proof (cases "if flank_ok s i (min 3 (run_len (s ! i) s i)) (s ! i) True
    then pop_delim (s ! i, delim_bits (s ! i) (min 3 (run_len (s ! i) s i))) (m_stack st) else None")
  case None
  then show ?thesis using assms by (auto simp: step_delim_def Let_def md_flush_def split: if_splits)
next
  case (Some rest)
  then show ?thesis using assms unfolding step_delim_def Let_def Some by (auto simp: md_flush_def)
qed

lemma md_step_covers:
  assumes "i < length s" "md_step s cap i st = (j, st')"
    and "covers s cap (m_runs st) (m_start st)" "m_start st \<le> i"
  shows "covers s cap (m_runs st') (m_start st') \<and> m_start st' \<le> j"
proof -
  have flush: "covers s cap (m_runs (md_flush cap i j st)) j"
    if "\<forall>k. i \<le> k \<longrightarrow> k < j \<longrightarrow> \<not> ordinary (s ! k)"
    using covers_flush [of s cap st i j] assms md_step_bounds [OF assms(1,2)] that by simp
  have upto: "covers s cap (m_runs (md_flush cap i n st)) i" for n
    using covers_flush [of s cap st i i] assms by (simp add: md_flush_def)
  show ?thesis
  proof (cases rule: md_step_cases [of s i cap st])
    case escape
    have "covers s cap (m_runs (md_flush cap i (i + 2) st)) (i + 1)"
      using covers_skip [OF upto, of "i + 1"] escape by (auto simp: ordinary_def le_Suc_eq less_Suc_eq)
    from covers_emit [OF this, of 1 "m_cur st"] escape assms(2) show ?thesis
      by (auto simp: step_escape_def Let_def md_flush_def)
  next
    case backtick
    have "\<forall>k. i \<le> k \<longrightarrow> k < i + min 2 (run_len BACKTICK s i) \<longrightarrow> \<not> ordinary (s ! k)"
      using run_bytes [of i _ 2 BACKTICK s] by (auto simp: ordinary_def)
    then show ?thesis using flush backtick assms(2-4)
      by (auto simp: step_backtick_def Let_def md_flush_def split: if_splits)
  next
    case link
    show ?thesis
    proof (cases "link_ends s i")
      case None
      then show ?thesis using link assms by (auto simp: step_link_def)
    next
      case (Some p)
      obtain a b where p: "p = (a, b)" by (cases p)
      have bd: "i < a" "a + 1 < b" "b < length s" using link_ends_bounds [of s i a b] Some p by simp_all
      have br: "CHR ''['' \<in> set s" using link(1) assms(1) nth_mem [of i s] by simp
      have "covers s cap (m_runs (md_flush cap i (b + 1) st)) (i + 1)"
        using covers_skip [OF upto, of "i + 1"] br assms(1) by simp
      from covers_emit [OF this, of "a - i - 1" "m_cur st OR MD_STYLE_LINK"]
      have "covers s cap (md_emit cap (m_runs (md_flush cap i (b + 1) st)) (i + 1) (a - i - 1)
              (m_cur st OR MD_STYLE_LINK)) a" using bd by simp
      from covers_skip [OF this, of "b + 1"] show ?thesis using br bd link assms(2) Some p
        by (auto simp: step_link_def Let_def md_flush_def)
    qed
  next
    case delim
    have "\<forall>k. i \<le> k \<longrightarrow> k < i + min 3 (run_len (s ! i) s i) \<longrightarrow> \<not> ordinary (s ! k)"
    proof (intro allI impI)
      fix k assume "i \<le> k" "k < i + min 3 (run_len (s ! i) s i)"
      then have "s ! k = s ! i" by (rule run_bytes)
      with delim(1) show "\<not> ordinary (s ! k)" by (auto simp: ordinary_def)
    qed
    moreover have "step_delim s cap i st = (j, st')" using delim(3) assms(2) by simp
    note shape = step_delim_shape [OF this]
    ultimately have "covers s cap (m_runs (md_flush cap i j st)) j" using flush by simp
    then show ?thesis using shape assms(3,4) by (elim conjE disjE) simp_all
  qed (use assms in auto)
qed

lemma md_loop_covers:
  "covers s cap (m_runs st) (m_start st) \<Longrightarrow> m_start st \<le> i \<Longrightarrow> i \<le> length s \<Longrightarrow>
     covers s cap (md_loop s cap i st) (length s)"
proof (induction s cap i st rule: md_loop.induct)
  case (1 s cap i st)
  show ?case
  proof (cases "length s \<le> i")
    case True
    then show ?thesis using covers_flush [of s cap st "length s" "length s"] 1
      by (subst md_loop.simps) simp
  next
    case False
    obtain j st' where step: "md_step s cap i st = (j, st')" by (cases "md_step s cap i st")
    have "covers s cap (md_loop s cap j st') (length s)"
      using 1(1) [OF False, of j st'] step md_step_covers [of i s cap st j st'] md_step_bounds [of i s cap st j st'] 1(2-4) False
      by simp
    then show ?thesis using step False by (subst md_loop.simps) simp
  qed
qed

text \<open>
  C26: The runs of a line are not empty, do not overlap, are in order and inside the line, and
  there are at most \<open>cap\<close> of them; with room for one per byte, which is what the renderer gives,
  and without links nothing but markup is left out: the text that the runs show is the text of the
  line, apart from asterisks, underscores, tildes, backticks and backslashes.
\<close>

theorem inline_shows_the_text:
  "runs_in 0 (md_parse_inline s cap) (length s) \<and> length (md_parse_inline s cap) \<le> cap \<and>
   (length s \<le> cap \<longrightarrow> CHR ''['' \<notin> set s \<longrightarrow>
      filter ordinary (shown s (md_parse_inline s cap)) = filter ordinary s)"
proof -
  have "covers s cap (md_parse_inline s cap) (length s)"
    unfolding md_parse_inline_def by (rule md_loop_covers) (simp_all add: md_start_def covers_def shown_def)
  then show ?thesis by (simp add: covers_def)
qed

lemma inline_shows_the_text_witness:
  "filter ordinary (shown ''a **b** c'' (md_parse_inline ''a **b** c'' 9)) = ''a b c''"
  using inline_shows_the_text [of "''a **b** c''" 9] by (simp add: ordinary_def)

section \<open>Emphasis, code and plain text\<close>

text \<open>Bytes that mean nothing to the tokenizer.\<close>

definition inert :: "char \<Rightarrow> bool" where
  "inert c \<longleftrightarrow> ordinary c \<and> c \<noteq> CHR ''[''"

lemma md_loop_end: "md_loop s cap (length s) st = m_runs (md_flush cap (length s) (length s) st)"
  by (subst md_loop.simps) simp

lemma md_loop_step:
  "i < length s \<Longrightarrow> md_step s cap i st = (j, st') \<Longrightarrow> md_loop s cap i st = md_loop s cap j st'"
  by (subst md_loop.simps) simp

lemma md_step_inert: "inert (s ! i) \<Longrightarrow> md_step s cap i st = (i + 1, st)"
  by (simp add: md_step_def inert_def ordinary_def)

lemma md_loop_skip:
  assumes "\<And>k. i \<le> k \<Longrightarrow> k < i + n \<Longrightarrow> md_step s cap k st = (k + 1, st)" "i + n \<le> length s"
  shows "md_loop s cap i st = md_loop s cap (i + n) st"
  using assms
proof (induction n arbitrary: i)
  case (Suc n)
  have "md_loop s cap i st = md_loop s cap (i + 1) st" using Suc.prems by (intro md_loop_step) auto
  also have "\<dots> = md_loop s cap (i + 1 + n) st" using Suc.prems by (intro Suc.IH) auto
  finally show ?case by simp
qed simp

lemma find_closer_skip:
  assumes "\<And>k. i \<le> k \<Longrightarrow> k < i + n \<Longrightarrow> s ! k \<noteq> BACKTICK \<and> s ! k \<noteq> ch" "i + n \<le> length s"
  shows "find_closer s ch bits i = find_closer s ch bits (i + n)"
  using assms
proof (induction n arbitrary: i)
  case (Suc n)
  have "find_closer s ch bits i = find_closer s ch bits (i + 1)"
    using Suc.prems(1) [of i] Suc.prems(2) by (subst find_closer.simps) simp
  also have "\<dots> = find_closer s ch bits (i + 1 + n)" using Suc.prems by (intro Suc.IH) auto
  finally show ?case by simp
qed simp

lemma run_len_replicate:
  "run_len c (pre @ replicate n c @ rest) (length pre) = n + length (takeWhile (\<lambda>d. d = c) rest)"
  by (simp add: run_len_def takeWhile_append2 takeWhile_append)

text \<open>What \<open>md_emit\<close> keeps: the first \<open>cap\<close> runs that are not empty.\<close>

definition kept :: "nat \<Rightarrow> md_run list \<Rightarrow> md_run list" where
  "kept cap rs = take cap (filter (\<lambda>r. 0 < r_len r) rs)"

lemma kept_Nil [simp]: "kept cap [] = []"
  by (simp add: kept_def)

lemma emit_kept:
  "md_emit cap (kept cap rs) a n style = kept cap (rs @ [\<lparr>r_start = a, r_len = n, r_style = style\<rparr>])"
  by (auto simp: md_emit_def kept_def)

lemma emit_first: "md_emit cap [] a n style = kept cap [\<lparr>r_start = a, r_len = n, r_style = style\<rparr>]"
  using emit_kept [of cap "[]"] by simp

text \<open>
  A text in a pair of delimiters, with other text around it. The text must not begin or end with a
  space, and underscores must not touch letters or digits outside.
\<close>

definition delimited :: "char \<Rightarrow> nat \<Rightarrow> string \<Rightarrow> string \<Rightarrow> string \<Rightarrow> string" where
  "delimited c n pre w post = pre @ replicate n c @ w @ replicate n c @ post"

definition emphasis_ok :: "char \<Rightarrow> nat \<Rightarrow> string \<Rightarrow> string \<Rightarrow> string \<Rightarrow> bool" where
  "emphasis_ok c n pre w post \<longleftrightarrow>
     c \<in> {CHR ''*'', CHR ''_'', CHR ''~''} \<and> 1 \<le> n \<and> n \<le> 3 \<and>
     list_all inert pre \<and> list_all inert w \<and> list_all inert post \<and>
     w \<noteq> [] \<and> hd w \<noteq> SP \<and> last w \<noteq> SP \<and>
     (c = CHR ''_'' \<longrightarrow> (pre = [] \<or> \<not> md_isalnum (last pre)) \<and> (post = [] \<or> \<not> md_isalnum (hd post)))"

lemma delimited_bytes:
  assumes "w \<noteq> []" "1 \<le> n" and s: "s = delimited c n pre w post"
    and i: "i = length pre" and j: "j = i + n + length w"
  shows "length s = j + n + length post" "s ! i = c" "s ! j = c" "s ! (i + n) = hd w" "s ! (j - 1) = last w"
    "pre \<noteq> [] \<Longrightarrow> s ! (i - 1) = last pre" "post \<noteq> [] \<Longrightarrow> s ! (j + n) = hd post"
    "k < i \<Longrightarrow> s ! k \<in> set pre" "i + n \<le> k \<Longrightarrow> k < j \<Longrightarrow> s ! k \<in> set w"
    "j + n \<le> k \<Longrightarrow> k < length s \<Longrightarrow> s ! k \<in> set post"
proof -
  have at: "s ! (i + n + m) = w ! m" if "m < length w" for m
    using that by (simp add: s i delimited_def nth_append)
  show "s ! (i + n) = hd w" using at [of 0] assms(1) by (simp add: hd_conv_nth)
  show "s ! (j - 1) = last w" using at [of "length w - 1"] assms(1)
    by (cases w rule: rev_cases) (simp_all add: j)
  show "i + n \<le> k \<Longrightarrow> k < j \<Longrightarrow> s ! k \<in> set w"
    using at [of "k - i - n"] by (simp add: j)
qed (use assms in \<open>auto simp: delimited_def nth_append last_conv_nth hd_conv_nth\<close>)

lemma delimited_runs:
  assumes "list_all inert w" "list_all inert post" "w \<noteq> []" "\<not> inert c"
    and s: "s = delimited c n pre w post"
  shows "run_len c s (length pre) = n" "run_len c s (length pre + n + length w) = n"
  using run_len_replicate [of c pre n "w @ replicate n c @ post"]
    run_len_replicate [of c "pre @ replicate n c @ w" n post] assms
  by (cases w; cases post; auto simp: delimited_def add.assoc)+

lemma emphasis_flanks:
  assumes "emphasis_ok c n pre w post" and s: "s = delimited c n pre w post"
    and i: "i = length pre" and j: "j = i + n + length w"
  shows "flank_ok s i n c False" "flank_ok s j n c True"
  using assms(1) delimited_bytes [OF _ _ s i j] j i
  by (auto simp: flank_ok_def emphasis_ok_def)

lemma not_inert_delim: "c \<in> {CHR ''*'', CHR ''_'', CHR ''~'', BACKTICK} \<Longrightarrow> \<not> inert c"
  by (auto simp: inert_def ordinary_def)

lemma emphasis_closer:
  assumes ok: "emphasis_ok c n pre w post" and s: "s = delimited c n pre w post"
    and i: "i = length pre" and j: "j = i + n + length w"
  shows "find_closer s c (delim_bits c n) (i + n)"
proof -
  have ok': "w \<noteq> []" "1 \<le> n" "n \<le> 3" "list_all inert w" "list_all inert post" "c \<noteq> BACKTICK" "\<not> inert c"
    using ok not_inert_delim [of c] by (auto simp: emphasis_ok_def)
  note b = delimited_bytes [OF ok'(1,2) s i j]
  have w: "s ! k \<noteq> BACKTICK \<and> s ! k \<noteq> c" if "i + n \<le> k" "k < i + n + length w" for k
    using b(9) [of k] that ok'(4,7) j by (auto simp: list_all_iff inert_def ordinary_def)
  have "find_closer s c (delim_bits c n) (i + n) = find_closer s c (delim_bits c n) j"
    using find_closer_skip [of "i + n" "length w" s c] w b(1) by (simp add: j)
  also have "find_closer s c (delim_bits c n) j"
    using b(1,3) ok' delimited_runs(2) [OF ok'(4,5,1,7) s] emphasis_flanks(2) [OF ok s i j] i j
    by (subst find_closer.simps) (simp add: min_absorb2)
  finally show ?thesis by simp
qed

lemma md_loop_inert:
  "(\<And>k. i \<le> k \<Longrightarrow> k < i + n \<Longrightarrow> inert (s ! k)) \<Longrightarrow> i + n \<le> length s \<Longrightarrow>
     md_loop s cap i st = md_loop s cap (i + n) st"
  by (rule md_loop_skip) (simp_all add: md_step_inert)

text \<open>
  Emphasis and strike-through are drawn as they are written: a text between two runs of one to
  three asterisks, underscores or tildes, with other text around it, gives one styled run that
  holds exactly the text, and the text around it is unstyled.
\<close>

theorem emphasis_renders:
  assumes ok: "emphasis_ok c n pre w post"
  shows "md_parse_inline (delimited c n pre w post) cap =
     kept cap [\<lparr>r_start = 0, r_len = length pre, r_style = 0\<rparr>,
               \<lparr>r_start = length pre + n, r_len = length w, r_style = delim_bits c n\<rparr>,
               \<lparr>r_start = length pre + 2 * n + length w, r_len = length post, r_style = 0\<rparr>]"
proof -
  define s i j where s: "s = delimited c n pre w post" and i: "i = length pre" and j: "j = i + n + length w"
  have ok': "w \<noteq> []" "1 \<le> n" "n \<le> 3" "list_all inert pre" "list_all inert w" "list_all inert post"
    "c \<noteq> BACKSLASH" "c \<noteq> BACKTICK" "c \<noteq> CHR ''[''" "\<not> inert c" and c: "c = CHR ''*'' \<or> c = CHR ''_'' \<or> c = CHR ''~''"
    using ok not_inert_delim [of c] by (auto simp: emphasis_ok_def)
  note b = delimited_bytes [OF ok'(1,2) s i j] and r = delimited_runs [OF ok'(5,6,1,10) s]
    and fl = emphasis_flanks [OF ok s i j] and in_all = ok'(4,5,6) [unfolded list_all_iff]
  define st1 where "st1 = (md_flush cap i (i + n) md_start)\<lparr>m_stack := [(c, delim_bits c n)], m_cur := delim_bits c n\<rparr>"
  define st2 where "st2 = (md_flush cap j (j + n) st1)\<lparr>m_stack := [], m_cur := 0\<rparr>"
  have step1: "md_step s cap i md_start = (i + n, st1)"
    using c ok' b(2) r(1) fl(1) emphasis_closer [OF ok s i j]
    by (simp add: md_step_def step_delim_def Let_def min_absorb2 md_start_def pop_delim_def st1_def MD_MAX_DEPTH_def i)
  have step2: "md_step s cap j st1 = (j + n, st2)"
    using c ok' b(3) r(2) fl(2)
    by (simp add: md_step_def step_delim_def Let_def min_absorb2 pop_delim_def st1_def st2_def stack_style_def
        md_start_def md_flush_def i j)
  have "md_parse_inline s cap = md_loop s cap (0 + i) md_start"
    unfolding md_parse_inline_def by (rule md_loop_inert) (use b(1,8) in_all j in auto)
  also have "\<dots> = md_loop s cap (i + n) st1" using md_loop_step [OF _ step1] b(1) ok'(2) by (simp add: j)
  also have "\<dots> = md_loop s cap (i + n + length w) st1"
    by (rule md_loop_inert) (use b(1,9) in_all j in auto)
  also have "\<dots> = md_loop s cap (j + n) st2" using md_loop_step [OF _ step2] b(1) ok'(2) by (simp add: j)
  also have "\<dots> = md_loop s cap (j + n + length post) st2"
    by (rule md_loop_inert) (use b(1,10) in_all in auto)
  also have "\<dots> = m_runs (md_flush cap (length s) (length s) st2)" using md_loop_end [of s cap st2] b(1) by simp
  also have "\<dots> = kept cap [\<lparr>r_start = 0, r_len = i, r_style = 0\<rparr>,
      \<lparr>r_start = i + n, r_len = length w, r_style = delim_bits c n\<rparr>,
      \<lparr>r_start = j + n, r_len = length post, r_style = 0\<rparr>]"
    using b(1) by (simp add: st2_def st1_def md_start_def md_flush_def emit_first emit_kept i j)
  also have "j + n = i + 2 * n + length w" by (simp add: j)
  finally show ?thesis unfolding i s .
qed

lemma emphasis_renders_witness:
  "md_parse_inline ''a **bc**!'' 8 =
     [\<lparr>r_start = 0, r_len = 2, r_style = 0\<rparr>, \<lparr>r_start = 4, r_len = 2, r_style = MD_STYLE_BOLD\<rparr>,
      \<lparr>r_start = 8, r_len = 1, r_style = 0\<rparr>]"
  using emphasis_renders [of "CHR ''*''" 2 "''a ''" "''bc''" "''!''" 8]
  by (simp add: emphasis_ok_def delimited_def inert_def ordinary_def kept_def delim_bits_def run_bits_def
      numeral_2_eq_2)

text \<open>
  The text of a code span is literal, whatever delimiters it holds, as long as it has neither a
  backtick nor a backslash.
\<close>

lemma code_span_literal:
  assumes n: "1 \<le> n" "n \<le> 2" and w: "w \<noteq> []" "BACKTICK \<notin> set w" "BACKSLASH \<notin> set w"
    and inert: "list_all inert pre" "list_all inert post"
  shows "md_parse_inline (delimited BACKTICK n pre w post) cap =
     kept cap [\<lparr>r_start = 0, r_len = length pre, r_style = 0\<rparr>,
               \<lparr>r_start = length pre + n, r_len = length w, r_style = MD_STYLE_CODE\<rparr>,
               \<lparr>r_start = length pre + 2 * n + length w, r_len = length post, r_style = 0\<rparr>]"
proof -
  define s i j where s: "s = delimited BACKTICK n pre w post" and i: "i = length pre" and j: "j = i + n + length w"
  note b = delimited_bytes [OF w(1) n(1) s i j] and in_all = inert [unfolded list_all_iff]
  have r: "run_len BACKTICK s i = n" "run_len BACKTICK s j = n"
    using run_len_replicate [of BACKTICK pre n "w @ replicate n BACKTICK @ post"] w
      run_len_replicate [of BACKTICK "pre @ replicate n BACKTICK @ w" n post] in_all not_inert_delim [of BACKTICK]
    by (cases w; cases post; auto simp: s i j delimited_def add.assoc)+
  define st1 where "st1 = (md_flush cap i (i + n) md_start)\<lparr>m_in_code := True, m_code_len := n, m_cur := MD_STYLE_CODE\<rparr>"
  define st2 where "st2 = (md_flush cap j (j + n) st1)\<lparr>m_in_code := False, m_cur := 0\<rparr>"
  have step1: "md_step s cap i md_start = (i + n, st1)"
    using n b(2) r(1)
    by (simp add: md_step_def step_backtick_def Let_def min_absorb2 md_start_def st1_def i)
  have step2: "md_step s cap j st1 = (j + n, st2)"
    using n b(3) r(2)
    by (simp add: md_step_def step_backtick_def Let_def min_absorb2 st1_def st2_def md_start_def md_flush_def i j)
  have code: "md_step s cap k st1 = (k + 1, st1)" if "i + n \<le> k" "k < i + n + length w" for k
  proof -
    have "s ! k \<in> set w" using b(9) [of k] that j by simp
    then have "s ! k \<noteq> BACKTICK" "s ! k \<noteq> BACKSLASH" using w by auto
    then show ?thesis by (simp add: md_step_def st1_def)
  qed
  have "md_parse_inline s cap = md_loop s cap (0 + i) md_start"
    unfolding md_parse_inline_def by (rule md_loop_inert) (use b(1,8) in_all j in auto)
  also have "\<dots> = md_loop s cap (i + n) st1" using md_loop_step [OF _ step1] b(1) n by (simp add: j)
  also have "\<dots> = md_loop s cap (i + n + length w) st1"
    by (rule md_loop_skip) (use code b(1) j in auto)
  also have "\<dots> = md_loop s cap (j + n) st2" using md_loop_step [OF _ step2] b(1) n by (simp add: j)
  also have "\<dots> = md_loop s cap (j + n + length post) st2"
    by (rule md_loop_inert) (use b(1,10) in_all in auto)
  also have "\<dots> = m_runs (md_flush cap (length s) (length s) st2)" using md_loop_end [of s cap st2] b(1) by simp
  also have "\<dots> = kept cap [\<lparr>r_start = 0, r_len = i, r_style = 0\<rparr>,
      \<lparr>r_start = i + n, r_len = length w, r_style = MD_STYLE_CODE\<rparr>,
      \<lparr>r_start = j + n, r_len = length post, r_style = 0\<rparr>]"
    using b(1) by (simp add: st2_def st1_def md_start_def md_flush_def emit_first emit_kept i j)
  also have "j + n = i + 2 * n + length w" by (simp add: j)
  finally show ?thesis unfolding i s .
qed

text \<open>Underscores inside words are text: names in snake case and addresses keep them.\<close>

definition word_underscores :: "string \<Rightarrow> bool" where
  "word_underscores s \<longleftrightarrow>
     (\<forall>i < length s. inert (s ! i) \<or>
        s ! i = CHR ''_'' \<and> 0 < i \<and> i + 1 < length s \<and> md_isalnum (s ! (i - 1)) \<and> md_isalnum (s ! (i + 1)))"

lemma underscores_stay_literal:
  assumes "word_underscores s"
  shows "md_parse_inline s cap = kept cap [\<lparr>r_start = 0, r_len = length s, r_style = 0\<rparr>]"
proof -
  have step: "md_step s cap i st = (i + 1, st)" if i: "i < length s" and st: "\<not> m_in_code st" for i st
  proof (cases "inert (s ! i)")
    case True
    then show ?thesis by (rule md_step_inert)
  next
    case False
    with assms i have u: "s ! i = CHR ''_''" "0 < i" "i + 1 < length s" "md_isalnum (s ! (i - 1))"
      "md_isalnum (s ! (i + 1))" unfolding word_underscores_def by blast+
    have "drop i s = s ! i # s ! (i + 1) # drop (i + 2) s"
      using u(3) Cons_nth_drop_Suc [of i s] Cons_nth_drop_Suc [of "i + 1" s] by simp
    moreover have "s ! (i + 1) \<noteq> CHR ''_''" using u(5)
      by (auto simp: md_isalnum_def is_lower_def is_upper_def is_digit_def)
    ultimately have "run_len CHR ''_'' s i = 1" using u(1) by (simp add: run_len_def)
    with u st show ?thesis
      by (simp add: md_step_def step_delim_def flank_ok_def)
  qed
  have "md_parse_inline s cap = md_loop s cap (0 + length s) md_start"
    unfolding md_parse_inline_def by (rule md_loop_skip) (use step in \<open>auto simp: md_start_def\<close>)
  then show ?thesis using md_loop_end [of s cap md_start]
    by (simp add: md_flush_def md_start_def emit_first)
qed

text \<open>Where the tokenizer does not do what its header says.\<close>

lemmas md_eval = md_parse_inline_def md_start_def md_step_def md_flush_def md_emit_def step_delim_def
  step_escape_def step_backtick_def pop_delim_def run_len_def flank_ok_def delim_bits_def run_bits_def
  md_ispunct_def MD_MAX_DEPTH_def Let_def

text \<open>A backtick without a partner is not literal: it is dropped and the rest of the line is code.\<close>

lemma lone_backtick_leaks:
  "md_parse_inline [CHR ''a'', BACKTICK, CHR ''b''] 9 =
     [\<lparr>r_start = 0, r_len = 1, r_style = 0\<rparr>, \<lparr>r_start = 2, r_len = 1, r_style = MD_STYLE_CODE\<rparr>]"
  by (simp add: md_eval md_loop.simps)

text \<open>Inside a code span a backslash before punctuation is dropped.\<close>

lemma code_loses_backslash:
  "shown [BACKTICK, BACKSLASH, CHR ''.'', BACKTICK]
     (md_parse_inline [BACKTICK, BACKSLASH, CHR ''.'', BACKTICK] 9) = ''.''"
  by (simp add: md_eval md_loop.simps shown_def)

text \<open>An escaped closer opens emphasis that is never closed.\<close>

lemma escaped_closer_leaks:
  "md_parse_inline [CHR ''*'', CHR ''a'', BACKSLASH, CHR ''*'', CHR ''b''] 9 =
     [\<lparr>r_start = 1, r_len = 1, r_style = MD_STYLE_ITALIC\<rparr>, \<lparr>r_start = 3, r_len = 1, r_style = MD_STYLE_ITALIC\<rparr>,
      \<lparr>r_start = 4, r_len = 1, r_style = MD_STYLE_ITALIC\<rparr>]"
  by (simp add: md_eval md_loop.simps find_closer.simps)

end
