(* ===== verification/MdTable.thy ===== *)
theory MdTable
  imports MdInline TuiText
begin

text \<open>
  Lines and tables of the chat pane's markdown (\<open>tui/markdown.c\<close>): the kind of a line, the
  cells of a table row, the geometry of a table and the rendering of its rows.

  A line is the list of its bytes. The output buffer of a row is the bytes written so far; writing
  stops one byte before its capacity.
\<close>

section \<open>Cells\<close>

definition MD_MAX_COLS :: nat where "MD_MAX_COLS = 16"

abbreviation PIPE :: char where "PIPE \<equiv> CHR 0x7C"

function cell_end :: "string \<Rightarrow> nat \<Rightarrow> nat" where
  "cell_end s i =
     (if i < length s \<and> s ! i \<noteq> LF \<and> \<not> (s ! i = PIPE \<and> (i = 0 \<or> s ! (i - 1) \<noteq> BACKSLASH))
      then cell_end s (i + 1) else i)"
  by auto
termination by (relation "measure (\<lambda>(s, i). length s - i)") auto

declare cell_end.simps [simp del]

lemma cell_end_ge: "i \<le> cell_end s i"
proof (induction s i rule: cell_end.induct)
  case (1 s i)
  then show ?case by (subst cell_end.simps) (auto dest: Suc_leD)
qed

definition trim_cell :: "string \<Rightarrow> string" where
  "trim_cell c = trim_by (\<lambda>d. d = SP) c"

function split_loop :: "string \<Rightarrow> nat \<Rightarrow> nat \<Rightarrow> string list \<Rightarrow> string list" where
  "split_loop row cap i cells =
     (if i < length row \<and> length cells < cap
      then let e = cell_end row i; cells1 = cells @ [trim_cell (take (e - i) (drop i row))]
           in if e < length row \<and> row ! e = PIPE then split_loop row cap (e + 1) cells1 else cells1
      else cells)"
  by auto
termination
proof (relation "measure (\<lambda>(row, cap, i, cells). length row - i)", goal_cases)
  case (2 row cap i cells e cells1)
  then show ?case using cell_end_ge [of i row] by auto
qed simp

declare split_loop.simps [simp del]

definition split_cells :: "string \<Rightarrow> nat \<Rightarrow> string list" where
  "split_cells row cap =
     (let cells = split_loop row cap (if row \<noteq> [] \<and> row ! 0 = PIPE then 1 else 0) []
      in if cells \<noteq> [] \<and> last cells = [] then butlast cells else cells)"

definition skip_colon :: "string \<Rightarrow> string" where
  "skip_colon c = (if c \<noteq> [] \<and> hd c = CHR '':'' then tl c else c)"

definition sep_cell :: "string \<Rightarrow> bool" where
  "sep_cell c =
     (let r = skip_colon c; rest = dropWhile (\<lambda>d. d = CHR ''-'') r
      in length rest < length r \<and> skip_colon rest = [])"

section \<open>The kind of a line\<close>

datatype line_kind =
  MD_LINE_PLAIN | MD_LINE_BLANK | MD_LINE_HEADING | MD_LINE_QUOTE | MD_LINE_LIST | MD_LINE_HR
| MD_LINE_CODE_FENCE | MD_LINE_TABLE_ROW | MD_LINE_TABLE_SEP

text \<open>The length of the run of a byte at the start, and what follows it.\<close>

definition lead_run :: "char \<Rightarrow> string \<Rightarrow> nat" where
  "lead_run c r = length (takeWhile (\<lambda>d. d = c) r)"

definition heading_kind :: "string \<Rightarrow> line_kind" where
  "heading_kind r =
     (let n = lead_run CHR ''#'' r
      in if n \<le> 6 \<and> (n = length r \<or> r ! n = SP) then MD_LINE_HEADING else MD_LINE_PLAIN)"

definition bullet_kind :: "char \<Rightarrow> string \<Rightarrow> line_kind" where
  "bullet_kind c r =
     (if c \<noteq> CHR ''+'' \<and> 3 \<le> lead_run c r \<and> dropWhile (\<lambda>d. d = SP) (drop (lead_run c r) r) = [] then MD_LINE_HR
      else if c \<noteq> CHR ''_'' \<and> 1 < length r \<and> r ! 1 = SP then MD_LINE_LIST
      else MD_LINE_PLAIN)"

definition number_kind :: "string \<Rightarrow> line_kind" where
  "number_kind r =
     (let n = length (takeWhile is_digit r)
      in if n \<le> 9 \<and> n < length r \<and> (r ! n = CHR ''.'' \<or> r ! n = CHR '')'') \<and>
            (n + 1 = length r \<or> r ! (n + 1) = SP)
         then MD_LINE_LIST else MD_LINE_PLAIN)"

definition table_kind :: "string \<Rightarrow> line_kind" where
  "table_kind r =
     (let cells = split_cells r MD_MAX_COLS
      in if cells = [] then MD_LINE_PLAIN
         else if list_all sep_cell cells then MD_LINE_TABLE_SEP else MD_LINE_TABLE_ROW)"

definition md_line_kind :: "string \<Rightarrow> line_kind" where
  "md_line_kind s =
     (let r = drop (min 3 (lead_run SP s)) s
      in if r = [] then MD_LINE_BLANK
         else let c = hd r
              in if c = CHR ''#'' then heading_kind r
                 else if c = CHR ''>'' then MD_LINE_QUOTE
                 else if c = CHR ''-'' \<or> c = CHR ''*'' \<or> c = CHR ''+'' \<or> c = CHR ''_'' then bullet_kind c r
                 else if is_digit c then number_kind r
                 else if c = BACKTICK \<or> c = CHR ''~''
                 then (if 3 \<le> lead_run c r then MD_LINE_CODE_FENCE else MD_LINE_PLAIN)
                 else if c = PIPE then table_kind r
                 else MD_LINE_PLAIN)"

section \<open>Tables\<close>

record md_table =
  nrows :: nat
  widths :: "nat list"
  align :: "nat list"

text \<open>Column count is the length of both lists. A line lies between two starts.\<close>

definition line_of :: "string \<Rightarrow> nat list \<Rightarrow> nat \<Rightarrow> string" where
  "line_of text starts k = take (starts ! (k + 1) - starts ! k) (drop (starts ! k) text)"

definition cell_align :: "string \<Rightarrow> nat" where
  "cell_align c =
     (let left = c \<noteq> [] \<and> hd c = CHR '':''; right = c \<noteq> [] \<and> last c = CHR '':''
      in if left \<and> right then 1 else if right then 2 else 0)"

text \<open>The widths after one more row.\<close>

definition widen :: "nat list \<Rightarrow> string list \<Rightarrow> nat list" where
  "widen ws cells =
     map (\<lambda>c. if c < length cells then max (ws ! c) (tui_chat_display_width (cells ! c)) else ws ! c)
       [0..<length ws]"

definition row_lines :: "nat \<Rightarrow> nat \<Rightarrow> nat list" where
  "row_lines first n = map (\<lambda>r. if r = 0 then first else first + r + 1) [0..<n]"

definition table_rows :: "string \<Rightarrow> nat list \<Rightarrow> nat \<Rightarrow> nat \<Rightarrow> nat" where
  "table_rows text starts nlines first =
     1 + length (takeWhile (\<lambda>k. md_line_kind (line_of text starts k) = MD_LINE_TABLE_ROW) [first + 2..<nlines])"

definition md_table_scan :: "bool \<Rightarrow> string \<Rightarrow> nat list \<Rightarrow> nat \<Rightarrow> nat \<Rightarrow> md_table option" where
  "md_table_scan alloc text starts nlines first =
     (if first + 2 > nlines then None
      else if md_line_kind (line_of text starts first) \<noteq> MD_LINE_TABLE_ROW then None
      else if md_line_kind (line_of text starts (first + 1)) \<noteq> MD_LINE_TABLE_SEP then None
      else let n = table_rows text starts nlines first;
               sep = split_cells (line_of text starts (first + 1)) MD_MAX_COLS
           in if sep = [] \<or> \<not> alloc then None
              else Some \<lparr>nrows = n,
                         widths = foldl (\<lambda>ws k. widen ws (split_cells (line_of text starts k) MD_MAX_COLS))
                                    (replicate (length sep) 0) (row_lines first n),
                         align = map cell_align sep\<rparr>)"

section \<open>Rendering\<close>

definition md_ch :: "nat \<Rightarrow> string \<Rightarrow> char \<Rightarrow> string" where
  "md_ch cap out ch = (if length out + 1 < cap then out @ [ch] else out)"

definition md_lit :: "nat \<Rightarrow> string \<Rightarrow> string \<Rightarrow> string" where
  "md_lit cap out lit = foldl (md_ch cap) out lit"

fun md_cell :: "nat \<Rightarrow> string \<Rightarrow> string \<Rightarrow> string" where
  "md_cell cap out [] = out"
| "md_cell cap out (c # cs) =
     (if c = BACKSLASH \<and> cs \<noteq> [] \<and> hd cs = PIPE then md_cell cap out cs else md_cell cap (md_ch cap out c) cs)"

definition vbar :: string where
  "vbar = [CHR 0xE2, CHR 0x94, CHR 0x82]"

definition col_pad :: "md_table \<Rightarrow> string list \<Rightarrow> nat \<Rightarrow> nat" where
  "col_pad tbl cells c =
     widths tbl ! c - (if c < length cells then tui_chat_display_width (cells ! c) else 0)"

definition left_pad :: "md_table \<Rightarrow> string list \<Rightarrow> nat \<Rightarrow> nat" where
  "left_pad tbl cells c =
     (if align tbl ! c = 2 then col_pad tbl cells c
      else if align tbl ! c = 1 then col_pad tbl cells c div 2 else 0)"

definition right_pad :: "md_table \<Rightarrow> string list \<Rightarrow> nat \<Rightarrow> nat" where
  "right_pad tbl cells c =
     (if c + 1 = length (widths tbl) then 0 else col_pad tbl cells c - left_pad tbl cells c)"

definition render_col :: "nat \<Rightarrow> md_table \<Rightarrow> string list \<Rightarrow> string \<Rightarrow> nat \<Rightarrow> string" where
  "render_col cap tbl cells out c =
     (let o1 = md_lit cap out (if c = 0 then vbar @ '' '' else '' '' @ vbar @ '' '');
          o2 = foldl (md_ch cap) o1 (replicate (left_pad tbl cells c) SP);
          o3 = (if c < length cells then md_cell cap o2 (cells ! c) else o2)
      in foldl (md_ch cap) o3 (replicate (right_pad tbl cells c) SP))"

definition md_table_render_row :: "nat \<Rightarrow> cptr \<Rightarrow> md_table option \<Rightarrow> string" where
  "md_table_render_row cap row tbl =
     (case (row, tbl) of
        (Some r, Some t) \<Rightarrow>
          if cap = 0 then []
          else let cells = split_cells r MD_MAX_COLS
               in md_lit cap (foldl (render_col cap t cells) [] [0..<length (widths t)]) ('' '' @ vbar)
      | _ \<Rightarrow> [])"

section \<open>A row as the text of its columns\<close>

fun unescape :: "string \<Rightarrow> string" where
  "unescape [] = []"
| "unescape (c # cs) = (if c = BACKSLASH \<and> cs \<noteq> [] \<and> hd cs = PIPE then unescape cs else c # unescape cs)"

definition column :: "md_table \<Rightarrow> string list \<Rightarrow> nat \<Rightarrow> string" where
  "column tbl cells c =
     (if c = 0 then vbar @ '' '' else '' '' @ vbar @ '' '') @ replicate (left_pad tbl cells c) SP @
     (if c < length cells then unescape (cells ! c) else []) @ replicate (right_pad tbl cells c) SP"

definition columns :: "md_table \<Rightarrow> string list \<Rightarrow> nat \<Rightarrow> string" where
  "columns tbl cells n = concat (map (column tbl cells) [0..<n])"

text \<open>What a buffer of capacity \<open>cap\<close> holds of a text.\<close>

definition clip :: "nat \<Rightarrow> string \<Rightarrow> string" where
  "clip cap x = take (cap - 1) x"

lemma clip_Nil [simp]: "clip cap [] = []"
  by (simp add: clip_def)

lemma md_ch_clip [simp]: "0 < cap \<Longrightarrow> md_ch cap (clip cap x) c = clip cap (x @ [c])"
  by (auto simp: md_ch_def clip_def)

lemma foldl_ch [simp]: "0 < cap \<Longrightarrow> foldl (md_ch cap) (clip cap x) y = clip cap (x @ y)"
  by (induction y arbitrary: x) simp_all

lemma md_lit_clip [simp]: "0 < cap \<Longrightarrow> md_lit cap (clip cap x) y = clip cap (x @ y)"
  by (simp add: md_lit_def)

lemma md_cell_clip [simp]: "0 < cap \<Longrightarrow> md_cell cap (clip cap x) y = clip cap (x @ unescape y)"
  by (induction y arbitrary: x) simp_all

lemma render_col_clip:
  "0 < cap \<Longrightarrow> render_col cap t cells (clip cap x) c = clip cap (x @ column t cells c)"
  by (simp add: render_col_def Let_def column_def)

lemma render_cols_clip:
  assumes "0 < cap" shows "foldl (render_col cap t cells) [] [0..<n] = clip cap (columns t cells n)"
  by (induction n) (simp_all add: columns_def render_col_clip assms)

text \<open>
  A rendered row is the text of its columns and the closing bar, cut where the buffer ends:
  every column has its bar, its padding and its cell without the backslashes before pipes, and the
  buffer is never overrun.
\<close>

theorem render_row_columns:
  "md_table_render_row cap (Some row) (Some t) =
     take (cap - 1) (columns t (split_cells row MD_MAX_COLS) (length (widths t)) @ '' '' @ vbar)"
proof (cases "cap = 0")
  case False
  then have "md_table_render_row cap (Some row) (Some t) =
      clip cap (columns t (split_cells row MD_MAX_COLS) (length (widths t)) @ '' '' @ vbar)"
    by (simp add: md_table_render_row_def Let_def render_cols_clip)
  then show ?thesis by (simp only: clip_def)
qed (simp add: md_table_render_row_def)

section \<open>Columns are aligned\<close>

text \<open>Every character has all the bytes that its first byte announces.\<close>

definition lead_bytes :: "char \<Rightarrow> nat" where
  "lead_bytes c =
     (if byte c < 128 then 1 else if byte c div 32 = 6 then 2 else if byte c div 16 = 14 then 3 else 4)"

function complete :: "string \<Rightarrow> bool" where
  "complete s \<longleftrightarrow>
     (if s = [] then True else lead_bytes (hd s) \<le> length s \<and> complete (drop (lead_bytes (hd s)) s))"
  by auto
termination by (relation "measure length") (auto simp: lead_bytes_def)

declare complete.simps [simp del]

lemma lead_bytes_pos: "0 < lead_bytes c"
  by (simp add: lead_bytes_def)

lemma decode_lead: "s \<noteq> [] \<Longrightarrow> lead_bytes (hd s) \<le> length s \<Longrightarrow> fst (utf8_decode_cp s) = lead_bytes (hd s)"
  by (auto simp: utf8_decode_cp_def lead_bytes_def Let_def split: if_splits)

lemma complete_Nil [simp]: "complete []"
  by (subst complete.simps) simp

lemma complete_step: "s \<noteq> [] \<Longrightarrow>
    complete s \<longleftrightarrow> lead_bytes (hd s) \<le> length s \<and> complete (drop (lead_bytes (hd s)) s)"
  by (subst complete.simps) simp

lemma complete_boundary: "complete x \<Longrightarrow> boundary (x @ y) (length x)"
proof (induction x rule: complete.induct)
  case (1 x)
  show ?case
  proof (cases "x = []")
    case True
    then show ?thesis by (simp add: boundary_0)
  next
    case False
    define n where "n = lead_bytes (hd x)"
    have n: "n \<le> length x" "complete (drop n x)" using 1(2) complete_step [OF False] by (simp_all add: n_def)
    obtain m cp where d: "utf8_decode_cp (x @ y) = (m, cp)" by (cases "utf8_decode_cp (x @ y)")
    have "m = n" using decode_lead [of "x @ y"] False n(1) d by (simp add: n_def)
    moreover have "boundary (drop n x @ y) (length (drop n x))"
      using 1(1) False n by (simp add: n_def)
    ultimately have "boundary (x @ y) (n + length (drop n x))"
      using False d n(1) by (intro boundary_step [of _ n cp]) auto
    then show ?thesis using n(1) by simp
  qed
qed

lemma width_append: "complete x \<Longrightarrow> tui_chat_display_width (x @ y) = tui_chat_display_width x + tui_chat_display_width y"
  by (rule display_width_split) (rule complete_boundary)

lemma complete_append: "complete x \<Longrightarrow> complete y \<Longrightarrow> complete (x @ y)"
proof (induction x rule: complete.induct)
  case (1 x)
  then show ?case using complete_step [of x] complete_step [of "x @ y"] by (cases "x = []") auto
qed

lemma complete_spaces [simp]: "complete (replicate n SP)"
  by (induction n) (simp_all add: complete_step lead_bytes_def)

lemma complete_vbar [simp]: "complete vbar"
  by (simp add: complete_step lead_bytes_def vbar_def)

lemma width_spaces [simp]: "tui_chat_display_width (replicate n SP) = n"
proof (induction n)
  case (Suc n)
  then show ?case using display_width_step [of "SP # replicate n SP" 1 32] by (simp add: decode_ascii)
qed simp

lemma width_vbar [simp]: "tui_chat_display_width vbar = 1"
proof -
  have "utf8_decode_cp vbar = (3, 0x2502)" by (simp add: utf8_decode_cp_def vbar_def Let_def)
  moreover have "cp_display_width 0x2502 = 1"
    by (simp add: cp_display_width_def in_ranges_def zero_ranges_def wide_ranges_def)
  ultimately show ?thesis using display_width_step [of vbar 3 "0x2502"] by (simp add: vbar_def)
qed

text \<open>A cell whose width is what is drawn: whole characters and no escaped pipe.\<close>

definition tidy :: "string \<Rightarrow> bool" where
  "tidy c \<longleftrightarrow> complete c \<and> unescape c = c"

lemma column_width:
  assumes "c < length cells \<Longrightarrow> tidy (cells ! c) \<and> tui_chat_display_width (cells ! c) \<le> widths t ! c"
    and "c + 1 < length (widths t)"
  shows "complete (column t cells c)"
    "tui_chat_display_width (column t cells c) = (if c = 0 then 2 else 3) + widths t ! c"
proof -
  define bar where "bar = (if c = 0 then vbar @ '' '' else '' '' @ vbar @ '' '')"
  define w where "w = (if c < length cells then unescape (cells ! c) else [])"
  define l r where "l = left_pad t cells c" and "r = right_pad t cells c"
  have sp: "complete '' ''" "tui_chat_display_width '' '' = 1"
    using complete_spaces [of 1] width_spaces [of 1] by simp_all
  have "complete ('' '' @ vbar @ '' '')" "complete (vbar @ '' '')"
    by (intro complete_append sp complete_vbar)+
  moreover have "tui_chat_display_width ('' '' @ vbar @ '' '') = 3" "tui_chat_display_width (vbar @ '' '') = 2"
    by (simp_all only: width_append [OF sp(1)] width_append [OF complete_vbar] sp(2) width_vbar)
  ultimately have bar: "complete bar" "tui_chat_display_width bar = (if c = 0 then 2 else 3)"
    by (simp_all add: bar_def)
  have w: "complete w" using assms(1) by (simp add: w_def tidy_def)
  have sum: "l + tui_chat_display_width w + r = widths t ! c"
    using assms by (auto simp: l_def r_def w_def tidy_def left_pad_def right_pad_def col_pad_def)
  have col: "column t cells c = bar @ replicate l SP @ w @ replicate r SP"
    by (simp add: column_def bar_def w_def l_def r_def)
  show "complete (column t cells c)" unfolding col by (simp add: complete_append bar w)
  show "tui_chat_display_width (column t cells c) = (if c = 0 then 2 else 3) + widths t ! c"
    unfolding col using sum by (simp add: width_append complete_append bar w)
qed

lemma columns_width:
  assumes "\<And>c. c < n \<Longrightarrow> c < length cells \<Longrightarrow> tidy (cells ! c) \<and> tui_chat_display_width (cells ! c) \<le> widths t ! c"
    and "n < length (widths t)"
  shows "complete (columns t cells n) \<and>
    tui_chat_display_width (columns t cells n) = sum_list (take n (widths t)) + (3 * n - 1)"
  using assms
proof (induction n)
  case (Suc n)
  have col: "complete (column t cells n)"
      "tui_chat_display_width (column t cells n) = (if n = 0 then 2 else 3) + widths t ! n"
    using column_width [of n cells t] Suc.prems by simp_all
  have ih: "complete (columns t cells n)"
      "tui_chat_display_width (columns t cells n) = sum_list (take n (widths t)) + (3 * n - 1)"
    using Suc.IH Suc.prems by simp_all
  have c: "columns t cells (Suc n) = columns t cells n @ column t cells n" by (simp add: columns_def)
  have t: "sum_list (take (Suc n) (widths t)) = sum_list (take n (widths t)) + widths t ! n"
    using Suc.prems(2) by (simp add: take_Suc_conv_app_nth)
  show ?case using ih col unfolding c t by (simp add: complete_append width_append)
qed (simp add: columns_def)

lemma widen_length [simp]: "length (widen ws cells) = length ws"
  by (simp add: widen_def)

lemma widen_ge:
  "c < length ws \<Longrightarrow> ws ! c \<le> widen ws cells ! c"
  "c < length ws \<Longrightarrow> c < length cells \<Longrightarrow> tui_chat_display_width (cells ! c) \<le> widen ws cells ! c"
  by (simp_all add: widen_def)

lemma scan_widths:
  "length (foldl (\<lambda>ws k. widen ws (f k)) ws ks) = length ws"
  "c < length ws \<Longrightarrow> ws ! c \<le> foldl (\<lambda>ws k. widen ws (f k)) ws ks ! c"
  "c < length ws \<Longrightarrow> k \<in> set ks \<Longrightarrow> c < length (f k) \<Longrightarrow>
     tui_chat_display_width (f k ! c) \<le> foldl (\<lambda>ws k. widen ws (f k)) ws ks ! c"
proof (induction ks arbitrary: ws)
  case (Cons j ks)
  { case 1 show ?case using Cons(1) by simp
  next case 2 then show ?case using Cons(2) [of "widen ws (f j)"] widen_ge(1) [of c ws "f j"] by simp
  next case 3
    then show ?case using Cons(3) [of "widen ws (f j)"] Cons(2) [of "widen ws (f j)"] widen_ge(2) [of c ws "f j"]
      by (cases "k = j") force+ }
qed simp_all

lemma columns_split: "c \<le> n \<Longrightarrow> columns t cells n = columns t cells c @ concat (map (column t cells) [c..<n])"
  using upt_add_eq_append [of 0 c "n - c"] by (simp add: columns_def)

text \<open>
  The columns of a table are aligned: in every row of a table, rendered with the geometry that
  the scan computed, the bar of a column stands at the same place, after the widths of the columns
  before it. Cells with escaped pipes or cut characters are excepted.
\<close>

theorem table_columns_align:
  assumes scan: "md_table_scan alloc text starts nlines first = Some t"
    and row: "k \<in> set (row_lines first (nrows t))" and cells: "cells = split_cells (line_of text starts k) MD_MAX_COLS"
    and tidy: "list_all tidy cells" and c: "c < length (widths t)"
    and room: "length (columns t cells (length (widths t))) + 4 < cap"
  shows "\<exists>before after.
    md_table_render_row cap (Some (line_of text starts k)) (Some t) =
      before @ (if c = 0 then [] else '' '') @ vbar @ after \<and>
    tui_chat_display_width before = sum_list (take c (widths t)) + (3 * c - 1)"
proof -
  define after where "after = drop (length (if c = 0 then vbar else '' '' @ vbar)) (column t cells c) @
    concat (map (column t cells) [Suc c..<length (widths t)]) @ '' '' @ vbar"
  have fits: "tui_chat_display_width (cells ! d) \<le> widths t ! d" if "d < length (widths t)" "d < length cells" for d
  proof -
    define f where "f = (\<lambda>k. split_cells (line_of text starts k) MD_MAX_COLS)"
    obtain z where "widths t = foldl (\<lambda>ws k. widen ws (f k)) (replicate z 0) (row_lines first (nrows t))"
      using scan by (auto simp: md_table_scan_def Let_def f_def split: if_splits)
    then show ?thesis using that row scan_widths(1) [of f "replicate z 0" "row_lines first (nrows t)"]
        scan_widths(3) [of d "replicate z 0" k "row_lines first (nrows t)" f] by (simp add: cells f_def)
  qed
  have col: "column t cells c = (if c = 0 then [] else '' '') @ vbar @
      drop (length (if c = 0 then vbar else '' '' @ vbar)) (column t cells c)"
    by (simp add: column_def)
  have "md_table_render_row cap (Some (line_of text starts k)) (Some t) =
      columns t cells (length (widths t)) @ '' '' @ vbar"
    using room by (simp add: render_row_columns flip: cells) (simp add: vbar_def)
  also have "\<dots> = columns t cells c @ (if c = 0 then [] else '' '') @ vbar @ after"
    using columns_split [of c "length (widths t)" t cells] c col by (simp add: upt_conv_Cons after_def)
  finally show ?thesis
    using columns_width [of c cells t] fits tidy c
    by (intro exI [of _ "columns t cells c"] exI [of _ after]) (simp add: list_all_length)
qed

definition sample_table :: string where
  "sample_table = ''|a|b|'' @ [LF] @ ''|-|-|'' @ [LF] @ ''|cc|d|'' @ [LF]"

lemma table_columns_align_witness:
  "\<exists>t before after. md_table_scan True sample_table [0, 6, 12, 19] 3 0 = Some t \<and>
     md_table_render_row 99 (Some (line_of sample_table [0, 6, 12, 19] 0)) (Some t) = before @ '' '' @ vbar @ after \<and>
     tui_chat_display_width before = 4"
proof -
  note ev = line_of_def sample_table_def md_line_kind_def lead_run_def is_digit_def table_kind_def split_cells_def
    split_loop.simps cell_end.simps trim_cell_def trim_by_def ltrim_by_def rtrim_by_def sep_cell_def skip_colon_def Let_def
    MD_MAX_COLS_def
  have w: "tui_chat_display_width [CHR ''a''] = 1" "tui_chat_display_width ''cc'' = 2"
      "tui_chat_display_width [CHR ''b''] = 1" "tui_chat_display_width [CHR ''d''] = 1"
    by (simp_all add: tui_chat_display_width.simps utf8_decode_cp_def cp_display_width_def in_ranges_def
        zero_ranges_def wide_ranges_def)
  have l: "line_of sample_table [0, 6, 12, 19] 0 = ''|a|b|'' @ [LF]" "line_of sample_table [0, 6, 12, 19] 1 = ''|-|-|'' @ [LF]"
      "line_of sample_table [0, 6, 12, 19] 2 = ''|cc|d|'' @ [LF]"
    by (simp_all add: line_of_def sample_table_def)
  have k: "split_cells (''|a|b|'' @ [LF]) MD_MAX_COLS = [''a'', ''b'']" "split_cells (''|-|-|'' @ [LF]) MD_MAX_COLS = [''-'', ''-'']"
      "split_cells (''|cc|d|'' @ [LF]) MD_MAX_COLS = [''cc'', ''d'']"
    by (simp_all add: ev)
  define t where "t = \<lparr>nrows = 2, widths = [2, 1], align = [0, 0]\<rparr>"
  have m: "md_line_kind (''|a|b|'' @ [LF]) = MD_LINE_TABLE_ROW" "md_line_kind (''|-|-|'' @ [LF]) = MD_LINE_TABLE_SEP"
      "md_line_kind (''|cc|d|'' @ [LF]) = MD_LINE_TABLE_ROW"
    using k by (simp_all add: md_line_kind_def lead_run_def is_digit_def table_kind_def sep_cell_def skip_colon_def Let_def)
  have scan: "md_table_scan True sample_table [0, 6, 12, 19] 3 0 = Some t"
    using k m l w
    by (simp add: md_table_scan_def table_rows_def row_lines_def widen_def cell_align_def t_def Let_def
        numeral_2_eq_2 upt_rec eval_nat_numeral)
  have "tidy ''a''" "tidy ''b''"
    by (simp_all add: tidy_def complete.simps lead_bytes_def)
  moreover have "\<exists>before after. md_table_render_row 99 (Some (line_of sample_table [0, 6, 12, 19] 0)) (Some t) =
      before @ (if 1 = (0::nat) then [] else '' '') @ vbar @ after \<and>
      tui_chat_display_width before = sum_list (take 1 (widths t)) + (3 * 1 - 1)"
    by (rule table_columns_align [OF scan _ refl])
      (use calculation k l w in \<open>simp_all add: t_def row_lines_def columns_def column_def left_pad_def right_pad_def
        col_pad_def vbar_def numeral_2_eq_2\<close>)
  ultimately show ?thesis using scan by (auto simp: t_def)
qed

section \<open>Cells of a written row\<close>

text \<open>How a row is written: pipes inside cells are escaped, every cell stands between spaces.\<close>

fun escape :: "string \<Rightarrow> string" where
  "escape [] = []"
| "escape (c # cs) = (if c = PIPE then BACKSLASH # PIPE # escape cs else c # escape cs)"

definition write_row :: "string list \<Rightarrow> string" where
  "write_row cs = PIPE # concat (map (\<lambda>c. SP # escape c @ [SP, PIPE]) cs)"

definition cell_text :: "string \<Rightarrow> bool" where
  "cell_text c \<longleftrightarrow> LF \<notin> set c \<and> (c = [] \<or> hd c \<noteq> SP \<and> last c \<noteq> SP)"

lemma escape_hd: "cs \<noteq> [] \<Longrightarrow> hd (escape cs) = (if hd cs = PIPE then BACKSLASH else hd cs)"
  by (cases cs) simp_all

lemma escape_Nil [simp]: "escape cs = [] \<longleftrightarrow> cs = []"
  by (cases cs) simp_all

lemma unescape_escape [simp]: "unescape (escape c) = c"
proof (induction c)
  case (Cons d c)
  have "escape c \<noteq> [] \<longrightarrow> hd (escape c) \<noteq> PIPE" by (auto simp: escape_hd)
  with Cons show ?case by auto
qed simp

lemma escape_last: "cs \<noteq> [] \<Longrightarrow> last (escape cs) = last cs"
  by (induction cs) auto

lemma escape_LF: "LF \<in> set (escape c) \<longleftrightarrow> LF \<in> set c"
  by (induction c) auto

text \<open>Every pipe of an escaped text follows a backslash.\<close>

lemma cell_end_escaped:
  "LF \<notin> set c \<Longrightarrow> pre \<noteq> [] \<Longrightarrow>
     cell_end (pre @ escape c @ SP # PIPE # rest) (length pre) = length pre + length (escape c) + 1"
proof (induction c arbitrary: pre)
  case Nil
  then show ?case by (simp add: cell_end.simps nth_append)
next
  case (Cons d c)
  then have "d \<noteq> LF" by auto
  show ?case
  proof (cases "d = PIPE")
    case True
    have "cell_end (pre @ escape (d # c) @ SP # PIPE # rest) (length pre) =
        cell_end ((pre @ [BACKSLASH, PIPE]) @ escape c @ SP # PIPE # rest) (length pre + 2)"
      using True by (subst cell_end.simps, simp add: nth_append, subst cell_end.simps) (simp add: nth_append)
    then show ?thesis using Cons.IH [of "pre @ [BACKSLASH, PIPE]"] Cons.prems True by simp
  next
    case False
    have "cell_end (pre @ escape (d # c) @ SP # PIPE # rest) (length pre) =
        cell_end ((pre @ [d]) @ escape c @ SP # PIPE # rest) (length pre + 1)"
      using False \<open>d \<noteq> LF\<close> by (subst cell_end.simps) (simp add: nth_append)
    then show ?thesis using Cons.IH [of "pre @ [d]"] Cons.prems False by simp
  qed
qed

lemma trim_written:
  assumes "cell_text c" shows "trim_cell (SP # escape c @ [SP]) = escape c"
proof -
  have "c \<noteq> [] \<Longrightarrow> hd (escape c) \<noteq> SP \<and> last (escape c) \<noteq> SP"
    using assms escape_hd [of c] escape_last [of c] by (auto simp: cell_text_def)
  then have "trim_by (\<lambda>d. d = SP) (escape c) = escape c" by (intro trim_by_id) auto
  then show ?thesis using trim_by_pad [of "\<lambda>d. d = SP" "[SP]" "[SP]" "escape c"]
    by (simp add: trim_cell_def)
qed

lemma split_loop_written:
  "list_all cell_text cs \<Longrightarrow> pre \<noteq> [] \<Longrightarrow> length cells + length cs \<le> cap \<Longrightarrow>
     split_loop (pre @ concat (map (\<lambda>c. SP # escape c @ [SP, PIPE]) cs)) cap (length pre) cells = cells @ map escape cs"
proof (induction cs arbitrary: pre cells)
  case Nil
  then show ?case by (subst split_loop.simps) simp
next
  case (Cons c cs)
  define rest where "rest = concat (map (\<lambda>c. SP # escape c @ [SP, PIPE]) cs)"
  define e where "e = length pre + length (escape c) + 2"
  have "cell_end (pre @ SP # escape c @ SP # PIPE # rest) (length pre) =
      cell_end ((pre @ [SP]) @ escape c @ SP # PIPE # rest) (length (pre @ [SP]))"
    by (subst cell_end.simps) (simp add: nth_append)
  then have e: "cell_end (pre @ SP # escape c @ SP # PIPE # rest) (length pre) = e"
    using cell_end_escaped [of c "pre @ [SP]" rest] Cons.prems by (simp add: cell_text_def e_def)
  have at: "(pre @ SP # escape c @ SP # PIPE # rest) ! e = PIPE" by (simp add: e_def nth_append)
  have cell: "trim_cell (take (e - length pre) (SP # escape c @ SP # PIPE # rest)) = escape c"
    using trim_written [of c] Cons.prems by (simp add: e_def)
  have "split_loop ((pre @ SP # escape c @ [SP, PIPE]) @ rest) cap (length (pre @ SP # escape c @ [SP, PIPE]))
      (cells @ [escape c]) = (cells @ [escape c]) @ map escape cs"
    unfolding rest_def by (rule Cons.IH) (use Cons.prems in auto)
  then show ?case using Cons.prems e at cell
    by (subst split_loop.simps) (simp add: Let_def rest_def [symmetric], simp add: e_def)
qed

text \<open>
  The cells of a written row are read back: for at most sixteen cells of any text without line
  breaks and outer spaces, the last of them not empty, splitting the row and dropping the
  backslashes before pipes, as the renderer does, gives the cells.
\<close>

theorem table_row_roundtrip:
  assumes "list_all cell_text cs" "cs \<noteq> []" "last cs \<noteq> []" "length cs \<le> MD_MAX_COLS"
  shows "map unescape (split_cells (write_row cs) MD_MAX_COLS) = cs"
proof -
  have "split_loop (write_row cs) MD_MAX_COLS 1 [] = map escape cs"
    using split_loop_written [of cs "[PIPE]" "[]" MD_MAX_COLS] assms by (simp add: write_row_def)
  then have "split_cells (write_row cs) MD_MAX_COLS = map escape cs"
    using assms by (simp add: split_cells_def write_row_def last_map)
  then show ?thesis by (simp add: comp_def)
qed

lemma table_row_roundtrip_witness:
  "map unescape (split_cells (write_row [''a|b'', [], ''c d'']) MD_MAX_COLS) = [''a|b'', [], ''c d'']"
  by (rule table_row_roundtrip) (simp_all add: cell_text_def MD_MAX_COLS_def)

section \<open>Headings and fences\<close>

lemma lead_run_split: "r = replicate (lead_run c r) c @ drop (lead_run c r) r"
proof -
  have "takeWhile (\<lambda>d. d = c) r = replicate (lead_run c r) c"
    unfolding lead_run_def by (rule replicate_length_same [symmetric]) (auto dest: set_takeWhileD)
  then show ?thesis using takeWhile_dropWhile_id [of "\<lambda>d. d = c" r] dropWhile_eq_drop [of "\<lambda>d. d = c" r]
    by (simp add: lead_run_def)
qed

lemma lead_run_take: "k \<le> lead_run c r \<Longrightarrow> take k r = replicate k c"
  by (subst lead_run_split [of r c]) (simp add: min_absorb1)

lemma lead_run_replicate: "rest = [] \<or> hd rest \<noteq> c \<Longrightarrow> lead_run c (replicate n c @ rest) = n"
  by (cases rest) (auto simp: lead_run_def takeWhile_append)

text \<open>
  A line is a heading exactly when it is at most three spaces, one to six number signs and then
  nothing or a space with any text.
\<close>

lemma md_line_kind_heading:
  assumes "k \<le> 3" "1 \<le> h" "h \<le> 6" "r = [] \<or> hd r = SP"
  shows "md_line_kind (replicate k SP @ replicate h CHR ''#'' @ r) = MD_LINE_HEADING"
proof -
  have "lead_run SP (replicate k SP @ replicate h CHR ''#'' @ r) = k"
    using lead_run_replicate [of "replicate h CHR ''#'' @ r" SP k] assms(2) by (cases h) auto
  moreover have "lead_run CHR ''#'' (replicate h CHR ''#'' @ r) = h"
    using lead_run_replicate [of r "CHR ''#''" h] assms(4) by auto
  moreover have "hd (replicate h CHR ''#'' @ r) = CHR ''#''" using assms(2) by (cases h) auto
  moreover have "r \<noteq> [] \<Longrightarrow> (replicate h CHR ''#'' @ r) ! h = SP"
    using assms(4) by (cases r) (simp_all add: nth_append)
  ultimately show ?thesis using assms
    by (auto simp: md_line_kind_def heading_kind_def Let_def)
qed

lemma heading_line:
  assumes "md_line_kind s = MD_LINE_HEADING"
  shows "\<exists>k h r. k \<le> 3 \<and> 1 \<le> h \<and> h \<le> 6 \<and> s = replicate k SP @ replicate h CHR ''#'' @ r \<and> (r = [] \<or> hd r = SP)"
proof -
  define k where "k = min 3 (lead_run SP s)"
  define h where "h = lead_run CHR ''#'' (drop k s)"
  have "heading_kind (drop k s) = MD_LINE_HEADING \<and> drop k s \<noteq> [] \<and> hd (drop k s) = CHR ''#''"
    using assms unfolding md_line_kind_def k_def [symmetric] Let_def
    by (auto simp: bullet_kind_def number_kind_def table_kind_def Let_def split: if_splits)
  then have h: "1 \<le> h" "h \<le> 6" "h = length (drop k s) \<or> drop k s ! h = SP"
    by (cases "drop k s"; auto simp: heading_kind_def Let_def h_def lead_run_def split: if_splits)+
  have "drop h (drop k s) = [] \<or> hd (drop h (drop k s)) = SP"
    using h(3) by (cases "h < length (drop k s)") (auto simp: hd_drop_conv_nth add.commute)
  moreover have "s = replicate k SP @ drop k s"
    using lead_run_take [of k SP s] append_take_drop_id [of k s] by (simp add: k_def)
  moreover have "drop k s = replicate h CHR ''#'' @ drop h (drop k s)"
    using lead_run_split [of "drop k s" "CHR ''#''"] by (simp add: h_def)
  ultimately show ?thesis using h k_def by (metis min.cobounded1)
qed

text \<open>
  A line is a heading exactly when it consists of at most three spaces, one to six number
  signs, and then nothing or a space with any text.
\<close>

theorem heading_exact:
  "md_line_kind s = MD_LINE_HEADING \<longleftrightarrow>
     (\<exists>k h r. k \<le> 3 \<and> 1 \<le> h \<and> h \<le> 6 \<and> s = replicate k SP @ replicate h CHR ''#'' @ r \<and> (r = [] \<or> hd r = SP))"
  using heading_line md_line_kind_heading by blast

section \<open>Where rows are not drawn as the header says\<close>

text \<open>An escaped pipe is counted although it is not drawn, so the bars behind it move to the left.\<close>

lemma escaped_pipe_moves_bar:
  assumes "widths t = [4, 1]" "align t = [0, 0]"
  shows "columns t [CHR ''a'' # BACKSLASH # PIPE # ''b'', ''c''] 1 = vbar @ '' a|b''"
    "columns t [''abcd'', ''c''] 1 = vbar @ '' abcd''"
proof -
  have "tui_chat_display_width (CHR ''a'' # BACKSLASH # PIPE # ''b'') = 4" "tui_chat_display_width ''abcd'' = 4"
    by (simp_all add: tui_chat_display_width.simps utf8_decode_cp_def cp_display_width_def in_ranges_def
        zero_ranges_def wide_ranges_def)
  then show "columns t [CHR ''a'' # BACKSLASH # PIPE # ''b'', ''c''] 1 = vbar @ '' a|b''"
    "columns t [''abcd'', ''c''] 1 = vbar @ '' abcd''" using assms
    by (simp_all add: columns_def column_def left_pad_def right_pad_def col_pad_def)
qed

text \<open>A column that is aligned left or centred gets no padding when it is the last.\<close>

lemma last_column_ragged: "c + 1 = length (widths t) \<Longrightarrow> right_pad t cells c = 0"
  by (simp add: right_pad_def)

text \<open>Of a row with more than sixteen cells the rest is not shown.\<close>

lemma columns_beyond_dropped:
  "split_cells (concat (replicate 17 ''|x'')) MD_MAX_COLS = replicate 16 ''x''"
  by (simp add: split_cells_def split_loop.simps cell_end.simps trim_cell_def trim_by_def ltrim_by_def rtrim_by_def
      MD_MAX_COLS_def eval_nat_numeral Let_def)

text \<open>A line of spaces is blank only up to three of them.\<close>

lemma four_spaces_not_blank: "md_line_kind ''    '' = MD_LINE_PLAIN"
  by (simp add: md_line_kind_def lead_run_def is_digit_def Let_def)

end
