(* ===== verification/Registry.thy ===== *)
theory Registry
  imports CString
begin

text \<open>
  The table of tools (\<open>tools/registry.c\<close>): registration, switching tools on by name, lookup,
  and the configuration handed to delegated agents.

  The table is the list of its entries; \<open>MAX_TOOLS\<close> bounds its length. A factory that fails
  registers NULL, which is None. The JSON text of the schemas is printed by a library from the
  entries that \<open>registry_schemas\<close> gives.
\<close>

record tool_entry =
  tool_name :: string
  tool_description :: cptr
  tool_schema :: cptr
  enabled :: bool

definition MAX_TOOLS :: nat where "MAX_TOOLS = 32"

definition registry_find_registered :: "tool_entry list \<Rightarrow> cptr \<Rightarrow> nat option" where
  "registry_find_registered tools nm =
     (case nm of None \<Rightarrow> None | Some n \<Rightarrow> find_index (\<lambda>t. tool_name t = n) tools)"

definition registry_register :: "tool_entry option \<Rightarrow> tool_entry list \<Rightarrow> int \<times> tool_entry list" where
  "registry_register tool tools =
     (case tool of
        None \<Rightarrow> (-1, tools)
      | Some t \<Rightarrow> if length tools \<ge> MAX_TOOLS then (-1, tools) else (0, tools @ [t\<lparr>enabled := False\<rparr>]))"

text \<open>The factories in their order; \<open>factory\<close> says what each of them returns.\<close>

definition builtin_names :: "string list" where
  "builtin_names =
     [''bash'', ''read_file'', ''write_file'', ''list_dir'', ''glob'', ''grep'', ''web_fetch'', ''web_search'',
      ''edit'', ''python_execute'', ''rest_api'', ''notes'', ''git'', ''ingest_document'', ''semantic_search'',
      ''deep_search'', ''memory'', ''delegate'', ''sqlite_query'', ''sqlite_schema'', ''ask_user'', ''humanizer'',
      ''browser'']"

definition registry_init :: "(string \<Rightarrow> tool_entry option) \<Rightarrow> int \<times> tool_entry list" where
  "registry_init factory =
     foldl (\<lambda>(failed, tools) n. case registry_register (factory n) tools of (rc, tools') \<Rightarrow> (failed + rc, tools'))
       (0, []) builtin_names"

text \<open>The tokens of \<open>strtok_r\<close>: the runs of bytes that are not delimiters.\<close>

fun strtok_all :: "(char \<Rightarrow> bool) \<Rightarrow> string \<Rightarrow> string \<Rightarrow> string list" where
  "strtok_all d cur [] = (if cur = [] then [] else [cur])"
| "strtok_all d cur (c # cs) =
     (if d c then (if cur = [] then strtok_all d [] cs else cur # strtok_all d [] cs)
      else strtok_all d (cur @ [c]) cs)"

definition name_delim :: "char \<Rightarrow> bool" where
  "name_delim c \<longleftrightarrow> c = CHR '','' \<or> c = SP"

definition enable_one :: "string \<Rightarrow> tool_entry list \<Rightarrow> tool_entry list" where
  "enable_one tok tools =
     (case registry_find_registered tools (Some tok) of
        None \<Rightarrow> tools
      | Some i \<Rightarrow> tools[i := (tools ! i)\<lparr>enabled := True\<rparr>])"

definition registry_set_enabled :: "bool \<Rightarrow> cptr \<Rightarrow> tool_entry list \<Rightarrow> int \<times> tool_entry list" where
  "registry_set_enabled alloc names tools =
     (case names of
        None \<Rightarrow> (0, tools)
      | Some s \<Rightarrow>
          if s = [] then (0, tools)
          else if \<not> alloc then (-1, tools)
          else (0, fold enable_one (strtok_all name_delim [] s) tools))"

definition registry_get :: "tool_entry list \<Rightarrow> cptr \<Rightarrow> tool_entry option" where
  "registry_get tools nm =
     (case registry_find_registered tools nm of
        None \<Rightarrow> None
      | Some i \<Rightarrow> if enabled (tools ! i) then Some (tools ! i) else None)"

definition registry_schemas :: "tool_entry list \<Rightarrow> (string \<times> string \<times> cptr) list" where
  "registry_schemas tools =
     map (\<lambda>t. (tool_name t, (case tool_description t of None \<Rightarrow> [] | Some d \<Rightarrow> d), tool_schema t))
       (filter enabled tools)"

definition registry_count :: "tool_entry list \<Rightarrow> nat" where
  "registry_count tools = length tools"

definition registry_enabled_count :: "tool_entry list \<Rightarrow> nat" where
  "registry_enabled_count tools = length (filter enabled tools)"

section \<open>The configuration of delegated agents\<close>

record delegate_config =
  d_provider_name :: cptr
  d_base_url :: cptr
  d_api_token :: cptr
  d_model :: cptr
  d_num_ctx :: int
  d_keep_alive_secs :: int
  d_temperature :: int
  d_timeout :: int
  d_max_iterations :: int

text \<open>\<open>copied\<close> says whether all copies succeeded. The temperature is carried around only.\<close>

definition registry_set_delegate_config :: "bool \<Rightarrow> delegate_config \<Rightarrow> delegate_config \<Rightarrow> delegate_config" where
  "registry_set_delegate_config copied new old = (if copied then new else old)"

definition registry_get_delegate_config :: "delegate_config \<Rightarrow> delegate_config option" where
  "registry_get_delegate_config cfg = (if d_provider_name cfg = None then None else Some cfg)"

section \<open>Lookup\<close>

lemma find_enable:
  "registry_find_registered (tools[i := (tools ! i)\<lparr>enabled := True\<rparr>]) nm = registry_find_registered tools nm"
proof (cases nm)
  case (Some n)
  have "find_index (\<lambda>t. tool_name t = n) (tools[i := (tools ! i)\<lparr>enabled := True\<rparr>]) =
      find_index (\<lambda>t. tool_name t = n) tools"
    by (induction tools arbitrary: i) (auto split: nat.split)
  then show ?thesis using Some by (simp add: registry_find_registered_def)
qed (simp add: registry_find_registered_def)

lemma find_bounds: "registry_find_registered tools (Some n) = Some i \<Longrightarrow> i < length tools \<and> tool_name (tools ! i) = n"
  using find_index_Some [of "\<lambda>t. tool_name t = n" tools i] by (simp add: registry_find_registered_def)

lemma find_enable_one: "registry_find_registered (enable_one tok tools) nm = registry_find_registered tools nm"
  by (simp add: enable_one_def find_enable split: option.split)

lemma get_enable_one:
  "registry_get (enable_one tok tools) (Some n) \<noteq> None \<longleftrightarrow>
     registry_find_registered tools (Some n) \<noteq> None \<and> (n = tok \<or> registry_get tools (Some n) \<noteq> None)"
proof (cases "registry_find_registered tools (Some n)")
  case None
  then show ?thesis by (simp add: registry_get_def find_enable_one)
next
  case (Some i)
  note i = find_bounds [OF Some]
  show ?thesis
  proof (cases "registry_find_registered tools (Some tok)")
    case None
    then show ?thesis using Some by (auto simp: registry_get_def enable_one_def)
  next
    case (Some j)
    then show ?thesis using i find_bounds [OF Some] \<open>registry_find_registered tools (Some n) = Some i\<close>
      by (auto simp: registry_get_def find_enable_one enable_one_def find_enable nth_list_update)
  qed
qed

lemma get_enable_all:
  "registry_get (fold enable_one toks tools) (Some n) \<noteq> None \<longleftrightarrow>
     registry_find_registered tools (Some n) \<noteq> None \<and> (n \<in> set toks \<or> registry_get tools (Some n) \<noteq> None)"
proof (induction toks arbitrary: tools)
  case Nil
  then show ?case by (auto simp: registry_get_def split: option.splits)
next
  case (Cons tok toks)
  then show ?case by (auto simp: find_enable_one get_enable_one simp del: not_None_eq)
qed

section \<open>The list of names\<close>

definition plain_name :: "string \<Rightarrow> bool" where
  "plain_name n \<longleftrightarrow> n \<noteq> [] \<and> list_all (\<lambda>c. \<not> name_delim c) n"

lemma strtok_name: "list_all (\<lambda>c. \<not> d c) n \<Longrightarrow> strtok_all d cur (n @ s) = strtok_all d (cur @ n) s"
  by (induction n arbitrary: cur) auto

text \<open>A list of names as it is written in a configuration file: with commas and spaces.\<close>

fun write_names :: "string list \<Rightarrow> string" where
  "write_names [] = []"
| "write_names [n] = n"
| "write_names (n # ns) = n @ '', '' @ write_names ns"

lemma strtok_write_names: "list_all plain_name ns \<Longrightarrow> strtok_all name_delim [] (write_names ns) = ns"
proof (induction ns rule: write_names.induct)
  case (2 n)
  then show ?case using strtok_name [of name_delim n "[]" "[]"] by (simp add: plain_name_def)
next
  case (3 n m ns)
  have d: "name_delim CHR '',''" "name_delim SP" by (simp_all add: name_delim_def)
  then show ?case using 3 strtok_name [of name_delim n "[]" "'', '' @ write_names (m # ns)"]
    by (simp add: plain_name_def)
qed simp

text \<open>
  A tool can be called exactly when it has been registered and switched on: after a list of
  names has been applied, a lookup finds the registered tools on the list and those that were on
  before, and nothing else.
\<close>

theorem enabled_exactly:
  assumes "list_all plain_name ns"
  shows "registry_get (snd (registry_set_enabled True (Some (write_names ns)) tools)) (Some n) \<noteq> None \<longleftrightarrow>
     registry_find_registered tools (Some n) \<noteq> None \<and> (n \<in> set ns \<or> registry_get tools (Some n) \<noteq> None)"
proof (cases "write_names ns = []")
  case True
  then have "ns = []" using assms by (cases ns rule: write_names.cases) (auto simp: plain_name_def)
  then show ?thesis by (auto simp: registry_set_enabled_def registry_get_def split: option.splits)
next
  case False
  then show ?thesis using strtok_write_names [OF assms]
    by (simp add: registry_set_enabled_def get_enable_all del: not_None_eq)
qed

definition plain_tool :: "string \<Rightarrow> tool_entry option" where
  "plain_tool n = Some \<lparr>tool_name = n, tool_description = None, tool_schema = None, enabled = True\<rparr>"

lemma enabled_exactly_witness:
  "registry_get (snd (registry_set_enabled True (Some ''glob, nothing'') (snd (registry_init plain_tool))))
     (Some ''glob'') \<noteq> None \<and>
   registry_get (snd (registry_set_enabled True (Some ''glob, nothing'') (snd (registry_init plain_tool))))
     (Some ''bash'') = None"
proof -
  have f: "registry_find_registered (snd (registry_init plain_tool)) (Some ''glob'') = Some 4"
      "registry_find_registered (snd (registry_init plain_tool)) (Some ''bash'') = Some 0"
      "registry_get (snd (registry_init plain_tool)) (Some ''bash'') = None"
    by (simp_all add: registry_init_def builtin_names_def registry_register_def plain_tool_def MAX_TOOLS_def
        registry_find_registered_def registry_get_def eval_nat_numeral)
  then show ?thesis
    using enabled_exactly [of "[''glob'', ''nothing'']" "snd (registry_init plain_tool)" "''glob''"]
      enabled_exactly [of "[''glob'', ''nothing'']" "snd (registry_init plain_tool)" "''bash''"]
    by (simp add: plain_name_def name_delim_def)
qed

text \<open>Nothing is switched on by registration, and the table stays within its bound.\<close>

lemma register_facts:
  "length tools \<le> MAX_TOOLS \<Longrightarrow> length (snd (registry_register t tools)) \<le> MAX_TOOLS"
  "registry_enabled_count (snd (registry_register t tools)) = registry_enabled_count tools"
  by (auto simp: registry_register_def registry_enabled_count_def split: option.splits)

text \<open>
  The number of failed registrations comes out negative, so that the caller, which reports a
  positive number, never reports one.
\<close>

lemma init_failures_negative: "fst (registry_init (\<lambda>_. None)) = -23"
  by (simp add: registry_init_def builtin_names_def registry_register_def)

lemma init_never_positive: "fst (registry_init factory) \<le> 0"
proof -
  define step where "step = (\<lambda>(failed, tools) n. case registry_register (factory n) tools of (rc, tools') \<Rightarrow> (failed + rc, tools'))"
  have "fst (foldl step acc ns) \<le> fst acc" for acc :: "int \<times> tool_entry list" and ns
  proof (induction ns arbitrary: acc)
    case (Cons n ns)
    have "fst (step acc n) \<le> fst acc"
      by (cases acc) (auto simp: step_def registry_register_def split: option.splits)
    then show ?case using Cons.IH [of "step acc n"] by simp
  qed simp
  from this [of "(0, [])" builtin_names] show ?thesis by (simp add: registry_init_def step_def)
qed

lemma delegate_config_kept:
  "registry_set_delegate_config False new old = old"
  "d_provider_name new \<noteq> None \<Longrightarrow> registry_get_delegate_config (registry_set_delegate_config True new old) = Some new"
  by (simp_all add: registry_set_delegate_config_def registry_get_delegate_config_def)

end
