(* ===== verification/AgentTools.thy ===== *)
theory AgentTools
  imports ContextWindow Safety Registry Tools CircuitBreaker
begin

text \<open>
  The agent's state and the execution of tool calls (\<open>agent/agent.h\<close>, \<open>agent/agent_tools.c\<close>,
  the appending of messages in \<open>agent/agent.c\<close>).

  What the agent does to the outside is a list of events, the trace. What the outside answers, the
  model, the tools, the person asked for approval, the clocks, another thread that cancels or
  changes the safety policy, the rows of the session store, whether a row can be stored, and which
  allocations fail, are functions of the trace up to that
  point, so every behaviour of theirs is covered. Metrics, logs and the callback manager only
  observe; of their calls the trace has the start of every tool call.
\<close>

section \<open>The agent and its surroundings\<close>

text \<open>
  A row of the session store as far as titles go: the title, and whether one has been asked for.
\<close>

record session_row =
  s_title :: string
  s_attempted :: bool

datatype agent_event =
  RunStart
| CallStart string string
| Asked string string
| ToolStart string string
| Ran string string
| ToolEnd string cptr string string
| LlmCall "message list"
| Saved "message list"
| TitleCall "message list"
| LoadRow
| StoreRow session_row

datatype alloc_site = CreateMessage | AppendMessage | CopyFields

record agent_env =
  reply :: "agent_event list \<Rightarrow> llm_response option"
  approver :: "(agent_event list \<Rightarrow> bool) option"
  execute :: "agent_event list \<Rightarrow> tool_result option"
  safety :: "agent_event list \<Rightarrow> safety_config option"
  cancel_requested :: "agent_event list \<Rightarrow> bool"
  monotonic_ms :: "agent_event list \<Rightarrow> int"
  wall_time :: "agent_event list \<Rightarrow> rat"
  cwd :: "agent_event list \<Rightarrow> cptr"
  time_text :: "agent_event list \<Rightarrow> string"
  memory_facts :: "agent_event list \<Rightarrow> (string \<times> string) list"
  fails :: "agent_event list \<Rightarrow> alloc_site \<Rightarrow> bool"
  row :: "agent_event list \<Rightarrow> session_row option"
  stored :: "agent_event list \<Rightarrow> bool"
  tools :: "tool_entry list"
  saves :: bool

record agent =
  messages :: "message list"
  trace :: "agent_event list"
  system_prompt :: cptr
  context_summary :: cptr
  max_iterations :: int
  max_context_messages :: int
  max_context_chars :: int
  max_tool_result_chars :: int
  breaker :: "circuit_breaker option"

definition emit :: "agent_event \<Rightarrow> agent \<Rightarrow> agent" where
  "emit e ag = ag\<lparr>trace := trace ag @ [e]\<rparr>"

definition message_create :: "agent_env \<Rightarrow> agent \<Rightarrow> string \<Rightarrow> cptr \<Rightarrow> message" where
  "message_create env ag role body =
     \<lparr>m_role = Some role, m_content = Some (case body of None \<Rightarrow> [] | Some c \<Rightarrow> c),
      m_id = None, m_parent_id = None, m_fork_group_id = None, m_tool_calls = [], m_tool_call_id = None,
      m_tool_name = None, m_error_category = None, m_timestamp = wall_time env (trace ag),
      m_thinking = None, m_phase = None, m_provider_state = None\<rparr>"

definition bare_message :: "string \<Rightarrow> string \<Rightarrow> message" where
  "bare_message role body =
     \<lparr>m_role = Some role, m_content = Some body, m_id = None, m_parent_id = None, m_fork_group_id = None,
      m_tool_calls = [], m_tool_call_id = None, m_tool_name = None, m_error_category = None, m_timestamp = 0,
      m_thinking = None, m_phase = None, m_provider_state = None\<rparr>"

text \<open>The message is appended and its index returned, or -1 and nothing.\<close>

definition agent_append_message :: "agent_env \<Rightarrow> agent \<Rightarrow> message \<Rightarrow> int \<times> agent" where
  "agent_append_message env ag msg =
     (if fails env (trace ag) AppendMessage then (-1, ag)
      else (int (length (messages ag)), ag\<lparr>messages := messages ag @ [msg]\<rparr>))"

section \<open>Tool calls\<close>

text \<open>
  Who owns the array of calls while it is worked through: the response, a message of the agent
  (the results are then written into that message), or nobody any more.
\<close>

datatype calls_owner = InResponse | InMessage nat | Freed

definition set_results :: "calls_owner \<Rightarrow> nat \<Rightarrow> string \<Rightarrow> string \<Rightarrow> agent \<Rightarrow> agent" where
  "set_results owner i result err ag =
     (case owner of
        InMessage k \<Rightarrow>
          let m = messages ag ! k; c = m_tool_calls m ! i
          in ag\<lparr>messages := (messages ag)
                 [k := m\<lparr>m_tool_calls := (m_tool_calls m)
                          [i := c\<lparr>tc_result_content := Some result, tc_result_error := Some err\<rparr>]\<rparr>]\<rparr>
      | _ \<Rightarrow> ag)"

text \<open>The two answers that do not come from a tool: not found and denied.\<close>

definition reject_call :: "agent_env \<Rightarrow> tool_call \<Rightarrow> string \<Rightarrow> string \<Rightarrow> string \<Rightarrow> agent \<Rightarrow> agent" where
  "reject_call env c tname reason category ag =
     (if fails env (trace ag) CreateMessage then ag
      else snd (agent_append_message env ag
             ((message_create env ag ''tool'' (Some reason))
                \<lparr>m_tool_call_id := Some (or_empty (tc_id c)), m_tool_name := Some tname,
                 m_error_category := Some category\<rparr>)))"

definition shown_result :: "agent \<Rightarrow> tool_result \<Rightarrow> string" where
  "shown_result ag res =
     (if max_tool_result_chars ag > 0
      then or_empty (str_truncate_ellipsis_dup (Some (or_empty (content res))) (nat (max_tool_result_chars ag)))
      else or_empty (content res))"

definition tool_message :: "agent_env \<Rightarrow> agent \<Rightarrow> tool_call \<Rightarrow> tool_result \<Rightarrow> message" where
  "tool_message env ag c res =
     (let msg = (message_create env ag ''tool'' (Some (shown_result ag res)))
                  \<lparr>m_tool_call_id := Some (or_empty (tc_id c)), m_tool_name := tc_name c\<rparr>
      in case error res of
           None \<Rightarrow> msg
         | Some e \<Rightarrow> msg\<lparr>m_error_category := Some (case error_category res of None \<Rightarrow> ''execution_error'' | Some k \<Rightarrow> k),
                        m_content := Some (''Error: '' @ e)\<rparr>)"

definition run_tool :: "agent_env \<Rightarrow> calls_owner \<Rightarrow> nat \<Rightarrow> tool_call \<Rightarrow> string \<Rightarrow> string \<Rightarrow> agent \<Rightarrow> agent" where
  "run_tool env owner i c tname args ag =
     (let ag1 = emit (Ran tname args) (emit (ToolStart tname args) ag);
          res = (case execute env (trace ag1) of
                   None \<Rightarrow> tool_result_error (Some ''tool returned no result'') (Some ''execution_error'')
                 | Some r \<Rightarrow> r);
          display = shown_result ag1 res; err = or_empty (error res);
          ag2 = emit (ToolEnd tname (tc_id c) display err) (set_results owner i display err ag1)
      in if fails env (trace ag2) CreateMessage then ag2
         else snd (agent_append_message env ag2 (tool_message env ag2 c res)))"

definition gated :: "agent_env \<Rightarrow> agent_event list \<Rightarrow> cptr \<Rightarrow> bool" where
  "gated env tr nm \<longleftrightarrow> safety env tr \<noteq> None \<and> safety_needs_approval (safety env tr) nm"

definition run_call :: "agent_env \<Rightarrow> calls_owner \<Rightarrow> nat \<Rightarrow> tool_call \<Rightarrow> agent \<Rightarrow> agent" where
  "run_call env owner i c ag =
     (let args = (case tc_arguments c of None \<Rightarrow> ''{}'' | Some a \<Rightarrow> a);
          tname = (case tc_name c of None \<Rightarrow> ''unknown'' | Some n \<Rightarrow> n);
          ag1 = emit (CallStart tname args) ag
      in case registry_get (tools env) (tc_name c) of
           None \<Rightarrow> reject_call env c tname ''tool not found'' ''tool_not_found'' ag1
         | Some t \<Rightarrow>
             if gated env (trace ag1) (tc_name c)
             then (case approver env of
                     None \<Rightarrow> reject_call env c tname ''tool call denied'' ''denied'' ag1
                   | Some f \<Rightarrow>
                       let ag2 = emit (Asked tname args) ag1
                       in if f (trace ag2) then run_tool env owner i c tname args ag2
                          else reject_call env c tname ''tool call denied'' ''denied'' ag2)
             else run_tool env owner i c tname args ag1)"

fun execute_tool_calls :: "agent_env \<Rightarrow> calls_owner \<Rightarrow> nat \<Rightarrow> tool_call list \<Rightarrow> agent \<Rightarrow> agent" where
  "execute_tool_calls env owner i [] ag = ag"
| "execute_tool_calls env owner i (c # cs) ag =
     execute_tool_calls env owner (Suc i) cs (run_call env owner i c ag)"

section \<open>Nothing runs that is not registered, switched on and approved\<close>

text \<open>How a run of a tool stands in the trace.\<close>

definition licensed :: "agent_env \<Rightarrow> agent_event list \<Rightarrow> string \<Rightarrow> string \<Rightarrow> bool" where
  "licensed env pre n args \<longleftrightarrow>
     registry_get (tools env) (Some n) \<noteq> None \<and>
     (\<exists>q. pre = q @ [CallStart n args, ToolStart n args] \<and> \<not> gated env (q @ [CallStart n args]) (Some n) \<or>
          pre = q @ [CallStart n args, Asked n args, ToolStart n args] \<and>
            (\<exists>f. approver env = Some f \<and> f (q @ [CallStart n args, Asked n args])))"

text \<open>A condition on every event of a trace and what went before it.\<close>

definition each_event :: "(agent_event list \<Rightarrow> agent_event \<Rightarrow> bool) \<Rightarrow> agent_event list \<Rightarrow> bool" where
  "each_event P tr \<longleftrightarrow> (\<forall>pre e post. tr = pre @ e # post \<longrightarrow> P pre e)"

lemma each_event_Nil [simp]: "each_event P []"
  by (simp add: each_event_def)

lemma each_event_snoc: "each_event P (tr @ [e]) \<longleftrightarrow> each_event P tr \<and> P tr e"
proof
  assume l: "each_event P (tr @ [e])"
  have "P pre x" if "tr = pre @ x # post" for pre x post
  proof -
    from that have "tr @ [e] = pre @ x # (post @ [e])" by simp
    with l show ?thesis unfolding each_event_def by blast
  qed
  moreover have "P tr e" using l unfolding each_event_def by blast
  ultimately show "each_event P tr \<and> P tr e" unfolding each_event_def by blast
next
  assume l: "each_event P tr \<and> P tr e"
  have "P pre x" if eq: "tr @ [e] = pre @ x # post" for pre x post
  proof (cases post rule: rev_cases)
    case Nil
    then show ?thesis using eq l by simp
  next
    case (snoc p y)
    then have "tr = pre @ x # p" using eq by simp
    then show ?thesis using l unfolding each_event_def by blast
  qed
  then show "each_event P (tr @ [e])" unfolding each_event_def by blast
qed

lemma each_event_append:
  "each_event P tr \<Longrightarrow> (\<And>pre e. e \<in> set es \<Longrightarrow> P pre e) \<Longrightarrow> each_event P (tr @ es)"
proof (induction es rule: rev_induct)
  case (snoc e es)
  then show ?case using each_event_snoc [of P "tr @ es" e] by simp
qed simp

lemma each_event_prefix: "each_event P (tr @ es) \<Longrightarrow> each_event P tr"
proof (induction es rule: rev_induct)
  case (snoc e es)
  then show ?case using each_event_snoc [of P "tr @ es" e] by simp
qed simp

definition licensed_trace :: "agent_env \<Rightarrow> agent_event list \<Rightarrow> bool" where
  "licensed_trace env = each_event (\<lambda>pre e. \<forall>n args. e = Ran n args \<longrightarrow> licensed env pre n args)"

lemma licensed_snoc:
  "licensed_trace env (tr @ [e]) \<longleftrightarrow>
     licensed_trace env tr \<and> (\<forall>n args. e = Ran n args \<longrightarrow> licensed env tr n args)"
  by (simp add: licensed_trace_def each_event_snoc)

lemma licensed_start: "licensed_trace env [RunStart]"
  using licensed_snoc [of env "[]" RunStart] by (simp add: licensed_trace_def)

lemma trace_emit [simp]: "trace (emit e ag) = trace ag @ [e]" "messages (emit e ag) = messages ag"
  by (simp_all add: emit_def)

lemma trace_append [simp]: "trace (snd (agent_append_message env ag msg)) = trace ag"
  by (simp add: agent_append_message_def)

lemma trace_set_results [simp]: "trace (set_results owner i r e ag) = trace ag"
  by (simp add: set_results_def Let_def split: calls_owner.split)

lemma trace_reject [simp]: "trace (reject_call env c t r k ag) = trace ag"
  by (simp add: reject_call_def)

lemma trace_run_tool:
  "\<exists>d e. trace (run_tool env owner i c n args ag) = trace ag @ [ToolStart n args, Ran n args, ToolEnd n (tc_id c) d e]"
  by (simp add: run_tool_def Let_def)

lemma run_tool_licensed:
  assumes "licensed_trace env (trace ag)" "licensed env (trace ag @ [ToolStart n args]) n args"
  shows "licensed_trace env (trace (run_tool env owner i c n args ag))"
proof -
  obtain d e where t: "trace (run_tool env owner i c n args ag) =
      ((trace ag @ [ToolStart n args]) @ [Ran n args]) @ [ToolEnd n (tc_id c) d e]"
    using trace_run_tool [of env owner i c n args ag] by auto
  show ?thesis unfolding t licensed_snoc using assms by simp
qed

lemma run_call_licensed:
  assumes "licensed_trace env (trace ag)"
  shows "licensed_trace env (trace (run_call env owner i c ag))"
proof -
  define args where "args = (case tc_arguments c of None \<Rightarrow> ''{}'' | Some a \<Rightarrow> a)"
  show ?thesis
  proof (cases "registry_get (tools env) (tc_name c)")
    case None
    then show ?thesis using assms by (simp add: run_call_def Let_def licensed_snoc)
  next
    case (Some t)
    then obtain n where n: "tc_name c = Some n"
      by (cases "tc_name c") (auto simp: registry_get_def registry_find_registered_def)
    define p where "p = trace ag @ [CallStart n args]"
    have p: "licensed_trace env p" using assms by (simp add: p_def licensed_snoc)
    have p2: "licensed_trace env (trace ag @ [CallStart n args, Asked n args])"
      using licensed_snoc [of env p "Asked n args"] p by (simp add: p_def)
    have r: "registry_get (tools env) (Some n) \<noteq> None" using Some n by simp
    have free: "licensed env (p @ [ToolStart n args]) n args" if "\<not> gated env p (Some n)"
      using that r by (auto simp: licensed_def p_def)
    have asked: "licensed env (p @ [Asked n args, ToolStart n args]) n args"
      if "approver env = Some f" "f (p @ [Asked n args])" for f
      using that r by (auto simp: licensed_def p_def)
    show ?thesis
      using Some n p p2 free asked run_tool_licensed [of env "emit (CallStart n args) ag" n args owner i c]
        run_tool_licensed [of env "emit (Asked n args) (emit (CallStart n args) ag)" n args owner i c]
      by (auto simp: run_call_def Let_def args_def [symmetric] p_def licensed_snoc split: option.splits)
  qed
qed

lemma execute_licensed:
  "licensed_trace env (trace ag) \<Longrightarrow> licensed_trace env (trace (execute_tool_calls env owner i cs ag))"
  by (induction cs arbitrary: i ag) (simp_all add: run_call_licensed)

end
