(* ===== verification/AgentTitle.thy ===== *)
theory AgentTitle
  imports AgentTools
begin

text \<open>
  The title of a session (\<open>agent/agent_title.c\<close>): the attempt that is marked in the session's
  row, the request to the model, the clean-up of its answer, the fallback, and the storing of the
  title. The rows that loading finds, and whether storing works, are answers of the surroundings;
  every load and every store is an event of the trace, so other threads may change the row between
  any two of them.
\<close>

definition strip_think_tags :: "string \<Rightarrow> string" where
  "strip_think_tags s =
     (case strstr_at s ''<think>'' of
        None \<Rightarrow> s
      | Some i \<Rightarrow>
          (case strstr_at (drop (i + 7) s) ''</think>'' of
             None \<Rightarrow> s
           | Some j \<Rightarrow> take i s @ drop (i + 7 + j + 8) s))"

definition quoted :: "char \<Rightarrow> string \<Rightarrow> bool" where
  "quoted q s \<longleftrightarrow> s \<noteq> [] \<and> hd s = q \<and> last s = q"

text \<open>The clean-up of the model's text; None when nothing is left of it.\<close>

definition clean_title :: "string \<Rightarrow> string option" where
  "clean_title raw =
     (let t = trim_by is_space raw
      in if t = [] then None
         else let c = trim_by is_space (strip_think_tags t)
              in if c = [] then None
                 else let u = (if quoted DQUOTE c \<or> quoted CHR 0x27 c then tl (butlast c) else c)
                      in if u = [] then None else Some u)"

definition title_prompt :: "string \<Rightarrow> string" where
  "title_prompt first_user_msg =
     ''Summarize the following user request into a very short, descriptive title (max 5 words). '' @
     ''Do not use quotes or a period.'' @ [LF, LF] @ ''User request: '' @ first_user_msg"

definition fallback_title :: "string \<Rightarrow> string" where
  "fallback_title s = (if length s \<le> 30 then s else take 30 s @ ''...'')"

definition agent_title_from_model :: "agent_env \<Rightarrow> agent \<Rightarrow> string \<Rightarrow> string \<Rightarrow> string \<times> agent" where
  "agent_title_from_model env ag first_user_msg fallback =
     (let ag1 = emit (TitleCall [bare_message ''user'' (title_prompt first_user_msg)]) ag
      in case reply env (trace ag1) of
           None \<Rightarrow> (fallback, ag1)
         | Some r \<Rightarrow>
             (case r_content r of
                None \<Rightarrow> (fallback, ag1)
              | Some c \<Rightarrow> (case clean_title c of None \<Rightarrow> (fallback, ag1) | Some t \<Rightarrow> (t, ag1))))"

definition first_user_message :: "message list \<Rightarrow> string option" where
  "first_user_message msgs =
     (case find_index (\<lambda>m. m_role m = Some ''user'' \<and> m_content m \<noteq> None \<and> m_content m \<noteq> Some []) msgs of
        None \<Rightarrow> None | Some i \<Rightarrow> m_content (msgs ! i))"

definition agent_apply_title :: "agent_env \<Rightarrow> string \<Rightarrow> agent \<Rightarrow> int \<times> agent" where
  "agent_apply_title env title ag =
     (let ag1 = emit LoadRow ag
      in case row env (trace ag1) of
           None \<Rightarrow> (-1, ag1)
         | Some s \<Rightarrow>
             let ag2 = emit (StoreRow (s\<lparr>s_title := title\<rparr>)) ag1
             in if stored env (trace ag2) then (0, ag2) else (-1, ag2))"

text \<open>
  The mark is stored before the model is asked, so that there is one attempt. \<open>saves\<close> says whether
  there is a session store with a session.
\<close>

definition agent_generate_title :: "agent_env \<Rightarrow> agent \<Rightarrow> int \<times> agent" where
  "agent_generate_title env ag =
     (if \<not> saves env \<or> messages ag = [] then (-1, ag)
      else let ag1 = emit LoadRow ag
           in case row env (trace ag1) of
                None \<Rightarrow> (-1, ag1)
              | Some s \<Rightarrow>
                  if s_attempted s then (-1, ag1)
                  else let ag2 = emit LoadRow ag1
                       in case row env (trace ag2) of
                            None \<Rightarrow> (-1, ag2)
                          | Some s2 \<Rightarrow>
                              let ag3 = emit (StoreRow (s2\<lparr>s_attempted := True\<rparr>)) ag2
                              in if \<not> stored env (trace ag3) then (-1, ag3)
                                 else case first_user_message (messages ag3) of
                                        None \<Rightarrow> (-1, ag3)
                                      | Some m \<Rightarrow>
                                          (case agent_title_from_model env ag3 m (fallback_title m) of
                                             (t, ag4) \<Rightarrow> agent_apply_title env t ag4))"

section \<open>Properties\<close>

lemma first_user_message_some: "first_user_message msgs = Some m \<Longrightarrow> m \<noteq> []"
  by (auto simp: first_user_message_def dest!: find_index_Some split: option.splits)

lemma clean_title_not_empty: "clean_title raw = Some t \<Longrightarrow> t \<noteq> []"
  by (auto simp: clean_title_def Let_def split: if_splits)

text \<open>
  What a title adds to the trace: loads and stores, one request at most, and that only after the mark
  was stored; then no more than the title is stored, which is never empty. The conversation stays.
\<close>

definition title_mark :: "session_row \<Rightarrow> agent_event list" where
  "title_mark s = [LoadRow, LoadRow, StoreRow (s\<lparr>s_attempted := True\<rparr>)]"

lemma apply_title_trace:
  "messages (snd (agent_apply_title env t ag)) = messages ag \<and>
   (trace (snd (agent_apply_title env t ag)) = trace ag @ [LoadRow] \<or>
    (\<exists>s. trace (snd (agent_apply_title env t ag)) = trace ag @ [LoadRow, StoreRow (s\<lparr>s_title := t\<rparr>)]))"
  by (auto simp: agent_apply_title_def Let_def split: option.split)

lemma from_model_trace:
  "agent_title_from_model env ag m fb = (t, ag') \<Longrightarrow>
     messages ag' = messages ag \<and> (\<exists>msg. trace ag' = trace ag @ [TitleCall [msg]]) \<and> (fb \<noteq> [] \<longrightarrow> t \<noteq> [])"
  by (auto simp: agent_title_from_model_def Let_def dest: clean_title_not_empty split: option.splits)

lemma title_trace:
  "messages (snd (agent_generate_title env ag)) = messages ag \<and>
   (\<exists>es. trace (snd (agent_generate_title env ag)) = trace ag @ es \<and>
      (es \<in> {[], [LoadRow], [LoadRow, LoadRow]} \<or>
       (\<exists>s. es = title_mark s \<or>
          (\<exists>msg t s'. t \<noteq> [] \<and> (es = title_mark s @ [TitleCall [msg], LoadRow] \<or>
             es = title_mark s @ [TitleCall [msg], LoadRow, StoreRow (s'\<lparr>s_title := t\<rparr>)])))))"
proof (cases "saves env \<and> messages ag \<noteq> []")
  case True
  define ag1 where "ag1 = emit LoadRow ag"
  define ag2 where "ag2 = emit LoadRow ag1"
  show ?thesis
  proof (cases "\<exists>s s2. row env (trace ag1) = Some s \<and> \<not> s_attempted s \<and> row env (trace ag2) = Some s2")
    case False
    then have "snd (agent_generate_title env ag) \<in> {ag1, ag2}"
      using \<open>saves env \<and> messages ag \<noteq> []\<close>
      by (auto simp: agent_generate_title_def Let_def ag1_def ag2_def split: option.split)
    then show ?thesis by (auto simp: ag1_def ag2_def)
  next
    case True
    then obtain s s2 where s: "row env (trace ag1) = Some s" "\<not> s_attempted s" "row env (trace ag2) = Some s2" by blast
    define ag3 where "ag3 = emit (StoreRow (s2\<lparr>s_attempted := True\<rparr>)) ag2"
    have a3: "messages ag3 = messages ag" "trace ag3 = trace ag @ title_mark s2"
      by (simp_all add: ag3_def ag2_def ag1_def title_mark_def)
    have g: "agent_generate_title env ag =
        (if \<not> stored env (trace ag3) then (-1, ag3)
         else case first_user_message (messages ag3) of
                None \<Rightarrow> (-1, ag3)
              | Some m \<Rightarrow> (case agent_title_from_model env ag3 m (fallback_title m) of
                             (t, ag4) \<Rightarrow> agent_apply_title env t ag4))"
      using s \<open>saves env \<and> messages ag \<noteq> []\<close>
      by (simp add: agent_generate_title_def Let_def ag1_def [symmetric] ag2_def [symmetric] ag3_def [symmetric])
    show ?thesis
    proof (cases "stored env (trace ag3) \<and> first_user_message (messages ag3) \<noteq> None")
      case False
      then have "snd (agent_generate_title env ag) = ag3" by (auto simp: g)
      then show ?thesis using a3 by auto
    next
      case True
      then obtain m where m: "first_user_message (messages ag3) = Some m" by blast
      obtain t ag4 where t: "agent_title_from_model env ag3 m (fallback_title m) = (t, ag4)" by fastforce
      have f: "fallback_title m \<noteq> []" using first_user_message_some [OF m] by (simp add: fallback_title_def)
      note ft = from_model_trace [OF t] f
      have "agent_generate_title env ag = agent_apply_title env t ag4" using g True m t by simp
      then show ?thesis using apply_title_trace [of env t ag4] ft a3 by (simp only:) force
    qed
  qed
qed (simp add: agent_generate_title_def)

text \<open>In short: title events only, and after the request only loads and stores.\<close>

definition row_event :: "agent_event \<Rightarrow> bool" where
  "row_event e = (case e of LoadRow \<Rightarrow> True | StoreRow s \<Rightarrow> True | _ \<Rightarrow> False)"

lemma row_event_simps [simp]: "row_event LoadRow" "row_event (StoreRow s)"
  by (simp_all add: row_event_def)

lemma title_events:
  obtains es ts us where "trace (snd (agent_generate_title env ag)) = trace ag @ es @ ts @ us"
    and "list_all row_event es" "list_all row_event us" "ts = [] \<or> (\<exists>msg. ts = [TitleCall [msg]])"
proof -
  obtain es where t: "trace (snd (agent_generate_title env ag)) = trace ag @ es"
    and c: "es \<in> {[], [LoadRow], [LoadRow, LoadRow]} \<or>
       (\<exists>s. es = title_mark s \<or>
          (\<exists>msg t s'. t \<noteq> [] \<and> (es = title_mark s @ [TitleCall [msg], LoadRow] \<or>
             es = title_mark s @ [TitleCall [msg], LoadRow, StoreRow (s'\<lparr>s_title := t\<rparr>)])))"
    using title_trace [of env ag] by blast
  have m: "list_all row_event (title_mark s)" for s by (simp add: title_mark_def)
  note found = that
  have plain: thesis if "list_all row_event es" using found [of es "[]" "[]"] t that by simp
  show thesis
  proof (cases "list_all row_event es")
    case False
    then obtain s msg us where "es = title_mark s @ [TitleCall [msg]] @ us" "list_all row_event us"
      using c m by auto
    then show thesis using found [of "title_mark s" "[TitleCall [msg]]" us] t m by simp
  qed (rule plain)
qed

text \<open>A session is asked about once: with the mark set, neither the model nor the store is touched.\<close>

lemma title_once:
  assumes "row env (trace ag @ [LoadRow]) = Some s" and "s_attempted s"
  shows "agent_generate_title env ag = (-1, if saves env \<and> messages ag \<noteq> [] then emit LoadRow ag else ag)"
  using assms by (simp add: agent_generate_title_def Let_def)

text \<open>Thinking in front of a title is removed.\<close>

lemma strip_think_prefix:
  assumes "strstr_at (w @ ''</think>'' @ t) ''</think>'' = Some (length w)"
  shows "strip_think_tags (''<think>'' @ w @ ''</think>'' @ t) = t"
proof -
  have "drop (length x) (x @ t) = t" for x by simp
  from this [of "''<think>'' @ w @ ''</think>''"] have "drop (7 + length w + 8) (''<think>'' @ w @ ''</think>'' @ t) = t" by (simp add: eval_nat_numeral)
  moreover have "strstr_at (''<think>'' @ w @ ''</think>'' @ t) ''<think>'' = Some 0" by simp
  moreover have "drop 7 (''<think>'' @ w @ ''</think>'' @ t) = w @ ''</think>'' @ t" by (simp add: eval_nat_numeral)
  ultimately show ?thesis using assms unfolding strip_think_tags_def by (simp del: append_Cons)
qed

text \<open>The fallback counts bytes: a character of several bytes can be cut.\<close>

lemma fallback_cuts_character:
  "fallback_title (replicate 29 CHR ''a'' @ [CHR 0xC3, CHR 0xA9]) = replicate 29 CHR ''a'' @ [CHR 0xC3] @ ''...''"
  by (simp add: fallback_title_def)

end
