(* ===== verification/AgentLoop.thy ===== *)
theory AgentLoop
  imports AgentTitle
begin

text \<open>
  The agent's run (\<open>agent/agent_run.c\<close>) with the system prompt (\<open>agent/agent_prompt.c\<close>), the
  summary of a conversation that is cut (\<open>agent/agent_summarize.c\<close>) and the saving of the session
  (\<open>agent_save_session\<close> of \<open>agent/agent.c\<close>).

  The loop is a recursion on the number of iterations left. After the last answer the run asks the
  model once more, for a title of the session (\<open>AgentTitle\<close>). Allocations that the
  environment can make fail are those of messages; the others are taken to succeed.
\<close>

section \<open>The system prompt\<close>

definition context_text :: "cptr \<Rightarrow> string \<Rightarrow> string" where
  "context_text dir now =
     take 511 ([LF, LF] @ ''[System Context]'' @ [LF] @ ''OS: Linux'' @ [LF] @ ''Current Working Directory: '' @
       (case dir of None \<Rightarrow> ''.'' | Some d \<Rightarrow> d) @ [LF] @ ''Current Time: '' @ now @ [LF])"

definition memory_text :: "(string \<times> string) list \<Rightarrow> string" where
  "memory_text facts =
     (if facts = [] then []
      else [LF, LF] @ ''[Persistent Memory]'' @ [LF] @
           concat (map (\<lambda>(k, v). k @ '' = '' @ v @ [LF]) (take 64 facts)))"

definition build_system_prompt :: "agent_env \<Rightarrow> agent \<Rightarrow> string" where
  "build_system_prompt env ag =
     or_empty (system_prompt ag) @ context_text (cwd env (trace ag)) (time_text env (trace ag)) @
     (if saves env then memory_text (memory_facts env (trace ag)) else []) @
     (case context_summary ag of None \<Rightarrow> []
      | Some s \<Rightarrow> [LF, LF] @ ''Previous conversation summary: '' @ s)"

definition inject_system_with_summary :: "agent_env \<Rightarrow> agent \<Rightarrow> agent" where
  "inject_system_with_summary env ag =
     (let sys = build_system_prompt env ag
      in case find_index (\<lambda>m. is_system_role (m_role m)) (messages ag) of
           Some i \<Rightarrow> ag\<lparr>messages := (messages ag)[i := (messages ag ! i)\<lparr>m_content := Some sys\<rparr>]\<rparr>
         | None \<Rightarrow> ag\<lparr>messages := bare_message ''system'' sys # messages ag\<rparr>)"

section \<open>The summary of a conversation\<close>

definition transcript :: "message list \<Rightarrow> string" where
  "transcript msgs = take 4000 (concat (map (\<lambda>m. or_empty (m_content m)) msgs))"

definition agent_perform_summarization :: "agent_env \<Rightarrow> agent \<Rightarrow> agent" where
  "agent_perform_summarization env ag =
     (case window_chars (2 * max_context_chars ag) (messages ag) 0 of
        None \<Rightarrow> ag
      | Some tot \<Rightarrow>
          if tot > (2 * max_context_chars ag) mod 2 ^ 64 then ag
          else let ag1 = emit (LlmCall [bare_message ''system'' ''Summarize this conversation concisely in 2-3 sentences.'',
                                        bare_message ''user'' (transcript (messages ag))]) ag
               in case reply env (trace ag1) of
                    None \<Rightarrow> ag1
                  | Some r \<Rightarrow>
                      (case r_content r of None \<Rightarrow> ag1
                       | Some t \<Rightarrow> ag1\<lparr>context_summary := str_trim (Some t)\<rparr>))"

section \<open>Saving\<close>

definition saved_messages :: "message list \<Rightarrow> message list" where
  "saved_messages msgs = filter (\<lambda>m. \<not> is_system_role (m_role m)) msgs"

definition agent_save_session :: "agent_env \<Rightarrow> agent \<Rightarrow> agent" where
  "agent_save_session env ag = (if saves env then emit (Saved (saved_messages (messages ag))) ag else ag)"

section \<open>One call of the model\<close>

datatype run_fault = ReadPastEnd | UseAfterFree

definition breaker_refuses :: "agent_env \<Rightarrow> agent \<Rightarrow> bool \<times> agent" where
  "breaker_refuses env ag =
     (case cb_is_available (monotonic_ms env (trace ag)) (breaker ag) of
        (ok, cb) \<Rightarrow> (ok = 0, ag\<lparr>breaker := cb\<rparr>))"

definition breaker_record :: "agent_env \<Rightarrow> bool \<Rightarrow> agent \<Rightarrow> agent" where
  "breaker_record env ok ag =
     ag\<lparr>breaker := (if ok then cb_record_success (breaker ag)
                     else cb_record_failure (monotonic_ms env (trace ag)) (breaker ag))\<rparr>"

definition ask_model :: "agent_env \<Rightarrow> agent \<Rightarrow> llm_response option \<times> agent" where
  "ask_model env ag =
     (let ag1 = emit (LlmCall (messages ag)) ag; resp = reply env (trace ag1)
      in (resp, breaker_record env (resp \<noteq> None) ag1))"

text \<open>The window is applied by the buffered run only.\<close>

definition cut_context ::
  "(msg_score list \<Rightarrow> msg_score list) \<Rightarrow> agent_env \<Rightarrow> agent \<Rightarrow> run_fault + agent" where
  "cut_context qs env ag =
     (case apply_context_window qs (messages ag) (max_context_messages ag) (max_context_chars ag) of
        Inl _ \<Rightarrow> Inl ReadPastEnd
      | Inr (ctx, cnt) \<Rightarrow>
          let ag1 = (if cnt < int (length (messages ag)) then agent_perform_summarization env ag else ag)
          in Inr (ag1\<lparr>messages := take (nat cnt) ctx\<rparr>))"

definition agent_llm_call ::
  "(msg_score list \<Rightarrow> msg_score list) \<Rightarrow> agent_env \<Rightarrow> agent \<Rightarrow> run_fault + llm_response option \<times> agent" where
  "agent_llm_call qs env ag =
     (case breaker_refuses env ag of
        (True, ag1) \<Rightarrow> Inr (None, ag1)
      | (False, ag1) \<Rightarrow>
          (case cut_context qs env (inject_system_with_summary env ag1) of
             Inl e \<Rightarrow> Inl e
           | Inr ag2 \<Rightarrow> Inr (ask_model env ag2)))"

definition stream_llm_call :: "agent_env \<Rightarrow> agent \<Rightarrow> run_fault + llm_response option \<times> agent" where
  "stream_llm_call env ag =
     (case breaker_refuses env ag of
        (True, ag1) \<Rightarrow> Inr (None, ag1)
      | (False, ag1) \<Rightarrow> Inr (ask_model env (inject_system_with_summary env ag1)))"

section \<open>The answer\<close>

definition tool_calls_remaining :: "tool_call list \<Rightarrow> bool" where
  "tool_calls_remaining calls \<longleftrightarrow> list_ex (\<lambda>c. tc_name c \<noteq> None \<and> tc_name c \<noteq> Some []) calls"

text \<open>The calls of the last assistant message of this turn, from the last message backwards.\<close>

fun last_calls :: "message list \<Rightarrow> tool_call list" where
  "last_calls [] = []"
| "last_calls (m # ms) =
     (if m_role m = Some ''user'' then []
      else if m_role m \<noteq> None \<and> \<not> is_assistant_role (m_role m) then last_calls ms
      else if m_tool_calls m = [] then last_calls ms
      else m_tool_calls m)"

definition attach_tool_calls_to_resp :: "llm_response \<Rightarrow> message list \<Rightarrow> llm_response" where
  "attach_tool_calls_to_resp r msgs =
     (if r_tool_calls r \<noteq> [] then r else r\<lparr>r_tool_calls := last_calls (rev msgs)\<rparr>)"

definition assistant_message :: "agent_env \<Rightarrow> agent \<Rightarrow> llm_response \<Rightarrow> message" where
  "assistant_message env ag r =
     (message_create env ag ''assistant'' (r_content r))
       \<lparr>m_thinking := r_thinking r, m_phase := r_phase r, m_provider_state := r_provider_state r,
        m_tool_calls := (if tool_calls_remaining (r_tool_calls r) then r_tool_calls r else [])\<rparr>"

text \<open>
  The answer becomes a message: None when the run ends for lack of memory. A message that cannot
  be appended is freed, and its calls with it.
\<close>

definition store_answer :: "agent_env \<Rightarrow> llm_response \<Rightarrow> agent \<Rightarrow> (calls_owner \<times> agent) option" where
  "store_answer env r ag =
     (if r_content r = None then Some (InResponse, ag)
      else if fails env (trace ag) CreateMessage then None
      else if fails env (trace ag) CopyFields \<and>
              (r_thinking r \<noteq> None \<or> r_phase r \<noteq> None \<or> r_provider_state r \<noteq> None) then None
      else case agent_append_message env ag (assistant_message env ag r) of
             (idx, ag1) \<Rightarrow>
               Some (if \<not> tool_calls_remaining (r_tool_calls r) then InResponse
                     else if idx \<ge> 0 then InMessage (nat idx) else Freed,
                     agent_save_session env ag1))"

datatype turn_end = Done llm_response | Failed | Again

definition handle_answer :: "agent_env \<Rightarrow> llm_response \<Rightarrow> agent \<Rightarrow> run_fault + turn_end \<times> agent" where
  "handle_answer env r ag =
     (case store_answer env r ag of
        None \<Rightarrow> Inr (Failed, ag)
      | Some (owner, ag1) \<Rightarrow>
          if \<not> tool_calls_remaining (r_tool_calls r)
          then Inr (Done (attach_tool_calls_to_resp r (messages ag1)),
                    snd (agent_generate_title env (agent_save_session env ag1)))
          else if owner = Freed then Inl UseAfterFree
          else Inr (Again, agent_save_session env (execute_tool_calls env owner 0 (r_tool_calls r) ag1)))"

section \<open>The loops\<close>

fun run_turns ::
  "(agent \<Rightarrow> run_fault + llm_response option \<times> agent) \<Rightarrow> agent_env \<Rightarrow> nat \<Rightarrow> agent
     \<Rightarrow> run_fault + llm_response option \<times> agent" where
  "run_turns llm env 0 ag = Inr (None, ag)"
| "run_turns llm env (Suc n) ag =
     (if cancel_requested env (trace ag) then Inr (None, ag)
      else case llm ag of
             Inl e \<Rightarrow> Inl e
           | Inr (None, ag1) \<Rightarrow> Inr (None, ag1)
           | Inr (Some r, ag1) \<Rightarrow>
               (case handle_answer env r ag1 of
                  Inl e \<Rightarrow> Inl e
                | Inr (Done r', ag2) \<Rightarrow> Inr (Some r', ag2)
                | Inr (Failed, ag2) \<Rightarrow> Inr (None, ag2)
                | Inr (Again, ag2) \<Rightarrow> run_turns llm env n ag2))"

definition agent_run_loop :: "agent_env \<Rightarrow> agent \<Rightarrow> run_fault + llm_response option \<times> agent" where
  "agent_run_loop env ag = run_turns (stream_llm_call env) env (nat (max_iterations ag)) ag"

text \<open>The user's message; None when it cannot be created.\<close>

definition add_user_message :: "agent_env \<Rightarrow> cptr \<Rightarrow> agent \<Rightarrow> agent option" where
  "add_user_message env input ag =
     (if fails env (trace ag) CreateMessage then None
      else Some (agent_save_session env
                  (snd (agent_append_message env ag (message_create env ag ''user'' input)))))"

definition agent_run_new ::
  "(msg_score list \<Rightarrow> msg_score list) \<Rightarrow> agent_env \<Rightarrow> cptr \<Rightarrow> agent
     \<Rightarrow> run_fault + llm_response option \<times> agent" where
  "agent_run_new qs env input ag =
     (let ag0 = emit RunStart ag
      in case add_user_message env input ag0 of
           None \<Rightarrow> Inr (None, ag0)
         | Some ag1 \<Rightarrow> run_turns (agent_llm_call qs env) env (nat (max_iterations ag1)) ag1)"

definition agent_run_streaming_new ::
  "agent_env \<Rightarrow> cptr \<Rightarrow> agent \<Rightarrow> run_fault + llm_response option \<times> agent" where
  "agent_run_streaming_new env input ag =
     (let ag0 = emit RunStart ag
      in case add_user_message env input ag0 of
           None \<Rightarrow> Inr (None, ag0)
         | Some ag1 \<Rightarrow> agent_run_loop env ag1)"

definition agent_run_streaming_context_new ::
  "agent_env \<Rightarrow> agent \<Rightarrow> run_fault + llm_response option \<times> agent" where
  "agent_run_streaming_context_new env ag = agent_run_loop env (emit RunStart ag)"

section \<open>No tool runs without a licence\<close>

named_theorems agent_trace \<open>traces of the steps\<close>

lemma trace_inject [agent_trace]: "trace (inject_system_with_summary env ag) = trace ag"
  by (simp add: inject_system_with_summary_def Let_def split: option.split)

lemma trace_messages [agent_trace]: "trace (ag\<lparr>messages := ms\<rparr>) = trace ag"
  by simp

lemma save_licensed: "licensed_trace env (trace (agent_save_session env ag)) = licensed_trace env (trace ag)"
  by (simp add: agent_save_session_def licensed_snoc)

lemma ask_model_licensed: "licensed_trace env (trace (snd (ask_model env ag))) = licensed_trace env (trace ag)"
  by (simp add: ask_model_def Let_def breaker_record_def licensed_snoc)

lemma refuses_trace: "breaker_refuses env ag = (b, ag') \<Longrightarrow> trace ag' = trace ag \<and> messages ag' = messages ag"
  by (auto simp: breaker_refuses_def split: prod.splits)

lemma summarize_licensed:
  "licensed_trace env (trace (agent_perform_summarization env ag)) = licensed_trace env (trace ag)"
  by (simp add: agent_perform_summarization_def Let_def licensed_snoc split: option.split)

lemma stream_llm_licensed:
  assumes "stream_llm_call env ag = Inr (r, ag')"
  shows "licensed_trace env (trace ag') = licensed_trace env (trace ag)"
proof -
  obtain b ag1 where b: "breaker_refuses env ag = (b, ag1)" by (cases "breaker_refuses env ag")
  note t = refuses_trace [OF b]
  show ?thesis
  proof (cases b)
    case True
    then show ?thesis using assms b t by (simp add: stream_llm_call_def)
  next
    case False
    then have "ask_model env (inject_system_with_summary env ag1) = (r, ag')"
      using assms b by (simp add: stream_llm_call_def)
    then show ?thesis using ask_model_licensed [of env "inject_system_with_summary env ag1"] t
      by (simp add: agent_trace)
  qed
qed

lemma cut_licensed:
  "cut_context qs env ag = Inr ag' \<Longrightarrow> licensed_trace env (trace ag') = licensed_trace env (trace ag)"
  by (auto simp: cut_context_def Let_def summarize_licensed split: sum.splits prod.splits if_splits)

lemma agent_llm_licensed:
  assumes "agent_llm_call qs env ag = Inr (r, ag')"
  shows "licensed_trace env (trace ag') = licensed_trace env (trace ag)"
proof -
  obtain b ag1 where b: "breaker_refuses env ag = (b, ag1)" by (cases "breaker_refuses env ag")
  note t = refuses_trace [OF b]
  show ?thesis
  proof (cases b)
    case True
    then show ?thesis using assms b t by (simp add: agent_llm_call_def)
  next
    case False
    then obtain ag2 where c: "cut_context qs env (inject_system_with_summary env ag1) = Inr ag2"
      and a: "ask_model env ag2 = (r, ag')"
      using assms b by (auto simp: agent_llm_call_def split: sum.splits)
    show ?thesis using cut_licensed [OF c] ask_model_licensed [of env ag2] a t by (simp add: agent_trace)
  qed
qed

lemma append_trace: "agent_append_message env ag msg = (i, ag') \<Longrightarrow> trace ag' = trace ag"
  using trace_append [of env ag msg] by simp

lemma title_licensed:
  assumes "licensed_trace env (trace ag)" shows "licensed_trace env (trace (snd (agent_generate_title env ag)))"
proof -
  obtain es ts us where t: "trace (snd (agent_generate_title env ag)) = trace ag @ es @ ts @ us"
    "list_all row_event es" "list_all row_event us" "ts = [] \<or> (\<exists>msg. ts = [TitleCall [msg]])"
    by (rule title_events)
  have "\<forall>n args. e \<noteq> Ran n args" if "e \<in> set (es @ ts @ us)" for e
    using that t(2-4) by (auto simp: list_all_iff row_event_def)
  then show ?thesis
    unfolding t(1) licensed_trace_def using assms [unfolded licensed_trace_def] by (blast intro: each_event_append)
qed

lemma handle_answer_licensed:
  assumes "handle_answer env r ag = Inr (e, ag')" "licensed_trace env (trace ag)"
  shows "licensed_trace env (trace ag')"
proof (cases "store_answer env r ag")
  case None
  then show ?thesis using assms by (simp add: handle_answer_def)
next
  case (Some p)
  obtain owner ag1 where p: "p = (owner, ag1)" by (cases p)
  have "licensed_trace env (trace ag1)"
    using Some p assms(2)
    by (auto simp: store_answer_def save_licensed dest: append_trace split: if_splits prod.splits)
  then show ?thesis using assms(1) Some p execute_licensed title_licensed
    by (auto simp: handle_answer_def save_licensed split: if_splits)
qed

lemma run_turns_licensed:
  assumes llm: "\<And>ag r ag'. llm ag = Inr (r, ag') \<Longrightarrow> licensed_trace env (trace ag') = licensed_trace env (trace ag)"
  shows "run_turns llm env n ag = Inr (r, ag') \<Longrightarrow> licensed_trace env (trace ag) \<Longrightarrow> licensed_trace env (trace ag')"
proof (induction n arbitrary: ag)
  case (Suc n)
  show ?case
  proof (cases "cancel_requested env (trace ag) \<or> (\<exists>ag1. llm ag = Inr (None, ag1))")
    case True
    then show ?thesis using Suc.prems llm by (auto split: if_splits)
  next
    case False
    then obtain a ag1 where l: "llm ag = Inr (Some a, ag1)"
      using Suc.prems(1) by (auto split: sum.splits prod.splits option.splits)
    then have l1: "licensed_trace env (trace ag1)" using llm Suc.prems(2) by blast
    obtain e ag2 where h: "handle_answer env a ag1 = Inr (e, ag2)"
      using Suc.prems(1) False l by (auto split: sum.splits)
    note l2 = handle_answer_licensed [OF h l1]
    show ?thesis using Suc.IH [OF _ l2] Suc.prems(1) False l h l2 by (cases e) auto
  qed
qed simp

lemma add_user_licensed:
  "add_user_message env input ag = Some ag' \<Longrightarrow> licensed_trace env (trace ag') = licensed_trace env (trace ag)"
  by (auto simp: add_user_message_def save_licensed split: if_splits)

end
