(* ===== verification/AgentProtocol.thy ===== *)
theory AgentProtocol
  imports AgentLoop
begin

text \<open>
  What holds of the agent's runs: no tool runs unapproved, a run is bounded and can be cancelled,
  every tool call is answered in the conversation and in the requests to the model; a run worked
  out in full, and the places where the run does not do what it should.
\<close>

section \<open>Approval\<close>

text \<open>
  C2: No tool runs unasked: in every run, buffered or streaming, whatever the model answers and
  whatever fails, every tool that is run is registered and switched on, and either the safety
  policy at that moment does not demand approval for it or the person has just been asked about
  this very call, with these arguments, and has agreed.
\<close>

theorem no_tool_runs_unapproved:
  assumes "trace ag = []"
    and "agent_run_new qs env input ag = Inr (r, ag') \<or> agent_run_streaming_new env input ag = Inr (r, ag') \<or>
         agent_run_streaming_context_new env ag = Inr (r, ag')"
    and "trace ag' = pre @ Ran n args # post"
  shows "registry_get (tools env) (Some n) \<noteq> None \<and>
     (\<exists>q. pre = q @ [CallStart n args, ToolStart n args] \<and> \<not> gated env (q @ [CallStart n args]) (Some n) \<or>
          pre = q @ [CallStart n args, Asked n args, ToolStart n args] \<and>
            (\<exists>f. approver env = Some f \<and> f (q @ [CallStart n args, Asked n args])))"
proof -
  have start: "licensed_trace env (trace (emit RunStart ag))"
    using assms(1) licensed_start by simp
  have user: "licensed_trace env (trace ag1)" if "add_user_message env input (emit RunStart ag) = Some ag1" for ag1
    using add_user_licensed [OF that] start by simp
  have "licensed_trace env (trace ag')"
    using assms(2) start user run_turns_licensed [OF agent_llm_licensed] run_turns_licensed [OF stream_llm_licensed]
    by (auto simp: agent_run_new_def agent_run_streaming_new_def agent_run_streaming_context_new_def
        agent_run_loop_def Let_def split: option.splits)
  then have "licensed env pre n args" using assms(3) unfolding licensed_trace_def each_event_def by blast
  then show ?thesis by (simp add: licensed_def)
qed

section \<open>What the model is sent\<close>

fun llm_calls :: "agent_event list \<Rightarrow> message list list" where
  "llm_calls [] = []"
| "llm_calls (LlmCall msgs # es) = msgs # llm_calls es"
| "llm_calls (_ # es) = llm_calls es"

lemma llm_calls_append [simp]: "llm_calls (xs @ ys) = llm_calls xs @ llm_calls ys"
  by (induction xs rule: llm_calls.induct) simp_all

text \<open>The model is asked for an answer, or for a title.\<close>

definition is_llm_call :: "agent_event \<Rightarrow> bool" where
  "is_llm_call e = (case e of LlmCall _ \<Rightarrow> True | TitleCall _ \<Rightarrow> True | _ \<Rightarrow> False)"

lemma is_llm_call_simps [simp]:
  "is_llm_call (LlmCall msgs)" "is_llm_call (TitleCall msgs)" "\<not> is_llm_call RunStart" "\<not> is_llm_call (CallStart n a)"
  "\<not> is_llm_call (Asked n a)" "\<not> is_llm_call (ToolStart n a)" "\<not> is_llm_call (Ran n a)"
  "\<not> is_llm_call (ToolEnd n i d e)" "\<not> is_llm_call (Saved m)" "\<not> is_llm_call LoadRow" "\<not> is_llm_call (StoreRow w)"
  by (simp_all add: is_llm_call_def)

lemma llm_calls_none: "list_all (\<lambda>e. \<not> is_llm_call e) es \<Longrightarrow> llm_calls es = []"
  by (induction es rule: llm_calls.induct) simp_all

lemma llm_calls_title: "list_all row_event es \<Longrightarrow> llm_calls es = []"
  by (induction es rule: llm_calls.induct) (simp_all add: row_event_def)

text \<open>
  Working through tool calls and saving asks the model nothing: every step extends the trace by
  other events.
\<close>

definition quiet :: "agent \<Rightarrow> agent \<Rightarrow> bool" where
  "quiet ag ag' \<longleftrightarrow> (\<exists>es. trace ag' = trace ag @ es \<and> list_all (\<lambda>e. \<not> is_llm_call e) es)"

named_theorems quiet_steps \<open>steps that extend a trace quietly\<close>

lemma quiet_refl [quiet_steps]: "quiet ag ag"
  by (simp add: quiet_def)

lemma quiet_by:
  assumes "quiet ag b" "trace c = trace b @ es" "list_all (\<lambda>e. \<not> is_llm_call e) es" shows "quiet ag c"
proof -
  from assms(1) obtain xs where "trace b = trace ag @ xs" "list_all (\<lambda>e. \<not> is_llm_call e) xs"
    by (auto simp: quiet_def)
  then show ?thesis using assms(2,3) unfolding quiet_def by (intro exI [of _ "xs @ es"]) simp
qed

lemma quiet_emit [quiet_steps]: "quiet ag b \<Longrightarrow> \<not> is_llm_call e \<Longrightarrow> quiet ag (emit e b)"
  by (erule quiet_by [of _ _ _ "[e]"]) simp_all

lemma quiet_append [quiet_steps]: "quiet ag b \<Longrightarrow> quiet ag (snd (agent_append_message env b msg))"
  by (erule quiet_by [of _ _ _ "[]"]) simp_all

lemma quiet_reject [quiet_steps]: "quiet ag b \<Longrightarrow> quiet ag (reject_call env c t r k b)"
  by (erule quiet_by [of _ _ _ "[]"]) simp_all

lemma quiet_run_tool [quiet_steps]:
  assumes "quiet ag b" shows "quiet ag (run_tool env owner i c n args b)"
proof -
  obtain d e where "trace (run_tool env owner i c n args b) = trace b @ [ToolStart n args, Ran n args, ToolEnd n (tc_id c) d e]"
    using trace_run_tool [of env owner i c n args b] by blast
  then show ?thesis by (rule quiet_by [OF assms]) simp
qed

lemma quiet_run_call [quiet_steps]: "quiet ag b \<Longrightarrow> quiet ag (run_call env owner i c b)"
  unfolding run_call_def Let_def
  by (auto intro!: quiet_steps split: option.split)

lemma quiet_execute [quiet_steps]: "quiet ag b \<Longrightarrow> quiet ag (execute_tool_calls env owner i cs b)"
  by (induction cs arbitrary: i b) (simp_all add: quiet_steps)

lemma quiet_save [quiet_steps]: "quiet ag b \<Longrightarrow> quiet ag (agent_save_session env b)"
  by (simp add: agent_save_session_def quiet_steps)

lemma append_is_snd: "agent_append_message env ag msg = (i, ag') \<Longrightarrow> ag' = snd (agent_append_message env ag msg)"
  by simp

text \<open>An answer is handled quietly, apart from the title at the end of the run.\<close>

lemma quiet_answer:
  assumes "handle_answer env r ag = Inr (e, ag')"
  shows "(\<forall>r'. e \<noteq> Done r') \<and> quiet ag ag' \<or>
    (\<exists>r' ag1. e = Done r' \<and> quiet ag ag1 \<and> ag' = snd (agent_generate_title env ag1))"
proof (cases "store_answer env r ag")
  case None
  then show ?thesis using assms by (simp add: handle_answer_def quiet_refl)
next
  case (Some p)
  obtain owner ag1 where p: "p = (owner, ag1)" by (cases p)
  have "quiet ag ag1" using Some p
    by (auto simp: store_answer_def intro!: quiet_steps dest!: append_is_snd split: if_splits prod.splits)
  then show ?thesis using assms Some p quiet_save
    by (auto simp: handle_answer_def intro!: quiet_steps split: if_splits)
qed

lemma answer_calls:
  assumes "handle_answer env r ag = Inr (e, ag')"
  obtains es where "trace ag' = trace ag @ es" "llm_calls es = []"
proof -
  note found = that
  from quiet_answer [OF assms] consider "quiet ag ag'" | ag1 where "quiet ag ag1" "ag' = snd (agent_generate_title env ag1)"
    by blast
  then show thesis
  proof cases
    case 1
    then show ?thesis using found llm_calls_none by (auto simp: quiet_def)
  next
    case 2
    obtain es ts us where t: "trace ag' = trace ag1 @ es @ ts @ us"
      "list_all row_event es" "list_all row_event us" "ts = [] \<or> (\<exists>msg. ts = [TitleCall [msg]])"
      unfolding 2(2) by (rule title_events)
    obtain qs where q: "trace ag1 = trace ag @ qs" "list_all (\<lambda>e. \<not> is_llm_call e) qs"
      using 2(1) by (auto simp: quiet_def)
    have "llm_calls (qs @ es @ ts @ us) = []" using t q llm_calls_none llm_calls_title by auto
    then show ?thesis using found [of "qs @ es @ ts @ us"] t(1) q(1) by simp
  qed
qed

lemma quiet_user: "add_user_message env input ag = Some ag' \<Longrightarrow> quiet ag ag'"
  by (auto simp: add_user_message_def intro!: quiet_steps split: if_splits)

text \<open>A call of the model in a streaming run: the messages with the system prompt, or nothing.\<close>

lemma stream_llm_trace:
  assumes "stream_llm_call env ag = Inr (r, ag')"
  shows "trace ag' = trace ag \<and> messages ag' = messages ag \<and> r = None \<or>
    (\<exists>ag1. messages ag1 = messages ag \<and> trace ag1 = trace ag \<and>
       messages ag' = messages (inject_system_with_summary env ag1) \<and>
       trace ag' = trace ag @ [LlmCall (messages ag')] \<and> r = reply env (trace ag'))"
proof -
  obtain b ag1 where b: "breaker_refuses env ag = (b, ag1)" by (cases "breaker_refuses env ag")
  note t = refuses_trace [OF b]
  show ?thesis
  proof (cases b)
    case True
    then show ?thesis using assms b t by (simp add: stream_llm_call_def)
  next
    case False
    then have "ask_model env (inject_system_with_summary env ag1) = (r, ag')"
      using assms b by (simp add: stream_llm_call_def)
    then show ?thesis using t
      by (intro disjI2 exI [of _ ag1]) (auto simp: ask_model_def Let_def breaker_record_def agent_trace)
  qed
qed

lemma stream_llm_no_fault: "\<exists>r ag'. stream_llm_call env ag = Inr (r, ag')"
  by (auto simp: stream_llm_call_def split: prod.split bool.split)

section \<open>Bounded and cancellable\<close>

definition not_cancelled :: "agent_env \<Rightarrow> agent_event list \<Rightarrow> bool" where
  "not_cancelled env =
     each_event (\<lambda>pre e. is_llm_call e \<longrightarrow> (\<exists>msgs. e = LlmCall msgs) \<and> \<not> cancel_requested env pre)"

lemma not_cancelled_append:
  "not_cancelled env tr \<Longrightarrow> list_all (\<lambda>e. \<not> is_llm_call e) es \<Longrightarrow> not_cancelled env (tr @ es)"
  unfolding not_cancelled_def by (auto simp: list_all_iff intro!: each_event_append)

lemma not_cancelled_quiet: "not_cancelled env (trace ag) \<Longrightarrow> quiet ag ag' \<Longrightarrow> not_cancelled env (trace ag')"
  unfolding quiet_def using not_cancelled_append by auto

text \<open>
  The shape of a run that has asked the model at most \<open>n\<close> times: the turns, in which it is asked only
  when no cancellation is requested, and then perhaps one request for a title, if there is an answer.
\<close>

definition bounded_run :: "agent_env \<Rightarrow> nat \<Rightarrow> llm_response option \<Rightarrow> agent_event list \<Rightarrow> bool" where
  "bounded_run env n r tr \<longleftrightarrow>
     (\<exists>turns asked stores. tr = turns @ asked @ stores \<and>
        length (filter is_llm_call turns) \<le> n \<and> not_cancelled env turns \<and>
        (asked = [] \<or> r \<noteq> None \<and> (\<exists>msg. asked = [TitleCall [msg]])) \<and> list_all row_event stores)"

lemma bounded_turns: "length (filter is_llm_call tr) \<le> n \<Longrightarrow> not_cancelled env tr \<Longrightarrow> bounded_run env n r tr"
  unfolding bounded_run_def by (intro exI [of _ tr] exI [of _ "[]"]) simp

lemma bounded_mono: "bounded_run env n r tr \<Longrightarrow> n \<le> m \<Longrightarrow> bounded_run env m r tr"
  unfolding bounded_run_def by (blast intro: le_trans)

lemma bounded_title:
  assumes "length (filter is_llm_call (trace ag)) \<le> n" "not_cancelled env (trace ag)"
  shows "bounded_run env n (Some r) (trace (snd (agent_generate_title env ag)))"
proof -
  obtain es ts us where t: "trace (snd (agent_generate_title env ag)) = trace ag @ es @ ts @ us"
    "list_all row_event es" "list_all row_event us" "ts = [] \<or> (\<exists>msg. ts = [TitleCall [msg]])"
    by (rule title_events)
  have es: "list_all (\<lambda>e. \<not> is_llm_call e) es"
    using t(2) by (auto simp: list_all_iff row_event_def is_llm_call_def split: agent_event.splits)
  then have "filter is_llm_call es = []" by (simp add: filter_empty_conv list_all_iff)
  then show ?thesis
    unfolding bounded_run_def t(1) using assms t(3,4) not_cancelled_append [OF assms(2) es]
    by (intro exI [of _ "trace ag @ es"] exI [of _ ts] exI [of _ us]) simp
qed

lemma quiet_filter: "quiet ag ag' \<Longrightarrow> filter is_llm_call (trace ag') = filter is_llm_call (trace ag)"
  by (auto simp: quiet_def filter_empty_conv list_all_iff)

lemma run_turns_bounded:
  "run_turns (stream_llm_call env) env n ag = Inr (r, ag') \<Longrightarrow> not_cancelled env (trace ag) \<Longrightarrow>
     bounded_run env (length (filter is_llm_call (trace ag)) + n) r (trace ag')"
proof (induction n arbitrary: ag)
  case 0
  then show ?case by (auto intro: bounded_turns)
next
  case (Suc n)
  let ?n = "length (filter is_llm_call (trace ag)) + Suc n"
  show ?case
  proof (cases "cancel_requested env (trace ag)")
    case True
    then show ?thesis using Suc.prems by (auto intro: bounded_turns)
  next
    case False
    obtain a ag1 where l: "stream_llm_call env ag = Inr (a, ag1)" using stream_llm_no_fault by blast
    have l1: "not_cancelled env (trace ag1)"
      "length (filter is_llm_call (trace ag1)) \<le> Suc (length (filter is_llm_call (trace ag)))"
      using stream_llm_trace [OF l] Suc.prems(2) False by (auto simp: not_cancelled_def each_event_snoc)
    show ?thesis
    proof (cases a)
      case None
      then show ?thesis using Suc.prems l l1 False by (auto intro: bounded_turns)
    next
      case (Some resp)
      then obtain e ag2 where h: "handle_answer env resp ag1 = Inr (e, ag2)"
        using Suc.prems(1) False l by (auto split: sum.splits)
      show ?thesis
      proof (cases e)
        case (Done r')
        then obtain b where b: "quiet ag1 b" "ag2 = snd (agent_generate_title env b)" using quiet_answer [OF h] by blast
        have "r = Some r'" "ag' = ag2" using Suc.prems(1) False l h Some Done by simp_all
        have "length (filter is_llm_call (trace b)) \<le> ?n" using l1(2) quiet_filter [OF b(1)] by simp
        from bounded_title [OF this not_cancelled_quiet [OF l1(1) b(1)]]
        show ?thesis using b(2) \<open>r = Some r'\<close> \<open>ag' = ag2\<close> by simp
      next
        case Failed
        then have q: "quiet ag1 ag2" "ag' = ag2" using quiet_answer [OF h] Suc.prems(1) False l h Some by auto
        have "length (filter is_llm_call (trace ag2)) \<le> ?n" using l1(2) quiet_filter [OF q(1)] by simp
        from bounded_turns [OF this not_cancelled_quiet [OF l1(1) q(1)]] show ?thesis using q(2) by simp
      next
        case Again
        then have q: "quiet ag1 ag2" "run_turns (stream_llm_call env) env n ag2 = Inr (r, ag')"
          using quiet_answer [OF h] Suc.prems(1) False l h Some by auto
        have "bounded_run env (length (filter is_llm_call (trace ag2)) + n) r (trace ag')"
          by (rule Suc.IH [OF q(2) not_cancelled_quiet [OF l1(1) q(1)]])
        then show ?thesis by (rule bounded_mono) (use l1(2) quiet_filter [OF q(1)] in simp)
      qed
    qed
  qed
qed

text \<open>
  C37: A streaming run is bounded and can be stopped: its trace consists of turns, in which the model
  is asked at most \<open>max_iterations\<close> times and never after a cancellation has been requested, then, only
  if the run has an answer, at most one request for a title, and after that only loads and stores of
  the session's row. The request for the title is outside the limit and does not heed a cancellation.
\<close>

theorem run_bounded_and_cancellable:
  assumes "trace ag = []" and "agent_run_streaming_new env input ag = Inr (r, ag')"
  shows "\<exists>turns asked stores. trace ag' = turns @ asked @ stores \<and>
    length (filter is_llm_call turns) \<le> nat (max_iterations ag) \<and>
    (\<forall>pre e post. turns = pre @ e # post \<longrightarrow> is_llm_call e \<longrightarrow>
       (\<exists>msgs. e = LlmCall msgs) \<and> \<not> cancel_requested env pre) \<and>
    (asked = [] \<or> r \<noteq> None \<and> (\<exists>msg. asked = [TitleCall [msg]])) \<and> list_all row_event stores"
proof -
  have "bounded_run env (nat (max_iterations ag)) r (trace ag')"
  proof (cases "add_user_message env input (emit RunStart ag)")
    case None
    have "not_cancelled env (trace (emit RunStart ag))"
      using assms(1) each_event_snoc [of _ "[]" RunStart] by (simp add: not_cancelled_def)
    moreover have "ag' = emit RunStart ag" using None assms(2) by (simp add: agent_run_streaming_new_def Let_def)
    ultimately show ?thesis using assms(1) by (intro bounded_turns) simp_all
  next
    case (Some ag1)
    note q = quiet_user [OF Some]
    have m: "max_iterations ag1 = max_iterations ag"
      using Some by (auto simp: add_user_message_def agent_save_session_def agent_append_message_def emit_def split: if_splits)
    have "not_cancelled env (trace (emit RunStart ag))"
      using assms(1) each_event_snoc [of _ "[]" RunStart] by (simp add: not_cancelled_def)
    then have "not_cancelled env (trace ag1)" by (rule not_cancelled_quiet [OF _ q])
    moreover have "filter is_llm_call (trace ag1) = []" using quiet_filter [OF q] assms(1) by simp
    moreover have "run_turns (stream_llm_call env) env (nat (max_iterations ag)) ag1 = Inr (r, ag')"
      using assms(2) Some m by (simp add: agent_run_streaming_new_def agent_run_loop_def Let_def)
    ultimately show ?thesis
      using run_turns_bounded [of env "nat (max_iterations ag)" ag1 r ag'] by simp
  qed
  then show ?thesis unfolding bounded_run_def not_cancelled_def each_event_def by blast
qed

section \<open>Every tool call is answered\<close>

text \<open>What matters of a message: its role, the calls it makes and the call that it answers.\<close>

definition call_id :: "tool_call \<Rightarrow> string" where
  "call_id c = or_empty (tc_id c)"

definition outline :: "message \<Rightarrow> cptr \<times> string list \<times> cptr" where
  "outline m = (m_role m, map call_id (m_tool_calls m), m_tool_call_id m)"

text \<open>The answers to a list of calls, in their order.\<close>

definition answers :: "string list \<Rightarrow> (cptr \<times> string list \<times> cptr) list" where
  "answers ids = map (\<lambda>i. (Some ''tool'', [], Some i)) ids"

function answered_outline :: "(cptr \<times> string list \<times> cptr) list \<Rightarrow> bool" where
  "answered_outline [] \<longleftrightarrow> True"
| "answered_outline ((role, ids, x) # ms) \<longleftrightarrow>
     (if ids = [] then role \<noteq> Some ''tool'' \<and> answered_outline ms
      else take (length ids) ms = answers ids \<and> answered_outline (drop (length ids) ms))"
  by pat_completeness auto
termination by (relation "measure length") auto

text \<open>Every call of every message is answered right after it, and nothing else is an answer.\<close>

definition answered :: "message list \<Rightarrow> bool" where
  "answered msgs \<longleftrightarrow> answered_outline (map outline msgs)"

lemma length_answers [simp]: "length (answers ids) = length ids"
  by (simp add: answers_def)

lemma answered_outline_append:
  "answered_outline xs \<Longrightarrow> answered_outline ys \<Longrightarrow> answered_outline (xs @ ys)"
proof (induction xs rule: answered_outline.induct)
  case (2 role ids x ms)
  show ?case
  proof (cases "ids = []")
    case False
    then have "take (length ids) ms = answers ids" using 2 by simp
    then have "length ids \<le> length ms" by (metis length_answers length_take min.cobounded1 min.commute)
    then show ?thesis using 2 False by simp
  qed (use 2 in simp)
qed simp

lemma answered_turn: "ids \<noteq> [] \<Longrightarrow> answered_outline ((role, ids, x) # answers ids)"
  by simp

lemma answered_plain: "role \<noteq> Some ''tool'' \<Longrightarrow> answered_outline [(role, [], x)]"
  by simp

declare answered_outline.simps [simp del]

lemma map_update_same: "f x = f (xs ! k) \<Longrightarrow> map f (xs[k := x]) = map f xs"
  by (cases "k < length xs") (simp_all add: map_update list_update_same_conv list_update_beyond)

lemma outline_set_results [simp]: "map outline (messages (set_results owner i r e ag)) = map outline (messages ag)"
proof (cases owner)
  case (InMessage k)
  have "map call_id ((m_tool_calls m)[i := (m_tool_calls m ! i)\<lparr>tc_result_content := a, tc_result_error := b\<rparr>]) =
      map call_id (m_tool_calls m)" for m :: message and a b
    by (rule map_update_same) (simp add: call_id_def)
  then show ?thesis unfolding set_results_def InMessage Let_def
    by (simp add: map_update_same outline_def)
qed (simp_all add: set_results_def)

definition no_failures :: "agent_env \<Rightarrow> bool" where
  "no_failures env \<longleftrightarrow> (\<forall>tr site. \<not> fails env tr site)"

lemma outline_append:
  "no_failures env \<Longrightarrow> map outline (messages (snd (agent_append_message env ag m))) = map outline (messages ag) @ [outline m]"
  by (simp add: no_failures_def agent_append_message_def)

lemma outline_reject:
  "no_failures env \<Longrightarrow> map outline (messages (reject_call env c t r k ag)) = map outline (messages ag) @ answers [call_id c]"
  using outline_append [of env ag] by (simp add: no_failures_def reject_call_def answers_def outline_def message_create_def call_id_def)

lemma outline_run_tool:
  assumes "no_failures env"
  shows "map outline (messages (run_tool env owner i c n args ag)) = map outline (messages ag) @ answers [call_id c]"
proof -
  have "outline (tool_message env b c res) = (Some ''tool'', [], Some (call_id c))" for b res
    by (auto simp: tool_message_def Let_def outline_def message_create_def call_id_def split: option.split)
  then show ?thesis using assms outline_append [OF assms]
    by (simp add: run_tool_def Let_def no_failures_def answers_def)
qed

lemma outline_run_call:
  "no_failures env \<Longrightarrow>
     map outline (messages (run_call env owner i c ag)) = map outline (messages ag) @ answers [call_id c]"
  by (simp add: run_call_def Let_def outline_reject outline_run_tool split: option.split)

lemma outline_execute:
  "no_failures env \<Longrightarrow>
     map outline (messages (execute_tool_calls env owner i cs ag)) = map outline (messages ag) @ answers (map call_id cs)"
  by (induction cs arbitrary: i ag) (simp_all add: outline_run_call answers_def)

lemma messages_save [simp]: "messages (agent_save_session env ag) = messages ag"
  by (simp add: agent_save_session_def)

lemma answered_inject: "answered (messages ag) \<Longrightarrow> answered (messages (inject_system_with_summary env ag))"
proof (cases "find_index (\<lambda>m. is_system_role (m_role m)) (messages ag)")
  case None
  assume a: "answered (messages ag)"
  have "outline (bare_message ''system'' p) = (Some ''system'', [], None)" for p
    by (simp add: outline_def bare_message_def)
  then show ?thesis using None a answered_outline_append [OF answered_plain [of "Some ''system''" None]]
    by (simp add: inject_system_with_summary_def answered_def)
next
  case (Some i)
  assume a: "answered (messages ag)"
  have "map outline ((messages ag)[i := (messages ag ! i)\<lparr>m_content := c\<rparr>]) = map outline (messages ag)" for c
    by (rule map_update_same) (simp add: outline_def)
  then show ?thesis using Some a by (simp add: inject_system_with_summary_def answered_def)
qed

text \<open>
  Less than that: every call is answered right after its message, but there may be other answers.
\<close>

function followed_outline :: "(cptr \<times> string list \<times> cptr) list \<Rightarrow> bool" where
  "followed_outline [] \<longleftrightarrow> True"
| "followed_outline ((role, ids, x) # ms) \<longleftrightarrow>
     take (length ids) ms = answers ids \<and> followed_outline (drop (length ids) ms)"
  by pat_completeness auto
termination by (relation "measure length") auto

definition followed :: "message list \<Rightarrow> bool" where
  "followed msgs \<longleftrightarrow> followed_outline (map outline msgs)"

lemma followed_answers: "followed_outline (answers ids)"
  by (induction ids) (simp_all add: answers_def)

lemma followed_append: "followed_outline xs \<Longrightarrow> followed_outline ys \<Longrightarrow> followed_outline (xs @ ys)"
proof (induction xs rule: followed_outline.induct)
  case (2 role ids x ms)
  then have "take (length ids) ms = answers ids" by simp
  then have "length ids \<le> length ms" by (metis length_answers length_take min.cobounded1 min.commute)
  then show ?case using 2 by simp
qed simp

lemma answered_followed: "answered_outline xs \<Longrightarrow> followed_outline xs"
  by (induction xs rule: followed_outline.induct) (auto simp: answered_outline.simps answers_def split: if_splits)

declare followed_outline.simps [simp del]

text \<open>A complete conversation does not depend on what follows; an answer to nothing spoils it for good.\<close>

lemma answered_suffix: "answered_outline xs \<Longrightarrow> answered_outline (xs @ ys) = answered_outline ys"
proof (induction xs rule: answered_outline.induct)
  case (2 role ids x ms)
  show ?case
  proof (cases "ids = []")
    case False
    then have "take (length ids) ms = answers ids" using 2 by (simp add: answered_outline.simps)
    then have "length ids \<le> length ms" by (metis length_answers length_take min.cobounded1 min.commute)
    then show ?thesis using 2 False by (simp add: answered_outline.simps)
  qed (use 2 in \<open>simp add: answered_outline.simps\<close>)
qed simp

definition spoilt :: "message list \<Rightarrow> bool" where
  "spoilt msgs \<longleftrightarrow>
     (\<exists>before x rest. map outline msgs = before @ (Some ''tool'', [], x) # rest \<and> answered_outline before)"

lemma spoilt_not_answered: "spoilt msgs \<Longrightarrow> \<not> answered msgs"
  by (auto simp: spoilt_def answered_def answered_suffix answered_outline.simps)

lemma spoilt_append: "spoilt ms \<Longrightarrow> map outline ms' = map outline ms @ new \<Longrightarrow> spoilt ms'"
  by (auto simp: spoilt_def) blast

lemma inject_outline:
  "map outline (messages (inject_system_with_summary env ag)) = map outline (messages ag) \<or>
   map outline (messages (inject_system_with_summary env ag)) = (Some ''system'', [], None) # map outline (messages ag)"
proof (cases "find_index (\<lambda>m. is_system_role (m_role m)) (messages ag)")
  case None
  then show ?thesis by (simp add: inject_system_with_summary_def outline_def bare_message_def)
next
  case (Some i)
  have "map outline ((messages ag)[i := (messages ag ! i)\<lparr>m_content := c\<rparr>]) = map outline (messages ag)" for c
    by (rule map_update_same) (simp add: outline_def)
  then show ?thesis using Some by (simp add: inject_system_with_summary_def)
qed

lemma inject_keeps:
  "followed (messages ag) \<Longrightarrow> followed (messages (inject_system_with_summary env ag))"
  "spoilt (messages ag) \<Longrightarrow> spoilt (messages (inject_system_with_summary env ag))"
proof -
  have system: "followed_outline ((Some ''system'', [], None) # xs) = followed_outline xs"
    "answered_outline ((Some ''system'', [], None) # xs) = answered_outline xs" for xs
    by (simp_all add: followed_outline.simps answered_outline.simps answers_def)
  show "followed (messages ag) \<Longrightarrow> followed (messages (inject_system_with_summary env ag))"
    using inject_outline [of env ag] by (auto simp: followed_def system)
  assume "spoilt (messages ag)"
  then obtain before x rest where b: "map outline (messages ag) = before @ (Some ''tool'', [], x) # rest"
    "answered_outline before" by (auto simp: spoilt_def)
  show "spoilt (messages (inject_system_with_summary env ag))"
    using inject_outline [of env ag]
  proof
    assume "map outline (messages (inject_system_with_summary env ag)) = (Some ''system'', [], None) # map outline (messages ag)"
    then show ?thesis
      unfolding spoilt_def using b system(2)
      by (intro exI [of _ "(Some ''system'', [], None) # before"] exI [of _ x] exI [of _ rest]) simp
  qed (use b in \<open>auto simp: spoilt_def\<close>)
qed

text \<open>An answer that makes calls and has no text, not even an empty one.\<close>

definition silent :: "llm_response \<Rightarrow> bool" where
  "silent r \<longleftrightarrow> tool_calls_remaining (r_tool_calls r) \<and> r_content r = None"

text \<open>No answer of the model in a run was like that.\<close>

definition spoke :: "agent_env \<Rightarrow> agent_event list \<Rightarrow> bool" where
  "spoke env = each_event (\<lambda>pre e. \<forall>msgs r. e = LlmCall msgs \<longrightarrow> reply env (pre @ [e]) = Some r \<longrightarrow> \<not> silent r)"

lemma spoke_append: "llm_calls es = [] \<Longrightarrow> spoke env (tr @ es) = spoke env tr"
proof
  assume n: "llm_calls es = []" and s: "spoke env tr"
  have "e \<noteq> LlmCall msgs" if "e \<in> set es" for e msgs
  proof
    assume "e = LlmCall msgs"
    with that obtain xs ys where "es = xs @ LlmCall msgs # ys" by (metis split_list)
    with n show False by simp
  qed
  then show "spoke env (tr @ es)"
    using s unfolding spoke_def by (blast intro: each_event_append)
qed (auto simp: spoke_def dest: each_event_prefix)

lemma spoke_call:
  "spoke env (tr @ [LlmCall msgs]) \<longleftrightarrow>
     spoke env tr \<and> (\<forall>r. reply env (tr @ [LlmCall msgs]) = Some r \<longrightarrow> \<not> silent r)"
  by (auto simp: spoke_def each_event_snoc)

text \<open>What an answer adds to the conversation.\<close>

lemma handle_adds:
  assumes env: "no_failures env"
  shows "\<exists>e ag' new. handle_answer env r ag = Inr (e, ag') \<and>
    map outline (messages ag') = map outline (messages ag) @ new \<and> followed_outline new \<and>
    (if silent r then \<exists>x rest. new = (Some ''tool'', [], x) # rest else answered_outline new)"
proof (cases "r_content r")
  case None
  show ?thesis
  proof (cases "tool_calls_remaining (r_tool_calls r)")
    case True
    then have ne: "r_tool_calls r \<noteq> []" by (auto simp: tool_calls_remaining_def)
    then have "\<exists>x rest. answers (map call_id (r_tool_calls r)) = (Some ''tool'', [], x) # rest"
      by (cases "r_tool_calls r") (simp_all add: answers_def)
    then show ?thesis
      using None True outline_execute [OF env, of InResponse 0 "r_tool_calls r" ag] followed_answers
      by (simp add: handle_answer_def store_answer_def silent_def)
  next
    case False
    then show ?thesis
      using None title_trace [of env "agent_save_session env ag"]
      by (simp add: handle_answer_def store_answer_def silent_def followed_outline.simps answered_outline.simps)
  qed
next
  case (Some t)
  define owner where "owner = (if tool_calls_remaining (r_tool_calls r) then InMessage (length (messages ag)) else InResponse)"
  define ag1 where "ag1 = agent_save_session env (ag\<lparr>messages := messages ag @ [assistant_message env ag r]\<rparr>)"
  have store: "store_answer env r ag = Some (owner, ag1)"
    using env Some by (simp add: store_answer_def agent_append_message_def no_failures_def owner_def ag1_def)
  have out: "map outline (messages ag1) = map outline (messages ag) @ [(Some ''assistant'',
      if tool_calls_remaining (r_tool_calls r) then map call_id (r_tool_calls r) else [], None)]"
    by (simp add: ag1_def outline_def assistant_message_def message_create_def)
  have loud: "\<not> silent r" using Some by (simp add: silent_def)
  show ?thesis
  proof (cases "tool_calls_remaining (r_tool_calls r)")
    case False
    have p: "answered_outline [(Some ''assistant'', [], None)]" by (rule answered_plain) simp
    show ?thesis
      using store False out loud p answered_followed [OF p] title_trace [of env "agent_save_session env ag1"]
      by (simp add: handle_answer_def)
  next
    case True
    then have ne: "map call_id (r_tool_calls r) \<noteq> []" by (auto simp: tool_calls_remaining_def)
    define ag2 where "ag2 = execute_tool_calls env owner 0 (r_tool_calls r) ag1"
    have "map outline (messages ag2) = map outline (messages ag) @
        (Some ''assistant'', map call_id (r_tool_calls r), None) # answers (map call_id (r_tool_calls r))"
      unfolding ag2_def outline_execute [OF env] out using True by simp
    then show ?thesis
      using store True loud answered_turn [OF ne] answered_followed [OF answered_turn [OF ne]]
      by (simp add: handle_answer_def owner_def ag2_def)
  qed
qed

definition conversation_ok :: "agent_env \<Rightarrow> agent \<Rightarrow> bool" where
  "conversation_ok env ag \<longleftrightarrow>
     followed (messages ag) \<and> list_all followed (llm_calls (trace ag)) \<and>
     (if spoke env (trace ag) then answered (messages ag) \<and> list_all answered (llm_calls (trace ag))
      else spoilt (messages ag))"

lemma ok_after:
  assumes "conversation_ok env ag" and "map outline (messages ag') = map outline (messages ag) @ new"
    and "trace ag' = trace ag @ es" "llm_calls es = []" and "followed_outline new" "answered_outline new"
  shows "conversation_ok env ag'"
  using assms spoilt_append [OF _ assms(2)] spoke_append [OF assms(4), of env "trace ag"]
  by (auto simp: conversation_ok_def followed_def answered_def followed_append answered_outline_append split: if_splits)

text \<open>A turn: the request, and what the answer adds.\<close>

lemma ok_asked:
  assumes "conversation_ok env ag" and "stream_llm_call env ag = Inr (None, ag')"
  shows "conversation_ok env ag'"
proof -
  from stream_llm_trace [OF assms(2)]
  consider "trace ag' = trace ag" "messages ag' = messages ag"
    | ag1 where "messages ag1 = messages ag" "messages ag' = messages (inject_system_with_summary env ag1)"
        "trace ag' = trace ag @ [LlmCall (messages ag')]" "reply env (trace ag') = None"
    by auto
  then show ?thesis
  proof cases
    case 2
    then show ?thesis
      using assms(1) inject_keeps [of ag1 env] answered_inject [of ag1 env]
      by (simp add: conversation_ok_def spoke_call split: if_splits)
  qed (use assms(1) in \<open>simp add: conversation_ok_def\<close>)
qed

lemma ok_turn:
  assumes env: "no_failures env" and ok: "conversation_ok env ag" and l: "stream_llm_call env ag = Inr (Some r, ag1)"
  shows "\<exists>e ag2. handle_answer env r ag1 = Inr (e, ag2) \<and> conversation_ok env ag2"
proof -
  obtain a where a: "messages a = messages ag" "messages ag1 = messages (inject_system_with_summary env a)"
    "trace ag1 = trace ag @ [LlmCall (messages ag1)]" "reply env (trace ag1) = Some r"
    using stream_llm_trace [OF l] by auto
  have f: "followed (messages ag1)" "list_all followed (llm_calls (trace ag1))"
    using ok a inject_keeps(1) [of a env] by (auto simp: conversation_ok_def)
  have sp: "spoke env (trace ag1) \<longleftrightarrow> spoke env (trace ag) \<and> \<not> silent r"
    using a(3,4) spoke_call [of env "trace ag" "messages ag1"] by auto
  have an: "answered (messages ag1)" "list_all answered (llm_calls (trace ag1))" if "spoke env (trace ag)"
    using ok a that answered_inject [of a env] by (auto simp: conversation_ok_def)
  have br: "spoilt (messages ag1)" if "\<not> spoke env (trace ag)"
    using ok a that inject_keeps(2) [of a env] by (auto simp: conversation_ok_def)
  obtain e ag2 new where h: "handle_answer env r ag1 = Inr (e, ag2)"
    "map outline (messages ag2) = map outline (messages ag1) @ new" "followed_outline new"
    "if silent r then \<exists>x rest. new = (Some ''tool'', [], x) # rest else answered_outline new"
    using handle_adds [OF env, of r ag1] by blast
  obtain es where es: "trace ag2 = trace ag1 @ es" "llm_calls es = []" by (rule answer_calls [OF h(1)])
  have sp2: "spoke env (trace ag2) = spoke env (trace ag1)" using es by (simp add: spoke_append)
  have f2: "followed (messages ag2)" "list_all followed (llm_calls (trace ag2))"
    using f h(2,3) es by (simp_all add: followed_def followed_append)
  have "conversation_ok env ag2"
  proof (cases "spoke env (trace ag)")
    case False
    then show ?thesis using f2 sp sp2 spoilt_append [OF br h(2)] by (simp add: conversation_ok_def)
  next
    case True
    show ?thesis
    proof (cases "silent r")
      case True
      then have "spoilt (messages ag2)"
        using h(2,4) an(1) \<open>spoke env (trace ag)\<close> by (auto simp: spoilt_def answered_def)
      then show ?thesis using f2 sp sp2 True by (simp add: conversation_ok_def)
    next
      case False
      then have "answered (messages ag2)"
        using h(2,4) an(1) True answered_outline_append by (simp add: answered_def)
      then show ?thesis using f2 sp sp2 True False an(2) es by (simp add: conversation_ok_def)
    qed
  qed
  with h(1) show ?thesis by blast
qed

lemma ok_run_turns:
  assumes env: "no_failures env"
  shows "conversation_ok env ag \<Longrightarrow>
    \<exists>r ag'. run_turns (stream_llm_call env) env n ag = Inr (r, ag') \<and> conversation_ok env ag'"
proof (induction n arbitrary: ag)
  case (Suc n)
  show ?case
  proof (cases "cancel_requested env (trace ag)")
    case False
    obtain a ag1 where l: "stream_llm_call env ag = Inr (a, ag1)" using stream_llm_no_fault by blast
    show ?thesis
    proof (cases a)
      case None
      then show ?thesis using l ok_asked [OF Suc.prems] False by simp
    next
      case (Some resp)
      obtain e ag2 where h: "handle_answer env resp ag1 = Inr (e, ag2)" "conversation_ok env ag2"
        using ok_turn [OF env Suc.prems l [unfolded Some]] by blast
      then show ?thesis using Suc.IH [of ag2] l Some False by (cases e) auto
    qed
  qed (use Suc.prems in simp)
qed simp

text \<open>
  C3: Every tool call is answered: as long as memory lasts, a streaming run never fails internally,
  and whatever the model and the tools answer, in the conversation and in every request that the
  model was sent each call of a message is followed, in order, by an answer with its id. There are no
  answers beyond these (which is what the providers demand) exactly if no answer of the model made
  calls without any text, not even an empty one; the code stores no message for such an answer
  and works through its calls nevertheless.
\<close>

theorem tool_calls_answered:
  assumes "no_failures env" "answered (messages ag)" "trace ag = []"
  shows "\<exists>r ag'. agent_run_streaming_new env input ag = Inr (r, ag') \<and> followed (messages ag') \<and>
           list_all followed (llm_calls (trace ag')) \<and>
           (answered (messages ag') \<longleftrightarrow> spoke env (trace ag')) \<and>
           (spoke env (trace ag') \<longrightarrow> list_all answered (llm_calls (trace ag')))"
proof -
  define ag0 where "ag0 = emit RunStart ag"
  define ag1 where "ag1 = agent_save_session env (ag0\<lparr>messages := messages ag0 @ [message_create env ag0 ''user'' input]\<rparr>)"
  have user: "add_user_message env input ag0 = Some ag1"
    using assms(1) by (simp add: add_user_message_def no_failures_def agent_append_message_def ag1_def)
  have "map outline (messages ag1) = map outline (messages ag) @ [(Some ''user'', [], None)]"
    by (simp add: ag1_def ag0_def outline_def message_create_def)
  then have a: "answered (messages ag1)"
    using assms(2) answered_outline_append [OF _ answered_plain [of "Some ''user''" None]] by (simp add: answered_def)
  have c: "llm_calls (trace ag1) = []"
    using assms(3) by (simp add: ag1_def ag0_def agent_save_session_def)
  have "spoke env (trace ag1)"
    using spoke_append [of "trace ag1" env "[]"] c by (simp add: spoke_def)
  then have "conversation_ok env ag1"
    using a c answered_followed by (simp add: conversation_ok_def answered_def followed_def)
  from ok_run_turns [OF assms(1) this, of "nat (max_iterations ag1)"]
  obtain r ag' where "agent_run_streaming_new env input ag = Inr (r, ag')" "conversation_ok env ag'"
    using user by (auto simp: agent_run_streaming_new_def agent_run_loop_def Let_def ag0_def)
  then show ?thesis
    using spoilt_not_answered [of "messages ag'"] by (auto simp: conversation_ok_def split: if_splits)
qed

section \<open>A run\<close>

text \<open>A model that calls a tool, once without text and once with, and then ends.\<close>

definition sample_call :: "string \<Rightarrow> string \<Rightarrow> tool_call" where
  "sample_call i n = \<lparr>tc_id = Some i, tc_name = Some n, tc_arguments = None, tc_result_content = None, tc_result_error = None\<rparr>"

definition sample_answer :: "cptr \<Rightarrow> tool_call list \<Rightarrow> llm_response" where
  "sample_answer t cs = \<lparr>r_content = t, r_thinking = None, r_phase = None, r_provider_state = None, r_tool_calls = cs\<rparr>"

definition sample_env :: agent_env where
  "sample_env =
     \<lparr>reply = (\<lambda>tr. Some (if length (llm_calls tr) = 1 then sample_answer (Some []) [sample_call ''1'' ''bash'']
                          else sample_answer (Some ''done'') [])),
      approver = Some (\<lambda>_. True), execute = (\<lambda>_. Some (tool_result_create (Some ''ok''))),
      safety = (\<lambda>_. Some (safety_config_create\<lparr>safety_mode := SAFETY_MODE_APPROVE_ALL\<rparr>)), cancel_requested = (\<lambda>_. False), monotonic_ms = (\<lambda>_. 0),
      wall_time = (\<lambda>_. 0), cwd = (\<lambda>_. None), time_text = (\<lambda>_. []), memory_facts = (\<lambda>_. []), fails = (\<lambda>_ _. False),
      row = (\<lambda>_. None), stored = (\<lambda>_. True),
      tools = [\<lparr>tool_name = ''bash'', tool_description = None, tool_schema = None, enabled = True\<rparr>], saves = False\<rparr>"

definition sample_agent :: agent where
  "sample_agent =
     \<lparr>messages = [], trace = [], system_prompt = None, context_summary = None, max_iterations = 3,
      max_context_messages = 10, max_context_chars = 100, max_tool_result_chars = 0, breaker = None\<rparr>"

lemma sample_sel [simp]:
  "reply sample_env = (\<lambda>tr. Some (if length (llm_calls tr) = 1 then sample_answer (Some []) [sample_call ''1'' ''bash'']
                          else sample_answer (Some ''done'') []))"
  "approver sample_env = Some (\<lambda>_. True)" "execute sample_env = (\<lambda>_. Some (tool_result_create (Some ''ok'')))"
  "safety sample_env = (\<lambda>_. Some (safety_config_create\<lparr>safety_mode := SAFETY_MODE_APPROVE_ALL\<rparr>))"
  "cancel_requested sample_env = (\<lambda>_. False)" "wall_time sample_env = (\<lambda>_. 0)" "fails sample_env = (\<lambda>_ _. False)"
  "tools sample_env = [\<lparr>tool_name = ''bash'', tool_description = None, tool_schema = None, enabled = True\<rparr>]"
  "saves sample_env = False"
  by (simp_all add: sample_env_def)

lemma gated_sample [simp]: "gated sample_env tr (Some n)"
  by (simp add: gated_def safety_needs_approval_def)

lemma get_sample [simp]: "registry_get (tools sample_env) (Some ''bash'') \<noteq> None"
  by (simp add: registry_get_def registry_find_registered_def)

lemma no_breaker: "breaker ag = None \<Longrightarrow> ag\<lparr>breaker := None\<rparr> = ag"
  by (cases ag) simp

lemma inject_breaker [simp]: "breaker (inject_system_with_summary env ag) = breaker ag"
  by (simp add: inject_system_with_summary_def Let_def split: option.split)

lemma stream_sample:
  assumes "breaker ag = None"
  shows "stream_llm_call sample_env ag =
     (let ag0 = inject_system_with_summary sample_env ag; ag1 = emit (LlmCall (messages ag0)) ag0
      in Inr (reply sample_env (trace ag1), ag1))"
  using assms
  by (simp add: stream_llm_call_def breaker_refuses_def cb_is_available_def ask_model_def Let_def breaker_record_def
    cb_record_success_def emit_def no_breaker)

lemma sample_user:
  "\<exists>m a. add_user_message sample_env (Some ''hi'') (emit RunStart sample_agent) = Some a \<and> breaker a = None \<and>
     trace a = [RunStart] \<and> messages a = [m] \<and> m_role m = Some ''user'' \<and> max_iterations a = 3 \<and> max_tool_result_chars a = 0"
  by (simp add: add_user_message_def agent_save_session_def agent_append_message_def message_create_def emit_def sample_agent_def)

lemma sample_turn:
  assumes "breaker a = None" "trace a = [RunStart]" "messages a = [m]" "m_role m = Some ''user''" "max_tool_result_chars a = 0"
  shows "\<exists>a1 a2 sys. stream_llm_call sample_env a = Inr (Some (sample_answer (Some []) [sample_call ''1'' ''bash'']), a1) \<and>
    handle_answer sample_env (sample_answer (Some []) [sample_call ''1'' ''bash'']) a1 = Inr (Again, a2) \<and>
    breaker a2 = None \<and> trace a2 = [RunStart, LlmCall [sys, m], CallStart ''bash'' ''{}'', Asked ''bash'' ''{}'', ToolStart ''bash'' ''{}'',
       Ran ''bash'' ''{}'', ToolEnd ''bash'' (Some ''1'') ''ok'' []]"
proof -
  define sys where "sys = bare_message ''system'' (build_system_prompt sample_env a)"
  define a1 where "a1 = a\<lparr>messages := [sys, m], trace := [RunStart, LlmCall [sys, m]]\<rparr>"
  have "inject_system_with_summary sample_env a = a\<lparr>messages := [sys, m]\<rparr>"
    using assms by (simp add: inject_system_with_summary_def is_system_role_def sys_def)
  then have l: "stream_llm_call sample_env a = Inr (Some (sample_answer (Some []) [sample_call ''1'' ''bash'']), a1)"
    using assms by (simp add: stream_sample Let_def emit_def a1_def)
  obtain t where t: "registry_get (tools sample_env) (Some ''bash'') = Some t" using get_sample by blast
  have "\<exists>a2. handle_answer sample_env (sample_answer (Some []) [sample_call ''1'' ''bash'']) a1 = Inr (Again, a2) \<and>
     breaker a2 = None \<and> trace a2 = trace a1 @ [CallStart ''bash'' ''{}'', Asked ''bash'' ''{}'', ToolStart ''bash'' ''{}'',
       Ran ''bash'' ''{}'', ToolEnd ''bash'' (Some ''1'') ''ok'' []]"
    using t assms
    by (simp add: handle_answer_def store_answer_def sample_answer_def sample_call_def tool_calls_remaining_def
      agent_append_message_def agent_save_session_def run_call_def run_tool_def shown_result_def tool_result_create_def or_empty_def
      set_results_def Let_def emit_def a1_def del: sample_sel(8))
  then show ?thesis using l by (auto simp: a1_def)
qed

lemma sample_end:
  assumes "breaker a = None" "llm_calls (trace a) \<noteq> []"
  shows "\<exists>a1 a2 r m2. stream_llm_call sample_env a = Inr (Some (sample_answer (Some ''done'') []), a1) \<and>
     handle_answer sample_env (sample_answer (Some ''done'') []) a1 = Inr (Done r, a2) \<and> trace a2 = trace a @ [LlmCall m2]"
  using assms
  by (simp add: stream_sample Let_def handle_answer_def store_answer_def sample_answer_def tool_calls_remaining_def
      agent_append_message_def agent_save_session_def agent_trace agent_generate_title_def)

lemma sample_run:
  "\<exists>r ag' m1 m2. agent_run_streaming_new sample_env (Some ''hi'') sample_agent = Inr (Some r, ag') \<and>
     trace ag' = [RunStart, LlmCall m1, CallStart ''bash'' ''{}'', Asked ''bash'' ''{}'', ToolStart ''bash'' ''{}''] @
       Ran ''bash'' ''{}'' # [ToolEnd ''bash'' (Some ''1'') ''ok'' [], LlmCall m2]"
proof -
  obtain m a where a: "add_user_message sample_env (Some ''hi'') (emit RunStart sample_agent) = Some a" "breaker a = None"
     "trace a = [RunStart]" "messages a = [m]" "m_role m = Some ''user''" "max_iterations a = 3" "max_tool_result_chars a = 0"
    using sample_user by blast
  obtain a1 a2 sys where t: "stream_llm_call sample_env a = Inr (Some (sample_answer (Some []) [sample_call ''1'' ''bash'']), a1)"
    "handle_answer sample_env (sample_answer (Some []) [sample_call ''1'' ''bash'']) a1 = Inr (Again, a2)"
    "breaker a2 = None" "trace a2 = [RunStart, LlmCall [sys, m], CallStart ''bash'' ''{}'', Asked ''bash'' ''{}'', ToolStart ''bash'' ''{}'',
       Ran ''bash'' ''{}'', ToolEnd ''bash'' (Some ''1'') ''ok'' []]"
    using sample_turn [OF a(2,3,4,5,7)] by blast
  obtain a3 a4 r m2 where e: "stream_llm_call sample_env a2 = Inr (Some (sample_answer (Some ''done'') []), a3)"
     "handle_answer sample_env (sample_answer (Some ''done'') []) a3 = Inr (Done r, a4)" "trace a4 = trace a2 @ [LlmCall m2]"
    using sample_end [OF t(3)] t(4) by auto
  have "nat (max_iterations a) = Suc (Suc (Suc 0))" using a(6) by simp
  then show ?thesis using a(1) t e
    by (simp add: agent_run_streaming_new_def agent_run_loop_def Let_def del: sample_sel(1))
qed

lemma no_tool_runs_unapproved_witness:
  "\<exists>r ag' pre post. agent_run_streaming_new sample_env (Some ''hi'') sample_agent = Inr (r, ag') \<and>
     trace ag' = pre @ Ran ''bash'' ''{}'' # post \<and>
     registry_get (tools sample_env) (Some ''bash'') \<noteq> None"
proof -
  obtain r ag' m1 m2 where run: "agent_run_streaming_new sample_env (Some ''hi'') sample_agent = Inr (Some r, ag')"
    and tr: "trace ag' = [RunStart, LlmCall m1, CallStart ''bash'' ''{}'', Asked ''bash'' ''{}'', ToolStart ''bash'' ''{}''] @
       Ran ''bash'' ''{}'' # [ToolEnd ''bash'' (Some ''1'') ''ok'' [], LlmCall m2]"
    using sample_run by blast
  have "trace sample_agent = []" by (simp add: sample_agent_def)
  from no_tool_runs_unapproved [OF this _ tr, of undefined sample_env "Some ''hi''" "Some r"] run
  have "registry_get (tools sample_env) (Some ''bash'') \<noteq> None" by simp
  with run tr show ?thesis by blast
qed

lemma run_bounded_and_cancellable_witness:
  "\<exists>r ag' turns asked stores. agent_run_streaming_new sample_env (Some ''hi'') sample_agent = Inr (r, ag') \<and>
     trace ag' = turns @ asked @ stores \<and> length (filter is_llm_call turns) \<le> 3"
proof -
  obtain r ag' where r: "agent_run_streaming_new sample_env (Some ''hi'') sample_agent = Inr (Some r, ag')"
    using sample_run by blast
  have "trace sample_agent = []" "nat (max_iterations sample_agent) = 3" by (simp_all add: sample_agent_def)
  then show ?thesis using run_bounded_and_cancellable [of sample_agent sample_env "Some ''hi''" "Some r" ag'] r by metis
qed

lemma tool_calls_answered_witness:
  "\<exists>r ag'. agent_run_streaming_new sample_env (Some ''hi'') sample_agent = Inr (r, ag') \<and> answered (messages ag')"
proof -
  have "no_failures sample_env" by (simp add: no_failures_def)
  moreover have "answered (messages sample_agent)" "trace sample_agent = []"
    by (simp_all add: sample_agent_def answered_def answered_outline.simps)
  moreover have "spoke sample_env tr" for tr
    by (simp add: spoke_def each_event_def silent_def sample_answer_def)
  ultimately show ?thesis using tool_calls_answered [of sample_env sample_agent "Some ''hi''"] by blast
qed

section \<open>Where the run does not do what it should\<close>

text \<open>
  An answer with calls and without text is not stored, but its calls are worked through: their
  results follow no call. The buffered provider of the OpenAI kind gives such answers.
\<close>

lemma silent_calls_orphaned:
  assumes "no_failures env" "r_content r = None" "tool_calls_remaining (r_tool_calls r)"
  shows "\<exists>ag'. handle_answer env r ag = Inr (Again, ag') \<and>
    map outline (messages ag') = map outline (messages ag) @ answers (map call_id (r_tool_calls r))"
  using assms outline_execute [OF assms(1)] by (simp add: handle_answer_def store_answer_def)

lemma orphans_not_answered: "\<not> answered_outline ((Some ''user'', [], None) # answers (i # is))"
  by (simp add: answers_def answered_outline.simps)

text \<open>When the message with the calls cannot be appended, its calls are used after they are freed.\<close>

lemma failed_append_uses_freed_calls:
  assumes "r_content r \<noteq> None" "tool_calls_remaining (r_tool_calls r)"
    and "fails env (trace ag) AppendMessage" "\<not> fails env (trace ag) CreateMessage" "\<not> fails env (trace ag) CopyFields"
  shows "handle_answer env r ag = Inl UseAfterFree"
  using assms by (simp add: handle_answer_def store_answer_def agent_append_message_def)

text \<open>The cap on tool results holds for results, but not for errors.\<close>

lemma result_capped: "0 < max_tool_result_chars ag \<Longrightarrow> length (shown_result ag res) \<le> nat (max_tool_result_chars ag)"
proof -
  assume "0 < max_tool_result_chars ag"
  then show ?thesis
    using str_truncate_ellipsis_fits [of "or_empty (content res)" "nat (max_tool_result_chars ag)"]
      str_truncate_ellipsis_cut [of "nat (max_tool_result_chars ag)" "or_empty (content res)"]
    by (cases "length (or_empty (content res)) \<le> nat (max_tool_result_chars ag)")
      (force simp: shown_result_def or_empty_def)+
qed

lemma error_not_capped: "error res = Some e \<Longrightarrow> m_content (tool_message env ag c res) = Some (''Error: '' @ e)"
  by (simp add: tool_message_def Let_def)

text \<open>A streaming run sends the whole conversation, however long; only the buffered run cuts it.\<close>

lemma streaming_never_cuts:
  "stream_llm_call env ag = Inr (Some r, ag') \<Longrightarrow> length (messages ag) \<le> length (messages ag')"
  using stream_llm_trace [of env ag "Some r" ag']
  by (auto simp: inject_system_with_summary_def Let_def split: option.splits)

end
