(* ===== verification/CJson.thy ===== *)
theory CJson
  imports CString Complex_Main "HOL-Library.Countable"
begin

text \<open>
  The JSON library as the code uses it. The library is not part of the repository: its functions
  are the record \<open>cjson\<close>, an argument of every definition that works on JSON, over a type
  of documents left open. What the code relies on is \<open>json_laws\<close> (a node that is built is
  read back) and \<open>json_printing\<close> (what is printed is parsed back); theorems that need them say
  so. An instance of both closes the theory.
\<close>

text \<open>
  Parsing and printing; the member of an object by key; the text of a string, the elements of an
  array, the value of a number as an \<open>int\<close> and as a double, each None for a node of another
  kind; and the nodes that are built.
\<close>

record 'j cjson =
  j_parse :: "string \<Rightarrow> 'j option"
  j_print :: "'j \<Rightarrow> cptr"
  j_get :: "'j \<Rightarrow> string \<Rightarrow> 'j option"
  j_text :: "'j \<Rightarrow> string option"
  j_items :: "'j \<Rightarrow> 'j list option"
  j_int :: "'j \<Rightarrow> int option"
  j_double :: "'j \<Rightarrow> rat option"
  j_string :: "string \<Rightarrow> 'j"
  j_number :: "rat \<Rightarrow> 'j"
  j_array :: "'j list \<Rightarrow> 'j"
  j_object :: "(string \<times> 'j) list \<Rightarrow> 'j"

definition string_of :: "('j, 'x) cjson_scheme \<Rightarrow> 'j option \<Rightarrow> string option" where
  "string_of cj v = (case v of None \<Rightarrow> None | Some j \<Rightarrow> map_option cstr (j_text cj j))"

definition member :: "('j, 'x) cjson_scheme \<Rightarrow> 'j option \<Rightarrow> string \<Rightarrow> 'j option" where
  "member cj v key = (case v of None \<Rightarrow> None | Some j \<Rightarrow> j_get cj j key)"

definition items_of :: "('j, 'x) cjson_scheme \<Rightarrow> 'j option \<Rightarrow> 'j list" where
  "items_of cj v = (case v of None \<Rightarrow> [] | Some j \<Rightarrow> (case j_items cj j of None \<Rightarrow> [] | Some xs \<Rightarrow> xs))"

definition first_item :: "('j, 'x) cjson_scheme \<Rightarrow> 'j option \<Rightarrow> 'j option" where
  "first_item cj v = (case items_of cj v of [] \<Rightarrow> None | x # _ \<Rightarrow> Some x)"

text \<open>The members of an object of which some are only added when there is a value.\<close>

fun present :: "(string \<times> 'j option) list \<Rightarrow> (string \<times> 'j) list" where
  "present [] = []"
| "present ((k, None) # ms) = present ms"
| "present ((k, Some v) # ms) = (k, v) # present ms"

text \<open>A double as a \<open>long\<close>; out of range it is the smallest one, as on x86-64.\<close>

definition c_long :: "rat \<Rightarrow> int" where
  "c_long x =
     (if - (2 ^ 63) \<le> x \<and> x < 2 ^ 63 then (if x < 0 then - floor (- x) else floor x)
      else - (2 ^ 63))"

section \<open>Escaping\<close>

text \<open>
  \<open>utils/json.c\<close>: the text between the quotes of a string, for messages that are put together by
  hand. The buffer has twice the length, so its test for room never fails.
\<close>

definition escape_char :: "char \<Rightarrow> string" where
  "escape_char c =
     (if c = DQUOTE then [BACKSLASH, DQUOTE] else if c = BACKSLASH then [BACKSLASH, BACKSLASH]
      else if c = LF then [BACKSLASH, CHR ''n''] else if c = TAB then [BACKSLASH, CHR ''t'']
      else if c = CR then [BACKSLASH, CHR ''r''] else [c])"

fun escape_loop :: "nat \<Rightarrow> nat \<Rightarrow> string \<Rightarrow> cptr" where
  "escape_loop cap j [] = Some []"
| "escape_loop cap j (c # cs) =
     (if j + 2 > cap then None
      else map_option (append (escape_char c)) (escape_loop cap (j + length (escape_char c)) cs))"

definition json_string_escape :: "cptr \<Rightarrow> cptr" where
  "json_string_escape str = (case str of None \<Rightarrow> None | Some s \<Rightarrow> escape_loop (length s * 2 + 1) 0 s)"

lemma escape_loop_total: "j + 2 * length cs \<le> cap \<Longrightarrow> escape_loop cap j cs = Some (concat (map escape_char cs))"
  by (induction cap j cs rule: escape_loop.induct) (auto simp: escape_char_def)

lemma json_escape_exact: "json_string_escape (Some s) = Some (concat (map escape_char s))"
  by (simp add: json_string_escape_def escape_loop_total)

text \<open>A quote in the result is always one that was escaped.\<close>

fun closes_string :: "string \<Rightarrow> bool" where
  "closes_string [] = False"
| "closes_string [c] = (c = DQUOTE \<or> c = BACKSLASH)"
| "closes_string (c # d # cs) =
     (if c = BACKSLASH then closes_string cs else c = DQUOTE \<or> closes_string (d # cs))"

lemma closes_skip: "c \<noteq> BACKSLASH \<Longrightarrow> c \<noteq> DQUOTE \<Longrightarrow> closes_string (c # cs) = closes_string cs"
  by (cases cs) simp_all

lemma json_escape_closed: "\<not> closes_string (concat (map escape_char s))"
  by (induction s) (auto simp: escape_char_def closes_skip)

text \<open>Other control characters are left as they are, which JSON does not allow in a string.\<close>

lemma control_not_escaped: "json_string_escape (Some [CHR 0x01]) = Some [CHR 0x01]"
  by (simp add: json_escape_exact escape_char_def)

section \<open>What the library promises\<close>

text \<open>Keys are looked up without regard to the case of letters; the first member counts.\<close>

definition json_laws :: "('j, 'x) cjson_scheme \<Rightarrow> bool" where
  "json_laws cj \<longleftrightarrow>
     (\<forall>ms k. j_get cj (j_object cj ms) k = map_of (map (\<lambda>(n, v). (lower n, v)) ms) (lower k)) \<and>
     (\<forall>s. j_text cj (j_string cj s) = Some s) \<and> (\<forall>s. j_items cj (j_string cj s) = None) \<and>
     (\<forall>xs. j_items cj (j_array cj xs) = Some xs) \<and> (\<forall>x. j_double cj (j_number cj x) = Some x) \<and>
     (\<forall>n. - (2 ^ 31) \<le> n \<and> n < 2 ^ 31 \<longrightarrow> j_int cj (j_number cj (of_int n)) = Some n)"

definition json_printing :: "('j, 'x) cjson_scheme \<Rightarrow> bool" where
  "json_printing cj \<longleftrightarrow>
     (\<forall>d t. j_print cj d = Some t \<longrightarrow> NUL \<notin> set t \<and> j_parse cj t = Some d)"

lemma json_nodes:
  assumes "json_laws cj"
  shows "j_text cj (j_string cj s) = Some s" and "j_items cj (j_string cj s) = None"
    and "j_items cj (j_array cj xs) = Some xs" and "j_double cj (j_number cj x) = Some x"
  using assms by (simp_all add: json_laws_def)

lemma map_of_present:
  "distinct (map (\<lambda>(n, v). lower n) ms) \<Longrightarrow>
     map_of (map (\<lambda>(n, v). (lower n, v)) (present ms)) k =
       (case map_of (map (\<lambda>(n, v). (lower n, v)) ms) k of None \<Rightarrow> None | Some v \<Rightarrow> v)"
proof (induction ms rule: present.induct)
  case (2 n ms)
  moreover have "map_of (map (\<lambda>(n, v). (lower n, v)) ms) (lower n) = None"
    using 2(2) by (force simp: map_of_eq_None_iff comp_def case_prod_unfold)
  ultimately show ?case by auto
qed auto

lemma get_present:
  assumes "json_laws cj" and "distinct (map (\<lambda>(n, v). lower n) ms)"
  shows "j_get cj (j_object cj (present ms)) k =
    (case map_of (map (\<lambda>(n, v). (lower n, v)) ms) (lower k) of None \<Rightarrow> None | Some v \<Rightarrow> v)"
  using assms by (simp add: json_laws_def map_of_present)

lemma string_of_node:
  assumes "json_laws cj"
  shows "string_of cj (map_option (j_string cj) p) = map_option cstr p"
    and "string_of cj (Some (j_string cj s)) = Some (cstr s)"
  using assms by (cases p; simp add: string_of_def json_nodes)+

text \<open>The keys of the program's documents are in small letters.\<close>

lemma lower_keys [simp]:
  "lower ''choices'' = ''choices''"
  "lower ''delta'' = ''delta''"
  "lower ''message'' = ''message''"
  "lower ''role'' = ''role''"
  "lower ''content'' = ''content''"
  "lower ''thinking'' = ''thinking''"
  "lower ''phase'' = ''phase''"
  "lower ''provider_state'' = ''provider_state''"
  "lower ''tool_name'' = ''tool_name''"
  "lower ''error_category'' = ''error_category''"
  "lower ''id'' = ''id''"
  "lower ''parent_id'' = ''parent_id''"
  "lower ''fork_group_id'' = ''fork_group_id''"
  "lower ''timestamp'' = ''timestamp''"
  "lower ''tool_calls'' = ''tool_calls''"
  "lower ''tool_call_id'' = ''tool_call_id''"
  "lower ''type'' = ''type''"
  "lower ''function'' = ''function''"
  "lower ''name'' = ''name''"
  "lower ''arguments'' = ''arguments''"
  "lower ''result_content'' = ''result_content''"
  "lower ''result_error'' = ''result_error''"
  "lower ''reasoning'' = ''reasoning''"
  "lower ''reasoning_content'' = ''reasoning_content''"
  "lower ''index'' = ''index''"
  "lower ''title'' = ''title''"
  "lower ''title_generation_attempted'' = ''title_generation_attempted''"
  "lower ''created_at'' = ''created_at''"
  "lower ''messages'' = ''messages''"
  "lower ''metadata'' = ''metadata''"
  "lower ''events'' = ''events''"
  "lower ''event_type'' = ''event_type''"
  "lower ''data'' = ''data''"
  by (simp_all add: lower_def to_lower_def is_upper_def)

section \<open>An instance\<close>

datatype doc = DText string | DNumber rat | DArray "doc list" | DObject "(string \<times> doc) list"

definition doc_get :: "doc \<Rightarrow> string \<Rightarrow> doc option" where
  "doc_get d k = (case d of DObject ms \<Rightarrow> map_of (map (\<lambda>(n, v). (lower n, v)) ms) (lower k) | _ \<Rightarrow> None)"

text \<open>Printing and parsing know the texts of a table.\<close>

definition doc_json :: "(string \<times> doc) list \<Rightarrow> doc cjson" where
  "doc_json table =
     \<lparr>j_parse = map_of table, j_print = map_of (map (\<lambda>(t, d). (d, t)) table), j_get = doc_get,
      j_text = (\<lambda>d. case d of DText t \<Rightarrow> Some t | _ \<Rightarrow> None),
      j_items = (\<lambda>d. case d of DArray ds \<Rightarrow> Some ds | _ \<Rightarrow> None),
      j_int = (\<lambda>d. case d of DNumber x \<Rightarrow> Some (floor x) | _ \<Rightarrow> None),
      j_double = (\<lambda>d. case d of DNumber x \<Rightarrow> Some x | _ \<Rightarrow> None),
      j_string = DText, j_number = DNumber, j_array = DArray, j_object = DObject\<rparr>"

lemma doc_json_sel [simp]:
  "j_parse (doc_json t) = map_of t" "j_get (doc_json t) = doc_get"
  "j_print (doc_json t) = map_of (map (\<lambda>(t, d). (d, t)) t)"
  "j_text (doc_json t) d = (case d of DText t \<Rightarrow> Some t | _ \<Rightarrow> None)"
  "j_items (doc_json t) d = (case d of DArray ds \<Rightarrow> Some ds | _ \<Rightarrow> None)"
  "j_int (doc_json t) d = (case d of DNumber x \<Rightarrow> Some (floor x) | _ \<Rightarrow> None)"
  "j_double (doc_json t) d = (case d of DNumber x \<Rightarrow> Some x | _ \<Rightarrow> None)"
  "j_string (doc_json t) = DText" "j_number (doc_json t) = DNumber" "j_array (doc_json t) = DArray"
  "j_object (doc_json t) = DObject"
  by (simp_all add: doc_json_def)

lemma doc_laws: "json_laws (doc_json t)"
  by (simp add: json_laws_def doc_get_def)

lemma doc_text:
  assumes "distinct (map fst t)" and "list_all (\<lambda>(s, d). NUL \<notin> set s) t"
  shows "json_printing (doc_json t)"
  using assms by (fastforce simp: json_printing_def list_all_iff dest: map_of_SomeD intro: map_of_is_SomeI)


text \<open>An instance that prints every document: those of a table as the table says, the others by number.\<close>

instance doc :: countable
  by countable_datatype

definition total_json :: "(string \<times> doc) list \<Rightarrow> doc cjson" where
  "total_json table =
     (doc_json table)
       \<lparr>j_parse := (\<lambda>t. case map_of table t of Some d \<Rightarrow> Some d | None \<Rightarrow> Some (from_nat (length t - 3))),
        j_print := (\<lambda>d. case map_of (map (\<lambda>(t, d). (d, t)) table) d of Some t \<Rightarrow> Some t
                        | None \<Rightarrow> Some (''doc'' @ replicate (to_nat d) CHR ''i''))\<rparr>"

definition good_table :: "(string \<times> doc) list \<Rightarrow> bool" where
  "good_table table \<longleftrightarrow>
     distinct (map fst table) \<and>
     list_all (\<lambda>(t, d). take 3 t \<noteq> ''doc'' \<and> NUL \<notin> set t) table"

lemma swapped_lookup:
  assumes "distinct (map fst table)" and "map_of (map (\<lambda>(t, d). (d, t)) table) d = Some t"
  shows "map_of table t = Some d"
proof -
  from map_of_SomeD [OF assms(2)] have "(t, d) \<in> set table" by auto
  with assms(1) show ?thesis by (rule map_of_is_SomeI)
qed

lemma total_laws: "json_laws (total_json table)"
  using doc_laws [of table] by (simp add: json_laws_def total_json_def)

lemma total_printing:
  assumes "good_table table" shows "json_printing (total_json table)"
  unfolding json_printing_def
proof (intro allI impI)
  fix d t assume p: "j_print (total_json table) d = Some t"
  show "NUL \<notin> set t \<and> j_parse (total_json table) t = Some d"
  proof (cases "map_of (map (\<lambda>(t, d). (d, t)) table) d")
    case None
    with p have t: "t = ''doc'' @ replicate (to_nat d) CHR ''i''" by (simp add: total_json_def)
    have "map_of table t = None"
      using assms by (fastforce simp: t good_table_def list_all_iff map_of_eq_None_iff)
    then show ?thesis by (simp add: total_json_def t)
  next
    case (Some u)
    with p have "u = t" by (simp add: total_json_def)
    with Some assms swapped_lookup [of table d t] show ?thesis
      by (auto simp: total_json_def good_table_def list_all_iff dest: map_of_SomeD)
  qed
qed

end
