(* ===== verification/OpenaiCompat.thy ===== *)
theory OpenaiCompat
  imports ContextWindow CJson
begin

text \<open>
  The client of servers with the OpenAI chat interface (\<open>llm/openai_compatible.c\<close>) and the
  parser of their event streams (\<open>llm/openai_compatible_stream.c\<close>).

  The JSON library is an argument of the definitions (theory \<open>CJson\<close>). Network
  transfers are arguments too: the pieces delivered, the status and whether the transfer
  succeeded. In the stream parser every allocation may fail (\<open>alloc_fails\<close>, by the number of
  the allocation); elsewhere allocations are assumed to succeed.
\<close>

text \<open>The two names under which servers send what the model thought.\<close>

definition reasoning_of :: "('j, 'x) cjson_scheme \<Rightarrow> 'j option \<Rightarrow> 'j option" where
  "reasoning_of cj v =
     (case member cj v ''reasoning_content'' of None \<Rightarrow> member cj v ''reasoning'' | Some r \<Rightarrow> Some r)"

section \<open>The stream parser\<close>

record 'j stream_env = "'j cjson" +
  alloc_fails :: "nat \<Rightarrow> bool"
  on_chunk :: bool

text \<open>
  \<open>sp_line\<close> is the first \<open>line_len\<close> bytes of the line buffer; \<open>sp_chunks\<close> are the
  calls made of the callback, oldest first.
\<close>

record stream_parser =
  sp_resp :: llm_response
  sp_line :: string
  sp_cap :: nat
  sp_thinking_open :: bool
  sp_chunks :: "string list"
  sp_allocs :: nat

definition llm_response_create :: llm_response where
  "llm_response_create =
     \<lparr>r_content = None, r_thinking = None, r_phase = None, r_provider_state = None, r_tool_calls = []\<rparr>"

definition stream_parser_start :: stream_parser where
  "stream_parser_start =
     \<lparr>sp_resp = llm_response_create, sp_line = [], sp_cap = 0, sp_thinking_open = False,
      sp_chunks = [], sp_allocs = 0\<rparr>"

text \<open>Steps that report failure with -1, one after the other.\<close>

definition and_then :: "int \<times> 'a \<Rightarrow> ('a \<Rightarrow> int \<times> 'a) \<Rightarrow> int \<times> 'a" where
  "and_then r f = (case r of (rc, s) \<Rightarrow> if rc \<noteq> 0 then (-1, s) else f s)"

definition null_call :: tool_call where
  "null_call = \<lparr>tc_id = None, tc_name = None, tc_arguments = None, tc_result_content = None,
                tc_result_error = None\<rparr>"

definition sizeof_ToolCall :: nat where "sizeof_ToolCall = 40"

definition ensure_tool_call :: "'j stream_env \<Rightarrow> int \<Rightarrow> stream_parser \<Rightarrow> int \<times> stream_parser" where
  "ensure_tool_call env index sp =
     (let calls = r_tool_calls (sp_resp sp) in
      if index < 0 then (-1, sp)
      else if index < int (length calls) then (0, sp)
      else if nat index + 1 > SIZE_MAX div sizeof_ToolCall then (-1, sp)
      else if alloc_fails env (sp_allocs sp) then (-1, sp\<lparr>sp_allocs := sp_allocs sp + 1\<rparr>)
      else (0, sp\<lparr>sp_allocs := sp_allocs sp + 1,
                  sp_resp := (sp_resp sp)
                    \<lparr>r_tool_calls := calls @ replicate (nat index + 1 - length calls) null_call\<rparr>\<rparr>))"

text \<open>A text appended to the answer, then handed to the callback.\<close>

definition append_content :: "'j stream_env \<Rightarrow> string \<Rightarrow> stream_parser \<Rightarrow> int \<times> stream_parser" where
  "append_content env t sp =
     (let sp1 = sp\<lparr>sp_allocs := sp_allocs sp + 1\<rparr> in
      if alloc_fails env (sp_allocs sp) then (-1, sp1)
      else (case str_append (r_content (sp_resp sp)) (Some t) of
              (rc, c) \<Rightarrow> (rc, sp1\<lparr>sp_resp := (sp_resp sp)\<lparr>r_content := c\<rparr>\<rparr>)))"

definition tell :: "'j stream_env \<Rightarrow> string \<Rightarrow> stream_parser \<Rightarrow> stream_parser" where
  "tell env t sp = (if on_chunk env then sp\<lparr>sp_chunks := sp_chunks sp @ [t]\<rparr> else sp)"

definition say :: "'j stream_env \<Rightarrow> string \<Rightarrow> stream_parser \<Rightarrow> int \<times> stream_parser" where
  "say env t sp = and_then (append_content env t sp) (\<lambda>s. (0, tell env t s))"

definition think_open_tag :: string where "think_open_tag = ''<think>'' @ [LF]"
definition think_close_tag :: string where "think_close_tag = [LF] @ ''</think>'' @ [LF, LF]"

definition set_thinking :: "bool \<Rightarrow> stream_parser \<Rightarrow> int \<times> stream_parser" where
  "set_thinking b sp = (0, sp\<lparr>sp_thinking_open := b\<rparr>)"

definition forward_reasoning_delta :: "'j stream_env \<Rightarrow> cptr \<Rightarrow> stream_parser \<Rightarrow> int \<times> stream_parser" where
  "forward_reasoning_delta env t sp =
     (case t of None \<Rightarrow> (0, sp)
      | Some r \<Rightarrow>
          if r = [] then (0, sp)
          else and_then (if sp_thinking_open sp then (0, sp)
                         else and_then (say env think_open_tag sp) (set_thinking True))
                 (say env r))"

definition close_thinking :: "'j stream_env \<Rightarrow> stream_parser \<Rightarrow> int \<times> stream_parser" where
  "close_thinking env sp =
     (if sp_thinking_open sp then and_then (say env think_close_tag sp) (set_thinking False) else (0, sp))"

definition forward_content :: "'j stream_env \<Rightarrow> cptr \<Rightarrow> stream_parser \<Rightarrow> int \<times> stream_parser" where
  "forward_content env t sp =
     (case t of None \<Rightarrow> (0, sp)
      | Some c \<Rightarrow> if c = [] then (0, sp) else and_then (close_thinking env sp) (say env c))"

text \<open>One string of a call's delta, appended to the field that \<open>sel\<close> reads and \<open>upd\<close> writes.\<close>

definition append_field ::
  "'j stream_env \<Rightarrow> (tool_call \<Rightarrow> cptr) \<Rightarrow> ((cptr \<Rightarrow> cptr) \<Rightarrow> tool_call \<Rightarrow> tool_call) \<Rightarrow> nat \<Rightarrow> cptr
     \<Rightarrow> stream_parser \<Rightarrow> int \<times> stream_parser" where
  "append_field env sel upd k t sp =
     (case t of None \<Rightarrow> (0, sp)
      | Some x \<Rightarrow>
          let sp1 = sp\<lparr>sp_allocs := sp_allocs sp + 1\<rparr>; calls = r_tool_calls (sp_resp sp) in
          if alloc_fails env (sp_allocs sp) then (-1, sp1)
          else (case str_append (sel (calls ! k)) (Some x) of
                  (rc, p) \<Rightarrow> (rc, sp1\<lparr>sp_resp := (sp_resp sp)
                                       \<lparr>r_tool_calls := calls[k := upd (\<lambda>_. p) (calls ! k)]\<rparr>\<rparr>)))"

definition call_index :: "('j, 'x) cjson_scheme \<Rightarrow> 'j \<Rightarrow> int" where
  "call_index cj item =
     (case j_get cj item ''index'' of None \<Rightarrow> 0
      | Some n \<Rightarrow> (case j_int cj n of None \<Rightarrow> 0 | Some i \<Rightarrow> i))"

definition fold_call :: "'j stream_env \<Rightarrow> 'j \<Rightarrow> stream_parser \<Rightarrow> int \<times> stream_parser" where
  "fold_call env item sp =
     (let index = call_index env item; k = nat index; fn = j_get env item ''function'' in
      and_then (ensure_tool_call env index sp) (\<lambda>s.
      and_then (append_field env tc_id tc_id_update k (string_of env (j_get env item ''id'')) s) (\<lambda>s.
      and_then (append_field env tc_name tc_name_update k (string_of env (member env fn ''name'')) s) (\<lambda>s.
        append_field env tc_arguments tc_arguments_update k
          (string_of env (member env fn ''arguments'')) s))))"

fun fold_calls :: "'j stream_env \<Rightarrow> 'j list \<Rightarrow> stream_parser \<Rightarrow> int \<times> stream_parser" where
  "fold_calls env [] sp = (0, sp)"
| "fold_calls env (item # items) sp = and_then (fold_call env item sp) (fold_calls env items)"

definition parse_stream_event :: "'j stream_env \<Rightarrow> string \<Rightarrow> stream_parser \<Rightarrow> int \<times> stream_parser" where
  "parse_stream_event env json_text sp =
     (case j_parse env json_text of
        None \<Rightarrow> (-1, sp)
      | Some json \<Rightarrow>
          (case member env (first_item env (j_get env json ''choices'')) ''delta'' of
             None \<Rightarrow> (0, sp)
           | Some delta \<Rightarrow>
               and_then (forward_reasoning_delta env (string_of env (reasoning_of env (Some delta))) sp) (\<lambda>s.
               and_then (forward_content env (string_of env (j_get env delta ''content'')) s)
                 (fold_calls env (items_of env (j_get env delta ''tool_calls''))))))"

text \<open>A complete line without its line end.\<close>

definition stream_line :: "'j stream_env \<Rightarrow> string \<Rightarrow> stream_parser \<Rightarrow> int \<times> stream_parser" where
  "stream_line env t sp =
     (if take 6 t = ''data: '' \<and> drop 6 t \<noteq> ''[DONE]''
      then parse_stream_event env (drop 6 t) sp else (0, sp))"

definition grow_line :: "'j stream_env \<Rightarrow> stream_parser \<Rightarrow> int \<times> stream_parser" where
  "grow_line env sp =
     (if length (sp_line sp) + 1 \<ge> sp_cap sp
      then let sp1 = sp\<lparr>sp_allocs := sp_allocs sp + 1\<rparr> in
           if alloc_fails env (sp_allocs sp) then (-1, sp1)
           else (0, sp1\<lparr>sp_cap := if sp_cap sp \<noteq> 0 then sp_cap sp * 2 else 256\<rparr>)
      else (0, sp))"

definition line_text :: "string \<Rightarrow> string" where
  "line_text l =
     (if length l > 1 \<and> l ! (length l - 2) = CR then cstr (take (length l - 2) l)
      else cstr (take (length l - 1) l))"

definition feed_byte :: "'j stream_env \<Rightarrow> char \<Rightarrow> stream_parser \<Rightarrow> int \<times> stream_parser" where
  "feed_byte env b sp =
     and_then (grow_line env sp) (\<lambda>s.
       let l = sp_line s @ [b] in
       if b \<noteq> LF then (0, s\<lparr>sp_line := l\<rparr>)
       else stream_line env (line_text l) (s\<lparr>sp_line := []\<rparr>))"

fun stream_parser_feed :: "'j stream_env \<Rightarrow> string \<Rightarrow> stream_parser \<Rightarrow> int \<times> stream_parser" where
  "stream_parser_feed env [] sp = (0, sp)"
| "stream_parser_feed env (b # bs) sp = and_then (feed_byte env b sp) (stream_parser_feed env bs)"

definition last_line_text :: "string \<Rightarrow> string" where
  "last_line_text l = (if last l = CR then cstr (butlast l) else cstr l)"

definition stream_parser_finish :: "'j stream_env \<Rightarrow> stream_parser \<Rightarrow> int \<times> stream_parser" where
  "stream_parser_finish env sp =
     and_then (if sp_line sp \<noteq> []
               then stream_line env (last_line_text (sp_line sp)) (sp\<lparr>sp_line := []\<rparr>) else (0, sp))
       (close_thinking env)"

section \<open>A streamed request\<close>

text \<open>
  \<open>live_write_cb\<close>: the body of an answer that is not a success is kept for the log only. A short
  count makes the transfer fail.
\<close>

definition ok_status :: "int \<Rightarrow> bool" where "ok_status status \<longleftrightarrow> 200 \<le> status \<and> status < 300"

definition live_write_cb :: "'j stream_env \<Rightarrow> int \<Rightarrow> string \<Rightarrow> stream_parser \<Rightarrow> int \<times> stream_parser" where
  "live_write_cb env status piece sp =
     (if \<not> ok_status status then (0, sp) else stream_parser_feed env piece sp)"

fun deliver :: "'j stream_env \<Rightarrow> int \<Rightarrow> string list \<Rightarrow> stream_parser \<Rightarrow> int \<times> stream_parser" where
  "deliver env status [] sp = (0, sp)"
| "deliver env status (p # ps) sp = and_then (live_write_cb env status p sp) (deliver env status ps)"

definition with_content :: "llm_response \<Rightarrow> llm_response" where
  "with_content r = (case r_content r of None \<Rightarrow> r\<lparr>r_content := Some ''''\<rparr> | Some _ \<Rightarrow> r)"

text \<open>The response, when there is one, and the texts the callback got.\<close>

definition chat_stream_request ::
  "'j stream_env \<Rightarrow> string list \<Rightarrow> int \<Rightarrow> bool \<Rightarrow> llm_response option \<times> string list" where
  "chat_stream_request env pieces status transfer_ok =
     (case deliver env status pieces stream_parser_start of
        (rc, sp) \<Rightarrow>
          if rc \<noteq> 0 \<or> \<not> transfer_ok \<or> \<not> ok_status status then (None, sp_chunks sp)
          else (case stream_parser_finish env sp of
                  (rc', sp') \<Rightarrow> (if rc' \<noteq> 0 then None else Some (with_content (sp_resp sp')), sp_chunks sp')))"

section \<open>What a stream says\<close>

text \<open>
  The reading of a whole stream that the parser has to agree with: its event lines, the delta of
  each, the pieces of thought and of answer in order, and the calls put together by index.
\<close>

definition strip_cr :: "string \<Rightarrow> string" where
  "strip_cr l = (if l \<noteq> [] \<and> last l = CR then butlast l else l)"

definition payloads :: "string list \<Rightarrow> string list" where
  "payloads ls = map (drop 6) (filter (\<lambda>t. take 6 t = ''data: '' \<and> drop 6 t \<noteq> ''[DONE]'')
                                (map (\<lambda>l. cstr (strip_cr l)) ls))"

datatype token = Thought string | Said string

record call_delta =
  cd_index :: nat
  cd_id :: cptr
  cd_name :: cptr
  cd_arguments :: cptr

definition call_delta_of :: "('j, 'x) cjson_scheme \<Rightarrow> 'j \<Rightarrow> call_delta" where
  "call_delta_of cj item =
     \<lparr>cd_index = nat (call_index cj item), cd_id = string_of cj (j_get cj item ''id''),
      cd_name = string_of cj (member cj (j_get cj item ''function'') ''name''),
      cd_arguments = string_of cj (member cj (j_get cj item ''function'') ''arguments'')\<rparr>"

definition tokens_of :: "(string \<Rightarrow> token) \<Rightarrow> cptr \<Rightarrow> token list" where
  "tokens_of f t = (if or_empty t = [] then [] else [f (or_empty t)])"

text \<open>What one event says; None when it is not JSON.\<close>

definition event_says :: "('j, 'x) cjson_scheme \<Rightarrow> string \<Rightarrow> (token list \<times> call_delta list) option" where
  "event_says cj payload =
     (case j_parse cj payload of None \<Rightarrow> None
      | Some json \<Rightarrow>
          (case member cj (first_item cj (j_get cj json ''choices'')) ''delta'' of
             None \<Rightarrow> Some ([], [])
           | Some d \<Rightarrow>
               Some (tokens_of Thought (string_of cj (reasoning_of cj (Some d))) @
                     tokens_of Said (string_of cj (j_get cj d ''content'')),
                     map (call_delta_of cj) (items_of cj (j_get cj d ''tool_calls'')))))"

fun transcript_of :: "bool \<Rightarrow> token list \<Rightarrow> string" where
  "transcript_of thinking [] = (if thinking then think_close_tag else [])"
| "transcript_of thinking (Thought r # ts) =
     (if thinking then [] else think_open_tag) @ r @ transcript_of True ts"
| "transcript_of thinking (Said c # ts) =
     (if thinking then think_close_tag else []) @ c @ transcript_of False ts"

definition joined :: "cptr list \<Rightarrow> cptr" where
  "joined ps = (if list_all (\<lambda>p. p = None) ps then None else Some (concat (map or_empty ps)))"

definition at_index :: "nat \<Rightarrow> call_delta list \<Rightarrow> call_delta list" where
  "at_index k ds = filter (\<lambda>d. cd_index d = k) ds"

definition call_total :: "call_delta list \<Rightarrow> nat" where
  "call_total ds = foldr max (map (\<lambda>d. cd_index d + 1) ds) 0"

definition call_said :: "call_delta list \<Rightarrow> nat \<Rightarrow> tool_call" where
  "call_said ds k =
     null_call\<lparr>tc_id := joined (map cd_id (at_index k ds)),
               tc_name := joined (map cd_name (at_index k ds)),
               tc_arguments := joined (map cd_arguments (at_index k ds))\<rparr>"

definition calls_said :: "call_delta list \<Rightarrow> tool_call list" where
  "calls_said ds = map (call_said ds) [0 ..< call_total ds]"

section \<open>Proofs\<close>

lemma and_then_ok: "and_then r f = (0, t) \<longleftrightarrow> (\<exists>s. r = (0, s) \<and> f s = (0, t))"
  by (auto simp: and_then_def split: prod.splits if_splits)

lemma and_then_0 [simp]: "and_then (0, s) f = f s"
  by (simp add: and_then_def)

lemma and_then_assoc: "and_then (and_then r f) g = and_then r (\<lambda>s. and_then (f s) g)"
  by (auto simp: and_then_def split: prod.splits)

lemma stream_parser_feed_append:
  "stream_parser_feed env (a @ b) sp = and_then (stream_parser_feed env a sp) (stream_parser_feed env b)"
proof (induction a arbitrary: sp)
  case (Cons x a)
  then have "stream_parser_feed env (a @ b) = (\<lambda>s. and_then (stream_parser_feed env a s) (stream_parser_feed env b))"
    by (intro ext)
  then show ?case by (simp add: and_then_assoc)
qed simp

lemma deliver_concat:
  "ok_status status \<Longrightarrow> deliver env status ps sp = stream_parser_feed env (concat ps) sp"
proof (induction ps arbitrary: sp)
  case (Cons p ps)
  then have "deliver env status ps = stream_parser_feed env (concat ps)" by auto
  with Cons.prems show ?case by (simp add: live_write_cb_def stream_parser_feed_append)
qed simp

lemma split_on_snoc:
  "split_on d (x @ [c]) =
     (if c = d then split_on d x @ [[]] else butlast (split_on d x) @ [last (split_on d x) @ [c]])"
proof (induction x)
  case (Cons y x)
  show ?case
  proof (cases "split_on d x")
    case (Cons w ws)
    with Cons.IH show ?thesis by (cases ws) auto
  qed simp
qed simp

lemma payloads_append: "payloads (a @ b) = payloads a @ payloads b"
  by (simp add: payloads_def)

lemma line_text_strip: "line_text (l @ [LF]) = cstr (strip_cr l)"
proof (cases l rule: rev_cases)
  case Nil
  then show ?thesis by (simp add: line_text_def strip_cr_def)
next
  case (snoc m c)
  then show ?thesis by (auto simp: line_text_def strip_cr_def nth_append)
qed

lemma last_line_strip: "l \<noteq> [] \<Longrightarrow> last_line_text l = cstr (strip_cr l)"
  by (simp add: last_line_text_def strip_cr_def)

subsection \<open>Calls\<close>

lemma joined_snoc: "joined (ps @ [p]) = (case p of None \<Rightarrow> joined ps | Some x \<Rightarrow> Some (or_empty (joined ps) @ x))"
  by (auto simp: joined_def or_empty_def list_all_iff split: option.splits)

lemma str_append_ok: "str_append p (Some x) = (0, q) \<Longrightarrow> q = Some (or_empty p @ x)"
  by (auto simp: str_append_def or_empty_def Let_def split: if_splits option.splits)

lemma call_total_snoc: "call_total (ds @ [d]) = max (call_total ds) (cd_index d + 1)"
  by (induction ds) (auto simp: call_total_def)

lemma at_index_beyond: "k \<ge> call_total ds \<Longrightarrow> at_index k ds = []"
  by (induction ds) (auto simp: call_total_def at_index_def)

lemma length_calls_said [simp]: "length (calls_said ds) = call_total ds"
  by (simp add: calls_said_def)

lemma joined_Nil [simp]: "joined [] = None" by (simp add: joined_def)


text \<open>What a delta adds to a field.\<close>

definition add_text :: "cptr \<Rightarrow> cptr \<Rightarrow> cptr" where
  "add_text t p = (case t of None \<Rightarrow> p | Some x \<Rightarrow> Some (or_empty p @ x))"

definition add_delta :: "call_delta \<Rightarrow> tool_call \<Rightarrow> tool_call" where
  "add_delta d c = c\<lparr>tc_id := add_text (cd_id d) (tc_id c), tc_name := add_text (cd_name d) (tc_name c),
                     tc_arguments := add_text (cd_arguments d) (tc_arguments c)\<rparr>"

lemma call_said_snoc:
  "call_said (ds @ [d]) k = (if cd_index d = k then add_delta d (call_said ds k) else call_said ds k)"
  by (simp add: call_said_def add_delta_def at_index_def joined_snoc add_text_def null_call_def)

lemma call_said_beyond: "k \<ge> call_total ds \<Longrightarrow> call_said ds k = null_call"
  by (simp add: call_said_def at_index_beyond null_call_def)

lemma calls_said_snoc:
  "calls_said (ds @ [d]) =
     (let k = cd_index d; cs = calls_said ds @ replicate (k + 1 - call_total ds) null_call
      in cs[k := add_delta d (cs ! k)])"
proof -
  let ?cs = "calls_said ds @ replicate (cd_index d + 1 - call_total ds) null_call"
  have cs: "i < max (call_total ds) (cd_index d + 1) \<Longrightarrow> ?cs ! i = call_said ds i" for i
    by (auto simp: nth_append calls_said_def call_said_beyond)
  show ?thesis unfolding Let_def
  proof (rule nth_equalityI)
    show "length (calls_said (ds @ [d])) = length (?cs[cd_index d := add_delta d (?cs ! cd_index d)])"
      by (simp add: call_total_snoc)
    fix i assume "i < length (calls_said (ds @ [d]))"
    then have i: "i < max (call_total ds) (cd_index d + 1)" by (simp add: call_total_snoc)
    then have "calls_said (ds @ [d]) ! i = call_said (ds @ [d]) i"
      by (simp add: calls_said_def call_total_snoc del: upt_Suc)
    with cs [of i] i cs [of "cd_index d"]
    show "calls_said (ds @ [d]) ! i = ?cs[cd_index d := add_delta d (?cs ! cd_index d)] ! i"
      by (cases "i = cd_index d") (simp_all add: call_said_snoc)
  qed
qed

lemma same_allocs [simp]: "\<exists>n. (sp::stream_parser) = sp\<lparr>sp_allocs := n\<rparr>"
  by (rule exI [of _ "sp_allocs sp"]) simp

lemma append_field_ok:
  assumes "append_field env sel upd k t sp = (0, sp')"
    and "upd (\<lambda>_. sel (r_tool_calls (sp_resp sp) ! k)) (r_tool_calls (sp_resp sp) ! k) = r_tool_calls (sp_resp sp) ! k"
  shows "\<exists>n. sp' = sp\<lparr>sp_allocs := n, sp_resp := (sp_resp sp)\<lparr>r_tool_calls := (r_tool_calls (sp_resp sp))
           [k := upd (\<lambda>_. add_text t (sel (r_tool_calls (sp_resp sp) ! k))) (r_tool_calls (sp_resp sp) ! k)]\<rparr>\<rparr>"
  using assms
  by (auto simp: append_field_def add_text_def Let_def dest!: str_append_ok split: option.splits if_splits prod.splits)

lemma ensure_ok:
  assumes "ensure_tool_call env index sp = (0, sp')"
  shows "0 \<le> index \<and> (\<exists>n. sp' = sp\<lparr>sp_allocs := n, sp_resp := (sp_resp sp)\<lparr>r_tool_calls := r_tool_calls (sp_resp sp) @
           replicate (nat index + 1 - length (r_tool_calls (sp_resp sp))) null_call\<rparr>\<rparr>)"
  using assms by (auto simp: ensure_tool_call_def Let_def split: if_splits)

lemma fold_call_ok:
  assumes "fold_call env item sp = (0, sp')" and "r_tool_calls (sp_resp sp) = calls_said ds"
  shows "\<exists>n. sp' = sp\<lparr>sp_allocs := n, sp_resp := (sp_resp sp)\<lparr>r_tool_calls := calls_said (ds @ [call_delta_of env item])\<rparr>\<rparr>"
proof -
  let ?k = "nat (call_index env item)" and ?d = "call_delta_of env item"
  let ?cs = "calls_said ds @ replicate (?k + 1 - call_total ds) null_call"
  have k: "?k < length ?cs" by simp
  from assms(1) obtain s1 s2 s3 where
      s1: "ensure_tool_call env (call_index env item) sp = (0, s1)"
    and s2: "append_field env tc_id tc_id_update ?k (cd_id ?d) s1 = (0, s2)"
    and s3: "append_field env tc_name tc_name_update ?k (cd_name ?d) s2 = (0, s3)"
    and s4: "append_field env tc_arguments tc_arguments_update ?k (cd_arguments ?d) s3 = (0, sp')"
    by (auto simp: fold_call_def Let_def and_then_ok call_delta_of_def)
  from ensure_ok [OF s1] assms(2) obtain n1 where
    e1: "s1 = sp\<lparr>sp_allocs := n1, sp_resp := (sp_resp sp)\<lparr>r_tool_calls := ?cs\<rparr>\<rparr>" by auto
  from append_field_ok [OF s2] append_field_ok [OF s3] append_field_ok [OF s4]
  have "\<exists>n. sp' = sp\<lparr>sp_allocs := n, sp_resp := (sp_resp sp)\<lparr>r_tool_calls := ?cs[?k := add_delta ?d (?cs ! ?k)]\<rparr>\<rparr>"
    using k by (auto simp: e1 add_delta_def)
  moreover have "cd_index ?d = ?k" by (simp add: call_delta_of_def)
  ultimately show ?thesis by (simp add: calls_said_snoc Let_def)
qed

lemma fold_calls_ok:
  assumes "fold_calls env items sp = (0, sp')" and "r_tool_calls (sp_resp sp) = calls_said ds"
  shows "\<exists>n. sp' = sp\<lparr>sp_allocs := n, sp_resp := (sp_resp sp)
           \<lparr>r_tool_calls := calls_said (ds @ map (call_delta_of env) items)\<rparr>\<rparr>"
  using assms
proof (induction items arbitrary: sp ds)
  case Nil
  then show ?case by (auto intro!: exI [of _ "sp_allocs sp"])
next
  case (Cons item items)
  from Cons.prems obtain s where s: "fold_call env item sp = (0, s)" "fold_calls env items s = (0, sp')"
    by (auto simp: and_then_ok)
  from fold_call_ok [OF s(1) Cons.prems(2)] obtain n where
    n: "s = sp\<lparr>sp_allocs := n, sp_resp := (sp_resp sp)\<lparr>r_tool_calls := calls_said (ds @ [call_delta_of env item])\<rparr>\<rparr>" ..
  then have "r_tool_calls (sp_resp s) = calls_said (ds @ [call_delta_of env item])" by simp
  from Cons.IH [OF s(2) this] n show ?case by auto
qed


subsection \<open>Thought and answer\<close>

lemma say_ok:
  assumes "say env t sp = (0, sp')"
  shows "\<exists>n. sp' = sp\<lparr>sp_allocs := n, sp_resp := (sp_resp sp)\<lparr>r_content := Some (or_empty (r_content (sp_resp sp)) @ t)\<rparr>,
           sp_chunks := sp_chunks sp @ (if on_chunk env then [t] else [])\<rparr>"
  using assms
  by (cases "on_chunk env")
     (auto simp: say_def and_then_ok append_content_def tell_def Let_def dest!: str_append_ok
       split: if_splits prod.splits)

text \<open>The parser has said the pieces \<open>ts\<close> and put together the calls \<open>cs\<close>.\<close>

definition tells :: "'j stream_env \<Rightarrow> token list \<Rightarrow> call_delta list \<Rightarrow> stream_parser \<Rightarrow> bool" where
  "tells env ts cs sp \<longleftrightarrow>
     (\<forall>rest. transcript_of False (ts @ rest) =
        or_empty (r_content (sp_resp sp)) @ transcript_of (sp_thinking_open sp) rest) \<and>
     concat (sp_chunks sp) = (if on_chunk env then or_empty (r_content (sp_resp sp)) else []) \<and>
     r_tool_calls (sp_resp sp) = calls_said cs \<and>
     r_thinking (sp_resp sp) = None \<and> r_phase (sp_resp sp) = None \<and> r_provider_state (sp_resp sp) = None"

lemma tells_start: "tells env [] [] stream_parser_start"
  by (simp add: tells_def stream_parser_start_def llm_response_create_def calls_said_def call_total_def)

lemma tells_same:
  "tells env ts cs sp \<Longrightarrow> tells env ts cs (sp\<lparr>sp_allocs := n\<rparr>)"
  "tells env ts cs sp \<Longrightarrow> tells env ts cs (sp\<lparr>sp_line := l\<rparr>)"
  "tells env ts cs sp \<Longrightarrow> tells env ts cs (sp\<lparr>sp_cap := m\<rparr>)"
  by (simp_all add: tells_def)

lemma reasoning_tells:
  assumes "forward_reasoning_delta env t sp = (0, sp')" and "tells env ts cs sp"
  shows "tells env (ts @ tokens_of Thought t) cs sp' \<and> sp_line sp' = sp_line sp"
proof (cases "or_empty t = []")
  case True
  with assms show ?thesis by (auto simp: forward_reasoning_delta_def tokens_of_def split: option.splits if_splits)
next
  case False
  then obtain r where t: "t = Some r" "r \<noteq> []" by (cases t) auto
  from assms(1) t obtain s where
      s: "(if sp_thinking_open sp then (0, sp) else and_then (say env think_open_tag sp) (set_thinking True)) = (0, s)"
    and sp': "say env r s = (0, sp')"
    by (auto simp: forward_reasoning_delta_def and_then_ok)
  show ?thesis
  proof (cases "sp_thinking_open sp")
    case True
    with s say_ok [OF sp'] assms(2) t show ?thesis by (auto simp: tells_def tokens_of_def)
  next
    case False
    with s obtain s1 where s1: "say env think_open_tag sp = (0, s1)" "set_thinking True s1 = (0, s)"
      by (auto simp: and_then_ok)
    from say_ok [OF s1(1)] s1(2) say_ok [OF sp'] assms(2) t False show ?thesis
      by (auto simp: tells_def tokens_of_def set_thinking_def)
  qed
qed

lemma close_tells:
  assumes "close_thinking env sp = (0, sp')" and "tells env ts cs sp"
  shows "\<not> sp_thinking_open sp' \<and> sp_line sp' = sp_line sp \<and>
    concat (sp_chunks sp') = (if on_chunk env then or_empty (r_content (sp_resp sp')) else []) \<and>
    r_tool_calls (sp_resp sp') = calls_said cs \<and>
    r_thinking (sp_resp sp') = None \<and> r_phase (sp_resp sp') = None \<and> r_provider_state (sp_resp sp') = None \<and>
    or_empty (r_content (sp_resp sp')) =
      or_empty (r_content (sp_resp sp)) @ (if sp_thinking_open sp then think_close_tag else [])"
proof (cases "sp_thinking_open sp")
  case True
  with assms(1) obtain s where s: "say env think_close_tag sp = (0, s)" "set_thinking False s = (0, sp')"
    by (auto simp: close_thinking_def and_then_ok)
  from say_ok [OF s(1)] s(2) assms(2) True show ?thesis by (auto simp: tells_def set_thinking_def)
next
  case False
  with assms show ?thesis by (simp add: close_thinking_def tells_def)
qed

lemma content_tells:
  assumes "forward_content env t sp = (0, sp')" and "tells env ts cs sp"
  shows "tells env (ts @ tokens_of Said t) cs sp' \<and> sp_line sp' = sp_line sp"
proof (cases "or_empty t = []")
  case True
  with assms show ?thesis by (auto simp: forward_content_def tokens_of_def split: option.splits if_splits)
next
  case False
  then obtain c where t: "t = Some c" "c \<noteq> []" by (cases t) auto
  from assms(1) t obtain s where s: "close_thinking env sp = (0, s)" "say env c s = (0, sp')"
    by (auto simp: forward_content_def and_then_ok)
  have c: "transcript_of False (ts @ rest) =
      or_empty (r_content (sp_resp sp)) @ transcript_of (sp_thinking_open sp) rest" for rest
    using assms(2) by (simp add: tells_def)
  from close_tells [OF s(1) assms(2)] say_ok [OF s(2)] c t show ?thesis
    by (auto simp: tells_def tokens_of_def)
qed

lemma event_tells:
  assumes "parse_stream_event env payload sp = (0, sp')" and "tells env ts cs sp"
  shows "\<exists>ts1 cs1. event_says env payload = Some (ts1, cs1) \<and> tells env (ts @ ts1) (cs @ cs1) sp' \<and>
    sp_line sp' = sp_line sp"
proof -
  from assms(1) obtain json where json: "j_parse env payload = Some json"
    by (auto simp: parse_stream_event_def split: option.splits)
  show ?thesis
  proof (cases "member env (first_item env (j_get env json ''choices'')) ''delta''")
    case None
    with assms json show ?thesis by (simp add: parse_stream_event_def event_says_def)
  next
    case (Some d)
    with assms(1) json obtain s1 s2 where
        s1: "forward_reasoning_delta env (string_of env (reasoning_of env (Some d))) sp = (0, s1)"
      and s2: "forward_content env (string_of env (j_get env d ''content'')) s1 = (0, s2)"
      and s3: "fold_calls env (items_of env (j_get env d ''tool_calls'')) s2 = (0, sp')"
      by (auto simp: parse_stream_event_def and_then_ok)
    note t1 = reasoning_tells [OF s1 assms(2)]
    note t2 = content_tells [OF s2 conjunct1 [OF t1]]
    from t2 have "r_tool_calls (sp_resp s2) = calls_said cs" by (simp add: tells_def)
    from fold_calls_ok [OF s3 this] t1 t2 Some json show ?thesis
      by (auto simp: event_says_def tells_def)
  qed
qed

subsection \<open>The stream\<close>

definition says_all :: "'j stream_env \<Rightarrow> string list \<Rightarrow> token list \<Rightarrow> call_delta list \<Rightarrow> bool" where
  "says_all env ps ts cs \<longleftrightarrow>
     (\<exists>es. map (event_says env) ps = map Some es \<and> ts = concat (map fst es) \<and> cs = concat (map snd es))"

lemma says_all_snoc:
  "says_all env ps ts cs \<Longrightarrow> event_says env p = Some (ts1, cs1) \<Longrightarrow> says_all env (ps @ [p]) (ts @ ts1) (cs @ cs1)"
  unfolding says_all_def by (elim exE conjE, rule_tac x = "es @ [(ts1, cs1)]" in exI) simp

lemma line_tells:
  assumes "stream_line env (cstr (strip_cr l)) sp = (0, sp')" and "tells env ts cs sp" and "says_all env ps ts cs"
  shows "\<exists>ts1 cs1. tells env ts1 cs1 sp' \<and> says_all env (ps @ payloads [l]) ts1 cs1 \<and> sp_line sp' = sp_line sp"
proof (cases "take 6 (cstr (strip_cr l)) = ''data: '' \<and> drop 6 (cstr (strip_cr l)) \<noteq> ''[DONE]''")
  case True
  with assms(1) have "parse_stream_event env (drop 6 (cstr (strip_cr l))) sp = (0, sp')"
    by (simp add: stream_line_def)
  from event_tells [OF this assms(2)] True show ?thesis
    by (auto simp: payloads_def intro: says_all_snoc [OF assms(3)])
next
  case False
  with assms show ?thesis by (auto simp: stream_line_def payloads_def)
qed

lemma feed_tells:
  assumes "stream_parser_feed env x stream_parser_start = (0, sp)"
  shows "\<exists>ts cs. tells env ts cs sp \<and> says_all env (payloads (butlast (split_on LF x))) ts cs \<and>
    sp_line sp = last (split_on LF x)"
  using assms
proof (induction x arbitrary: sp rule: rev_induct)
  case Nil
  then show ?case using tells_start [of env]
    by (auto simp: says_all_def payloads_def stream_parser_start_def intro!: exI [of _ "[]"])
next
  case (snoc b x)
  from snoc.prems obtain s where s: "stream_parser_feed env x stream_parser_start = (0, s)"
      "feed_byte env b s = (0, sp)"
    by (auto simp: stream_parser_feed_append and_then_ok)
  from snoc.IH [OF s(1)] obtain ts cs where t: "tells env ts cs s"
      "says_all env (payloads (butlast (split_on LF x))) ts cs" "sp_line s = last (split_on LF x)"
    by blast
  from s(2) obtain g where g: "grow_line env s = (0, g)"
    and f: "(if b \<noteq> LF then (0, g\<lparr>sp_line := sp_line g @ [b]\<rparr>)
             else stream_line env (line_text (sp_line g @ [b])) (g\<lparr>sp_line := []\<rparr>)) = (0, sp)"
    by (auto simp: feed_byte_def and_then_ok Let_def)
  from g t have g': "tells env ts cs g" "sp_line g = last (split_on LF x)"
    by (auto simp: grow_line_def Let_def tells_def split: if_splits)
  show ?case
  proof (cases "b = LF")
    case False
    with f g'(2) have "sp = g\<lparr>sp_line := last (split_on LF x) @ [b]\<rparr>" by simp
    with False t(2) tells_same(2) [OF g'(1)] show ?thesis by (auto simp: split_on_snoc butlast_append)
  next
    case True
    with f g' have "stream_line env (cstr (strip_cr (last (split_on LF x)))) (g\<lparr>sp_line := []\<rparr>) = (0, sp)"
      by (simp add: line_text_strip)
    from line_tells [OF this tells_same(2) [OF g'(1)] t(2)] True show ?thesis
      by (simp add: split_on_snoc butlast_append payloads_append flip: payloads_append)
  qed
qed


lemma finish_tells:
  assumes "stream_parser_feed env x stream_parser_start = (0, sp)" and "stream_parser_finish env sp = (0, sp')"
  shows "\<exists>es. map (event_says env) (payloads (split_on LF x)) = map Some es \<and>
    or_empty (r_content (sp_resp sp')) = transcript_of False (concat (map fst es)) \<and>
    concat (sp_chunks sp') = (if on_chunk env then or_empty (r_content (sp_resp sp')) else []) \<and>
    r_tool_calls (sp_resp sp') = calls_said (concat (map snd es)) \<and>
    r_thinking (sp_resp sp') = None \<and> r_phase (sp_resp sp') = None \<and> r_provider_state (sp_resp sp') = None"
proof -
  from feed_tells [OF assms(1)] obtain ts cs where t: "tells env ts cs sp"
      "says_all env (payloads (butlast (split_on LF x))) ts cs" "sp_line sp = last (split_on LF x)"
    by blast
  from assms(2) obtain s where
      s: "(if sp_line sp \<noteq> [] then stream_line env (last_line_text (sp_line sp)) (sp\<lparr>sp_line := []\<rparr>)
           else (0, sp)) = (0, s)"
    and c: "close_thinking env s = (0, sp')"
    by (auto simp: stream_parser_finish_def and_then_ok)
  have sp: "payloads (split_on LF x) = payloads (butlast (split_on LF x)) @ payloads [sp_line sp]"
    using t(3) by (simp flip: payloads_append)
  have "\<exists>ts1 cs1. tells env ts1 cs1 s \<and> says_all env (payloads (split_on LF x)) ts1 cs1"
  proof (cases "sp_line sp = []")
    case True
    then have "payloads [sp_line sp] = []" by (simp add: payloads_def strip_cr_def cstr_def)
    with sp s t True show ?thesis by auto
  next
    case False
    with s have "stream_line env (cstr (strip_cr (sp_line sp))) (sp\<lparr>sp_line := []\<rparr>) = (0, s)"
      by (simp add: last_line_strip)
    from line_tells [OF this tells_same(2) [OF t(1)] t(2)] sp show ?thesis by auto
  qed
  then obtain ts1 cs1 where t1: "tells env ts1 cs1 s" "says_all env (payloads (split_on LF x)) ts1 cs1" by blast
  from t1(1) have "transcript_of False ts1 =
      or_empty (r_content (sp_resp s)) @ (if sp_thinking_open s then think_close_tag else [])"
    unfolding tells_def by (metis append_Nil2 transcript_of.simps(1))
  with close_tells [OF c t1(1)] t1(2) show ?thesis by (auto simp: says_all_def)
qed

lemma stream_sound:
  assumes "chat_stream_request env pieces status transfer_ok = (Some r, chunks)"
  shows "\<exists>es. map (event_says env) (payloads (split_on LF (concat pieces))) = map Some es \<and>
    r = llm_response_create\<lparr>r_content := Some (transcript_of False (concat (map fst es))),
                            r_tool_calls := calls_said (concat (map snd es))\<rparr> \<and>
    concat chunks = (if on_chunk env then transcript_of False (concat (map fst es)) else []) \<and>
    (\<forall>pieces'. concat pieces' = concat pieces \<longrightarrow>
       chat_stream_request env pieces' status transfer_ok = (Some r, chunks))"
proof -
  from assms have ok: "ok_status status" "transfer_ok"
    by (auto simp: chat_stream_request_def split: prod.splits if_splits)
  have again: "concat pieces' = concat pieces \<Longrightarrow>
      chat_stream_request env pieces' status transfer_ok = (Some r, chunks)" for pieces'
    using assms ok by (simp add: chat_stream_request_def deliver_concat)
  from assms ok obtain sp sp' where sp: "stream_parser_feed env (concat pieces) stream_parser_start = (0, sp)"
      "stream_parser_finish env sp = (0, sp')" "r = with_content (sp_resp sp')" "chunks = sp_chunks sp'"
    by (auto simp: chat_stream_request_def deliver_concat split: prod.splits if_splits)
  have r: "r_content r = Some (or_empty (r_content (sp_resp sp')))"
    by (auto simp: sp with_content_def split: option.splits)
  have "r_tool_calls r = r_tool_calls (sp_resp sp') \<and> r_thinking r = r_thinking (sp_resp sp') \<and>
      r_phase r = r_phase (sp_resp sp') \<and> r_provider_state r = r_provider_state (sp_resp sp')"
    by (auto simp: sp with_content_def split: option.splits)
  with finish_tells [OF sp(1,2)] r sp(4) again show ?thesis
    by (auto simp: llm_response_create_def intro!: llm_response.equality)
qed

text \<open>
  C4: what a streamed request returns depends on the bytes received alone, not on how the network
  cut them: it is the reading of the whole stream. The content is the thoughts and answers of the
  events in order, every run of thoughts between one pair of tags, the last one closed also when
  the stream ends in it; each call has its texts joined by index; and the texts handed to the
  callback, one after the other, are the content.
\<close>

theorem stream_reads_events:
  assumes "chat_stream_request env pieces status transfer_ok = (Some r, chunks)"
  shows "\<exists>es. map (event_says env) (payloads (split_on LF (concat pieces))) = map Some es \<and>
    r = llm_response_create\<lparr>r_content := Some (transcript_of False (concat (map fst es))),
                            r_tool_calls := calls_said (concat (map snd es))\<rparr> \<and>
    concat chunks = (if on_chunk env then transcript_of False (concat (map fst es)) else []) \<and>
    (\<forall>pieces'. concat pieces' = concat pieces \<longrightarrow>
       chat_stream_request env pieces' status transfer_ok = (Some r, chunks))"
  by (rule stream_sound [OF assms])

section \<open>The buffered answer\<close>

definition parse_call :: "('j, 'x) cjson_scheme \<Rightarrow> 'j \<Rightarrow> tool_call" where
  "parse_call cj tc =
     (case j_get cj tc ''function'' of
        None \<Rightarrow> null_call
      | Some fn \<Rightarrow>
          null_call
            \<lparr>tc_id := Some (or_empty (string_of cj (j_get cj tc ''id''))),
             tc_name := Some (or_empty (string_of cj (j_get cj fn ''name''))),
             tc_arguments :=
               (case j_get cj fn ''arguments'' of
                  None \<Rightarrow> Some ''''
                | Some args \<Rightarrow>
                    (case string_of cj (Some args) of
                       Some t \<Rightarrow> Some t
                     | None \<Rightarrow> Some (or_empty (j_print cj args))))\<rparr>)"

definition response_message :: "('j, 'x) cjson_scheme \<Rightarrow> string \<Rightarrow> 'j option" where
  "response_message cj raw =
     (case first_item cj (member cj (j_parse cj raw) ''choices'') of
        None \<Rightarrow> None
      | Some choice \<Rightarrow>
          (case j_get cj choice ''message'' of Some m \<Rightarrow> Some m | None \<Rightarrow> j_get cj choice ''delta''))"

definition parse_response :: "('j, 'x) cjson_scheme \<Rightarrow> string \<Rightarrow> llm_response option" where
  "parse_response cj raw =
     (case response_message cj raw of
        None \<Rightarrow> None
      | Some m \<Rightarrow>
          let body = string_of cj (j_get cj m ''content'');
              think = string_of cj (reasoning_of cj (Some m));
              resp = (if think \<noteq> None \<and> think \<noteq> Some []
                      then llm_response_create
                             \<lparr>r_thinking := think,
                              r_content := Some (''<think>'' @ [LF] @ or_empty think @ [LF] @ ''</think>''
                                                 @ [LF, LF] @ or_empty body)\<rparr>
                      else llm_response_create\<lparr>r_content := body\<rparr>)
          in Some (resp\<lparr>r_tool_calls := map (parse_call cj) (items_of cj (j_get cj m ''tool_calls''))\<rparr>))"

section \<open>The request\<close>

definition chat_path :: string where "chat_path = ''/chat/completions''"

definition build_url :: "string \<Rightarrow> string" where
  "build_url base_url =
     (if length base_url \<ge> length chat_path \<and> drop (length base_url - length chat_path) base_url = chat_path
      then base_url
      else if length base_url \<ge> 3 \<and> drop (length base_url - 3) base_url = ''/v1''
      then base_url @ ''/chat/completions''
      else base_url @ ''/v1/chat/completions'')"

definition call_json :: "('j, 'x) cjson_scheme \<Rightarrow> tool_call \<Rightarrow> 'j" where
  "call_json cj c =
     j_object cj
       [(''id'', j_string cj (or_empty (tc_id c))), (''type'', j_string cj ''function''),
        (''function'', j_object cj
           [(''name'', j_string cj (or_empty (tc_name c))),
            (''arguments'', j_string cj (case tc_arguments c of None \<Rightarrow> ''{}'' | Some a \<Rightarrow> a))])]"

definition message_json :: "('j, 'x) cjson_scheme \<Rightarrow> message \<Rightarrow> 'j" where
  "message_json cj m =
     j_object cj
       ([(''role'', j_string cj (case m_role m of None \<Rightarrow> ''user'' | Some r \<Rightarrow> r)),
         (''content'', j_string cj (or_empty (m_content m)))] @
        (if m_tool_calls m \<noteq> [] then [(''tool_calls'', j_array cj (map (call_json cj) (m_tool_calls m)))] else []) @
        (if m_role m = Some ''tool'' then [(''tool_call_id'', j_string cj (or_empty (m_tool_call_id m)))] else []))"

definition build_messages_json :: "('j, 'x) cjson_scheme \<Rightarrow> message list \<Rightarrow> cptr \<Rightarrow> cptr" where
  "build_messages_json cj msgs system_prompt =
     j_print cj (j_array cj
       ((if or_empty system_prompt \<noteq> []
         then [j_object cj [(''role'', j_string cj ''system''), (''content'', j_string cj (or_empty system_prompt))]]
         else []) @ map (message_json cj) msgs))"

definition reasoning_effort_valid :: "cptr \<Rightarrow> bool" where
  "reasoning_effort_valid effort \<longleftrightarrow>
     or_empty effort = [] \<or>
     or_empty effort \<in> {''low'', ''medium'', ''high'', ''max'', ''none''}"

definition reasoning_effort_fragment :: "cptr \<Rightarrow> string option" where
  "reasoning_effort_fragment effort =
     (if or_empty effort = [] then Some ''''
      else if \<not> reasoning_effort_valid effort then None
      else let t = [DQUOTE] @ ''reasoning_effort'' @ [DQUOTE] @ '':'' @ [DQUOTE] @ or_empty effort @ [DQUOTE] @ '',''
           in if length t \<ge> 64 then None else Some t)"

text \<open>\<open>%.2f\<close>: to nearest, a tie to the even digit.\<close>

definition nearest_even :: "rat \<Rightarrow> int" where
  "nearest_even y =
     (let f = floor y; d = y - of_int f
      in if d < 1 / 2 then f else if d > 1 / 2 then f + 1 else if even f then f else f + 1)"

definition fixed2 :: "rat \<Rightarrow> string" where
  "fixed2 x =
     (let n = nat (nearest_even (abs x * 100))
      in (if x < 0 then ''-'' else []) @ dec_nat (n div 100) @ ''.'' @ dec_nat (n div 10 mod 10) @ dec_nat (n mod 10))"

definition quote_json :: "string \<Rightarrow> string" where
  "quote_json s = [DQUOTE] @ s @ [DQUOTE]"

definition build_body ::
  "string \<Rightarrow> string \<Rightarrow> bool \<Rightarrow> rat \<Rightarrow> cptr \<Rightarrow> cptr \<Rightarrow> bool \<Rightarrow> cptr \<Rightarrow> string option" where
  "build_body model msgs_json streaming temperature tools_json json_schema force_json_format effort =
     (case reasoning_effort_fragment effort of
        None \<Rightarrow> None
      | Some frag \<Rightarrow>
          let start = ''{'' @ quote_json ''model'' @ '':'' @ quote_json model @ '','' @
                quote_json ''messages'' @ '':'' @ msgs_json @ '','' @ quote_json ''stream'' @ '':'';
              stream_str = (if streaming then ''true'' else ''false'');
              tail = '','' @ frag @ quote_json ''temperature'' @ '':'' @ fixed2 temperature
          in if or_empty tools_json \<noteq> []
             then Some (start @ stream_str @ tail @ '','' @ quote_json ''tools'' @ '':'' @ or_empty tools_json @ ''}'')
             else if or_empty json_schema \<noteq> []
             then Some (start @ ''false'' @ tail @ '','' @ quote_json ''response_format'' @ '':{'' @
                    quote_json ''type'' @ '':'' @ quote_json ''json_schema'' @ '','' @
                    quote_json ''json_schema'' @ '':{'' @ quote_json ''schema'' @ '':'' @ or_empty json_schema @
                    '','' @ quote_json ''strict'' @ '':true}}}'')
             else if force_json_format
             then Some (start @ ''false'' @ tail @ '','' @ quote_json ''response_format'' @ '':{'' @
                    quote_json ''type'' @ '':'' @ quote_json ''json_object'' @ ''}}'')
             else Some (start @ stream_str @ tail @ ''}''))"

record http_request =
  q_url :: string
  q_headers :: "string list"
  q_body :: string
  q_timeout :: int

definition chat_request_setup :: "string \<Rightarrow> cptr \<Rightarrow> string \<Rightarrow> int \<Rightarrow> http_request" where
  "chat_request_setup base_url api_token json_body timeout =
     \<lparr>q_url = build_url base_url,
      q_headers = [''Content-Type: application/json''] @
        (if or_empty api_token \<noteq> [] then [''Authorization: Bearer '' @ or_empty api_token] else []),
      q_body = json_body, q_timeout = timeout\<rparr>"

text \<open>The transfer answers with the pieces of the body, the status and whether it succeeded.\<close>

type_synonym transfer = "http_request \<Rightarrow> string list \<times> int \<times> bool"

definition chat_request :: "transfer \<Rightarrow> http_request \<Rightarrow> cptr" where
  "chat_request net req =
     (case net req of (pieces, status, transfer_ok) \<Rightarrow>
        if \<not> transfer_ok \<or> \<not> ok_status status \<or> pieces = [] then None else Some (cstr (concat pieces)))"

record compat_ctx =
  base_url :: string
  api_token :: cptr
  effort :: cptr

definition provider_create :: "cptr \<Rightarrow> cptr \<Rightarrow> cptr \<Rightarrow> compat_ctx option" where
  "provider_create url token eff =
     (if eff \<noteq> None \<and> \<not> reasoning_effort_valid eff then None
      else Some \<lparr>base_url = (case url of None \<Rightarrow> ''https://api.openai.com'' | Some u \<Rightarrow> u),
                 api_token = (if or_empty token \<noteq> [] then token else None),
                 effort = (if or_empty eff \<noteq> [] then eff else None)\<rparr>)"

definition openai_compatible_chat ::
  "('j, 'x) cjson_scheme \<Rightarrow> transfer \<Rightarrow> compat_ctx \<Rightarrow> message list \<Rightarrow> string \<Rightarrow> rat \<Rightarrow> int \<Rightarrow> cptr
     \<Rightarrow> llm_response option" where
  "openai_compatible_chat cj net ctx msgs model temperature timeout tools_json =
     (case build_messages_json cj msgs None of None \<Rightarrow> None
      | Some mj \<Rightarrow>
     (case build_body model mj False temperature tools_json None False (effort ctx) of None \<Rightarrow> None
      | Some body \<Rightarrow>
     (case chat_request net (chat_request_setup (base_url ctx) (api_token ctx) body timeout) of None \<Rightarrow> None
      | Some raw \<Rightarrow> parse_response cj raw)))"

definition openai_compatible_chat_streaming ::
  "'j stream_env \<Rightarrow> transfer \<Rightarrow> compat_ctx \<Rightarrow> message list \<Rightarrow> string \<Rightarrow> rat \<Rightarrow> int \<Rightarrow> cptr
     \<Rightarrow> llm_response option \<times> string list" where
  "openai_compatible_chat_streaming env net ctx msgs model temperature timeout tools_json =
     (case build_messages_json env msgs None of None \<Rightarrow> (None, [])
      | Some mj \<Rightarrow>
     (case build_body model mj True temperature tools_json None False (effort ctx) of None \<Rightarrow> (None, [])
      | Some body \<Rightarrow>
     (case net (chat_request_setup (base_url ctx) (api_token ctx) body timeout) of
        (pieces, status, transfer_ok) \<Rightarrow> chat_stream_request env pieces status transfer_ok)))"

definition openai_compatible_extract_structured ::
  "('j, 'x) cjson_scheme \<Rightarrow> transfer \<Rightarrow> compat_ctx \<Rightarrow> message list \<Rightarrow> string \<Rightarrow> rat \<Rightarrow> int \<Rightarrow> cptr
     \<Rightarrow> llm_response option" where
  "openai_compatible_extract_structured cj net ctx msgs model temperature timeout json_schema =
     (case build_messages_json cj msgs None of None \<Rightarrow> None
      | Some mj \<Rightarrow>
     (case build_body model mj False temperature None json_schema True (effort ctx) of None \<Rightarrow> None
      | Some body \<Rightarrow>
     (case chat_request net (chat_request_setup (base_url ctx) (api_token ctx) body timeout) of None \<Rightarrow> None
      | Some raw \<Rightarrow> parse_response cj raw)))"

section \<open>Streamed and buffered\<close>

lemma transcript_thoughts:
  "transcript_of th (map Thought rs @ ts) =
     (if rs = [] then transcript_of th ts
      else (if th then [] else think_open_tag) @ concat rs @ transcript_of True ts)"
  by (induction rs arbitrary: th) auto

lemma transcript_said: "transcript_of False (map Said cs) = concat cs"
  by (induction cs) auto

lemma transcript_thought_then_said:
  "transcript_of False (map Thought rs @ map Said cs) =
     (if rs = [] then concat cs else think_open_tag @ concat rs @ think_close_tag @ concat cs)"
  using transcript_thoughts [of False rs "[]"]
  by (cases cs) (auto simp: transcript_thoughts transcript_said)

text \<open>An item of a call that is complete in itself: every part is there, and is a string.\<close>

definition whole_call :: "('j, 'x) cjson_scheme \<Rightarrow> 'j \<Rightarrow> bool" where
  "whole_call cj item \<longleftrightarrow>
     j_get cj item ''function'' \<noteq> None \<and> cd_id (call_delta_of cj item) \<noteq> None \<and>
     cd_name (call_delta_of cj item) \<noteq> None \<and> cd_arguments (call_delta_of cj item) \<noteq> None"

lemma parse_whole_call:
  assumes "whole_call cj item"
  shows "parse_call cj item = null_call
    \<lparr>tc_id := cd_id (call_delta_of cj item), tc_name := cd_name (call_delta_of cj item),
     tc_arguments := cd_arguments (call_delta_of cj item)\<rparr>"
proof -
  from assms obtain fn where fn: "j_get cj item ''function'' = Some fn" by (auto simp: whole_call_def)
  with assms obtain args where a: "j_get cj fn ''arguments'' = Some args"
    by (auto simp: whole_call_def call_delta_of_def member_def string_of_def split: option.splits)
  with fn assms show ?thesis
    by (auto simp: whole_call_def call_delta_of_def parse_call_def member_def)
qed

text \<open>
  The fragments of the calls in a stream make up complete calls: as many as the highest index says,
  and the ids, the names and the arguments of the fragments with one index, put together in the
  order in which they came, are those of the call.
\<close>

definition make_up :: "('j, 'x) cjson_scheme \<Rightarrow> call_delta list \<Rightarrow> 'j list \<Rightarrow> bool" where
  "make_up cj ds items \<longleftrightarrow> call_total ds = length items \<and>
     (\<forall>k < length items.
        joined (map cd_id (at_index k ds)) = cd_id (call_delta_of cj (items ! k)) \<and>
        joined (map cd_name (at_index k ds)) = cd_name (call_delta_of cj (items ! k)) \<and>
        joined (map cd_arguments (at_index k ds)) = cd_arguments (call_delta_of cj (items ! k)))"

lemma calls_said_whole:
  assumes "list_all (whole_call cj) items" and "make_up cj ds items"
  shows "calls_said ds = map (parse_call cj) items"
proof (rule nth_equalityI)
  show len: "length (calls_said ds) = length (map (parse_call cj) items)"
    using assms(2) by (simp add: make_up_def)
  fix k assume "k < length (calls_said ds)"
  then have k: "k < length items" using len by simp
  with assms(1) have w: "whole_call cj (items ! k)" by (simp add: list_all_length)
  have "calls_said ds ! k = call_said ds k" using assms(2) k by (simp add: calls_said_def make_up_def)
  then show "calls_said ds ! k = map (parse_call cj) items ! k"
    using assms(2) k parse_whole_call [OF w] by (simp add: call_said_def make_up_def)
qed

text \<open>
  C5: an answer that is streamed is the answer that would have come in one piece. When the events
  of a stream bring thoughts, then text, and fragments of tool calls in any cut, and a server without
  streaming sends one message with the same thoughts, the same text (or none, as a string or as
  null) and the calls that the fragments make up, each with its id, name and arguments as strings, then
  both ways give the agent the same calls and the same text. One difference remains: an answer
  with neither thoughts nor a text is an empty string when it is streamed, and NULL when the buffered
  message has no text.
\<close>

theorem streamed_as_buffered:
  assumes "chat_stream_request env pieces status transfer_ok = (Some r, chunks)"
    and "map (event_says env) (payloads (split_on LF (concat pieces))) = map Some es"
    and "concat (map fst es) = map Thought rs @ map Said cs"
    and "make_up env (concat (map snd es)) items" and "list_all (whole_call env) items"
    and "response_message env raw = Some m"
    and "or_empty (string_of env (reasoning_of env (Some m))) = concat rs"
    and "or_empty (string_of env (j_get env m ''content'')) = concat cs"
    and "items_of env (j_get env m ''tool_calls'') = items"
    and "[] \<notin> set rs"
  shows "\<exists>r'. parse_response env raw = Some r' \<and> r_tool_calls r = r_tool_calls r' \<and>
    r_content r \<noteq> None \<and> or_empty (r_content r) = or_empty (r_content r') \<and>
    (r_content r' = None \<longleftrightarrow> rs = [] \<and> string_of env (j_get env m ''content'') = None)"
proof -
  from stream_sound [OF assms(1)] obtain es' where
      es': "map (event_says env) (payloads (split_on LF (concat pieces))) = map Some es'"
    and r: "r = llm_response_create\<lparr>r_content := Some (transcript_of False (concat (map fst es'))),
                            r_tool_calls := calls_said (concat (map snd es'))\<rparr>" by blast
  have "es' = es" using es' assms(2) by (metis list.inj_map_strong option.inject)
  with r assms(3) have c: "r_content r = Some (transcript_of False (map Thought rs @ map Said cs))"
    "r_tool_calls r = calls_said (concat (map snd es))" by auto
  have e: "string_of env (reasoning_of env (Some m)) \<noteq> None \<and> string_of env (reasoning_of env (Some m)) \<noteq> Some []
      \<longleftrightarrow> concat rs \<noteq> []"
    using assms(7) by (cases "string_of env (reasoning_of env (Some m))") auto
  have "concat rs = [] \<longleftrightarrow> rs = []" using assms(10) by (cases rs) auto
  with c e assms(6-9) calls_said_whole [OF assms(5,4)] show ?thesis
    by (auto simp: parse_response_def Let_def transcript_thought_then_said think_open_tag_def think_close_tag_def
        or_empty_def split: option.split)
qed

text \<open>The address ends with the path of the interface, whichever form it is configured in.\<close>

lemma build_url_idem: "build_url (build_url b) = build_url b"
  by (simp add: build_url_def chat_path_def)


section \<open>An example\<close>

definition event_doc :: "(string \<times> doc) list \<Rightarrow> doc" where
  "event_doc ms = DObject [(''choices'', DArray [DObject [(''delta'', DObject ms)]])]"

definition sample_call :: doc where
  "sample_call = DObject [(''index'', DNumber 0), (''id'', DText ''c1''),
     (''function'', DObject [(''name'', DText ''ls''), (''arguments'', DText ''{}'')])]"

definition sample_docs :: "(string \<times> doc) list" where
  "sample_docs =
     [(''1'', event_doc [(''reasoning'', DText ''hm'')]), (''2'', event_doc [(''reasoning_content'', DText ''!'')]),
      (''3'', event_doc [(''content'', DText ''Hi''), (''tool_calls'', DArray [sample_call])]),
      (''4'', DObject [(''choices'', DArray [DObject [(''message'', DObject
                [(''reasoning'', DText ''hm!''), (''content'', DText ''Hi''), (''tool_calls'', DArray [sample_call])])]])])]"

definition sample_env :: "doc stream_env" where
  "sample_env = cjson.extend (doc_json sample_docs) (stream_env.fields (\<lambda>n. False) True)"

definition sample_stream :: "string list" where
  "sample_stream = [''data: 1'' @ [CR], [LF] @ ''data'', '': 2'' @ [LF, LF] @ ''data: 3'', [LF], ''data: [DONE]'' @ [LF]]"

definition sample_response :: llm_response where
  "sample_response = llm_response_create
     \<lparr>r_content := Some (think_open_tag @ ''hm!'' @ think_close_tag @ ''Hi''),
      r_tool_calls := [null_call\<lparr>tc_id := Some ''c1'', tc_name := Some ''ls'', tc_arguments := Some ''{}''\<rparr>]\<rparr>"

lemma sample_cj:
  "j_parse sample_env = map_of sample_docs" "j_get sample_env = doc_get"
  "j_text sample_env d = (case d of DText t \<Rightarrow> Some t | _ \<Rightarrow> None)"
  "j_items sample_env d = (case d of DArray ds \<Rightarrow> Some ds | _ \<Rightarrow> None)"
  "j_int sample_env d = (case d of DNumber x \<Rightarrow> Some (floor x) | _ \<Rightarrow> None)"
  "alloc_fails sample_env n = False" "on_chunk sample_env"
  by (simp_all add: sample_env_def doc_json_def cjson.defs stream_env.defs)

lemmas sample_eval =
  sample_cj sample_docs_def event_doc_def sample_call_def doc_get_def parse_stream_event_def member_def
  first_item_def items_of_def reasoning_of_def string_of_def forward_reasoning_delta_def forward_content_def
  close_thinking_def say_def tell_def append_content_def set_thinking_def str_append_def SIZE_MAX_def
  cstr_def Let_def fold_call_def call_index_def ensure_tool_call_def append_field_def null_call_def sizeof_ToolCall_def
  think_open_tag_def think_close_tag_def

lemmas stream_eval =
  sample_eval feed_byte_def grow_line_def stream_parser_start_def llm_response_create_def stream_line_def
  line_text_def last_line_text_def stream_parser_finish_def with_content_def ok_status_def

lemma sample_streamed:
  "chat_stream_request sample_env sample_stream 200 True =
     (Some sample_response, [think_open_tag, ''hm'', ''!'', think_close_tag, ''Hi''])"
  by (simp add: stream_eval chat_stream_request_def sample_stream_def live_write_cb_def sample_response_def)

lemma sample_payloads: "payloads (split_on LF (concat sample_stream)) = [''1'', ''2'', ''3'']"
  by (simp add: payloads_def sample_stream_def strip_cr_def cstr_def)

lemma sample_says:
  "map (event_says sample_env) [''1'', ''2'', ''3''] =
     map Some [([Thought ''hm''], []), ([Thought ''!''], []),
               ([Said ''Hi''], [call_delta_of sample_env sample_call])]"
  by (simp add: event_says_def sample_eval tokens_of_def)

theorem stream_reads_events_witness:
  "\<exists>es. map (event_says sample_env) (payloads (split_on LF (concat sample_stream))) = map Some es \<and>
     sample_response = llm_response_create\<lparr>r_content := Some (transcript_of False (concat (map fst es))),
                            r_tool_calls := calls_said (concat (map snd es))\<rparr> \<and>
     chat_stream_request sample_env [concat sample_stream] 200 True =
       (Some sample_response, [think_open_tag, ''hm'', ''!'', think_close_tag, ''Hi''])"
proof -
  from stream_reads_events [OF sample_streamed]
  obtain es where es: "map (event_says sample_env) (payloads (split_on LF (concat sample_stream))) = map Some es"
      "sample_response = llm_response_create\<lparr>r_content := Some (transcript_of False (concat (map fst es))),
                            r_tool_calls := calls_said (concat (map snd es))\<rparr>"
    and again: "\<forall>pieces'. concat pieces' = concat sample_stream \<longrightarrow>
       chat_stream_request sample_env pieces' 200 True =
         (Some sample_response, [think_open_tag, ''hm'', ''!'', think_close_tag, ''Hi''])" by blast
  from again have "chat_stream_request sample_env [concat sample_stream] 200 True =
       (Some sample_response, [think_open_tag, ''hm'', ''!'', think_close_tag, ''Hi''])" by simp
  with es show ?thesis by blast
qed

text \<open>A call in two fragments, without text, and the same call in one message whose content is null.\<close>

definition call_docs :: "(string \<times> doc) list" where
  "call_docs =
     [(''1'', event_doc [(''tool_calls'', DArray [DObject [(''index'', DNumber 0), (''id'', DText ''c1''),
                (''function'', DObject [(''name'', DText ''ls''), (''arguments'', DText ''{'')])]])]),
      (''2'', event_doc [(''tool_calls'', DArray [DObject [(''index'', DNumber 0),
                (''function'', DObject [(''arguments'', DText ''}'')])]])]),
      (''3'', DObject [(''choices'', DArray [DObject [(''message'', DObject
                [(''tool_calls'', DArray [sample_call])])]])])]"

definition call_env :: "doc stream_env" where
  "call_env = cjson.extend (doc_json call_docs) (stream_env.fields (\<lambda>n. False) True)"

definition call_stream :: "string list" where
  "call_stream = [''data: 1'' @ [LF] @ ''da'', ''ta: 2'' @ [CR, LF], ''data: [DONE]'' @ [LF]]"

definition call_response :: llm_response where
  "call_response = llm_response_create
     \<lparr>r_content := Some [],
      r_tool_calls := [null_call\<lparr>tc_id := Some ''c1'', tc_name := Some ''ls'', tc_arguments := Some ''{}''\<rparr>]\<rparr>"

lemma call_cj:
  "j_parse call_env = map_of call_docs" "j_get call_env = doc_get"
  "j_text call_env d = (case d of DText t \<Rightarrow> Some t | _ \<Rightarrow> None)"
  "j_items call_env d = (case d of DArray ds \<Rightarrow> Some ds | _ \<Rightarrow> None)"
  "j_int call_env d = (case d of DNumber x \<Rightarrow> Some (floor x) | _ \<Rightarrow> None)"
  "alloc_fails call_env n = False" "on_chunk call_env"
  by (simp_all add: call_env_def doc_json_def cjson.defs stream_env.defs)

lemma call_streamed: "chat_stream_request call_env call_stream 200 True = (Some call_response, [])"
  by (simp add: stream_eval call_cj call_docs_def chat_stream_request_def call_stream_def live_write_cb_def call_response_def)

lemma call_payloads: "payloads (split_on LF (concat call_stream)) = [''1'', ''2'']"
  by (simp add: payloads_def call_stream_def strip_cr_def cstr_def)

definition call_deltas :: "call_delta list" where
  "call_deltas =
     [\<lparr>cd_index = 0, cd_id = Some ''c1'', cd_name = Some ''ls'', cd_arguments = Some ''{''\<rparr>,
      \<lparr>cd_index = 0, cd_id = None, cd_name = None, cd_arguments = Some ''}''\<rparr>]"

lemma call_says:
  "map (event_says call_env) [''1'', ''2''] = map Some [([], [call_deltas ! 0]), ([], [call_deltas ! 1])]"
  by (simp add: event_says_def sample_eval call_cj call_docs_def tokens_of_def call_delta_of_def call_deltas_def)

definition call_message :: doc where
  "call_message = DObject [(''tool_calls'', DArray [sample_call])]"

lemma call_delta_sample:
  "call_delta_of call_env sample_call = \<lparr>cd_index = 0, cd_id = Some ''c1'', cd_name = Some ''ls'', cd_arguments = Some ''{}''\<rparr>"
  by (simp add: call_delta_of_def sample_eval call_cj)

theorem streamed_as_buffered_witness:
  "\<exists>r'. parse_response call_env ''3'' = Some r' \<and> r_tool_calls call_response = r_tool_calls r' \<and>
     r_content call_response \<noteq> None \<and> or_empty (r_content call_response) = or_empty (r_content r') \<and>
     (r_content r' = None \<longleftrightarrow> ([] :: string list) = [] \<and> string_of call_env (j_get call_env call_message ''content'') = None)"
proof (rule streamed_as_buffered)
  show "chat_stream_request call_env call_stream 200 True = (Some call_response, [])" by (rule call_streamed)
  show "map (event_says call_env) (payloads (split_on LF (concat call_stream))) =
     map Some [([], [call_deltas ! 0]), ([], [call_deltas ! 1])]"
    unfolding call_payloads by (rule call_says)
  show "concat (map fst [([], [call_deltas ! 0]), ([], [call_deltas ! 1])]) = map Thought [] @ map Said []" by simp
  show "make_up call_env (concat (map snd [([] :: token list, [call_deltas ! 0]), ([], [call_deltas ! 1])])) [sample_call]"
    by (simp add: make_up_def call_deltas_def call_total_def at_index_def joined_def call_delta_sample or_empty_def)
  show "list_all (whole_call call_env) [sample_call]"
    by (simp add: whole_call_def call_delta_sample) (simp add: sample_eval call_cj)
  show "response_message call_env ''3'' = Some call_message"
    by (simp add: response_message_def sample_eval call_cj call_docs_def call_message_def)
  show "or_empty (string_of call_env (reasoning_of call_env (Some call_message))) = concat []"
    by (simp add: call_message_def sample_eval call_cj or_empty_def)
  show "or_empty (string_of call_env (j_get call_env call_message ''content'')) = concat []"
    by (simp add: call_message_def sample_eval call_cj or_empty_def)
  show "items_of call_env (j_get call_env call_message ''tool_calls'') = [sample_call]"
    by (simp add: call_message_def sample_eval call_cj)
qed simp

section \<open>What the code does not promise\<close>

text \<open>The thought of a streamed answer is not in the response's own field, as it is when buffered.\<close>

lemma streamed_thinking_missing:
  "map_option r_thinking (fst (chat_stream_request sample_env sample_stream 200 True)) = Some None"
  "map_option r_thinking (parse_response sample_env ''4'') = Some (Some ''hm!'')"
  by (simp add: sample_streamed sample_response_def llm_response_create_def)
     (simp add: parse_response_def response_message_def sample_eval llm_response_create_def)

text \<open>The index that a server sends decides how many calls there are, up to two thousand million.\<close>

lemma one_delta_many_calls:
  "0 \<le> i \<Longrightarrow> i < 2 ^ 31 \<Longrightarrow> \<not> alloc_fails env (sp_allocs sp) \<Longrightarrow> r_tool_calls (sp_resp sp) = [] \<Longrightarrow>
     \<exists>s. ensure_tool_call env i sp = (0, s) \<and> length (r_tool_calls (sp_resp s)) = nat i + 1"
  by (auto simp: ensure_tool_call_def Let_def SIZE_MAX_def sizeof_ToolCall_def)

text \<open>The model's name is put into the body as it is: a quote in it opens another member.\<close>

lemma model_not_escaped:
  "\<exists>rest. build_body (''m'' @ [DQUOTE] @ '','' @ [DQUOTE] @ ''x'') msgs False 0 None None False None =
     Some (''{'' @ quote_json ''model'' @ '':'' @ quote_json ''m'' @ '','' @ quote_json ''x'' @ rest)"
  by (simp add: build_body_def reasoning_effort_fragment_def quote_json_def Let_def)

text \<open>A base address that ends with a slash gets a double one.\<close>

lemma trailing_slash_doubled:
  "build_url ''https://host/v1/'' = ''https://host/v1//v1/chat/completions''"
  by (simp add: build_url_def chat_path_def)

end
