(* ===== verification/SessionMessages.thy ===== *)
theory SessionMessages
  imports ContextWindow CJson
begin

text \<open>
  Messages and their stored form: copies (\<open>agent/message.c\<close>), the JSON in which a session's
  messages are written (\<open>messages_to_json_array\<close>) and the reading back of it
  (\<open>session/session.c\<close>). Copies may fail at any allocation; in the JSON functions
  allocations are assumed to succeed.
\<close>

section \<open>Copies\<close>

definition dup :: "(nat \<Rightarrow> bool) \<Rightarrow> nat \<Rightarrow> cptr \<Rightarrow> cptr" where
  "dup fails n p = (if p = None \<or> fails n then None else p)"

text \<open>\<open>src->f && !dst->f\<close> for one of the fields.\<close>

definition lost :: "('m \<Rightarrow> cptr) list \<Rightarrow> 'm \<Rightarrow> 'm \<Rightarrow> bool" where
  "lost fs src dst \<longleftrightarrow> list_ex (\<lambda>f. f src \<noteq> None \<and> f dst = None) fs"

definition copy_call :: "(nat \<Rightarrow> bool) \<Rightarrow> nat \<Rightarrow> tool_call \<Rightarrow> tool_call option" where
  "copy_call fails n c =
     (let d = \<lparr>tc_id = dup fails n (tc_id c), tc_name = dup fails (n + 1) (tc_name c),
               tc_arguments = dup fails (n + 2) (tc_arguments c),
               tc_result_content = dup fails (n + 3) (tc_result_content c),
               tc_result_error = dup fails (n + 4) (tc_result_error c)\<rparr>
      in if lost [tc_id, tc_name, tc_arguments, tc_result_content, tc_result_error] c d then None else Some d)"

fun copy_calls :: "(nat \<Rightarrow> bool) \<Rightarrow> nat \<Rightarrow> tool_call list \<Rightarrow> tool_call list option" where
  "copy_calls fails n [] = Some []"
| "copy_calls fails n (c # cs) =
     (case copy_call fails n c of None \<Rightarrow> None
      | Some d \<Rightarrow> (case copy_calls fails (n + 5) cs of None \<Rightarrow> None | Some ds \<Rightarrow> Some (d # ds)))"

definition message_copy :: "(nat \<Rightarrow> bool) \<Rightarrow> message \<Rightarrow> message option" where
  "message_copy fails src =
     (let d = \<lparr>m_role = dup fails 0 (m_role src), m_content = dup fails 1 (m_content src),
               m_id = dup fails 2 (m_id src), m_parent_id = dup fails 3 (m_parent_id src),
               m_fork_group_id = dup fails 4 (m_fork_group_id src), m_tool_calls = [],
               m_tool_call_id = dup fails 5 (m_tool_call_id src), m_tool_name = dup fails 6 (m_tool_name src),
               m_error_category = dup fails 7 (m_error_category src), m_timestamp = m_timestamp src,
               m_thinking = dup fails 8 (m_thinking src), m_phase = dup fails 9 (m_phase src),
               m_provider_state = dup fails 10 (m_provider_state src)\<rparr>
      in if lost [m_role, m_content, m_id, m_parent_id, m_fork_group_id, m_tool_call_id, m_tool_name,
                  m_error_category, m_thinking, m_phase, m_provider_state] src d then None
         else if m_tool_calls src = [] then Some d
         else if fails 11 then None
         else (case copy_calls fails 12 (m_tool_calls src) of None \<Rightarrow> None
               | Some cs \<Rightarrow> Some (d\<lparr>m_tool_calls := cs\<rparr>)))"

definition tool_call_create :: "cptr \<Rightarrow> cptr \<Rightarrow> cptr \<Rightarrow> tool_call option" where
  "tool_call_create cid tname args =
     (if cid = None \<or> tname = None \<or> args = None then None
      else Some \<lparr>tc_id = cid, tc_name = tname, tc_arguments = args, tc_result_content = None,
                 tc_result_error = None\<rparr>)"

section \<open>Writing\<close>

definition arguments_json :: "('j, 'x) cjson_scheme \<Rightarrow> cptr \<Rightarrow> 'j" where
  "arguments_json cj args =
     (case args of None \<Rightarrow> j_string cj ''''
      | Some a \<Rightarrow> (case j_parse cj a of Some d \<Rightarrow> d | None \<Rightarrow> j_string cj a))"

definition saved_call :: "('j, 'x) cjson_scheme \<Rightarrow> tool_call \<Rightarrow> 'j" where
  "saved_call cj c =
     j_object cj (present
       [(''id'', Some (j_string cj (or_empty (tc_id c)))), (''type'', Some (j_string cj ''function'')),
        (''function'', Some (j_object cj (present
           [(''name'', Some (j_string cj (or_empty (tc_name c)))),
            (''arguments'', Some (arguments_json cj (tc_arguments c)))]))),
        (''result_content'', map_option (j_string cj) (tc_result_content c)),
        (''result_error'', map_option (j_string cj) (tc_result_error c))])"

definition saved_message :: "('j, 'x) cjson_scheme \<Rightarrow> message \<Rightarrow> 'j" where
  "saved_message cj m =
     j_object cj (present
       [(''role'', Some (j_string cj (or_empty (m_role m)))),
        (''content'', Some (j_string cj (or_empty (m_content m)))),
        (''thinking'', map_option (j_string cj) (m_thinking m)),
        (''phase'', map_option (j_string cj) (m_phase m)),
        (''provider_state'', map_option (j_string cj) (m_provider_state m)),
        (''tool_name'', map_option (j_string cj) (m_tool_name m)),
        (''error_category'', map_option (j_string cj) (m_error_category m)),
        (''id'', map_option (j_string cj) (m_id m)),
        (''parent_id'', map_option (j_string cj) (m_parent_id m)),
        (''fork_group_id'', map_option (j_string cj) (m_fork_group_id m)),
        (''timestamp'', if m_timestamp m > 0 then Some (j_number cj (m_timestamp m)) else None),
        (''tool_calls'', if m_tool_calls m \<noteq> [] then Some (j_array cj (map (saved_call cj) (m_tool_calls m))) else None),
        (''tool_call_id'', map_option (j_string cj) (m_tool_call_id m))])"

definition messages_to_json_array :: "('j, 'x) cjson_scheme \<Rightarrow> message list \<Rightarrow> 'j" where
  "messages_to_json_array cj msgs = j_array cj (map (saved_message cj) msgs)"

text \<open>The messages of a request, after a system message that may carry a context.\<close>

definition llm_messages_format :: "('j, 'x) cjson_scheme \<Rightarrow> message list \<Rightarrow> cptr \<Rightarrow> cptr \<Rightarrow> cptr" where
  "llm_messages_format cj msgs system_prompt system_context =
     j_print cj (j_array cj
       ((case system_prompt of None \<Rightarrow> []
         | Some p \<Rightarrow>
             [j_object cj
                [(''role'', j_string cj ''system''),
                 (''content'', j_string cj
                    (case system_context of None \<Rightarrow> p | Some c \<Rightarrow> p @ [LF, LF] @ c))]]) @
        map (saved_message cj) msgs))"

definition session_serialize_messages :: "('j, 'x) cjson_scheme \<Rightarrow> message list \<Rightarrow> cptr" where
  "session_serialize_messages cj msgs = j_print cj (messages_to_json_array cj msgs)"

section \<open>Reading\<close>

definition call_of_json :: "('j, 'x) cjson_scheme \<Rightarrow> 'j \<Rightarrow> tool_call" where
  "call_of_json cj tc =
     (let fn = j_get cj tc ''function'' in
      \<lparr>tc_id = string_of cj (j_get cj tc ''id''), tc_name = string_of cj (member cj fn ''name''),
       tc_arguments = (case member cj fn ''arguments'' of None \<Rightarrow> None | Some a \<Rightarrow> j_print cj a),
       tc_result_content = string_of cj (j_get cj tc ''result_content''),
       tc_result_error = string_of cj (j_get cj tc ''result_error'')\<rparr>)"

definition message_of_json :: "('j, 'x) cjson_scheme \<Rightarrow> 'j \<Rightarrow> message" where
  "message_of_json cj item =
     (let field = (\<lambda>k. string_of cj (j_get cj item k)) in
      \<lparr>m_role = Some (or_empty (field ''role'')), m_content = Some (or_empty (field ''content'')),
       m_id = field ''id'', m_parent_id = field ''parent_id'', m_fork_group_id = field ''fork_group_id'',
       m_tool_calls = map (call_of_json cj) (items_of cj (j_get cj item ''tool_calls'')),
       m_tool_call_id = field ''tool_call_id'', m_tool_name = field ''tool_name'',
       m_error_category = field ''error_category'',
       m_timestamp = (case j_get cj item ''timestamp'' of None \<Rightarrow> 0
                      | Some t \<Rightarrow> (case j_double cj t of None \<Rightarrow> 0 | Some x \<Rightarrow> x)),
       m_thinking = field ''thinking'', m_phase = field ''phase'', m_provider_state = field ''provider_state''\<rparr>)"

text \<open>None is the return code -1: the text is not JSON, or not an array.\<close>

definition session_deserialize_messages :: "('j, 'x) cjson_scheme \<Rightarrow> string \<Rightarrow> message list option" where
  "session_deserialize_messages cj t =
     (case j_parse cj t of None \<Rightarrow> None
      | Some arr \<Rightarrow>
          (case j_items cj arr of None \<Rightarrow> None | Some items \<Rightarrow> Some (map (message_of_json cj) items)))"

section \<open>The round trip\<close>

text \<open>What a message is after it has been stored and read again.\<close>

definition reloaded_call :: "('j, 'x) cjson_scheme \<Rightarrow> tool_call \<Rightarrow> tool_call" where
  "reloaded_call cj c =
     \<lparr>tc_id = Some (cstr (or_empty (tc_id c))), tc_name = Some (cstr (or_empty (tc_name c))),
      tc_arguments = j_print cj (arguments_json cj (tc_arguments c)),
      tc_result_content = map_option cstr (tc_result_content c),
      tc_result_error = map_option cstr (tc_result_error c)\<rparr>"

definition reloaded :: "('j, 'x) cjson_scheme \<Rightarrow> message \<Rightarrow> message" where
  "reloaded cj m =
     \<lparr>m_role = Some (cstr (or_empty (m_role m))), m_content = Some (cstr (or_empty (m_content m))),
      m_id = map_option cstr (m_id m), m_parent_id = map_option cstr (m_parent_id m),
      m_fork_group_id = map_option cstr (m_fork_group_id m),
      m_tool_calls = map (reloaded_call cj) (m_tool_calls m),
      m_tool_call_id = map_option cstr (m_tool_call_id m), m_tool_name = map_option cstr (m_tool_name m),
      m_error_category = map_option cstr (m_error_category m),
      m_timestamp = (if m_timestamp m > 0 then m_timestamp m else 0),
      m_thinking = map_option cstr (m_thinking m), m_phase = map_option cstr (m_phase m),
      m_provider_state = map_option cstr (m_provider_state m)\<rparr>"

lemma call_reloads:
  assumes "json_laws cj"
  shows "call_of_json cj (saved_call cj c) = reloaded_call cj c"
  by (simp add: call_of_json_def saved_call_def reloaded_call_def get_present [OF assms] member_def Let_def
       string_of_node [OF assms] del: present.simps)

lemma message_reloads:
  assumes "json_laws cj"
  shows "message_of_json cj (saved_message cj m) = reloaded cj m"
proof -
  let ?calls = "if m_tool_calls m \<noteq> [] then Some (j_array cj (map (saved_call cj) (m_tool_calls m))) else None"
  have "map (call_of_json cj) (items_of cj ?calls) = map (reloaded_call cj) (m_tool_calls m)"
    by (simp add: items_of_def json_nodes [OF assms] call_reloads [OF assms])
  then show ?thesis
    by (simp add: message_of_json_def saved_message_def reloaded_def get_present [OF assms] Let_def
       string_of_node [OF assms] json_nodes [OF assms] del: present.simps)
qed


text \<open>A message that a session stores without a change.\<close>

definition plain :: "cptr \<Rightarrow> bool" where
  "plain p \<longleftrightarrow> NUL \<notin> set (or_empty p)"

definition storable_call :: "('j, 'x) cjson_scheme \<Rightarrow> tool_call \<Rightarrow> bool" where
  "storable_call cj c \<longleftrightarrow>
     tc_id c \<noteq> None \<and> tc_name c \<noteq> None \<and>
     list_all plain [tc_id c, tc_name c, tc_result_content c, tc_result_error c] \<and>
     j_print cj (arguments_json cj (tc_arguments c)) = tc_arguments c"

definition storable :: "('j, 'x) cjson_scheme \<Rightarrow> message \<Rightarrow> bool" where
  "storable cj m \<longleftrightarrow>
     m_role m \<noteq> None \<and> m_content m \<noteq> None \<and> m_timestamp m \<ge> 0 \<and>
     list_all plain [m_role m, m_content m, m_id m, m_parent_id m, m_fork_group_id m, m_tool_call_id m,
       m_tool_name m, m_error_category m, m_thinking m, m_phase m, m_provider_state m] \<and>
     list_all (storable_call cj) (m_tool_calls m)"

lemma plain_text: "plain p \<Longrightarrow> map_option cstr p = p" "plain p \<Longrightarrow> p \<noteq> None \<Longrightarrow> Some (cstr (or_empty p)) = p"
  by (cases p; simp add: plain_def cstr_id)+

lemma reloaded_call_id: "storable_call cj c \<Longrightarrow> reloaded_call cj c = c"
  by (cases c) (simp add: reloaded_call_def storable_call_def plain_text)

lemma reloaded_id:
  assumes "storable cj m" shows "reloaded cj m = m"
proof -
  from assms have "map (reloaded_call cj) (m_tool_calls m) = m_tool_calls m"
    by (simp add: storable_def list_all_iff map_idI reloaded_call_id)
  with assms show ?thesis
    by (cases m) (simp add: reloaded_def storable_def plain_text)
qed

lemma messages_reload:
  assumes "json_laws cj" and "json_printing cj" and "session_serialize_messages cj msgs = Some t"
  shows "session_deserialize_messages cj t = Some (map (reloaded cj) msgs)" and "NUL \<notin> set t"
  using assms by (auto simp: session_serialize_messages_def session_deserialize_messages_def
      messages_to_json_array_def json_printing_def json_nodes message_reloads)

lemma messages_roundtrip:
  assumes "json_laws cj" and "json_printing cj" and "session_serialize_messages cj msgs = Some t"
    and "list_all (storable cj) msgs"
  shows "session_deserialize_messages cj t = Some msgs"
  using messages_reload [OF assms(1-3)] assms(4) by (simp add: list_all_iff map_idI reloaded_id)

text \<open>A copy is the original, or nothing; it fails only when an allocation does.\<close>

lemma dup_kept: "p = None \<or> dup fails n p \<noteq> None \<Longrightarrow> dup fails n p = p"
  by (auto simp: dup_def)

lemma dup_ok: "\<not> fails n \<Longrightarrow> dup fails n p = p"
  by (simp add: dup_def)

lemma not_lost: "\<not> lost fs src dst \<longleftrightarrow> list_all (\<lambda>f. f src = None \<or> f dst \<noteq> None) fs"
  by (auto simp: lost_def list_all_iff list_ex_iff)

lemma copy_call_exact:
  assumes "copy_call fails n c = Some d" shows "d = c"
proof -
  from assms have "\<not> lost [tc_id, tc_name, tc_arguments, tc_result_content, tc_result_error] c d"
    and d: "d = \<lparr>tc_id = dup fails n (tc_id c), tc_name = dup fails (n + 1) (tc_name c),
               tc_arguments = dup fails (n + 2) (tc_arguments c),
               tc_result_content = dup fails (n + 3) (tc_result_content c),
               tc_result_error = dup fails (n + 4) (tc_result_error c)\<rparr>"
    by (auto simp: copy_call_def Let_def split: if_splits)
  then show ?thesis unfolding not_lost by (simp del: not_None_eq add: dup_kept)
qed

lemma copy_calls_exact: "copy_calls fails n cs = Some ds \<Longrightarrow> ds = cs"
  by (induction fails n cs arbitrary: ds rule: copy_calls.induct)
     (auto dest: copy_call_exact split: option.splits)

lemma message_copy_exact:
  assumes "message_copy fails m = Some d" shows "d = m"
proof -
  let ?d = "\<lparr>m_role = dup fails 0 (m_role m), m_content = dup fails 1 (m_content m),
               m_id = dup fails 2 (m_id m), m_parent_id = dup fails 3 (m_parent_id m),
               m_fork_group_id = dup fails 4 (m_fork_group_id m), m_tool_calls = [],
               m_tool_call_id = dup fails 5 (m_tool_call_id m), m_tool_name = dup fails 6 (m_tool_name m),
               m_error_category = dup fails 7 (m_error_category m), m_timestamp = m_timestamp m,
               m_thinking = dup fails 8 (m_thinking m), m_phase = dup fails 9 (m_phase m),
               m_provider_state = dup fails 10 (m_provider_state m)\<rparr>"
  from assms have "\<not> lost [m_role, m_content, m_id, m_parent_id, m_fork_group_id, m_tool_call_id, m_tool_name,
                  m_error_category, m_thinking, m_phase, m_provider_state] m ?d"
    by (auto simp: message_copy_def Let_def split: if_splits)
  then have d: "?d = m\<lparr>m_tool_calls := []\<rparr>" unfolding not_lost by (simp del: not_None_eq add: dup_kept)
  from assms have "d = ?d\<lparr>m_tool_calls := m_tool_calls m\<rparr>"
    unfolding message_copy_def Let_def
    by (auto dest: copy_calls_exact split: if_splits option.splits)
  with d show ?thesis by simp
qed

lemma copy_calls_total: "(\<And>n. \<not> fails n) \<Longrightarrow> copy_calls fails n cs = Some cs"
  by (induction cs arbitrary: n) (simp_all del: not_None_eq add: copy_call_def lost_def dup_ok Let_def)

lemma message_copy_total: "(\<And>n. \<not> fails n) \<Longrightarrow> message_copy fails m = Some m"
  by (simp del: not_None_eq add: message_copy_def lost_def dup_ok copy_calls_total Let_def)

text \<open>
  Arguments that are not JSON gain quotes when a session is stored and read: they are written as a
  JSON string and read back in its printed form.
\<close>

lemma raw_arguments_quoted:
  assumes "j_parse cj a = None" and "j_print cj (j_string cj a) = Some (DQUOTE # a @ [DQUOTE])"
  shows "tc_arguments (reloaded_call cj (c\<lparr>tc_arguments := Some a\<rparr>)) = Some (DQUOTE # a @ [DQUOTE])"
  using assms by (simp add: reloaded_call_def arguments_json_def)

end
