(* ===== verification/SessionStore.thy ===== *)
theory SessionStore
  imports SessionMessages
begin

text \<open>
  The session store: rows of the sessions table and their loading and saving
  (\<open>session/session_serialize.c\<close>, \<open>session/session.c\<close>), the operations that change one
  session (\<open>session/session_manager.c\<close>), deletion and purging (\<open>session/session_purge.c\<close>),
  export and import.

  A table is a map from ids to rows. Every operation holds the store's lock from the load to the
  save, so operations are atomic. Encryption, the clock and the failures of the database are
  parameters; the pointers the operations test against NULL at their start are taken to be set.
\<close>

section \<open>Sessions and rows\<close>

record 'j session =
  ss_id :: string
  ss_title :: string
  ss_attempted :: int
  ss_created_at :: string
  ss_messages :: "message list"
  ss_metadata :: 'j
  ss_events :: 'j

text \<open>A column is None when it is NULL or an empty blob.\<close>

record row =
  w_title :: cptr
  w_attempted :: int
  w_created_at :: string
  w_messages :: cptr
  w_metadata :: cptr
  w_events :: cptr

type_synonym db = "string \<Rightarrow> row option"

text \<open>\<open>sql_fails\<close> says of each statement, by its number, whether preparing, binding or stepping it fails.\<close>

record 'j store_env = "'j cjson" +
  encrypt :: "string \<Rightarrow> cptr"
  decrypt :: "string \<Rightarrow> cptr"
  sql_fails :: bool

definition session_create :: "('j, 'x) cjson_scheme \<Rightarrow> nat \<Rightarrow> nat \<Rightarrow> string \<Rightarrow> cptr \<Rightarrow> 'j session" where
  "session_create cj now unique created title =
     \<lparr>ss_id = dec_nat now @ ''-'' @ dec_nat unique,
      ss_title = (case title of None \<Rightarrow> ''New Session'' | Some t \<Rightarrow> t), ss_attempted = 0,
      ss_created_at = created, ss_messages = [], ss_metadata = j_object cj [], ss_events = j_array cj []\<rparr>"

definition session_serialize_metadata :: "('j, 'x) cjson_scheme \<Rightarrow> 'j session \<Rightarrow> cptr" where
  "session_serialize_metadata cj s =
     (case j_print cj (ss_metadata s) of None \<Rightarrow> None
      | Some t \<Rightarrow> if length t \<le> 2 then Some ''{}'' else Some t)"

definition session_serialize_events :: "('j, 'x) cjson_scheme \<Rightarrow> 'j session \<Rightarrow> cptr" where
  "session_serialize_events cj s =
     (case j_print cj (ss_events s) of None \<Rightarrow> None
      | Some t \<Rightarrow> if length t \<le> 2 then Some ''[]'' else Some t)"

text \<open>The return code and the new document.\<close>

definition session_deserialize_metadata :: "('j, 'x) cjson_scheme \<Rightarrow> string \<Rightarrow> int \<times> 'j" where
  "session_deserialize_metadata cj t =
     (case j_parse cj t of None \<Rightarrow> (-1, j_object cj []) | Some d \<Rightarrow> (0, d))"

definition session_deserialize_events :: "('j, 'x) cjson_scheme \<Rightarrow> string \<Rightarrow> int \<times> 'j" where
  "session_deserialize_events cj t =
     (case j_parse cj t of None \<Rightarrow> (-1, j_array cj [])
      | Some d \<Rightarrow> (case j_items cj d of None \<Rightarrow> (-1, j_array cj []) | Some _ \<Rightarrow> (0, d)))"

section \<open>Loading and saving\<close>

text \<open>
  One encrypted column: None when it cannot be decrypted, otherwise the text, if there is a blob.
\<close>

definition decrypted :: "'j store_env \<Rightarrow> cptr \<Rightarrow> cptr option" where
  "decrypted env blob =
     (if or_empty blob = [] then Some None
      else (case decrypt env (or_empty blob) of None \<Rightarrow> None | Some t \<Rightarrow> Some (Some (cstr t))))"

text \<open>A failing column spoils the load, whatever the others hold.\<close>

definition load_session_locked :: "'j store_env \<Rightarrow> db \<Rightarrow> string \<Rightarrow> 'j session option" where
  "load_session_locked env db sid =
     (case db sid of None \<Rightarrow> None
      | Some w \<Rightarrow>
     (case (decrypted env (w_title w), decrypted env (w_messages w), decrypted env (w_metadata w),
            decrypted env (w_events w)) of
        (Some title, Some msgs, Some meta, Some events) \<Rightarrow>
          (let ms = (case msgs of None \<Rightarrow> Some [] | Some t \<Rightarrow> session_deserialize_messages env t);
               (mrc, md) = (case meta of None \<Rightarrow> (0, j_object env []) | Some t \<Rightarrow> session_deserialize_metadata env t);
               (erc, ev) = (case events of None \<Rightarrow> (0, j_array env []) | Some t \<Rightarrow> session_deserialize_events env t)
           in if ms = None \<or> mrc \<noteq> 0 \<or> erc \<noteq> 0 then None
              else Some \<lparr>ss_id = sid, ss_title = or_empty title, ss_attempted = w_attempted w,
                         ss_created_at = w_created_at w, ss_messages = the ms, ss_metadata = md, ss_events = ev\<rparr>)
      | _ \<Rightarrow> None))"

definition INT_MAX :: nat where "INT_MAX = 2 ^ 31 - 1"

datatype save_mode = SM_UPSERT | SM_INSERT_IF_ABSENT

text \<open>One column to write: None when encryption fails.\<close>

definition encrypted :: "'j store_env \<Rightarrow> cptr \<Rightarrow> cptr option" where
  "encrypted env t =
     (case t of None \<Rightarrow> Some None
      | Some x \<Rightarrow> (case encrypt env x of None \<Rightarrow> None | Some b \<Rightarrow> Some (if b = [] then None else Some b)))"

definition session_save_stmt :: "'j store_env \<Rightarrow> string \<Rightarrow> row \<Rightarrow> save_mode \<Rightarrow> db \<Rightarrow> int \<times> db" where
  "session_save_stmt env sid w mode db =
     (if sql_fails env then (-1, db)
      else (case mode of
              SM_UPSERT \<Rightarrow> (0, db(sid \<mapsto> w))
            | SM_INSERT_IF_ABSENT \<Rightarrow> if db sid = None then (1, db(sid \<mapsto> w)) else (0, db)))"

definition save_session_core_locked :: "'j store_env \<Rightarrow> 'j session \<Rightarrow> save_mode \<Rightarrow> db \<Rightarrow> int \<times> db" where
  "save_session_core_locked env s mode db =
     (case (session_serialize_messages env (ss_messages s), session_serialize_metadata env s,
            session_serialize_events env s) of
        (Some mj, Some dj, Some ej) \<Rightarrow>
          if length mj > INT_MAX \<or> length dj > INT_MAX \<or> length ej > INT_MAX then (-1, db)
          else (case (encrypted env (if ss_title s = [] then None else Some (ss_title s)),
                      encrypted env (Some mj), encrypted env (Some dj), encrypted env (Some ej)) of
                  (Some tb, Some mb, Some db1, Some eb) \<Rightarrow>
                    session_save_stmt env (ss_id s)
                      \<lparr>w_title = tb, w_attempted = ss_attempted s, w_created_at = ss_created_at s,
                       w_messages = mb, w_metadata = db1, w_events = eb\<rparr> mode db
                | _ \<Rightarrow> (-1, db))
      | _ \<Rightarrow> (-1, db))"

definition session_manager_save_session :: "'j store_env \<Rightarrow> 'j session \<Rightarrow> db \<Rightarrow> int \<times> db" where
  "session_manager_save_session env s db =
     (if ss_id s = [] then (-1, db) else save_session_core_locked env s SM_UPSERT db)"

definition session_manager_load_session :: "'j store_env \<Rightarrow> db \<Rightarrow> string \<Rightarrow> 'j session option" where
  "session_manager_load_session env db sid = (if sid = [] then None else load_session_locked env db sid)"

section \<open>Operations on one session\<close>

definition session_manager_create_session ::
  "'j store_env \<Rightarrow> nat \<Rightarrow> nat \<Rightarrow> string \<Rightarrow> cptr \<Rightarrow> db \<Rightarrow> 'j session option \<times> db" where
  "session_manager_create_session env now unique created title db =
     (let s = session_create env now unique created title in
      case session_manager_save_session env s db of
        (rc, db') \<Rightarrow> (if rc \<noteq> 0 then None else Some s, db'))"

text \<open>The row is loaded, the session changed and saved, under one lock.\<close>

definition edit_session :: "'j store_env \<Rightarrow> string \<Rightarrow> ('j session \<Rightarrow> 'j session option) \<Rightarrow> db \<Rightarrow> int \<times> db" where
  "edit_session env sid f db =
     (case load_session_locked env db sid of None \<Rightarrow> (-1, db)
      | Some s \<Rightarrow> (case f s of None \<Rightarrow> (-1, db) | Some s' \<Rightarrow> save_session_core_locked env s' SM_UPSERT db))"

definition appended_message :: "cptr \<Rightarrow> cptr \<Rightarrow> cptr \<Rightarrow> cptr \<Rightarrow> message" where
  "appended_message role body call_id tname =
     \<lparr>m_role = Some (or_empty role), m_content = Some (or_empty body), m_id = None, m_parent_id = None,
      m_fork_group_id = None, m_tool_calls = [], m_tool_call_id = call_id, m_tool_name = tname,
      m_error_category = None, m_timestamp = 0, m_thinking = None, m_phase = None, m_provider_state = None\<rparr>"

definition session_manager_add_message ::
  "'j store_env \<Rightarrow> string \<Rightarrow> cptr \<Rightarrow> cptr \<Rightarrow> cptr \<Rightarrow> cptr \<Rightarrow> db \<Rightarrow> int \<times> db" where
  "session_manager_add_message env sid role body call_id tname =
     edit_session env sid
       (\<lambda>s. Some (s\<lparr>ss_messages := ss_messages s @ [appended_message role body call_id tname]\<rparr>))"

definition session_manager_truncate_history :: "'j store_env \<Rightarrow> string \<Rightarrow> int \<Rightarrow> db \<Rightarrow> int \<times> db" where
  "session_manager_truncate_history env sid index =
     edit_session env sid
       (\<lambda>s. if index < 0 \<or> index \<ge> int (length (ss_messages s)) then None
            else Some (s\<lparr>ss_messages := take (nat index) (ss_messages s)\<rparr>))"

definition event_node :: "('j, 'x) cjson_scheme \<Rightarrow> cptr \<Rightarrow> cptr \<Rightarrow> string \<Rightarrow> 'j" where
  "event_node cj event_type data ts =
     j_object cj [(''event_type'', j_string cj (or_empty event_type)), (''data'', j_string cj (or_empty data)),
                  (''timestamp'', j_string cj ts)]"

definition session_manager_log_event ::
  "'j store_env \<Rightarrow> string \<Rightarrow> cptr \<Rightarrow> cptr \<Rightarrow> string \<Rightarrow> db \<Rightarrow> int \<times> db" where
  "session_manager_log_event env sid event_type data ts =
     edit_session env sid
       (\<lambda>s. Some (s\<lparr>ss_events := j_array env (items_of env (Some (ss_events s)) @
                                               [event_node env event_type data ts])\<rparr>))"

definition session_manager_delete_session :: "'j store_env \<Rightarrow> string \<Rightarrow> db \<Rightarrow> int \<times> db" where
  "session_manager_delete_session env sid db =
     (if sql_fails env then (-1, db) else (if db sid = None then 0 else 1, db(sid := None)))"

text \<open>The order of texts in SQL: byte by byte.\<close>

fun text_below :: "string \<Rightarrow> string \<Rightarrow> bool" where
  "text_below s [] = False"
| "text_below [] (d # t) = True"
| "text_below (c # s) (d # t) = (if c = d then text_below s t else byte c < byte d)"

definition purged :: "string \<Rightarrow> db \<Rightarrow> db" where
  "purged cutoff db =
     (\<lambda>i. case db i of None \<Rightarrow> None | Some w \<Rightarrow> if text_below (w_created_at w) cutoff then None else Some w)"

text \<open>
  The cutoff is the local time \<open>older_than_days\<close> days before now, printed by
  \<open>local_time\<close>; None is the return code -1.
\<close>

definition session_manager_purge_sessions ::
  "'j store_env \<Rightarrow> (int \<Rightarrow> cptr) \<Rightarrow> int \<Rightarrow> int \<Rightarrow> db \<Rightarrow> db option" where
  "session_manager_purge_sessions env local_time now older_than_days db =
     (if older_than_days < 0 \<or> older_than_days > 365 * 100 then None
      else (case local_time (now - older_than_days * 86400) of None \<Rightarrow> None
            | Some cutoff \<Rightarrow> if sql_fails env then None else Some (purged cutoff db)))"

section \<open>Export and import\<close>

definition export_session :: "'j store_env \<Rightarrow> db \<Rightarrow> string \<Rightarrow> cptr" where
  "export_session env db sid =
     (case session_manager_load_session env db sid of None \<Rightarrow> None
      | Some s \<Rightarrow>
          j_print env (j_object env (present
            [(''id'', Some (j_string env (ss_id s))), (''title'', Some (j_string env (ss_title s))),
             (''title_generation_attempted'', Some (j_number env (of_int (ss_attempted s)))),
             (''created_at'', Some (j_string env (ss_created_at s))),
             (''messages'', if ss_messages s \<noteq> [] then Some (messages_to_json_array env (ss_messages s)) else None),
             (''metadata'', Some (ss_metadata s)), (''events'', Some (ss_events s))])))"

definition is_system_node :: "('j, 'x) cjson_scheme \<Rightarrow> 'j \<Rightarrow> bool" where
  "is_system_node cj item \<longleftrightarrow> string_of cj (j_get cj item ''role'') = Some ''system''"

definition import_session_build ::
  "'j store_env \<Rightarrow> nat \<Rightarrow> nat \<Rightarrow> string \<Rightarrow> string \<Rightarrow> 'j session option" where
  "import_session_build env now unique created t =
     (case j_parse env t of None \<Rightarrow> None
      | Some json \<Rightarrow>
          (let s0 = session_create env now unique created (Some ''Imported Session'');
               field = (\<lambda>k old. case string_of env (j_get env json k) of None \<Rightarrow> old | Some x \<Rightarrow> x);
               msgs = (case j_get env json ''messages'' of None \<Rightarrow> ss_messages s0
                       | Some m \<Rightarrow>
                      (case j_items env m of None \<Rightarrow> ss_messages s0
                       | Some items \<Rightarrow>
                      (case j_print env (j_array env (filter (\<lambda>i. \<not> is_system_node env i) items)) of
                         None \<Rightarrow> ss_messages s0
                       | Some mt \<Rightarrow> (case session_deserialize_messages env mt of None \<Rightarrow> ss_messages s0 | Some ms \<Rightarrow> ms))));
               md = (case j_get env json ''metadata'' of None \<Rightarrow> ss_metadata s0
                     | Some m \<Rightarrow> (case j_print env m of None \<Rightarrow> ss_metadata s0
                                 | Some mt \<Rightarrow> snd (session_deserialize_metadata env mt)));
               ev = (case j_get env json ''events'' of None \<Rightarrow> ss_events s0
                     | Some e \<Rightarrow>
                    (case j_items env e of None \<Rightarrow> ss_events s0
                     | Some _ \<Rightarrow> (case j_print env e of None \<Rightarrow> ss_events s0
                                 | Some et \<Rightarrow> snd (session_deserialize_events env et))))
           in Some \<lparr>ss_id = field ''id'' (ss_id s0), ss_title = field ''title'' (ss_title s0),
                    ss_attempted = (case j_get env json ''title_generation_attempted'' of None \<Rightarrow> 0
                                    | Some n \<Rightarrow> (case j_int env n of None \<Rightarrow> 0 | Some i \<Rightarrow> i)),
                    ss_created_at = field ''created_at'' (ss_created_at s0), ss_messages = msgs,
                    ss_metadata = md, ss_events = ev\<rparr>))"

definition import_session ::
  "'j store_env \<Rightarrow> nat \<Rightarrow> nat \<Rightarrow> string \<Rightarrow> string \<Rightarrow> db \<Rightarrow> 'j session option \<times> db" where
  "import_session env now unique created t db =
     (case import_session_build env now unique created t of None \<Rightarrow> (None, db)
      | Some s \<Rightarrow>
          (case save_session_core_locked env s SM_INSERT_IF_ABSENT db of
             (rc, db') \<Rightarrow> (if rc \<le> 0 then None else Some s, db')))"

section \<open>What is promised by the parameters\<close>

text \<open>
  The library's laws; memory suffices to print a document; the two empty documents are parsed, and
  an array that is not empty takes more than two characters; and what was encrypted is decrypted.
\<close>

definition faithful :: "'j store_env \<Rightarrow> bool" where
  "faithful env \<longleftrightarrow>
     json_laws env \<and> json_printing env \<and> (\<forall>d. j_print env d \<noteq> None) \<and>
     j_parse env ''{}'' = Some (j_object env []) \<and> j_parse env ''[]'' = Some (j_array env []) \<and>
     (\<forall>xs t. xs \<noteq> [] \<longrightarrow> j_print env (j_array env xs) = Some t \<longrightarrow> length t > 2) \<and>
     (\<forall>x b. encrypt env x = Some b \<longrightarrow> b \<noteq> [] \<and> decrypt env b = Some x)"

text \<open>What a session is after it has been stored and loaded again.\<close>

definition stored_doc :: "('j, 'x) cjson_scheme \<Rightarrow> 'j \<Rightarrow> 'j \<Rightarrow> 'j" where
  "stored_doc cj dflt d = (if length (or_empty (j_print cj d)) \<le> 2 then dflt else d)"

definition stored :: "('j, 'x) cjson_scheme \<Rightarrow> 'j session \<Rightarrow> 'j session" where
  "stored cj s =
     s\<lparr>ss_title := cstr (ss_title s), ss_messages := map (reloaded cj) (ss_messages s),
       ss_metadata := stored_doc cj (j_object cj []) (ss_metadata s),
       ss_events := stored_doc cj (j_array cj []) (ss_events s)\<rparr>"

definition has_events :: "('j, 'x) cjson_scheme \<Rightarrow> 'j session \<Rightarrow> bool" where
  "has_events cj s \<longleftrightarrow> j_items cj (ss_events s) \<noteq> None"

lemma encrypted_decrypts:
  assumes "faithful env" and "encrypted env t = Some b"
  shows "decrypted env b = Some (map_option cstr t)"
proof (cases t)
  case None
  with assms(2) show ?thesis by (auto simp: encrypted_def decrypted_def)
next
  case (Some x)
  with assms(2) obtain c where c: "encrypt env x = Some c" "b = (if c = [] then None else Some c)"
    by (auto simp: encrypted_def split: option.splits)
  with assms(1) have "c \<noteq> []" "decrypt env c = Some x" by (auto simp: faithful_def)
  with c Some show ?thesis by (simp add: decrypted_def)
qed

lemma metadata_reload:
  assumes "faithful env" and "session_serialize_metadata env s = Some t"
  shows "session_deserialize_metadata env (cstr t) = (0, stored_doc env (j_object env []) (ss_metadata s))"
proof -
  from assms obtain u where u: "j_print env (ss_metadata s) = Some u" "NUL \<notin> set u" "j_parse env u = Some (ss_metadata s)"
    by (auto simp: session_serialize_metadata_def faithful_def json_printing_def split: option.splits)
  show ?thesis
  proof (cases "length u \<le> 2")
    case True
    with assms u have t: "t = ''{}''" by (simp add: session_serialize_metadata_def)
    have "cstr t = ''{}''" unfolding t by (simp add: cstr_def)
    moreover have "j_parse env ''{}'' = Some (j_object env [])" using assms(1) by (simp add: faithful_def)
    ultimately show ?thesis using True u by (simp add: session_deserialize_metadata_def stored_doc_def)
  next
    case False
    with assms u show ?thesis
      by (simp add: session_serialize_metadata_def session_deserialize_metadata_def stored_doc_def cstr_id)
  qed
qed

lemma events_reload:
  assumes "faithful env" and "session_serialize_events env s = Some t" and "has_events env s"
  shows "session_deserialize_events env (cstr t) = (0, stored_doc env (j_array env []) (ss_events s))"
proof -
  have arr: "j_items env (j_array env []) = Some []" using assms(1) by (simp add: faithful_def json_laws_def)
  from assms obtain u where u: "j_print env (ss_events s) = Some u" "NUL \<notin> set u" "j_parse env u = Some (ss_events s)"
    by (auto simp: session_serialize_events_def faithful_def json_printing_def split: option.splits)
  show ?thesis
  proof (cases "length u \<le> 2")
    case True
    with assms u have t: "t = ''[]''" by (simp add: session_serialize_events_def)
    have "cstr t = ''[]''" unfolding t by (simp add: cstr_def)
    moreover have "j_parse env ''[]'' = Some (j_array env [])" using assms(1) by (simp add: faithful_def)
    ultimately show ?thesis using True u arr by (simp add: session_deserialize_events_def stored_doc_def)
  next
    case False
    with assms u show ?thesis
      by (auto simp: session_serialize_events_def session_deserialize_events_def stored_doc_def cstr_id has_events_def)
  qed
qed

text \<open>Saving changes one row, and that row loads as the stored form of the session.\<close>

lemma save_load:
  assumes f: "faithful env" and e: "has_events env s"
    and s: "save_session_core_locked env s mode db = (rc, db')"
  shows "rc = -1 \<and> db' = db \<or> mode = SM_INSERT_IF_ABSENT \<and> rc = 0 \<and> db' = db \<or>
    load_session_locked env db' (ss_id s) = Some (stored env s) \<and>
      (\<forall>i. i \<noteq> ss_id s \<longrightarrow> db' i = db i) \<and> (mode = SM_INSERT_IF_ABSENT \<longrightarrow> db (ss_id s) = None) \<and>
      rc = (if mode = SM_UPSERT then 0 else 1)"
proof (cases "rc = -1 \<and> db' = db")
  case False
  with s obtain mj dj ej tb mb db1 eb where
      j: "session_serialize_messages env (ss_messages s) = Some mj" "session_serialize_metadata env s = Some dj"
         "session_serialize_events env s = Some ej"
    and b: "encrypted env (if ss_title s = [] then None else Some (ss_title s)) = Some tb"
         "encrypted env (Some mj) = Some mb" "encrypted env (Some dj) = Some db1" "encrypted env (Some ej) = Some eb"
    and w: "session_save_stmt env (ss_id s) \<lparr>w_title = tb, w_attempted = ss_attempted s,
         w_created_at = ss_created_at s, w_messages = mb, w_metadata = db1, w_events = eb\<rparr> mode db = (rc, db')"
    by (auto simp: save_session_core_locked_def split: option.splits if_splits)
  from f have laws: "json_laws env" "json_printing env" by (simp_all add: faithful_def)
  have "cstr mj = mj" using messages_reload(2) [OF laws j(1)] by (simp add: cstr_id)
  then have ms: "session_deserialize_messages env (cstr mj) = Some (map (reloaded env) (ss_messages s))"
    using messages_reload(1) [OF laws j(1)] by simp
  have t: "decrypted env tb = Some (if ss_title s = [] then None else Some (cstr (ss_title s)))"
    using encrypted_decrypts [OF f b(1)] by (auto split: if_splits)
  have cs: "cstr [] = []" by (simp add: cstr_def)
  have row: "load_session_locked env (db(ss_id s \<mapsto> \<lparr>w_title = tb, w_attempted = ss_attempted s,
         w_created_at = ss_created_at s, w_messages = mb, w_metadata = db1, w_events = eb\<rparr>)) (ss_id s) = Some (stored env s)"
    using t encrypted_decrypts [OF f b(2)] encrypted_decrypts [OF f b(3)] encrypted_decrypts [OF f b(4)]
      ms metadata_reload [OF f j(2)] events_reload [OF f j(3) e] cs
    by (simp add: load_session_locked_def stored_def)
  from w False show ?thesis
    by (cases mode) (auto simp: session_save_stmt_def row split: if_splits)
qed simp

lemma load_frame: "db' i = db i \<Longrightarrow> load_session_locked env db' i = load_session_locked env db i"
  by (simp add: load_session_locked_def)

lemma load_row: "load_session_locked env db i = Some s \<Longrightarrow> db i \<noteq> None"
  by (auto simp: load_session_locked_def split: option.splits)

lemma load_id: "load_session_locked env db i = Some s \<Longrightarrow> ss_id s = i"
  by (auto simp: load_session_locked_def Let_def split: option.splits prod.splits if_splits)

section \<open>The store's invariant\<close>

text \<open>Storing once more changes nothing.\<close>

lemma reloaded_call_idem:
  assumes "json_printing cj" and "\<forall>d. j_print cj d \<noteq> None"
  shows "reloaded_call cj (reloaded_call cj c) = reloaded_call cj c"
proof -
  obtain t where t: "j_print cj (arguments_json cj (tc_arguments c)) = Some t" using assms(2) by blast
  then have "arguments_json cj (Some t) = arguments_json cj (tc_arguments c)"
    using assms(1) by (simp add: json_printing_def arguments_json_def)
  moreover have "cstr (cstr x) = cstr x" for x
    by (rule cstr_id) (auto simp: cstr_def dest: set_takeWhileD)
  ultimately show ?thesis
    using t by (simp add: reloaded_call_def option.map_comp comp_def)
qed

lemma cstr_idem: "cstr (cstr x) = cstr x"
  by (rule cstr_id) (auto simp: cstr_def dest: set_takeWhileD)

lemma reloaded_idem:
  assumes "json_printing cj" and "\<forall>d. j_print cj d \<noteq> None"
  shows "reloaded cj (reloaded cj m) = reloaded cj m"
  by (simp add: reloaded_def option.map_comp comp_def cstr_idem reloaded_call_idem [OF assms])

lemma stored_doc_idem: "stored_doc cj e (stored_doc cj e d) = stored_doc cj e d"
  by (simp add: stored_doc_def)

lemma stored_idem: "faithful env \<Longrightarrow> stored env (stored env s) = stored env s"
  by (simp add: stored_def stored_doc_idem cstr_idem reloaded_idem comp_def faithful_def)

lemma stored_has_events: "faithful env \<Longrightarrow> has_events env s \<Longrightarrow> has_events env (stored env s)"
  by (simp add: has_events_def stored_def stored_doc_def faithful_def json_laws_def)

text \<open>Every row loads, as a session that storing does not change.\<close>

definition store_inv :: "'j store_env \<Rightarrow> db \<Rightarrow> bool" where
  "store_inv env db \<longleftrightarrow>
     (\<forall>i. db i \<noteq> None \<longrightarrow>
        (\<exists>s. load_session_locked env db i = Some s \<and> stored env s = s \<and> has_events env s))"

lemma save_inv:
  assumes "faithful env" "has_events env s" "store_inv env db"
  shows "store_inv env (snd (save_session_core_locked env s mode db))"
proof -
  obtain rc db' where s: "save_session_core_locked env s mode db = (rc, db')" by fastforce
  from save_load [OF assms(1,2) s] show ?thesis
  proof (elim disjE)
    assume "rc = -1 \<and> db' = db"
    with s assms(3) show ?thesis by simp
  next
    assume "mode = SM_INSERT_IF_ABSENT \<and> rc = 0 \<and> db' = db"
    with s assms(3) show ?thesis by simp
  next
    assume a: "load_session_locked env db' (ss_id s) = Some (stored env s) \<and>
      (\<forall>i. i \<noteq> ss_id s \<longrightarrow> db' i = db i) \<and> (mode = SM_INSERT_IF_ABSENT \<longrightarrow> db (ss_id s) = None) \<and>
      rc = (if mode = SM_UPSERT then 0 else 1)"
    show ?thesis unfolding store_inv_def
    proof (intro allI impI)
      fix i assume i: "snd (save_session_core_locked env s mode db) i \<noteq> None"
      show "\<exists>x. load_session_locked env (snd (save_session_core_locked env s mode db)) i = Some x \<and>
          stored env x = x \<and> has_events env x"
      proof (cases "i = ss_id s")
        case True
        with a s stored_idem [OF assms(1)] stored_has_events [OF assms(1,2)] show ?thesis by simp
      next
        case False
        with a have "db' i = db i" by simp
        with i s assms(3) load_frame [of db' i db env] show ?thesis by (simp add: store_inv_def)
      qed
    qed
  qed
qed

lemma edit_inv:
  assumes "faithful env" "store_inv env db"
    and "\<And>s s'. f s = Some s' \<Longrightarrow> has_events env s \<Longrightarrow> has_events env s'"
  shows "store_inv env (snd (edit_session env sid f db))"
proof (cases "load_session_locked env db sid")
  case (Some s)
  have "has_events env s"
    using assms(2) Some load_row [OF Some] unfolding store_inv_def by auto
  with Some assms show ?thesis
    by (auto simp: edit_session_def split: option.splits intro: save_inv)
qed (use assms(2) in \<open>simp add: edit_session_def\<close>)

text \<open>The operations as steps of one machine.\<close>

datatype store_op =
  CreateOp nat nat string cptr
| AddOp string cptr cptr cptr cptr
| TruncateOp string int
| LogOp string cptr cptr string
| DeleteOp string
| PurgeOp int int
| ImportOp nat nat string string

fun store_step :: "'j store_env \<Rightarrow> (int \<Rightarrow> cptr) \<Rightarrow> store_op \<Rightarrow> db \<Rightarrow> db" where
  "store_step env lt (CreateOp now u created t) db = snd (session_manager_create_session env now u created t db)"
| "store_step env lt (AddOp i r b c t) db = snd (session_manager_add_message env i r b c t db)"
| "store_step env lt (TruncateOp i n) db = snd (session_manager_truncate_history env i n db)"
| "store_step env lt (LogOp i e d ts) db = snd (session_manager_log_event env i e d ts db)"
| "store_step env lt (DeleteOp i) db = snd (session_manager_delete_session env i db)"
| "store_step env lt (PurgeOp now d) db =
     (case session_manager_purge_sessions env lt now d db of None \<Rightarrow> db | Some db' \<Rightarrow> db')"
| "store_step env lt (ImportOp now u created t) db = snd (import_session env now u created t db)"


lemma session_create_events: "faithful env \<Longrightarrow> has_events env (session_create env now u created title)"
  by (simp add: has_events_def session_create_def faithful_def json_nodes)

lemma deserialized_events: "faithful env \<Longrightarrow> j_items env (snd (session_deserialize_events env t)) \<noteq> None"
  by (auto simp: session_deserialize_events_def faithful_def json_nodes split: option.splits)

lemma import_events:
  assumes "faithful env" and "import_session_build env now u created t = Some s"
  shows "has_events env s"
proof -
  have "j_items env (j_array env []) \<noteq> None" using assms(1) by (simp add: faithful_def json_nodes)
  moreover obtain json where j: "j_parse env t = Some json"
    using assms(2) by (auto simp: import_session_build_def split: option.splits)
  have "map_option ss_events (import_session_build env now u created t) =
      Some (case j_get env json ''events'' of None \<Rightarrow> j_array env []
       | Some e \<Rightarrow> (case j_items env e of None \<Rightarrow> j_array env []
                   | Some _ \<Rightarrow> (case j_print env e of None \<Rightarrow> j_array env []
                               | Some et \<Rightarrow> snd (session_deserialize_events env et))))"
    by (simp add: import_session_build_def Let_def j session_create_def cong: option.case_cong)
  ultimately show ?thesis using deserialized_events [OF assms(1)] assms(2)
    by (auto simp: has_events_def split: option.splits)
qed

lemma fewer_rows_inv:
  assumes "store_inv env db" and "\<And>i. db' i = db i \<or> db' i = None"
  shows "store_inv env db'"
  unfolding store_inv_def
proof (intro allI impI)
  fix i assume "db' i \<noteq> None"
  with assms(2) [of i] have e: "db' i = db i" by auto
  with \<open>db' i \<noteq> None\<close> assms(1) load_frame [where db' = db' and db = db and i = i and env = env, OF e]
  show "\<exists>s. load_session_locked env db' i = Some s \<and> stored env s = s \<and> has_events env s"
    by (simp add: store_inv_def)
qed

lemma store_step_inv:
  assumes f: "faithful env" and i: "store_inv env db"
  shows "store_inv env (store_step env lt op db)"
proof (cases op)
  case (CreateOp now u created t)
  have "store_inv env (snd (session_manager_save_session env (session_create env now u created t) db))"
    using save_inv [OF f session_create_events [OF f] i] i by (simp add: session_manager_save_session_def)
  with CreateOp show ?thesis by (simp add: session_manager_create_session_def Let_def case_prod_unfold)
next
  case (AddOp k r b c t)
  then show ?thesis
    by (auto simp: session_manager_add_message_def has_events_def intro!: edit_inv [OF f i])
next
  case (TruncateOp k n)
  then show ?thesis
    by (auto simp: session_manager_truncate_history_def has_events_def intro!: edit_inv [OF f i] split: if_splits)
next
  case (LogOp k e d ts)
  moreover have "j_items env (j_array env xs) \<noteq> None" for xs using f by (simp add: faithful_def json_nodes)
  ultimately show ?thesis
    by (auto simp: session_manager_log_event_def has_events_def intro!: edit_inv [OF f i])
next
  case (DeleteOp k)
  then show ?thesis
    by (auto simp: session_manager_delete_session_def intro!: fewer_rows_inv [OF i] split: if_splits)
next
  case (PurgeOp now d)
  have "store_inv env (purged c db)" for c
    by (rule fewer_rows_inv [OF i]) (simp add: purged_def split: option.split)
  with PurgeOp i show ?thesis
    by (auto simp: session_manager_purge_sessions_def split: option.splits if_splits)
next
  case (ImportOp now u created t)
  show ?thesis
  proof (cases "import_session_build env now u created t")
    case (Some s)
    with ImportOp save_inv [OF f import_events [OF f Some] i] show ?thesis
      by (simp add: import_session_def case_prod_unfold)
  qed (use ImportOp i in \<open>simp add: import_session_def\<close>)
qed

lemma store_ops_keep: "faithful env \<Longrightarrow> store_inv env db \<Longrightarrow> store_inv env (fold (store_step env lt) ops db)"
  by (induction ops arbitrary: db) (simp_all add: store_step_inv)

lemma store_ops_inv: "faithful env \<Longrightarrow> store_inv env (fold (store_step env lt) ops Map.empty)"
  by (rule store_ops_keep) (simp_all add: store_inv_def)

text \<open>
  C7: whatever is created, appended, cut, logged, imported, deleted or purged, every row of the table
  can be read back: it loads as a session with its own id, and storing that session again would
  change nothing.
\<close>

theorem store_always_loads:
  assumes "faithful env" and "db = fold (store_step env lt) ops Map.empty" and "db i \<noteq> None"
  shows "\<exists>s. load_session_locked env db i = Some s \<and> ss_id s = i \<and> stored env s = s"
  using store_ops_inv [OF assms(1), of lt ops] assms(2,3) load_id unfolding store_inv_def by blast

lemma edit_exact:
  assumes "faithful env" and "store_inv env db" and "load_session_locked env db i = Some s"
    and "f s = Some s'" and "stored env s' = s'" and "has_events env s'" and "ss_id s' = i"
    and "edit_session env i f db = (rc, db')"
  shows "rc = -1 \<and> db' = db \<or>
    rc = 0 \<and> (\<forall>k. load_session_locked env db' k = (if k = i then Some s' else load_session_locked env db k))"
proof -
  from assms have s: "save_session_core_locked env s' SM_UPSERT db = (rc, db')" by (simp add: edit_session_def)
  from save_load [OF assms(1,6) s] assms(5,7) load_frame [of db' _ db env] show ?thesis
    by (elim disjE) simp_all
qed


lemma stored_message_append:
  assumes "stored env s = s" and "reloaded env m = m"
  shows "stored env (s\<lparr>ss_messages := ss_messages s @ [m]\<rparr>) = s\<lparr>ss_messages := ss_messages s @ [m]\<rparr>"
proof -
  from assms(1) have "ss_title (stored env s) = ss_title s" "ss_messages (stored env s) = ss_messages s"
    "ss_metadata (stored env s) = ss_metadata s" "ss_events (stored env s) = ss_events s" by simp_all
  with assms(2) show ?thesis by (simp add: stored_def)
qed

lemma stored_messages_take:
  assumes "stored env s = s"
  shows "stored env (s\<lparr>ss_messages := take n (ss_messages s)\<rparr>) = s\<lparr>ss_messages := take n (ss_messages s)\<rparr>"
proof -
  from assms have "ss_title (stored env s) = ss_title s" and m: "ss_messages (stored env s) = ss_messages s"
    and "ss_metadata (stored env s) = ss_metadata s" "ss_events (stored env s) = ss_events s" by simp_all
  moreover from m have "map (reloaded env) (take n (ss_messages s)) = take n (ss_messages s)"
    by (simp add: stored_def flip: take_map)
  ultimately show ?thesis by (simp add: stored_def)
qed

lemma stored_events_append:
  assumes "faithful env" and "stored env s = s" and "xs \<noteq> []"
  shows "stored env (s\<lparr>ss_events := j_array env xs\<rparr>) = s\<lparr>ss_events := j_array env xs\<rparr>"
proof -
  from assms(1) obtain t where "j_print env (j_array env xs) = Some t" unfolding faithful_def by blast
  with assms(1,3) have "stored_doc env e (j_array env xs) = j_array env xs" for e
    by (auto simp: faithful_def stored_doc_def)
  moreover from assms(2) have "ss_title (stored env s) = ss_title s" "ss_messages (stored env s) = ss_messages s"
    "ss_metadata (stored env s) = ss_metadata s" by simp_all
  ultimately show ?thesis by (simp add: stored_def)
qed

lemma appended_reloaded:
  "list_all plain [role, body, call_id, tname] \<Longrightarrow>
     reloaded cj (appended_message role body call_id tname) = appended_message role body call_id tname"
  by (simp add: reloaded_def appended_message_def plain_text) (simp add: plain_def cstr_id)

lemma reachable_session:
  assumes "faithful env" and "db = fold (store_step env lt) ops Map.empty"
    and "load_session_locked env db i = Some s"
  shows "stored env s = s" and "has_events env s"
proof -
  from store_ops_inv [OF assms(1)] assms(2) have "store_inv env db" by simp
  with assms(3) load_row [OF assms(3)] show "stored env s = s" "has_events env s"
    unfolding store_inv_def by auto
qed

text \<open>A call fails and changes nothing, or makes the session load as \<open>s\<close> and leaves the others alone.\<close>

definition edit_outcome :: "'j store_env \<Rightarrow> db \<Rightarrow> string \<Rightarrow> 'j session \<Rightarrow> int \<times> db \<Rightarrow> bool" where
  "edit_outcome env db i s r \<longleftrightarrow>
     r = (-1, db) \<or>
     fst r = 0 \<and> (\<forall>k. load_session_locked env (snd r) k = (if k = i then Some s else load_session_locked env db k))"

text \<open>
  C8: the operations on one session do what they say and nothing else. An operation either fails
  and leaves the table as it was, or succeeds, and then the session that is loaded next is the old
  one with exactly the message appended, the history cut at the index, or the event logged, and
  every other session loads as before. A cut outside the history fails.
\<close>

theorem session_edits_exact:
  assumes "faithful env" and "db = fold (store_step env lt) ops Map.empty"
    and "load_session_locked env db i = Some s" and "list_all plain [role, body, call_id, tname]"
  shows "edit_outcome env db i (s\<lparr>ss_messages := ss_messages s @ [appended_message role body call_id tname]\<rparr>)
      (session_manager_add_message env i role body call_id tname db) \<and>
    (if 0 \<le> n \<and> n < int (length (ss_messages s))
     then edit_outcome env db i (s\<lparr>ss_messages := take (nat n) (ss_messages s)\<rparr>)
            (session_manager_truncate_history env i n db)
     else session_manager_truncate_history env i n db = (-1, db)) \<and>
    edit_outcome env db i
      (s\<lparr>ss_events := j_array env (items_of env (Some (ss_events s)) @ [event_node env ty data ts])\<rparr>)
      (session_manager_log_event env i ty data ts db)"
proof -
  from store_ops_inv [OF assms(1)] assms(2) have inv: "store_inv env db" by simp
  note s = reachable_session [OF assms(1-3)]
  have sid: "ss_id s = i" by (rule load_id [OF assms(3)])
  have edit: "edit_outcome env db i s' (edit_session env i f db)"
    if "f s = Some s'" "stored env s' = s'" "has_events env s'" "ss_id s' = i" for f s'
  proof -
    obtain rc db' where e: "edit_session env i f db = (rc, db')" by fastforce
    from edit_exact [where f = f and s' = s' and env = env, OF assms(1) inv assms(3) that e] e
    show ?thesis by (auto simp: edit_outcome_def)
  qed
  have arr: "has_events env (s\<lparr>ss_events := j_array env xs\<rparr>)" for xs
    using assms(1) by (simp add: has_events_def faithful_def json_nodes)
  have ev: "has_events env (s\<lparr>ss_messages := ms\<rparr>)" for ms using s(2) by (simp add: has_events_def)
  show ?thesis
  proof (intro conjI)
    show "edit_outcome env db i (s\<lparr>ss_messages := ss_messages s @ [appended_message role body call_id tname]\<rparr>)
        (session_manager_add_message env i role body call_id tname db)"
      unfolding session_manager_add_message_def
      by (rule edit) (simp_all add: sid ev stored_message_append [OF s(1) appended_reloaded [OF assms(4)]])
    show "if 0 \<le> n \<and> n < int (length (ss_messages s))
       then edit_outcome env db i (s\<lparr>ss_messages := take (nat n) (ss_messages s)\<rparr>)
              (session_manager_truncate_history env i n db)
       else session_manager_truncate_history env i n db = (-1, db)"
    proof (cases "0 \<le> n \<and> n < int (length (ss_messages s))")
      case True
      then show ?thesis unfolding session_manager_truncate_history_def if_P [OF True]
        by (intro edit) (simp_all add: sid ev stored_messages_take [OF s(1)])
    next
      case False
      with assms(3) show ?thesis
        by (auto simp: session_manager_truncate_history_def edit_session_def)
    qed
    show "edit_outcome env db i
        (s\<lparr>ss_events := j_array env (items_of env (Some (ss_events s)) @ [event_node env ty data ts])\<rparr>)
        (session_manager_log_event env i ty data ts db)"
      unfolding session_manager_log_event_def
      by (rule edit) (simp_all add: sid arr stored_events_append [OF assms(1) s(1)])
  qed
qed


section \<open>Export and import\<close>

lemma saved_role:
  assumes "json_laws cj"
  shows "is_system_node cj (saved_message cj m) \<longleftrightarrow> cstr (or_empty (m_role m)) = ''system''"
proof -
  have "j_get cj (saved_message cj m) ''role'' = Some (j_string cj (or_empty (m_role m)))"
    by (simp add: saved_message_def get_present [OF assms] del: present.simps)
  then show ?thesis by (simp add: is_system_node_def string_of_node [OF assms])
qed

lemma filter_saved:
  assumes "json_laws cj"
  shows "filter (\<lambda>d. \<not> is_system_node cj d) (map (saved_message cj) ms) =
    map (saved_message cj) (filter (\<lambda>m. cstr (or_empty (m_role m)) \<noteq> ''system'') ms)"
  by (induction ms) (simp_all add: saved_role [OF assms])

text \<open>The history without the system messages, which every run makes anew.\<close>

definition without_system :: "message list \<Rightarrow> message list" where
  "without_system ms = filter (\<lambda>m. m_role m \<noteq> Some ''system'') ms"

lemma stored_role: "reloaded cj m = m \<Longrightarrow> cstr (or_empty (m_role m)) = ''system'' \<longleftrightarrow> m_role m = Some ''system''"
  by (metis message.select_convs(1) option.inject reloaded_def)

lemma exported_member:
  assumes "json_laws env" and "json_printing env"
    and "j_print env (j_object env (present ms)) = Some t" and "distinct (map (\<lambda>(n, v). lower n) ms)"
  shows "\<exists>json. j_parse env t = Some json \<and> (\<forall>k. j_get env json k =
    (case map_of (map (\<lambda>(n, v). (lower n, v)) ms) (lower k) of None \<Rightarrow> None | Some v \<Rightarrow> v))"
  using assms by (auto simp: json_printing_def get_present)


lemma printed:
  assumes "faithful env"
  obtains t where "j_print env d = Some t" "j_parse env t = Some d" "NUL \<notin> set t"
  using assms unfolding faithful_def json_printing_def by blast

lemma printed_metadata:
  assumes "faithful env" shows "(case j_print env d of None \<Rightarrow> e
    | Some t \<Rightarrow> snd (session_deserialize_metadata env t)) = d"
  by (rule printed [OF assms, of d]) (simp add: session_deserialize_metadata_def)

lemma printed_events:
  assumes "faithful env" and "j_items env d \<noteq> None" shows "(case j_print env d of None \<Rightarrow> e
    | Some t \<Rightarrow> snd (session_deserialize_events env t)) = d"
  by (rule printed [OF assms(1), of d]) (use assms(2) in \<open>auto simp: session_deserialize_events_def\<close>)

lemma stored_parts:
  assumes "stored env s = s"
  shows "cstr (ss_title s) = ss_title s" and "m \<in> set (ss_messages s) \<Longrightarrow> reloaded env m = m"
proof -
  from assms have "ss_title (stored env s) = ss_title s" "ss_messages (stored env s) = ss_messages s" by simp_all
  then show "cstr (ss_title s) = ss_title s" "m \<in> set (ss_messages s) \<Longrightarrow> reloaded env m = m"
    by (auto simp: stored_def map_eq_conv [where g = id, simplified])
qed

lemma without_system_reloads:
  "stored env s = s \<Longrightarrow> map (reloaded env) (without_system (ss_messages s)) = without_system (ss_messages s)"
  by (rule map_idI) (auto simp: without_system_def dest: stored_parts(2))

lemma import_build_exported:
  assumes f: "faithful env" and s: "stored env s = s" "has_events env s"
    and n: "NUL \<notin> set (ss_id s)" "NUL \<notin> set (ss_created_at s)" "- (2 ^ 31) \<le> ss_attempted s" "ss_attempted s < 2 ^ 31"
    and l: "session_manager_load_session env db i = Some s" and t: "export_session env db i = Some t"
  shows "import_session_build env now u created t = Some (s\<lparr>ss_messages := without_system (ss_messages s)\<rparr>)"
proof -
  from f have laws: "json_laws env" "json_printing env" by (simp_all add: faithful_def)
  let ?ms = "ss_messages s"
  let ?members = "[(''id'', Some (j_string env (ss_id s))), (''title'', Some (j_string env (ss_title s))),
             (''title_generation_attempted'', Some (j_number env (of_int (ss_attempted s)))),
             (''created_at'', Some (j_string env (ss_created_at s))),
             (''messages'', if ?ms \<noteq> [] then Some (messages_to_json_array env ?ms) else None),
             (''metadata'', Some (ss_metadata s)), (''events'', Some (ss_events s))]"
  have "\<exists>json. j_parse env t = Some json \<and> (\<forall>k. j_get env json k =
    (case map_of (map (\<lambda>(n, v). (lower n, v)) ?members) (lower k) of None \<Rightarrow> None | Some v \<Rightarrow> v))"
    by (rule exported_member [OF laws]) (use l t in \<open>simp_all add: export_session_def del: present.simps\<close>)
  then obtain json where j: "j_parse env t = Some json" and g: "\<And>k. j_get env json k =
    (case map_of (map (\<lambda>(n, v). (lower n, v)) ?members) (lower k) of None \<Rightarrow> None | Some v \<Rightarrow> v)" by blast
  have strs: "string_of env (Some (j_string env x)) = Some x" if "NUL \<notin> set x" for x
    using that by (simp add: string_of_node [OF laws(1)] cstr_id)
  have title: "string_of env (Some (j_string env (ss_title s))) = Some (ss_title s)"
    using stored_parts(1) [OF s(1)] by (simp add: string_of_node [OF laws(1)])
  have num: "j_int env (j_number env (of_int (ss_attempted s))) = Some (ss_attempted s)"
    using laws(1) n(3,4) by (simp add: json_laws_def)
  have items: "j_items env (messages_to_json_array env ?ms) = Some (map (saved_message env) ?ms)"
    by (simp add: messages_to_json_array_def json_nodes [OF laws(1)])
  have keep: "filter (\<lambda>m. cstr (or_empty (m_role m)) \<noteq> ''system'') ?ms = without_system ?ms"
    unfolding without_system_def using stored_parts(2) [OF s(1)] stored_role by (intro filter_cong) auto
  obtain mt where mt: "session_serialize_messages env (without_system ?ms) = Some mt"
    using printed [OF f] unfolding session_serialize_messages_def by metis
  from messages_reload(1) [OF laws mt] without_system_reloads [OF s(1)] 
  have reload: "session_deserialize_messages env mt = Some (without_system ?ms)" by simp
  have arr: "j_print env (j_array env (filter (\<lambda>d. \<not> is_system_node env d) (map (saved_message env) ?ms))) = Some mt"
    using mt by (simp add: filter_saved [OF laws(1)] keep session_serialize_messages_def messages_to_json_array_def)
  have e: "j_items env (ss_events s) \<noteq> None" using s(2) by (simp add: has_events_def)
  then obtain es where es: "j_items env (ss_events s) = Some es" by blast
  have none: "without_system [] = []" by (simp add: without_system_def)
  show ?thesis
  proof (cases "?ms = []")
    case True
    then show ?thesis
      by (simp add: import_session_build_def j g Let_def strs [OF n(1)] strs [OF n(2)] title num es none
          printed_metadata [OF f] printed_events [OF f e] session_create_def cong: option.case_cong)
  next
    case False
    then show ?thesis
      by (simp add: import_session_build_def j g Let_def strs [OF n(1)] strs [OF n(2)] title num es items arr reload
          printed_metadata [OF f] printed_events [OF f e] session_create_def cong: option.case_cong)
  qed
qed

text \<open>
  C9: a session that is exported and imported into another store is the session itself, without its
  system messages, which every run makes anew; and an import never touches a session that the store
  already has.
\<close>

theorem export_import:
  assumes "faithful env" and "db = fold (store_step env lt) ops Map.empty"
    and "session_manager_load_session env db i = Some s" and "export_session env db i = Some t"
    and "NUL \<notin> set i" and "NUL \<notin> set (ss_created_at s)"
    and "- (2 ^ 31) \<le> ss_attempted s" and "ss_attempted s < 2 ^ 31"
    and "import_session env now u created t db2 = (r, db2')"
  shows "db2' = db2 \<and> r = None \<or>
    db2 i = None \<and> r = Some (s\<lparr>ss_messages := without_system (ss_messages s)\<rparr>) \<and>
    session_manager_load_session env db2' i = r \<and>
    (\<forall>k. k \<noteq> i \<longrightarrow> db2' k = db2 k)"
proof -
  from assms(3) have l: "load_session_locked env db i = Some s" "i \<noteq> []"
    by (auto simp: session_manager_load_session_def split: if_splits)
  note s = reachable_session [OF assms(1,2) l(1)]
  let ?s = "s\<lparr>ss_messages := without_system (ss_messages s)\<rparr>"
  have sid: "ss_id s = i" by (rule load_id [OF l(1)])
  from import_build_exported [OF assms(1) s _ assms(6-8) assms(3,4)] assms(5) sid
  have b: "import_session_build env now u created t = Some ?s" by simp
  note without_system_reloads [OF s(1)]
  moreover from s(1) have "ss_title (stored env s) = ss_title s" "ss_metadata (stored env s) = ss_metadata s"
      "ss_events (stored env s) = ss_events s" by simp_all
  ultimately have st: "stored env ?s = ?s" by (simp add: stored_def)
  have ev: "has_events env ?s" using s(2) by (simp add: has_events_def)
  obtain rc db' where sv: "save_session_core_locked env ?s SM_INSERT_IF_ABSENT db2 = (rc, db')" by fastforce
  from assms(9) b sv have r: "r = (if rc \<le> 0 then None else Some ?s)" "db2' = db'"
    by (auto simp: import_session_def)
  from save_load [OF assms(1) ev sv] r st sid l(2) show ?thesis
    by (auto simp: session_manager_load_session_def)
qed


section \<open>An example\<close>

definition sample_table :: "(string \<times> doc) list" where
  "sample_table =
     [(''{}'', DObject []), (''[]'', DArray []),
      (''[hi]'', DArray [DObject [(''role'', DText ''user''), (''content'', DText ''hi'')]]),
      (''[done]'', DArray [DObject [(''event_type'', DText ''done''), (''data'', DText []), (''timestamp'', DText ''now'')]]),
      (''{T}'', DObject [(''id'', DText ''1-2''), (''title'', DText ''T''), (''title_generation_attempted'', DNumber 0),
                  (''created_at'', DText ''2026''), (''metadata'', DObject []), (''events'', DArray [])])]"

definition sample_store :: "doc store_env" where
  "sample_store = cjson.extend (total_json sample_table)
     (store_env.fields (\<lambda>x. Some (CHR ''x'' # x)) (\<lambda>b. Some (tl b)) False)"

definition sample_ops :: "store_op list" where
  "sample_ops = [CreateOp 1 2 ''2026'' (Some ''T'')]"

definition sample_db :: db where
  "sample_db = fold (store_step sample_store (\<lambda>t. None)) sample_ops Map.empty"

definition sample_session :: "doc session" where
  "sample_session = \<lparr>ss_id = ''1-2'', ss_title = ''T'', ss_attempted = 0, ss_created_at = ''2026'',
     ss_messages = [], ss_metadata = DObject [], ss_events = DArray []\<rparr>"

lemma sample_store_sel:
  "j_parse sample_store = j_parse (total_json sample_table)"
  "j_print sample_store = j_print (total_json sample_table)"
  "j_get sample_store = doc_get" "j_text sample_store = j_text (total_json sample_table)"
  "j_items sample_store = j_items (total_json sample_table)" "j_int sample_store = j_int (total_json sample_table)"
  "j_double sample_store = j_double (total_json sample_table)"
  "j_string sample_store = DText" "j_number sample_store = DNumber"
  "j_array sample_store = DArray" "j_object sample_store = DObject"
  "encrypt sample_store x = Some (CHR ''x'' # x)" "decrypt sample_store b = Some (tl b)"
  "\<not> sql_fails sample_store"
  by (simp_all add: sample_store_def total_json_def doc_json_def cjson.defs store_env.defs)

lemma sample_print:
  "j_print (total_json t) d =
     (case map_of (map (\<lambda>(t, d). (d, t)) t) d of Some u \<Rightarrow> Some u
      | None \<Rightarrow> Some (''doc'' @ replicate (to_nat d) CHR ''i''))"
  "j_items (total_json t) d = (case d of DArray ds \<Rightarrow> Some ds | _ \<Rightarrow> None)"
  "j_text (total_json t) d = (case d of DText x \<Rightarrow> Some x | _ \<Rightarrow> None)"
  "j_int (total_json t) d = (case d of DNumber x \<Rightarrow> Some (floor x) | _ \<Rightarrow> None)"
  "j_parse (total_json t) x = (case map_of t x of Some d \<Rightarrow> Some d | None \<Rightarrow> Some (from_nat (length x - 3)))"
  by (simp_all add: total_json_def)

lemma faithful_sample: "faithful sample_store"
proof -
  have t: "good_table sample_table" by (simp add: good_table_def sample_table_def)
  have laws: "json_laws sample_store" using total_laws [of sample_table]
    by (simp add: json_laws_def sample_store_sel) (simp add: total_json_def doc_json_def)
  have pr: "json_printing sample_store" using total_printing [OF t]
    by (simp add: json_printing_def sample_store_sel)
  have long: "length u > 2" if "xs \<noteq> []" "j_print sample_store (j_array sample_store xs) = Some u" for xs u
    using that by (auto simp: sample_store_sel sample_print sample_table_def split: if_splits)
  show ?thesis
    using laws pr long by (simp add: faithful_def sample_store_sel sample_print sample_table_def split: option.split)
qed

lemmas store_eval =
  sample_store_sel sample_print sample_table_def session_serialize_messages_def messages_to_json_array_def
  session_serialize_metadata_def session_serialize_events_def session_deserialize_messages_def
  session_deserialize_metadata_def session_deserialize_events_def encrypted_def decrypted_def INT_MAX_def
  session_save_stmt_def cstr_def Let_def

lemma sample_digits: "dec_nat 1 = ''1''" "dec_nat (Suc 0) = ''1''" "dec_nat 2 = ''2''"
  by code_simp+

lemma sample_row:
  "sample_db = [''1-2'' \<mapsto> \<lparr>w_title = Some ''xT'', w_attempted = 0, w_created_at = ''2026'', w_messages = Some ''x[]'',
     w_metadata = Some ''x{}'', w_events = Some ''x[]''\<rparr>]"
  by (simp add: sample_db_def sample_ops_def session_manager_create_session_def session_manager_save_session_def
      session_create_def save_session_core_locked_def store_eval sample_digits)

lemma sample_load: "load_session_locked sample_store sample_db ''1-2'' = Some sample_session"
  by (simp add: sample_row load_session_locked_def sample_session_def store_eval)

theorem store_always_loads_witness:
  "\<exists>s. load_session_locked sample_store sample_db ''1-2'' = Some s \<and> ss_id s = ''1-2'' \<and> stored sample_store s = s"
  by (rule store_always_loads [OF faithful_sample sample_db_def]) (simp add: sample_row)


lemma sample_added:
  "fst (session_manager_add_message sample_store ''1-2'' (Some ''user'') (Some ''hi'') None None sample_db) = 0"
  by (simp add: session_manager_add_message_def edit_session_def sample_load sample_session_def
      save_session_core_locked_def store_eval saved_message_def appended_message_def)

lemma sample_logged:
  "fst (session_manager_log_event sample_store ''1-2'' (Some ''done'') None ''now'' sample_db) = 0"
  by (simp add: session_manager_log_event_def edit_session_def sample_load sample_session_def
      save_session_core_locked_def store_eval event_node_def items_of_def)

lemma outcome_ok:
  "edit_outcome env db i s r \<Longrightarrow> fst r = 0 \<Longrightarrow> load_session_locked env (snd r) i = Some s"
  by (auto simp: edit_outcome_def)

theorem session_edits_exact_witness:
  "load_session_locked sample_store
      (snd (session_manager_add_message sample_store ''1-2'' (Some ''user'') (Some ''hi'') None None sample_db)) ''1-2'' =
     Some (sample_session\<lparr>ss_messages := [appended_message (Some ''user'') (Some ''hi'') None None]\<rparr>) \<and>
   session_manager_truncate_history sample_store ''1-2'' 0 sample_db = (-1, sample_db) \<and>
   load_session_locked sample_store
      (snd (session_manager_log_event sample_store ''1-2'' (Some ''done'') None ''now'' sample_db)) ''1-2'' =
     Some (sample_session\<lparr>ss_events := DArray [event_node sample_store (Some ''done'') None ''now'']\<rparr>)"
proof -
  have p: "list_all plain [Some ''user'', Some ''hi'', None, None]" by (simp add: plain_def)
  note w = session_edits_exact [OF faithful_sample sample_db_def sample_load p,
      where n = 0 and ty = "Some ''done''" and data = None and ts = "''now''"]
  have e: "j_array sample_store (items_of sample_store (Some (ss_events sample_session)) @ [x]) = DArray [x]" for x
    by (simp add: items_of_def sample_session_def store_eval)
  have m: "ss_messages sample_session = []" by (simp add: sample_session_def)
  show ?thesis
    using w outcome_ok [OF conjunct1 [OF w] sample_added]
      outcome_ok [OF conjunct2 [OF conjunct2 [OF w]] sample_logged]
    by (simp add: m e)
qed

lemma sample_exported: "export_session sample_store sample_db ''1-2'' = Some ''{T}''"
  by (simp add: export_session_def session_manager_load_session_def sample_load sample_session_def store_eval)

theorem export_import_witness:
  "import_session sample_store 7 8 ''now'' ''{T}'' Map.empty = (Some sample_session, sample_db) \<and>
   session_manager_load_session sample_store sample_db ''1-2'' = Some sample_session"
proof -
  have b: "import_session_build sample_store 7 8 ''now'' ''{T}'' = Some sample_session"
    by (simp add: import_session_build_def store_eval doc_get_def string_of_def sample_session_def session_create_def)
  have i: "import_session sample_store 7 8 ''now'' ''{T}'' Map.empty = (Some sample_session, sample_db)"
    by (simp add: import_session_def b save_session_core_locked_def sample_session_def store_eval sample_row)
  have l: "session_manager_load_session sample_store sample_db ''1-2'' = Some sample_session"
    by (simp add: session_manager_load_session_def sample_load)
  have s: "NUL \<notin> set ''1-2''" "NUL \<notin> set (ss_created_at sample_session)"
    "- (2 ^ 31) \<le> ss_attempted sample_session" "ss_attempted sample_session < 2 ^ 31"
    by (simp_all add: sample_session_def)
  have "session_manager_load_session sample_store sample_db ''1-2'' = Some sample_session"
    using export_import [OF faithful_sample sample_db_def l sample_exported s i] by simp
  with i show ?thesis ..
qed

end
