(* ===== verification/SessionBranch.thy ===== *)
theory SessionBranch
  imports SessionStore "HOL-Library.Multiset"
begin

text \<open>
  Branches of a session: fork, switch, tag (\<open>session/session_branch.c\<close>) and the description of
  the branches for the interface (\<open>session/session_branch_info.c\<close>).

  The live chain is the session's messages; every other chain is a record in the session's
  metadata. The metadata is a JSON object there; here its member \<open>branches\<close>, and a record, are
  records of their own, a member None when it is missing or of another kind, and the stored
  messages are the list they are read back as (theory \<open>SessionMessages\<close>). What is kept of a call
  is what was saved last, so every function returns the session as it is stored afterwards.
\<close>

section \<open>Chains\<close>

record branch_record =
  br_id :: cptr
  br_created_at :: cptr
  br_messages :: "message list option"

record branches =
  active_created_at :: cptr
  br_list :: "branch_record list option"

record branched =
  bs_messages :: "message list"
  bs_created_at :: string
  bs_branches :: "branches option"

text \<open>The places at which a call can fail.\<close>

datatype branch_site =
  EnsureList | MintMessage | MintGroup | CopyMessage | DupContent | DupIdentity | TagGroup | TagId
| Snapshot | ReadActive | MintRecord | AddRecord | ReadClock | SetActive | SaveSession | CopyResult | PrintSnapshot

text \<open>
  The clock and the random numbers: the id minted for a message, a group and a record; the time at
  the k-th reading, printed; and whether the pause before that reading was not interrupted.
\<close>

record branch_env =
  fails_at :: "branch_site \<Rightarrow> bool"
  message_mint :: string
  group_mint :: string
  record_mint :: string
  clock :: "nat \<Rightarrow> string"
  paused :: "nat \<Rightarrow> bool"

definition records_of :: "branched \<Rightarrow> branch_record list" where
  "records_of s =
     (case bs_branches s of None \<Rightarrow> []
      | Some b \<Rightarrow> (case br_list b of None \<Rightarrow> [] | Some l \<Rightarrow> l))"

text \<open>\<open>branch_active_created_at\<close>: the birth of the live chain.\<close>

definition branch_active_created_at :: "branched \<Rightarrow> string" where
  "branch_active_created_at s =
     (case bs_branches s of None \<Rightarrow> bs_created_at s
      | Some b \<Rightarrow> (case active_created_at b of None \<Rightarrow> bs_created_at s | Some t \<Rightarrow> t))"

text \<open>\<open>strcmp(now, prev) <= 0\<close>, and up to sixteen more readings of the clock.\<close>

fun wait_past :: "branch_env \<Rightarrow> string \<Rightarrow> nat \<Rightarrow> nat \<Rightarrow> string \<Rightarrow> string" where
  "wait_past env prev k 0 now = now"
| "wait_past env prev k (Suc n) now =
     (if text_below prev now then now
      else if \<not> paused env k then now
      else wait_past env prev (k + 1) n (clock env k))"

definition branch_next_created_at :: "branch_env \<Rightarrow> branched \<Rightarrow> cptr" where
  "branch_next_created_at env s =
     (if fails_at env ReadClock then None
      else Some (wait_past env (branch_active_created_at s) 1 16 (clock env 0)))"

definition branch_record_create :: "branch_env \<Rightarrow> string \<Rightarrow> message list \<Rightarrow> branch_record option" where
  "branch_record_create env created msgs =
     (if fails_at env MintRecord then None
      else Some \<lparr>br_id = Some (record_mint env), br_created_at = Some created, br_messages = Some msgs\<rparr>)"

text \<open>The list of records and the birth of the live chain, stored in the metadata.\<close>

definition with_branches :: "string \<Rightarrow> branch_record list \<Rightarrow> branched \<Rightarrow> branched" where
  "with_branches birth l s = s\<lparr>bs_branches := Some \<lparr>active_created_at = Some birth, br_list = Some l\<rparr>\<rparr>"

section \<open>Fork\<close>

definition branch_find_fork_index :: "branched \<Rightarrow> cptr \<Rightarrow> int \<Rightarrow> int" where
  "branch_find_fork_index s mid index =
     (let found = (case mid of None \<Rightarrow> None
                   | Some x \<Rightarrow> find_index (\<lambda>m. m_id m = Some x) (bs_messages s));
          fi = (case found of None \<Rightarrow> index | Some i \<Rightarrow> int i)
      in if fi < 0 \<or> fi \<ge> int (length (bs_messages s)) then -1 else fi)"

record fork_result =
  out_branch_id :: string
  out_message_id :: string
  out_group_id :: string
  out_message :: message

definition or_else :: "cptr \<Rightarrow> string \<Rightarrow> cptr" where
  "or_else p d = (case p of None \<Rightarrow> Some d | Some x \<Rightarrow> Some x)"

text \<open>The return code, the result and the session as it is stored then.\<close>

definition branch_do_fork ::
  "branch_env \<Rightarrow> branched \<Rightarrow> nat \<Rightarrow> cptr \<Rightarrow> int \<times> fork_result option \<times> branched" where
  "branch_do_fork env s fi new_content =
     (let m = bs_messages s ! fi;
          mid = message_mint env;
          gid = (case m_fork_group_id m of None \<Rightarrow> group_mint env | Some g \<Rightarrow> g);
          copy = m\<lparr>m_id := Some mid, m_fork_group_id := Some gid,
                   m_content := (case new_content of None \<Rightarrow> m_content m | Some c \<Rightarrow> Some c)\<rparr>;
          before = m\<lparr>m_fork_group_id := or_else (m_fork_group_id m) gid, m_id := or_else (m_id m) mid\<rparr>;
          snapshot = (bs_messages s)[fi := before]
      in if fails_at env EnsureList \<or> fails_at env MintMessage
            \<or> (m_fork_group_id m = None \<and> fails_at env MintGroup)
            \<or> fails_at env CopyMessage \<or> (new_content \<noteq> None \<and> fails_at env DupContent)
            \<or> fails_at env DupIdentity \<or> (m_fork_group_id m = None \<and> fails_at env TagGroup)
            \<or> (m_id m = None \<and> fails_at env TagId) \<or> fails_at env Snapshot \<or> fails_at env ReadActive
         then (-1, None, s)
         else (case branch_record_create env (branch_active_created_at s) snapshot of
                 None \<Rightarrow> (-1, None, s)
               | Some rec \<Rightarrow>
                   if fails_at env AddRecord then (-1, None, s)
                   else (case branch_next_created_at env s of
                           None \<Rightarrow> (-1, None, s)
                         | Some now \<Rightarrow>
                             if fails_at env SetActive \<or> fails_at env SaveSession then (-1, None, s)
                             else let s' = (with_branches now (records_of s @ [rec]) s)
                                             \<lparr>bs_messages := take fi (bs_messages s) @ [copy]\<rparr>
                                  in if fails_at env CopyResult then (-1, None, s')
                                     else (0, Some \<lparr>out_branch_id = or_empty (br_id rec), out_message_id = mid,
                                                     out_group_id = gid, out_message = copy\<rparr>, s'))))"

definition session_manager_fork_branch ::
  "branch_env \<Rightarrow> branched option \<Rightarrow> cptr \<Rightarrow> int \<Rightarrow> cptr \<Rightarrow> int \<times> fork_result option \<times> branched option" where
  "session_manager_fork_branch env disk mid index new_content =
     (case disk of None \<Rightarrow> (-1, None, None)
      | Some s \<Rightarrow>
          (let fi = branch_find_fork_index s mid index
           in if fi < 0 then (-1, None, Some s)
              else (case branch_do_fork env s (nat fi) new_content of (rc, out, s') \<Rightarrow> (rc, out, Some s'))))"

section \<open>Switch\<close>

definition branch_record_find :: "branch_record list \<Rightarrow> string \<Rightarrow> nat option" where
  "branch_record_find l bid = find_index (\<lambda>r. br_id r = Some bid) l"

text \<open>The target's record is taken out of the list, the live chain's is put at the end.\<close>

definition drop_nth :: "nat \<Rightarrow> 'a list \<Rightarrow> 'a list" where
  "drop_nth n xs = take n xs @ drop (Suc n) xs"

definition session_manager_switch_branch :: "branch_env \<Rightarrow> branched option \<Rightarrow> string \<Rightarrow> int \<times> branched option" where
  "session_manager_switch_branch env disk bid =
     (case disk of None \<Rightarrow> (-1, None)
      | Some s \<Rightarrow>
          if fails_at env EnsureList then (-1, disk)
          else (case branch_record_find (records_of s) bid of
                  None \<Rightarrow> (-1, disk)
                | Some k \<Rightarrow>
                    (case br_messages (records_of s ! k) of
                       None \<Rightarrow> (-1, disk)
                     | Some target \<Rightarrow>
                         if fails_at env PrintSnapshot then (-1, disk)
                         else if target = bs_messages s then (0, disk)
                         else if fails_at env ReadActive \<or> fails_at env Snapshot \<or> fails_at env AddRecord then (-1, disk)
                         else (case branch_record_create env (branch_active_created_at s) (bs_messages s) of
                                 None \<Rightarrow> (-1, disk)
                               | Some rec \<Rightarrow>
                                   (case (case br_created_at (records_of s ! k) of
                                            Some t \<Rightarrow> Some t | None \<Rightarrow> branch_next_created_at env s) of
                                      None \<Rightarrow> (-1, disk)
                                    | Some birth \<Rightarrow>
                                        if fails_at env SetActive \<or> fails_at env SaveSession then (-1, disk)
                                        else (0, Some ((with_branches birth (drop_nth k (records_of s) @ [rec]) s)
                                                         \<lparr>bs_messages := target\<rparr>)))))))"

section \<open>Tag\<close>

definition session_manager_tag_message ::
  "branch_env \<Rightarrow> branched option \<Rightarrow> int \<Rightarrow> string \<Rightarrow> cptr \<times> branched option" where
  "session_manager_tag_message env disk index gid =
     (case disk of None \<Rightarrow> (None, None)
      | Some s \<Rightarrow>
          if index < 0 \<or> index \<ge> int (length (bs_messages s)) \<or> fails_at env MintMessage
             \<or> (m_fork_group_id (bs_messages s ! nat index) = None \<and> fails_at env TagGroup)
             \<or> fails_at env CopyResult \<or> fails_at env SaveSession
          then (None, disk)
          else let m = bs_messages s ! nat index
               in (Some (message_mint env),
                   Some (s\<lparr>bs_messages := (bs_messages s)
                            [nat index := m\<lparr>m_fork_group_id := or_else (m_fork_group_id m) gid,
                                            m_id := Some (message_mint env)\<rparr>]\<rparr>)))"

section \<open>Branch info\<close>

definition carries :: "string \<Rightarrow> message list \<Rightarrow> bool" where
  "carries g ms \<longleftrightarrow> list_ex (\<lambda>m. m_fork_group_id m = Some g) ms"

text \<open>The records of the chains that carry the group; no more than \<open>max_created\<close> are looked at.\<close>

fun group_records :: "string \<Rightarrow> nat \<Rightarrow> branch_record list \<Rightarrow> branch_record list" where
  "group_records g n [] = []"
| "group_records g n (r # rs) =
     (if n = 0 then []
      else (case br_messages r of
              None \<Rightarrow> group_records g n rs
            | Some ms \<Rightarrow> if carries g ms then r # group_records g (n - 1) rs else group_records g n rs))"

record branch_entry =
  e_message_id :: string
  e_count :: nat
  e_active :: nat
  e_branch_ids :: "string list"

definition branch_entry_of :: "branched \<Rightarrow> message \<Rightarrow> string \<Rightarrow> branch_entry" where
  "branch_entry_of s m g =
     (let rs = group_records g 64 (records_of s); live = branch_active_created_at s
      in \<lparr>e_message_id = or_empty (m_id m), e_count = 1 + length rs,
          e_active = 1 + length (filter (\<lambda>r. case br_created_at r of None \<Rightarrow> False | Some t \<Rightarrow> text_below t live) rs),
          e_branch_ids = concat (map (\<lambda>r. case br_id r of None \<Rightarrow> [] | Some i \<Rightarrow> [i]) rs)\<rparr>)"

definition session_manager_branch_info :: "branched option \<Rightarrow> branch_entry list option" where
  "session_manager_branch_info disk =
     (case disk of None \<Rightarrow> None
      | Some s \<Rightarrow>
          Some (concat (map (\<lambda>m. case m_fork_group_id m of None \<Rightarrow> [] | Some g \<Rightarrow> [branch_entry_of s m g])
                         (bs_messages s))))"

section \<open>No chain is lost\<close>

text \<open>Every chain of a session, and what the messages of a chain say.\<close>

definition recorded :: "branch_record list \<Rightarrow> message list list" where
  "recorded rs = concat (map (\<lambda>r. case br_messages r of None \<Rightarrow> [] | Some ms \<Rightarrow> [ms]) rs)"

definition chains :: "branched \<Rightarrow> message list list" where
  "chains s = bs_messages s # recorded (records_of s)"

definition saying :: "message list \<Rightarrow> (cptr \<times> cptr) list" where
  "saying ms = map (\<lambda>m. (m_role m, m_content m)) ms"

definition sayings :: "branched \<Rightarrow> (cptr \<times> cptr) list multiset" where
  "sayings s = mset (map saying (chains s))"

lemma records_of_with [simp]: "records_of (with_branches t l s) = l" "bs_messages (with_branches t l s) = bs_messages s"
  "records_of (s\<lparr>bs_messages := ms\<rparr>) = records_of s"
  "branch_active_created_at (with_branches t l s) = t"
  "branch_active_created_at (s\<lparr>bs_messages := ms\<rparr>) = branch_active_created_at s"
  by (simp_all add: records_of_def with_branches_def branch_active_created_at_def split: option.split)

lemma recorded_simps [simp]:
  "recorded [] = []" "recorded (rs @ qs) = recorded rs @ recorded qs"
  "recorded (r # rs) = (case br_messages r of None \<Rightarrow> [] | Some ms \<Rightarrow> [ms]) @ recorded rs"
  by (simp_all add: recorded_def)

lemma saying_simps [simp]: "saying (xs @ ys) = saying xs @ saying ys" "saying [] = []" "length (saying xs) = length xs"
  by (simp_all add: saying_def)

lemma saying_update:
  "m_role m = m_role (ms ! i) \<Longrightarrow> m_content m = m_content (ms ! i) \<Longrightarrow> saying (ms[i := m]) = saying ms"
  by (cases "i < length ms") (simp_all add: saying_def map_update list_update_same_conv list_update_beyond)

text \<open>What one stored fork does: the live chain becomes a record, and a new chain begins.\<close>

lemma do_fork_stored:
  assumes "branch_do_fork env s fi new_content = (rc, out, s')" and "fi < length (bs_messages s)"
  shows "s' = s \<or> sayings s' = add_mset
    (saying (take fi (bs_messages s)) @
       [(m_role (bs_messages s ! fi), case new_content of None \<Rightarrow> m_content (bs_messages s ! fi) | Some c \<Rightarrow> Some c)])
    (sayings s)"
proof (cases "s' = s")
  case False
  let ?m = "bs_messages s ! fi"
  let ?gid = "case m_fork_group_id ?m of None \<Rightarrow> group_mint env | Some g \<Rightarrow> g"
  let ?before = "?m\<lparr>m_fork_group_id := or_else (m_fork_group_id ?m) ?gid, m_id := or_else (m_id ?m) (message_mint env)\<rparr>"
  let ?copy = "?m\<lparr>m_id := Some (message_mint env), m_fork_group_id := Some ?gid,
                   m_content := (case new_content of None \<Rightarrow> m_content ?m | Some c \<Rightarrow> Some c)\<rparr>"
  have b: "saying ((bs_messages s)[fi := ?before]) = saying (bs_messages s)" by (simp add: saying_update)
  from assms(1) False obtain now rec where
      s': "s' = (with_branches now (records_of s @ [rec]) s)\<lparr>bs_messages := take fi (bs_messages s) @ [?copy]\<rparr>"
    and rec: "br_messages rec = Some ((bs_messages s)[fi := ?before])"
    by (auto simp: branch_do_fork_def Let_def branch_record_create_def split: if_splits option.splits)
  have "saying [?copy] = [(m_role ?m, case new_content of None \<Rightarrow> m_content ?m | Some c \<Rightarrow> Some c)]"
    by (simp add: saying_def)
  with s' rec b show ?thesis by (simp add: sayings_def chains_def)
qed simp

lemma drop_nth_perm: "k < length l \<Longrightarrow> mset (recorded (drop_nth k l)) =
    mset (recorded l) - mset (recorded [l ! k])"
proof -
  assume k: "k < length l"
  have "recorded l = recorded (take k l @ l ! k # drop (Suc k) l)" using k by (simp add: id_take_nth_drop [symmetric])
  then have "mset (recorded l) = mset (recorded (drop_nth k l)) + mset (recorded [l ! k])"
    by (simp add: drop_nth_def)
  then show ?thesis by simp
qed

lemma drop_nth_split: "k < length l \<Longrightarrow> mset (recorded l) = mset (recorded (drop_nth k l)) + mset (recorded [l ! k])"
proof -
  assume k: "k < length l"
  have "recorded l = recorded (take k l @ l ! k # drop (Suc k) l)" using k by (simp add: id_take_nth_drop [symmetric])
  then show ?thesis by (simp add: drop_nth_def)
qed

text \<open>What one stored switch does: the target and the live chain change places.\<close>

lemma switch_stored:
  assumes "session_manager_switch_branch env (Some s) bid = (rc, Some s')"
  shows "s' = s \<or> (\<exists>k target birth rec. branch_record_find (records_of s) bid = Some k \<and>
      br_messages (records_of s ! k) = Some target \<and> target \<noteq> bs_messages s \<and>
      (case br_created_at (records_of s ! k) of Some t \<Rightarrow> birth = t | None \<Rightarrow> True) \<and>
      rec = \<lparr>br_id = Some (record_mint env), br_created_at = Some (branch_active_created_at s),
             br_messages = Some (bs_messages s)\<rparr> \<and>
      s' = (with_branches birth (drop_nth k (records_of s) @ [rec]) s)\<lparr>bs_messages := target\<rparr> \<and> rc = 0)"
  using assms
  by (auto simp: session_manager_switch_branch_def branch_record_create_def split: if_splits option.splits)

lemma switch_chains:
  assumes "session_manager_switch_branch env (Some s) bid = (rc, Some s')"
  shows "mset (chains s') = mset (chains s)"
proof -
  from switch_stored [OF assms] show ?thesis
  proof (elim disjE exE conjE)
    fix k target birth rec
    assume k: "branch_record_find (records_of s) bid = Some k"
      and t: "br_messages (records_of s ! k) = Some target"
      and r: "rec = \<lparr>br_id = Some (record_mint env), br_created_at = Some (branch_active_created_at s),
             br_messages = Some (bs_messages s)\<rparr>"
      and s': "s' = (with_branches birth (drop_nth k (records_of s) @ [rec]) s)\<lparr>bs_messages := target\<rparr>"
    from k have "k < length (records_of s)" by (simp add: branch_record_find_def find_index_Some_length)
    from drop_nth_split [OF this] t show ?thesis by (simp add: chains_def s' r)
  qed simp
qed

lemma tag_sayings:
  assumes "session_manager_tag_message env (Some s) index gid = (r, Some s')"
  shows "sayings s' = sayings s"
  using assms
  by (auto simp: session_manager_tag_message_def sayings_def chains_def Let_def saying_update split: if_splits)

text \<open>The calls that change a session's branches, each with an environment of its own.\<close>

datatype branch_op =
  ForkOp branch_env cptr int cptr
| SwitchOp branch_env string
| TagOp branch_env int string

fun branch_step :: "branch_op \<Rightarrow> branched option \<Rightarrow> branched option" where
  "branch_step (ForkOp env mid index c) disk = snd (snd (session_manager_fork_branch env disk mid index c))"
| "branch_step (SwitchOp env bid) disk = snd (session_manager_switch_branch env disk bid)"
| "branch_step (TagOp env index gid) disk = snd (session_manager_tag_message env disk index gid)"

text \<open>Nothing is taken away from the chains, and only a fork adds one.\<close>

definition forked :: "branch_op \<Rightarrow> nat" where
  "forked op = (case op of ForkOp _ _ _ _ \<Rightarrow> 1 | _ \<Rightarrow> 0)"

lemma branch_step_chains:
  "\<exists>s'. branch_step op (Some s) = Some s' \<and> sayings s \<subseteq># sayings s' \<and>
     size (sayings s') \<le> size (sayings s) + forked op"
proof (cases op)
  case (ForkOp env mid index c)
  show ?thesis
  proof (cases "branch_find_fork_index s mid index < 0")
    case True
    with ForkOp show ?thesis by (simp add: session_manager_fork_branch_def Let_def)
  next
    case False
    define fi where "fi = nat (branch_find_fork_index s mid index)"
    from False have fi: "fi < length (bs_messages s)"
      by (auto simp: fi_def branch_find_fork_index_def Let_def split: if_splits option.splits)
    obtain rc out s' where f: "branch_do_fork env s fi c = (rc, out, s')" by (metis prod_cases3)
    from do_fork_stored [OF f fi] False f ForkOp show ?thesis
      by (auto simp: session_manager_fork_branch_def fi_def forked_def)
  qed
next
  case (SwitchOp env bid)
  obtain rc d where d: "session_manager_switch_branch env (Some s) bid = (rc, d)" by fastforce
  then obtain s' where s': "d = Some s'"
    by (auto simp: session_manager_switch_branch_def split: if_splits option.splits)
  from switch_chains [OF d [unfolded s']] have "sayings s' = sayings s"
    by (metis mset_map sayings_def)
  with SwitchOp d s' show ?thesis by simp
next
  case (TagOp env index gid)
  obtain r d where d: "session_manager_tag_message env (Some s) index gid = (r, d)" by fastforce
  then obtain s' where s': "d = Some s'"
    by (auto simp: session_manager_tag_message_def Let_def split: if_splits)
  from tag_sayings [OF d [unfolded s']] TagOp d s' show ?thesis by simp
qed

text \<open>
  C6: no chain of a conversation is ever lost. However a session is forked, switched and tagged, and
  wherever such a call fails, every chain it ever had is still there with every message it says, as
  the live chain or as a record, as often as before; and only forks add chains, one each.
\<close>

theorem chains_never_lost:
  "\<exists>s'. fold branch_step ops (Some s) = Some s' \<and> sayings s \<subseteq># sayings s' \<and>
     size (sayings s') \<le> size (sayings s) + sum_list (map forked ops)"
proof (induction ops arbitrary: s)
  case (Cons op ops)
  obtain s1 where s1: "branch_step op (Some s) = Some s1" "sayings s \<subseteq># sayings s1"
      "size (sayings s1) \<le> size (sayings s) + forked op"
    using branch_step_chains by blast
  obtain s2 where "fold branch_step ops (Some s1) = Some s2" "sayings s1 \<subseteq># sayings s2"
      "size (sayings s2) \<le> size (sayings s1) + sum_list (map forked ops)"
    using Cons.IH by blast
  with s1 show ?case by (auto intro: subset_mset.order_trans)
qed simp

section \<open>There and back\<close>

lemma find_index_last:
  "\<forall>x \<in> set xs. \<not> P x \<Longrightarrow> P y \<Longrightarrow> find_index P (xs @ [y]) = Some (length xs)"
  by (induction xs) auto

lemma drop_nth_last [simp]: "drop_nth (length xs) (xs @ [y]) = xs"
  by (simp add: drop_nth_def)

lemma drop_nth_mset: "k < length l \<Longrightarrow> mset l = add_mset (l ! k) (mset (drop_nth k l))"
proof -
  assume k: "k < length l"
  have "mset l = mset (take k l @ l ! k # drop (Suc k) l)" using k by (simp add: id_take_nth_drop [symmetric])
  then show ?thesis by (simp add: drop_nth_def)
qed

lemma set_drop_nth: "set (drop_nth k l) \<subseteq> set l"
  by (auto simp: drop_nth_def dest: in_set_takeD in_set_dropD)

definition born_saying :: "branch_record \<Rightarrow> cptr \<times> message list option" where
  "born_saying r = (br_created_at r, br_messages r)"

text \<open>
  C10: a switch to another chain is undone by switching to the record that it left behind: the same
  messages are live again, born when they were, and the records are the same chains with the same
  births, whatever ids they have now.
\<close>

theorem switch_there_and_back:
  assumes "session_manager_switch_branch env (Some s) bid = (0, Some s1)" and "s1 \<noteq> s"
    and "branch_record_find (records_of s) bid = Some k" and "br_created_at (records_of s ! k) = Some t"
    and "list_all (\<lambda>r. br_id r \<noteq> Some (record_mint env)) (records_of s)"
    and "\<And>x. \<not> fails_at env' x"
  shows "\<exists>s2. session_manager_switch_branch env' (Some s1) (record_mint env) = (0, Some s2) \<and>
    bs_messages s2 = bs_messages s \<and> branch_active_created_at s2 = branch_active_created_at s \<and>
    mset (map born_saying (records_of s2)) = mset (map born_saying (records_of s))"
proof -
  let ?d = "drop_nth k (records_of s)"
  let ?rec = "\<lparr>br_id = Some (record_mint env), br_created_at = Some (branch_active_created_at s),
             br_messages = Some (bs_messages s)\<rparr>"
  from switch_stored [OF assms(1)] assms(2-4) obtain target where
      t: "br_messages (records_of s ! k) = Some target" "target \<noteq> bs_messages s"
    and s1: "s1 = (with_branches t (?d @ [?rec]) s)\<lparr>bs_messages := target\<rparr>"
    by auto
  have k: "k < length (records_of s)" using assms(3) by (simp add: branch_record_find_def find_index_Some_length)
  have find: "branch_record_find (?d @ [?rec]) (record_mint env) = Some (length ?d)"
    unfolding branch_record_find_def
    using assms(5) set_drop_nth [of k "records_of s"] by (intro find_index_last) (auto simp: list_all_iff)
  let ?rec2 = "\<lparr>br_id = Some (record_mint env'), br_created_at = Some t, br_messages = Some target\<rparr>"
  let ?s2 = "(with_branches (branch_active_created_at s) (?d @ [?rec2]) s1)\<lparr>bs_messages := bs_messages s\<rparr>"
  have "session_manager_switch_branch env' (Some s1) (record_mint env) = (0, Some ?s2)"
    using t(2) by (simp add: session_manager_switch_branch_def s1 find assms(6) branch_record_create_def)
  moreover have "mset (map born_saying (?d @ [?rec2])) = mset (map born_saying (records_of s))"
    using drop_nth_mset [OF k] t(1) assms(4) by (simp add: born_saying_def)
  ultimately show ?thesis by (intro exI [of _ ?s2]) simp
qed

section \<open>The pill\<close>







section \<open>An example\<close>

definition sample_env_at :: "string \<Rightarrow> branch_env" where
  "sample_env_at now = \<lparr>fails_at = (\<lambda>x. False), message_mint = ''m_'' @ now, group_mint = ''fg_'' @ now,
     record_mint = ''br_'' @ now, clock = (\<lambda>k. now), paused = (\<lambda>k. True)\<rparr>"

lemma sample_env_at_sel [simp]:
  "fails_at (sample_env_at t) x = False" "message_mint (sample_env_at t) = ''m_'' @ t"
  "group_mint (sample_env_at t) = ''fg_'' @ t" "record_mint (sample_env_at t) = ''br_'' @ t"
  "clock (sample_env_at t) k = t"
  by (simp_all add: sample_env_at_def)

definition sample_chain :: branched where
  "sample_chain = \<lparr>bs_messages = [sample_msg ''user'' ''hello'', sample_msg ''assistant'' ''hi''],
     bs_created_at = ''1'', bs_branches = None\<rparr>"

definition sample_forked :: branched where
  "sample_forked = snd (snd (branch_do_fork (sample_env_at ''2'') sample_chain 0 (Some ''bye'')))"

lemma sample_next: "branch_next_created_at (sample_env_at t) s =
    (if text_below (branch_active_created_at s) t then Some t else branch_next_created_at (sample_env_at t) s)"
  by (simp add: branch_next_created_at_def eval_nat_numeral)

lemma sample_fork_eq:
  "branch_do_fork (sample_env_at ''2'') sample_chain 0 (Some ''bye'') =
     (0, Some \<lparr>out_branch_id = ''br_2'', out_message_id = ''m_2'', out_group_id = ''fg_2'',
               out_message = (sample_msg ''user'' ''bye'')\<lparr>m_id := Some ''m_2'', m_fork_group_id := Some ''fg_2''\<rparr>\<rparr>,
      \<lparr>bs_messages = [(sample_msg ''user'' ''bye'')\<lparr>m_id := Some ''m_2'', m_fork_group_id := Some ''fg_2''\<rparr>],
       bs_created_at = ''1'',
       bs_branches = Some \<lparr>active_created_at = Some ''2'', br_list = Some
         [\<lparr>br_id = Some ''br_2'', br_created_at = Some ''1'', br_messages = Some
            [(sample_msg ''user'' ''hello'')\<lparr>m_id := Some ''m_2'', m_fork_group_id := Some ''fg_2''\<rparr>,
             sample_msg ''assistant'' ''hi'']\<rparr>]\<rparr>\<rparr>)"
  by (simp add: branch_do_fork_def sample_chain_def sample_msg_def Let_def branch_record_create_def sample_next
      branch_active_created_at_def with_branches_def records_of_def or_else_def)


definition sample_hello :: message where
  "sample_hello = (sample_msg ''user'' ''hello'')\<lparr>m_id := Some ''m_2'', m_fork_group_id := Some ''fg_2''\<rparr>"

definition sample_bye :: message where
  "sample_bye = (sample_msg ''user'' ''bye'')\<lparr>m_id := Some ''m_2'', m_fork_group_id := Some ''fg_2''\<rparr>"

lemma sample_forked_eq:
  "sample_forked = \<lparr>bs_messages = [sample_bye], bs_created_at = ''1'',
     bs_branches = Some \<lparr>active_created_at = Some ''2'', br_list = Some
       [\<lparr>br_id = Some ''br_2'', br_created_at = Some ''1'', br_messages = Some [sample_hello, sample_msg ''assistant'' ''hi'']\<rparr>]\<rparr>\<rparr>"
  by (simp add: sample_forked_def sample_fork_eq sample_hello_def sample_bye_def)



lemma sample_differ [simp]: "sample_hello \<noteq> sample_bye" "sample_bye \<noteq> sample_hello"
  by (simp_all add: sample_hello_def sample_bye_def sample_msg_def)


text \<open>Back to the first chain, and back again.\<close>

definition sample_back :: branched where
  "sample_back = \<lparr>bs_messages = [sample_hello, sample_msg ''assistant'' ''hi''], bs_created_at = ''1'',
     bs_branches = Some \<lparr>active_created_at = Some ''1'', br_list = Some
       [\<lparr>br_id = Some ''br_3'', br_created_at = Some ''2'', br_messages = Some [sample_bye]\<rparr>]\<rparr>\<rparr>"

lemma sample_switch:
  "session_manager_switch_branch (sample_env_at ''3'') (Some sample_forked) ''br_2'' = (0, Some sample_back)"
  by (simp add: session_manager_switch_branch_def sample_forked_eq records_of_def branch_record_find_def
      branch_record_create_def branch_active_created_at_def with_branches_def drop_nth_def sample_back_def)

theorem switch_there_and_back_witness:
  "\<exists>s2. session_manager_switch_branch (sample_env_at ''4'') (Some sample_back) ''br_3'' = (0, Some s2) \<and>
    bs_messages s2 = [sample_bye] \<and> branch_active_created_at s2 = ''2''"
proof -
  have d: "sample_back \<noteq> sample_forked" by (simp add: sample_back_def sample_forked_eq)
  have k: "branch_record_find (records_of sample_forked) ''br_2'' = Some 0"
    and t: "br_created_at (records_of sample_forked ! 0) = Some ''1''"
    and i: "list_all (\<lambda>r. br_id r \<noteq> Some (record_mint (sample_env_at ''3''))) (records_of sample_forked)"
    and m: "bs_messages sample_forked = [sample_bye]" and b: "branch_active_created_at sample_forked = ''2''"
    by (simp_all add: branch_record_find_def sample_forked_eq records_of_def branch_active_created_at_def)
  have r: "record_mint (sample_env_at ''3'') = ''br_3''" by simp
  from switch_there_and_back [OF sample_switch d k t i, where env' = "sample_env_at ''4''"]
  show ?thesis unfolding m b r by auto
qed

section \<open>What the code does not promise\<close>

text \<open>
  The ids in a pill are those of the records in the order of the list, and a switch puts the chain
  it leaves at the end: after a switch the chain born second is offered after the one born third.
\<close>

lemma pill_ids_not_by_birth:
  "\<exists>s. map_option (map (\<lambda>e. (e_active e, e_branch_ids e))) (session_manager_branch_info (Some s)) =
       Some [(1, [''third'', ''second''])] \<and>
     map br_created_at (records_of s) = [Some ''3'', Some ''2'']"
proof -
  let ?r = "\<lambda>i t. \<lparr>br_id = Some i, br_created_at = Some t, br_messages = Some [sample_hello]\<rparr>"
  let ?s = "\<lparr>bs_messages = [sample_bye], bs_created_at = ''1'',
     bs_branches = Some \<lparr>active_created_at = Some ''1'', br_list = Some [?r ''third'' ''3'', ?r ''second'' ''2'']\<rparr>\<rparr>"
  have "carries ''fg_2'' [sample_hello]" "m_fork_group_id sample_bye = Some ''fg_2''"
    by (simp_all add: carries_def sample_hello_def sample_bye_def)
  then show ?thesis
    by (intro exI [of _ ?s])
       (simp add: session_manager_branch_info_def branch_entry_of_def records_of_def branch_active_created_at_def Let_def)
qed

text \<open>A message without an id, when it is forked, gets the id of its copy.\<close>

lemma old_message_shares_id:
  "m_id sample_hello = m_id sample_bye \<and> m_id (hd (bs_messages sample_chain)) = None"
  by (simp add: sample_hello_def sample_bye_def sample_chain_def sample_msg_def)

text \<open>A fork can be stored and still be reported as failed: copying the result comes after the save.\<close>

lemma fork_stored_but_failed:
  "\<exists>s'. branch_do_fork ((sample_env_at ''2'')\<lparr>fails_at := (\<lambda>x. x = CopyResult)\<rparr>) sample_chain 0 None = (-1, None, s') \<and>
     s' \<noteq> sample_chain"
proof -
  have n: "branch_next_created_at ((sample_env_at ''2'')\<lparr>fails_at := (\<lambda>x. x = CopyResult)\<rparr>) sample_chain = Some ''2''"
    by (simp add: branch_next_created_at_def sample_env_at_def sample_chain_def branch_active_created_at_def
        eval_nat_numeral)
  show ?thesis
    by (simp add: branch_do_fork_def Let_def branch_record_create_def n)
       (simp add: sample_chain_def with_branches_def)
qed

end
