(* ===== verification/FileRead.thy ===== *)
theory FileRead
  imports Tools Safety CJson
begin

text \<open>
  \<open>tools/read_file.c\<close>: a file, or a window of its lines, for the model. The files are a
  parameter: \<open>fopen\<close>, \<open>ftell\<close> at the end and \<open>fread\<close> of a resolved path give NULL or the
  size together with the bytes that were read. The contents may hold NUL bytes; the text that is
  handed on is a C string. Allocations are assumed to succeed.
\<close>

definition READ_MAX_LINES :: nat where "READ_MAX_LINES = 4000"

section \<open>Lines\<close>

text \<open>The array of line starts, as offsets into the buffer.\<close>

fun newline_starts :: "nat \<Rightarrow> string \<Rightarrow> nat list" where
  "newline_starts i [] = []"
| "newline_starts i (c # cs) =
     (if c \<noteq> LF then newline_starts (i + 1) cs else (i + 1) # newline_starts (i + 1) cs)"

definition line_starts :: "string \<Rightarrow> nat list" where
  "line_starts buf = 0 # newline_starts 0 buf"

definition read_line_len :: "string \<Rightarrow> nat list \<Rightarrow> nat \<Rightarrow> nat" where
  "read_line_len buf lines idx =
     (if idx + 1 < length lines then lines ! (idx + 1) - lines ! idx - 1
      else length (cstr (drop (lines ! idx) buf)))"

text \<open>The size of the buffer for the window, and the loop that fills it.\<close>

definition window_size :: "string \<Rightarrow> nat list \<Rightarrow> nat \<Rightarrow> nat \<Rightarrow> nat" where
  "window_size buf lines start shown =
     sum_list (map (\<lambda>i. read_line_len buf lines (start + i)) [0..<shown]) +
     (if shown > 0 then shown - 1 else 0)"

fun window_loop :: "string \<Rightarrow> nat list \<Rightarrow> nat \<Rightarrow> nat \<Rightarrow> string" where
  "window_loop buf lines row 0 = []"
| "window_loop buf lines row (Suc k) =
     take (read_line_len buf lines row) (drop (lines ! row) buf) @
     (if k > 0 then LF # window_loop buf lines (row + 1) k else [])"

text \<open>
  The number of lines of the file if the offset is past its end; otherwise the bytes of the
  window, and for a window that ends before the file the first line, the last line and the number
  of lines of the hint.
\<close>

definition read_window ::
  "string \<Rightarrow> nat \<Rightarrow> nat \<Rightarrow> nat + string \<times> (nat \<times> nat \<times> nat) option" where
  "read_window buf offset limit =
     (let lines = line_starts buf;
          start = (if offset > 0 then offset - 1 else 0)
      in if start \<ge> length lines then Inl (length lines)
         else let avail = length lines - start;
                  wanted = (if limit > 0 then limit else READ_MAX_LINES);
                  shown = (if wanted > avail then avail else wanted)
              in Inr (window_loop buf lines start shown,
                      if shown < avail then Some (start + 1, start + shown, length lines)
                      else None))"

definition read_hint :: "nat \<times> nat \<times> nat \<Rightarrow> string" where
  "read_hint h =
     (case h of (first, lst, n) \<Rightarrow>
        [LF, LF] @ ''[Showing lines '' @ dec_nat first @ ''-'' @ dec_nat lst @ '' of '' @ dec_nat n @
        ''. Use offset='' @ dec_nat (lst + 1) @ '' to continue.]'')"

definition read_result :: "string \<Rightarrow> nat \<Rightarrow> nat \<Rightarrow> tool_result" where
  "read_result buf offset limit =
     (case read_window buf offset limit of
        Inl n \<Rightarrow>
          tool_result_error
            (Some (''offset beyond end of file ('' @ dec_nat n @ '' lines total)''))
            (Some ''validation_error'')
      | Inr (out, None) \<Rightarrow> tool_result_create (Some (cstr out))
      | Inr (out, Some h) \<Rightarrow>
          (let (rc, grown) = str_append (Some (cstr out)) (Some (read_hint h))
           in tool_result_create (if rc \<noteq> 0 then None else grown)))"

section \<open>The tool\<close>

text \<open>An optional whole number that is at least \<open>least\<close>; 0 without it, None for any other value.\<close>

definition whole_arg :: "('j, 'x) cjson_scheme \<Rightarrow> int \<Rightarrow> 'j option \<Rightarrow> int option" where
  "whole_arg cj least v =
     (case v of None \<Rightarrow> Some 0
      | Some j \<Rightarrow>
          (case j_double cj j of None \<Rightarrow> None
           | Some dv \<Rightarrow>
               if dv < of_int least \<or> dv > 2 ^ 63 \<or> dv \<noteq> of_int (c_long dv) then None
               else Some (c_long dv)))"

text \<open>A \<open>size_t\<close> as a \<open>long\<close>.\<close>

definition signed64 :: "nat \<Rightarrow> int" where "signed64 n = sint (word_of_nat n :: 64 word)"

type_synonym reader = "string \<Rightarrow> (int \<times> string) option"

definition read_resolved ::
  "reader \<Rightarrow> safety_config \<Rightarrow> string \<Rightarrow> nat \<Rightarrow> nat \<Rightarrow> tool_result" where
  "read_resolved open_read cfg resolved offset limit =
     (case open_read resolved of
        None \<Rightarrow> tool_result_error (Some ''file not found'') (Some ''file_not_found'')
      | Some (sz, bytes) \<Rightarrow>
          if sz < 0 \<or> sz > signed64 (max_file_size cfg)
          then tool_result_error (Some ''file exceeds max size'') (Some ''policy_denied'')
          else if int (length bytes) \<noteq> sz
          then tool_result_error (Some ''read failed: file incomplete'') (Some ''execution_error'')
          else read_result bytes offset limit)"

definition read_file_execute ::
  "('j, 'x) cjson_scheme \<Rightarrow> (string \<Rightarrow> errno + string) \<Rightarrow> reader \<Rightarrow> safety_config \<Rightarrow> string \<Rightarrow>
     tool_result" where
  "read_file_execute cj realpath open_read cfg args_json =
     (case j_parse cj args_json of
        None \<Rightarrow> tool_result_error (Some ''invalid arguments JSON'') (Some ''validation_error'')
      | Some args \<Rightarrow>
          (case string_of cj (j_get cj args ''file_path'') of
             None \<Rightarrow> tool_result_error (Some ''missing 'file_path' argument'') (Some ''validation_error'')
           | Some path \<Rightarrow>
               (case whole_arg cj 0 (j_get cj args ''offset'') of
                  None \<Rightarrow> tool_result_error (Some ''offset must be a whole number of lines'')
                            (Some ''validation_error'')
                | Some offset \<Rightarrow>
                    (case whole_arg cj 1 (j_get cj args ''limit'') of
                       None \<Rightarrow> tool_result_error (Some ''limit must be a whole number of lines'')
                                 (Some ''validation_error'')
                     | Some limit \<Rightarrow>
                         if \<not> safety_check_path cfg (Some path)
                         then tool_result_error (Some ''path rejected by safety policy'')
                                (Some ''policy_denied'')
                         else (case safety_resolve_path_alloc realpath (Some cfg) (Some path) of
                                 None \<Rightarrow> tool_result_error (Some ''path resolution failed'')
                                           (Some ''execution_error'')
                               | Some resolved \<Rightarrow>
                                   read_resolved open_read cfg resolved (nat offset) (nat limit))))))"

section \<open>The lines of a window\<close>

lemma newline_starts_none: "LF \<notin> set w \<Longrightarrow> newline_starts b w = []"
  by (induction w arbitrary: b) auto

lemma newline_starts_line:
  "LF \<notin> set w \<Longrightarrow> newline_starts b (w @ LF # r) = (b + length w + 1) # newline_starts (b + length w + 1) r"
  by (induction w arbitrary: b) (auto simp: add.assoc)

text \<open>Where line \<open>i\<close> starts, over the list of the lines.\<close>

definition line_at :: "string list \<Rightarrow> nat \<Rightarrow> nat" where
  "line_at ws i = sum_list (map (\<lambda>w. length w + 1) (take i ws))"

lemma line_at_simps [simp]:
  "line_at ws 0 = 0" "line_at (w # ws) (Suc i) = length w + 1 + line_at ws i"
  by (simp_all add: line_at_def)

lemma newline_starts_join:
  "ws \<noteq> [] \<Longrightarrow> list_all (\<lambda>w. LF \<notin> set w) ws \<Longrightarrow>
     b # newline_starts b (join_with LF ws) = map (\<lambda>i. b + line_at ws i) [0..<length ws]"
proof (induction LF ws arbitrary: b rule: join_with.induct)
  case (2 w)
  then show ?case by (simp add: newline_starts_none)
next
  case (3 w v ws)
  have "newline_starts b (join_with LF (w # v # ws)) =
      map (\<lambda>i. b + length w + 1 + line_at (v # ws) i) [0..<length (v # ws)]"
    using 3 by (simp add: newline_starts_line)
  also have "\<dots> = map (\<lambda>i. b + line_at (w # v # ws) i) (map Suc [0..<length (v # ws)])"
    by (simp add: comp_def add.assoc del: upt_Suc)
  finally show ?case
    by (simp add: map_Suc_upt upt_conv_Cons del: upt_Suc)
qed simp

lemma line_starts_split: "line_starts buf = map (line_at (split_on LF buf)) [0..<length (split_on LF buf)]"
  using newline_starts_join [of "split_on LF buf" 0] split_on_no_delim [of _ LF buf]
  by (simp add: line_starts_def join_split_on list_all_iff)

lemma drop_line_at: "i < length ws \<Longrightarrow> drop (line_at ws i) (join_with d ws) = join_with d (drop i ws)"
proof (induction d ws arbitrary: i rule: join_with.induct)
  case (3 d w v ws)
  show ?case
  proof (cases i)
    case (Suc k)
    with 3 have "drop (line_at (v # ws) k) (join_with d (v # ws)) = join_with d (drop k (v # ws))" by simp
    with Suc show ?thesis by (simp add: add.commute [of _ "length w"] del: line_at_simps(2)) simp
  qed simp
qed simp_all

lemma line_at_Suc: "i < length ws \<Longrightarrow> line_at ws (Suc i) = line_at ws i + length (ws ! i) + 1"
  by (simp add: line_at_def take_Suc_conv_app_nth)

text \<open>A line is the piece between two newlines; the last one ends at a NUL byte.\<close>

lemma line_bytes:
  assumes "i < length (split_on LF buf)"
  shows "read_line_len buf (line_starts buf) i \<le> length (drop (line_starts buf ! i) buf) \<and>
    take (read_line_len buf (line_starts buf) i) (drop (line_starts buf ! i) buf) =
      (if i + 1 < length (split_on LF buf) then split_on LF buf ! i else cstr (split_on LF buf ! i))"
proof -
  let ?ws = "split_on LF buf"
  have d: "drop (line_starts buf ! i) buf = join_with LF (drop i ?ws)"
    using drop_line_at [OF assms, of LF] by (simp add: line_starts_split assms join_split_on)
  show ?thesis
  proof (cases "i + 1 < length ?ws")
    case True
    then have "drop i ?ws = ?ws ! i # ?ws ! Suc i # drop (Suc (Suc i)) ?ws"
      by (simp add: Cons_nth_drop_Suc)
    moreover have "read_line_len buf (line_starts buf) i = length (?ws ! i)"
      using True by (simp add: read_line_len_def line_starts_split line_at_Suc)
    ultimately show ?thesis using True by (simp add: d)
  next
    case False
    with assms have "drop i ?ws = [?ws ! i]"
      by (metis Cons_nth_drop_Suc Suc_eq_plus1 drop_eq_Nil linorder_not_less)
    moreover have "length (line_starts buf) = length ?ws" by (simp add: line_starts_split)
    ultimately have "read_line_len buf (line_starts buf) i = length (cstr (?ws ! i))"
      using False by (simp only: read_line_len_def d) simp
    then show ?thesis using False d \<open>drop i ?ws = [?ws ! i]\<close>
      by (simp add: cstr_def length_takeWhile_le) (metis takeWhile_eq_take)
  qed
qed

text \<open>The lines that are handed on: the last one only up to its first NUL byte.\<close>

definition text_lines :: "string \<Rightarrow> string list" where
  "text_lines buf = butlast (split_on LF buf) @ [cstr (last (split_on LF buf))]"

lemma length_text_lines: "length (text_lines buf) = length (line_starts buf)"
  by (simp add: text_lines_def line_starts_split)

lemma text_lines_nth:
  assumes "i < length (line_starts buf)"
  shows "take (read_line_len buf (line_starts buf) i) (drop (line_starts buf ! i) buf) = text_lines buf ! i"
    and "read_line_len buf (line_starts buf) i = length (text_lines buf ! i)"
proof -
  have i: "i < length (split_on LF buf)" using assms by (simp add: line_starts_split)
  have b: "take (read_line_len buf (line_starts buf) i) (drop (line_starts buf ! i) buf) = text_lines buf ! i"
  proof (cases "i + 1 < length (split_on LF buf)")
    case True
    then show ?thesis using line_bytes [OF i] by (auto simp: text_lines_def nth_append nth_butlast)
  next
    case False
    with i have "i = length (split_on LF buf) - 1" by linarith
    then show ?thesis using line_bytes [OF i] False
      by (simp add: text_lines_def nth_append last_conv_nth)
  qed
  then show "take (read_line_len buf (line_starts buf) i) (drop (line_starts buf ! i) buf) = text_lines buf ! i" .
  have "read_line_len buf (line_starts buf) i =
      length (take (read_line_len buf (line_starts buf) i) (drop (line_starts buf ! i) buf))"
    using conjunct1 [OF line_bytes [OF i]] by (simp only: length_take min_absorb2)
  then show "read_line_len buf (line_starts buf) i = length (text_lines buf ! i)" using b by simp
qed

lemma join_with_step: "join_with d (w # ws) = (if ws = [] then w else w @ d # join_with d ws)"
  by (cases ws) simp_all

lemma window_loop_join:
  "start + k \<le> length (line_starts buf) \<Longrightarrow>
     window_loop buf (line_starts buf) start k = join_with LF (take k (drop start (text_lines buf)))"
proof (induction k arbitrary: start)
  case (Suc k)
  have l: "start < length (line_starts buf)" using Suc.prems by simp
  then have "drop start (text_lines buf) = text_lines buf ! start # drop (Suc start) (text_lines buf)"
    by (simp add: Cons_nth_drop_Suc length_text_lines)
  moreover have "k > 0 \<Longrightarrow> drop (Suc start) (text_lines buf) \<noteq> []"
    using Suc.prems length_text_lines [of buf] by simp
  ultimately show ?case using Suc.IH [of "Suc start"] Suc.prems text_lines_nth [OF l]
    by (simp add: join_with_step)
qed simp

text \<open>The buffer for the window is filled exactly: no byte is written past its end.\<close>

lemma join_with_length:
  "ws \<noteq> [] \<Longrightarrow> length (join_with d ws) = sum_list (map length ws) + (length ws - 1)"
  by (induction d ws rule: join_with.induct) simp_all

lemma window_fills_buffer:
  assumes "start + k \<le> length (line_starts buf)" and "k > 0"
  shows "length (window_loop buf (line_starts buf) start k) = window_size buf (line_starts buf) start k"
proof -
  let ?w = "take k (drop start (text_lines buf))"
  have l: "length ?w = k" using assms length_text_lines [of buf] by simp
  have "map length ?w = map (\<lambda>i. read_line_len buf (line_starts buf) (start + i)) [0..<k]"
    by (rule nth_equalityI)
       (use assms length_text_lines [of buf] text_lines_nth in \<open>simp_all\<close>)
  moreover have "length (join_with LF ?w) = sum_list (map length ?w) + (k - 1)"
    using l assms(2) by (subst join_with_length) auto
  ultimately show ?thesis using assms by (simp add: window_loop_join window_size_def)
qed

section \<open>Reading on\<close>

text \<open>
  A file read window after window, each at the offset that the hint of the one before names.
\<close>

lemma read_window_eq:
  fixes buf offset limit
  defines "n \<equiv> length (text_lines buf)"
    and "wanted \<equiv> (if limit > 0 then limit else READ_MAX_LINES)"
  shows "read_window buf offset limit =
    (if offset - 1 < n
     then Inr (join_with LF (take wanted (drop (offset - 1) (text_lines buf))),
               if offset - 1 + wanted < n then Some (offset - 1 + 1, offset - 1 + wanted, n) else None)
     else Inl n)"
proof -
  have start: "(if offset > 0 then offset - 1 else 0) = offset - 1" by simp
  have n: "length (line_starts buf) = n" by (simp add: n_def length_text_lines)
  have all: "take (n - (offset - 1)) (drop (offset - 1) (text_lines buf)) =
      take wanted (drop (offset - 1) (text_lines buf))" if "wanted > n - (offset - 1)"
    using that by (simp add: n_def)
  show ?thesis
    unfolding read_window_def Let_def start n wanted_def [symmetric]
    using all n by (auto simp: window_loop_join less_diff_conv)
qed

lemma wanted_pos: "(if limit > 0 then limit else READ_MAX_LINES) > 0"
  by (simp add: READ_MAX_LINES_def)

function read_on :: "string \<Rightarrow> nat \<Rightarrow> nat \<Rightarrow> string list" where
  "read_on buf limit offset =
     (case read_window buf offset limit of
        Inl n \<Rightarrow> []
      | Inr (out, None) \<Rightarrow> [out]
      | Inr (out, Some (first, lst, n)) \<Rightarrow> out # read_on buf limit (lst + 1))"
  by pat_completeness auto
termination
  by (relation "measure (\<lambda>(buf, limit, offset). Suc (length (text_lines buf)) - offset)")
     (auto simp: read_window_eq READ_MAX_LINES_def split: if_splits)

declare read_on.simps [simp del]

lemma join_with_append:
  "us \<noteq> [] \<Longrightarrow> vs \<noteq> [] \<Longrightarrow> join_with d (us @ vs) = join_with d us @ d # join_with d vs"
  by (induction d us rule: join_with.induct) (auto simp: join_with_step)

lemma read_on_step:
  fixes limit defines "wanted \<equiv> (if limit > 0 then limit else READ_MAX_LINES)"
  assumes "k < length (text_lines buf)"
  shows "read_on buf limit (Suc k) =
    (let w = join_with LF (take wanted (drop k (text_lines buf)))
     in if k + wanted < length (text_lines buf) then w # read_on buf limit (Suc (k + wanted)) else [w])"
  using assms by (subst read_on.simps) (simp add: read_window_eq Let_def)

lemma read_on_joined:
  fixes limit defines "wanted \<equiv> (if limit > 0 then limit else READ_MAX_LINES)"
  assumes "k < length (text_lines buf)"
  shows "read_on buf limit (Suc k) \<noteq> [] \<and>
    join_with LF (read_on buf limit (Suc k)) = join_with LF (drop k (text_lines buf)) \<and>
    length (read_on buf limit (Suc k)) = (length (text_lines buf) - k + wanted - 1) div wanted"
  using assms(2)
proof (induction "length (text_lines buf) - k" arbitrary: k rule: less_induct)
  case less
  let ?n = "length (text_lines buf)"
  have w: "wanted > 0" unfolding wanted_def by (rule wanted_pos)
  note step = read_on_step [OF less.prems, of limit, folded wanted_def]
  show ?case
  proof (cases "k + wanted < ?n")
    case True
    note IH = less.hyps [of "k + wanted", OF _ True]
    have "drop k (text_lines buf) = take wanted (drop k (text_lines buf)) @ drop (k + wanted) (text_lines buf)"
      by (metis add.commute append_take_drop_id drop_drop)
    then have "join_with LF (drop k (text_lines buf)) =
        join_with LF (take wanted (drop k (text_lines buf))) @ LF # join_with LF (drop (k + wanted) (text_lines buf))"
      using join_with_append [of "take wanted (drop k (text_lines buf))" "drop (k + wanted) (text_lines buf)"]
        w True by (metis append_Nil drop_eq_Nil length_drop less_imp_diff_less linorder_not_less
            take_eq_Nil neq0_conv less.prems)
    moreover have "(?n - k + wanted - 1) div wanted = Suc ((?n - (k + wanted) + wanted - 1) div wanted)"
    proof -
      have "?n - k + wanted - 1 = (?n - (k + wanted) + wanted - 1) + wanted" using True w by simp
      then show ?thesis using w by (simp only: div_add_self2)
    qed
    ultimately show ?thesis using IH True w by (simp add: step Let_def join_with_step)
  next
    case False
    then have "(?n - k + wanted - 1) div wanted = 1"
      using less.prems w by (intro div_nat_eqI) auto
    then show ?thesis using False by (simp add: step Let_def)
  qed
qed

lemma text_lines_no_NUL: "NUL \<notin> set buf \<Longrightarrow> text_lines buf = split_on LF buf"
proof -
  assume n: "NUL \<notin> set buf"
  have "sublist (last (split_on LF buf)) buf" by (rule split_on_piece_sublist [where d = LF]) simp
  with n have "NUL \<notin> set (last (split_on LF buf))" using set_mono_sublist by blast
  then show ?thesis by (simp add: text_lines_def cstr_id)
qed

text \<open>
  C15: reading on reads the file, once. Whatever the limit, the windows one gets by starting at the
  first line and following the offset of each hint, joined by newlines, are the file; there are as
  many of them as the limit (4000 without one) goes into the number of lines, rounded up. A file
  with NUL bytes loses only what follows the first one in its last line.
\<close>

theorem read_on_reads_all:
  "join_with LF (read_on buf limit 1) = join_with LF (text_lines buf) \<and>
   (NUL \<notin> set buf \<longrightarrow> join_with LF (read_on buf limit 1) = buf) \<and>
   length (read_on buf limit 1) =
     (let wanted = (if limit > 0 then limit else READ_MAX_LINES)
      in (length (line_starts buf) + wanted - 1) div wanted)"
proof -
  have "0 < length (text_lines buf)" by (simp add: text_lines_def)
  from read_on_joined [OF this, of limit] show ?thesis
    by (simp add: Let_def text_lines_no_NUL join_split_on length_text_lines)
qed

theorem read_on_reads_all_witness:
  "join_with LF (read_on [CHR ''a'', LF, CHR ''b'', LF] 2 1) = [CHR ''a'', LF, CHR ''b'', LF] \<and>
   length (read_on [CHR ''a'', LF, CHR ''b'', LF] 2 1) = 2"
  using read_on_reads_all [of "[CHR ''a'', LF, CHR ''b'', LF]" 2, THEN conjunct2] by (simp add: line_starts_def)

section \<open>What a successful read returns\<close>

lemma dec_nat_short: "length (dec_nat n) \<le> Suc n"
proof (induction n rule: dec_nat.induct)
  case (1 n)
  then show ?case by (subst dec_nat.simps) (auto intro: order_trans)
qed

lemma join_with_part: "length (join_with d (take w (drop k ws))) \<le> length (join_with d ws)"
proof (cases "take w (drop k ws) = []")
  case True
  show ?thesis unfolding True by simp
next
  case False
  then have "ws \<noteq> []" by auto
  have "sum_list (map length ws) = sum_list (map length (take k ws @ take w (drop k ws) @ drop w (drop k ws)))"
    by (rule arg_cong [where f = "\<lambda>x. sum_list (map length x)"]) (simp only: append_take_drop_id)
  then have "sum_list (map length (take w (drop k ws))) \<le> sum_list (map length ws)"
    unfolding map_append sum_list_append by linarith
  moreover have "length (take w (drop k ws)) \<le> length ws" by simp
  ultimately show ?thesis
    using join_with_length [OF False, of d] join_with_length [OF \<open>ws \<noteq> []\<close>, of d] by linarith
qed

lemma text_lines_short: "length (join_with LF (text_lines buf)) \<le> length buf"
proof -
  obtain ws w where ws: "split_on LF buf = ws @ [w]" by (metis rev_exhaust split_on_not_Nil)
  have "sum_list (map length (text_lines buf)) \<le> sum_list (map length (split_on LF buf))"
    by (simp add: text_lines_def ws cstr_def length_takeWhile_le)
  moreover have "length buf = sum_list (map length (split_on LF buf)) + (length (split_on LF buf) - 1)"
    by (metis join_split_on join_with_length split_on_not_Nil)
  moreover have "length (text_lines buf) = length (split_on LF buf)" by (simp add: text_lines_def)
  ultimately show ?thesis by (subst join_with_length) (auto simp: text_lines_def)
qed

lemma window_in_buffer:
  assumes "read_window buf offset limit = Inr (out, h)" shows "length out \<le> length buf"
proof -
  have "\<exists>w. out = join_with LF (take w (drop (offset - 1) (text_lines buf)))"
    using assms unfolding read_window_eq by (metis old.sum.distinct(1) Pair_inject sum.inject(2))
  with join_with_part [of LF _ "offset - 1" "text_lines buf"] text_lines_short [of buf] show ?thesis
    by (meson order_trans)
qed

lemma line_count: "length (text_lines buf) \<le> Suc (length buf)"
  by (simp add: text_lines_def split_on_length)

lemma hint_short:
  assumes "read_window buf offset limit = Inr (out, Some h)"
  shows "length (read_hint h) \<le> 4 * length buf + 100"
proof -
  obtain f l n where h: "h = (f, l, n)" by (cases h) auto
  have "f \<le> length (text_lines buf)" "l < length (text_lines buf)" "n = length (text_lines buf)"
    using assms by (auto simp: read_window_eq h split: if_splits)
  with line_count [of buf] dec_nat_short [of f] dec_nat_short [of l] dec_nat_short [of n]
    dec_nat_short [of "l + 1"]
  show ?thesis by (simp add: h read_hint_def)
qed

lemma read_result_success:
  assumes "content (read_result buf offset limit) = Some t" and "length buf < 2 ^ 60"
  shows "\<exists>out h. read_window buf offset limit = Inr (out, h) \<and>
     t = cstr out @ (case h of None \<Rightarrow> [] | Some g \<Rightarrow> read_hint g)"
proof (cases "read_window buf offset limit")
  case (Inr w)
  obtain out h where w: "w = (out, h)" by (cases w)
  show ?thesis
  proof (cases h)
    case None
    with assms(1) Inr w show ?thesis by (simp add: read_result_def tool_result_create_def)
  next
    case (Some g)
    have "length (read_hint g) \<le> 4 * length buf + 100" using hint_short Inr w Some by blast
    moreover have "length (cstr out) \<le> length buf"
      using window_in_buffer [OF Inr [unfolded w]] length_takeWhile_le [of "\<lambda>c. c \<noteq> NUL" out]
      unfolding cstr_def by linarith
    ultimately have "length (read_hint g) \<le> SIZE_MAX - length (cstr out) - 1"
      using assms(2) by (simp add: SIZE_MAX_def)
    with assms(1) Inr w Some show ?thesis
      by (simp add: read_result_def tool_result_create_def str_append_def)
  qed
qed (use assms(1) in \<open>simp add: read_result_def tool_result_error_def\<close>)

lemma signed64_small: "n < 2 ^ 63 \<Longrightarrow> signed64 n = int n"
  by (simp add: signed64_def signed_of_nat signed_take_bit_int_eq_self)

text \<open>A limit too large for a \<open>long\<close>, such as the one a negative setting gives, refuses every file.\<close>

lemma huge_limit_refuses_all:
  "max_file_size cfg = size_of_int (- 1) \<Longrightarrow> failed (read_resolved open_read cfg resolved offset limit)"
  by (auto simp: read_resolved_def signed64_def size_of_int_def simp del: not_None_eq split: option.splits)

text \<open>
  C14: what is read is what the policy allows. A text is only returned for a path that passes the
  checks, from the file the path is resolved to, if it was read completely and is no larger than
  the limit; the text is the lines asked for, without an offset and a limit the first 4000, and the
  hint is there exactly if lines follow and names the next one.
\<close>

theorem read_file_reads:
  assumes "content (read_file_execute cj realpath open_read cfg args) = Some t"
    and "max_file_size cfg < 2 ^ 60"
  shows "\<exists>doc path resolved bytes offset limit out. j_parse cj args = Some doc \<and>
     string_of cj (j_get cj doc ''file_path'') = Some path \<and> safety_check_path cfg (Some path) \<and>
     safety_resolve_path_alloc realpath (Some cfg) (Some path) = Some resolved \<and>
     open_read resolved = Some (int (length bytes), bytes) \<and> length bytes \<le> max_file_size cfg \<and>
     whole_arg cj 0 (j_get cj doc ''offset'') = Some (int offset) \<and>
     whole_arg cj 1 (j_get cj doc ''limit'') = Some (int limit) \<and>
     (let wanted = (if limit > 0 then limit else READ_MAX_LINES); n = length (split_on LF bytes);
          lst = offset - 1 + wanted
      in offset - 1 < n \<and> out = join_with LF (take wanted (drop (offset - 1) (text_lines bytes))) \<and>
         t = cstr out @ (if lst < n then read_hint (offset - 1 + 1, lst, n) else []))"
proof -
  have res: "content (tool_result_error m c) = None" for m c by (simp add: tool_result_error_def)
  have nonneg: "whole_arg cj 0 v = Some x \<Longrightarrow> 0 \<le> x" "whole_arg cj 1 v = Some x \<Longrightarrow> 0 \<le> x" for v x
    by (auto simp: whole_arg_def split: option.splits if_splits)
  from assms(1) obtain doc path off lim resolved where a:
    "j_parse cj args = Some doc" "string_of cj (j_get cj doc ''file_path'') = Some path"
    "whole_arg cj 0 (j_get cj doc ''offset'') = Some off" "whole_arg cj 1 (j_get cj doc ''limit'') = Some lim"
    "safety_check_path cfg (Some path)" "safety_resolve_path_alloc realpath (Some cfg) (Some path) = Some resolved"
    "content (read_resolved open_read cfg resolved (nat off) (nat lim)) = Some t"
    by (auto simp: read_file_execute_def res split: option.splits if_splits)
  then obtain bytes where b: "open_read resolved = Some (int (length bytes), bytes)"
    "int (length bytes) \<le> signed64 (max_file_size cfg)" "content (read_result bytes (nat off) (nat lim)) = Some t"
    by (auto simp: read_resolved_def res split: option.splits if_splits)
  have small: "length bytes \<le> max_file_size cfg" using b(2) assms(2) by (simp add: signed64_small)
  then obtain out h where w: "read_window bytes (nat off) (nat lim) = Inr (out, h)"
    "t = cstr out @ (case h of None \<Rightarrow> [] | Some g \<Rightarrow> read_hint g)"
    using read_result_success [OF b(3)] assms(2) by auto
  have n: "length (split_on LF bytes) = length (text_lines bytes)" by (simp add: text_lines_def)
  define wanted where "wanted = (if nat lim > 0 then nat lim else READ_MAX_LINES)"
  have win: "nat off - 1 < length (split_on LF bytes)"
    "out = join_with LF (take wanted (drop (nat off - 1) (text_lines bytes)))"
    "h = (if nat off - 1 + wanted < length (split_on LF bytes)
          then Some (nat off - 1 + 1, nat off - 1 + wanted, length (split_on LF bytes)) else None)"
    using w(1) unfolding read_window_eq wanted_def [symmetric] n by (simp_all split: if_splits)
  have t: "t = cstr out @ (if nat off - 1 + wanted < length (split_on LF bytes)
      then read_hint (nat off - 1 + 1, nat off - 1 + wanted, length (split_on LF bytes)) else [])"
    unfolding w(2) win(3) by simp
  have args: "whole_arg cj 0 (j_get cj doc ''offset'') = Some (int (nat off))"
    "whole_arg cj 1 (j_get cj doc ''limit'') = Some (int (nat lim))"
    using a(3,4) nonneg(1) [OF a(3)] nonneg(2) [OF a(4)] by simp_all
  from a(1,2,5,6) b(1) small args win(1,2) t show ?thesis
    unfolding Let_def wanted_def by blast
qed

definition two_lines :: string where "two_lines = [CHR ''a'', LF, CHR ''b'']"

theorem read_file_reads_witness:
  "content (read_file_execute
     (doc_json [(''r'', DObject [(''file_path'', DText ''a.txt''), (''limit'', DNumber 1)])])
     sample_realpath (\<lambda>p. if p = ''/w/a.txt'' then Some (3, two_lines) else None) work_config ''r'') =
   Some (''a'' @ read_hint (1, 1, 2))"
proof -
  let ?r = "read_file_execute
     (doc_json [(''r'', DObject [(''file_path'', DText ''a.txt''), (''limit'', DNumber 1)])])
     sample_realpath (\<lambda>p. if p = ''/w/a.txt'' then Some (3, two_lines) else None) work_config ''r''"
  have max: "max_file_size work_config = 10485760" by (simp add: work_config_def safety_config_create_def)
  have "safety_resolve_path_alloc sample_realpath (Some work_config) (Some ''a.txt'') = Some ''/w/a.txt''"
    by (simp add: safety_resolve_path_alloc_def resolve_candidate_def work_config_def
        safety_config_create_def sample_realpath_def has_sub_def PATH_MAX_def
        safety_path_is_within_workspace_def)
  moreover have "safety_check_path work_config (Some ''a.txt'')"
    by (simp add: safety_check_path_def work_config_def safety_config_create_def has_sub_def
        str_ends_with_def default_blocked_exts_def default_blocked_paths_def)
  ultimately have ok: "content ?r \<noteq> None"
    by (simp add: read_file_execute_def doc_get_def lower_def to_lower_def is_upper_def string_of_def cstr_def
        whole_arg_def c_long_def read_resolved_def signed64_small max two_lines_def read_result_def
        read_window_def line_starts_def Let_def tool_result_create_def str_append_def SIZE_MAX_def)
  then obtain t where t: "content ?r = Some t" by blast
  have small: "max_file_size work_config < 2 ^ 60" by (simp add: max)
  have "t = ''a'' @ read_hint (Suc 0, Suc 0, Suc (Suc 0))"
    using read_file_reads [OF t small]
    by (auto simp: doc_get_def lower_def to_lower_def is_upper_def string_of_def cstr_def whole_arg_def
        c_long_def two_lines_def Let_def text_lines_def split: if_splits)
  with t show ?thesis by (simp add: numeral_2_eq_2)
qed

end
