(* ===== verification/FileWrite.thy ===== *)
theory FileWrite
  imports FileRead ChangeTracker
begin

text \<open>
  \<open>tools/write_file.c\<close>: writing a file, with the directories it needs. The directories are a
  state of a type left open, on which \<open>realpath\<close> and \<open>mkdir\<close> are parameters; the contents of
  files are a map from canonical paths. Every \<open>mkdir\<close> is recorded together with the state of the directories it was
  made in. Opening a file for writing follows a symbolic link, also one whose target is missing: where
  the link at a path leads is a parameter too (\<open>d_link\<close>). Allocations are assumed to succeed, except the message of success.
\<close>

datatype mkdir_result = MkdirDone | EEXIST | MkdirFailed

record 'd dir_calls =
  d_realpath :: "'d \<Rightarrow> string \<Rightarrow> errno + string"
  d_mkdir :: "'d \<Rightarrow> string \<Rightarrow> mkdir_result \<times> 'd"
  d_link :: "'d \<Rightarrow> string \<Rightarrow> string option"

type_synonym 'd mkdirs = "('d \<times> string) list"

section \<open>Directories\<close>

text \<open>The pieces up to the next slash and after it.\<close>

definition next_slash :: "string \<Rightarrow> string \<times> string option" where
  "next_slash p =
     (case memchr (CHR ''/'') p of None \<Rightarrow> (p, None) | Some k \<Rightarrow> (take k p, Some (drop (k + 1) p)))"

lemma next_slash_shorter: "next_slash p = (seg, Some after) \<Longrightarrow> length after < length p"
  by (auto simp: next_slash_def memchr_def split: option.splits dest: find_index_Some_length)

text \<open>\<open>before\<close> is what of the path precedes \<open>p\<close>.\<close>

function mkdir_loop :: "'d dir_calls \<Rightarrow> string \<Rightarrow> string \<Rightarrow> 'd \<Rightarrow> int \<times> 'd mkdirs \<times> 'd" where
  "mkdir_loop sys before p d =
     (case next_slash p of (seg, after) \<Rightarrow>
        (case d_mkdir sys d (before @ seg) of (rc, d') \<Rightarrow>
           if rc = MkdirFailed then (-1, [(d, before @ seg)], d')
           else (case after of
                   None \<Rightarrow> (0, [(d, before @ seg)], d')
                 | Some rest \<Rightarrow>
                     (case mkdir_loop sys (before @ seg @ ''/'') rest d' of (code, ms, d'') \<Rightarrow>
                        (code, (d, before @ seg) # ms, d'')))))"
  by pat_completeness auto
termination
  by (relation "measure (\<lambda>(sys, before, p, d). length p)") (auto simp: next_slash_shorter [OF sym])

definition write_file_mkdir_p :: "'d dir_calls \<Rightarrow> string \<Rightarrow> 'd \<Rightarrow> int \<times> 'd mkdirs \<times> 'd" where
  "write_file_mkdir_p sys dir d =
     (if dir \<noteq> [] \<and> hd dir = CHR ''/'' then mkdir_loop sys ''/'' (tl dir) d else mkdir_loop sys [] dir d)"

text \<open>One round of the walk: the prefix must be in the workspace, and is made if it is missing.\<close>

definition walk_step ::
  "'d dir_calls \<Rightarrow> safety_config \<Rightarrow> string \<Rightarrow> 'd \<Rightarrow> bool \<times> 'd mkdirs \<times> 'd" where
  "walk_step sys cfg path d =
     (case d_realpath sys d path of
        Inr check \<Rightarrow>
          (safety_path_is_within_workspace (d_realpath sys d) (Some cfg) (Some check), [], d)
      | Inl ENOENT \<Rightarrow>
          (case d_mkdir sys d path of (rc, d') \<Rightarrow>
             if rc = MkdirFailed then (False, [(d, path)], d')
             else (case d_realpath sys d' path of
                     Inl e \<Rightarrow> (False, [(d, path)], d')
                   | Inr check \<Rightarrow>
                       (safety_path_is_within_workspace (d_realpath sys d') (Some cfg) (Some check),
                        [(d, path)], d')))
      | Inl OtherError \<Rightarrow> (False, [], d))"

function ensure_walk ::
  "'d dir_calls \<Rightarrow> safety_config \<Rightarrow> string \<Rightarrow> string \<Rightarrow> 'd \<Rightarrow> int \<times> 'd mkdirs \<times> 'd" where
  "ensure_walk sys cfg pre rest d =
     (if rest = [] then (0, [], d)
      else (case next_slash rest of (seg, after) \<Rightarrow>
              if length pre + 1 + length seg \<ge> PATH_MAX then (-1, [], d)
              else (case walk_step sys cfg (pre @ ''/'' @ seg) d of (ok, ms, d') \<Rightarrow>
                      if \<not> ok then (-1, ms, d')
                      else (case after of
                              None \<Rightarrow> (0, ms, d')
                            | Some rest' \<Rightarrow>
                                (case ensure_walk sys cfg (pre @ ''/'' @ seg) rest' d' of
                                   (code, ms', d'') \<Rightarrow> (code, ms @ ms', d''))))))"
  by pat_completeness auto
termination
  by (relation "measure (\<lambda>(sys, cfg, pre, rest, d). length rest)") (auto simp: next_slash_shorter [OF sym])

declare mkdir_loop.simps [simp del] ensure_walk.simps [simp del]

definition write_file_ensure_parents ::
  "'d dir_calls \<Rightarrow> safety_config option \<Rightarrow> cptr \<Rightarrow> 'd \<Rightarrow> int \<times> 'd mkdirs \<times> 'd" where
  "write_file_ensure_parents sys cfgo path d =
     (case (cfgo, path) of
        (Some cfg, Some p) \<Rightarrow>
          (case workspace cfg of
             None \<Rightarrow> (-1, [], d)
           | Some w \<Rightarrow>
               if safety_mode cfg = SAFETY_MODE_UNRESTRICTED then (0, [], d)
               else if has_sub p ''..'' then (-1, [], d)
               else (case d_realpath sys d w of
                       Inl e \<Rightarrow> (-1, [], d)
                     | Inr rdir \<Rightarrow>
                         let candidate = (if p \<noteq> [] \<and> hd p = CHR ''/'' then p else rdir @ ''/'' @ p)
                         in if length candidate \<ge> PATH_MAX then (-1, [], d)
                            else (case split_last_slash candidate of
                                    None \<Rightarrow> (-1, [], d)
                                  | Some (dir, base) \<Rightarrow>
                                      if base = [] then (-1, [], d)
                                      else if take (length rdir) dir \<noteq> rdir \<or>
                                              (length dir \<noteq> length rdir \<and> dir ! length rdir \<noteq> CHR ''/'')
                                      then (-1, [], d)
                                      else let rest = drop (length rdir) dir
                                           in ensure_walk sys cfg rdir
                                                (if rest \<noteq> [] \<and> hd rest = CHR ''/'' then tl rest else rest) d)))
      | _ \<Rightarrow> (-1, [], d))"

section \<open>The tool\<close>

text \<open>
  What is carried through a call: the directories, the undo stacks (if any), the files; the
  recorded \<open>mkdir\<close>s come first in the result.
\<close>

type_synonym 'd disk = "'d \<times> change_tracker option \<times> fs"

definition snapshot_first :: "ct_env \<Rightarrow> string \<Rightarrow> 'd disk \<Rightarrow> 'd disk" where
  "snapshot_first env resolved s =
     (case s of (d, ct, fs) \<Rightarrow>
        (d, map_option (\<lambda>t. snd (ct_snapshot env (Some resolved) t fs)) ct, fs))"

text \<open>The file that \<open>fopen(path, "w")\<close> opens: the path, or where the symbolic link there leads.\<close>

definition opened :: "'d dir_calls \<Rightarrow> 'd \<Rightarrow> string \<Rightarrow> string" where
  "opened sys d path = (case d_link sys d path of None \<Rightarrow> path | Some target \<Rightarrow> target)"

definition write_resolved ::
  "'d dir_calls \<Rightarrow> ct_env \<Rightarrow> string \<Rightarrow> string \<Rightarrow> string \<Rightarrow> 'd disk \<Rightarrow> tool_result \<times> 'd disk" where
  "write_resolved sys env path resolved body s =
     (case snapshot_first env resolved s of (d, ct, fs) \<Rightarrow>
        (case wr env of
           CannotOpen \<Rightarrow>
             (tool_result_error (Some ''cannot write to path'') (Some ''permission_denied''), (d, ct, fs))
         | Short n \<Rightarrow>
             (tool_result_error (Some ''cannot write to file'') (Some ''execution_error''),
              (d, ct, fs(opened sys d resolved \<mapsto> take n body)))
         | Complete \<Rightarrow>
             (tool_result_create
                (Some (''Written '' @ dec_nat (length body) @ '' bytes to '' @ path)),
              (d, ct, fs(opened sys d resolved \<mapsto> body)))))"

text \<open>The path to write to, with the directories made on the way.\<close>

definition write_target ::
  "'d dir_calls \<Rightarrow> safety_config \<Rightarrow> string \<Rightarrow> 'd \<Rightarrow> (tool_result + string) \<times> 'd mkdirs \<times> 'd" where
  "write_target sys cfg path d =
     (case safety_resolve_path_alloc (d_realpath sys d) (Some cfg) (Some path) of
        None \<Rightarrow>
          (case write_file_ensure_parents sys (Some cfg) (Some path) d of (rc, ms, d') \<Rightarrow>
             (case (if rc = 0 then safety_resolve_path_alloc (d_realpath sys d') (Some cfg) (Some path)
                    else None) of
                None \<Rightarrow> (Inl (tool_result_error (Some ''path resolution failed'')
                               (Some ''execution_error'')), ms, d')
              | Some resolved \<Rightarrow> (Inr resolved, ms, d')))
      | Some resolved \<Rightarrow>
          if safety_mode cfg = SAFETY_MODE_UNRESTRICTED
          then (case split_last_slash resolved of
                  None \<Rightarrow> (Inr resolved, [], d)
                | Some (dir, base) \<Rightarrow>
                    if base = [] then (Inr resolved, [], d)
                    else (case write_file_mkdir_p sys dir d of (rc, ms, d') \<Rightarrow>
                            if rc \<noteq> 0
                            then (Inl (tool_result_error (Some ''cannot create parent directory'')
                                       (Some ''permission_denied'')), ms, d')
                            else (Inr resolved, ms, d')))
          else (Inr resolved, [], d))"

definition write_file_execute ::
  "('j, 'x) cjson_scheme \<Rightarrow> 'd dir_calls \<Rightarrow> ct_env \<Rightarrow> safety_config \<Rightarrow> string \<Rightarrow> 'd disk \<Rightarrow>
     tool_result \<times> 'd mkdirs \<times> 'd disk" where
  "write_file_execute cj sys env cfg args_json s =
     (case j_parse cj args_json of
        None \<Rightarrow> (tool_result_error (Some ''invalid arguments JSON'') (Some ''validation_error''), [], s)
      | Some args \<Rightarrow>
          (case (string_of cj (j_get cj args ''file_path''), string_of cj (j_get cj args ''content'')) of
             (Some path, Some body) \<Rightarrow>
               if \<not> safety_check_path cfg (Some path)
               then (tool_result_error (Some ''path rejected by safety policy'')
                       (Some ''policy_denied''), [], s)
               else if length body > max_file_size cfg
               then (tool_result_error (Some ''content exceeds max file size'')
                       (Some ''policy_denied''), [], s)
               else (case s of (d, ct, fs) \<Rightarrow>
                       (case write_target sys cfg path d of
                          (Inl e, ms, d') \<Rightarrow> (e, ms, (d', ct, fs))
                        | (Inr resolved, ms, d') \<Rightarrow>
                            (case write_resolved sys env path resolved body (d', ct, fs) of
                               (r, s') \<Rightarrow> (r, ms, s'))))
           | _ \<Rightarrow> (tool_result_error (Some ''missing 'file_path' or 'content' argument'')
                     (Some ''validation_error''), [], s)))"

section \<open>Writing is confined\<close>

text \<open>A directory that is made directly inside a directory that is canonically in the workspace.\<close>

definition made_inside :: "'d dir_calls \<Rightarrow> string \<Rightarrow> 'd \<times> string \<Rightarrow> bool" where
  "made_inside sys w m \<longleftrightarrow>
     (\<exists>parent seg rdir c. snd m = parent @ ''/'' @ seg \<and> CHR ''/'' \<notin> set seg \<and> \<not> has_sub seg ''..'' \<and>
        d_realpath sys (fst m) w = Inr rdir \<and> d_realpath sys (fst m) parent = Inr c \<and> inside rdir c)"

lemma next_slash_parts:
  assumes "next_slash p = (seg, after)"
  shows "CHR ''/'' \<notin> set seg \<and> sublist seg p \<and> (\<forall>r. after = Some r \<longrightarrow> sublist r p)"
proof (cases "memchr (CHR ''/'') p")
  case None
  then have "CHR ''/'' \<notin> set p" by (auto simp: memchr_def find_index_None)
  moreover have "seg = p" "after = None" using assms None by (simp_all add: next_slash_def)
  ultimately show ?thesis by simp
next
  case (Some k)
  then have "find_index (\<lambda>c. c = CHR ''/'') p = Some k" by (simp add: memchr_def)
  from find_index_Some [OF this] have "\<forall>x \<in> set (take k p). x \<noteq> CHR ''/''" by simp
  moreover have "seg = take k p" "after = Some (drop (k + 1) p)"
    using assms Some by (simp_all add: next_slash_def)
  ultimately show ?thesis by (auto simp: sublist_take sublist_drop)
qed

lemma walk_step_inside:
  assumes "\<forall>d. realpath_spec (d_realpath sys d)" and "safety_mode cfg \<noteq> SAFETY_MODE_UNRESTRICTED"
    and "workspace cfg = Some w" and "walk_step sys cfg (pre @ ''/'' @ seg) d = (ok, ms, d')"
    and "CHR ''/'' \<notin> set seg" and "\<not> has_sub seg ''..''"
    and "d_realpath sys d w = Inr rdir" and "d_realpath sys d pre = Inr c" and "inside rdir c"
  shows "list_all (made_inside sys w) ms \<and>
    (ok \<longrightarrow> (\<exists>rdir' c'. d_realpath sys d' w = Inr rdir' \<and>
       d_realpath sys d' (pre @ ''/'' @ seg) = Inr c' \<and> inside rdir' c'))"
proof -
  have made: "made_inside sys w (d, pre @ ''/'' @ seg)"
    using assms(5-9) by (auto simp: made_inside_def)
  have within: "\<exists>rdir'. d_realpath sys e w = Inr rdir' \<and> inside rdir' q"
    if "safety_path_is_within_workspace (d_realpath sys e) (Some cfg) (Some q)"
      "d_realpath sys e path = Inr q" for e q path
    using realpath_spec.within_canonical [OF assms(1) [rule_format] that(1)
        realpath_spec.canonical [OF assms(1) [rule_format] that(2)] assms(2,3)]
    by (metis inside_def)
  show ?thesis
    using assms(4) made within
    by (auto simp: walk_step_def split: sum.splits errno.splits prod.splits if_splits)
qed

lemma no_sub_part: "\<not> has_sub p n \<Longrightarrow> sublist q p \<Longrightarrow> \<not> has_sub q n"
  by (metis has_sub_sublist sublist_order.order.trans)

lemma ensure_walk_inside:
  assumes "\<forall>d. realpath_spec (d_realpath sys d)" and "safety_mode cfg \<noteq> SAFETY_MODE_UNRESTRICTED"
    and "workspace cfg = Some w"
  shows "\<not> has_sub rest ''..'' \<Longrightarrow> d_realpath sys d w = Inr rdir \<Longrightarrow> d_realpath sys d pre = Inr c \<Longrightarrow>
    inside rdir c \<Longrightarrow> ensure_walk sys cfg pre rest d = (code, ms, d') \<Longrightarrow> list_all (made_inside sys w) ms"
  using assms
proof (induction sys cfg pre rest d arbitrary: rdir c code ms d' rule: ensure_walk.induct)
  case (1 sys cfg pre rest d)
  obtain seg after where ns: "next_slash rest = (seg, after)" by fastforce
  obtain ok ms1 d1 where ws: "walk_step sys cfg (pre @ ''/'' @ seg) d = (ok, ms1, d1)"
    by (metis prod_cases3)
  note parts = next_slash_parts [OF ns]
  have nd: "\<not> has_sub seg ''..''" using parts 1(2) no_sub_part by blast
  note step = walk_step_inside [OF 1(7-9) ws conjunct1 [OF parts] nd 1(3-5)]
  note unfolded = 1(6) [unfolded ensure_walk.simps [of sys cfg pre rest d] ns ws prod.case]
  show ?case
  proof (cases "rest = [] \<or> length pre + 1 + length seg \<ge> PATH_MAX \<or> \<not> ok \<or> after = None")
    case True
    with unfolded step show ?thesis by (auto split: if_splits option.splits)
  next
    case False
    then obtain r where r: "after = Some r" by blast
    obtain code2 ms2 d2 where e: "ensure_walk sys cfg (pre @ ''/'' @ seg) r d1 = (code2, ms2, d2)"
      by (metis prod_cases3)
    from step False obtain rdir1 c1 where i: "d_realpath sys d1 w = Inr rdir1"
      "d_realpath sys d1 (pre @ ''/'' @ seg) = Inr c1" "inside rdir1 c1" by blast
    have "\<not> has_sub r ''..''" using parts r 1(2) no_sub_part by blast
    then have "list_all (made_inside sys w) ms2"
      using 1(1) [OF _ ns [symmetric] _ ws [symmetric] refl _ r _ i e 1(7-9)] False by auto
    with unfolded False step e r show ?thesis by auto
  qed
qed

lemma ensure_parents_inside:
  assumes "\<forall>d. realpath_spec (d_realpath sys d)" and "safety_mode cfg \<noteq> SAFETY_MODE_UNRESTRICTED"
    and "workspace cfg = Some w" and "write_file_ensure_parents sys (Some cfg) (Some p) d = (code, ms, d')"
  shows "list_all (made_inside sys w) ms"
proof (cases "ms = []")
  case False
  with assms(2-4) obtain rdir dir base where
    e: "\<not> has_sub p ''..''" "d_realpath sys d w = Inr rdir"
    "split_last_slash (if p \<noteq> [] \<and> hd p = CHR ''/'' then p else rdir @ ''/'' @ p) = Some (dir, base)"
    "take (length rdir) dir = rdir"
    "ensure_walk sys cfg rdir (let rest = drop (length rdir) dir
       in if rest \<noteq> [] \<and> hd rest = CHR ''/'' then tl rest else rest) d = (code, ms, d')"
    by (auto simp: write_file_ensure_parents_def Let_def split: if_splits sum.splits option.splits prod.splits)
  let ?rest = "let rest = drop (length rdir) dir in if rest \<noteq> [] \<and> hd rest = CHR ''/'' then tl rest else rest"
  have cand: "(if p \<noteq> [] \<and> hd p = CHR ''/'' then p else rdir @ ''/'' @ p) = dir @ ''/'' @ base"
    using split_last_slash_Some [OF e(3)] by simp
  have "sublist ?rest p"
  proof (cases "p \<noteq> [] \<and> hd p = CHR ''/''")
    case True
    have "sublist ?rest (drop (length rdir) dir)" by (simp add: Let_def sublist_tl)
    moreover have "sublist (drop (length rdir) dir) dir" by (simp add: sublist_drop)
    moreover have "sublist dir p" using cand True by simp
    ultimately show ?thesis by (meson sublist_order.order.trans)
  next
    case False
    define x where "x = drop (length rdir) dir"
    have "dir = rdir @ x" using e(4) x_def by (metis append_take_drop_id)
    with cand False have "x @ ''/'' @ base = ''/'' @ p" by simp
    then have "x = [] \<or> hd x = CHR ''/'' \<and> p = tl x @ ''/'' @ base" by (cases x) auto
    then show ?thesis by (auto simp flip: x_def)
  qed
  then have "\<not> has_sub ?rest ''..''" using e(1) no_sub_part by blast
  moreover have "d_realpath sys d rdir = Inr rdir"
    using realpath_spec.canonical [OF assms(1) [rule_format] e(2)] .
  ultimately show ?thesis
    using ensure_walk_inside [OF assms(1-3) _ e(2) _ _ e(5)] by (simp add: inside_def)
qed simp

text \<open>What POSIX promises of links: the canonical name of a file is not one.\<close>

definition links_spec :: "'d dir_calls \<Rightarrow> bool" where
  "links_spec sys \<longleftrightarrow> (\<forall>d p. d_realpath sys d p = Inr p \<longrightarrow> d_link sys d p = None)"

text \<open>A name in a directory of the workspace that a lookup reports as missing.\<close>

definition missing_name :: "'d dir_calls \<Rightarrow> 'd \<Rightarrow> string \<Rightarrow> string \<Rightarrow> bool" where
  "missing_name sys d rdir resolved \<longleftrightarrow>
     (\<exists>dir parent base. d_realpath sys d (dir @ ''/'' @ base) = Inl ENOENT \<and> d_realpath sys d dir = Inr parent \<and>
        inside rdir parent \<and> resolved = parent @ ''/'' @ base \<and> base \<noteq> [] \<and> CHR ''/'' \<notin> set base \<and> \<not> has_sub base ''..'')"

lemma write_target_inside:
  assumes "\<forall>d. realpath_spec (d_realpath sys d)" and "safety_mode cfg \<noteq> SAFETY_MODE_UNRESTRICTED"
    and "workspace cfg = Some w" and "write_target sys cfg path d = (res, ms, d')"
  shows "list_all (made_inside sys w) ms \<and>
    (\<forall>resolved. res = Inr resolved \<longrightarrow>
       (\<exists>rdir. d_realpath sys d' w = Inr rdir \<and> inside rdir resolved \<and>
          (d_realpath sys d' resolved = Inr resolved \<or> missing_name sys d' rdir resolved))) \<and>
    (\<forall>e. res = Inl e \<longrightarrow> failed e)"
proof -
  have within: "\<exists>rdir. d_realpath sys e w = Inr rdir \<and> inside rdir q \<and>
      (d_realpath sys e q = Inr q \<or> missing_name sys e rdir q)"
    if "safety_resolve_path_alloc (d_realpath sys e) (Some cfg) (Some path) = Some q" for e q
    using resolved_inside [OF assms(1) [rule_format] assms(2,3) that] unfolding missing_name_def by metis
  obtain rc ms1 d1 where e: "write_file_ensure_parents sys (Some cfg) (Some path) d = (rc, ms1, d1)"
    by (metis prod_cases3)
  from ensure_parents_inside [OF assms(1-3) e] assms(2,4) within show ?thesis
    by (auto simp: write_target_def e iff del: not_None_eq split: option.splits if_splits)
qed

text \<open>
  C13: writing is confined, but for links to nothing. Outside the unrestricted mode, whatever the
  arguments say, each directory that is made is a new name, not \<open>..\<close>, in a directory that is
  canonically in the workspace at that moment, and at most one file is written, through a name in the
  workspace. That file itself lies in the workspace, unless the name was reported as missing because
  it is a symbolic link to a missing file: then it is the one the link leads to. If the call succeeds
  the file holds exactly the content and all other files are unchanged; a failed call leaves every
  file as it was, or one file with a beginning of the content.
\<close>

theorem write_file_confined:
  assumes "\<forall>d. realpath_spec (d_realpath sys d)" and "links_spec sys"
    and "safety_mode cfg \<noteq> SAFETY_MODE_UNRESTRICTED" and "workspace cfg = Some w"
    and "write_file_execute cj sys env cfg args (d, ct, fs) = (r, ms, (d', ct', fs'))"
  shows "list_all (made_inside sys w) ms \<and>
    (failed r \<and> fs' = fs \<or>
     (\<exists>doc body rdir resolved target out. j_parse cj args = Some doc \<and>
        string_of cj (j_get cj doc ''content'') = Some body \<and> length body \<le> max_file_size cfg \<and>
        d_realpath sys d' w = Inr rdir \<and> inside rdir resolved \<and>
        (target = resolved \<and> d_link sys d' resolved = None \<or>
         d_link sys d' resolved = Some target \<and> missing_name sys d' rdir resolved) \<and>
        fs' = fs(target \<mapsto> out) \<and> prefix out body \<and> (\<not> failed r \<longrightarrow> out = body)))"
proof (cases "failed r \<and> fs' = fs \<and> ms = []")
  case False
  then obtain doc path body where a: "j_parse cj args = Some doc"
    "string_of cj (j_get cj doc ''file_path'') = Some path"
    "string_of cj (j_get cj doc ''content'') = Some body"
    "safety_check_path cfg (Some path)" "length body \<le> max_file_size cfg"
    using assms(5) by (auto simp: write_file_execute_def split: option.splits if_splits)
  obtain res ms1 d1 where t: "write_target sys cfg path d = (res, ms1, d1)" by (metis prod_cases3)
  note inside = write_target_inside [OF assms(1,3,4) t]
  show ?thesis
  proof (cases res)
    case (Inl e)
    with assms(5) a t inside show ?thesis by (auto simp: write_file_execute_def)
  next
    case (Inr resolved)
    obtain r1 d2 ct2 fs2 where w: "write_resolved sys env path resolved body (d1, ct, fs) = (r1, d2, ct2, fs2)"
      by (metis prod_cases4)
    then have o: "d2 = d1" "failed r1 \<and> fs2 = fs \<or>
        (\<exists>out. fs2 = fs(opened sys d1 resolved \<mapsto> out) \<and> prefix out body \<and> (\<not> failed r1 \<longrightarrow> out = body))"
      by (auto simp: write_resolved_def snapshot_first_def take_is_prefix iff del: not_None_eq
          split: write_outcome.splits)
    obtain rdir where rdir: "d_realpath sys d1 w = Inr rdir" "inside rdir resolved"
      "d_realpath sys d1 resolved = Inr resolved \<or> missing_name sys d1 rdir resolved"
      using inside Inr by blast
    have at_target: "opened sys d1 resolved = resolved \<and> d_link sys d1 resolved = None \<or>
        d_link sys d1 resolved = Some (opened sys d1 resolved) \<and> missing_name sys d1 rdir resolved"
      using rdir(3) assms(2) by (auto simp: opened_def links_spec_def split: option.split)
    have eq: "r = r1" "ms = ms1" "d' = d1" "fs' = fs2"
      using assms(5) a t w o(1) Inr by (simp_all add: write_file_execute_def)
    show ?thesis
    proof (cases "failed r1 \<and> fs2 = fs")
      case True
      with eq inside show ?thesis by simp
    next
      case False
      with o(2) obtain out where "fs2 = fs(opened sys d1 resolved \<mapsto> out)" "prefix out body"
        "\<not> failed r1 \<longrightarrow> out = body" by blast
      with eq inside a rdir(1,2) at_target show ?thesis by blast
    qed
  qed
qed simp

section \<open>Write, read, undo\<close>

text \<open>Reading from the files that were written.\<close>

definition disk_reader :: "fs \<Rightarrow> reader" where
  "disk_reader fs p = map_option (\<lambda>b. (int (length b), b)) (fs p)"

lemma string_of_no_NUL: "string_of cj v = Some t \<Longrightarrow> NUL \<notin> set t"
  by (auto simp: string_of_def cstr_def split: option.splits dest: set_takeWhileD)

lemma read_whole:
  assumes "NUL \<notin> set buf" and "length (split_on LF buf) \<le> READ_MAX_LINES"
  shows "read_result buf 0 0 = tool_result_create (Some buf)"
  using assms
  by (simp add: read_result_def read_window_eq text_lines_no_NUL join_split_on cstr_id)

text \<open>
  C16: what was written is read back, and undone. If a call that writes over an existing file (a file,
  not a link) succeeds, reading the same path afterwards returns exactly the content, up to 4000 lines of it,
  and undoing the change puts every file back as it was before the call.
\<close>

theorem write_read_undo:
  assumes "write_file_execute cj sys env cfg args (d, Some tr, fs) = (r, ms, (d', ct', fs'))"
    and "\<not> failed r" and "j_parse cj args = Some doc"
    and "string_of cj (j_get cj doc ''file_path'') = Some path"
    and "string_of cj (j_get cj doc ''content'') = Some body"
    and "j_get cj doc ''offset'' = None" and "j_get cj doc ''limit'' = None"
    and "write_target sys cfg path d = (Inr q, ms, d')"
    and "safety_resolve_path_alloc (d_realpath sys d') (Some cfg) (Some path) = Some q"
    and "length (split_on LF body) \<le> READ_MAX_LINES" and "max_file_size cfg < 2 ^ 63"
    and "d_link sys d' q = None" and "fs q = Some old" and "can_read env" and "dup_ok env" and "wr later = Complete" and "dup_ok later"
  shows "content (read_file_execute cj (d_realpath sys d') (disk_reader fs') cfg args) = Some body \<and>
    (\<exists>tr' n tr''. ct' = Some tr' \<and> ct_undo later tr' fs' = (n, tr'', fs))"
proof -
  have w: "safety_check_path cfg (Some path)" "length body \<le> max_file_size cfg"
    "write_resolved sys env path q body (d', Some tr, fs) = (r, d', ct', fs')"
    using assms(1-5,8) by (auto simp: write_file_execute_def split: if_splits prod.splits)
  have o: "opened sys d' q = q" using assms(12) by (simp add: opened_def)
  have eff: "fs' = fs(q \<mapsto> body)" "ct' = Some (snd (ct_snapshot env (Some q) tr fs))"
    using w(3) assms(2) o by (auto simp: write_resolved_def snapshot_first_def split: write_outcome.splits)
  have "content (read_file_execute cj (d_realpath sys d') (disk_reader fs') cfg args) = Some body"
    using assms(3,4,6,7,9,10,11) w(1,2) read_whole [OF string_of_no_NUL [OF assms(5)] assms(10)]
    by (simp add: read_file_execute_def whole_arg_def read_resolved_def disk_reader_def eff(1)
        signed64_small tool_result_create_def)
  moreover have "\<exists>n tr''. ct_undo later (snd (ct_snapshot env (Some q) tr fs)) fs' = (n, tr'', fs)"
    using assms(13-17)
    by (simp add: ct_snapshot_def ct_undo_def write_entry_def entry_bytes_def eff(1) Let_def fun_upd_idem)
  ultimately show ?thesis using eff(2) by blast
qed

text \<open>A root directory and a workspace; directories that are made are added.\<close>

definition tree_calls :: "string list dir_calls" where
  "tree_calls =
     \<lparr>d_realpath = (\<lambda>ds p. if p \<in> set ds then Inr p else Inl ENOENT),
      d_mkdir = (\<lambda>ds p. if p \<in> set ds then (EEXIST, ds) else (MkdirDone, p # ds)),
      d_link = (\<lambda>ds p. None)\<rparr>"

interpretation tree: realpath_spec "d_realpath tree_calls ds" for ds
  by unfold_locales (auto simp: tree_calls_def split: if_splits)

definition fine_env :: ct_env where
  "fine_env = \<lparr>can_read = True, wr = Complete, dup_ok = True\<rparr>"

definition write_args :: doc where
  "write_args = DObject [(''file_path'', DText ''b/c''), (''content'', DText ''new'')]"

lemma tree_sel [simp]:
  "d_realpath tree_calls ds p = (if p \<in> set ds then Inr p else Inl ENOENT)"
  "d_mkdir tree_calls ds p = (if p \<in> set ds then (EEXIST, ds) else (MkdirDone, p # ds))"
  "d_link tree_calls ds p = None"
  by (simp_all add: tree_calls_def)

lemma work_sel [simp]:
  "workspace work_config = Some ''/w''" "safety_mode work_config = SAFETY_MODE_RESTRICTED"
  "max_file_size work_config = 10485760"
  by (simp_all add: work_config_def safety_config_create_def)

lemma demo_resolves:
  "safety_resolve_path_alloc (d_realpath tree_calls [''/w'']) (Some work_config) (Some ''b/c'') = None"
  "safety_resolve_path_alloc (d_realpath tree_calls [''/w/b'', ''/w'']) (Some work_config) (Some ''b/c'') =
     Some ''/w/b/c''"
  by (simp_all add: safety_resolve_path_alloc_def resolve_candidate_def PATH_MAX_def has_sub_def
      split_last_slash_def safety_path_is_within_workspace_def)

lemma demo_target:
  "write_target tree_calls work_config ''b/c'' [''/w''] =
     (Inr ''/w/b/c'', [([''/w''], ''/w/b'')], [''/w/b'', ''/w''])"
proof -
  have "ensure_walk tree_calls work_config ''/w'' ''b'' [''/w''] = (0, [([''/w''], ''/w/b'')], [''/w/b'', ''/w''])"
    by (simp add: ensure_walk.simps next_slash_def memchr_def PATH_MAX_def walk_step_def
        safety_path_is_within_workspace_def)
  then have "write_file_ensure_parents tree_calls (Some work_config) (Some ''b/c'') [''/w''] =
      (0, [([''/w''], ''/w/b'')], [''/w/b'', ''/w''])"
    by (simp add: write_file_ensure_parents_def has_sub_def PATH_MAX_def split_last_slash_def Let_def)
  with demo_resolves show ?thesis by (simp add: write_target_def)
qed

lemma demo_keys [simp]: "lower ''file_path'' = ''file_path''" "lower ''offset'' = ''offset''" "lower ''limit'' = ''limit''"
  by (simp_all add: lower_def to_lower_def is_upper_def)

lemma write_demo:
  "write_file_execute (doc_json [(''a'', write_args)]) tree_calls fine_env work_config ''a''
     ([''/w''], Some ct_create, [''/w/b/c'' \<mapsto> ''old'']) =
   (tool_result_create (Some ''Written 3 bytes to b/c''), [([''/w''], ''/w/b'')],
    ([''/w/b'', ''/w''], Some (snd (ct_snapshot fine_env (Some ''/w/b/c'') ct_create [''/w/b/c'' \<mapsto> ''old''])),
     [''/w/b/c'' \<mapsto> ''new'']))"
proof -
  have "safety_check_path work_config (Some ''b/c'')"
    by (simp add: safety_check_path_def work_config_def safety_config_create_def has_sub_def
        str_ends_with_def default_blocked_exts_def default_blocked_paths_def)
  moreover have "dec_nat (Suc (Suc (Suc 0))) = ''3''" by code_simp
  ultimately show ?thesis
    by (simp add: write_file_execute_def write_args_def doc_get_def string_of_def cstr_def demo_target
        write_resolved_def opened_def snapshot_first_def fine_env_def)
qed

theorem write_file_confined_witness:
  "made_inside tree_calls ''/w'' ([''/w''], ''/w/b'')"
  using conjunct1 [OF write_file_confined [OF _ _ _ _ write_demo, of "''/w''"]] tree.realpath_spec_axioms
  by (simp add: links_spec_def)

theorem write_read_undo_witness:
  "content (read_file_execute (doc_json [(''a'', write_args)]) (d_realpath tree_calls [''/w/b'', ''/w''])
     (disk_reader [''/w/b/c'' \<mapsto> ''new'']) work_config ''a'') = Some ''new''"
  by (rule conjunct1 [OF write_read_undo [OF write_demo, where doc = write_args and later = fine_env
        and path = "''b/c''" and q = "''/w/b/c''" and old = "''old''"]])
     (simp_all add: write_args_def doc_get_def string_of_def cstr_def demo_target demo_resolves
        READ_MAX_LINES_def fine_env_def)

text \<open>
  A link in the workspace to a file that does not exist yet: the tool writes that file, outside.
\<close>

definition link_calls :: "string list dir_calls" where
  "link_calls = tree_calls\<lparr>d_link := (\<lambda>ds p. if p = ''/w/b'' then Some ''/home/profile'' else None)\<rparr>"

definition link_args :: doc where
  "link_args = DObject [(''file_path'', DText ''b''), (''content'', DText ''new'')]"

lemma dangling_link_written_outside:
  "snd (snd (snd (snd (write_file_execute (doc_json [(''a'', link_args)]) link_calls fine_env work_config ''a''
     ([''/w''], None, (\<lambda>_. None)))))) = [''/home/profile'' \<mapsto> ''new'']"
proof -
  have "safety_check_path work_config (Some ''b'')"
    by (simp add: safety_check_path_def work_config_def safety_config_create_def has_sub_def
        str_ends_with_def default_blocked_exts_def default_blocked_paths_def)
  moreover have "write_target link_calls work_config ''b'' [''/w''] = (Inr ''/w/b'', [], [''/w''])"
    by (simp add: link_calls_def write_target_def safety_resolve_path_alloc_def resolve_candidate_def PATH_MAX_def
        has_sub_def split_last_slash_def safety_path_is_within_workspace_def)
  ultimately show ?thesis
    by (simp add: write_file_execute_def link_args_def doc_get_def string_of_def cstr_def
        write_resolved_def opened_def link_calls_def snapshot_first_def fine_env_def)
qed

text \<open>
  Without restrictions a file directly in the root directory cannot be written: the directory
  before the last slash is the empty path, which \<open>mkdir\<close> does not make.
\<close>

lemma root_file_refused:
  assumes "safety_mode cfg = SAFETY_MODE_UNRESTRICTED" and "workspace cfg = Some w"
    and "fst (d_mkdir sys d []) = MkdirFailed"
  shows "\<exists>e ms d'. write_target sys cfg ''/f'' d = (Inl e, ms, d') \<and> error_category e = Some ''permission_denied''"
  using assms
  by (auto simp: write_target_def safety_resolve_path_alloc_def split_last_slash_def write_file_mkdir_p_def
      mkdir_loop.simps next_slash_def memchr_def tool_result_error_def split: prod.splits)

end
