(* ===== verification/OauthCallback.thy ===== *)
theory OauthCallback
  imports OauthCodec
begin

text \<open>
  The request that the browser brings back at the end of a sign-in
  (\<open>llm/oauth_callback.c\<close>, the parser): a byte array with its length is a \<open>string\<close>.
\<close>

definition OAUTH_REQUEST_MAX :: nat where "OAUTH_REQUEST_MAX = 8192"
definition OAUTH_QUERY_FIELDS_MAX :: nat where "OAUTH_QUERY_FIELDS_MAX = 16"
definition OPENAI_CALLBACK_PATH :: string where "OPENAI_CALLBACK_PATH = ''/auth/callback''"

record oauth_callback =
  cb_code :: cptr
  cb_state :: cptr
  cb_denial :: cptr

definition no_callback :: oauth_callback where
  "no_callback = \<lparr>cb_code = None, cb_state = None, cb_denial = None\<rparr>"

section \<open>Headers\<close>

definition bytes_find :: "string \<Rightarrow> string \<Rightarrow> nat option" where
  "bytes_find data needle =
     (if length needle = 0 \<or> length needle > length data then None else strstr_at data needle)"

definition valid_header_name :: "string \<Rightarrow> bool" where
  "valid_header_name nm \<longleftrightarrow>
     nm \<noteq> [] \<and> list_all (\<lambda>c. is_alnum c \<or> c \<in> set ''!#$%&*+-.^_|~'' \<or> byte c = 39 \<or> c = BACKTICK) nm"

definition name_equal :: "string \<Rightarrow> string \<Rightarrow> bool" where
  "name_equal nm wanted \<longleftrightarrow> length nm = length wanted \<and> lower nm = lower wanted"

definition is_blank :: "char \<Rightarrow> bool" where "is_blank c \<longleftrightarrow> c = SP \<or> c = TAB"

definition host_value_valid :: "string \<Rightarrow> bool" where
  "host_value_valid val =
     (let v = rtrim_by is_blank (ltrim_by is_blank val)
      in if v = ''127.0.0.1:1455'' then True
         else if length v \<noteq> length ''localhost:1455'' then False
         else lower v = ''localhost:1455'')"

definition bad_value_byte :: "char \<Rightarrow> bool" where
  "bad_value_byte c \<longleftrightarrow> (byte c < 0x20 \<and> c \<noteq> TAB) \<or> byte c = 0x7F"

text \<open>The loop over the lines, with the number of \<open>Host\<close> headers so far.\<close>

function check_headers :: "nat \<Rightarrow> string \<Rightarrow> bool" where
  "check_headers hosts rest =
     (if rest = [] then False
      else (case bytes_find rest CRLF of
              None \<Rightarrow> False
            | Some line_len \<Rightarrow>
                if line_len = 0 then length rest = 2 \<and> hosts = 1
                else (case memchr (CHR '':'') (take line_len rest) of
                        None \<Rightarrow> False
                      | Some name_len \<Rightarrow>
                          let nm = take name_len (take line_len rest);
                              val = drop (name_len + 1) (take line_len rest);
                              hosts' = (if name_equal nm ''host'' then hosts + 1 else hosts)
                          in if \<not> valid_header_name nm then False
                             else if name_equal nm ''content-length'' \<or> name_equal nm ''transfer-encoding''
                             then False
                             else if name_equal nm ''host'' \<and> (hosts' > 1 \<or> \<not> host_value_valid val)
                             then False
                             else if list_ex bad_value_byte val then False
                             else check_headers hosts' (drop (line_len + 2) rest))))"
  by pat_completeness auto
termination
  by (relation "measure (\<lambda>(h, r). length r)") auto

declare check_headers.simps [simp del]

definition validate_callback_headers :: "string \<Rightarrow> int" where
  "validate_callback_headers headers = (if check_headers 0 headers then 0 else -1)"

section \<open>The query\<close>

definition callback_set_field ::
  "oauth_callback \<Rightarrow> string list \<Rightarrow> string \<Rightarrow> string \<Rightarrow> oauth_callback option" where
  "callback_set_field cb names nm val =
     (if list_ex (\<lambda>n. n = nm) names then None
      else if nm = ''code'' then Some (cb\<lparr>cb_code := Some val\<rparr>)
      else if nm = ''state'' then Some (cb\<lparr>cb_state := Some val\<rparr>)
      else if nm = ''error'' then Some (cb\<lparr>cb_denial := Some val\<rparr>)
      else Some cb)"

text \<open>One \<open>name=value\<close>, decoded and stored.\<close>

definition query_part ::
  "string \<Rightarrow> string list \<Rightarrow> oauth_callback \<Rightarrow> (string list \<times> oauth_callback) option" where
  "query_part part names cb =
     (case memchr (CHR ''='') part of
        None \<Rightarrow> None
      | Some name_len \<Rightarrow>
          if name_len = 0 then None
          else (case (url_decode_exact (Some (take name_len part)),
                      url_decode_exact (Some (drop (name_len + 1) part))) of
                  (Some nm, Some val) \<Rightarrow>
                    (case callback_set_field cb names nm val of
                       None \<Rightarrow> None | Some cb' \<Rightarrow> Some (names @ [nm], cb'))
                | _ \<Rightarrow> None))"

function query_loop :: "string \<Rightarrow> string list \<Rightarrow> oauth_callback \<Rightarrow> oauth_callback option" where
  "query_loop rest names cb =
     (if rest = [] then Some cb
      else if length names \<ge> OAUTH_QUERY_FIELDS_MAX then None
      else (case memchr (CHR ''&'') rest of
              None \<Rightarrow> map_option snd (query_part rest names cb)
            | Some k \<Rightarrow>
                (case query_part (take k rest) names cb of
                   None \<Rightarrow> None
                 | Some (names', cb') \<Rightarrow>
                     if drop (k + 1) rest = [] then None
                     else query_loop (drop (k + 1) rest) names' cb')))"
  by pat_completeness auto
termination
  by (relation "measure (\<lambda>(r, n, c). length r)") auto

declare query_loop.simps [simp del]

definition parse_callback_query :: "string \<Rightarrow> oauth_callback option" where
  "parse_callback_query query =
     (case query_loop query [] no_callback of
        None \<Rightarrow> None
      | Some cb \<Rightarrow>
          if cb_state cb = None then None
          else if (cb_code cb = None \<and> cb_denial cb = None) \<or> (cb_code cb \<noteq> None \<and> cb_denial cb \<noteq> None)
          then None
          else Some cb)"

section \<open>The request\<close>

definition parse_callback_request :: "string \<Rightarrow> oauth_callback option" where
  "parse_callback_request req =
     (if req = [] \<or> length req > OAUTH_REQUEST_MAX then None
      else if NUL \<in> set req then None
      else (case (bytes_find req (CRLF @ CRLF), bytes_find req CRLF) of
              (Some header_end, Some line_len) \<Rightarrow>
                if header_end + 4 \<noteq> length req then None
                else let line = take line_len req
                     in if memchr SP line \<noteq> Some 3 \<or> take 3 line \<noteq> ''GET'' then None
                        else (case memchr SP (drop 4 line) of
                                None \<Rightarrow> None
                              | Some target_len \<Rightarrow>
                                  let target = take target_len (drop 4 line);
                                      version = drop (target_len + 1) (drop 4 line);
                                      path_len = length OPENAI_CALLBACK_PATH
                                  in if memchr SP version \<noteq> None then None
                                     else if version \<noteq> ''HTTP/1.1'' then None
                                     else if target_len \<le> path_len \<or>
                                             take path_len target \<noteq> OPENAI_CALLBACK_PATH \<or>
                                             target ! path_len \<noteq> CHR ''?''
                                     then None
                                     else if memchr (CHR ''#'') target \<noteq> None then None
                                     else if validate_callback_headers (drop (line_len + 2) req) \<noteq> 0 then None
                                     else parse_callback_query (drop (path_len + 1) target))
            | _ \<Rightarrow> None))"

section \<open>Which requests are accepted\<close>

type_synonym header = "string \<times> string"

definition header_line :: "header \<Rightarrow> string" where
  "header_line h = fst h @ '':'' @ snd h"

definition is_host :: "header \<Rightarrow> bool" where "is_host h \<longleftrightarrow> name_equal (fst h) ''host''"

definition header_ok :: "header \<Rightarrow> bool" where
  "header_ok h \<longleftrightarrow>
     valid_header_name (fst h) \<and> \<not> name_equal (fst h) ''content-length'' \<and>
     \<not> name_equal (fst h) ''transfer-encoding'' \<and> \<not> list_ex bad_value_byte (snd h) \<and>
     (is_host h \<longrightarrow> host_value_valid (snd h))"

definition header_lines :: "header list \<Rightarrow> string" where
  "header_lines hs = concat (map (\<lambda>h. header_line h @ CRLF) hs) @ CRLF"

definition request_text :: "string \<Rightarrow> header list \<Rightarrow> string" where
  "request_text query hs = ''GET '' @ OPENAI_CALLBACK_PATH @ ''?'' @ query @ '' HTTP/1.1'' @ CRLF @ header_lines hs"

lemma strstr_skip:
  "c \<notin> set p \<Longrightarrow> strstr_at (p @ q) (c # n) = map_option ((+) (length p)) (strstr_at q (c # n))"
  by (cases "strstr_at q (c # n)"; induction p) auto

lemma bytes_find_line: "CR \<notin> set l \<Longrightarrow> bytes_find (l @ CRLF @ r) CRLF = Some (length l)"
  by (simp add: bytes_find_def strstr_skip)

lemma header_bytes:
  assumes "header_ok h"
  shows "CR \<notin> set (header_line h)" "NUL \<notin> set (header_line h)" "header_line h \<noteq> []"
    "CHR '':'' \<notin> set (fst h)"
proof -
  have n: "c \<in> set (fst h) \<Longrightarrow> is_alnum c \<or> c \<in> set ''!#$%&*+-.^_|~'' \<or> byte c = 39 \<or> c = BACKTICK" for c
    using assms by (auto simp: header_ok_def valid_header_name_def list_all_iff)
  have v: "c \<in> set (snd h) \<Longrightarrow> \<not> bad_value_byte c" for c
    using assms by (auto simp: header_ok_def list_ex_iff)
  show "CR \<notin> set (header_line h)"
    using n [of CR] v [of CR] by (auto simp: header_line_def is_alnum_def is_digit_def is_upper_def is_lower_def bad_value_byte_def)
  show "NUL \<notin> set (header_line h)"
    using n [of NUL] v [of NUL] by (auto simp: header_line_def is_alnum_def is_digit_def is_upper_def is_lower_def bad_value_byte_def)
  show "CHR '':'' \<notin> set (fst h)"
    using n [of "CHR '':''"] by (auto simp: is_alnum_def is_digit_def is_upper_def is_lower_def)
  show "header_line h \<noteq> []" by (simp add: header_line_def)
qed

lemma memchr_split: "c \<notin> set p \<Longrightarrow> memchr c (p @ c # q) = Some (length p)"
  by (induction p) (auto simp: memchr_def)

lemma check_headers_text:
  "list_all header_ok hs \<Longrightarrow> n + length (filter is_host hs) = 1 \<Longrightarrow> check_headers n (header_lines hs)"
proof (induction hs arbitrary: n)
  case Nil
  then show ?case by (simp add: header_lines_def check_headers.simps bytes_find_def)
next
  case (Cons h hs)
  have h: "header_ok h" using Cons.prems by simp
  note b = header_bytes [OF h]
  have split: "header_lines (h # hs) = header_line h @ CRLF @ header_lines hs" by (simp add: header_lines_def)
  have m: "memchr (CHR '':'') (header_line h) = Some (length (fst h))"
    using memchr_split [OF b(4)] by (simp add: header_line_def)
  have rest: "check_headers (if is_host h then n + 1 else n) (header_lines hs)"
    using Cons by (auto split: if_splits)
  have "is_host h \<Longrightarrow> n = 0" using Cons.prems by simp
  with h rest b(3) show ?case
    unfolding split check_headers.simps [of n] bytes_find_line [OF b(1)]
    by (simp add: m header_ok_def is_host_def Let_def split: if_splits) (simp_all add: header_line_def)
qed

lemma check_headers_sound:
  "check_headers n rest \<Longrightarrow> \<exists>hs. rest = header_lines hs \<and> list_all header_ok hs \<and>
     n + length (filter is_host hs) = 1"
proof (induction n rest rule: check_headers.induct)
  case (1 n rest)
  from 1(2) obtain k where k: "rest \<noteq> []" "bytes_find rest CRLF = Some k"
    by (subst (asm) check_headers.simps) (auto split: if_splits option.splits)
  then have s: "strstr_at rest CRLF = Some k" by (simp add: bytes_find_def split: if_splits)
  have split: "rest = take k rest @ CRLF @ drop (k + 2) rest" using strstr_at_split [OF s] by simp
  show ?case
  proof (cases "k = 0")
    case True
    with 1(2) k have "length rest = 2 \<and> n = 1" by (subst (asm) check_headers.simps) simp
    moreover from this split True have "rest = CRLF" by simp
    ultimately show ?thesis by (intro exI [of _ "[]"]) (simp add: header_lines_def)
  next
    case False
    from 1(2) k False obtain j where j: "memchr (CHR '':'') (take k rest) = Some j"
      by (subst (asm) check_headers.simps) (auto split: option.splits)
    define h where "h = (take j (take k rest), drop (j + 1) (take k rest))"
    have "take k rest = header_line h"
    proof -
      have "j < length (take k rest)" "take k rest ! j = CHR '':''"
        using j find_index_Some unfolding memchr_def by blast+
      then show ?thesis using id_take_nth_drop [of j "take k rest"] by (simp add: h_def header_line_def)
    qed
    moreover have ok: "header_ok h" "is_host h \<longrightarrow> n = 0"
      "check_headers (if is_host h then n + 1 else n) (drop (k + 2) rest)"
      using 1(2) k False j
      by (subst (asm) check_headers.simps, auto simp: Let_def h_def header_ok_def is_host_def split: if_splits)+
    have nm: "valid_header_name (take j (take k rest))" "\<not> name_equal (take j (take k rest)) ''content-length''"
      "\<not> name_equal (take j (take k rest)) ''transfer-encoding''"
      "\<not> list_ex bad_value_byte (drop (j + 1) (take k rest))"
      "is_host h \<longleftrightarrow> name_equal (take j (take k rest)) ''host''"
      "name_equal (take j (take k rest)) ''host'' \<longrightarrow> host_value_valid (drop (j + 1) (take k rest))"
      using ok(1) by (simp_all add: header_ok_def is_host_def h_def)
    moreover obtain hs where "drop (k + 2) rest = header_lines hs" "list_all header_ok hs"
      "(if is_host h then n + 1 else n) + length (filter is_host hs) = 1"
      using 1(1) [OF k(1) k(2) False j refl refl refl] ok(2,3) nm
      by (cases "is_host h") auto
    ultimately show ?thesis using split ok(1,2)
      by (intro exI [of _ "h # hs"]) (auto simp: header_lines_def split: if_splits)
  qed
qed

lemma first_blank_line:
  assumes "list_all header_ok hs" and "CR \<notin> set l"
  shows "strstr_at (l @ CRLF @ header_lines hs) (CRLF @ CRLF) = Some (length (l @ CRLF @ header_lines hs) - 4)"
  using assms
proof (induction hs arbitrary: l)
  case Nil
  then show ?case by (simp add: header_lines_def strstr_skip)
next
  case (Cons h hs)
  have h: "header_ok h" using Cons.prems by simp
  note b = header_bytes [OF h]
  have "strstr_at ((LF # header_line h) @ CRLF @ header_lines hs) (CRLF @ CRLF) =
      Some (length ((LF # header_line h) @ CRLF @ header_lines hs) - 4)"
    using Cons.IH [of "LF # header_line h"] Cons.prems b by simp
  moreover have "header_lines (h # hs) = header_line h @ CRLF @ header_lines hs" by (simp add: header_lines_def)
  moreover have "\<not> prefix [LF, CR, LF] (LF # header_line h @ x)" for x
    using b(1,3) by (cases "header_line h") auto
  moreover have "2 \<le> length (header_lines hs)" by (simp add: header_lines_def)
  ultimately show ?case using Cons.prems(2) by (auto simp: strstr_skip)
qed

lemma url_decode_no_control: "url_decode_bytes s = Some t \<Longrightarrow> \<not> list_ex control_byte s"
proof (induction s arbitrary: t rule: url_decode_bytes.induct)
  case (2 c cs)
  have hex: "hex_value h \<ge> 0 \<Longrightarrow> \<not> control_byte h" for h
    by (auto simp: hex_value_def control_byte_def split: if_splits)
  have pct: "\<not> control_byte (CHR ''%'')" "\<not> control_byte (CHR ''+'')" by (simp_all add: control_byte_def)
  show ?case
  proof (cases "c = CHR ''%''")
    case True
    with 2(3) show ?thesis
      using hex pct 2(1) by (fastforce simp: put_byte_def split: list.splits if_splits option.splits)
  next
    case False
    with 2 show ?thesis by (auto simp: put_byte_def control_byte_def split: if_splits)
  qed
qed simp

lemma query_part_no_control:
  assumes "query_part part names cb = Some r" shows "\<not> list_ex control_byte part"
proof -
  from assms obtain n where n: "memchr (CHR ''='') part = Some n"
    "url_decode_exact (Some (take n part)) \<noteq> None" "url_decode_exact (Some (drop (n + 1) part)) \<noteq> None"
    by (auto simp: query_part_def split: option.splits if_splits)
  have p: "part = take n part @ CHR ''='' # drop (n + 1) part"
    using find_index_Some [of "\<lambda>d. d = CHR ''=''" part n] n(1) id_take_nth_drop [of n part]
    by (simp add: memchr_def)
  have "\<not> list_ex control_byte (take n part)" "\<not> list_ex control_byte (drop (n + 1) part)"
    using n url_decode_no_control by (auto simp: url_decode_exact_def split: if_splits)
  moreover have "\<not> control_byte (CHR ''='')" by (simp add: control_byte_def)
  ultimately show ?thesis by (subst p) simp
qed

lemma query_no_control: "query_loop q names cb = Some r \<Longrightarrow> \<not> list_ex control_byte q"
proof (induction q names cb rule: query_loop.induct)
  case (1 rest names cb)
  show ?case
  proof (cases "memchr (CHR ''&'') rest")
    case None
    with 1(2) show ?thesis
      using query_part_no_control by (subst (asm) query_loop.simps) (fastforce split: if_splits)
  next
    case (Some k)
    show ?thesis
    proof (cases "rest = []")
      case False
      with 1(2) Some obtain names' cb' where q: "\<not> OAUTH_QUERY_FIELDS_MAX \<le> length names"
        "query_part (take k rest) names cb = Some (names', cb')"
        "drop (k + 1) rest \<noteq> []" "query_loop (drop (k + 1) rest) names' cb' = Some r"
        by (subst (asm) query_loop.simps) (auto split: if_splits option.splits)
      have p: "rest = take k rest @ CHR ''&'' # drop (k + 1) rest"
        using find_index_Some [of "\<lambda>d. d = CHR ''&''" rest k] Some id_take_nth_drop [of k rest]
        by (simp add: memchr_def)
      have "\<not> list_ex control_byte (drop (k + 1) rest)"
        using 1(1) [OF False q(1) Some q(2) refl q(3,4)] .
      moreover have "\<not> list_ex control_byte (take k rest)" by (rule query_part_no_control [OF q(2)])
      moreover have "\<not> control_byte (CHR ''&'')" by (simp add: control_byte_def)
      ultimately show ?thesis by (subst p) simp
    qed simp
  qed
qed

lemma accepts_iff:
  "parse_callback_request req = Some cb \<longleftrightarrow>
     (\<exists>query hs. req = request_text query hs \<and> length req \<le> OAUTH_REQUEST_MAX \<and>
        SP \<notin> set query \<and> CHR ''#'' \<notin> set query \<and> list_all header_ok hs \<and>
        length (filter is_host hs) = 1 \<and> parse_callback_query query = Some cb)"
proof
  let ?P = OPENAI_CALLBACK_PATH
  assume a: "parse_callback_request req = Some cb"
  then obtain k where k: "bytes_find req CRLF = Some k"
    by (auto simp: parse_callback_request_def split: if_splits option.splits)
  define line where "line = take k req"
  from a k obtain t where t: "length req \<le> OAUTH_REQUEST_MAX" "memchr SP line = Some 3" "take 3 line = ''GET''"
    "memchr SP (drop 4 line) = Some t" "drop (t + 1) (drop 4 line) = ''HTTP/1.1''" "length ?P < t"
    "take (length ?P) (take t (drop 4 line)) = ?P" "take t (drop 4 line) ! length ?P = CHR ''?''"
    "memchr (CHR ''#'') (take t (drop 4 line)) = None" "check_headers 0 (drop (k + 2) req)"
    "parse_callback_query (drop (length ?P + 1) (take t (drop 4 line))) = Some cb"
    by (auto simp: parse_callback_request_def line_def Let_def validate_callback_headers_def
        split: if_splits option.splits)
  define target where "target = take t (drop 4 line)"
  define query where "query = drop (length ?P + 1) target"
  have req: "req = line @ CRLF @ drop (k + 2) req"
    using k strstr_at_split [of req CRLF k] by (simp add: bytes_find_def line_def split: if_splits)
  have at: "i < length s \<and> s = take i s @ c # drop (i + 1) s" if "memchr c s = Some i" for c s i
    using that find_index_Some [of "\<lambda>d. d = c" s i] id_take_nth_drop [of i s] by (simp add: memchr_def)
  have "line = ''GET'' @ SP # drop 4 line" using at [OF t(2)] t(3) by simp
  moreover have "drop 4 line = target @ SP # ''HTTP/1.1''" using at [OF t(4)] t(5) by (simp add: target_def)
  moreover have "target = ?P @ CHR ''?'' # query"
  proof -
    have "length target = t" using at [OF t(4)] by (simp add: target_def)
    then show ?thesis
      using id_take_nth_drop [of "length ?P" target] t(6,7,8) by (simp add: query_def flip: target_def)
  qed
  ultimately have line: "line = ''GET '' @ ?P @ ''?'' @ query @ '' HTTP/1.1''" by simp
  have "SP \<notin> set target" "CHR ''#'' \<notin> set target"
    using t(4,9) find_index_Some [of "\<lambda>d. d = SP" "drop 4 line" t]
    by (auto simp: memchr_def target_def find_index_None)
  then have "SP \<notin> set query" "CHR ''#'' \<notin> set query" by (auto simp: query_def dest: in_set_dropD)
  moreover obtain hs where hs: "drop (k + 2) req = header_lines hs" "list_all header_ok hs" "length (filter is_host hs) = 1"
    using check_headers_sound [OF t(10)] by auto
  moreover have "req = request_text query hs"
    by (subst req, subst hs(1)) (simp add: line request_text_def)
  moreover have "parse_callback_query query = Some cb" using t(11) by (simp add: query_def target_def)
  ultimately show "\<exists>query hs. req = request_text query hs \<and> length req \<le> OAUTH_REQUEST_MAX \<and>
      SP \<notin> set query \<and> CHR ''#'' \<notin> set query \<and> list_all header_ok hs \<and>
      length (filter is_host hs) = 1 \<and> parse_callback_query query = Some cb"
    using t(1) by blast
next
  let ?P = OPENAI_CALLBACK_PATH
  assume "\<exists>query hs. req = request_text query hs \<and> length req \<le> OAUTH_REQUEST_MAX \<and>
      SP \<notin> set query \<and> CHR ''#'' \<notin> set query \<and> list_all header_ok hs \<and>
      length (filter is_host hs) = 1 \<and> parse_callback_query query = Some cb"
  then obtain query hs where q: "req = request_text query hs" "length req \<le> OAUTH_REQUEST_MAX"
    "SP \<notin> set query" "CHR ''#'' \<notin> set query" "list_all header_ok hs"
    "length (filter is_host hs) = 1" "parse_callback_query query = Some cb" by blast
  define line where "line = ''GET '' @ ?P @ ''?'' @ query @ '' HTTP/1.1''"
  have req: "req = line @ CRLF @ header_lines hs" by (simp add: q(1) request_text_def line_def)
  have path: "set ?P \<inter> {CR, NUL, SP, CHR ''#''} = {}" "length ?P = 14"
    by (simp_all add: OPENAI_CALLBACK_PATH_def)
  have "\<not> list_ex control_byte query"
    using q(7) query_no_control by (auto simp: parse_callback_query_def split: option.splits)
  then have ctl: "c \<in> set query \<Longrightarrow> \<not> control_byte c" for c by (auto simp: list_ex_iff)
  have lb: "CR \<notin> set line" "NUL \<notin> set line"
    using ctl [of CR] ctl [of NUL] path by (auto simp: line_def control_byte_def)
  have hb: "NUL \<notin> set (header_lines hs)"
    using q(5) header_bytes(2) by (auto simp: header_lines_def list_all_iff)
  have end4: "bytes_find req (CRLF @ CRLF) = Some (length req - 4)"
    using first_blank_line [OF q(5) lb(1)] by (simp add: req bytes_find_def header_lines_def)
  have endl: "bytes_find req CRLF = Some (length line)" unfolding req by (rule bytes_find_line [OF lb(1)])
  have tgt: "SP \<notin> set (?P @ ''?'' @ query)" "CHR ''#'' \<notin> set (?P @ ''?'' @ query)" using path q(3,4) by auto
  have m1: "memchr SP line = Some 3" by (simp add: line_def memchr_def)
  have d4: "drop 4 line = (?P @ ''?'' @ query) @ SP # ''HTTP/1.1''" by (simp add: line_def)
  have m2: "memchr SP (drop 4 line) = Some (15 + length query)"
    unfolding d4 using memchr_split [OF tgt(1)] path by simp
  have m3: "memchr SP ''HTTP/1.1'' = None" by (simp add: memchr_def)
  have m4: "memchr (CHR ''#'') (?P @ ''?'' @ query) = None"
    using tgt(2) unfolding memchr_def find_index_None by blast
  have "validate_callback_headers (header_lines hs) = 0"
    using check_headers_text [of hs 0] q(5,6) by (simp add: validate_callback_headers_def)
  moreover have "length req \<ge> 4" "req \<noteq> []" "NUL \<notin> set req" "take (length line) req = line"
    "drop (length line + 2) req = header_lines hs"
    using lb hb by (simp_all add: req header_lines_def)
  moreover have "take 3 line = ''GET''" by (simp add: line_def)
  ultimately show "parse_callback_request req = Some cb"
    using q(2,7) path m4
    by (simp add: parse_callback_request_def end4 [simplified] endl Let_def m1 m2 [unfolded d4, simplified] d4 m3 nth_append)
qed

text \<open>
  Exactly the requests of the browser's redirect are accepted. A request is accepted if and only
  if it is, of at most 8192 bytes, a \<open>GET\<close> of the callback path with HTTP/1.1 and a query without
  blanks and \<open>#\<close>, followed by well-formed headers and no body, of which exactly one is
  \<open>Host\<close>, naming the local server with its port (so a page of another host that resolves to
  this machine cannot reach it), and none announces a body; and its query is accepted.
\<close>

theorem callback_accepts_exactly:
  "parse_callback_request req = Some cb \<longleftrightarrow>
     (\<exists>query hs. req = request_text query hs \<and> length req \<le> OAUTH_REQUEST_MAX \<and>
        SP \<notin> set query \<and> CHR ''#'' \<notin> set query \<and> list_all header_ok hs \<and>
        length (filter is_host hs) = 1 \<and> parse_callback_query query = Some cb)"
  by (rule accepts_iff)

section \<open>What the redirect says\<close>

definition encoded :: "string \<Rightarrow> string" where "encoded s = concat (map url_encode_char s)"

definition query_field :: "string \<times> string \<Rightarrow> string" where
  "query_field f = encoded (fst f) @ ''='' @ encoded (snd f)"

definition query_text :: "(string \<times> string) list \<Rightarrow> string" where
  "query_text fs = join_with (CHR ''&'') (map query_field fs)"

definition field_ok :: "string \<times> string \<Rightarrow> bool" where
  "field_ok f \<longleftrightarrow> fst f \<noteq> [] \<and> snd f \<noteq> [] \<and> \<not> list_ex control_byte (fst f) \<and> \<not> list_ex control_byte (snd f)"

lemma encoded_plain: "set (encoded s) \<inter> {CHR ''&'', CHR ''='', SP, CHR ''#''} = {}"
proof -
  have "is_url_char c \<Longrightarrow> c \<notin> {CHR ''&'', CHR ''='', SP, CHR ''#''}" for c
    by (auto simp: is_url_char_def is_alnum_def is_digit_def is_upper_def is_lower_def)
  then show ?thesis using url_encoded_chars [of _ s] by (fastforce simp: encoded_def)
qed

lemma encoded_nonempty: "encoded s = [] \<longleftrightarrow> s = []"
  using url_encode_length(1) [of s] unfolding encoded_def [symmetric]
  by (cases "s = []") (simp add: encoded_def, fastforce)

lemma decode_encoded:
  "s \<noteq> [] \<Longrightarrow> \<not> list_ex control_byte s \<Longrightarrow> length (encoded s) < SIZE_MAX \<Longrightarrow>
     url_decode_exact (Some (encoded s)) = Some s"
  using encoded_nonempty [of s] by (simp add: url_decode_exact_def) (simp add: encoded_def url_decode_encode_bytes)

lemma query_part_field:
  assumes "field_ok f" and "length (query_field f) < SIZE_MAX"
  shows "query_part (query_field f) names cb =
    (case callback_set_field cb names (fst f) (snd f) of
       None \<Rightarrow> None | Some cb' \<Rightarrow> Some (names @ [fst f], cb'))"
proof -
  have "CHR ''='' \<notin> set (encoded (fst f))" using encoded_plain [of "fst f"] by auto
  then have "memchr (CHR ''='') (query_field f) = Some (length (encoded (fst f)))"
    using memchr_split by (simp add: query_field_def)
  with assms show ?thesis
    by (simp add: query_part_def query_field_def field_ok_def encoded_nonempty decode_encoded)
qed

lemma query_field_plain: "CHR ''&'' \<notin> set (query_field f)"
  using encoded_plain [of "fst f"] encoded_plain [of "snd f"] by (auto simp: query_field_def)

lemma query_loop_step:
  assumes "field_ok f" and "length (query_field f) < SIZE_MAX" and "length names < OAUTH_QUERY_FIELDS_MAX"
    and "callback_set_field cb names (fst f) (snd f) = Some cb'"
  shows "query_loop (query_text (f # fs)) names cb =
    (if fs = [] then Some cb' else query_loop (query_text fs) (names @ [fst f]) cb')"
proof -
  have f: "query_field f \<noteq> []" by (simp add: query_field_def)
  have q: "query_part (query_field f) names cb = Some (names @ [fst f], cb')"
    using assms by (simp add: query_part_field)
  have ne: "query_text fs \<noteq> []" if "fs \<noteq> []"
    using that by (induction fs rule: induct_list012) (simp_all add: query_text_def query_field_def)
  show ?thesis
  proof (cases fs)
    case Nil
    have "memchr (CHR ''&'') (query_field f) = None"
      using query_field_plain [of f] by (auto simp: memchr_def find_index_None)
    with Nil f q assms(3) show ?thesis by (subst query_loop.simps) (simp add: query_text_def)
  next
    case (Cons g gs)
    then have t: "query_text (f # fs) = query_field f @ CHR ''&'' # query_text fs" by (simp add: query_text_def)
    have m: "memchr (CHR ''&'') (query_field f @ CHR ''&'' # query_text fs) = Some (length (query_field f))"
      by (rule memchr_split [OF query_field_plain])
    have "fs \<noteq> []" using Cons by simp
    with f q ne assms(3) show ?thesis unfolding t by (subst query_loop.simps) (simp add: m)
  qed
qed

text \<open>The callback with the fields of a list stored in it.\<close>

definition with_fields :: "(string \<times> string) list \<Rightarrow> oauth_callback \<Rightarrow> oauth_callback" where
  "with_fields fs cb =
     \<lparr>cb_code = (case map_of fs ''code'' of None \<Rightarrow> cb_code cb | v \<Rightarrow> v),
      cb_state = (case map_of fs ''state'' of None \<Rightarrow> cb_state cb | v \<Rightarrow> v),
      cb_denial = (case map_of fs ''error'' of None \<Rightarrow> cb_denial cb | v \<Rightarrow> v)\<rparr>"

lemma set_field_fresh:
  assumes "nm \<notin> set names"
  shows "callback_set_field cb names nm val = Some (with_fields [(nm, val)] cb)"
  using assms by (cases cb) (auto simp: callback_set_field_def with_fields_def list_ex_iff)

lemma with_fields_Cons:
  assumes "fst f \<notin> fst ` set fs"
  shows "with_fields fs (with_fields [f] cb) = with_fields (f # fs) cb"
proof -
  have "map_of fs (fst f) = None" using assms by (simp add: map_of_eq_None_iff)
  then show ?thesis by (auto simp: with_fields_def cong: option.case_cong)
qed

lemma query_text_Cons:
  "query_text (f # fs) = (if fs = [] then query_field f else query_field f @ CHR ''&'' # query_text fs)"
  by (cases fs) (simp_all add: query_text_def)

lemma query_loop_fields:
  "fs \<noteq> [] \<Longrightarrow> list_all field_ok fs \<Longrightarrow> distinct (names @ map fst fs) \<Longrightarrow>
     length names + length fs \<le> OAUTH_QUERY_FIELDS_MAX \<Longrightarrow> length (query_text fs) < SIZE_MAX \<Longrightarrow>
     query_loop (query_text fs) names cb = Some (with_fields fs cb)"
proof (induction fs arbitrary: names cb)
  case (Cons f fs)
  have fresh: "fst f \<notin> set names" using Cons.prems by auto
  have set: "callback_set_field cb names (fst f) (snd f) = Some (with_fields [f] cb)"
    using set_field_fresh [OF fresh, of cb "snd f"] by simp
  have len: "length (query_field f) < SIZE_MAX" "length (query_text fs) < SIZE_MAX"
  proof -
    have "query_text [] = []" by (simp add: query_text_def)
    then have "length (query_field f) \<le> length (query_text (f # fs)) \<and> length (query_text fs) \<le> length (query_text (f # fs))"
      by (cases "fs = []") (simp_all add: query_text_Cons)
    with Cons.prems(5) show "length (query_field f) < SIZE_MAX" "length (query_text fs) < SIZE_MAX" by linarith+
  qed
  have s: "query_loop (query_text (f # fs)) names cb =
      (if fs = [] then Some (with_fields [f] cb)
       else query_loop (query_text fs) (names @ [fst f]) (with_fields [f] cb))"
    using query_loop_step [OF _ len(1) _ set, of fs] Cons.prems by simp
  show ?case
  proof (cases "fs = []")
    case False
    have "query_loop (query_text fs) (names @ [fst f]) (with_fields [f] cb) = Some (with_fields fs (with_fields [f] cb))"
      using Cons.IH [of "names @ [fst f]"] False Cons.prems len by simp
    with s False Cons.prems show ?thesis by (simp add: with_fields_Cons)
  qed (use s in simp)
qed simp

lemma query_text_plain: "SP \<notin> set (query_text fs) \<and> CHR ''#'' \<notin> set (query_text fs)"
proof (induction fs)
  case (Cons f fs)
  then show ?case
    using encoded_plain [of "fst f"] encoded_plain [of "snd f"] by (auto simp: query_text_Cons query_field_def)
qed (simp add: query_text_def)

text \<open>
  The redirect is read back. Whatever bytes (other than control characters) the code, the state
  and up to fourteen further fields have, the request of a browser that was redirected with them,
  percent encoded, is accepted with any well-formed headers, and gives exactly the code, the state
  and the error that were sent, if there is a state and either a code or an error but not both;
  otherwise it is refused.
\<close>

theorem callback_reads_redirect:
  assumes "list_all field_ok fs" and "distinct (map fst fs)" and "fs \<noteq> []"
    and "length fs \<le> OAUTH_QUERY_FIELDS_MAX"
    and "list_all header_ok hs" and "length (filter is_host hs) = 1"
    and "length (request_text (query_text fs) hs) \<le> OAUTH_REQUEST_MAX"
  shows "parse_callback_request (request_text (query_text fs) hs) =
    (if map_of fs ''state'' \<noteq> None \<and> (map_of fs ''code'' = None) \<noteq> (map_of fs ''error'' = None)
     then Some \<lparr>cb_code = map_of fs ''code'', cb_state = map_of fs ''state'', cb_denial = map_of fs ''error''\<rparr>
     else None)"
proof -
  have len: "length (query_text fs) < SIZE_MAX"
    using assms(7) by (simp add: request_text_def OAUTH_REQUEST_MAX_def SIZE_MAX_def)
  have w: "with_fields fs no_callback =
      \<lparr>cb_code = map_of fs ''code'', cb_state = map_of fs ''state'', cb_denial = map_of fs ''error''\<rparr>"
    by (simp add: with_fields_def no_callback_def split: option.split)
  have q: "parse_callback_query (query_text fs) =
    (if map_of fs ''state'' \<noteq> None \<and> (map_of fs ''code'' = None) \<noteq> (map_of fs ''error'' = None)
     then Some (with_fields fs no_callback) else None)"
  proof -
    have "query_loop (query_text fs) [] no_callback = Some (with_fields fs no_callback)"
      using query_loop_fields [of fs "[]" no_callback] assms(1-4) len by simp
    then show ?thesis
      by (cases "map_of fs ''state''"; cases "map_of fs ''code''"; cases "map_of fs ''error''")
         (simp_all add: parse_callback_query_def w)
  qed
  have inj: "parse_callback_query q' = parse_callback_query (query_text fs)"
    if "request_text (query_text fs) hs = request_text q' hs'" "SP \<notin> set q'" for q' hs'
  proof -
    have "takeWhile (\<lambda>c. c \<noteq> SP) (q' @ '' HTTP/1.1'' @ r) = q'" if "SP \<notin> set q'" for q' r
      using that by (subst takeWhile_append2) auto
    moreover have "query_text fs @ '' HTTP/1.1'' @ CRLF @ header_lines hs = q' @ '' HTTP/1.1'' @ CRLF @ header_lines hs'"
      using that(1) by (simp add: request_text_def)
    ultimately have "query_text fs = q'" using query_text_plain [of fs] that(2) by metis
    then show ?thesis by simp
  qed
  show ?thesis
  proof (cases "parse_callback_query (query_text fs)")
    case (Some cb)
    then have "parse_callback_request (request_text (query_text fs) hs) = Some cb"
      using accepts_iff [of "request_text (query_text fs) hs" cb] assms(5-7) query_text_plain [of fs] by blast
    with Some q show ?thesis by (auto simp: w split: if_splits)
  next
    case None
    then have "parse_callback_request (request_text (query_text fs) hs) = None"
      using accepts_iff [of "request_text (query_text fs) hs"] inj by (metis not_None_eq option.simps(3))
    with None q show ?thesis by (auto simp: w split: if_splits)
  qed
qed

theorem callback_reads_redirect_witness:
  "parse_callback_request
     (request_text (query_text [(''code'', ''a b''), (''state'', ''s'')]) [(''Host'', '' localhost:1455'')]) =
   Some \<lparr>cb_code = Some ''a b'', cb_state = Some ''s'', cb_denial = None\<rparr>"
proof -
  have "lower ''Host'' = ''host''" "lower ''content-length'' = ''content-length''"
    "lower ''transfer-encoding'' = ''transfer-encoding''" "lower ''host'' = ''host''"
    "lower ''localhost:1455'' = ''localhost:1455''" by code_simp+
  then show ?thesis
  by (subst callback_reads_redirect)
     (simp_all add: field_ok_def control_byte_def OAUTH_QUERY_FIELDS_MAX_def header_ok_def valid_header_name_def
        is_alnum_def is_upper_def is_lower_def is_digit_def name_equal_def is_host_def
        host_value_valid_def rtrim_by_def ltrim_by_def is_blank_def bad_value_byte_def request_text_def
        OPENAI_CALLBACK_PATH_def OAUTH_REQUEST_MAX_def header_lines_def header_line_def query_text_def
        query_field_def encoded_def url_encode_char_def is_url_char_def)
qed

end
