(* ===== verification/OauthTokens.thy ===== *)
theory OauthTokens
  imports OauthCodec CJson
begin

text \<open>
  The documents of the sign-in (\<open>llm/oauth_jwt.c\<close>, \<open>llm/oauth_vault.c\<close> and the parsers of
  \<open>llm/oauth_http.c\<close>): the answer of the token endpoint, the claims of the identity token and
  the credentials that are kept. A double is a rational; infinities and NaN, which these parsers
  refuse, do not occur. Times are seconds as an \<open>int\<close>. Allocations are assumed to succeed.
\<close>

text \<open>What is used of the JSON library besides: exact parsing, exact lookup, the keys of an object.\<close>

record 'j cjson_strict = "'j cjson" +
  j_exact :: "string \<Rightarrow> 'j option"
  j_member :: "'j \<Rightarrow> string \<Rightarrow> 'j option"
  j_keys :: "'j \<Rightarrow> string list option"

definition strict_laws :: "('j, 'x) cjson_strict_scheme \<Rightarrow> bool" where
  "strict_laws cj \<longleftrightarrow>
     json_laws cj \<and> json_printing cj \<and> (\<forall>d t. j_print cj d = Some t \<longrightarrow> j_exact cj t = Some d) \<and>
     (\<forall>ms k. j_member cj (j_object cj ms) k = map_of ms k) \<and>
     (\<forall>ms. j_keys cj (j_object cj ms) = Some (map fst ms))"

section \<open>Fields\<close>

definition OAUTH_RESPONSE_MAX :: nat where "OAUTH_RESPONSE_MAX = 1024 * 1024"
definition OAUTH_REFRESH_SKEW_SECONDS :: int where "OAUTH_REFRESH_SKEW_SECONDS = 300"

text \<open>None is the failure; a field that is not required may be NULL.\<close>

definition json_string_field :: "('j, 'x) cjson_strict_scheme \<Rightarrow> 'j \<Rightarrow> string \<Rightarrow> bool \<Rightarrow> cptr option" where
  "json_string_field cj object nm required =
     (case j_member cj object nm of
        None \<Rightarrow> (if required then None else Some None)
      | Some item \<Rightarrow>
          (case j_text cj item of
             None \<Rightarrow> None
           | Some t \<Rightarrow>
               if cstr t = [] then None
               else if length (cstr t) > OAUTH_VALUE_MAX then None
               else if list_ex (\<lambda>c. byte c < 0x20) (cstr t) then None
               else Some (Some (cstr t))))"

definition exact_json_object :: "('j, 'x) cjson_strict_scheme \<Rightarrow> cptr \<Rightarrow> 'j option" where
  "exact_json_object cj data =
     (case data of None \<Rightarrow> None
      | Some t \<Rightarrow>
          if length t > OAUTH_RESPONSE_MAX then None
          else (case j_exact cj t of None \<Rightarrow> None
                | Some json \<Rightarrow> if j_keys cj json = None then None else Some json))"

definition json_keys_are_unique :: "('j, 'x) cjson_strict_scheme \<Rightarrow> 'j \<Rightarrow> bool" where
  "json_keys_are_unique cj object = (case j_keys cj object of None \<Rightarrow> False | Some ks \<Rightarrow> distinct ks)"

definition json_uint_field :: "('j, 'x) cjson_strict_scheme \<Rightarrow> 'j \<Rightarrow> string \<Rightarrow> nat \<Rightarrow> nat option" where
  "json_uint_field cj json nm maximum =
     (case j_member cj json nm of None \<Rightarrow> None
      | Some item \<Rightarrow>
          (case j_double cj item of None \<Rightarrow> None
           | Some x \<Rightarrow>
               if x < 1 \<or> x > of_nat maximum \<or> of_int (floor x) \<noteq> x then None
               else Some (nat (floor x))))"

definition needs_refresh :: "int \<Rightarrow> int \<Rightarrow> bool" where
  "needs_refresh expires now =
     (if expires \<le> now then True else expires - now \<le> OAUTH_REFRESH_SKEW_SECONDS)"

section \<open>The identity token\<close>

definition jwt_payload_json :: "('j, 'x) cjson_strict_scheme \<Rightarrow> cptr \<Rightarrow> 'j option" where
  "jwt_payload_json cj jwt =
     (case jwt of None \<Rightarrow> None
      | Some t \<Rightarrow>
          if length t > OAUTH_VALUE_MAX then None
          else (case memchr (CHR ''.'') t of
                  None \<Rightarrow> None
                | Some first \<Rightarrow>
                    if first = 0 then None
                    else let after = drop (first + 1) t
                         in (case memchr (CHR ''.'') after of
                               None \<Rightarrow> None
                             | Some second \<Rightarrow>
                                 if second = 0 \<or> drop (second + 1) after = [] \<or>
                                    memchr (CHR ''.'') (drop (second + 1) after) \<noteq> None
                                 then None
                                 else (case base64url_decode (Some (take second after)) of
                                         None \<Rightarrow> None
                                       | Some decoded \<Rightarrow>
                                           if NUL \<in> set decoded then None
                                           else (case j_exact cj decoded of
                                                   None \<Rightarrow> None
                                                 | Some json \<Rightarrow>
                                                     if json_keys_are_unique cj json then Some json else None)))))"

text \<open>The account and the plan; None is the failure.\<close>

definition jwt_metadata :: "('j, 'x) cjson_strict_scheme \<Rightarrow> cptr \<Rightarrow> (cptr \<times> cptr) option" where
  "jwt_metadata cj jwt =
     (case jwt_payload_json cj jwt of
        None \<Rightarrow> None
      | Some payload \<Rightarrow>
          (case json_string_field cj payload ''chatgpt_account_id'' False of
             None \<Rightarrow> None
           | Some account \<Rightarrow>
               (case j_member cj payload ''https://api.openai.com/auth'' of
                  None \<Rightarrow> Some (account, None)
                | Some claims \<Rightarrow>
                    if \<not> json_keys_are_unique cj claims then None
                    else (case (json_string_field cj claims ''chatgpt_account_id'' False,
                                json_string_field cj claims ''chatgpt_plan_type'' False) of
                            (Some nested, Some plan) \<Rightarrow>
                              Some (if account = None then nested else account, plan)
                          | _ \<Rightarrow> None))))"

section \<open>Credentials\<close>

record credentials =
  c_access :: cptr
  c_refresh :: cptr
  c_account :: cptr
  c_plan :: cptr
  c_expires :: int

definition or_existing :: "cptr \<Rightarrow> cptr \<Rightarrow> cptr" where
  "or_existing p q = (if p = None then q else p)"

definition token_set_parse ::
  "('j, 'x) cjson_strict_scheme \<Rightarrow> cptr \<Rightarrow> cptr \<Rightarrow> cptr \<Rightarrow> cptr \<Rightarrow> int \<Rightarrow> credentials option" where
  "token_set_parse cj data existing_refresh existing_account existing_plan now =
     (case exact_json_object cj data of
        None \<Rightarrow> None
      | Some json \<Rightarrow>
          if \<not> json_keys_are_unique cj json then None
          else let seconds = (case j_member cj json ''expires_in'' of
                                None \<Rightarrow> -1
                              | Some e \<Rightarrow> (case j_double cj e of None \<Rightarrow> -1 | Some x \<Rightarrow> x));
                   valid_expiry = (seconds \<ge> 1 \<and> seconds \<le> 31536000 \<and> of_int (floor seconds) = seconds);
                   expires = (if valid_expiry \<and> now \<le> 2 ^ 63 - 1 - floor seconds
                              then now + floor seconds else 0)
               in (case (json_string_field cj json ''access_token'' True,
                         json_string_field cj json ''refresh_token'' False,
                         json_string_field cj json ''id_token'' False) of
                     (Some access, Some refresh, Some id_token) \<Rightarrow>
                       (case (if id_token = None then Some (None, None) else jwt_metadata cj id_token) of
                          None \<Rightarrow> None
                        | Some (account, plan) \<Rightarrow>
                            let staged = \<lparr>c_access = access, c_refresh = or_existing refresh existing_refresh,
                                          c_account = or_existing account existing_account,
                                          c_plan = or_existing plan existing_plan, c_expires = expires\<rparr>
                            in if c_access staged = None \<or> c_refresh staged = None \<or> \<not> valid_expiry \<or>
                                  c_expires staged \<le> now \<or>
                                  (existing_account \<noteq> None \<and> c_account staged = None) \<or>
                                  (existing_plan \<noteq> None \<and> c_plan staged = None)
                               then None else Some staged)
                   | _ \<Rightarrow> None))"

definition credentials_json :: "('j, 'x) cjson_strict_scheme \<Rightarrow> credentials \<Rightarrow> cptr" where
  "credentials_json cj c =
     (case (c_access c, c_refresh c) of
        (Some access, Some refresh) \<Rightarrow>
          j_print cj (j_object cj (present
            [(''access_token'', Some (j_string cj access)), (''refresh_token'', Some (j_string cj refresh)),
             (''expires_at'', Some (j_number cj (of_int (c_expires c)))),
             (''account_id'', map_option (j_string cj) (c_account c)),
             (''plan_type'', map_option (j_string cj) (c_plan c))]))
      | _ \<Rightarrow> None)"

definition stored_credentials_parse :: "('j, 'x) cjson_strict_scheme \<Rightarrow> cptr \<Rightarrow> credentials option" where
  "stored_credentials_parse cj data =
     (case exact_json_object cj data of
        None \<Rightarrow> None
      | Some json \<Rightarrow>
          if \<not> json_keys_are_unique cj json then None
          else let val = (case j_member cj json ''expires_at'' of
                            None \<Rightarrow> -1
                          | Some e \<Rightarrow> (case j_double cj e of None \<Rightarrow> -1 | Some x \<Rightarrow> x))
               in (case (json_string_field cj json ''access_token'' True,
                         json_string_field cj json ''refresh_token'' True,
                         json_string_field cj json ''account_id'' False,
                         json_string_field cj json ''plan_type'' False) of
                     (Some access, Some refresh, Some account, Some plan) \<Rightarrow>
                       if access \<noteq> None \<and> refresh \<noteq> None \<and> val \<ge> 0 \<and> val \<le> 2 ^ 63 \<and> of_int (floor val) = val
                       then Some \<lparr>c_access = access, c_refresh = refresh, c_account = account,
                                  c_plan = plan, c_expires = c_long val\<rparr>
                       else None
                   | _ \<Rightarrow> None))"

text \<open>The answers of the device endpoints.\<close>

definition parse_device_start :: "('j, 'x) cjson_strict_scheme \<Rightarrow> cptr \<Rightarrow> (string \<times> string \<times> nat \<times> nat) option" where
  "parse_device_start cj response =
     (case exact_json_object cj response of
        None \<Rightarrow> None
      | Some json \<Rightarrow>
          if \<not> json_keys_are_unique cj json then None
          else (case (json_string_field cj json ''device_auth_id'' True,
                      json_string_field cj json ''user_code'' True,
                      json_uint_field cj json ''interval'' 300, json_uint_field cj json ''expires_in'' 3600) of
                  (Some (Some device), Some (Some code), Some interval, Some expires) \<Rightarrow>
                    Some (device, code, interval, expires)
                | _ \<Rightarrow> None))"

definition parse_device_authorization :: "('j, 'x) cjson_strict_scheme \<Rightarrow> cptr \<Rightarrow> (string \<times> string) option" where
  "parse_device_authorization cj response =
     (case exact_json_object cj response of
        None \<Rightarrow> None
      | Some json \<Rightarrow>
          if \<not> json_keys_are_unique cj json then None
          else (case (json_string_field cj json ''authorization_code'' True,
                      json_string_field cj json ''code_verifier'' True) of
                  (Some (Some code), Some (Some verifier)) \<Rightarrow> Some (code, verifier)
                | _ \<Rightarrow> None))"

section \<open>What the parsers let through\<close>

definition token_text :: "string \<Rightarrow> bool" where
  "token_text t \<longleftrightarrow> t \<noteq> [] \<and> length t \<le> OAUTH_VALUE_MAX \<and> \<not> list_ex (\<lambda>c. byte c < 0x20) t"

definition credentials_ok :: "credentials \<Rightarrow> bool" where
  "credentials_ok c \<longleftrightarrow>
     c_access c \<noteq> None \<and> c_refresh c \<noteq> None \<and>
     (\<forall>t. t \<in> {c_access c, c_refresh c, c_account c, c_plan c} \<longrightarrow> pred_option token_text t)"

lemma field_text: "json_string_field cj obj nm req = Some p \<Longrightarrow> pred_option token_text p"
  by (auto simp: json_string_field_def token_text_def split: option.splits if_splits)

lemma field_required: "json_string_field cj obj nm True = Some p \<Longrightarrow> p \<noteq> None"
  by (auto simp: json_string_field_def split: option.splits if_splits)

lemma jwt_text:
  assumes "jwt_metadata cj t = Some (a, p)"
  shows "pred_option token_text a \<and> pred_option token_text p"
  using assms by (auto simp: jwt_metadata_def split: option.splits if_splits dest: field_text)

text \<open>An identity token has three parts that are not empty; the middle one is the document.\<close>

lemma memchr_parts:
  assumes "memchr c s = Some i" shows "s = take i s @ c # drop (i + 1) s \<and> c \<notin> set (take i s)"
  using assms find_index_Some [of "\<lambda>d. d = c" s i] id_take_nth_drop [of i s] by (auto simp: memchr_def)

lemma jwt_three_parts:
  assumes "jwt_payload_json cj (Some t) = Some json"
  shows "\<exists>h p s d. split_on (CHR ''.'') t = [h, p, s] \<and> h \<noteq> [] \<and> p \<noteq> [] \<and> s \<noteq> [] \<and>
     base64url_decode (Some p) = Some d \<and> j_exact cj d = Some json"
proof -
  from assms obtain i k d where a: "memchr (CHR ''.'') t = Some i" "i \<noteq> 0"
    "memchr (CHR ''.'') (drop (i + 1) t) = Some k" "k \<noteq> 0" "drop (k + 1) (drop (i + 1) t) \<noteq> []"
    "memchr (CHR ''.'') (drop (k + 1) (drop (i + 1) t)) = None"
    "base64url_decode (Some (take k (drop (i + 1) t))) = Some d" "j_exact cj d = Some json"
    by (auto simp: jwt_payload_json_def Let_def split: option.splits if_splits)
  define h p s where "h = take i t" and "p = take k (drop (i + 1) t)" and "s = drop (k + 1) (drop (i + 1) t)"
  have t: "t = h @ CHR ''.'' # p @ CHR ''.'' # s" "CHR ''.'' \<notin> set h" "CHR ''.'' \<notin> set p"
    using memchr_parts [OF a(1)] memchr_parts [OF a(3)] by (simp_all add: h_def p_def s_def)
  have "CHR ''.'' \<notin> set s" using a(6) by (auto simp: memchr_def find_index_None s_def)
  with t have "split_on (CHR ''.'') t = [h, p, s]" by (simp add: split_on_step split_on_single)
  moreover have "h \<noteq> []" "p \<noteq> []" using a(2,4) memchr_parts [OF a(1)] memchr_parts [OF a(3)]
    by (auto simp: h_def p_def)
  ultimately show ?thesis using a(5,7,8) by (auto simp: p_def s_def)
qed

text \<open>
  What the token endpoint answers is accepted only with printable, bounded texts and a life time of
  whole seconds, up to a year; what was known before is kept where the answer is silent.
\<close>

lemma token_set_elim:
  assumes "token_set_parse cj data r a p now = Some c"
  obtains json acc ref idt account plan and x :: rat where
    "json_string_field cj json ''access_token'' True = Some acc"
    "json_string_field cj json ''refresh_token'' False = Some ref"
    "json_string_field cj json ''id_token'' False = Some idt"
    "(if idt = None then Some (None, None) else jwt_metadata cj idt) = Some (account, plan)"
    "1 \<le> x" "x \<le> 31536000" "c_access c = acc" "c_refresh c = or_existing ref r" "c_account c = or_existing account a"
    "c_plan c = or_existing plan p" "c_expires c = (if now \<le> 2 ^ 63 - 1 - floor x then now + floor x else 0)"
    "c_access c \<noteq> None" "c_refresh c \<noteq> None" "now < c_expires c"
    "a \<noteq> None \<longrightarrow> c_account c \<noteq> None" "p \<noteq> None \<longrightarrow> c_plan c \<noteq> None"
proof -
  from assms obtain json where json: "exact_json_object cj data = Some json" "json_keys_are_unique cj json"
    by (auto simp: token_set_parse_def split: option.splits if_splits)
  define x where "x = (case j_member cj json ''expires_in'' of None \<Rightarrow> -1
      | Some e \<Rightarrow> (case j_double cj e of None \<Rightarrow> -1 | Some x \<Rightarrow> x))"
  obtain acc ref idt where f: "json_string_field cj json ''access_token'' True = Some acc"
    "json_string_field cj json ''refresh_token'' False = Some ref"
    "json_string_field cj json ''id_token'' False = Some idt"
    using assms json by (simp add: token_set_parse_def Let_def split: option.splits)
  obtain account plan where j: "(if idt = None then Some (None, None) else jwt_metadata cj idt) = Some (account, plan)"
    using assms json f by (simp add: token_set_parse_def Let_def split: option.splits prod.splits)
  show thesis
    using assms by (intro that [OF f j, of x])
      (auto simp: token_set_parse_def json f j Let_def split: if_splits simp flip: x_def)
qed

lemma token_set_ok:
  assumes "token_set_parse cj data r a p now = Some c" and "pred_option token_text r"
    and "pred_option token_text a" and "pred_option token_text p"
  shows "credentials_ok c \<and> now < c_expires c \<and> c_expires c \<le> max (now + 31536000) 0 \<and>
    (a \<noteq> None \<longrightarrow> c_account c \<noteq> None) \<and> (p \<noteq> None \<longrightarrow> c_plan c \<noteq> None)"
proof -
  obtain json acc ref idt account plan and x :: rat where e:
    "json_string_field cj json ''access_token'' True = Some acc"
    "json_string_field cj json ''refresh_token'' False = Some ref"
    "json_string_field cj json ''id_token'' False = Some idt"
    "(if idt = None then Some (None, None) else jwt_metadata cj idt) = Some (account, plan)"
    "1 \<le> x" "x \<le> 31536000" "c_access c = acc" "c_refresh c = or_existing ref r" "c_account c = or_existing account a"
    "c_plan c = or_existing plan p" "c_expires c = (if now \<le> 2 ^ 63 - 1 - floor x then now + floor x else 0)"
    "c_access c \<noteq> None" "c_refresh c \<noteq> None" "now < c_expires c"
    "a \<noteq> None \<longrightarrow> c_account c \<noteq> None" "p \<noteq> None \<longrightarrow> c_plan c \<noteq> None"
    by (rule token_set_elim [OF assms(1)])
  define f where "f = floor x"
  have "f \<le> 31536000" using floor_mono [OF e(6)] by (simp add: f_def)
  then have "c_expires c \<le> max (now + 31536000) 0" using e(11) [folded f_def] by auto
  moreover have "pred_option token_text account" "pred_option token_text plan"
    using e(4) jwt_text [of cj idt account plan] by (auto split: if_splits)
  moreover have "pred_option token_text acc" "pred_option token_text ref"
    using field_text [OF e(1)] field_text [OF e(2)] by simp_all
  ultimately show ?thesis
    using e(7-10,12-16) assms(2-4) by (auto simp: credentials_ok_def or_existing_def)
qed

section \<open>Kept credentials are read back\<close>

lemma token_text_cstr: "token_text t \<Longrightarrow> cstr t = t"
proof -
  assume "token_text t"
  then have "NUL \<notin> set t" by (auto simp: token_text_def list_ex_iff)
  then show ?thesis by (rule cstr_id)
qed

lemma field_of_node:
  assumes "json_laws cj" and "pred_option token_text p" and "j_member cj obj nm = map_option (j_string cj) p"
    and "req \<longrightarrow> p \<noteq> None"
  shows "json_string_field cj obj nm req = Some p"
  using assms
  by (cases p) (auto simp: json_string_field_def json_nodes token_text_cstr, auto simp: token_text_def)

lemma whole_long: "0 \<le> n \<Longrightarrow> n < 2 ^ 63 \<Longrightarrow> c_long (rat_of_int n) = n"
proof -
  assume "0 \<le> n" "n < 2 ^ 63"
  moreover have "rat_of_int n < 2 ^ 63 \<longleftrightarrow> n < 2 ^ 63"
    using of_int_less_iff [of n "2 ^ 63", where 'a = rat] by simp
  moreover have "- (2 ^ 63) \<le> rat_of_int n"
    using \<open>0 \<le> n\<close> by (rule order_trans [of _ 0, rotated, OF of_int_0_le_iff [THEN iffD2]]) simp
  ultimately show ?thesis by (simp add: c_long_def)
qed

text \<open>
  What is kept is read back. Credentials that the parsers let through, with an expiry that a
  \<open>time_t\<close> holds, are written as a document from which exactly they are read again, as long as
  the document stays within a megabyte.
\<close>

theorem credentials_roundtrip:
  assumes "strict_laws cj" and "credentials_ok c" and "0 \<le> c_expires c" and "c_expires c < 2 ^ 63"
    and "credentials_json cj c = Some t" and "length t \<le> OAUTH_RESPONSE_MAX"
  shows "stored_credentials_parse cj (Some t) = Some c"
proof -
  have laws: "json_laws cj" using assms(1) by (simp add: strict_laws_def)
  obtain a r where ar: "c_access c = Some a" "c_refresh c = Some r" using assms(2) by (auto simp: credentials_ok_def)
  define ms where "ms = present
      [(''access_token'', Some (j_string cj a)), (''refresh_token'', Some (j_string cj r)),
       (''expires_at'', Some (j_number cj (of_int (c_expires c)))),
       (''account_id'', map_option (j_string cj) (c_account c)), (''plan_type'', map_option (j_string cj) (c_plan c))]"
  have p: "j_print cj (j_object cj ms) = Some t" using assms(5) by (simp add: credentials_json_def ar ms_def)
  then have x: "j_exact cj t = Some (j_object cj ms)" using assms(1) by (simp add: strict_laws_def)
  have ok: "pred_option token_text (Some a)" "pred_option token_text (Some r)"
    "pred_option token_text (c_account c)" "pred_option token_text (c_plan c)"
    using assms(2) ar by (auto simp: credentials_ok_def)
  have keys: "distinct (map fst ms)"
    by (cases "c_account c"; cases "c_plan c") (simp_all add: ms_def)
  have get: "map_of ms ''access_token'' = map_option (j_string cj) (Some a)"
    "map_of ms ''refresh_token'' = map_option (j_string cj) (Some r)"
    "map_of ms ''account_id'' = map_option (j_string cj) (c_account c)"
    "map_of ms ''plan_type'' = map_option (j_string cj) (c_plan c)"
    "map_of ms ''expires_at'' = Some (j_number cj (of_int (c_expires c)))"
    by (cases "c_account c"; cases "c_plan c"; simp add: ms_def)+
  have m: "j_member cj (j_object cj ms) k = map_of ms k" "j_keys cj (j_object cj ms) = Some (map fst ms)" for k
    using assms(1) by (simp_all add: strict_laws_def)
  have f: "json_string_field cj (j_object cj ms) ''access_token'' True = Some (Some a)"
    "json_string_field cj (j_object cj ms) ''refresh_token'' True = Some (Some r)"
    "json_string_field cj (j_object cj ms) ''account_id'' False = Some (c_account c)"
    "json_string_field cj (j_object cj ms) ''plan_type'' False = Some (c_plan c)"
    using field_of_node [OF laws ok(1), of "j_object cj ms" "''access_token''" True]
      field_of_node [OF laws ok(2), of "j_object cj ms" "''refresh_token''" True]
      field_of_node [OF laws ok(3), of "j_object cj ms" "''account_id''" False]
      field_of_node [OF laws ok(4), of "j_object cj ms" "''plan_type''" False]
    by (simp_all only: m get) simp_all
  have "rat_of_int (c_expires c) \<le> 2 ^ 63"
    using of_int_le_iff [of "c_expires c" "2 ^ 63", where 'a = rat] assms(4) by simp
  moreover have "exact_json_object cj (Some t) = Some (j_object cj ms)"
    using assms(6) by (simp add: exact_json_object_def x m)
  moreover have "\<lparr>c_access = Some a, c_refresh = Some r, c_account = c_account c, c_plan = c_plan c,
      c_expires = c_expires c\<rparr> = c"
    using ar by (cases c) simp
  ultimately show ?thesis
    using assms(3) whole_long [OF assms(3,4)]
    by (auto simp: stored_credentials_parse_def json_keys_are_unique_def m keys get f json_nodes [OF laws])
qed

text \<open>An instance of the library.\<close>

definition doc_strict :: "(string \<times> doc) list \<Rightarrow> doc cjson_strict" where
  "doc_strict table =
     cjson.extend (doc_json table)
       \<lparr>j_exact = map_of table,
        j_member = (\<lambda>d k. case d of DObject ms \<Rightarrow> map_of ms k | _ \<Rightarrow> None),
        j_keys = (\<lambda>d. case d of DObject ms \<Rightarrow> Some (map fst ms) | _ \<Rightarrow> None)\<rparr>"

lemma doc_strict_laws:
  assumes "distinct (map fst t)" and "list_all (\<lambda>(s, d). NUL \<notin> set s) t"
  shows "strict_laws (doc_strict t)"
  using doc_laws [of t] doc_text [OF assms]
  by (auto simp: strict_laws_def doc_strict_def json_laws_def json_printing_def doc_json_def cjson.defs)

definition kept :: credentials where
  "kept = \<lparr>c_access = Some ''a'', c_refresh = Some ''r'', c_account = None, c_plan = Some ''p'', c_expires = 7\<rparr>"

definition kept_doc :: doc where
  "kept_doc = DObject [(''access_token'', DText ''a''), (''refresh_token'', DText ''r''),
     (''expires_at'', DNumber 7), (''plan_type'', DText ''p'')]"

theorem credentials_roundtrip_witness:
  "stored_credentials_parse (doc_strict [(''k'', kept_doc)]) (Some ''k'') = Some kept"
  by (rule credentials_roundtrip [OF doc_strict_laws])
     (simp_all add: kept_def kept_doc_def credentials_ok_def token_text_def OAUTH_VALUE_MAX_def
        OAUTH_RESPONSE_MAX_def credentials_json_def doc_strict_def doc_json_def cjson.defs)

end
