(* ===== verification/OauthFlow.thy ===== *)
theory OauthFlow
  imports OauthTokens OauthCallback
begin

text \<open>
  The manager of the sign-in (\<open>llm/openai_oauth.c\<close>, \<open>llm/oauth_callback.c\<close>,
  \<open>llm/oauth_device.c\<close> and the state of \<open>llm/oauth_vault.c\<close>). Several threads work on it:
  callers, the thread that waits for the browser, polls of a device login, a refresh. Each section
  under the lock is a function on the state and a step of its own; what a thread carries from one of
  its sections to the next is an operation in flight, and a run is any interleaving of the sections
  of any number of threads. Waiting for the condition variable is that a section is not enabled.
  Whether the database saves or deletes, the time and what the network answers are arguments, so that
  they are any. Locking, waiting, joining a thread, reading the clock and allocating are taken to
  succeed; sockets, the handshake that reports the listening thread and the clearing of memory are
  not modelled (a thread that cannot listen may report so at any time).
\<close>

datatype token_result =
  OPENAI_OAUTH_TOKEN_OK | OPENAI_OAUTH_TOKEN_SIGNED_OUT | OPENAI_OAUTH_TOKEN_TRANSIENT
| OPENAI_OAUTH_TOKEN_PERMANENT | OPENAI_OAUTH_TOKEN_CANCELLED

datatype device_result =
  OPENAI_OAUTH_DEVICE_COMPLETE | OPENAI_OAUTH_DEVICE_PENDING | OPENAI_OAUTH_DEVICE_TRANSIENT
| OPENAI_OAUTH_DEVICE_TERMINAL | OPENAI_OAUTH_DEVICE_CANCELLED

datatype oauth_status = OPENAI_OAUTH_SIGNED_OUT | OPENAI_OAUTH_PENDING | OPENAI_OAUTH_SIGNED_IN

section \<open>The state\<close>

text \<open>
  The last field stands for the pointer to the session store: NULL, or the row of the provider there.
\<close>

record oauth =
  callback_active :: bool
  stop_requested :: bool
  destroying :: bool
  lifecycle_busy :: bool
  active_operations :: nat
  refresh_in_progress :: bool
  last_refresh_result :: token_result
  generation :: nat
  token_version :: nat
  login_state :: cptr
  verifier :: cptr
  challenge :: cptr
  login_id :: cptr
  device_auth_id :: cptr
  device_user_code :: cptr
  device_expires_at :: int
  device_next_poll :: int
  device_interval :: nat
  device_poll_in_progress :: bool
  access_token :: cptr
  refresh_token :: cptr
  account_id :: cptr
  plan_type :: cptr
  last_error :: cptr
  expires_at :: int
  vault :: "cptr option"

definition openai_oauth_create :: oauth where
  "openai_oauth_create =
     \<lparr>callback_active = False, stop_requested = False, destroying = False, lifecycle_busy = False,
      active_operations = 0, refresh_in_progress = False,
      last_refresh_result = OPENAI_OAUTH_TOKEN_SIGNED_OUT, generation = 0, token_version = 0,
      login_state = None, verifier = None, challenge = None, login_id = None,
      device_auth_id = None, device_user_code = None, device_expires_at = 0, device_next_poll = 0,
      device_interval = 0, device_poll_in_progress = False,
      access_token = None, refresh_token = None, account_id = None, plan_type = None,
      last_error = None, expires_at = 0, vault = None\<rparr>"

definition next_generation :: "nat \<Rightarrow> nat" where
  "next_generation v = (if v = 2 ^ 64 - 1 then 1 else v + 1)"

definition set_error_locked :: "cptr \<Rightarrow> oauth \<Rightarrow> oauth" where
  "set_error_locked message a =
     a\<lparr>last_error := Some (case message of None \<Rightarrow> ''OpenAI OAuth failed'' | Some m \<Rightarrow> m)\<rparr>"

definition clear_credentials_locked :: "oauth \<Rightarrow> oauth" where
  "clear_credentials_locked a =
     a\<lparr>access_token := None, refresh_token := None, account_id := None, plan_type := None, expires_at := 0\<rparr>"

definition clear_pending_sensitive_locked :: "oauth \<Rightarrow> oauth" where
  "clear_pending_sensitive_locked a =
     a\<lparr>login_state := None, verifier := None, challenge := None, device_auth_id := None,
       device_user_code := None, device_expires_at := 0, device_next_poll := 0, device_interval := 0,
       device_poll_in_progress := False\<rparr>"

definition commit_credentials_locked :: "credentials \<Rightarrow> oauth \<Rightarrow> oauth" where
  "commit_credentials_locked c a =
     (clear_credentials_locked a)
       \<lparr>access_token := c_access c, refresh_token := c_refresh c, account_id := c_account c,
        plan_type := c_plan c, expires_at := c_expires c, token_version := next_generation (token_version a)\<rparr>"

definition persist_staged_locked ::
  "('j, 'x) cjson_strict_scheme \<Rightarrow> bool \<Rightarrow> credentials \<Rightarrow> oauth \<Rightarrow> int \<times> oauth" where
  "persist_staged_locked cj saves c a =
     (case vault a of
        None \<Rightarrow> (-1, a)
      | Some row \<Rightarrow>
          (case credentials_json cj c of
             None \<Rightarrow> (-1, a)
           | Some data \<Rightarrow> if saves then (0, a\<lparr>vault := Some (Some data)\<rparr>) else (-1, a)))"

definition state_matches :: "cptr \<Rightarrow> cptr \<Rightarrow> bool" where
  "state_matches expected actual =
     (case (expected, actual) of
        (Some e, Some t) \<Rightarrow> length e = length t \<and> e = t
      | _ \<Rightarrow> False)"

definition status_locked :: "oauth \<Rightarrow> oauth_status" where
  "status_locked a =
     (if callback_active a then OPENAI_OAUTH_PENDING
      else if refresh_token a \<noteq> None then OPENAI_OAUTH_SIGNED_IN else OPENAI_OAUTH_SIGNED_OUT)"

definition openai_oauth_status_for_login :: "cptr \<Rightarrow> oauth \<Rightarrow> oauth_status option" where
  "openai_oauth_status_for_login login a =
     (if login_id a \<noteq> None \<and> state_matches (login_id a) login then Some (status_locked a) else None)"

definition cancel_callback_locked :: "oauth \<Rightarrow> oauth" where
  "cancel_callback_locked a =
     (clear_pending_sensitive_locked
        (a\<lparr>generation := next_generation (generation a), stop_requested := True\<rparr>))
       \<lparr>callback_active := False\<rparr>"

definition callback_still_active :: "nat \<Rightarrow> oauth \<Rightarrow> bool" where
  "callback_still_active gen a \<longleftrightarrow> \<not> destroying a \<and> \<not> stop_requested a \<and> generation a = gen"

section \<open>A login in the browser\<close>

text \<open>
  The check that no login is active, and the start of one (\<open>created\<close>: whether its thread could be
  created); None if it is refused.
\<close>

definition reap_previous_callback :: "oauth \<Rightarrow> bool" where
  "reap_previous_callback a \<longleftrightarrow> \<not> (callback_active a \<or> destroying a \<or> lifecycle_busy a)"

definition openai_oauth_start_locked ::
  "string \<Rightarrow> string \<Rightarrow> string \<Rightarrow> string \<Rightarrow> bool \<Rightarrow> oauth \<Rightarrow> oauth option" where
  "openai_oauth_start_locked st ver ch login created a =
     (if vault a = None \<or> callback_active a \<or> destroying a then None
      else let b = (clear_pending_sensitive_locked a)
             \<lparr>login_id := Some login, login_state := Some st, verifier := Some ver, challenge := Some ch,
              last_error := None, generation := next_generation (generation a), stop_requested := False,
              callback_active := True\<rparr>
           in if created then Some b
              else Some ((clear_pending_sensitive_locked (b\<lparr>callback_active := False\<rparr>))\<lparr>login_id := None\<rparr>))"

text \<open>The thread could not listen: the two sections of the caller after that.\<close>

definition start_not_ready :: "oauth \<Rightarrow> oauth" where
  "start_not_ready a = a\<lparr>stop_requested := True\<rparr>"

definition start_abandoned :: "oauth \<Rightarrow> oauth" where
  "start_abandoned a = (clear_pending_sensitive_locked a)\<lparr>login_id := None, stop_requested := False\<rparr>"

text \<open>
  A request that could not be read; one that is not a redirect; and one that is: the verifier if the
  code is to be exchanged.
\<close>

definition callback_read_failed :: "nat \<Rightarrow> oauth \<Rightarrow> oauth" where
  "callback_read_failed gen a =
     (if generation a = gen \<and> \<not> stop_requested a
      then set_error_locked (Some ''Invalid or oversized OpenAI OAuth callback'') a else a)"

definition callback_unreadable :: "nat \<Rightarrow> oauth \<Rightarrow> oauth" where
  "callback_unreadable gen a =
     (if generation a = gen then set_error_locked (Some ''Invalid OpenAI OAuth callback'') a else a)"

definition process_callback_locked :: "nat \<Rightarrow> oauth_callback \<Rightarrow> oauth \<Rightarrow> bool \<times> cptr \<times> oauth" where
  "process_callback_locked gen cb a =
     (let valid_state = (generation a = gen \<and> \<not> stop_requested a \<and> state_matches (login_state a) (cb_state cb));
          ver = (if valid_state \<and> cb_denial cb = None then verifier a else None);
          a1 = (if valid_state then clear_pending_sensitive_locked a else a);
          a2 = (if \<not> valid_state then set_error_locked (Some ''Invalid OpenAI OAuth state'') a1
                else if cb_denial cb \<noteq> None then set_error_locked (Some ''OpenAI login was denied'') a1
                else a1)
      in (valid_state, ver, a2))"

definition classify_exchange :: "bool \<Rightarrow> bool \<Rightarrow> int \<Rightarrow> bool \<Rightarrow> token_result" where
  "classify_exchange aborted curl_ok status cancelled =
     (if cancelled \<or> aborted then OPENAI_OAUTH_TOKEN_CANCELLED
      else if \<not> curl_ok then OPENAI_OAUTH_TOKEN_TRANSIENT
      else if status \<ge> 200 \<and> status < 300 then OPENAI_OAUTH_TOKEN_OK
      else if status = 408 \<or> status = 425 \<or> status = 429 \<or> status \<ge> 500 then OPENAI_OAUTH_TOKEN_TRANSIENT
      else OPENAI_OAUTH_TOKEN_PERMANENT)"

text \<open>What a transfer gave: curl's outcome, the status, the body and whether it was cancelled meanwhile.\<close>

record transfer =
  t_aborted :: bool
  t_curl_ok :: bool
  t_status :: int
  t_body :: cptr
  t_cancelled :: bool

definition exchange_token :: "transfer \<Rightarrow> token_result \<times> cptr" where
  "exchange_token t =
     (let result = classify_exchange (t_aborted t) (t_curl_ok t) (t_status t) (t_cancelled t)
      in if result = OPENAI_OAUTH_TOKEN_OK
         then (if t_body t = None then (OPENAI_OAUTH_TOKEN_TRANSIENT, None) else (result, t_body t))
         else (result, None))"

definition complete_callback_tokens ::
  "('j, 'x) cjson_strict_scheme \<Rightarrow> bool \<Rightarrow> nat \<Rightarrow> cptr \<Rightarrow> int \<Rightarrow> oauth \<Rightarrow> int \<times> oauth" where
  "complete_callback_tokens cj saves gen json now a =
     (case token_set_parse cj json None None None now of
        None \<Rightarrow> (-1, a)
      | Some staged \<Rightarrow>
          if generation a = gen \<and> \<not> stop_requested a
          then (case (if vault a = None then (-1, a) else persist_staged_locked cj saves staged a) of
                  (rc, a') \<Rightarrow>
                    if rc = 0 then (0, (commit_credentials_locked staged a')\<lparr>last_error := None\<rparr>)
                    else (-1, set_error_locked (Some ''Could not save OpenAI credentials'') a'))
          else (-1, a))"

definition callback_exchanged ::
  "('j, 'x) cjson_strict_scheme \<Rightarrow> bool \<Rightarrow> nat \<Rightarrow> transfer \<Rightarrow> int \<Rightarrow> oauth \<Rightarrow> int \<times> oauth" where
  "callback_exchanged cj saves gen t now a =
     (case exchange_token t of (result, json) \<Rightarrow>
        if result = OPENAI_OAUTH_TOKEN_OK then complete_callback_tokens cj saves gen json now a
        else if result \<noteq> OPENAI_OAUTH_TOKEN_CANCELLED \<and> generation a = gen
        then (-1, set_error_locked (Some ''OpenAI token exchange failed'') a)
        else (-1, a))"

definition callback_finish :: "nat \<Rightarrow> bool \<Rightarrow> oauth \<Rightarrow> oauth" where
  "callback_finish gen timed_out a =
     (if generation a = gen
      then clear_pending_sensitive_locked
             ((if timed_out \<and> \<not> stop_requested a
               then set_error_locked (Some ''OpenAI login timed out'') a else a)\<lparr>callback_active := False\<rparr>)
      else a)"

section \<open>A login with a device code\<close>

definition device_start_locked :: "string \<Rightarrow> oauth \<Rightarrow> oauth option" where
  "device_start_locked login a =
     (if vault a = None \<or> callback_active a \<or> destroying a then None
      else Some ((clear_pending_sensitive_locked a)
        \<lparr>login_id := Some login, last_error := None, generation := next_generation (generation a),
         stop_requested := False, callback_active := True, active_operations := active_operations a + 1\<rparr>))"

definition device_registered :: "nat \<Rightarrow> string \<times> string \<times> nat \<times> nat \<Rightarrow> int \<Rightarrow> oauth \<Rightarrow> bool \<times> oauth" where
  "device_registered gen answer now a =
     (case answer of (device, code, interval, expires) \<Rightarrow>
        if generation a = gen \<and> \<not> stop_requested a \<and> login_id a \<noteq> None
        then (True, a\<lparr>device_auth_id := Some device, device_user_code := Some code,
                     device_interval := interval, device_next_poll := now + int interval,
                     device_expires_at := now + int expires\<rparr>)
        else (False, a))"

definition device_start_failed :: "nat \<Rightarrow> cptr \<Rightarrow> oauth \<Rightarrow> oauth" where
  "device_start_failed gen message a =
     (if generation a = gen
      then set_error_locked message
             ((clear_pending_sensitive_locked a)\<lparr>login_id := None, callback_active := False\<rparr>)
      else a)"

definition active_operation_finish :: "oauth \<Rightarrow> oauth" where
  "active_operation_finish a =
     (if active_operations a > 0 then a\<lparr>active_operations := active_operations a - 1\<rparr> else a)"

definition device_error_result ::
  "('j, 'x) cjson_strict_scheme \<Rightarrow> cptr \<Rightarrow> int \<Rightarrow> device_result \<times> bool" where
  "device_error_result cj response status =
     (let reason = (case exact_json_object cj response of
                      None \<Rightarrow> None
                    | Some json \<Rightarrow>
                        if \<not> json_keys_are_unique cj json then None
                        else (case json_string_field cj json ''error'' False of None \<Rightarrow> None | Some e \<Rightarrow> e))
      in if reason = Some ''authorization_pending'' then (OPENAI_OAUTH_DEVICE_PENDING, False)
         else if reason = Some ''slow_down'' then (OPENAI_OAUTH_DEVICE_PENDING, True)
         else if status = 408 \<or> status = 425 \<or> status = 429 \<or> status \<ge> 500
         then (OPENAI_OAUTH_DEVICE_TRANSIENT, False)
         else (OPENAI_OAUTH_DEVICE_TERMINAL, False))"

definition device_poll_finished :: "nat \<Rightarrow> device_result \<Rightarrow> oauth \<Rightarrow> oauth" where
  "device_poll_finished gen result a =
     (if generation a = gen
      then let a1 = clear_pending_sensitive_locked (a\<lparr>callback_active := False\<rparr>)
           in if result = OPENAI_OAUTH_DEVICE_TERMINAL
              then set_error_locked (Some ''OpenAI device login was rejected or expired'') a1
              else if result \<noteq> OPENAI_OAUTH_DEVICE_COMPLETE
              then set_error_locked (Some ''OpenAI device login failed'') a1
              else a1
      else a)"

definition device_poll_released :: "nat \<Rightarrow> oauth \<Rightarrow> oauth" where
  "device_poll_released gen a =
     active_operation_finish (if generation a = gen then a\<lparr>device_poll_in_progress := False\<rparr> else a)"

text \<open>
  The first section of a poll: the answer if no request is made, the generation whose login has
  expired, or the one to poll for.
\<close>

datatype poll_start = PollReturns device_result | PollExpired nat | PollRequest nat

definition device_poll_begin :: "cptr \<Rightarrow> int \<Rightarrow> oauth \<Rightarrow> poll_start \<times> oauth" where
  "device_poll_begin login now a =
     (if \<not> callback_active a \<or> device_auth_id a = None \<or> device_user_code a = None \<or>
         login_id a = None \<or> \<not> state_matches (login_id a) login
      then (PollReturns OPENAI_OAUTH_DEVICE_TERMINAL, a)
      else if now \<ge> device_expires_at a then (PollExpired (generation a), a)
      else if device_poll_in_progress a then (PollReturns OPENAI_OAUTH_DEVICE_PENDING, a)
      else if now < device_next_poll a then (PollReturns OPENAI_OAUTH_DEVICE_PENDING, a)
      else (PollRequest (generation a),
            a\<lparr>device_next_poll := now + int (device_interval a), device_poll_in_progress := True,
              active_operations := active_operations a + 1\<rparr>))"

definition device_slow_down :: "nat \<Rightarrow> int \<Rightarrow> oauth \<Rightarrow> oauth" where
  "device_slow_down gen delayed a =
     (if generation a = gen \<and> device_interval a \<le> 2 ^ 32 - 1 - 5
      then a\<lparr>device_interval := device_interval a + 5,
             device_next_poll := delayed + int (device_interval a + 5)\<rparr>
      else a)"

text \<open>
  After the request: release the poll and return, slow down first, end the login, or exchange a code
  with its verifier. After the exchange: the result of the poll.
\<close>

datatype poll_next =
  PollRelease device_result | PollSlowDown | PollEnd device_result | PollExchange string string

definition device_poll_answer :: "('j, 'x) cjson_strict_scheme \<Rightarrow> transfer \<Rightarrow> poll_next" where
  "device_poll_answer cj t =
     (if t_cancelled t \<or> t_aborted t then PollRelease OPENAI_OAUTH_DEVICE_CANCELLED
      else if \<not> t_curl_ok t then PollRelease OPENAI_OAUTH_DEVICE_TRANSIENT
      else let (result, slow) =
             (if t_status t \<ge> 200 \<and> t_status t < 300 then (OPENAI_OAUTH_DEVICE_COMPLETE, False)
              else device_error_result cj (t_body t) (t_status t))
           in if result = OPENAI_OAUTH_DEVICE_PENDING
              then (if slow then PollSlowDown else PollRelease result)
              else if result = OPENAI_OAUTH_DEVICE_COMPLETE
              then (case parse_device_authorization cj (t_body t) of
                      Some (code, ver) \<Rightarrow> PollExchange code ver
                    | None \<Rightarrow> PollEnd OPENAI_OAUTH_DEVICE_TRANSIENT)
              else PollEnd result)"

definition device_exchanged ::
  "('j, 'x) cjson_strict_scheme \<Rightarrow> bool \<Rightarrow> nat \<Rightarrow> transfer \<Rightarrow> int \<Rightarrow> oauth \<Rightarrow> device_result \<times> oauth" where
  "device_exchanged cj saves gen t now a =
     (case exchange_token t of (exchange, tokens) \<Rightarrow>
        (case (if exchange = OPENAI_OAUTH_TOKEN_OK then complete_callback_tokens cj saves gen tokens now a
               else (-1, a)) of
           (rc, a') \<Rightarrow>
             (if exchange = OPENAI_OAUTH_TOKEN_OK \<and> rc = 0 then OPENAI_OAUTH_DEVICE_COMPLETE
              else if exchange = OPENAI_OAUTH_TOKEN_CANCELLED then OPENAI_OAUTH_DEVICE_CANCELLED
              else OPENAI_OAUTH_DEVICE_TRANSIENT, a')))"

section \<open>Tokens\<close>

definition copy_access_locked :: "oauth \<Rightarrow> (string \<times> cptr) option" where
  "copy_access_locked a =
     (case access_token a of None \<Rightarrow> None | Some t \<Rightarrow> Some (t, account_id a))"

definition copied :: "oauth \<Rightarrow> token_result \<times> (string \<times> cptr) option" where
  "copied a =
     (case copy_access_locked a of
        Some c \<Rightarrow> (OPENAI_OAUTH_TOKEN_OK, Some c) | None \<Rightarrow> (OPENAI_OAUTH_TOKEN_TRANSIENT, None))"

definition token_available :: "oauth \<Rightarrow> bool" where
  "token_available a \<longleftrightarrow>
     vault a \<noteq> None \<and> access_token a \<noteq> None \<and> refresh_token a \<noteq> None \<and> \<not> destroying a \<and> \<not> stop_requested a"

text \<open>A caller that waited for another's refresh: None while it goes on waiting.\<close>

definition refresh_waited ::
  "bool \<Rightarrow> nat \<Rightarrow> oauth \<Rightarrow> (token_result \<times> (string \<times> cptr) option) option" where
  "refresh_waited force observed a =
     (if refresh_token a = None \<or> vault a = None \<or> stop_requested a \<or> destroying a
      then Some (last_refresh_result a, None)
      else if force \<and> token_version a \<noteq> observed then Some (copied a)
      else if refresh_in_progress a then None
      else if last_refresh_result a \<noteq> OPENAI_OAUTH_TOKEN_OK then Some (last_refresh_result a, None)
      else Some (copied a))"

text \<open>
  A caller that need not wait: the answer, or what it takes along into the exchange (generation,
  refresh token, account and plan).
\<close>

type_synonym refresh_ticket = "nat \<times> string \<times> cptr \<times> cptr"

definition refresh_begin ::
  "bool \<Rightarrow> int \<Rightarrow> oauth \<Rightarrow> (token_result \<times> (string \<times> cptr) option + refresh_ticket) \<times> oauth" where
  "refresh_begin force now a =
     (if \<not> force \<and> \<not> needs_refresh (expires_at a) now then (Inl (copied a), a)
      else (case refresh_token a of
              None \<Rightarrow> (Inl (OPENAI_OAUTH_TOKEN_TRANSIENT, None), a)
            | Some refresh \<Rightarrow>
                (Inr (generation a, refresh, account_id a, plan_type a), a\<lparr>refresh_in_progress := True\<rparr>)))"

definition get_access_token_internal ::
  "bool \<Rightarrow> int \<Rightarrow> oauth \<Rightarrow> (token_result \<times> (string \<times> cptr) option + refresh_ticket) \<times> oauth" where
  "get_access_token_internal force now a =
     (if \<not> token_available a then (Inl (OPENAI_OAUTH_TOKEN_SIGNED_OUT, None), a)
      else refresh_begin force now a)"

definition openai_oauth_refresh_after_401 ::
  "cptr \<Rightarrow> int \<Rightarrow> oauth \<Rightarrow> (token_result \<times> (string \<times> cptr) option + refresh_ticket) \<times> oauth" where
  "openai_oauth_refresh_after_401 rejected now a =
     (if \<not> token_available a then (Inl (OPENAI_OAUTH_TOKEN_SIGNED_OUT, None), a)
      else if \<not> state_matches (access_token a) rejected then (Inl (copied a), a)
      else refresh_begin True now a)"

definition refresh_finish ::
  "('j, 'x) cjson_strict_scheme \<Rightarrow> bool \<Rightarrow> bool \<Rightarrow> refresh_ticket \<Rightarrow> transfer \<Rightarrow> int \<Rightarrow> oauth \<Rightarrow>
     (token_result \<times> (string \<times> cptr) option) \<times> oauth" where
  "refresh_finish cj saves deletes ticket t now a =
     (case ticket of (gen, refresh, account, plan) \<Rightarrow>
        (case exchange_token t of (result0, json) \<Rightarrow>
           let staged = (if result0 = OPENAI_OAUTH_TOKEN_OK
                         then token_set_parse cj json (Some refresh) account plan now else None);
               result1 = (if result0 = OPENAI_OAUTH_TOKEN_OK \<and> staged = None
                          then OPENAI_OAUTH_TOKEN_TRANSIENT else result0);
               (result2, a1) =
                 (if generation a \<noteq> gen \<or> stop_requested a \<or> destroying a
                  then (OPENAI_OAUTH_TOKEN_CANCELLED, a)
                  else (case (result1, staged) of
                          (OPENAI_OAUTH_TOKEN_OK, Some c) \<Rightarrow>
                            (case persist_staged_locked cj saves c a of (rc, a') \<Rightarrow>
                               if rc = 0
                               then (OPENAI_OAUTH_TOKEN_OK, (commit_credentials_locked c a')\<lparr>last_error := None\<rparr>)
                               else (OPENAI_OAUTH_TOKEN_TRANSIENT,
                                     set_error_locked (Some ''Could not save refreshed OpenAI credentials'') a'))
                        | (OPENAI_OAUTH_TOKEN_PERMANENT, _) \<Rightarrow>
                            if vault a \<noteq> None \<and> \<not> deletes
                            then (OPENAI_OAUTH_TOKEN_TRANSIENT,
                                  set_error_locked (Some ''Could not remove invalid OpenAI credentials'') a)
                            else (OPENAI_OAUTH_TOKEN_PERMANENT,
                                  set_error_locked (Some ''OpenAI credentials are no longer valid'')
                                    (clear_credentials_locked (a\<lparr>vault := map_option (\<lambda>_. None) (vault a)\<rparr>)))
                        | _ \<Rightarrow> (result1, a)));
               a2 = a1\<lparr>last_refresh_result := result2, refresh_in_progress := False\<rparr>
           in (if result2 = OPENAI_OAUTH_TOKEN_OK then copied a2 else (result2, None), a2)))"

section \<open>Attaching a session, cancelling, signing out\<close>

text \<open>The first section of each, which may be refused.\<close>

definition lifecycle_begin :: "oauth \<Rightarrow> oauth option" where
  "lifecycle_begin a =
     (if destroying a \<or> lifecycle_busy a then None
      else Some (cancel_callback_locked (a\<lparr>lifecycle_busy := True\<rparr>)))"

definition cancel_begin :: "cptr \<Rightarrow> oauth \<Rightarrow> oauth option" where
  "cancel_begin login a =
     (if \<not> callback_active a \<or> login_id a = None \<or> \<not> state_matches (login_id a) login \<or>
         destroying a \<or> lifecycle_busy a then None
      else Some (cancel_callback_locked (a\<lparr>lifecycle_busy := True\<rparr>)))"

text \<open>The last sections wait until nothing is in flight that was begun before.\<close>

definition quiet :: "oauth \<Rightarrow> bool" where
  "quiet a \<longleftrightarrow> \<not> refresh_in_progress a \<and> active_operations a = 0"

definition cancel_finish :: "oauth \<Rightarrow> oauth" where
  "cancel_finish a =
     a\<lparr>login_id := None, last_error := None, stop_requested := False, lifecycle_busy := False\<rparr>"

definition logout_finish :: "bool \<Rightarrow> oauth \<Rightarrow> int \<times> oauth" where
  "logout_finish deletes a =
     (let result = (if vault a = None \<or> \<not> deletes then -1 else 0);
          a1 = (if result = 0
                then clear_credentials_locked (a\<lparr>vault := map_option (\<lambda>_. None) (vault a)\<rparr>) else a)
      in (result, (clear_pending_sensitive_locked a1)
            \<lparr>login_id := None, last_error := None, stop_requested := False,
             last_refresh_result := OPENAI_OAUTH_TOKEN_SIGNED_OUT, lifecycle_busy := False\<rparr>))"

definition attach_clear :: "oauth \<Rightarrow> oauth" where
  "attach_clear a = (clear_credentials_locked (a\<lparr>vault := None\<rparr>))\<lparr>login_id := None\<rparr>"

text \<open>
  \<open>session\<close> is the new store with its row, or NULL; \<open>loads\<close> whether the row could be read.
\<close>

definition attach_finish ::
  "('j, 'x) cjson_strict_scheme \<Rightarrow> cptr option \<Rightarrow> bool \<Rightarrow> oauth \<Rightarrow> int \<times> oauth" where
  "attach_finish cj session loads a =
     (let parsed = (case session of
                      None \<Rightarrow> Some None
                    | Some None \<Rightarrow> (if loads then Some None else None)
                    | Some (Some data) \<Rightarrow>
                        (if loads then map_option Some (stored_credentials_parse cj (Some data)) else None))
      in if destroying a then (-1, a\<lparr>lifecycle_busy := False\<rparr>)
         else let a1 = a\<lparr>vault := session\<rparr>;
                  a2 = (case parsed of Some (Some c) \<Rightarrow> commit_credentials_locked c a1 | _ \<Rightarrow> a1);
                  a3 = (if parsed = None then set_error_locked (Some ''Stored OpenAI credentials are invalid'') a2
                        else a2\<lparr>last_error := None\<rparr>)
              in (if parsed = None then -1 else 0, a3\<lparr>stop_requested := False, lifecycle_busy := False\<rparr>))"

definition openai_oauth_destroy_locked :: "oauth \<Rightarrow> oauth" where
  "openai_oauth_destroy_locked a = cancel_callback_locked (a\<lparr>destroying := True\<rparr>)"

text \<open>The last section of the destruction, which also waits for the one that is busy.\<close>

definition openai_oauth_destroyed :: "oauth \<Rightarrow> oauth" where
  "openai_oauth_destroyed a =
     (clear_credentials_locked ((clear_pending_sensitive_locked a)\<lparr>login_id := None\<rparr>))
       \<lparr>last_error := None, vault := None\<rparr>"

section \<open>All threads together\<close>

text \<open>
  What a thread is in the middle of, with what it carries along. \<open>Ending\<close> is a poll that is about to
  end the login, with whether it still has to be taken off the active operations (\<open>Closing\<close>).
\<close>

datatype op =
  Reaped
| NotReady
| Exchanging nat string string
| Unretained
| Registering nat
| StartFailing nat cptr
| Polling nat
| Slowing nat
| Releasing nat
| Ending nat device_result bool
| Closing
| DeviceExchanging nat string string
| Refreshing refresh_ticket
| Cancelling
| LoggingOut
| AttachWaiting
| AttachLoading
| Destroying

record oauth_sys =
  auth :: oauth
  ops :: "op list"

datatype oauth_event =
  Reap
| Start string string string string bool
| DeviceStart string
| ListenFails
| StartAbandoned
| ReadFails nat
| Callback nat "oauth_callback option"
| RetainFails
| Exchanged nat string string transfer int bool
| ThreadEnds nat bool
| Registered nat "(string \<times> string \<times> nat \<times> nat) option" cptr int
| DeviceStartFails nat cptr
| PollBegins cptr int
| PollAnswered nat transfer
| PollSlows nat int
| PollReleases nat
| PollEnds nat device_result bool
| Closes
| DeviceExchanged nat string string transfer int bool
| GetToken bool int
| TokenRejected cptr int
| Refreshed refresh_ticket transfer int bool bool
| CancelBegins cptr
| CancelEnds
| LogoutBegins
| LogoutEnds bool
| AttachBegins
| AttachClears
| AttachEnds "cptr option" bool
| Destroy
| DestroyEnds

text \<open>A section that needs an operation in flight, and ends it.\<close>

definition after_op :: "op \<Rightarrow> (oauth \<Rightarrow> oauth \<times> op list) \<Rightarrow> oauth_sys \<Rightarrow> oauth_sys" where
  "after_op p f s =
     (if p \<in> set (ops s)
      then (case f (auth s) of (a, new) \<Rightarrow> \<lparr>auth = a, ops = new @ remove1 p (ops s)\<rparr>)
      else s)"

definition begin_op :: "(oauth \<Rightarrow> oauth \<times> op list) \<Rightarrow> oauth_sys \<Rightarrow> oauth_sys" where
  "begin_op f s = (case f (auth s) of (a, new) \<Rightarrow> \<lparr>auth = a, ops = new @ ops s\<rparr>)"

definition or_refused :: "oauth option \<Rightarrow> oauth \<Rightarrow> op list \<Rightarrow> oauth \<times> op list" where
  "or_refused r a new = (case r of None \<Rightarrow> (a, []) | Some a' \<Rightarrow> (a', new))"

fun oauth_step :: "('j, 'x) cjson_strict_scheme \<Rightarrow> oauth_sys \<Rightarrow> oauth_event \<Rightarrow> oauth_sys" where
  "oauth_step cj s Reap = begin_op (\<lambda>a. (a, if reap_previous_callback a then [Reaped] else [])) s"
| "oauth_step cj s (Start st ver ch login created) =
     after_op Reaped (\<lambda>a. or_refused (openai_oauth_start_locked st ver ch login created a) a []) s"
| "oauth_step cj s (DeviceStart login) =
     after_op Reaped (\<lambda>a. case device_start_locked login a of
       None \<Rightarrow> (a, []) | Some a' \<Rightarrow> (a', [Registering (generation a')])) s"
| "oauth_step cj s ListenFails = begin_op (\<lambda>a. (start_not_ready a, [NotReady])) s"
| "oauth_step cj s StartAbandoned = after_op NotReady (\<lambda>a. (start_abandoned a, [])) s"
| "oauth_step cj s (ReadFails gen) = begin_op (\<lambda>a. (callback_read_failed gen a, [])) s"
| "oauth_step cj s (Callback gen cb) =
     begin_op (\<lambda>a. case cb of
         None \<Rightarrow> (callback_unreadable gen a, [])
       | Some c \<Rightarrow>
           (case process_callback_locked gen c a of (valid, ver, a') \<Rightarrow>
              if valid \<and> cb_denial c = None
              then (case (ver, cb_code c) of
                      (Some v, Some code) \<Rightarrow> (a', [Exchanging gen code v])
                    | (None, _) \<Rightarrow> (a', [Unretained])
                    | _ \<Rightarrow> (a', []))
              else (a', []))) s"
| "oauth_step cj s RetainFails =
     after_op Unretained (\<lambda>a. (set_error_locked (Some ''OpenAI OAuth state could not be retained'') a, [])) s"
| "oauth_step cj s (Exchanged gen code ver t now saves) =
     after_op (Exchanging gen code ver) (\<lambda>a. (snd (callback_exchanged cj saves gen t now a), [])) s"
| "oauth_step cj s (ThreadEnds gen timed_out) = begin_op (\<lambda>a. (callback_finish gen timed_out a, [])) s"
| "oauth_step cj s (Registered gen answer message now) =
     after_op (Registering gen) (\<lambda>a.
       (case (case answer of None \<Rightarrow> (False, a) | Some r \<Rightarrow> device_registered gen r now a) of (ok, a') \<Rightarrow>
          (a', [if ok then Closing else StartFailing gen message]))) s"
| "oauth_step cj s (DeviceStartFails gen message) =
     after_op (StartFailing gen message) (\<lambda>a. (device_start_failed gen message a, [Closing])) s"
| "oauth_step cj s (PollBegins login now) =
     begin_op (\<lambda>a. case device_poll_begin login now a of (r, a') \<Rightarrow>
       (a', case r of PollReturns d \<Rightarrow> []
                    | PollExpired gen \<Rightarrow> [Ending gen OPENAI_OAUTH_DEVICE_TERMINAL False]
                    | PollRequest gen \<Rightarrow> [Polling gen])) s"
| "oauth_step cj s (PollAnswered gen t) =
     after_op (Polling gen) (\<lambda>a.
       (a, [case device_poll_answer cj t of
              PollRelease r \<Rightarrow> Releasing gen
            | PollSlowDown \<Rightarrow> Slowing gen
            | PollEnd r \<Rightarrow> Ending gen r True
            | PollExchange code ver \<Rightarrow> DeviceExchanging gen code ver])) s"
| "oauth_step cj s (PollSlows gen now) =
     after_op (Slowing gen) (\<lambda>a. (device_slow_down gen now a, [Releasing gen])) s"
| "oauth_step cj s (PollReleases gen) = after_op (Releasing gen) (\<lambda>a. (device_poll_released gen a, [])) s"
| "oauth_step cj s (DeviceExchanged gen code ver t now saves) =
     after_op (DeviceExchanging gen code ver) (\<lambda>a. case device_exchanged cj saves gen t now a of (r, a') \<Rightarrow>
       (a', [if r = OPENAI_OAUTH_DEVICE_CANCELLED then Closing else Ending gen r True])) s"
| "oauth_step cj s (PollEnds gen r counted) =
     after_op (Ending gen r counted)
       (\<lambda>a. (device_poll_finished gen r a, if counted then [Closing] else [])) s"
| "oauth_step cj s Closes = after_op Closing (\<lambda>a. (active_operation_finish a, [])) s"
| "oauth_step cj s (GetToken force now) =
     begin_op (\<lambda>a. if refresh_in_progress a then (a, [])
       else (case get_access_token_internal force now a of
               (Inl r, a') \<Rightarrow> (a', []) | (Inr ticket, a') \<Rightarrow> (a', [Refreshing ticket]))) s"
| "oauth_step cj s (TokenRejected rejected now) =
     begin_op (\<lambda>a. if refresh_in_progress a then (a, [])
       else (case openai_oauth_refresh_after_401 rejected now a of
               (Inl r, a') \<Rightarrow> (a', []) | (Inr ticket, a') \<Rightarrow> (a', [Refreshing ticket]))) s"
| "oauth_step cj s (Refreshed ticket t now saves deletes) =
     after_op (Refreshing ticket) (\<lambda>a. (snd (refresh_finish cj saves deletes ticket t now a), [])) s"
| "oauth_step cj s (CancelBegins login) = begin_op (\<lambda>a. or_refused (cancel_begin login a) a [Cancelling]) s"
| "oauth_step cj s CancelEnds =
     (if quiet (auth s) then after_op Cancelling (\<lambda>a. (cancel_finish a, [])) s else s)"
| "oauth_step cj s LogoutBegins = begin_op (\<lambda>a. or_refused (lifecycle_begin a) a [LoggingOut]) s"
| "oauth_step cj s (LogoutEnds deletes) =
     (if quiet (auth s) then after_op LoggingOut (\<lambda>a. (snd (logout_finish deletes a), [])) s else s)"
| "oauth_step cj s AttachBegins = begin_op (\<lambda>a. or_refused (lifecycle_begin a) a [AttachWaiting]) s"
| "oauth_step cj s AttachClears =
     (if quiet (auth s) then after_op AttachWaiting (\<lambda>a. (attach_clear a, [AttachLoading])) s else s)"
| "oauth_step cj s (AttachEnds session loads) =
     after_op AttachLoading (\<lambda>a. (snd (attach_finish cj session loads a), [])) s"
| "oauth_step cj s Destroy = begin_op (\<lambda>a. (openai_oauth_destroy_locked a, [Destroying])) s"
| "oauth_step cj s DestroyEnds =
     (if quiet (auth s) \<and> \<not> lifecycle_busy (auth s)
      then after_op Destroying (\<lambda>a. (openai_oauth_destroyed a, [])) s else s)"

definition oauth_init :: oauth_sys where
  "oauth_init = \<lparr>auth = openai_oauth_create, ops = []\<rparr>"

lemmas oauth_sections =
  set_error_locked_def clear_credentials_locked_def clear_pending_sensitive_locked_def
  cancel_callback_locked_def openai_oauth_start_locked_def start_not_ready_def start_abandoned_def
  callback_unreadable_def callback_read_failed_def process_callback_locked_def callback_finish_def device_start_locked_def
  device_registered_def device_start_failed_def active_operation_finish_def device_poll_finished_def
  device_poll_released_def device_poll_begin_def device_slow_down_def cancel_begin_def cancel_finish_def
  lifecycle_begin_def openai_oauth_destroy_locked_def get_access_token_internal_def
  openai_oauth_refresh_after_401_def refresh_begin_def

section \<open>What is held is what is kept\<close>

text \<open>The credentials in memory, and that a row of the store stands for them.\<close>

definition held :: "oauth \<Rightarrow> credentials" where
  "held a = \<lparr>c_access = access_token a, c_refresh = refresh_token a, c_account = account_id a,
     c_plan = plan_type a, c_expires = expires_at a\<rparr>"

definition stands_for :: "('j, 'x) cjson_strict_scheme \<Rightarrow> string \<Rightarrow> credentials \<Rightarrow> bool" where
  "stands_for cj row c \<longleftrightarrow>
     credentials_json cj c = Some row \<or> stored_credentials_parse cj (Some row) = Some c"

definition kept_ok :: "('j, 'x) cjson_strict_scheme \<Rightarrow> oauth \<Rightarrow> bool" where
  "kept_ok cj a \<longleftrightarrow>
     (if access_token a = None then refresh_token a = None \<and> account_id a = None \<and> plan_type a = None
      else credentials_ok (held a) \<and> (\<exists>row. vault a = Some (Some row) \<and> stands_for cj row (held a)))"

definition tickets_ok :: "op list \<Rightarrow> bool" where
  "tickets_ok ps \<longleftrightarrow>
     (\<forall>gen r account plan. Refreshing (gen, r, account, plan) \<in> set ps \<longrightarrow>
        token_text r \<and> pred_option token_text account \<and> pred_option token_text plan)"

lemma stored_ok:
  assumes "stored_credentials_parse cj data = Some c" shows "credentials_ok c"
proof -
  obtain json where json: "json_string_field cj json ''access_token'' True = Some (c_access c)"
    "json_string_field cj json ''refresh_token'' True = Some (c_refresh c)"
    "json_string_field cj json ''account_id'' False = Some (c_account c)"
    "json_string_field cj json ''plan_type'' False = Some (c_plan c)" "c_access c \<noteq> None" "c_refresh c \<noteq> None"
    using assms by (auto simp: stored_credentials_parse_def Let_def split: option.splits if_splits)
  from field_text [OF json(1)] field_text [OF json(2)] field_text [OF json(3)] field_text [OF json(4)] json(5,6)
  show ?thesis by (auto simp: credentials_ok_def)
qed

text \<open>The two sections that store credentials, and the ones that leave them alone.\<close>

lemma held_commit: "held (commit_credentials_locked c a) = c"
  by (cases c) (simp add: held_def commit_credentials_locked_def clear_credentials_locked_def)

lemma kept_commit:
  assumes "credentials_ok c" and "vault a = Some (Some row)" and "stands_for cj row c"
  shows "kept_ok cj (commit_credentials_locked c a)"
proof -
  have "access_token (commit_credentials_locked c a) = c_access c" "vault (commit_credentials_locked c a) = vault a"
    by (simp_all add: commit_credentials_locked_def clear_credentials_locked_def)
  moreover have "c_access c \<noteq> None" using assms(1) by (simp add: credentials_ok_def)
  ultimately show ?thesis using assms held_commit [of c a] by (auto simp: kept_ok_def)
qed

lemma kept_frame:
  "held b = held a \<Longrightarrow> vault b = vault a \<Longrightarrow> kept_ok cj b = kept_ok cj a"
  by (simp add: kept_ok_def held_def)

text \<open>The rest of the state does not matter: \<open>core\<close> is the part that does.\<close>

definition core :: "oauth \<Rightarrow> credentials \<times> cptr option" where "core a = (held a, vault a)"

lemma core_error [simp]: "core (a\<lparr>last_error := e\<rparr>) = core a"
  by (simp add: core_def held_def)

lemma kept_core: "core b = core a \<Longrightarrow> kept_ok cj b = kept_ok cj a"
  by (rule kept_frame) (simp_all add: core_def)

lemma core_sections [simp]:
  "core (set_error_locked m a) = core a"
  "core (clear_pending_sensitive_locked a) = core a"
  "core (cancel_callback_locked a) = core a"
  "core (start_not_ready a) = core a"
  "core (start_abandoned a) = core a"
  "core (callback_unreadable gen a) = core a"
  "core (callback_read_failed gen a) = core a"
  "core (callback_finish gen tm a) = core a"
  "core (device_start_failed gen m a) = core a"
  "core (active_operation_finish a) = core a"
  "core (device_poll_finished gen r a) = core a"
  "core (device_poll_released gen a) = core a"
  "core (device_slow_down gen now a) = core a"
  "core (cancel_finish a) = core a"
  "core (openai_oauth_destroy_locked a) = core a"
  by (simp_all add: oauth_sections Let_def core_def held_def)

lemma core_results:
  "openai_oauth_start_locked st ver ch login created a = Some b \<Longrightarrow> core b = core a"
  "device_start_locked login a = Some b \<Longrightarrow> core b = core a"
  "lifecycle_begin a = Some b \<Longrightarrow> core b = core a"
  "cancel_begin login' a = Some b \<Longrightarrow> core b = core a"
  "process_callback_locked gen c a = (vs, ver', b) \<Longrightarrow> core b = core a"
  "device_registered gen ans now a = (ok, b) \<Longrightarrow> core b = core a"
  "device_poll_begin login' now a = (r, b) \<Longrightarrow> core b = core a"
  "get_access_token_internal force now a = (rt, b) \<Longrightarrow> core b = core a"
  "openai_oauth_refresh_after_401 rej now a = (rt, b) \<Longrightarrow> core b = core a"
proof -
  show "openai_oauth_start_locked st ver ch login created a = Some b \<Longrightarrow> core b = core a"
    "device_start_locked login a = Some b \<Longrightarrow> core b = core a"
    "lifecycle_begin a = Some b \<Longrightarrow> core b = core a"
    "cancel_begin login' a = Some b \<Longrightarrow> core b = core a"
    "process_callback_locked gen c a = (vs, ver', b) \<Longrightarrow> core b = core a"
    "device_registered gen ans now a = (ok, b) \<Longrightarrow> core b = core a"
    "get_access_token_internal force now a = (rt, b) \<Longrightarrow> core b = core a"
    "openai_oauth_refresh_after_401 rej now a = (rt, b) \<Longrightarrow> core b = core a"
    by (auto simp: oauth_sections core_def held_def Let_def split: if_splits option.splits prod.splits)
  show "device_poll_begin login' now a = (r, b) \<Longrightarrow> core b = core a"
    by (auto simp: device_poll_begin_def split: if_splits) (simp add: core_def held_def)
qed

lemma kept_sections [simp]:
  "kept_ok cj (active_operation_finish a) = kept_ok cj a"
  "kept_ok cj (device_poll_finished gen r a) = kept_ok cj a"
  "kept_ok cj (set_error_locked m a) = kept_ok cj a"
  "kept_ok cj (clear_pending_sensitive_locked a) = kept_ok cj a"
  by (rule kept_core; simp)+

lemma kept_other [simp]:
  "kept_ok cj (a\<lparr>last_error := e\<rparr>) = kept_ok cj a" "kept_ok cj (a\<lparr>login_id := l\<rparr>) = kept_ok cj a"
  "kept_ok cj (a\<lparr>stop_requested := s\<rparr>) = kept_ok cj a" "kept_ok cj (a\<lparr>lifecycle_busy := y\<rparr>) = kept_ok cj a"
  "kept_ok cj (a\<lparr>last_refresh_result := r\<rparr>) = kept_ok cj a"
  "kept_ok cj (a\<lparr>refresh_in_progress := y\<rparr>) = kept_ok cj a"
  by (rule kept_core; simp add: core_def held_def)+

lemma persist_cases:
  "persist_staged_locked cj saves c a = (rc, b) \<Longrightarrow>
     rc = 0 \<and> (\<exists>row. b = a\<lparr>vault := Some (Some row)\<rparr> \<and> credentials_json cj c = Some row) \<or> rc = -1 \<and> b = a"
  by (auto simp: persist_staged_locked_def split: option.splits if_splits)

lemma kept_committed:
  assumes "persist_staged_locked cj saves c a = (0, b)" and "credentials_ok c"
  shows "kept_ok cj ((commit_credentials_locked c b)\<lparr>last_error := e\<rparr>)"
proof -
  obtain row where "b = a\<lparr>vault := Some (Some row)\<rparr>" "credentials_json cj c = Some row"
    using persist_cases [OF assms(1)] by auto
  then have "kept_ok cj (commit_credentials_locked c b)"
    using assms(2) by (intro kept_commit) (auto simp: stands_for_def)
  then show ?thesis by simp
qed

lemma complete_kept:
  assumes "kept_ok cj a" and "complete_callback_tokens cj saves gen json now a = (rc, b)"
  shows "kept_ok cj b"
proof (cases "token_set_parse cj json None None None now")
  case (Some c)
  have ok: "credentials_ok c" using token_set_ok [OF Some] by simp
  show ?thesis
  proof (cases "generation a = gen \<and> \<not> stop_requested a")
    case True
    obtain rc1 a1 where p: "persist_staged_locked cj saves c a = (rc1, a1)" by fastforce
    have "vault a = None \<Longrightarrow> rc1 = -1" using p by (auto simp: persist_staged_locked_def)
    then have b: "b = (if rc1 = 0 then (commit_credentials_locked c a1)\<lparr>last_error := None\<rparr>
        else set_error_locked (Some ''Could not save OpenAI credentials'') a)"
      using assms(2) Some True p persist_cases [OF p]
      by (auto simp: complete_callback_tokens_def split: if_splits)
    show ?thesis
    proof (cases "rc1 = 0")
      case True
      with p kept_committed [OF _ ok] b show ?thesis by simp
    next
      case False
      with b assms(1) show ?thesis
        by (simp add: set_error_locked_def)
    qed
  next
    case False
    with assms Some show ?thesis by (auto simp: complete_callback_tokens_def split: if_splits)
  qed
qed (use assms in \<open>auto simp: complete_callback_tokens_def\<close>)

lemma kept_cleared: "kept_ok cj (clear_credentials_locked a)"
  by (simp add: kept_ok_def clear_credentials_locked_def)

lemma device_exchanged_kept: "kept_ok cj a \<Longrightarrow> kept_ok cj (snd (device_exchanged cj saves gen t now a))"
  by (auto simp: device_exchanged_def split: prod.splits if_splits dest: complete_kept)

lemma complete_snd_kept: "kept_ok cj a \<Longrightarrow> kept_ok cj (snd (complete_callback_tokens cj saves gen json now a))"
  using complete_kept by (metis prod.collapse)

lemma callback_exchanged_kept: "kept_ok cj a \<Longrightarrow> kept_ok cj (snd (callback_exchanged cj saves gen t now a))"
  by (auto simp: callback_exchanged_def complete_snd_kept split: prod.splits)

lemma logout_kept: "kept_ok cj a \<Longrightarrow> kept_ok cj (snd (logout_finish deletes a))"
  by (simp add: logout_finish_def Let_def kept_cleared)

lemma attach_kept: "kept_ok cj (attach_clear a)"
  using kept_cleared by (simp add: attach_clear_def)

lemma refresh_kept:
  assumes "kept_ok cj a" and "token_text r" "pred_option token_text account" "pred_option token_text plan"
  shows "kept_ok cj (snd (refresh_finish cj saves deletes (gen, r, account, plan) t now a))"
proof -
  have ok: "token_set_parse cj json (Some r) account plan now = Some c \<Longrightarrow> credentials_ok c" for json c
    using token_set_ok [of cj json "Some r" account plan now c] assms(2-4) by simp
  show ?thesis
    using assms(1) ok kept_committed [of cj saves _ a _ None] kept_cleared
    by (auto simp: refresh_finish_def Let_def split: prod.splits option.splits token_result.splits if_splits
        dest: persist_cases)
qed

text \<open>Attaching starts from a manager that has been cleared; that is known of an attachment under way.\<close>

lemma attach_finish_kept:
  assumes "access_token a = None" and "kept_ok cj a"
  shows "kept_ok cj (snd (attach_finish cj session loads a))"
proof -
  have none: "kept_ok cj (a\<lparr>vault := v\<rparr>)" for v using assms by (simp add: kept_ok_def)
  have "kept_ok cj (commit_credentials_locked c (a\<lparr>vault := Some (Some row)\<rparr>))"
    if "stored_credentials_parse cj (Some row) = Some c" for c row
    using kept_commit [OF stored_ok [OF that], where cj = cj and a = "a\<lparr>vault := Some (Some row)\<rparr>" and row = row] that
    by (simp add: stands_for_def)
  with assms(2) none show ?thesis
    by (auto simp: attach_finish_def Let_def split: option.splits if_splits)
qed

text \<open>Nothing held and no store: what an attachment under way relies on.\<close>

definition bare :: "oauth \<Rightarrow> bool" where "bare a \<longleftrightarrow> vault a = None \<and> access_token a = None"

lemma bare_core: "core b = core a \<Longrightarrow> bare b = bare a"
  by (auto simp: bare_def core_def held_def)

lemma bare_sections:
  "bare a \<Longrightarrow> bare (snd (complete_callback_tokens cj saves gen json now a))"
  "bare a \<Longrightarrow> bare (snd (callback_exchanged cj saves gen t now a))"
  "bare a \<Longrightarrow> bare (snd (device_exchanged cj saves gen t now a))"
  "bare a \<Longrightarrow> bare (snd (refresh_finish cj saves deletes ticket t now a))"
  "bare (attach_clear a)"
proof -
  have o: "bare (x\<lparr>last_refresh_result := r, refresh_in_progress := y\<rparr>) = bare x" "bare (clear_credentials_locked x) = (vault x = None)"
    "bare (set_error_locked m x) = bare x" "bare (device_poll_finished gen dr x) = bare x"
    "bare (active_operation_finish x) = bare x" for x r y m gen dr
    by (auto simp: bare_def clear_credentials_locked_def set_error_locked_def device_poll_finished_def
        clear_pending_sensitive_locked_def active_operation_finish_def Let_def)
  have c: "bare x \<Longrightarrow> bare (snd (complete_callback_tokens cj saves gen json now x))" for x gen json
    by (auto simp: complete_callback_tokens_def o split: option.splits if_splits) (auto simp: bare_def)
  show "bare a \<Longrightarrow> bare (snd (complete_callback_tokens cj saves gen json now a))" by (rule c)
  show "bare a \<Longrightarrow> bare (snd (callback_exchanged cj saves gen t now a))"
    by (auto simp: callback_exchanged_def o c split: prod.splits)
  show "bare a \<Longrightarrow> bare (snd (device_exchanged cj saves gen t now a))"
    using c [of a] by (auto simp: device_exchanged_def split: prod.splits if_splits) (metis snd_conv)+
  show "bare a \<Longrightarrow> bare (snd (refresh_finish cj saves deletes ticket t now a))"
    by (auto simp: refresh_finish_def o Let_def bare_def persist_staged_locked_def set_error_locked_def
        clear_credentials_locked_def split: prod.splits option.splits token_result.splits if_splits)
  show "bare (attach_clear a)" by (simp add: attach_clear_def bare_def clear_credentials_locked_def)
qed

definition flags :: "oauth \<Rightarrow> bool \<times> bool" where "flags a = (lifecycle_busy a, refresh_in_progress a)"

lemma flags_sections [simp]:
  "flags (a\<lparr>last_error := e\<rparr>) = flags a"
  "flags (a\<lparr>vault := v\<rparr>) = flags a"
  "flags (set_error_locked m a) = flags a"
  "flags (clear_credentials_locked a) = flags a"
  "flags (commit_credentials_locked c a) = flags a"
  "flags (clear_pending_sensitive_locked a) = flags a"
  "flags (cancel_callback_locked a) = flags a"
  "flags (start_not_ready a) = flags a"
  "flags (start_abandoned a) = flags a"
  "flags (callback_unreadable gen a) = flags a"
  "flags (callback_read_failed gen a) = flags a"
  "flags (callback_finish gen tm a) = flags a"
  "flags (device_start_failed gen m a) = flags a"
  "flags (active_operation_finish a) = flags a"
  "flags (device_poll_finished gen r a) = flags a"
  "flags (device_poll_released gen a) = flags a"
  "flags (device_slow_down gen now a) = flags a"
  "flags (openai_oauth_destroy_locked a) = flags a"
  "flags (attach_clear a) = flags a"
  by (simp_all add: oauth_sections Let_def flags_def commit_credentials_locked_def attach_clear_def)

lemma flags_persist: "persist_staged_locked cj saves c a = (rc, b) \<Longrightarrow> flags b = flags a"
  by (auto dest: persist_cases)

lemma flags_complete [simp]: "flags (snd (complete_callback_tokens cj saves gen json now a)) = flags a"
  by (auto simp: complete_callback_tokens_def split: option.splits prod.splits dest: flags_persist)

lemma flags_completed: "complete_callback_tokens cj saves gen json now a = (rc, b) \<Longrightarrow> flags b = flags a"
  using flags_complete by (metis snd_conv)

lemma flags_exchanged [simp]:
  "flags (snd (callback_exchanged cj saves gen t now a)) = flags a"
  "flags (snd (device_exchanged cj saves gen t now a)) = flags a"
proof -
  show "flags (snd (callback_exchanged cj saves gen t now a)) = flags a"
    by (auto simp: callback_exchanged_def split: prod.splits)
  show "flags (snd (device_exchanged cj saves gen t now a)) = flags a"
    by (auto simp: device_exchanged_def split: prod.splits if_splits dest: flags_completed)
qed

lemma flags_refresh:
  "flags (snd (refresh_finish cj saves deletes ticket t now a)) = (lifecycle_busy a, False)"
proof -
  have "lifecycle_busy b = lifecycle_busy a" if "flags b = flags a" for b using that by (simp add: flags_def)
  then show ?thesis
    by (auto simp: refresh_finish_def Let_def flags_def set_error_locked_def clear_credentials_locked_def
        commit_credentials_locked_def split: prod.splits option.splits token_result.splits if_splits dest: persist_cases)
qed

lemma flags_results:
  "openai_oauth_start_locked st ver ch login created a = Some b \<Longrightarrow> flags b = flags a"
  "device_start_locked login a = Some b \<Longrightarrow> flags b = flags a"
  "process_callback_locked gen c a = (vs, ver', b) \<Longrightarrow> flags b = flags a"
  "device_registered gen ans now a = (ok, b) \<Longrightarrow> flags b = flags a"
  "device_poll_begin login' now a = (r, b) \<Longrightarrow> flags b = flags a"
  "lifecycle_begin a = Some b \<Longrightarrow> \<not> lifecycle_busy a \<and> flags b = (True, refresh_in_progress a)"
  "cancel_begin login' a = Some b \<Longrightarrow> \<not> lifecycle_busy a \<and> flags b = (True, refresh_in_progress a)"
proof -
  show "openai_oauth_start_locked st ver ch login created a = Some b \<Longrightarrow> flags b = flags a"
    "device_start_locked login a = Some b \<Longrightarrow> flags b = flags a"
    "process_callback_locked gen c a = (vs, ver', b) \<Longrightarrow> flags b = flags a"
    "device_registered gen ans now a = (ok, b) \<Longrightarrow> flags b = flags a"
    "lifecycle_begin a = Some b \<Longrightarrow> \<not> lifecycle_busy a \<and> flags b = (True, refresh_in_progress a)"
    "cancel_begin login' a = Some b \<Longrightarrow> \<not> lifecycle_busy a \<and> flags b = (True, refresh_in_progress a)"
    by (auto simp: oauth_sections flags_def Let_def split: if_splits option.splits prod.splits)
  show "device_poll_begin login' now a = (r, b) \<Longrightarrow> flags b = flags a"
    by (auto simp: device_poll_begin_def split: if_splits) (simp add: flags_def)
qed

text \<open>A refresh begins with what is held.\<close>

lemma refresh_begin_ticket:
  "refresh_begin force now a = (Inr ticket, b) \<Longrightarrow>
     \<exists>r. refresh_token a = Some r \<and> ticket = (generation a, r, account_id a, plan_type a) \<and>
       b = a\<lparr>refresh_in_progress := True\<rparr>"
  by (auto simp: refresh_begin_def split: if_splits option.splits)

lemma token_ticket:
  assumes "get_access_token_internal force now a = (Inr ticket, b) \<or>
    openai_oauth_refresh_after_401 rej now a = (Inr ticket, b)"
  obtains r where "token_available a" "refresh_token a = Some r"
    "ticket = (generation a, r, account_id a, plan_type a)" "b = a\<lparr>refresh_in_progress := True\<rparr>"
proof -
  have "token_available a \<and> (\<exists>f. refresh_begin f now a = (Inr ticket, b))"
    using assms by (auto simp: get_access_token_internal_def openai_oauth_refresh_after_401_def split: if_splits)
  with refresh_begin_ticket that show thesis by blast
qed

lemma ticket_of_held:
  assumes "get_access_token_internal force now a = (Inr ticket, b) \<or>
    openai_oauth_refresh_after_401 rej now a = (Inr ticket, b)" and "kept_ok cj a"
  shows "tickets_ok [Refreshing ticket] \<and> flags b = (lifecycle_busy a, True) \<and> core b = core a"
proof -
  obtain r where t: "token_available a" "refresh_token a = Some r"
    "ticket = (generation a, r, account_id a, plan_type a)" "b = a\<lparr>refresh_in_progress := True\<rparr>"
    by (rule token_ticket [OF assms(1)])
  have "credentials_ok (held a)" using assms(2) t(1) by (auto simp: kept_ok_def token_available_def)
  then have "pred_option token_text (refresh_token a)" "pred_option token_text (account_id a)"
    "pred_option token_text (plan_type a)"
    by (simp_all add: credentials_ok_def held_def)
  with t show ?thesis by (simp add: tickets_ok_def flags_def core_def held_def)
qed

lemma no_ticket:
  assumes "get_access_token_internal force now a = (Inl r, b) \<or>
    openai_oauth_refresh_after_401 rej now a = (Inl r, b)"
  shows "b = a"
  using assms
  by (auto simp: get_access_token_internal_def openai_oauth_refresh_after_401_def refresh_begin_def
      split: if_splits option.splits)

section \<open>The invariant of all runs\<close>

definition lifecycle_op :: "op \<Rightarrow> bool" where
  "lifecycle_op p \<longleftrightarrow> p = Cancelling \<or> p = LoggingOut \<or> p = AttachWaiting \<or> p = AttachLoading"

definition is_refresh :: "op \<Rightarrow> bool" where "is_refresh p = (case p of Refreshing t \<Rightarrow> True | _ \<Rightarrow> False)"

definition count_ops :: "(op \<Rightarrow> bool) \<Rightarrow> op list \<Rightarrow> nat" where "count_ops q ps = length (filter q ps)"

lemma count_ops_simps [simp]:
  "count_ops q [] = 0" "count_ops q (p # ps) = (if q p then 1 else 0) + count_ops q ps"
  "count_ops q (ps @ rs) = count_ops q ps + count_ops q rs"
  by (simp_all add: count_ops_def)

lemma count_ops_remove1:
  "p \<in> set ps \<Longrightarrow> count_ops q (remove1 p ps) + (if q p then 1 else 0) = count_ops q ps"
  by (induction ps) auto

lemma count_ops_pos: "p \<in> set ps \<Longrightarrow> q p \<Longrightarrow> 0 < count_ops q ps"
  by (induction ps) auto

definition sys_inv :: "('j, 'x) cjson_strict_scheme \<Rightarrow> oauth_sys \<Rightarrow> bool" where
  "sys_inv cj s \<longleftrightarrow>
     kept_ok cj (auth s) \<and> tickets_ok (ops s) \<and> (AttachLoading \<in> set (ops s) \<longrightarrow> bare (auth s)) \<and>
     count_ops lifecycle_op (ops s) = (if lifecycle_busy (auth s) then 1 else 0) \<and>
     count_ops is_refresh (ops s) = (if refresh_in_progress (auth s) then 1 else 0)"

lemma tickets_ok_simps [simp]:
  "tickets_ok []" "tickets_ok (ps @ rs) = (tickets_ok ps \<and> tickets_ok rs)"
  "tickets_ok (p # q # ps) = (tickets_ok [p] \<and> tickets_ok (q # ps))"
  by (auto simp: tickets_ok_def)

lemma tickets_ok_single: "\<not> is_refresh p \<Longrightarrow> tickets_ok [p]"
  by (auto simp: tickets_ok_def is_refresh_def)

lemma tickets_ok_remove1: "tickets_ok ps \<Longrightarrow> tickets_ok (remove1 p ps)"
  unfolding tickets_ok_def by (meson notin_set_remove1)

lemma op_kinds [simp]:
  "\<not> is_refresh Reaped" "\<not> is_refresh NotReady" "\<not> is_refresh (Exchanging g c v)" "\<not> is_refresh (Registering g)"
  "\<not> is_refresh (Polling g)" "\<not> is_refresh (DeviceExchanging g c v)" "is_refresh (Refreshing t)"
  "\<not> is_refresh Cancelling" "\<not> is_refresh LoggingOut" "\<not> is_refresh AttachWaiting" "\<not> is_refresh AttachLoading"
  "\<not> lifecycle_op Reaped" "\<not> lifecycle_op NotReady" "\<not> lifecycle_op (Exchanging g c v)" "\<not> lifecycle_op (Registering g)"
  "\<not> lifecycle_op (Polling g)" "\<not> lifecycle_op (DeviceExchanging g c v)" "\<not> lifecycle_op (Refreshing t)"
  "lifecycle_op Cancelling" "lifecycle_op LoggingOut" "lifecycle_op AttachWaiting" "lifecycle_op AttachLoading"
  "\<not> is_refresh Unretained" "\<not> is_refresh (StartFailing g m)" "\<not> is_refresh (Slowing g)" "\<not> is_refresh (Releasing g)" "\<not> is_refresh (Ending g r y)" "\<not> is_refresh Closing" "\<not> is_refresh Destroying"
  "\<not> lifecycle_op Unretained" "\<not> lifecycle_op (StartFailing g m)" "\<not> lifecycle_op (Slowing g)" "\<not> lifecycle_op (Releasing g)" "\<not> lifecycle_op (Ending g r y)" "\<not> lifecycle_op Closing" "\<not> lifecycle_op Destroying"
  by (auto simp: is_refresh_def lifecycle_op_def)

text \<open>What a section must do for the invariant, without and with an operation that it ends.\<close>

lemma inv_begin:
  assumes "sys_inv cj s" and "f (auth s) = (b, new)" and "kept_ok cj b" and "tickets_ok new"
    and "bare (auth s) \<longrightarrow> bare b" and "AttachLoading \<notin> set new"
    and "(if lifecycle_busy b then 1 else 0) = count_ops lifecycle_op new + (if lifecycle_busy (auth s) then 1 else 0)"
    and "(if refresh_in_progress b then 1 else 0) = count_ops is_refresh new + (if refresh_in_progress (auth s) then 1 else 0)"
  shows "sys_inv cj (begin_op f s)"
  using assms by (auto simp: sys_inv_def begin_op_def)

lemma inv_after:
  assumes "sys_inv cj s" and "p \<in> set (ops s) \<Longrightarrow> f (auth s) = (b, new)" and "p \<in> set (ops s) \<Longrightarrow> kept_ok cj b"
    and "tickets_ok new"
    and "p \<in> set (ops s) \<Longrightarrow> bare (auth s) \<longrightarrow> p = AttachLoading \<or> bare b"
    and "AttachLoading \<in> set new \<longrightarrow> bare b"
    and "p \<in> set (ops s) \<Longrightarrow> (if lifecycle_busy b then 1 else 0) + (if lifecycle_op p then 1 else 0) =
      count_ops lifecycle_op new + (if lifecycle_busy (auth s) then 1 else (0::nat))"
    and "p \<in> set (ops s) \<Longrightarrow> (if refresh_in_progress b then 1 else 0) + (if is_refresh p then 1 else 0) =
      count_ops is_refresh new + (if refresh_in_progress (auth s) then 1 else (0::nat))"
  shows "sys_inv cj (after_op p f s)"
proof (cases "p \<in> set (ops s)")
  case True
  note c = count_ops_remove1 [OF True, of lifecycle_op] count_ops_remove1 [OF True, of is_refresh]
  have al: "p \<noteq> AttachLoading" if "AttachLoading \<in> set (remove1 p (ops s))"
  proof
    assume "p = AttachLoading"
    then have "1 < count_ops lifecycle_op (ops s)"
      using c(1) count_ops_pos [OF that, of lifecycle_op] by simp
    with assms(1) show False by (simp add: sys_inv_def split: if_splits)
  qed
  show ?thesis
    using assms(1) assms(2-8) True c al tickets_ok_remove1 [of "ops s" p] notin_set_remove1 [of AttachLoading "ops s" p]
    by (auto simp: sys_inv_def after_op_def split: if_splits)
next
  case False
  with assms(1) show ?thesis by (simp add: after_op_def)
qed

definition plain_op :: "op \<Rightarrow> bool" where
  "plain_op p \<longleftrightarrow> \<not> lifecycle_op p \<and> \<not> is_refresh p"

lemma plain_ops [simp]:
  "plain_op Reaped" "plain_op NotReady" "plain_op (Exchanging g c v)" "plain_op (Registering g)"
  "plain_op (Polling g)" "plain_op (DeviceExchanging g c v)"
  "plain_op Unretained" "plain_op (StartFailing g m)" "plain_op (Slowing g)" "plain_op (Releasing g)" "plain_op (Ending g r y)" "plain_op Closing" "plain_op Destroying"
  by (simp_all add: plain_op_def)

lemma plain_new:
  assumes "list_all plain_op new"
  shows "tickets_ok new" "AttachLoading \<notin> set new" "count_ops lifecycle_op new = 0" "count_ops is_refresh new = 0"
proof -
  show "tickets_ok new" using assms by (auto simp: tickets_ok_def list_all_iff plain_op_def)
  show "AttachLoading \<notin> set new" using assms by (auto simp: list_all_iff plain_op_def)
  show "count_ops lifecycle_op new = 0" "count_ops is_refresh new = 0"
    using assms by (induction new) (auto simp: plain_op_def)
qed

lemma inv_begin_plain:
  assumes "sys_inv cj s" and "core (fst (f (auth s))) = core (auth s)" and "flags (fst (f (auth s))) = flags (auth s)"
    and "list_all plain_op (snd (f (auth s)))"
  shows "sys_inv cj (begin_op f s)"
proof (rule inv_begin [OF assms(1), of f "fst (f (auth s))" "snd (f (auth s))"])
  show "kept_ok cj (fst (f (auth s)))" using assms(1,2) kept_core by (auto simp: sys_inv_def)
  show "bare (auth s) \<longrightarrow> bare (fst (f (auth s)))" using bare_core [OF assms(2)] by simp
qed (use assms(3) plain_new [OF assms(4)] in \<open>simp_all add: flags_def\<close>)

lemma inv_after_plain:
  assumes "sys_inv cj s" and "plain_op p" and "kept_ok cj (fst (f (auth s)))"
    and "bare (auth s) \<Longrightarrow> bare (fst (f (auth s)))" and "flags (fst (f (auth s))) = flags (auth s)"
    and "list_all plain_op (snd (f (auth s)))"
  shows "sys_inv cj (after_op p f s)"
proof (rule inv_after [OF assms(1), of p f "fst (f (auth s))" "snd (f (auth s))"])
qed (use assms(2-5) plain_new [OF assms(6)] in \<open>simp_all add: flags_def plain_op_def\<close>)

lemma sys_inv_parts:
  assumes "sys_inv cj s"
  shows "kept_ok cj (auth s)"
    and "Refreshing (g, r, ac, pl) \<in> set (ops s) \<Longrightarrow> token_text r \<and> pred_option token_text ac \<and> pred_option token_text pl"
    and "AttachLoading \<in> set (ops s) \<Longrightarrow> bare (auth s)"
    and "p \<in> set (ops s) \<Longrightarrow> lifecycle_op p \<Longrightarrow> lifecycle_busy (auth s)"
    and "p \<in> set (ops s) \<Longrightarrow> is_refresh p \<Longrightarrow> refresh_in_progress (auth s)"
  using assms count_ops_pos [of p "ops s" lifecycle_op] count_ops_pos [of p "ops s" is_refresh]
  by (auto simp: sys_inv_def tickets_ok_def split: if_splits)

lemma inv_ticket:
  assumes "sys_inv cj s" and "f (auth s) = (b, [Refreshing ticket])" and "\<not> refresh_in_progress (auth s)"
    and "tickets_ok [Refreshing ticket]" and "flags b = (lifecycle_busy (auth s), True)" and "core b = core (auth s)"
  shows "sys_inv cj (begin_op f s)"
proof (rule inv_begin [where f = f and b = b and new = "[Refreshing ticket]"])
  show "kept_ok cj b" using sys_inv_parts(1) [OF assms(1)] by (simp add: kept_core [OF assms(6)])
  show "bare (auth s) \<longrightarrow> bare b" using bare_core [OF assms(6)] by simp
qed (use assms(1-5) in \<open>simp_all add: flags_def\<close>)

lemma inv_lifecycle:
  assumes "sys_inv cj s" and "f (auth s) = (b, [p])" and "lifecycle_op p" and "p \<noteq> AttachLoading"
    and "\<not> lifecycle_busy (auth s)" and "flags b = (True, refresh_in_progress (auth s))" and "core b = core (auth s)"
  shows "sys_inv cj (begin_op f s)"
proof (rule inv_begin [where f = f and b = b and new = "[p]"])
  have r: "\<not> is_refresh p" using assms(3) by (auto simp: lifecycle_op_def)
  show "kept_ok cj b" using sys_inv_parts(1) [OF assms(1)] by (simp add: kept_core [OF assms(7)])
  show "bare (auth s) \<longrightarrow> bare b" using bare_core [OF assms(7)] by simp
  show "tickets_ok [p]" by (rule tickets_ok_single [OF r])
  show "AttachLoading \<notin> set [p]" using assms(4) by auto
  show "(if lifecycle_busy b then 1 else 0) = count_ops lifecycle_op [p] + (if lifecycle_busy (auth s) then 1 else 0)"
    using assms(3,5,6) by (simp add: flags_def)
  show "(if refresh_in_progress b then 1 else 0) = count_ops is_refresh [p] + (if refresh_in_progress (auth s) then 1 else 0)"
    using r assms(6) by (simp add: flags_def)
qed (use assms(1,2) in simp_all)

lemma sys_inv_step:
  assumes "sys_inv cj s" shows "sys_inv cj (oauth_step cj s e)"
proof -
  note K = sys_inv_parts(1) [OF assms]
  let ?a = "auth s"
  have same: "sys_inv cj (after_op p f s)" if "plain_op p" "core (fst (f ?a)) = core ?a" "flags (fst (f ?a)) = flags ?a"
    "list_all plain_op (snd (f ?a))" for p f
    by (rule inv_after_plain [where f = f and p = p]) (simp_all add: assms that K kept_core [OF that(2)] bare_core [OF that(2)])
  show ?thesis
  proof (cases e)
    case Reap
    then show ?thesis by (simp add: inv_begin_plain [OF assms])
  next
    case (Start st ver ch login created)
    then show ?thesis
      by (auto simp: or_refused_def intro!: same split: option.split dest: core_results flags_results)
  next
    case (DeviceStart login)
    then show ?thesis by (auto intro!: same split: option.split dest: core_results flags_results)
  next
    case ListenFails
    then show ?thesis by (simp add: inv_begin_plain [OF assms])
  next
    case StartAbandoned
    then show ?thesis by (simp add: same)
  next
    case (Callback gen cb)
    then show ?thesis
      by (auto intro!: inv_begin_plain [OF assms] split: option.split prod.split dest: core_results flags_results)
  next
    case (Exchanged gen code ver t now saves)
    then show ?thesis
      using K bare_sections(2) [of ?a] callback_exchanged_kept [of cj ?a]
      by (auto intro!: inv_after_plain [OF assms])
  next
    case (ThreadEnds gen tm)
    then show ?thesis by (simp add: inv_begin_plain [OF assms])
  next
    case (Registered gen answer message now)
    then show ?thesis
      by (auto intro!: same split: option.split prod.split dest: core_results flags_results)
  next
    case (PollBegins login now)
    then show ?thesis
      by (auto intro!: inv_begin_plain [OF assms] split: prod.split poll_start.split dest: core_results flags_results)
  next
    case (PollAnswered gen t)
    then show ?thesis by (auto intro!: same split: poll_next.split)
  next
    case (DeviceExchanged gen code ver t now saves)
    obtain r b where d: "device_exchanged cj saves gen t now ?a = (r, b)" by fastforce
    then have "kept_ok cj b" "bare ?a \<longrightarrow> bare b" "flags b = flags ?a"
      using device_exchanged_kept [OF K, of saves gen t now] bare_sections(3) [of ?a cj saves gen t now]
        flags_exchanged(2) [of cj saves gen t now ?a] by simp_all
    with DeviceExchanged d show ?thesis by (auto intro!: inv_after_plain [OF assms])
  next
    case (ReadFails gen)
    then show ?thesis by (simp add: inv_begin_plain [OF assms])
  next
    case RetainFails
    then show ?thesis by (simp add: same)
  next
    case (DeviceStartFails gen message)
    then show ?thesis by (simp add: same)
  next
    case (PollSlows gen now)
    then show ?thesis by (simp add: same)
  next
    case (PollReleases gen)
    then show ?thesis by (simp add: same)
  next
    case (PollEnds gen r counted)
    then show ?thesis by (simp add: same)
  next
    case Closes
    then show ?thesis by (simp add: same)
  next
    case Destroy
    then show ?thesis by (simp add: inv_begin_plain [OF assms])
  next
    case DestroyEnds
    have "kept_ok cj (openai_oauth_destroyed ?a)" "bare (openai_oauth_destroyed ?a)"
      "flags (openai_oauth_destroyed ?a) = flags ?a"
      by (simp_all add: openai_oauth_destroyed_def kept_ok_def bare_def flags_def
          clear_credentials_locked_def clear_pending_sensitive_locked_def)
    with DestroyEnds assms show ?thesis by (auto intro!: inv_after_plain [OF assms])
  next
    case (GetToken force now)
    show ?thesis
    proof (cases "refresh_in_progress ?a")
      case True
      with GetToken show ?thesis by (simp add: inv_begin_plain [OF assms])
    next
      case False
      obtain r b where rb: "get_access_token_internal force now ?a = (r, b)" by fastforce
      show ?thesis
      proof (cases r)
        case (Inl x)
        then have "b = ?a" using rb no_ticket by blast
        with GetToken False rb Inl show ?thesis by (simp add: inv_begin_plain [OF assms])
      next
        case (Inr ticket)
        note t = ticket_of_held [OF disjI1 [OF rb [unfolded Inr]] K]
        show ?thesis unfolding GetToken oauth_step.simps
          by (rule inv_ticket [OF assms _ False, of _ b ticket]) (use False rb Inr t in simp_all)
      qed
    qed
  next
    case (TokenRejected rej now)
    show ?thesis
    proof (cases "refresh_in_progress ?a")
      case True
      with TokenRejected show ?thesis by (simp add: inv_begin_plain [OF assms])
    next
      case False
      obtain r b where rb: "openai_oauth_refresh_after_401 rej now ?a = (r, b)" by fastforce
      show ?thesis
      proof (cases r)
        case (Inl x)
        then have "b = ?a" using rb no_ticket by blast
        with TokenRejected False rb Inl show ?thesis by (simp add: inv_begin_plain [OF assms])
      next
        case (Inr ticket)
        note t = ticket_of_held [OF disjI2 [OF rb [unfolded Inr]] K]
        show ?thesis unfolding TokenRejected oauth_step.simps
          by (rule inv_ticket [OF assms _ False, of _ b ticket]) (use False rb Inr t in simp_all)
      qed
    qed
  next
    case (Refreshed ticket t now saves deletes)
    obtain g r ac pl where tk: "ticket = (g, r, ac, pl)" by (cases ticket)
    let ?b = "snd (refresh_finish cj saves deletes ticket t now ?a)"
    have fl: "lifecycle_busy ?b = lifecycle_busy ?a" "refresh_in_progress ?b = False"
      using flags_refresh [of cj saves deletes ticket t now ?a] by (simp_all add: flags_def)
    show ?thesis
      using Refreshed tk sys_inv_parts(2) [OF assms, of g r ac pl] sys_inv_parts(5) [OF assms, of "Refreshing ticket"]
        fl refresh_kept [OF K, of r ac pl saves deletes g t now] bare_sections(4) [of ?a cj saves deletes ticket t now]
      by (auto intro!: inv_after [OF assms, of _ _ ?b "[]"])
  next
    case (CancelBegins login)
    show ?thesis
    proof (cases "cancel_begin login ?a")
      case None
      with CancelBegins show ?thesis by (simp add: inv_begin_plain [OF assms] or_refused_def)
    next
      case (Some b)
      then have "core b = core ?a" "\<not> lifecycle_busy ?a" "flags b = (True, refresh_in_progress ?a)"
        using core_results(4) flags_results(7) by blast+
      then show ?thesis unfolding CancelBegins oauth_step.simps
        by (intro inv_lifecycle [OF assms, of _ b Cancelling]) (simp_all add: Some or_refused_def)
    qed
  next
    case LogoutBegins
    show ?thesis
    proof (cases "lifecycle_begin ?a")
      case None
      with LogoutBegins show ?thesis by (simp add: inv_begin_plain [OF assms] or_refused_def)
    next
      case (Some b)
      then have "core b = core ?a" "\<not> lifecycle_busy ?a" "flags b = (True, refresh_in_progress ?a)"
        using core_results(3) flags_results(6) by blast+
      then show ?thesis unfolding LogoutBegins oauth_step.simps
        by (intro inv_lifecycle [OF assms, of _ b LoggingOut]) (simp_all add: Some or_refused_def)
    qed
  next
    case AttachBegins
    show ?thesis
    proof (cases "lifecycle_begin ?a")
      case None
      with AttachBegins show ?thesis by (simp add: inv_begin_plain [OF assms] or_refused_def)
    next
      case (Some b)
      then have "core b = core ?a" "\<not> lifecycle_busy ?a" "flags b = (True, refresh_in_progress ?a)"
        using core_results(3) flags_results(6) by blast+
      then show ?thesis unfolding AttachBegins oauth_step.simps
        by (intro inv_lifecycle [OF assms, of _ b AttachWaiting]) (simp_all add: Some or_refused_def)
    qed
  next
    case CancelEnds
    have "kept_ok cj (cancel_finish ?a)" "bare (cancel_finish ?a) = bare ?a"
      using K by (simp_all add: kept_core [of "cancel_finish ?a" ?a] bare_core [of "cancel_finish ?a" ?a])
    moreover have "lifecycle_busy (cancel_finish ?a) = False"
      "refresh_in_progress (cancel_finish ?a) = refresh_in_progress ?a" by (simp_all add: cancel_finish_def)
    ultimately show ?thesis
      using CancelEnds assms sys_inv_parts(4) [OF assms, of Cancelling]
      by (auto intro!: inv_after [OF assms, of _ _ "cancel_finish ?a" "[]"])
  next
    case (LogoutEnds deletes)
    let ?b = "snd (logout_finish deletes ?a)"
    have "lifecycle_busy ?b = False" "refresh_in_progress ?b = refresh_in_progress ?a"
      by (simp_all add: logout_finish_def Let_def clear_pending_sensitive_locked_def clear_credentials_locked_def)
    moreover have "bare ?a \<longrightarrow> bare ?b"
      by (simp add: logout_finish_def Let_def bare_def clear_pending_sensitive_locked_def clear_credentials_locked_def)
    ultimately show ?thesis
      using LogoutEnds assms logout_kept [OF K] sys_inv_parts(4) [OF assms, of LoggingOut]
      by (auto intro!: inv_after [OF assms, of _ _ ?b "[]"])
  next
    case AttachClears
    have "lifecycle_busy (attach_clear ?a) = lifecycle_busy ?a"
      "refresh_in_progress (attach_clear ?a) = refresh_in_progress ?a"
      by (simp_all add: attach_clear_def clear_credentials_locked_def)
    then show ?thesis
      using AttachClears assms attach_kept bare_sections(5) sys_inv_parts(4) [OF assms, of AttachWaiting]
      by (auto intro!: inv_after [OF assms, of _ _ "attach_clear ?a" "[AttachLoading]"] tickets_ok_single)
  next
    case (AttachEnds session loads)
    let ?b = "snd (attach_finish cj session loads ?a)"
    have "lifecycle_busy ?b = False" "refresh_in_progress ?b = refresh_in_progress ?a"
      by (auto simp: attach_finish_def Let_def commit_credentials_locked_def clear_credentials_locked_def
          set_error_locked_def split: option.splits)
    moreover have "AttachLoading \<in> set (ops s) \<Longrightarrow> kept_ok cj ?b"
      using sys_inv_parts(3) [OF assms] attach_finish_kept [OF _ K] by (simp add: bare_def)
    ultimately show ?thesis
      using AttachEnds assms sys_inv_parts(4) [OF assms, of AttachLoading]
      by (auto intro!: inv_after [OF assms, of _ _ ?b "[]"])
  qed
qed

interpretation oauth_machine: machine oauth_init "oauth_step cj" "sys_inv cj" for cj
proof
  show "sys_inv cj oauth_init"
    by (simp add: sys_inv_def oauth_init_def openai_oauth_create_def kept_ok_def)
qed (rule sys_inv_step)

text \<open>
  C31: signed in means saved. However callers, logins, polls, refreshes, cancellations and sign-outs
  interleave, and whatever the database, the network and the browser do: there is never an access
  token without a refresh token, the tokens in memory are printable and bounded, and the store holds
  a row that stands for exactly them; and never are two refreshes on the way.
\<close>

theorem signed_in_is_saved:
  fixes cj :: "('j, 'x) cjson_strict_scheme" and es defines "s \<equiv> run (oauth_step cj) oauth_init es"
  shows "(if access_token (auth s) = None
          then refresh_token (auth s) = None \<and> account_id (auth s) = None \<and> plan_type (auth s) = None
          else credentials_ok (held (auth s)) \<and>
               (\<exists>row. vault (auth s) = Some (Some row) \<and> stands_for cj row (held (auth s)))) \<and>
    count_ops is_refresh (ops s) \<le> 1"
  using oauth_machine.inv_reachable [of cj es] unfolding s_def [symmetric] sys_inv_def kept_ok_def by simp

section \<open>Who may sign in\<close>

text \<open>A section that begins nothing: the generation stays, what is pending stays or is dropped.\<close>

definition calm :: "oauth \<Rightarrow> oauth \<Rightarrow> bool" where
  "calm a b \<longleftrightarrow> generation b = generation a \<and>
     (login_state b = login_state a \<and> verifier b = verifier a \<or> login_state b = None) \<and>
     (device_auth_id b = device_auth_id a \<or> device_auth_id b = None)"

lemma calm_refl [simp]: "calm a a" by (simp add: calm_def)

lemma calm_trans: "calm a b \<Longrightarrow> calm b c \<Longrightarrow> calm a c" by (auto simp: calm_def)

lemma calm_sections:
  "calm a (set_error_locked m a)"
  "calm a (clear_pending_sensitive_locked a)"
  "calm a (start_not_ready a)"
  "calm a (start_abandoned a)"
  "calm a (callback_unreadable gen a)"
  "calm a (callback_read_failed gen a)"
  "calm a (callback_finish gen tm a)"
  "calm a (device_start_failed gen m a)"
  "calm a (active_operation_finish a)"
  "calm a (device_poll_finished gen r a)"
  "calm a (device_poll_released gen a)"
  "calm a (device_slow_down gen now a)"
  "calm a (cancel_finish a)"
  "calm a (attach_clear a)"
  "calm a (snd (logout_finish deletes a))"
  "calm a (snd (attach_finish cj session loads a))"
  "calm a (snd (refresh_finish cj saves deletes ticket t now a))"
  "calm a (snd (complete_callback_tokens cj saves gen json now a))"
  "calm a (snd (callback_exchanged cj saves gen t now a))"
proof -
  have c: "calm a (commit_credentials_locked c (a\<lparr>vault := v\<rparr>))" for c v
    by (simp add: calm_def commit_credentials_locked_def clear_credentials_locked_def)
  show "calm a (set_error_locked m a)" "calm a (clear_pending_sensitive_locked a)" "calm a (start_not_ready a)"
    "calm a (start_abandoned a)" "calm a (callback_unreadable gen a)" "calm a (callback_read_failed gen a)" "calm a (callback_finish gen tm a)"
    "calm a (device_start_failed gen m a)" "calm a (active_operation_finish a)"
    "calm a (device_poll_finished gen r a)" "calm a (device_poll_released gen a)"
    "calm a (device_slow_down gen now a)" "calm a (cancel_finish a)"
    by (auto simp: calm_def oauth_sections Let_def)
  show "calm a (attach_clear a)" "calm a (snd (logout_finish deletes a))"
    by (auto simp: calm_def attach_clear_def logout_finish_def Let_def clear_credentials_locked_def
        clear_pending_sensitive_locked_def)
  show "calm a (snd (attach_finish cj session loads a))"
    by (auto simp: calm_def attach_finish_def Let_def clear_credentials_locked_def commit_credentials_locked_def
        set_error_locked_def split: option.split)
  show "calm a (snd (refresh_finish cj saves deletes ticket t now a))"
    by (auto simp: calm_def refresh_finish_def Let_def clear_credentials_locked_def commit_credentials_locked_def
        set_error_locked_def split: option.split prod.split token_result.split dest: persist_cases)
  show cc: "calm a (snd (complete_callback_tokens cj saves gen json now a))" for json
    by (auto simp: calm_def complete_callback_tokens_def clear_credentials_locked_def commit_credentials_locked_def
        set_error_locked_def split: option.split prod.split if_splits dest!: persist_cases)
  show "calm a (snd (callback_exchanged cj saves gen t now a))"
    using cc by (auto simp: callback_exchanged_def split: prod.split) (auto simp: calm_def set_error_locked_def)
qed

lemma calm_completed: "complete_callback_tokens cj saves gen json now a = (rc, b) \<Longrightarrow> calm a b"
  using calm_sections(18) by (metis snd_conv)

lemma calm_device:
  "calm a (snd (device_exchanged cj saves gen t now a))"
  "device_poll_begin login now a = (rb, c) \<Longrightarrow> calm a c"
  "calm a (openai_oauth_destroyed a)"
  "device_exchanged cj saves gen t now a = (rd, d) \<Longrightarrow> calm a d"
proof -
  show "device_exchanged cj saves gen t now a = (rd, d) \<Longrightarrow> calm a d"
    by (auto simp: device_exchanged_def split: prod.splits if_splits dest: calm_completed)
  show "calm a (snd (device_exchanged cj saves gen t now a))"
    by (auto simp: device_exchanged_def split: prod.split if_splits dest: calm_completed)
  show "device_poll_begin login now a = (rb, c) \<Longrightarrow> calm a c"
    by (auto simp: device_poll_begin_def split: if_splits) (simp add: calm_def)
  show "calm a (openai_oauth_destroyed a)"
    by (simp add: calm_def openai_oauth_destroyed_def clear_credentials_locked_def clear_pending_sensitive_locked_def)
qed

lemma calm_process: "process_callback_locked gen c a = (vs, ver, b) \<Longrightarrow> calm a b"
  by (auto simp: process_callback_locked_def Let_def calm_def set_error_locked_def clear_pending_sensitive_locked_def
      split: if_splits)

lemma calm_tokens:
  "get_access_token_internal force now a = (r, b) \<Longrightarrow> calm a b"
  "openai_oauth_refresh_after_401 rej now a = (r, b) \<Longrightarrow> calm a b"
  by (auto simp: get_access_token_internal_def openai_oauth_refresh_after_401_def refresh_begin_def calm_def
      split: if_splits option.splits)

definition cancelled_to :: "oauth \<Rightarrow> oauth \<Rightarrow> bool" where
  "cancelled_to a b \<longleftrightarrow> generation b = next_generation (generation a) \<and> login_state b = None \<and> device_auth_id b = None"

lemma cancelled_sections:
  "lifecycle_begin a = Some b \<Longrightarrow> cancelled_to a b"
  "cancel_begin login a = Some b \<Longrightarrow> cancelled_to a b"
  "cancelled_to a (openai_oauth_destroy_locked a)"
  by (auto simp: cancelled_to_def oauth_sections split: if_splits)

definition starts :: "oauth_event \<Rightarrow> bool" where
  "starts e = (case e of Start st ver ch login created \<Rightarrow> True | DeviceStart login \<Rightarrow> True | _ \<Rightarrow> False)"

definition registers :: "oauth_sys \<Rightarrow> oauth_event \<Rightarrow> oauth \<Rightarrow> bool" where
  "registers s e b \<longleftrightarrow>
     (\<exists>g ans m now. e = Registered g ans m now \<and> Registering g \<in> set (ops s) \<and> generation (auth s) = g) \<and>
     generation b = generation (auth s) \<and> login_state b = login_state (auth s) \<and> verifier b = verifier (auth s)"

lemma step_state:
  assumes "\<not> starts e"
  shows "calm (auth s) (auth (oauth_step cj s e)) \<or> cancelled_to (auth s) (auth (oauth_step cj s e)) \<or>
    registers s e (auth (oauth_step cj s e))"
proof -
  have after: "R (auth (after_op p f s))" if "p \<in> set (ops s) \<Longrightarrow> R (fst (f (auth s)))" "R (auth s)" for R p f
    using that by (auto simp: after_op_def split: prod.split)
  have begun: "auth (begin_op f s) = fst (f (auth s))" for f by (simp add: begin_op_def split: prod.split)
  have calm: "calm (auth s) (auth (after_op p f s))" if "calm (auth s) (fst (f (auth s)))" for p f
    using that by (auto simp: after_op_def split: prod.split)
  show ?thesis
  proof (cases e)
    case (Registered g ans m now)
    show ?thesis
    proof (cases "Registering g \<in> set (ops s)")
      case True
      have reg: "registers s e b" if "device_registered g r now (auth s) = (True, b)" for r b
        using that Registered True by (auto simp: device_registered_def registers_def split: prod.splits if_splits)
      have noreg: "b = auth s" if "device_registered g r now (auth s) = (False, b)" for r b
        using that by (auto simp: device_registered_def split: prod.splits if_splits)
      show ?thesis
      proof (cases ans)
        case None
        with Registered True show ?thesis by (simp add: after_op_def)
      next
        case (Some r)
        obtain ok b where d: "device_registered g r now (auth s) = (ok, b)" by fastforce
        show ?thesis
        proof (cases ok)
          case True
          with d reg Registered Some \<open>Registering g \<in> set (ops s)\<close> show ?thesis by (simp add: after_op_def)
        next
          case False
          with d noreg have "b = auth s" by simp
          with d False Registered Some True show ?thesis by (simp add: after_op_def)
        qed
      qed
    qed (use Registered in \<open>simp add: after_op_def\<close>)
  next
    case (Callback gen cb)
    have "calm (auth s) (set_error_locked m b)" if "calm (auth s) b" for m b
      using that by (meson calm_sections calm_trans)
    with Callback show ?thesis
      by (auto simp: begun calm_sections split: option.split prod.split dest!: calm_process)
  next
    case (CancelBegins login)
    then show ?thesis by (auto simp: begun or_refused_def split: option.split dest: cancelled_sections(1,2))
  next
    case LogoutBegins
    then show ?thesis by (auto simp: begun or_refused_def split: option.split dest: cancelled_sections(1,2))
  next
    case AttachBegins
    then show ?thesis by (auto simp: begun or_refused_def split: option.split dest: cancelled_sections(1,2))
  qed (use assms in \<open>auto simp: begun starts_def or_refused_def calm_sections calm_device(1,3) cancelled_sections(3) calm_refl
      intro!: calm disjI1 split: option.split sum.split prod.split
      dest: calm_device(2,4) calm_tokens cancelled_sections(1,2)\<close>)
qed

text \<open>Where operations in flight come from.\<close>

definition new_op :: "oauth_sys \<Rightarrow> oauth_event \<Rightarrow> oauth \<Rightarrow> op \<Rightarrow> bool" where
  "new_op s e b p =
     (case p of
        Exchanging g code ver \<Rightarrow>
          (\<exists>cb st. e = Callback g (Some cb) \<and> generation (auth s) = g \<and> generation b = g \<and>
             login_state (auth s) = Some st \<and> cb_state cb = Some st \<and> verifier (auth s) = Some ver \<and>
             cb_code cb = Some code \<and> cb_denial cb = None \<and> login_state b = None)
      | Registering g \<Rightarrow> starts e
      | Polling g \<Rightarrow>
          g = generation (auth s) \<and> generation b = g \<and> device_auth_id (auth s) \<noteq> None \<and> \<not> starts e
      | DeviceExchanging g code ver \<Rightarrow> Polling g \<in> set (ops s)
      | Refreshing ticket \<Rightarrow> access_token (auth s) \<noteq> None
      | _ \<Rightarrow> True)"

lemma callback_op:
  assumes "process_callback_locked gen cb a = (True, Some ver, b)" and "cb_denial cb = None"
  shows "generation a = gen \<and> generation b = gen \<and> login_state b = None \<and> verifier a = Some ver \<and>
    (\<exists>st. login_state a = Some st \<and> cb_state cb = Some st)"
  using assms
  by (auto simp: process_callback_locked_def Let_def clear_pending_sensitive_locked_def state_matches_def
      split: if_splits option.splits)

lemma step_ops:
  assumes "p \<in> set (ops (oauth_step cj s e))"
  shows "p \<in> set (ops s) \<or> new_op s e (auth (oauth_step cj s e)) p"
proof -
  have keep: "p \<in> set (remove1 q (ops s)) \<Longrightarrow> p \<in> set (ops s)" for q by (meson notin_set_remove1)
  have tok: "get_access_token_internal f now a = (Inr t, b) \<Longrightarrow> \<exists>y. access_token a = Some y"
    "openai_oauth_refresh_after_401 rej now a = (Inr t, b) \<Longrightarrow> \<exists>y. access_token a = Some y" for f now a t b rej
    using token_ticket [of f now a t b rej] by (auto simp: token_available_def)
  show ?thesis
  proof (cases e)
    case (Callback gen cb)
    with assms show ?thesis
      by (auto simp: begin_op_def new_op_def split: option.splits prod.splits if_splits dest!: callback_op)
  next
    case (PollBegins login now)
    with assms show ?thesis
      by (auto simp: begin_op_def new_op_def starts_def device_poll_begin_def split: if_splits)
  next
    case (PollAnswered g t)
    with assms keep show ?thesis
      by (auto simp: after_op_def new_op_def split: if_splits poll_next.splits)
  next
    case (GetToken f now)
    with assms show ?thesis
      by (auto simp: begin_op_def new_op_def split: if_splits sum.splits prod.splits dest: tok)
  next
    case (TokenRejected rej now)
    with assms show ?thesis
      by (auto simp: begin_op_def new_op_def split: if_splits sum.splits prod.splits dest: tok)
  qed (use assms keep in \<open>auto simp: begin_op_def after_op_def new_op_def starts_def or_refused_def
      split: if_splits option.splits sum.splits prod.splits\<close>)
qed

text \<open>A login, a poll or a registration belongs to a generation; those of earlier ones are stale.\<close>

definition op_gen :: "op \<Rightarrow> nat option" where
  "op_gen p = (case p of Exchanging g code ver \<Rightarrow> Some g | Registering g \<Rightarrow> Some g | Polling g \<Rightarrow> Some g
     | DeviceExchanging g code ver \<Rightarrow> Some g | _ \<Rightarrow> None)"

definition ops_current :: "oauth_sys \<Rightarrow> bool" where
  "ops_current s \<longleftrightarrow> (\<forall>p g. p \<in> set (ops s) \<longrightarrow> op_gen p = Some g \<longrightarrow> g \<le> generation (auth s))"

definition all_stale :: "oauth_sys \<Rightarrow> bool" where
  "all_stale s \<longleftrightarrow> login_state (auth s) = None \<and> device_auth_id (auth s) = None \<and>
     (\<forall>p g. p \<in> set (ops s) \<longrightarrow> op_gen p = Some g \<longrightarrow> g < generation (auth s))"

lemma step_starts:
  assumes "starts e"
  shows "generation (auth (oauth_step cj s e)) = generation (auth s) \<or>
      generation (auth (oauth_step cj s e)) = next_generation (generation (auth s))"
    and "p \<in> set (ops (oauth_step cj s e)) \<Longrightarrow> p \<in> set (ops s) \<or> p = Registering (generation (auth (oauth_step cj s e)))"
proof -
  have keep: "p \<in> set (remove1 q (ops s)) \<Longrightarrow> p \<in> set (ops s)" for q by (meson notin_set_remove1)
  show "generation (auth (oauth_step cj s e)) = generation (auth s) \<or>
      generation (auth (oauth_step cj s e)) = next_generation (generation (auth s))"
    using assms by (auto simp: starts_def after_op_def or_refused_def openai_oauth_start_locked_def device_start_locked_def Let_def
        clear_pending_sensitive_locked_def
        split: oauth_event.splits option.splits prod.splits if_splits)
  show "p \<in> set (ops (oauth_step cj s e)) \<Longrightarrow> p \<in> set (ops s) \<or> p = Registering (generation (auth (oauth_step cj s e)))"
    using assms keep by (auto simp: starts_def after_op_def or_refused_def
        split: oauth_event.splits option.splits prod.splits if_splits)
qed

lemma step_generation:
  "generation (auth (oauth_step cj s e)) = generation (auth s) \<or>
   generation (auth (oauth_step cj s e)) = next_generation (generation (auth s))"
  using step_starts(1) [where e = e and cj = cj and s = s] step_state [where e = e and s = s and cj = cj]
  by (auto simp: calm_def cancelled_to_def registers_def)

lemma next_generation_small: "g < 2 ^ 64 - 1 \<Longrightarrow> next_generation g = g + 1"
  by (simp add: next_generation_def)

lemma step_current:
  assumes "ops_current s" and "generation (auth s) < 2 ^ 64 - 1"
  shows "ops_current (oauth_step cj s e)"
proof (cases "starts e")
  case True
  note g = step_starts(1) [OF True, where cj = cj and s = s] next_generation_small [OF assms(2)]
  show ?thesis unfolding ops_current_def
  proof (intro allI impI)
    fix p g assume p: "p \<in> set (ops (oauth_step cj s e))" "op_gen p = Some g"
    from step_starts(2) [OF True p(1)] show "g \<le> generation (auth (oauth_step cj s e))"
      using g assms(1) p(2) by (fastforce simp: ops_current_def op_gen_def)
  qed
next
  case False
  have le: "generation (auth s) \<le> generation (auth (oauth_step cj s e))"
    using step_generation [where cj = cj and s = s and e = e] next_generation_small [OF assms(2)] by auto
  show ?thesis unfolding ops_current_def
  proof (intro allI impI)
    fix p g assume p: "p \<in> set (ops (oauth_step cj s e))" "op_gen p = Some g"
    from step_ops [OF p(1)] show "g \<le> generation (auth (oauth_step cj s e))"
    proof
      assume "p \<in> set (ops s)"
      with assms(1) p(2) le show ?thesis by (fastforce simp: ops_current_def)
    next
      assume n: "new_op s e (auth (oauth_step cj s e)) p"
      then have "g \<le> generation (auth s) \<or> (\<exists>q. q \<in> set (ops s) \<and> op_gen q = Some g)"
        using p(2) False by (auto simp: new_op_def op_gen_def split: op.splits)
      with assms(1) le show ?thesis by (auto simp: ops_current_def intro: le_trans)
    qed
  qed
qed

lemma step_stale:
  assumes "all_stale s" and "generation (auth s) < 2 ^ 64 - 1" and "\<not> starts e"
  shows "all_stale (oauth_step cj s e)"
proof -
  have le: "generation (auth s) \<le> generation (auth (oauth_step cj s e))"
    using step_generation [where cj = cj and s = s and e = e] next_generation_small [OF assms(2)] by auto
  have no_reg: "\<not> registers s e b" for b
    using assms(1) by (auto simp: registers_def all_stale_def op_gen_def)
  then have "login_state (auth (oauth_step cj s e)) = None \<and> device_auth_id (auth (oauth_step cj s e)) = None"
    using step_state [OF assms(3), where s = s and cj = cj] assms(1) by (auto simp: calm_def cancelled_to_def all_stale_def)
  moreover have "g < generation (auth (oauth_step cj s e))"
    if p: "p \<in> set (ops (oauth_step cj s e))" "op_gen p = Some g" for p g
  proof -
    have "p \<in> set (ops s) \<or> (\<exists>q. q \<in> set (ops s) \<and> op_gen q = Some g)"
      using step_ops [OF p(1)] p(2) assms(1,3) by (auto simp: new_op_def op_gen_def all_stale_def split: op.splits)
    with assms(1) p(2) le show ?thesis by (auto simp: all_stale_def intro: less_le_trans)
  qed
  ultimately show ?thesis by (simp add: all_stale_def)
qed

text \<open>Nothing can put tokens into memory except an attachment: no login that is current, no refresh.\<close>

definition attaches :: "oauth_event \<Rightarrow> bool" where
  "attaches e = (case e of AttachEnds session loads \<Rightarrow> True | _ \<Rightarrow> False)"

text \<open>No token in memory and no row in the store.\<close>

definition forgotten :: "oauth \<Rightarrow> bool" where
  "forgotten a \<longleftrightarrow> access_token a = None \<and> (\<forall>row. vault a \<noteq> Some (Some row))"

definition nobody :: "oauth_sys \<Rightarrow> bool" where
  "nobody s \<longleftrightarrow> all_stale s \<and> forgotten (auth s) \<and> (\<forall>ticket. Refreshing ticket \<notin> set (ops s))"

lemma forgotten_core: "core b = core a \<Longrightarrow> forgotten b = forgotten a"
  by (simp add: core_def held_def forgotten_def)

lemma core_stale:
  assumes "generation a \<noteq> gen"
  shows "core (snd (callback_exchanged cj saves gen t now a)) = core a"
    and "core (snd (device_exchanged cj saves gen t now a)) = core a"
proof -
  have c: "snd (complete_callback_tokens cj saves gen json now a) = a" for json
    using assms by (simp add: complete_callback_tokens_def split: option.split)
  then have c': "complete_callback_tokens cj saves gen json now a = (rc, b) \<Longrightarrow> b = a" for json rc b
    by (metis snd_conv)
  show "core (snd (callback_exchanged cj saves gen t now a)) = core a"
    using assms c by (simp add: callback_exchanged_def split: prod.split)
  show "core (snd (device_exchanged cj saves gen t now a)) = core a"
    by (auto simp: device_exchanged_def split: prod.split if_splits dest: c')
qed

lemma step_nobody:
  assumes "nobody s" and "generation (auth s) < 2 ^ 64 - 1" and "\<not> starts e" "\<not> attaches e"
  shows "nobody (oauth_step cj s e)"
proof -
  have n: "forgotten (auth s)" "\<And>t. Refreshing t \<notin> set (ops s)" "all_stale s"
    using assms(1) unfolding nobody_def by blast+
  have stale: "p \<in> set (ops s) \<Longrightarrow> op_gen p = Some g \<Longrightarrow> generation (auth s) \<noteq> g" for p g
    using n(3) by (auto simp: all_stale_def)
  have keep: "forgotten (auth (after_op p f s))"
    if "p \<in> set (ops s) \<Longrightarrow> core (fst (f (auth s))) = core (auth s)" for p f
    using that n(1) by (auto simp: after_op_def split: prod.split dest: forgotten_core)
  have begun: "forgotten (auth (begin_op f s))" if "core (fst (f (auth s))) = core (auth s)" for f
    using forgotten_core [OF that] n(1) by (auto simp: begin_op_def split: prod.split)
  have same: "forgotten (auth (after_op p f s))" if "core (fst (f (auth s))) = core (auth s)" for p f
    by (rule keep) (rule that)
  have "forgotten (auth (oauth_step cj s e))"
  proof (cases e)
    case (Exchanged gen code ver t now saves)
    then show ?thesis
      using stale [of "Exchanging gen code ver" gen] by (auto simp: op_gen_def core_stale intro!: keep)
  next
    case (DeviceExchanged gen code ver t now saves)
    then show ?thesis
      using stale [of "DeviceExchanging gen code ver" gen]
      by (auto simp: op_gen_def core_stale case_prod_beta intro!: keep)
  next
    case DestroyEnds
    then show ?thesis using n by (auto simp: forgotten_def after_op_def openai_oauth_destroyed_def clear_credentials_locked_def)
  next
    case (Refreshed ticket t now saves deletes)
    then show ?thesis using n by (simp add: after_op_def)
  next
    case (LogoutEnds deletes)
    then show ?thesis using n
      by (auto simp: forgotten_def after_op_def logout_finish_def Let_def clear_pending_sensitive_locked_def clear_credentials_locked_def)
  next
    case AttachClears
    then show ?thesis using n by (auto simp: forgotten_def after_op_def attach_clear_def clear_credentials_locked_def)
  qed (use assms(3,4) n in \<open>auto simp: starts_def attaches_def or_refused_def
      intro!: begun same split: option.split sum.split prod.split dest: core_results\<close>)
  moreover have "Refreshing t \<notin> set (ops (oauth_step cj s e))" for t
    using step_ops [of "Refreshing t" cj s e] n by (auto simp: new_op_def forgotten_def)
  ultimately show ?thesis
    using step_stale [OF n(3) assms(2,3)] by (simp add: nobody_def)
qed

lemma nobody_stays:
  assumes "nobody s" and "list_all (\<lambda>e. \<not> starts e \<and> \<not> attaches e) es"
    and "generation (auth s) + length es < 2 ^ 64"
  shows "nobody (run (oauth_step cj) s es)"
  using assms
proof (induction es arbitrary: s)
  case (Cons e es)
  have g: "generation (auth s) < 2 ^ 64 - 1" using Cons.prems(3) by simp
  have "generation (auth (oauth_step cj s e)) \<le> generation (auth s) + 1"
    using step_generation [where cj = cj and s = s and e = e] next_generation_small [OF g] by auto
  then show ?case
    using Cons.IH [of "oauth_step cj s e"] step_nobody [OF Cons.prems(1) g, where e = e and cj = cj] Cons.prems(2,3)
    by simp
qed simp

lemma stale_stays:
  assumes "all_stale s" and "list_all (\<lambda>e. \<not> starts e) es" and "generation (auth s) + length es < 2 ^ 64"
  shows "all_stale (run (oauth_step cj) s es) \<and>
    generation (auth (run (oauth_step cj) s es)) \<le> generation (auth s) + length es"
  using assms
proof (induction es arbitrary: s)
  case (Cons e es)
  have g: "generation (auth s) < 2 ^ 64 - 1" using Cons.prems(3) by simp
  have "generation (auth (oauth_step cj s e)) \<le> generation (auth s) + 1"
    using step_generation [where cj = cj and s = s and e = e] next_generation_small [OF g] by auto
  then show ?case
    using Cons.IH [of "oauth_step cj s e"] step_stale [OF Cons.prems(1) g, where e = e and cj = cj] Cons.prems(2,3)
    by force
qed simp

lemma current_run:
  assumes "ops_current s" and "generation (auth s) + length es < 2 ^ 64"
  shows "ops_current (run (oauth_step cj) s es) \<and>
    generation (auth (run (oauth_step cj) s es)) \<le> generation (auth s) + length es"
  using assms
proof (induction es arbitrary: s)
  case (Cons e es)
  have g: "generation (auth s) < 2 ^ 64 - 1" using Cons.prems(2) by simp
  have "generation (auth (oauth_step cj s e)) \<le> generation (auth s) + 1"
    using step_generation [where cj = cj and s = s and e = e] next_generation_small [OF g] by auto
  then show ?case
    using Cons.IH [of "oauth_step cj s e"] step_current [OF Cons.prems(1) g, where e = e and cj = cj] Cons.prems(2)
    by force
qed simp

text \<open>What the sections of a sign-out do.\<close>

lemma logout_makes_stale:
  assumes "ops_current s" and "lifecycle_begin (auth s) = Some b" and "generation (auth s) < 2 ^ 64 - 1"
  shows "all_stale (oauth_step cj s LogoutBegins)" "generation (auth (oauth_step cj s LogoutBegins)) = generation (auth s) + 1"
proof -
  have b: "generation b = generation (auth s) + 1" "login_state b = None" "device_auth_id b = None"
    using cancelled_sections(1) [OF assms(2)] next_generation_small [OF assms(3)] by (simp_all add: cancelled_to_def)
  have s': "oauth_step cj s LogoutBegins = \<lparr>auth = b, ops = LoggingOut # ops s\<rparr>"
    using assms(2) by (simp add: begin_op_def or_refused_def)
  show "all_stale (oauth_step cj s LogoutBegins)"
    unfolding s' using assms(1) b by (auto simp: all_stale_def ops_current_def op_gen_def)
  show "generation (auth (oauth_step cj s LogoutBegins)) = generation (auth s) + 1"
    using s' b by simp
qed

lemma logout_ends_nobody:
  assumes "sys_inv cj s" and "all_stale s" and "quiet (auth s)" and "LoggingOut \<in> set (ops s)"
  shows "nobody (oauth_step cj s (LogoutEnds True))"
    and "generation (auth (oauth_step cj s (LogoutEnds True))) = generation (auth s)"
proof -
  let ?b = "snd (logout_finish True (auth s))"
  have s': "oauth_step cj s (LogoutEnds True) = \<lparr>auth = ?b, ops = remove1 LoggingOut (ops s)\<rparr>"
    using assms(3,4) by (simp add: after_op_def)
  have b: "generation ?b = generation (auth s)" "login_state ?b = None" "device_auth_id ?b = None"
    by (simp_all add: logout_finish_def Let_def clear_pending_sensitive_locked_def clear_credentials_locked_def)
  have "vault (auth s) = None \<Longrightarrow> access_token (auth s) = None"
    using sys_inv_parts(1) [OF assms(1)] by (auto simp: kept_ok_def split: if_splits)
  then have acc: "forgotten ?b"
    by (simp add: forgotten_def logout_finish_def Let_def clear_pending_sensitive_locked_def clear_credentials_locked_def)
  have "Refreshing t \<notin> set (ops s)" for t
    using sys_inv_parts(5) [OF assms(1), of "Refreshing t"] assms(3) by (auto simp: quiet_def)
  moreover have "p \<in> set (remove1 LoggingOut (ops s)) \<Longrightarrow> p \<in> set (ops s)" for p by (meson notin_set_remove1)
  ultimately show "nobody (oauth_step cj s (LogoutEnds True))"
    unfolding s' nobody_def using assms(2) b acc by (auto simp: all_stale_def) blast
  show "generation (auth (oauth_step cj s (LogoutEnds True))) = generation (auth s)"
    using s' b by simp
qed

text \<open>
  C30: signed out stays signed out. After any history, once a sign-out has been accepted, and provided
  no login begins before it ends: when its last section has run and deleted the row, no thread that
  was under way (a browser login waiting for its answer, a poll, an exchange, a refresh) can bring
  tokens back, whatever it still receives. Until a new login starts or a session is attached there
  are no tokens and no account in memory, and no row in the store. (A login that begins while the
  sign-out waits is excluded for a reason: \<open>exchange_survives_logout\<close>.)
\<close>

theorem signed_out_stays_signed_out:
  fixes cj :: "('j, 'x) cjson_strict_scheme"
  assumes "lifecycle_begin (auth (run (oauth_step cj) oauth_init es1)) \<noteq> None"
    and "list_all (\<lambda>e. \<not> starts e) es2"
    and "let s2 = run (oauth_step cj) oauth_init (es1 @ LogoutBegins # es2)
         in quiet (auth s2) \<and> LoggingOut \<in> set (ops s2)"
    and "list_all (\<lambda>e. \<not> starts e \<and> \<not> attaches e) es3"
    and "length (es1 @ es2 @ es3) < 2 ^ 64 - 1"
  shows "let a = auth (run (oauth_step cj) oauth_init (es1 @ LogoutBegins # es2 @ LogoutEnds True # es3))
    in access_token a = None \<and> refresh_token a = None \<and> account_id a = None \<and> plan_type a = None \<and>
      (\<forall>row. vault a \<noteq> Some (Some row))"
proof -
  let ?run = "run (oauth_step cj)" and ?s1 = "run (oauth_step cj) oauth_init es1"
  let ?s2 = "?run (oauth_step cj ?s1 LogoutBegins) es2"
  let ?s3 = "?run (oauth_step cj ?s2 (LogoutEnds True)) es3"
  have start: "ops_current oauth_init" "generation (auth oauth_init) = 0"
    by (simp_all add: ops_current_def oauth_init_def openai_oauth_create_def)
  have g1: "ops_current ?s1" "generation (auth ?s1) \<le> length es1"
    using current_run [OF start(1), where es = es1 and cj = cj] start(2) assms(5) by simp_all
  obtain b where b: "lifecycle_begin (auth ?s1) = Some b" using assms(1) by blast
  have small: "generation (auth ?s1) < 2 ^ 64 - 1" using g1(2) assms(5) by simp
  have l: "all_stale (oauth_step cj ?s1 LogoutBegins)"
    "generation (auth (oauth_step cj ?s1 LogoutBegins)) = generation (auth ?s1) + 1"
    using logout_makes_stale [OF g1(1) b small, where cj = cj] by simp_all
  have g2: "all_stale ?s2" "generation (auth ?s2) \<le> length es1 + 1 + length es2"
    using stale_stays [OF l(1) assms(2), where cj = cj] l(2) g1(2) assms(5) by simp_all
  have s2: "?run oauth_init (es1 @ LogoutBegins # es2) = ?s2" by (simp add: run_append del: oauth_step.simps)
  have inv2: "sys_inv cj ?s2" using oauth_machine.inv_reachable [of cj "es1 @ LogoutBegins # es2"] unfolding s2 .
  have q: "quiet (auth ?s2)" "LoggingOut \<in> set (ops ?s2)" using assms(3) s2 by (simp_all add: Let_def)
  have "nobody ?s3"
    using nobody_stays [OF logout_ends_nobody(1) [OF inv2 g2(1) q] assms(4), where cj = cj]
      logout_ends_nobody(2) [OF inv2 g2(1) q] g2(2) assms(5) by simp
  moreover have s3: "?run oauth_init (es1 @ LogoutBegins # es2 @ LogoutEnds True # es3) = ?s3" by (simp add: run_append del: oauth_step.simps)
  moreover have "kept_ok cj (auth ?s3)"
    using oauth_machine.inv_reachable [of cj "es1 @ LogoutBegins # es2 @ LogoutEnds True # es3"]
    unfolding s3 by (simp add: sys_inv_def)
  ultimately show ?thesis by (simp add: nobody_def forgotten_def kept_ok_def Let_def)
qed

text \<open>A login in the browser whose answer arrives before the sign-out and whose tokens arrive after it.\<close>

definition early_events :: "oauth_event list" where
  "early_events =
     [AttachBegins, AttachClears, AttachEnds (Some None) True, Reap, Start ''st'' ''ver'' ''ch'' ''login'' True,
      Callback 2 (Some \<lparr>cb_code = Some ''code'', cb_state = Some ''st'', cb_denial = None\<rparr>)]"

definition late_events :: "oauth_event list" where
  "late_events =
     [Exchanged 2 ''code'' ''ver'' \<lparr>t_aborted = False, t_curl_ok = True, t_status = 200,
        t_body = Some ''{}'', t_cancelled = False\<rparr> 7 True, ThreadEnds 2 False, GetToken True 7]"

lemma first_generations: "next_generation 0 = 1" "next_generation 1 = 2" "next_generation (Suc 0) = 2" "next_generation 2 = 3"
  by (simp_all add: next_generation_def)

text \<open>The state after an attachment, after the login began, and after its answer.\<close>

definition fresh_auth :: oauth where
  "fresh_auth = openai_oauth_create\<lparr>generation := 1, vault := Some None\<rparr>"

definition login_auth :: oauth where
  "login_auth = openai_oauth_create\<lparr>generation := 2, vault := Some None, callback_active := True,
     login_id := Some ''login'', login_state := Some ''st'', verifier := Some ''ver'', challenge := Some ''ch''\<rparr>"

definition answered_auth :: oauth where
  "answered_auth = openai_oauth_create\<lparr>generation := 2, vault := Some None, callback_active := True,
     login_id := Some ''login''\<rparr>"

lemma attach_run:
  "run (oauth_step (doc_strict [])) oauth_init [AttachBegins, AttachClears, AttachEnds (Some None) True] =
     \<lparr>auth = fresh_auth, ops = []\<rparr>"
proof -
  let ?b = "openai_oauth_create\<lparr>generation := 1, stop_requested := True, lifecycle_busy := True\<rparr>"
  have 1: "oauth_step (doc_strict []) oauth_init AttachBegins = \<lparr>auth = ?b, ops = [AttachWaiting]\<rparr>"
    by (simp add: oauth_init_def begin_op_def or_refused_def lifecycle_begin_def cancel_callback_locked_def
        clear_pending_sensitive_locked_def openai_oauth_create_def first_generations)
  have 2: "oauth_step (doc_strict []) \<lparr>auth = ?b, ops = [AttachWaiting]\<rparr> AttachClears = \<lparr>auth = ?b, ops = [AttachLoading]\<rparr>"
    by (simp add: after_op_def quiet_def attach_clear_def clear_credentials_locked_def openai_oauth_create_def)
  have 3: "oauth_step (doc_strict []) \<lparr>auth = ?b, ops = [AttachLoading]\<rparr> (AttachEnds (Some None) True) =
      \<lparr>auth = fresh_auth, ops = []\<rparr>"
    by (simp add: after_op_def attach_finish_def Let_def openai_oauth_create_def fresh_auth_def)
  show ?thesis by (simp only: run.simps 1 2 3)
qed

lemma early_run:
  "run (oauth_step (doc_strict [])) oauth_init early_events = \<lparr>auth = answered_auth, ops = [Exchanging 2 ''code'' ''ver'']\<rparr>"
proof -
  have 4: "oauth_step (doc_strict []) \<lparr>auth = fresh_auth, ops = []\<rparr> Reap = \<lparr>auth = fresh_auth, ops = [Reaped]\<rparr>"
    by (simp add: begin_op_def reap_previous_callback_def fresh_auth_def openai_oauth_create_def)
  have 5: "oauth_step (doc_strict []) \<lparr>auth = fresh_auth, ops = [Reaped]\<rparr> (Start ''st'' ''ver'' ''ch'' ''login'' True) =
      \<lparr>auth = login_auth, ops = []\<rparr>"
    by (simp add: after_op_def or_refused_def openai_oauth_start_locked_def clear_pending_sensitive_locked_def
        fresh_auth_def login_auth_def openai_oauth_create_def first_generations)
  have 6: "oauth_step (doc_strict []) \<lparr>auth = login_auth, ops = []\<rparr>
        (Callback 2 (Some \<lparr>cb_code = Some ''code'', cb_state = Some ''st'', cb_denial = None\<rparr>)) =
      \<lparr>auth = answered_auth, ops = [Exchanging 2 ''code'' ''ver'']\<rparr>"
    by (simp add: begin_op_def process_callback_locked_def Let_def state_matches_def clear_pending_sensitive_locked_def
        login_auth_def answered_auth_def openai_oauth_create_def)
  have e: "early_events = [AttachBegins, AttachClears, AttachEnds (Some None) True] @
      [Reap, Start ''st'' ''ver'' ''ch'' ''login'' True,
       Callback 2 (Some \<lparr>cb_code = Some ''code'', cb_state = Some ''st'', cb_denial = None\<rparr>)]"
    by (simp add: early_events_def)
  show ?thesis unfolding e run_append attach_run by (simp only: run.simps 4 5 6)
qed

theorem signed_out_stays_signed_out_witness:
  "let a = auth (run (oauth_step (doc_strict [])) oauth_init
     (early_events @ LogoutBegins # [ThreadEnds 2 True] @ LogoutEnds True # late_events))
   in access_token a = None \<and> refresh_token a = None \<and> account_id a = None \<and> plan_type a = None \<and>
      (\<forall>row. vault a \<noteq> Some (Some row))"
proof (rule signed_out_stays_signed_out)
  show "lifecycle_begin (auth (run (oauth_step (doc_strict [])) oauth_init early_events)) \<noteq> None"
    unfolding early_run by (simp add: answered_auth_def openai_oauth_create_def lifecycle_begin_def)
  show "let s2 = run (oauth_step (doc_strict [])) oauth_init (early_events @ LogoutBegins # [ThreadEnds 2 True])
    in quiet (auth s2) \<and> LoggingOut \<in> set (ops s2)"
    unfolding run_append early_run
    by (simp add: begin_op_def or_refused_def lifecycle_begin_def cancel_callback_locked_def callback_finish_def
        clear_pending_sensitive_locked_def answered_auth_def openai_oauth_create_def first_generations quiet_def Let_def)
qed (simp_all add: early_events_def late_events_def starts_def attaches_def)

section \<open>What the code does not promise\<close>

text \<open>
  A login may begin while a sign-out waits for a refresh: the section that starts it does not look at
  \<open>lifecycle_busy\<close>. If its answer has come when the sign-out ends, its tokens are stored afterwards.
\<close>

lemma login_begins_during_logout:
  "vault a \<noteq> None \<Longrightarrow> \<not> callback_active a \<Longrightarrow> \<not> destroying a \<Longrightarrow>
     \<exists>b. openai_oauth_start_locked st ver ch login True (a\<lparr>lifecycle_busy := True\<rparr>) = Some b \<and> \<not> stop_requested b"
  by (auto simp: openai_oauth_start_locked_def clear_pending_sensitive_locked_def)

lemma exchange_survives_logout:
  assumes "token_set_parse cj json None None None now = Some c" and "credentials_json cj c = Some doc"
    and "vault a \<noteq> None" and "generation a = gen"
  shows "access_token (snd (complete_callback_tokens cj True gen json now (snd (logout_finish True a)))) = c_access c"
  using assms
  by (auto simp: logout_finish_def complete_callback_tokens_def persist_staged_locked_def Let_def
      clear_pending_sensitive_locked_def clear_credentials_locked_def commit_credentials_locked_def)

text \<open>
  A poll that fails for a passing reason ends the login: the next poll is told that it is over.
\<close>

lemma transient_poll_ends_login:
  assumes "\<not> t_cancelled t" "\<not> t_aborted t" "t_curl_ok t" "t_status t = 503" "t_body t = None"
    and "exact_json_object cj None = None" and "generation a = gen"
  shows "device_poll_answer cj t = PollEnd OPENAI_OAUTH_DEVICE_TRANSIENT \<and>
    fst (device_poll_begin login now' (device_poll_finished gen OPENAI_OAUTH_DEVICE_TRANSIENT a)) =
      PollReturns OPENAI_OAUTH_DEVICE_TERMINAL"
  using assms
  by (simp add: device_poll_answer_def device_error_result_def Let_def device_poll_finished_def
      device_poll_begin_def clear_pending_sensitive_locked_def set_error_locked_def)

text \<open>The redirect of an earlier login, or a forged one, changes the error that is shown.\<close>

lemma stale_callback_sets_error:
  "generation a \<noteq> gen \<Longrightarrow>
     last_error (snd (snd (process_callback_locked gen cb a))) = Some ''Invalid OpenAI OAuth state''"
  by (simp add: process_callback_locked_def Let_def set_error_locked_def)

end
