(* ===== verification/Spec2Isabelle.thy ===== *)
theory Spec2Isabelle
  imports CString HtmlUnicode ContextWindow ChangeTracker CircuitBreaker HttpRequest Middleware
    WebSocket ConfigFile Safety Keymap LineEditor OauthCodec EditDiff Tools EditTool HtmlText HtmlTags HtmlExtract
    HtmlAssembly RateLimiter TuiText TuiChat TuiEvents MdInline MdTable Registry AgentTools
    AgentLoop AgentProtocol AgentTitle CJson OpenaiCompat
    SessionMessages SessionStore SessionBranch FileRead FileWrite
    OauthCallback OauthTokens OauthFlow
begin

text \<open>
  A verification development for Echo, an agent server with a chat interface, written in C.
  File names are relative to the directory \<open>src/\<close> of the repository.

  \<^bold>\<open>The program.\<close> A question reaches the agent over HTTP or a web socket
  (\<open>server/\<close>) or from the terminal interface (\<open>tui/\<close>). The agent (\<open>agent/\<close>)
  sends the conversation, cut to the model's context window, to a provider (\<open>llm/\<close>), works
  through the tool calls of the answer (\<open>tools/\<close>) behind the safety policy
  (\<open>safety/\<close>), appends their results to the conversation and asks again until there is an
  answer without calls. Conversations, with branches, are rows of a database (\<open>session/\<close>);
  changes to files can be undone (\<open>change_tracker/\<close>); pages from the web are reduced to text
  for the model (\<open>utils/html_*\<close>). Accounts of one provider sign in with OAuth.

  \<^bold>\<open>Conventions.\<close> Definitions have the names of the C functions they translate, or, for a
  part of a function, a name of their own; static tables and macros are definitions too. A struct is
  a record with its fields, an enumeration a datatype or its numbers, a pointer that the code tests
  against NULL an option (\<open>cptr\<close> for strings), an array with its count a list. The bytes of a C
  string are a \<open>string\<close>. Integers keep their width (as words, or with the bound written out)
  where the code can reach it. What lies outside the sources, the C library's files and paths,
  SQLite, OpenSSL, libcurl, libuv, cJSON, clocks, other threads and often the success of an
  allocation, is an argument of the definitions, so that a theorem speaks of everything these may
  do; where a theorem needs a law of theirs (that printed JSON is parsed back, that
  \<open>realpath\<close> gives canonical names) the law is a hypothesis with that name. Each theory says at
  its start what it takes to succeed.

  \<^bold>\<open>Theories and code.\<close>

  \<^item> \<open>Prelude\<close>, \<open>CString\<close>, \<open>CJson\<close>: C strings and searches, the interfaces
    \<open>codec\<close> and \<open>machine\<close>, \<open>utils/string_utils.c\<close>, the JSON library as used.

  \<^item> \<open>Tools\<close>, \<open>Registry\<close>, \<open>AgentTools\<close>, \<open>AgentTitle\<close>, \<open>AgentLoop\<close>,
    \<open>AgentProtocol\<close>: \<open>tools/tool.c\<close>, \<open>tools/registry.c\<close> and \<open>agent/\<close>. The state is
    the record \<open>agent\<close> with a trace of events; the surroundings are a function of the trace.
    \<open>agent_run_new\<close> and \<open>agent_run_streaming_new\<close> are composed as the code composes them,
    from the prompt over the model call, the tool calls and the saving to the title of the session.

  \<^item> \<open>ContextWindow\<close>: \<open>agent/context.c\<close> and the message record, used by the agent, the
    store and the provider.

  \<^item> \<open>OpenaiCompat\<close>: \<open>llm/openai_compatible.c\<close> and its stream parser.

  \<^item> \<open>OauthCodec\<close>, \<open>OauthCallback\<close>, \<open>OauthTokens\<close>, \<open>OauthFlow\<close>:
    \<open>llm/oauth_*.c\<close> and \<open>llm/openai_oauth.c\<close>. \<open>OauthFlow\<close> has one step for each section
    under the manager's lock; runs are the interleavings of any number of threads.

  \<^item> \<open>Safety\<close>, \<open>ConfigFile\<close>, \<open>ChangeTracker\<close>, \<open>FileRead\<close>, \<open>FileWrite\<close>,
    \<open>EditDiff\<close>, \<open>EditTool\<close>: the policy, the configuration file, undo, and the tools that read,
    write and edit files. The files are a map from canonical paths, directories and symbolic links
    are parameters.

  \<^item> \<open>SessionMessages\<close>, \<open>SessionStore\<close>, \<open>SessionBranch\<close>: \<open>agent/message.c\<close>,
    \<open>session/session.c\<close>, \<open>session_serialize.c\<close>, \<open>session_manager.c\<close>,
    \<open>session_purge.c\<close>, \<open>session_branch.c\<close>, \<open>session_branch_info.c\<close>. A table is a map from
    ids to rows; an operation holds the store's lock and is one step.

  \<^item> \<open>HttpRequest\<close>, \<open>Middleware\<close>, \<open>WebSocket\<close>, \<open>RateLimiter\<close>: \<open>server/http_parse.c\<close>
    with the read loop of \<open>server/server.c\<close>, \<open>server/middleware.c\<close>, \<open>server/websocket.c\<close>,
    \<open>utils/rate_limiter.c\<close> with the guard of \<open>server/routes/routes_auth.c\<close>.

  \<^item> \<open>HtmlUnicode\<close>, \<open>HtmlText\<close>, \<open>HtmlTags\<close>, \<open>HtmlExtract\<close>, \<open>HtmlAssembly\<close>:
    \<open>utils/html_*.c\<close>, bottom up.

  \<^item> \<open>Keymap\<close>, \<open>LineEditor\<close>, \<open>TuiText\<close>, \<open>TuiChat\<close>, \<open>TuiEvents\<close>, \<open>MdInline\<close>,
    \<open>MdTable\<close>: \<open>tui/tui_keys.c\<close>, \<open>tui_input.c\<close>, \<open>tui_chat.c\<close>, \<open>tui_events.c\<close>,
    \<open>markdown.c\<close> and the reply events of \<open>tui.c\<close>.

  \<^item> \<open>CircuitBreaker\<close>: \<open>utils/circuit_breaker.c\<close>, used by the agent before each model call.

  \<^bold>\<open>What the lemmas show.\<close>

  \<^item> Safety of what the model can cause: tools run only when they are registered, on and approved;
    calls are answered one for one; resolved paths and written files stay in the workspace, and
    where a dangling symbolic link breaks that is stated; edits replace exactly what was matched
    and are atomic; undo restores.

  \<^item> Input from outside: a request may be cut into chunks anywhere; the gate opens for exactly the
    requests given; frames are delivered unmasked and in order; guesses of the password are bounded in
    every 60 seconds; the redirect of a sign-in is accepted only in its exact form; event streams are
    read whatever the pieces.

  \<^item> State that survives: sessions always load, edits change exactly one session, branches are never
    lost and can be switched there and back; credentials in memory are those that are stored, and a
    sign-out is not undone by threads that were under way.

  \<^item> Text: UTF-8 validation is exact; extracted pages fit their budget and are UTF-8; wrapped lines
    partition the text; markdown shows the text; the cursor stays on character boundaries; the
    scrollback's cache is current; events are neither lost nor doubled.

  Where the code does not do what it means to, or what a comment says, a lemma proves the behaviour
  at an example; these stand in sections of their own at the ends of the theories.

  \<^bold>\<open>Loops and bounds.\<close> Loops are recursive functions that terminate by a measure on the bytes
  or entries left, without fuel. Bounded loops of the code recurse on their own bound: the run of the
  agent on \<open>max_iterations\<close>, the wait for a later clock reading on its 16 readings, backward
  scans on the position. The loops over the bytes of a page stop because every round moves forward
  (\<open>parse_terminates\<close>). Fixed buffers (headers, lines of the configuration, markdown runs, links
  of a page, the ring of events, the history) keep the sizes of the code, and the copies into them its
  checks; a read or write outside is an outcome of its own where the code allows it
  (\<open>ContextWindow\<close>, \<open>HtmlAssembly\<close>). Runs of components are lists of events; invariants are
  proved for all lists through the interface \<open>machine\<close>, which \<open>guarded_machine\<close> generalises to
  events with a condition.

  \<^bold>\<open>Not modelled.\<close> Processes, sockets, drawing and worker threads (\<open>main.c\<close>, \<open>browser/\<close>,
  most of \<open>server/\<close> and \<open>tui/\<close>); the providers other than the compatible one, and the tools
  beyond files, whose substance is JSON, processes or the network; SQL statements and migrations
  below the session store; encryption; metrics and logs, which only observe. Freeing memory is not
  modelled; the few uses of freed memory that modelling showed are lemmas of the theory concerned.
\<close>

end
